(* ===== verification/Prelude.thy ===== *)
theory Prelude
  imports Main "HOL-Library.Word" "HOL-Library.Multiset"
begin

text \<open>
  Vocabulary shared by every component theory: Rust's machine integers, the two outcomes of
  code that may panic, saturating arithmetic, and the string searches of the standard library
  that the header codec is written with. A Rust \<open>&str\<close> or \<open>&[u8]\<close> holding text is a
  \<^typ>\<open>string\<close> (one \<^typ>\<open>char\<close> per byte); a binary payload is a list of \<open>u8\<close>.
\<close>

unbundle bit_operations_syntax

type_synonym u8 = "8 word"
type_synonym u16 = "16 word"
type_synonym u32 = "32 word"
type_synonym u64 = "64 word"
type_synonym u128 = "128 word"

named_theorems sat_simps \<open>saturating and clamped machine arithmetic in terms of \<open>unat\<close>\<close>
named_theorems exec_simps \<open>running code that may panic\<close>

section \<open>Panics\<close>

text \<open>Code that may panic returns \<open>Done\<close> of its value, or \<open>Panic\<close>.\<close>

datatype 'a exec = Panic | Done 'a

fun bind_exec :: "'a exec \<Rightarrow> ('a \<Rightarrow> 'b exec) \<Rightarrow> 'b exec" where
  "bind_exec Panic f = Panic"
| "bind_exec (Done x) f = f x"

fun map_exec :: "('a \<Rightarrow> 'b) \<Rightarrow> 'a exec \<Rightarrow> 'b exec" where
  "map_exec f Panic = Panic"
| "map_exec f (Done x) = Done (f x)"

lemma bind_exec_Done [exec_simps]: "bind_exec m f = Done y \<longleftrightarrow> (\<exists>x. m = Done x \<and> f x = Done y)"
  by (cases m) auto

lemma map_exec_Done [exec_simps]: "map_exec f m = Done y \<longleftrightarrow> (\<exists>x. m = Done x \<and> y = f x)"
  by (cases m) auto

section \<open>Comparison\<close>

text \<open>\<open>std::cmp::Ordering\<close> and the comparison of two \<open>u64\<close>.\<close>

datatype rust_ordering = Less | Equal | Greater

definition u64_cmp :: "u64 \<Rightarrow> u64 \<Rightarrow> rust_ordering" where
  "u64_cmp a b = (if a < b then Less else if a = b then Equal else Greater)"

lemma u64_cmp_Less [simp]: "u64_cmp a b = Less \<longleftrightarrow> a < b"
  by (simp add: u64_cmp_def)

lemma u64_cmp_Greater [simp]: "u64_cmp a b = Greater \<longleftrightarrow> b < a"
  by (auto simp: u64_cmp_def)

section \<open>Saturating arithmetic\<close>

definition saturating_add :: "'a::len word \<Rightarrow> 'a word \<Rightarrow> 'a word" where
  "saturating_add a b = (if a + b < a then - 1 else a + b)"

definition saturating_sub :: "'a::len word \<Rightarrow> 'a word \<Rightarrow> 'a word" where
  "saturating_sub a b = (if a < b then 0 else a - b)"

lemma word_add_no_wrap:
  fixes a b :: "'a::len word"
  shows "a \<le> a + b \<longleftrightarrow> unat a + unat b < 2 ^ LENGTH('a)"
  by (meson no_olen_add_nat)

lemma unat_minus_one_word: "unat (- 1 :: 'a::len word) = 2 ^ LENGTH('a) - 1"
  by (simp add: unsigned_minus_1_eq_mask mask_eq_exp_minus_1)

lemma unat_saturating_add [sat_simps]:
  fixes a b :: "'a::len word"
  shows "unat (saturating_add a b) = min (unat a + unat b) (2 ^ LENGTH('a) - 1)"
proof (cases "a \<le> a + b")
  case True
  then have "unat a + unat b < 2 ^ LENGTH('a)" by (simp add: word_add_no_wrap)
  moreover from this have "unat (a + b) = unat a + unat b" by (simp add: unat_add_lem)
  ultimately show ?thesis using True by (auto simp: saturating_add_def)
next
  case False
  then have "\<not> unat a + unat b < 2 ^ LENGTH('a)" by (simp add: word_add_no_wrap)
  with False show ?thesis
    by (auto simp: saturating_add_def unat_minus_one_word)
qed

lemma unat_saturating_sub [sat_simps]:
  fixes a b :: "'a::len word"
  shows "unat (saturating_sub a b) = unat a - unat b"
  by (auto simp: saturating_sub_def word_less_nat_alt unat_sub_if_size)

lemma saturating_sub_le: "saturating_sub a b \<le> (a :: 'a::len word)"
  by (simp add: word_le_nat_alt unat_saturating_sub)

lemma saturating_add_ge: "a \<le> saturating_add a (b :: 'a::len word)"
proof -
  have "unat a < 2 ^ LENGTH('a)" by simp
  then have "unat a \<le> 2 ^ LENGTH('a) - 1" by linarith
  then show ?thesis by (simp add: word_le_nat_alt unat_saturating_add)
qed

lemma unat_of_nat_less: "n < 2 ^ LENGTH('a) \<Longrightarrow> unat (of_nat n :: 'a::len word) = n"
  by (simp add: unsigned_of_nat take_bit_nat_eq_self)

section \<open>Words of 64 and 128 bits\<close>

lemma unat_u64_less: "unat (v :: u64) < 2 ^ 64"
  using unsigned_less [of v, where 'a = nat] by simp

lemma unat_max: "unat (max a b) = max (unat a) (unat (b :: 'a::len word))"
  by (simp add: max_def word_le_nat_alt)

lemma unat_min: "unat (min a b) = min (unat a) (unat (b :: 'a::len word))"
  by (simp add: min_def word_le_nat_alt)

lemma unat_ucast_128 [simp]: "unat (ucast (x :: u64) :: u128) = unat x"
proof -
  have "unat x < 2 ^ 64" using unsigned_less [of x] by simp
  then have "unat x < 2 ^ 128" by simp
  then show ?thesis by (simp add: unsigned_ucast_eq take_bit_nat_eq_self)
qed

lemma unat_ucast_64: "unat (x :: u128) < 2 ^ 64 \<Longrightarrow> unat (ucast x :: u64) = unat x"
  by (simp add: unsigned_ucast_eq take_bit_nat_eq_self)

lemma unat_mult_128: "unat (ucast (a :: u64) * ucast (b :: u64) :: u128) = unat a * unat b"
proof -
  have "unat a * unat b \<le> (2 ^ 64 - 1) * (2 ^ 64 - 1)" using unat_u64_less [of a] unat_u64_less [of b] by (intro mult_le_mono) simp_all
  then have "unat a * unat b < 2 ^ 128" by simp
  then show ?thesis by (simp add: unat_word_ariths)
qed

section \<open>Sums over an updated list\<close>

lemma sum_list_map_update:
  fixes f :: "'a \<Rightarrow> 'b::comm_monoid_add"
  shows "i < length xs \<Longrightarrow> sum_list (map f (xs[i := y])) + f (xs ! i) = sum_list (map f xs) + f y"
proof (induction xs arbitrary: i)
  case (Cons x xs)
  show ?case
  proof (cases i)
    case (Suc j)
    with Cons have "sum_list (map f (xs[j := y])) + f (xs ! j) = sum_list (map f xs) + f y" by simp
    then show ?thesis using Suc by (simp add: add.assoc)
  qed (simp add: ac_simps)
qed simp

lemma sum_list_map_update_same [simp]:
  fixes f :: "'a \<Rightarrow> 'b::comm_monoid_add"
  shows "f y = f (xs ! i) \<Longrightarrow> sum_list (map f (xs[i := y])) = sum_list (map f xs)"
proof (induction xs arbitrary: i)
  case (Cons x xs)
  then show ?case by (cases i) auto
qed simp

section \<open>Searching text\<close>

text \<open>\<open>Iterator::position\<close> of the first element that satisfies a predicate.\<close>

fun position :: "('a \<Rightarrow> bool) \<Rightarrow> 'a list \<Rightarrow> nat option" where
  "position p [] = None"
| "position p (x # xs) = (if p x then Some 0 else map_option Suc (position p xs))"

lemma position_None [simp]: "position p xs = None \<longleftrightarrow> (\<forall>x\<in>set xs. \<not> p x)"
  by (induction xs) auto

lemma position_SomeD:
  "position p xs = Some i \<Longrightarrow> i < length xs \<and> p (xs ! i) \<and> (\<forall>j<i. \<not> p (xs ! j))"
proof (induction xs arbitrary: i)
  case (Cons x xs)
  show ?case
  proof (cases "p x")
    case False
    with Cons.prems obtain j where j: "position p xs = Some j" "i = Suc j" by auto
    with Cons.IH [OF j(1)] False show ?thesis by (auto simp: less_Suc_eq_0_disj)
  qed (use Cons.prems in auto)
qed simp

text \<open>\<open>str::strip_prefix\<close>.\<close>

fun strip_prefix :: "'a list \<Rightarrow> 'a list \<Rightarrow> 'a list option" where
  "strip_prefix [] ys = Some ys"
| "strip_prefix (x # xs) [] = None"
| "strip_prefix (x # xs) (y # ys) = (if x = y then strip_prefix xs ys else None)"

lemma strip_prefix_Some [simp]: "strip_prefix p s = Some r \<longleftrightarrow> s = p @ r"
  by (induction p s rule: strip_prefix.induct) auto

lemma strip_prefix_append [simp]: "strip_prefix p (p @ r) = Some r" "strip_prefix p p = Some []"
  by simp_all

lemma strip_prefix_None: "strip_prefix p s = None \<longleftrightarrow> (\<nexists>r. s = p @ r)"
  by (metis not_None_eq strip_prefix_Some option.distinct(1))

text \<open>\<open>str::split\<close> on one separator: always at least one piece.\<close>

fun split_on :: "'a \<Rightarrow> 'a list \<Rightarrow> 'a list list" where
  "split_on c [] = [[]]"
| "split_on c (x # xs) =
     (if x = c then [] # split_on c xs
      else (case split_on c xs of [] \<Rightarrow> [[x]] | s # ss \<Rightarrow> (x # s) # ss))"

lemma split_on_ne [simp]: "split_on c xs \<noteq> []"
  by (induction xs) (auto split: list.splits)

lemma split_on_single [simp]: "c \<notin> set xs \<Longrightarrow> split_on c xs = [xs]"
  by (induction xs) auto

lemma split_on_append_sep: "c \<notin> set xs \<Longrightarrow> split_on c (xs @ c # ys) = xs # split_on c ys"
  by (induction xs) auto

lemma split_on_no_sep: "s \<in> set (split_on c xs) \<Longrightarrow> c \<notin> set s"
proof (induction xs arbitrary: s)
  case (Cons x xs)
  obtain t ts where "split_on c xs = t # ts" by (cases "split_on c xs") auto
  with Cons show ?case by (auto split: if_splits)
qed simp

text \<open>\<open>str::split_once\<close>.\<close>

definition split_once :: "'a \<Rightarrow> 'a list \<Rightarrow> ('a list \<times> 'a list) option" where
  "split_once c s = map_option (\<lambda>i. (take i s, drop (Suc i) s)) (position (\<lambda>x. x = c) s)"

lemma split_once_None [simp]: "split_once c s = None \<longleftrightarrow> c \<notin> set s"
  by (auto simp: split_once_def)

lemma split_once_append: "c \<notin> set xs \<Longrightarrow> split_once c (xs @ c # ys) = Some (xs, ys)"
proof -
  assume "c \<notin> set xs"
  then have "position (\<lambda>x. x = c) (xs @ c # ys) = Some (length xs)"
    by (induction xs) auto
  then show ?thesis by (simp add: split_once_def)
qed

lemma split_once_SomeD: "split_once c s = Some (a, b) \<Longrightarrow> s = a @ c # b \<and> c \<notin> set a"
proof -
  assume "split_once c s = Some (a, b)"
  then obtain i where i: "position (\<lambda>x. x = c) s = Some i" "a = take i s" "b = drop (Suc i) s"
    by (auto simp: split_once_def)
  from position_SomeD [OF i(1)] have "i < length s" "s ! i = c" "\<forall>j<i. s ! j \<noteq> c" by auto
  with i show ?thesis by (auto simp: id_take_nth_drop [symmetric] in_set_conv_nth)
qed

section \<open>Decimal numbers\<close>

text \<open>\<open>Display\<close> of an unsigned integer, and \<open>str::parse\<close> of one below a bound.\<close>

definition digit_char :: "nat \<Rightarrow> char" where
  "digit_char d = char_of (48 + d)"

function show_nat :: "nat \<Rightarrow> string" where
  "show_nat n = (if n < 10 then [digit_char n] else show_nat (n div 10) @ [digit_char (n mod 10)])"
  by pat_completeness auto
termination
  by (relation "measure (\<lambda>n. n)") auto

declare show_nat.simps [simp del]

lemma show_nat_ne [simp]: "show_nat n \<noteq> []"
  by (subst show_nat.simps) simp

definition is_digit :: "char \<Rightarrow> bool" where
  "is_digit c \<longleftrightarrow> 48 \<le> (of_char c :: nat) \<and> (of_char c :: nat) \<le> 57"

definition digit_value :: "char \<Rightarrow> nat" where
  "digit_value c = of_char c - 48"

lemma digit_char_value [simp]: "d < 10 \<Longrightarrow> is_digit (digit_char d) \<and> digit_value (digit_char d) = d"
  by (simp add: digit_char_def is_digit_def digit_value_def of_char_of)

lemma show_nat_digits: "\<forall>c\<in>set (show_nat n). is_digit c"
proof (induction n rule: show_nat.induct)
  case (1 n)
  then show ?case by (subst show_nat.simps) auto
qed

text \<open>An optional sign, then at least one digit, and the value fits.\<close>

fun digits_value :: "nat \<Rightarrow> string \<Rightarrow> nat" where
  "digits_value acc [] = acc"
| "digits_value acc (c # cs) = digits_value (10 * acc + digit_value c) cs"

definition parse_unsigned :: "nat \<Rightarrow> string \<Rightarrow> nat option" where
  "parse_unsigned bound s =
     (let t = (case s of c # cs \<Rightarrow> if c = CHR ''+'' then cs else s | [] \<Rightarrow> s) in
      if t \<noteq> [] \<and> list_all is_digit t \<and> digits_value 0 t < bound then Some (digits_value 0 t) else None)"

lemma digits_value_append: "digits_value acc (xs @ [c]) = 10 * digits_value acc xs + digit_value c"
  by (induction xs arbitrary: acc) auto

lemma digits_value_show: "digits_value 0 (show_nat n) = n"
proof (induction n rule: show_nat.induct)
  case (1 n)
  then show ?case by (subst show_nat.simps) (auto simp: digits_value_append)
qed

lemma parse_show [simp]: "n < bound \<Longrightarrow> parse_unsigned bound (show_nat n) = Some n"
proof -
  assume "n < bound"
  have "CHR ''+'' \<notin> set (show_nat n)" using show_nat_digits [of n] by (auto simp: is_digit_def)
  then have "(case show_nat n of c # cs \<Rightarrow> if c = CHR ''+'' then cs else show_nat n | [] \<Rightarrow> show_nat n) = show_nat n"
    by (auto split: list.split)
  then show ?thesis using \<open>n < bound\<close> show_nat_digits [of n]
    by (simp add: parse_unsigned_def digits_value_show list_all_iff)
qed

end
