(* ===== verification/Binary_Heap.thy ===== *)
theory Binary_Heap
  imports Prelude
begin

text \<open>
  The array heap of Rust's standard library (\<open>std::collections::BinaryHeap\<close>), which every
  priority queue of the program is built on. The sift loops are written as the library runs
  them (\<open>push\<close> sifts the new last element up; \<open>pop\<close> moves the last element to the
  root, sifts it down to the bottom and then up again), so that the order in which elements
  with equal keys leave the heap is the library's. Elements are compared by a key in a linear
  order, as an \<open>Ord\<close> implementation that looks at one field does.
\<close>

section \<open>The sift loops\<close>

definition swap_at :: "'a list \<Rightarrow> nat \<Rightarrow> nat \<Rightarrow> 'a list" where
  "swap_at xs i j = xs[i := xs ! j, j := xs ! i]"

definition parent_of :: "nat \<Rightarrow> nat" where
  "parent_of i = (i - 1) div 2"

lemma parent_of_less [simp]: "0 < i \<Longrightarrow> parent_of i < i"
  by (auto simp: parent_of_def)

lemma parent_of_less_trans [simp]: "0 < i \<Longrightarrow> i < n \<Longrightarrow> parent_of i < n"
  by (meson less_trans parent_of_less)

lemma parent_of_neq [simp]: "0 < i \<Longrightarrow> parent_of i \<noteq> i" "0 < i \<Longrightarrow> i \<noteq> parent_of i"
  by (metis less_irrefl parent_of_less)+

lemma parent_of_children [simp]: "parent_of (Suc (2 * i)) = i" "parent_of (Suc (Suc (2 * i))) = i"
  by (auto simp: parent_of_def)

lemma parent_of_eq: "0 < i \<Longrightarrow> parent_of i = j \<longleftrightarrow> i = Suc (2 * j) \<or> i = Suc (Suc (2 * j))"
  by (auto simp: parent_of_def)

function sift_up :: "('a \<Rightarrow> 'k::linorder) \<Rightarrow> 'a list \<Rightarrow> nat \<Rightarrow> 'a list" where
  "sift_up key xs pos =
     (if 0 < pos then
        let parent = parent_of pos in
        if key (xs ! pos) \<le> key (xs ! parent) then xs
        else sift_up key (swap_at xs pos parent) parent
      else xs)"
  by pat_completeness auto
termination
  by (relation "measure (\<lambda>(key, xs, pos). pos)") auto

declare sift_up.simps [simp del]

definition larger_child :: "('a \<Rightarrow> 'k::linorder) \<Rightarrow> 'a list \<Rightarrow> nat \<Rightarrow> nat" where
  "larger_child key xs child =
     (if key (xs ! child) \<le> key (xs ! (child + 1)) then child + 1 else child)"

lemma larger_child_bounds: "c \<le> larger_child key xs c" "larger_child key xs c \<le> Suc c"
  by (auto simp: larger_child_def)

text \<open>The downward loop, which returns the position where the hole stops.\<close>

function sift_down_loop :: "('a \<Rightarrow> 'k::linorder) \<Rightarrow> 'a list \<Rightarrow> nat \<Rightarrow> 'a list \<times> nat" where
  "sift_down_loop key xs pos =
     (let child = 2 * pos + 1 in
      if child \<le> length xs - 2 then
        let child' = larger_child key xs child in
        sift_down_loop key (swap_at xs pos child') child'
      else if child = length xs - 1 then (swap_at xs pos child, child)
      else (xs, pos))"
  by pat_completeness auto
termination
  by (relation "measure (\<lambda>(key, xs, pos). length xs - pos)") (auto simp: swap_at_def larger_child_def)

declare sift_down_loop.simps [simp del]

definition sift_down_to_bottom :: "('a \<Rightarrow> 'k::linorder) \<Rightarrow> 'a list \<Rightarrow> 'a list" where
  "sift_down_to_bottom key xs = (case sift_down_loop key xs 0 of (ys, pos) \<Rightarrow> sift_up key ys pos)"

section \<open>Operations\<close>

definition heap_push :: "('a \<Rightarrow> 'k::linorder) \<Rightarrow> 'a list \<Rightarrow> 'a \<Rightarrow> 'a list" where
  "heap_push key xs x = sift_up key (xs @ [x]) (length xs)"

definition heap_peek :: "'a list \<Rightarrow> 'a option" where
  "heap_peek xs = (case xs of [] \<Rightarrow> None | x # _ \<Rightarrow> Some x)"

definition heap_pop :: "('a \<Rightarrow> 'k::linorder) \<Rightarrow> 'a list \<Rightarrow> 'a option \<times> 'a list" where
  "heap_pop key xs =
     (if xs = [] then (None, [])
      else let item = last xs; rest = butlast xs in
        if rest = [] then (Some item, [])
        else (Some (rest ! 0), sift_down_to_bottom key (rest[0 := item])))"

section \<open>Elements are neither lost nor duplicated\<close>

lemma length_swap_at [simp]: "length (swap_at xs i j) = length xs"
  by (simp add: swap_at_def)

lemma mset_swap_at: "i < length xs \<Longrightarrow> j < length xs \<Longrightarrow> mset (swap_at xs i j) = mset xs"
  unfolding swap_at_def by (simp add: mset_swap)

lemma nth_swap_at:
  "i < length xs \<Longrightarrow> j < length xs \<Longrightarrow>
   swap_at xs i j ! m = (if m = i then xs ! j else if m = j then xs ! i else xs ! m)"
  by (auto simp: swap_at_def nth_list_update)

lemma mset_sift_up: "pos < length xs \<Longrightarrow> mset (sift_up key xs pos) = mset xs"
proof (induction key xs pos rule: sift_up.induct)
  case (1 key xs pos)
  then show ?case
    by (subst sift_up.simps) (auto simp: Let_def mset_swap_at)
qed

text \<open>One step of the downward loop, its last half step, and its end.\<close>

lemma sift_down_loop_step:
  "2 * pos + 1 \<le> length xs - 2 \<Longrightarrow> d = larger_child key xs (2 * pos + 1) \<Longrightarrow>
   sift_down_loop key xs pos = sift_down_loop key (swap_at xs pos d) d"
  by (simp add: sift_down_loop.simps [of key xs pos] Let_def)

lemma sift_down_loop_last:
  "\<not> 2 * pos + 1 \<le> length xs - 2 \<Longrightarrow> 2 * pos + 1 = length xs - 1 \<Longrightarrow>
   sift_down_loop key xs pos = (swap_at xs pos (2 * pos + 1), 2 * pos + 1)"
  by (simp add: sift_down_loop.simps [of key xs pos] Let_def)

lemma sift_down_loop_stop:
  "\<not> 2 * pos + 1 \<le> length xs - 2 \<Longrightarrow> 2 * pos + 1 \<noteq> length xs - 1 \<Longrightarrow>
   sift_down_loop key xs pos = (xs, pos)"
  by (simp add: sift_down_loop.simps [of key xs pos] Let_def)

text \<open>Computation induction on the downward loop, with the three cases as rules.\<close>

lemma sift_down_loop_induct [case_names step last stop]:
  assumes "\<And>xs pos d. 2 * pos + 1 \<le> length xs - 2 \<Longrightarrow> d = larger_child key xs (2 * pos + 1) \<Longrightarrow>
      d < length xs \<Longrightarrow> pos < d \<Longrightarrow> P (swap_at xs pos d) d \<Longrightarrow> P xs pos"
    and "\<And>xs pos. \<not> 2 * pos + 1 \<le> length xs - 2 \<Longrightarrow> 2 * pos + 1 = length xs - 1 \<Longrightarrow> P xs pos"
    and "\<And>xs pos. \<not> 2 * pos + 1 \<le> length xs - 2 \<Longrightarrow> 2 * pos + 1 \<noteq> length xs - 1 \<Longrightarrow> P xs pos"
  shows "P xs pos"
proof (induction "length xs - pos" arbitrary: xs pos rule: less_induct)
  case less
  define d where "d = larger_child key xs (2 * pos + 1)"
  show ?case
  proof (cases "2 * pos + 1 \<le> length xs - 2")
    case True
    have d: "pos < d" "d < length xs"
      using True larger_child_bounds [where c = "2 * pos + 1" and key = key and xs = xs] by (auto simp: d_def)
    then have "P (swap_at xs pos d) d" by (intro less) auto
    with True d d_def show ?thesis by (intro assms(1) [of pos xs d]) auto
  qed (use assms(2,3) in blast)
qed

lemma sift_down_loop_mset:
  "pos < length xs \<Longrightarrow> sift_down_loop key xs pos = (ys, q) \<Longrightarrow> mset ys = mset xs \<and> q < length xs"
proof (induction xs pos rule: sift_down_loop_induct [where key = key])
  case (step xs pos d)
  then show ?case by (simp add: sift_down_loop_step mset_swap_at)
next
  case (last xs pos)
  then show ?case by (auto simp: sift_down_loop_last mset_swap_at)
next
  case (stop xs pos)
  then show ?case by (auto simp: sift_down_loop_stop)
qed

lemma mset_sift_down_to_bottom: "xs \<noteq> [] \<Longrightarrow> mset (sift_down_to_bottom key xs) = mset xs"
proof -
  assume ne: "xs \<noteq> []"
  obtain ys q where l: "sift_down_loop key xs 0 = (ys, q)" by fastforce
  with ne sift_down_loop_mset [of 0 xs key ys q] have m: "mset ys = mset xs" "q < length xs" by auto
  then have "q < length ys" by (metis mset_eq_length)
  with m l show ?thesis by (simp add: sift_down_to_bottom_def mset_sift_up)
qed

lemma mset_heap_push: "mset (heap_push key xs x) = add_mset x (mset xs)"
  by (simp add: heap_push_def mset_sift_up)

lemma heap_pop_None [simp]: "fst (heap_pop key xs) = None \<longleftrightarrow> xs = []"
  by (auto simp: heap_pop_def Let_def)

lemma mset_heap_pop: "heap_pop key xs = (Some x, ys) \<Longrightarrow> mset xs = add_mset x (mset ys)"
proof -
  assume pop: "heap_pop key xs = (Some x, ys)"
  then have ne: "xs \<noteq> []" by (auto simp: heap_pop_def)
  then obtain rest item where xs: "xs = rest @ [item]" by (cases xs rule: rev_cases) auto
  show ?thesis
  proof (cases rest)
    case Nil
    with pop xs show ?thesis by (auto simp: heap_pop_def)
  next
    case (Cons r rs)
    with pop xs have "x = r" "ys = sift_down_to_bottom key (item # rs)"
      by (auto simp: heap_pop_def)
    with Cons xs show ?thesis by (simp add: mset_sift_down_to_bottom)
  qed
qed

section \<open>Heap order\<close>

definition is_heap :: "('a \<Rightarrow> 'k::linorder) \<Rightarrow> 'a list \<Rightarrow> bool" where
  "is_heap key xs \<longleftrightarrow> (\<forall>i<length xs. 0 < i \<longrightarrow> key (xs ! i) \<le> key (xs ! (parent_of i)))"

text \<open>
  The two intermediate states of the loops. In \<open>heap_below\<close> only the element at \<open>pos\<close>
  may exceed its parent; in \<open>heap_around\<close> the element at \<open>pos\<close> is out of order on both
  sides. In both, the children of \<open>pos\<close> do not exceed its parent.
\<close>

definition heap_grand :: "('a \<Rightarrow> 'k::linorder) \<Rightarrow> 'a list \<Rightarrow> nat \<Rightarrow> bool" where
  "heap_grand key xs pos \<longleftrightarrow> (\<forall>i<length xs. 0 < i \<longrightarrow> 0 < pos \<longrightarrow> parent_of i = pos \<longrightarrow>
     key (xs ! i) \<le> key (xs ! (parent_of pos)))"

definition heap_below :: "('a \<Rightarrow> 'k::linorder) \<Rightarrow> 'a list \<Rightarrow> nat \<Rightarrow> bool" where
  "heap_below key xs pos \<longleftrightarrow> heap_grand key xs pos \<and>
     (\<forall>i<length xs. 0 < i \<longrightarrow> i \<noteq> pos \<longrightarrow> key (xs ! i) \<le> key (xs ! (parent_of i)))"

definition heap_around :: "('a \<Rightarrow> 'k::linorder) \<Rightarrow> 'a list \<Rightarrow> nat \<Rightarrow> bool" where
  "heap_around key xs pos \<longleftrightarrow> heap_grand key xs pos \<and>
     (\<forall>i<length xs. 0 < i \<longrightarrow> i \<noteq> pos \<longrightarrow> parent_of i \<noteq> pos \<longrightarrow>
        key (xs ! i) \<le> key (xs ! (parent_of i)))"

lemma is_heap_iff_below: "is_heap key xs \<longleftrightarrow> heap_below key xs 0"
  by (auto simp: is_heap_def heap_below_def heap_grand_def)

lemma heap_below_step:
  assumes "heap_below key xs pos" "0 < pos" "pos < length xs" "\<not> key (xs ! pos) \<le> key (xs ! parent_of pos)"
  shows "heap_below key (swap_at xs pos (parent_of pos)) (parent_of pos)"
proof -
  define p where "p = parent_of pos"
  have p: "p < pos" "p < length xs" using assms(2,3) by (simp_all add: p_def)
  have ord: "\<And>i. i < length xs \<Longrightarrow> 0 < i \<Longrightarrow> i \<noteq> pos \<Longrightarrow> key (xs ! i) \<le> key (xs ! parent_of i)"
    and grand: "\<And>i. i < length xs \<Longrightarrow> 0 < i \<Longrightarrow> parent_of i = pos \<Longrightarrow> key (xs ! i) \<le> key (xs ! p)"
    using assms(1,2) by (auto simp: heap_below_def heap_grand_def p_def)
  have lt: "key (xs ! p) \<le> key (xs ! pos)" using assms(4) by (simp add: p_def)
  let ?ys = "swap_at xs pos p"
  have nth: "?ys ! m = (if m = pos then xs ! p else if m = p then xs ! pos else xs ! m)" for m
    using assms(3) p by (simp add: nth_swap_at)
  have up: "key (?ys ! i) \<le> key (?ys ! parent_of i)" if i: "i < length xs" "0 < i" "i \<noteq> p" for i
  proof (cases "i = pos")
    case True
    then show ?thesis using lt p by (simp add: nth p_def [symmetric])
  next
    case False
    consider "parent_of i = pos" | "parent_of i = p" | "parent_of i \<noteq> pos" "parent_of i \<noteq> p" by blast
    then show ?thesis
    proof cases
      case 1
      then show ?thesis using i False grand by (auto simp: nth)
    next
      case 2
      then have "key (xs ! i) \<le> key (xs ! p)" using ord i False by metis
      with 2 show ?thesis using i False p lt by (auto simp: nth)
    qed (use ord i False nth in auto)
  qed
  have top: "key (?ys ! i) \<le> key (?ys ! parent_of p)" if i: "i < length xs" "0 < p" "0 < i" "parent_of i = p" for i
  proof -
    have pp: "parent_of p < p" using i by simp
    have "key (xs ! p) \<le> key (xs ! parent_of p)" using ord p i by auto
    moreover have "key (?ys ! i) \<le> key (xs ! p)"
      using i p ord [of i] by (auto simp: nth)
    moreover have "?ys ! parent_of p = xs ! parent_of p" using pp p by (auto simp: nth)
    ultimately show ?thesis by simp
  qed
  show ?thesis using up top by (auto simp: heap_below_def heap_grand_def p_def [symmetric])
qed

lemma is_heap_sift_up: "heap_below key xs pos \<Longrightarrow> pos < length xs \<Longrightarrow> is_heap key (sift_up key xs pos)"
proof (induction key xs pos rule: sift_up.induct)
  case (1 key xs pos)
  show ?case
  proof (cases "0 < pos \<and> \<not> key (xs ! pos) \<le> key (xs ! parent_of pos)")
    case True
    then have "heap_below key (swap_at xs pos (parent_of pos)) (parent_of pos)"
      using "1.prems" heap_below_step by blast
    moreover have "parent_of pos < length xs"
      using True "1.prems"(2) by (meson less_trans parent_of_less)
    ultimately show ?thesis using True "1.IH" by (simp add: sift_up.simps [of key xs pos] Let_def)
  next
    case False
    then have "is_heap key xs" using "1.prems" by (cases "pos = 0") (auto simp: is_heap_def heap_below_def)
    with False show ?thesis by (auto simp: sift_up.simps [of key xs pos] Let_def)
  qed
qed

lemma heap_around_step:
  assumes h: "heap_around key xs pos" and pos: "pos < length xs" and d: "d < length xs" "0 < d" "parent_of d = pos"
    and max: "\<And>i. i < length xs \<Longrightarrow> 0 < i \<Longrightarrow> parent_of i = pos \<Longrightarrow> key (xs ! i) \<le> key (xs ! d)"
  shows "heap_around key (swap_at xs pos d) d"
proof -
  have lt: "pos < d" using d parent_of_less by blast
  have ord: "\<And>i. i < length xs \<Longrightarrow> 0 < i \<Longrightarrow> i \<noteq> pos \<Longrightarrow> parent_of i \<noteq> pos \<Longrightarrow> key (xs ! i) \<le> key (xs ! parent_of i)"
    and grand: "\<And>i. i < length xs \<Longrightarrow> 0 < i \<Longrightarrow> 0 < pos \<Longrightarrow> parent_of i = pos \<Longrightarrow> key (xs ! i) \<le> key (xs ! parent_of pos)"
    using h by (auto simp: heap_around_def heap_grand_def)
  let ?ys = "swap_at xs pos d"
  have nth: "?ys ! m = (if m = pos then xs ! d else if m = d then xs ! pos else xs ! m)" for m
    using pos d by (simp add: nth_swap_at)
  have up: "key (?ys ! i) \<le> key (?ys ! parent_of i)"
    if i: "i < length xs" "0 < i" "i \<noteq> d" "parent_of i \<noteq> d" for i
  proof (cases "i = pos")
    case True
    then have "parent_of i \<noteq> pos" using i by simp
    then show ?thesis using True i grand [OF d(1,2) _ d(3)] by (auto simp: nth)
  next
    case False
    then show ?thesis using i ord [of i] max [of i] by (cases "parent_of i = pos") (auto simp: nth)
  qed
  have top: "key (?ys ! i) \<le> key (?ys ! parent_of d)" if i: "i < length xs" "0 < i" "parent_of i = d" for i
  proof -
    have "d < i" using i parent_of_less by blast
    then show ?thesis using ord [of i] i d lt by (auto simp: nth)
  qed
  show ?thesis using up top by (auto simp: heap_around_def heap_grand_def)
qed

lemma larger_child_max:
  assumes "2 * pos + 1 \<le> length xs - 2" "0 < i" "parent_of i = pos"
  shows "key (xs ! i) \<le> key (xs ! larger_child key xs (2 * pos + 1))"
  using assms by (auto simp: larger_child_def parent_of_eq)

lemma heap_below_sift_down_loop:
  "heap_around key xs pos \<Longrightarrow> pos < length xs \<Longrightarrow> sift_down_loop key xs pos = (ys, q) \<Longrightarrow> heap_below key ys q"
proof (induction xs pos rule: sift_down_loop_induct [where key = key])
  case (step xs pos d)
  have "parent_of d = pos" using step(2) by (auto simp: larger_child_def)
  then have "heap_around key (swap_at xs pos d) d"
    using step larger_child_max [OF step(1)] by (intro heap_around_step) auto
  with step show ?case by (simp add: sift_down_loop_step)
next
  case (last xs pos)
  have only: "i = 2 * pos + 1" if "i < length xs" "0 < i" "parent_of i = pos" for i
    using that last(2) by (auto simp: parent_of_eq)
  have ne: "2 * pos + 1 < length xs" using last(2,4) by auto
  have "heap_around key (swap_at xs pos (2 * pos + 1)) (2 * pos + 1)"
  proof (rule heap_around_step [OF last(3,4) ne])
    show "key (xs ! i) \<le> key (xs ! (2 * pos + 1))" if "i < length xs" "0 < i" "parent_of i = pos" for i
      using only [OF that] by simp
  qed simp_all
  moreover have "\<not> parent_of i = 2 * pos + 1" if "i < length xs" "0 < i" for i
    using that last(2) by (auto simp: parent_of_eq)
  ultimately have "heap_below key (swap_at xs pos (2 * pos + 1)) (2 * pos + 1)"
    by (auto simp: heap_below_def heap_around_def)
  then show ?case using sift_down_loop_last [OF last(1,2), of key] last(5) by simp
next
  case (stop xs pos)
  have "\<not> parent_of i = pos" if "i < length xs" "0 < i" for i
    using that stop by (auto simp: parent_of_eq)
  with stop show ?case by (auto simp: heap_below_def heap_around_def sift_down_loop_stop)
qed

lemma is_heap_sift_down_to_bottom:
  assumes "heap_around key xs 0" "xs \<noteq> []"
  shows "is_heap key (sift_down_to_bottom key xs)"
proof -
  obtain ys q where l: "sift_down_loop key xs 0 = (ys, q)" by fastforce
  with assms have "heap_below key ys q" using heap_below_sift_down_loop by blast
  moreover have "q < length ys"
    using sift_down_loop_mset [OF _ l] assms(2) by (metis length_greater_0_conv mset_eq_length)
  ultimately show ?thesis by (simp add: sift_down_to_bottom_def l is_heap_sift_up)
qed

lemma is_heap_push: "is_heap key xs \<Longrightarrow> is_heap key (heap_push key xs x)"
proof -
  assume h: "is_heap key xs"
  have "\<not> parent_of i = length xs" if "i < Suc (length xs)" "0 < i" for i
    using that parent_of_less [of i] by linarith
  then have "heap_below key (xs @ [x]) (length xs)"
    using h by (auto simp: heap_below_def heap_grand_def is_heap_def nth_append)
  then show ?thesis by (simp add: heap_push_def is_heap_sift_up)
qed

lemma is_heap_pop: "is_heap key xs \<Longrightarrow> is_heap key (snd (heap_pop key xs))"
proof (cases "length xs \<le> 1")
  case True
  then show "is_heap key (snd (heap_pop key xs))"
    by (cases xs) (auto simp: heap_pop_def is_heap_def)
next
  case False
  assume h: "is_heap key xs"
  have "heap_around key ((butlast xs)[0 := last xs]) 0"
    using h by (auto simp: heap_around_def heap_grand_def is_heap_def nth_list_update nth_butlast)
  moreover have "butlast xs \<noteq> []" using False by (cases xs rule: rev_cases) auto
  ultimately show ?thesis using False
    by (auto simp: heap_pop_def Let_def is_heap_sift_down_to_bottom)
qed

lemma is_heap_root_max: "is_heap key xs \<Longrightarrow> i < length xs \<Longrightarrow> key (xs ! i) \<le> key (xs ! 0)"
proof (induction i rule: less_induct)
  case (less i)
  show ?case
  proof (cases "i = 0")
    case False
    then have "parent_of i < i" by simp
    with less have "key (xs ! parent_of i) \<le> key (xs ! 0)" by simp
    moreover have "key (xs ! i) \<le> key (xs ! parent_of i)"
      using less.prems False by (simp add: is_heap_def)
    ultimately show ?thesis by simp
  qed simp
qed

lemma heap_pop_peek: "fst (heap_pop key xs) = heap_peek xs"
  by (cases xs) (auto simp: heap_pop_def heap_peek_def Let_def nth_butlast)

lemma heap_peek_max: "is_heap key xs \<Longrightarrow> heap_peek xs = Some x \<Longrightarrow> y \<in> set xs \<Longrightarrow> key y \<le> key x"
  using is_heap_root_max by (fastforce simp: heap_peek_def in_set_conv_nth split: list.splits)

lemma heap_peek_simps [simp]: "heap_peek [] = None" "heap_peek (x # xs) = Some x"
  by (simp_all add: heap_peek_def)

lemma heap_peek_None [simp]: "heap_peek xs = None \<longleftrightarrow> xs = []"
  by (auto simp: heap_peek_def split: list.splits)

section \<open>The contract of a keyed heap\<close>

text \<open>
  What the queues rely on: an abstraction to the multiset of elements, kept exactly by
  \<open>push\<close> and \<open>pop\<close>, and a popped element whose key nothing left behind exceeds.
\<close>

locale keyed_heap =
  fixes key :: "'a \<Rightarrow> 'k::linorder"
    and push :: "'q \<Rightarrow> 'a \<Rightarrow> 'q"
    and peek :: "'q \<Rightarrow> 'a option"
    and pop :: "'q \<Rightarrow> 'a option \<times> 'q"
    and elems :: "'q \<Rightarrow> 'a multiset"
    and invar :: "'q \<Rightarrow> bool"
  assumes push_elems: "invar q \<Longrightarrow> elems (push q x) = add_mset x (elems q)"
    and push_invar: "invar q \<Longrightarrow> invar (push q x)"
    and pop_peek: "fst (pop q) = peek q"
    and peek_None: "invar q \<Longrightarrow> peek q = None \<longleftrightarrow> elems q = {#}"
    and pop_elems: "invar q \<Longrightarrow> pop q = (Some x, q') \<Longrightarrow> elems q = add_mset x (elems q')"
    and pop_invar: "invar q \<Longrightarrow> pop q = (r, q') \<Longrightarrow> invar q'"
    and peek_max: "invar q \<Longrightarrow> peek q = Some x \<Longrightarrow> y \<in># elems q \<Longrightarrow> key y \<le> key x"
begin

lemma pop_None_elems: "invar q \<Longrightarrow> pop q = (None, q') \<Longrightarrow> elems q = {#}"
  using pop_peek [of q] peek_None [of q] by simp

lemma pop_Some_max: "invar q \<Longrightarrow> pop q = (Some x, q') \<Longrightarrow> y \<in># elems q' \<Longrightarrow> key y \<le> key x"
  using pop_peek [of q] peek_max [of q x y] pop_elems [of q x q'] by auto

lemma pop_size: "invar q \<Longrightarrow> pop q = (Some x, q') \<Longrightarrow> size (elems q) = Suc (size (elems q'))"
  by (simp add: pop_elems)

end

text \<open>Taking elements out until the heap is empty, at most \<open>n\<close> of them.\<close>

fun drain :: "('q \<Rightarrow> 'a option \<times> 'q) \<Rightarrow> nat \<Rightarrow> 'q \<Rightarrow> 'a list" where
  "drain pop 0 q = []"
| "drain pop (Suc n) q = (case pop q of (None, _) \<Rightarrow> [] | (Some x, q') \<Rightarrow> x # drain pop n q')"

context keyed_heap
begin

lemma drain_elems: "invar q \<Longrightarrow> size (elems q) \<le> n \<Longrightarrow> mset (drain pop n q) = elems q"
proof (induction n arbitrary: q)
  case (Suc n)
  show ?case
  proof (cases "pop q")
    case (Pair r q')
    show ?thesis
    proof (cases r)
      case None
      then show ?thesis using Pair Suc.prems pop_None_elems by simp
    next
      case (Some x)
      with Pair have p: "pop q = (Some x, q')" by simp
      with Suc.prems have "invar q'" "size (elems q') \<le> n"
        using pop_invar pop_size by fastforce+
      then show ?thesis using Suc.IH [of q'] p Suc.prems(1) by (simp add: pop_elems)
    qed
  qed
qed simp

lemma drain_set: "invar q \<Longrightarrow> set (drain pop n q) \<subseteq> set_mset (elems q)"
proof (induction n arbitrary: q)
  case (Suc n)
  show ?case
  proof (cases "pop q")
    case (Pair r q')
    then show ?thesis
      using Suc.prems Suc.IH [of q'] pop_invar [of q r q'] pop_elems [of q _ q']
      by (cases r) auto
  qed
qed simp

lemma drain_sorted: "invar q \<Longrightarrow> sorted_wrt (\<lambda>x y. key y \<le> key x) (drain pop n q)"
proof (induction n arbitrary: q)
  case (Suc n)
  show ?case
  proof (cases "pop q")
    case (Pair r q')
    then show ?thesis
      using Suc.prems Suc.IH [of q'] pop_invar [of q r q'] pop_Some_max [of q _ q'] drain_set [of q' n]
      by (cases r) auto
  qed
qed simp

end

interpretation bh: keyed_heap key "heap_push key" heap_peek "heap_pop key" mset "is_heap key"
  for key :: "'a \<Rightarrow> 'k::linorder"
proof
  fix q :: "'a list" and x y :: 'a and q' r
  show "mset (heap_push key q x) = add_mset x (mset q)" by (rule mset_heap_push)
  show "is_heap key q \<Longrightarrow> is_heap key (heap_push key q x)" by (rule is_heap_push)
  show "fst (heap_pop key q) = heap_peek q" by (rule heap_pop_peek)
  show "heap_peek q = None \<longleftrightarrow> mset q = {#}" by simp
  show "heap_pop key q = (Some x, q') \<Longrightarrow> mset q = add_mset x (mset q')" by (rule mset_heap_pop)
  show "is_heap key q \<Longrightarrow> heap_pop key q = (r, q') \<Longrightarrow> is_heap key q'"
    using is_heap_pop [of key q] by simp
  show "is_heap key q \<Longrightarrow> heap_peek q = Some x \<Longrightarrow> y \<in># mset q \<Longrightarrow> key y \<le> key x"
    using heap_peek_max [of key q x y] by simp
qed

lemma is_heap_Nil [simp]: "is_heap key []"
  by (simp add: is_heap_def)

end
