(* ===== verification/Sched_Queues.thy ===== *)
theory Sched_Queues
  imports Binary_Heap
begin

text \<open>
  The run queues of \<open>libs/rpcstack-sched\<close>: the scheduling metadata and its reversed
  order (\<open>meta.rs\<close>), the view of a task a queue sees (\<open>queue.rs\<close>), the default policy,
  the FIFO, priority-heap and TailClipper queues, and the editable custom queue. The
  \<open>RunQueue\<close> trait is the locale \<open>run_queue\<close>; each queue is an interpretation of it.
  \<open>capacity\<close>, which only reports the allocator's reserve, is not modelled.
\<close>

section \<open>Scheduling metadata\<close>

datatype meta = Meta (meta_value: u64)

text \<open>The order of a \<open>Meta\<close> is reversed: the smaller number compares as greater.\<close>

definition meta_cmp :: "meta \<Rightarrow> meta \<Rightarrow> rust_ordering" where
  "meta_cmp a b = u64_cmp (meta_value b) (meta_value a)"

instantiation meta :: linorder
begin

definition less_eq_meta :: "meta \<Rightarrow> meta \<Rightarrow> bool" where
  "less_eq_meta a b \<longleftrightarrow> meta_cmp a b \<noteq> Greater"

definition less_meta :: "meta \<Rightarrow> meta \<Rightarrow> bool" where
  "less_meta a b \<longleftrightarrow> meta_cmp a b = Less"

instance
  by standard (auto simp: less_eq_meta_def less_meta_def meta_cmp_def not_less meta.expand)

end

lemma meta_le_iff: "a \<le> b \<longleftrightarrow> meta_value b \<le> meta_value a" for a b :: meta
  by (simp add: less_eq_meta_def meta_cmp_def not_less)

lemma meta_less_iff: "a < b \<longleftrightarrow> meta_value b < meta_value a" for a b :: meta
  by (simp add: less_meta_def meta_cmp_def)

text \<open>What a queue sees of a task; an instant is its number of nanoseconds.\<close>

record task_view =
  task_id :: u64
  view_meta :: meta
  enqueued_at :: nat
  first_enqueued_at :: nat
  polls :: u32

datatype poll_outcome = Pending | Ready

datatype sched_flavor = Fifo | Prio

definition INFRA :: meta where
  "INFRA = Meta 0"

definition is_infra :: "meta \<Rightarrow> bool" where
  "is_infra m \<longleftrightarrow> m = INFRA"

definition meta_for_unannotated_spawn :: "meta option \<Rightarrow> meta" where
  "meta_for_unannotated_spawn spawner = INFRA"

text \<open>An item next to its ordering key; equality and order look at the key only.\<close>

datatype 'a keyed = Keyed (keyed_meta: meta) (keyed_item: 'a)

section \<open>First in, first out\<close>

record 'a fifo_queue =
  fifo_inner :: "'a list"

definition fifo_with_capacity :: "'a fifo_queue" where
  "fifo_with_capacity = \<lparr>fifo_inner = []\<rparr>"

definition fifo_push :: "'a fifo_queue \<Rightarrow> 'a \<Rightarrow> task_view \<Rightarrow> 'a fifo_queue" where
  "fifo_push q item view = q\<lparr>fifo_inner := fifo_inner q @ [item]\<rparr>"

definition fifo_pop :: "'a fifo_queue \<Rightarrow> 'a option \<times> 'a fifo_queue" where
  "fifo_pop q = (case fifo_inner q of [] \<Rightarrow> (None, q) | x # xs \<Rightarrow> (Some x, q\<lparr>fifo_inner := xs\<rparr>))"

definition fifo_len :: "'a fifo_queue \<Rightarrow> nat" where
  "fifo_len q = length (fifo_inner q)"

section \<open>Priority heap with an infrastructure lane\<close>

record 'a heap_queue =
  hq_q :: "'a keyed list"
  hq_infra :: "'a list"

definition hq_with_capacity :: "'a heap_queue" where
  "hq_with_capacity = \<lparr>hq_q = [], hq_infra = []\<rparr>"

definition hq_push :: "'a heap_queue \<Rightarrow> 'a \<Rightarrow> task_view \<Rightarrow> 'a heap_queue" where
  "hq_push q item view =
     (if is_infra (view_meta view) then q\<lparr>hq_infra := hq_infra q @ [item]\<rparr>
      else q\<lparr>hq_q := heap_push keyed_meta (hq_q q) (Keyed (view_meta view) item)\<rparr>)"

definition hq_pop :: "'a heap_queue \<Rightarrow> 'a option \<times> 'a heap_queue" where
  "hq_pop q =
     (case hq_infra q of
        item # rest \<Rightarrow> (Some item, q\<lparr>hq_infra := rest\<rparr>)
      | [] \<Rightarrow> (case heap_pop keyed_meta (hq_q q) of
          (r, h) \<Rightarrow> (map_option keyed_item r, q\<lparr>hq_q := h\<rparr>)))"

definition hq_len :: "'a heap_queue \<Rightarrow> nat" where
  "hq_len q = length (hq_q q) + length (hq_infra q)"

section \<open>TailClipper: oldest request first, limited processor sharing\<close>

record 'a tc_queue =
  tc_heap :: "'a keyed list"
  tc_rr :: "'a keyed list"
  tc_infra :: "'a list"

text \<open>\<open>C\<close> is the width of the sharing window, \<open>I\<close> whether infrastructure has its own lane.\<close>

definition tc_with_capacity :: "nat \<Rightarrow> 'a tc_queue exec" where
  "tc_with_capacity C = (if 0 < C then Done \<lparr>tc_heap = [], tc_rr = [], tc_infra = []\<rparr> else Panic)"

text \<open>The loop of \<open>fill\<close> over the heap and the window.\<close>

function tc_fill_loop :: "nat \<Rightarrow> 'a keyed list \<Rightarrow> 'a keyed list \<Rightarrow> 'a keyed list \<times> 'a keyed list" where
  "tc_fill_loop C heap rr =
     (if length rr < C then
        case heap_pop keyed_meta heap of
          (Some item, heap') \<Rightarrow> tc_fill_loop C heap' (rr @ [item])
        | (None, heap') \<Rightarrow> (heap', rr)
      else (heap, rr))"
  by pat_completeness auto
termination
  by (relation "measure (\<lambda>(C, heap, rr). C - length rr)") auto

declare tc_fill_loop.simps [simp del]

definition tc_fill :: "nat \<Rightarrow> 'a tc_queue \<Rightarrow> 'a tc_queue" where
  "tc_fill C q = (case tc_fill_loop C (tc_heap q) (tc_rr q) of (h, r) \<Rightarrow> q\<lparr>tc_heap := h, tc_rr := r\<rparr>)"

text \<open>\<open>enumerate().min_by(..)\<close>: the index of the first minimum of the window.\<close>

fun min_index_from :: "('a \<Rightarrow> 'k::linorder) \<Rightarrow> nat \<Rightarrow> nat \<Rightarrow> 'a \<Rightarrow> 'a list \<Rightarrow> nat" where
  "min_index_from key best i b [] = best"
| "min_index_from key best i b (x # xs) =
     (if key x < key b then min_index_from key i (Suc i) x xs
      else min_index_from key best (Suc i) b xs)"

definition min_index :: "('a \<Rightarrow> 'k::linorder) \<Rightarrow> 'a list \<Rightarrow> nat option" where
  "min_index key xs = (case xs of [] \<Rightarrow> None | x # ys \<Rightarrow> Some (min_index_from key 0 1 x ys))"

text \<open>\<open>VecDeque::remove\<close> at an index inside the deque.\<close>

definition remove_at :: "nat \<Rightarrow> 'a list \<Rightarrow> 'a list" where
  "remove_at i xs = take i xs @ drop (Suc i) xs"

text \<open>
  The eviction loop of \<open>push\<close>: while the best waiting task is older than the youngest task
  of the window, they change places. Its two \<open>expect\<close>s are the \<open>Panic\<close> branches.
\<close>

function tc_evict_loop :: "'a keyed list \<Rightarrow> 'a keyed list \<Rightarrow> ('a keyed list \<times> 'a keyed list) exec" where
  "tc_evict_loop heap rr =
     (case heap_peek heap of
        None \<Rightarrow> Done (heap, rr)
      | Some best \<Rightarrow>
          (case min_index keyed_meta rr of
             None \<Rightarrow> Done (heap, rr)
           | Some worst \<Rightarrow>
               if keyed_meta best \<le> keyed_meta (rr ! worst) then Done (heap, rr)
               else (case heap_pop keyed_meta heap of
                  (None, _) \<Rightarrow> Panic
                | (Some replacement, heap') \<Rightarrow>
                    if worst < length rr then
                      tc_evict_loop (heap_push keyed_meta heap' (rr ! worst)) (remove_at worst rr @ [replacement])
                    else Panic)))"
  by pat_completeness auto

text \<open>Each exchange puts a strictly older arrival into the window, so the sum of its arrival
  times drops.\<close>

definition window_age :: "'a keyed list \<Rightarrow> nat" where
  "window_age rr = (\<Sum>k\<leftarrow>rr. unat (meta_value (keyed_meta k)))"

lemma mset_remove_at: "i < length xs \<Longrightarrow> add_mset (xs ! i) (mset (remove_at i xs)) = mset xs"
proof -
  assume "i < length xs"
  then have "xs = take i xs @ xs ! i # drop (Suc i) xs" by (simp add: id_take_nth_drop [symmetric])
  then have "mset xs = mset (take i xs @ xs ! i # drop (Suc i) xs)" by simp
  then show ?thesis by (simp add: remove_at_def)
qed

lemma length_remove_at [simp]: "i < length xs \<Longrightarrow> length (remove_at i xs) = length xs - 1"
  by (auto simp: remove_at_def min_def)

lemma window_age_exchange:
  assumes "i < length rr"
  shows "window_age (remove_at i rr @ [k]) + unat (meta_value (keyed_meta (rr ! i)))
       = window_age rr + unat (meta_value (keyed_meta k))"
proof -
  have "window_age xs = (\<Sum>k\<in>#mset xs. unat (meta_value (keyed_meta k)))" for xs :: "'a keyed list"
    by (simp add: window_age_def sum_mset_sum_list [symmetric])
  then show ?thesis by (simp add: mset_remove_at [OF assms, symmetric])
qed

lemma window_age_drops:
  assumes "heap_peek heap = Some best" "\<not> keyed_meta best \<le> keyed_meta (rr ! worst)"
    "heap_pop keyed_meta heap = (Some replacement, heap')" "worst < length rr"
  shows "window_age (remove_at worst rr @ [replacement]) < window_age rr"
proof -
  have "replacement = best" using heap_pop_peek [of keyed_meta heap] assms(1,3) by simp
  with assms(2) have "meta_value (keyed_meta replacement) < meta_value (keyed_meta (rr ! worst))"
    by (auto simp: meta_le_iff)
  with window_age_exchange [OF assms(4), of replacement] show ?thesis
    by (simp add: word_less_nat_alt)
qed

termination tc_evict_loop
  by (relation "measure (\<lambda>(heap, rr). window_age rr)")
    (simp_all add: window_age_drops [OF _ _ sym] window_age_drops)

declare tc_evict_loop.simps [simp del]

definition tc_push :: "bool \<Rightarrow> nat \<Rightarrow> 'a tc_queue \<Rightarrow> 'a \<Rightarrow> task_view \<Rightarrow> 'a tc_queue exec" where
  "tc_push I C q item view =
     (if I \<and> is_infra (view_meta view) then Done (q\<lparr>tc_infra := tc_infra q @ [item]\<rparr>)
      else
        let q1 = q\<lparr>tc_heap := heap_push keyed_meta (tc_heap q) (Keyed (view_meta view) item)\<rparr> in
        if tc_rr q1 = [] then Done q1
        else let q2 = tc_fill C q1 in
          map_exec (\<lambda>(h, r). q2\<lparr>tc_heap := h, tc_rr := r\<rparr>) (tc_evict_loop (tc_heap q2) (tc_rr q2)))"

definition tc_pop :: "bool \<Rightarrow> nat \<Rightarrow> 'a tc_queue \<Rightarrow> 'a option \<times> 'a tc_queue" where
  "tc_pop I C q =
     (case (if I then tc_infra q else []) of
        item # rest \<Rightarrow> (Some item, q\<lparr>tc_infra := rest\<rparr>)
      | [] \<Rightarrow>
          let q1 = tc_fill C q in
          (case tc_rr q1 of
             [] \<Rightarrow> (None, q1)
           | k # rest \<Rightarrow> (Some (keyed_item k), q1\<lparr>tc_rr := rest\<rparr>)))"

definition tc_len :: "'a tc_queue \<Rightarrow> nat" where
  "tc_len q = length (tc_heap q) + length (tc_rr q) + length (tc_infra q)"

section \<open>The custom queue and its event trace\<close>

datatype trace_event =
    EvPush u64 u32 nat nat
  | EvPollStart u64 u32
  | EvPollEnd u64 u32 poll_outcome
  | EvIdle
  | EvExit u64

record 'a custom_queue =
  cq_q :: "'a keyed list"
  cq_infra :: "'a list"

text \<open>
  \<open>trace\<close> says whether the feature \<open>lifecycle_trace\<close> is on; the thread's log is
  passed along.
\<close>

definition trace_record :: "bool \<Rightarrow> trace_event \<Rightarrow> trace_event list \<Rightarrow> trace_event list" where
  "trace_record trace e log = (if trace then log @ [e] else log)"

definition trace_take :: "trace_event list \<Rightarrow> trace_event list \<times> trace_event list" where
  "trace_take log = (log, [])"

definition cq_with_capacity :: "'a custom_queue" where
  "cq_with_capacity = \<lparr>cq_q = [], cq_infra = []\<rparr>"

definition cq_push :: "bool \<Rightarrow> 'a custom_queue \<Rightarrow> 'a \<Rightarrow> task_view \<Rightarrow> trace_event list \<Rightarrow> 'a custom_queue \<times> trace_event list" where
  "cq_push trace q item view log =
     (let log' = trace_record trace
          (EvPush (task_id view) (polls view) (enqueued_at view) (first_enqueued_at view)) log in
      if is_infra (view_meta view) then (q\<lparr>cq_infra := cq_infra q @ [item]\<rparr>, log')
      else (q\<lparr>cq_q := heap_push keyed_meta (cq_q q) (Keyed (view_meta view) item)\<rparr>, log'))"

definition cq_pop :: "'a custom_queue \<Rightarrow> 'a option \<times> 'a custom_queue" where
  "cq_pop q =
     (case cq_infra q of
        item # rest \<Rightarrow> (Some item, q\<lparr>cq_infra := rest\<rparr>)
      | [] \<Rightarrow> (case heap_pop keyed_meta (cq_q q) of
          (r, h) \<Rightarrow> (map_option keyed_item r, q\<lparr>cq_q := h\<rparr>)))"

definition cq_len :: "'a custom_queue \<Rightarrow> nat" where
  "cq_len q = length (cq_q q) + length (cq_infra q)"

definition cq_on_poll_start :: "bool \<Rightarrow> task_view \<Rightarrow> trace_event list \<Rightarrow> trace_event list" where
  "cq_on_poll_start trace view log = trace_record trace (EvPollStart (task_id view) (polls view)) log"

definition cq_on_poll_end :: "bool \<Rightarrow> task_view \<Rightarrow> poll_outcome \<Rightarrow> trace_event list \<Rightarrow> trace_event list" where
  "cq_on_poll_end trace view outcome log =
     trace_record trace (EvPollEnd (task_id view) (polls view) outcome) log"

definition cq_on_idle :: "bool \<Rightarrow> trace_event list \<Rightarrow> trace_event list" where
  "cq_on_idle trace log = trace_record trace EvIdle log"

definition cq_on_task_exit :: "bool \<Rightarrow> u64 \<Rightarrow> trace_event list \<Rightarrow> trace_event list" where
  "cq_on_task_exit trace t log = trace_record trace (EvExit t) log"

section \<open>The run queue contract\<close>

text \<open>
  The trait \<open>RunQueue\<close>. A client may push and pop in any order; the contract is that no call
  panics, that what is inside is exactly what was pushed and not yet popped, and that
  \<open>pop\<close> returns nothing only when the queue is empty.
\<close>

datatype 'a queue_op = OpPush 'a task_view | OpPop

fun run_ops :: "('q \<Rightarrow> 'a \<Rightarrow> task_view \<Rightarrow> 'q exec) \<Rightarrow> ('q \<Rightarrow> 'a option \<times> 'q) \<Rightarrow>
    'q \<Rightarrow> 'a queue_op list \<Rightarrow> ('a option list \<times> 'q) exec" where
  "run_ops push pop q [] = Done ([], q)"
| "run_ops push pop q (OpPush x v # ops) = bind_exec (push q x v) (\<lambda>q'. run_ops push pop q' ops)"
| "run_ops push pop q (OpPop # ops) =
     (case pop q of (r, q') \<Rightarrow> map_exec (\<lambda>(rs, q''). (r # rs, q'')) (run_ops push pop q' ops))"

fun pushed :: "'a queue_op list \<Rightarrow> 'a multiset" where
  "pushed [] = {#}"
| "pushed (OpPush x v # ops) = add_mset x (pushed ops)"
| "pushed (OpPop # ops) = pushed ops"

fun somes :: "'a option list \<Rightarrow> 'a list" where
  "somes [] = []"
| "somes (None # xs) = somes xs"
| "somes (Some x # xs) = x # somes xs"

locale run_queue =
  fixes start :: "'q"
    and push :: "'q \<Rightarrow> 'a \<Rightarrow> task_view \<Rightarrow> 'q exec"
    and pop :: "'q \<Rightarrow> 'a option \<times> 'q"
    and len :: "'q \<Rightarrow> nat"
    and items :: "'q \<Rightarrow> 'a multiset"
    and invar :: "'q \<Rightarrow> bool"
  assumes start_invar: "invar start"
    and start_items: "items start = {#}"
    and push_ok: "invar q \<Longrightarrow> \<exists>q'. push q x v = Done q' \<and> invar q' \<and> items q' = add_mset x (items q)"
    and pop_invar: "invar q \<Longrightarrow> pop q = (r, q') \<Longrightarrow> invar q'"
    and pop_Some: "invar q \<Longrightarrow> pop q = (Some x, q') \<Longrightarrow> items q = add_mset x (items q')"
    and pop_None: "invar q \<Longrightarrow> pop q = (None, q') \<Longrightarrow> items q = {#} \<and> items q' = {#}"
    and len_items: "invar q \<Longrightarrow> len q = size (items q)"
begin

lemma run_ops_conserves:
  "invar q \<Longrightarrow> \<exists>rs q'. run_ops push pop q ops = Done (rs, q') \<and> invar q' \<and>
     items q + pushed ops = mset (somes rs) + items q' \<and> len q + size (pushed ops) = length (somes rs) + len q'"
proof (induction ops arbitrary: q)
  case (Cons op ops)
  show ?case
  proof (cases op)
    case (OpPush x v)
    obtain q1 where q1: "push q x v = Done q1" "invar q1" "items q1 = add_mset x (items q)"
      using push_ok [OF Cons.prems] by blast
    from Cons.IH [OF q1(2)] show ?thesis using OpPush q1 Cons.prems by (auto simp: len_items)
  next
    case OpPop
    obtain r q1 where q1: "pop q = (r, q1)" by fastforce
    then have i: "invar q1" using pop_invar Cons.prems by blast
    from Cons.IH [OF i] obtain rs q' where IH: "run_ops push pop q1 ops = Done (rs, q')" "invar q'"
      "items q1 + pushed ops = mset (somes rs) + items q'" "len q1 + size (pushed ops) = length (somes rs) + len q'"
      by blast
    show ?thesis
    proof (cases r)
      case None
      with q1 pop_None [OF Cons.prems] have "items q = items q1" by simp
      with None OpPop IH q1 i Cons.prems show ?thesis by (simp add: len_items)
    next
      case (Some x)
      with q1 pop_Some [OF Cons.prems] have "items q = add_mset x (items q1)" by simp
      with Some OpPop IH q1 i Cons.prems show ?thesis by (simp add: len_items)
    qed
  qed
qed auto

lemma drain_all: "invar q \<Longrightarrow> n = len q \<Longrightarrow> mset (drain pop n q) = items q"
proof (induction n arbitrary: q)
  case 0
  then show ?case by (simp add: len_items)
next
  case (Suc n)
  obtain r q1 where q1: "pop q = (r, q1)" by fastforce
  then have i: "invar q1" using pop_invar Suc.prems by blast
  show ?case
  proof (cases r)
    case None
    with q1 Suc.prems pop_None show ?thesis by (auto simp: len_items)
  next
    case (Some x)
    with q1 have e: "items q = add_mset x (items q1)" using pop_Some Suc.prems by blast
    with Suc.prems i have "n = len q1" by (simp add: len_items)
    with Suc.IH [OF i] q1 Some e show ?thesis by simp
  qed
qed

end

section \<open>FIFO meets the contract\<close>

interpretation fq: run_queue fifo_with_capacity "\<lambda>q x v. Done (fifo_push q x v)" fifo_pop fifo_len
  "\<lambda>q. mset (fifo_inner q)" "\<lambda>q. True"
  by unfold_locales
    (auto simp: fifo_with_capacity_def fifo_push_def fifo_pop_def fifo_len_def split: list.splits)

section \<open>The priority heap meets the contract\<close>

definition hq_inv :: "'a heap_queue \<Rightarrow> bool" where
  "hq_inv q \<longleftrightarrow> is_heap keyed_meta (hq_q q) \<and> (\<forall>k\<in>set (hq_q q). \<not> is_infra (keyed_meta k))"

definition hq_items :: "'a heap_queue \<Rightarrow> 'a multiset" where
  "hq_items q = image_mset keyed_item (mset (hq_q q)) + mset (hq_infra q)"

lemma set_heap_push [simp]: "set (heap_push key xs x) = insert x (set xs)"
  using mset_heap_push [of key xs x] by (metis set_mset_add_mset_insert set_mset_mset)

lemma heap_pop_set: "heap_pop key xs = (r, ys) \<Longrightarrow> set ys \<subseteq> set xs"
proof (cases r)
  case None
  assume "heap_pop key xs = (r, ys)"
  with None have "xs = []" "ys = []" by (auto simp: heap_pop_def Let_def split: if_splits)
  then show ?thesis by simp
next
  case (Some x)
  assume "heap_pop key xs = (r, ys)"
  with Some have "mset xs = add_mset x (mset ys)" by (simp add: mset_heap_pop)
  then show ?thesis by (metis set_mset_add_mset_insert set_mset_mset subset_insertI)
qed

lemma heap_pop_NoneD: "heap_pop key xs = (None, ys) \<Longrightarrow> xs = [] \<and> ys = []"
  by (auto simp: heap_pop_def Let_def split: if_splits)

lemma hq_push_inv: "hq_inv q \<Longrightarrow> hq_inv (hq_push q x v)"
  by (auto simp: hq_inv_def hq_push_def bh.push_invar)

lemma hq_push_items: "hq_items (hq_push q x v) = add_mset x (hq_items q)"
  by (auto simp: hq_items_def hq_push_def mset_heap_push)

lemma hq_pop_inv: "hq_inv q \<Longrightarrow> hq_pop q = (r, q') \<Longrightarrow> hq_inv q'"
  using heap_pop_set [of keyed_meta "hq_q q"]
  by (auto simp: hq_inv_def hq_pop_def bh.pop_invar split: list.splits prod.splits)

lemma hq_pop_Some: "hq_pop q = (Some x, q') \<Longrightarrow> hq_items q = add_mset x (hq_items q')"
  by (auto simp: hq_items_def hq_pop_def mset_heap_pop split: list.splits prod.splits)

lemma hq_pop_None: "hq_pop q = (None, q') \<Longrightarrow> hq_items q = {#} \<and> hq_items q' = {#}"
  by (auto simp: hq_items_def hq_pop_def dest!: heap_pop_NoneD split: list.splits prod.splits)

interpretation hq: run_queue hq_with_capacity "\<lambda>q x v. Done (hq_push q x v)" hq_pop hq_len hq_items hq_inv
proof (unfold_locales, goal_cases)
  case 1
  then show ?case by (simp add: hq_inv_def hq_with_capacity_def)
next
  case 2
  then show ?case by (simp add: hq_items_def hq_with_capacity_def)
next
  case (3 q x v)
  then show ?case by (simp add: hq_push_inv hq_push_items)
next
  case (4 q r q')
  then show ?case by (rule hq_pop_inv)
next
  case (5 q x q')
  then show ?case by (intro hq_pop_Some)
next
  case (6 q q')
  then show ?case by (intro hq_pop_None)
next
  case (7 q)
  then show ?case by (simp add: hq_len_def hq_items_def)
qed

text \<open>
  Draining the queue gives the infrastructure lane in order of arrival, then the heap in order
  of its metadata.
\<close>

lemma hq_drain_infra:
  "drain hq_pop (length (hq_infra q) + n) q = hq_infra q @ drain hq_pop n (q\<lparr>hq_infra := []\<rparr>)"
proof (induction "hq_infra q" arbitrary: q)
  case (Cons x xs)
  then have e: "hq_infra q = x # xs" by simp
  have "drain hq_pop (length (hq_infra q) + n) q = x # drain hq_pop (length xs + n) (q\<lparr>hq_infra := xs\<rparr>)"
    by (simp add: e hq_pop_def)
  also have "\<dots> = x # xs @ drain hq_pop n (q\<lparr>hq_infra := []\<rparr>)"
    using Cons.hyps(1) [of "q\<lparr>hq_infra := xs\<rparr>"] by simp
  finally show ?case by (simp add: e)
next
  case Nil
  then have e: "hq_infra q = []" by simp
  then have "drain hq_pop n (q\<lparr>hq_infra := []\<rparr>) = drain hq_pop n q" by (cases q) simp
  then show ?case unfolding e by simp
qed

lemma hq_drain_heap:
  "hq_infra q = [] \<Longrightarrow> drain hq_pop n q = map keyed_item (drain (heap_pop keyed_meta) n (hq_q q))"
proof (induction n arbitrary: q)
  case (Suc n)
  show ?case
  proof (cases "heap_pop keyed_meta (hq_q q)")
    case (Pair r h)
    then show ?thesis using Suc by (cases r) (auto simp: hq_pop_def)
  qed
qed simp

lemma hq_drain_order:
  assumes "hq_inv q"
  shows "\<exists>ks. drain hq_pop (hq_len q) q = hq_infra q @ map keyed_item ks \<and> mset ks = mset (hq_q q) \<and>
    sorted (map (\<lambda>k. meta_value (keyed_meta k)) ks)"
proof -
  define ks where "ks = drain (heap_pop keyed_meta) (length (hq_q q)) (hq_q q)"
  have h: "is_heap keyed_meta (hq_q q)" using assms by (simp add: hq_inv_def)
  have "drain hq_pop (hq_len q) q = hq_infra q @ map keyed_item ks"
    using hq_drain_infra [of q "length (hq_q q)"] hq_drain_heap [of "q\<lparr>hq_infra := []\<rparr>" "length (hq_q q)"]
    by (simp add: hq_len_def ks_def add.commute)
  moreover have "mset ks = mset (hq_q q)" unfolding ks_def by (rule bh.drain_elems [OF h]) simp
  moreover have "sorted (map (\<lambda>k. meta_value (keyed_meta k)) ks)"
    using bh.drain_sorted [OF h, of "length (hq_q q)"]
    by (simp add: ks_def sorted_map meta_le_iff)
  ultimately show ?thesis by blast
qed

section \<open>The TailClipper queue\<close>

text \<open>
  The invariant: the waiting tasks form a heap, the window has at most \<open>C\<close> tasks, and every
  task of the window is at least as old as every waiting task.
\<close>

definition dominates :: "'a keyed list \<Rightarrow> 'a keyed list \<Rightarrow> bool" where
  "dominates rr heap \<longleftrightarrow> (\<forall>r\<in>set rr. \<forall>h\<in>set heap. keyed_meta h \<le> keyed_meta r)"

definition tc_inv :: "bool \<Rightarrow> nat \<Rightarrow> 'a tc_queue \<Rightarrow> bool" where
  "tc_inv I C q \<longleftrightarrow> is_heap keyed_meta (tc_heap q) \<and> length (tc_rr q) \<le> C \<and>
     dominates (tc_rr q) (tc_heap q) \<and> (I \<or> tc_infra q = [])"

definition tc_elems :: "'a tc_queue \<Rightarrow> 'a keyed multiset" where
  "tc_elems q = mset (tc_heap q) + mset (tc_rr q)"

definition tc_items :: "'a tc_queue \<Rightarrow> 'a multiset" where
  "tc_items q = image_mset keyed_item (tc_elems q) + mset (tc_infra q)"

lemma tc_fill_loop_step:
  "length rr < C \<Longrightarrow> heap_pop keyed_meta heap = (Some x, heap') \<Longrightarrow>
   tc_fill_loop C heap rr = tc_fill_loop C heap' (rr @ [x])"
  by (simp add: tc_fill_loop.simps [of C heap rr])

lemma tc_fill_loop_done:
  "\<not> length rr < C \<Longrightarrow> tc_fill_loop C heap rr = (heap, rr)"
  "heap_pop keyed_meta heap = (None, heap') \<Longrightarrow> tc_fill_loop C heap rr = (heap, rr)"
  by (auto simp: tc_fill_loop.simps [of C heap rr] dest: heap_pop_NoneD)

text \<open>
  Filling moves the oldest waiting tasks into the window until it is full or none waits; it
  keeps the tasks, and a window that dominated the waiting tasks still does.
\<close>

lemma tc_fill_loop_spec:
  "is_heap keyed_meta heap \<Longrightarrow> tc_fill_loop C heap rr = (heap', rr') \<Longrightarrow>
   is_heap keyed_meta heap' \<and> mset heap' + mset rr' = mset heap + mset rr \<and>
   length rr' \<le> max C (length rr) \<and> (C \<le> length rr' \<or> heap' = []) \<and>
   (dominates rr heap \<longrightarrow> dominates rr' heap')"
proof (induction C heap rr rule: tc_fill_loop.induct)
  case (1 C heap rr)
  obtain r h1 where pop: "heap_pop keyed_meta heap = (r, h1)" by fastforce
  show ?case
  proof (cases "length rr < C \<and> r \<noteq> None")
    case True
    then obtain x where x: "r = Some x" "length rr < C" by auto
    with pop have pop': "heap_pop keyed_meta heap = (Some x, h1)" by simp
    have rec: "tc_fill_loop C h1 (rr @ [x]) = (heap', rr')"
      using "1.prems"(2) tc_fill_loop_step [OF x(2) pop'] by simp
    have dom: "dominates rr heap \<longrightarrow> dominates (rr @ [x]) h1"
      using heap_pop_set [OF pop'] bh.pop_Some_max [OF "1.prems"(1) pop'] by (auto simp: dominates_def)
    from "1.IH" [OF x(2) pop' [symmetric] refl bh.pop_invar [OF "1.prems"(1) pop'] rec] dom
    show ?thesis using x(2) mset_heap_pop [OF pop'] by auto
  next
    case False
    then have "heap' = heap" "rr' = rr" "C \<le> length rr \<or> heap = []"
      using "1.prems"(2) tc_fill_loop_done [where C = C and rr = rr and heap = heap] pop
        heap_pop_NoneD [of keyed_meta heap h1]
      by (auto simp: not_less)
    with "1.prems" show ?thesis by auto
  qed
qed

lemma min_index_from_spec:
  "length zs = i \<Longrightarrow> best < i \<Longrightarrow> b = zs ! best \<Longrightarrow> w = min_index_from key best i b xs \<Longrightarrow>
   w < length (zs @ xs) \<and> key ((zs @ xs) ! w) \<le> key b \<and> (\<forall>x\<in>set xs. key ((zs @ xs) ! w) \<le> key x)"
proof (induction key best i b xs arbitrary: zs rule: min_index_from.induct)
  case (1 key best i b)
  then show ?case by simp
next
  case (2 key best i b x xs)
  have nth: "(zs @ [x]) ! best = zs ! best" "(zs @ [x]) ! i = x"
    using "2.prems" by (auto simp: nth_append)
  show ?case
  proof (cases "key x < key b")
    case True
    with "2.IH"(1) [OF True, of "zs @ [x]"] "2.prems" nth show ?thesis by force
  next
    case False
    with "2.IH"(2) [OF False, of "zs @ [x]"] "2.prems" nth show ?thesis by force
  qed
qed

lemma min_index_Some:
  assumes "min_index key xs = Some w"
  shows "w < length xs \<and> (\<forall>x\<in>set xs. key (xs ! w) \<le> key x)"
proof (cases xs)
  case Nil
  then show ?thesis using assms by (simp add: min_index_def)
next
  case (Cons x ys)
  with assms min_index_from_spec [of "[x]" 1 0 x w key ys] show ?thesis by (auto simp: min_index_def)
qed

lemma min_index_Nil [simp]: "min_index key [] = None"
  by (simp add: min_index_def)

lemma heap_peek_Nil [simp]: "heap_peek [] = None"
  by simp

lemma min_index_None [simp]: "min_index key xs = None \<longleftrightarrow> xs = []"
  by (auto simp: min_index_def split: list.splits)

text \<open>The eviction loop never panics, and leaves a window that dominates the waiting tasks.\<close>

lemma tc_evict_loop_spec:
  "is_heap keyed_meta heap \<Longrightarrow> \<exists>heap' rr'. tc_evict_loop heap rr = Done (heap', rr') \<and>
     is_heap keyed_meta heap' \<and> dominates rr' heap' \<and> mset heap' + mset rr' = mset heap + mset rr \<and>
     length rr' = length rr"
proof (induction "window_age rr" arbitrary: heap rr rule: less_induct)
  case less
  show ?case
  proof (cases "heap_peek heap = None \<or> min_index keyed_meta rr = None")
    case True
    then have "tc_evict_loop heap rr = Done (heap, rr)" "dominates rr heap"
      by (auto simp: tc_evict_loop.simps [of heap rr] dominates_def split: option.splits)
    with less.prems show ?thesis by blast
  next
    case False
    then obtain best w where bw: "heap_peek heap = Some best" "min_index keyed_meta rr = Some w"
      by (meson not_None_eq)
    have w: "w < length rr" "\<And>x. x \<in> set rr \<Longrightarrow> keyed_meta (rr ! w) \<le> keyed_meta x"
      using min_index_Some [OF bw(2)] by auto
    have best: "\<And>y. y \<in> set heap \<Longrightarrow> keyed_meta y \<le> keyed_meta best"
      using heap_peek_max [OF less.prems bw(1)] .
    show ?thesis
    proof (cases "keyed_meta best \<le> keyed_meta (rr ! w)")
      case True
      then have "tc_evict_loop heap rr = Done (heap, rr)"
        using bw by (simp add: tc_evict_loop.simps [of heap rr])
      moreover have "dominates rr heap" using True w best by (meson dominates_def order.trans)
      ultimately show ?thesis using less.prems by blast
    next
      case False
      obtain h1 where pop: "heap_pop keyed_meta heap = (Some best, h1)"
        using heap_pop_peek [of keyed_meta heap] bw(1) by (metis prod.collapse)
      let ?h = "heap_push keyed_meta h1 (rr ! w)" and ?r = "remove_at w rr @ [best]"
      have step: "tc_evict_loop heap rr = tc_evict_loop ?h ?r"
        using bw False pop w by (simp add: tc_evict_loop.simps [of heap rr])
      have "window_age ?r < window_age rr" by (rule window_age_drops [OF bw(1) False pop w(1)])
      moreover have "is_heap keyed_meta ?h" using bh.pop_invar [OF less.prems pop] by (rule bh.push_invar)
      ultimately obtain heap' rr' where "tc_evict_loop ?h ?r = Done (heap', rr')" "is_heap keyed_meta heap'"
        "dominates rr' heap'" "mset heap' + mset rr' = mset ?h + mset ?r" "length rr' = length ?r"
        using less.hyps by blast
      moreover have "mset ?h + mset ?r = mset heap + mset rr"
        using mset_heap_pop [OF pop] mset_remove_at [OF w(1)] by (simp add: mset_heap_push)
      moreover have "length ?r = length rr" using w(1) by simp
      ultimately show ?thesis using step by simp
    qed
  qed
qed

lemma tc_fill_spec:
  assumes "is_heap keyed_meta (tc_heap q)" "dominates (tc_rr q) (tc_heap q)" "length (tc_rr q) \<le> C"
  shows "is_heap keyed_meta (tc_heap (tc_fill C q))" "dominates (tc_rr (tc_fill C q)) (tc_heap (tc_fill C q))"
    "length (tc_rr (tc_fill C q)) \<le> C" "tc_elems (tc_fill C q) = tc_elems q"
    "C \<le> length (tc_rr (tc_fill C q)) \<or> tc_heap (tc_fill C q) = []"
    "tc_infra (tc_fill C q) = tc_infra q"
proof -
  obtain h r where l: "tc_fill_loop C (tc_heap q) (tc_rr q) = (h, r)" by fastforce
  note spec = tc_fill_loop_spec [OF assms(1) l]
  from l have e: "tc_fill C q = q\<lparr>tc_heap := h, tc_rr := r\<rparr>" by (simp add: tc_fill_def)
  show "is_heap keyed_meta (tc_heap (tc_fill C q))" "dominates (tc_rr (tc_fill C q)) (tc_heap (tc_fill C q))"
    "length (tc_rr (tc_fill C q)) \<le> C" "tc_elems (tc_fill C q) = tc_elems q"
    "C \<le> length (tc_rr (tc_fill C q)) \<or> tc_heap (tc_fill C q) = []"
    "tc_infra (tc_fill C q) = tc_infra q"
    using spec assms(2,3) by (auto simp: e tc_elems_def)
qed

lemma tc_push_spec:
  assumes "tc_inv I C q"
  shows "\<exists>q'. tc_push I C q x v = Done q' \<and> tc_inv I C q' \<and> tc_items q' = add_mset x (tc_items q)"
proof (cases "I \<and> is_infra (view_meta v)")
  case True
  then show ?thesis using assms by (auto simp: tc_push_def tc_inv_def tc_items_def tc_elems_def)
next
  case lane: False
  define q1 where "q1 = q\<lparr>tc_heap := heap_push keyed_meta (tc_heap q) (Keyed (view_meta v) x)\<rparr>"
  have heap1: "is_heap keyed_meta (tc_heap q1)"
    using assms by (simp add: q1_def tc_inv_def bh.push_invar)
  have items1: "tc_items q1 = add_mset x (tc_items q)"
    by (simp add: q1_def tc_items_def tc_elems_def mset_heap_push)
  show ?thesis
  proof (cases "tc_rr q = []")
    case True
    then have "tc_push I C q x v = Done q1" using lane by (auto simp: tc_push_def Let_def q1_def)
    moreover have "tc_inv I C q1" using heap1 True assms by (simp add: tc_inv_def q1_def dominates_def)
    ultimately show ?thesis using items1 by blast
  next
    case False
    obtain h2 r2 where l2: "tc_fill_loop C (tc_heap q1) (tc_rr q1) = (h2, r2)" by fastforce
    have h2: "is_heap keyed_meta h2" "mset h2 + mset r2 = tc_elems q1" "length r2 \<le> C"
      using tc_fill_loop_spec [OF heap1 l2] assms by (auto simp: tc_elems_def tc_inv_def q1_def)
    obtain h3 r3 where l3: "tc_evict_loop h2 r2 = Done (h3, r3)" "is_heap keyed_meta h3" "dominates r3 h3"
      "mset h3 + mset r3 = mset h2 + mset r2" "length r3 = length r2"
      using tc_evict_loop_spec [OF h2(1)] by blast
    let ?q = "q1\<lparr>tc_heap := h3, tc_rr := r3\<rparr>"
    have "tc_push I C q x v = Done ?q"
      using lane False l2 l3(1) by (auto simp: tc_push_def Let_def q1_def tc_fill_def)
    moreover have "tc_inv I C ?q" using l3 h2(3) assms by (simp add: tc_inv_def q1_def)
    moreover have "tc_items ?q = tc_items q1"
      using l3(4) h2(2) by (simp add: tc_items_def tc_elems_def)
    ultimately show ?thesis using items1 by auto
  qed
qed

lemma tc_pop_cases:
  assumes "tc_inv I C q"
  obtains (lane) item rest where "I" "tc_infra q = item # rest" "tc_pop I C q = (Some item, q\<lparr>tc_infra := rest\<rparr>)"
  | (window) k rest where "\<not> I \<or> tc_infra q = []" "tc_rr (tc_fill C q) = k # rest"
      "tc_pop I C q = (Some (keyed_item k), (tc_fill C q)\<lparr>tc_rr := rest\<rparr>)"
  | (empty) "tc_infra q = []" "tc_rr (tc_fill C q) = []" "tc_pop I C q = (None, tc_fill C q)"
proof (cases "I \<and> tc_infra q \<noteq> []")
  case True
  then obtain item rest where "tc_infra q = item # rest" by (auto simp: neq_Nil_conv)
  with True that(1) show ?thesis by (simp add: tc_pop_def)
next
  case False
  then have n: "(if I then tc_infra q else []) = []" by auto
  have i: "\<not> I \<or> tc_infra q = []" "tc_infra q = []" using False assms by (auto simp: tc_inv_def)
  show ?thesis
  proof (cases "tc_rr (tc_fill C q)")
    case Nil
    then show ?thesis using that(3) i n unfolding tc_pop_def by (simp add: Let_def)
  next
    case (Cons k rest)
    then show ?thesis using that(2) i n unfolding tc_pop_def by (simp add: Let_def)
  qed
qed

lemma tc_pop_inv: "tc_inv I C q \<Longrightarrow> tc_pop I C q = (r, q') \<Longrightarrow> tc_inv I C q'"
proof -
  assume inv: "tc_inv I C q" and pop: "tc_pop I C q = (r, q')"
  have f: "is_heap keyed_meta (tc_heap q)" "dominates (tc_rr q) (tc_heap q)" "length (tc_rr q) \<le> C"
    using inv by (auto simp: tc_inv_def)
  from inv show "tc_inv I C q'"
  proof (cases rule: tc_pop_cases)
    case (lane item rest)
    then show ?thesis using inv pop by (auto simp: tc_inv_def)
  next
    case (window k rest)
    then show ?thesis using tc_fill_spec [OF f] inv pop by (auto simp: tc_inv_def dominates_def)
  next
    case empty
    then show ?thesis using tc_fill_spec [OF f] inv pop by (auto simp: tc_inv_def)
  qed
qed

lemma tc_pop_Some: "tc_inv I C q \<Longrightarrow> tc_pop I C q = (Some x, q') \<Longrightarrow> tc_items q = add_mset x (tc_items q')"
proof -
  assume inv: "tc_inv I C q" and pop: "tc_pop I C q = (Some x, q')"
  have f: "is_heap keyed_meta (tc_heap q)" "dominates (tc_rr q) (tc_heap q)" "length (tc_rr q) \<le> C"
    using inv by (auto simp: tc_inv_def)
  from inv show ?thesis
  proof (cases rule: tc_pop_cases)
    case (lane item rest)
    then show ?thesis using pop by (auto simp: tc_items_def tc_elems_def)
  next
    case (window k rest)
    then have "tc_elems q = add_mset k (tc_elems q')"
      using tc_fill_spec(4) [OF f] pop by (auto simp: tc_elems_def)
    then show ?thesis using window tc_fill_spec(6) [OF f] pop by (auto simp: tc_items_def)
  next
    case empty
    then show ?thesis using pop by simp
  qed
qed

lemma tc_pop_None:
  "0 < C \<Longrightarrow> tc_inv I C q \<Longrightarrow> tc_pop I C q = (None, q') \<Longrightarrow> tc_items q = {#} \<and> tc_items q' = {#}"
proof -
  assume C: "0 < C" and inv: "tc_inv I C q" and pop: "tc_pop I C q = (None, q')"
  have f: "is_heap keyed_meta (tc_heap q)" "dominates (tc_rr q) (tc_heap q)" "length (tc_rr q) \<le> C"
    using inv by (auto simp: tc_inv_def)
  from inv show ?thesis
  proof (cases rule: tc_pop_cases)
    case empty
    then have "tc_heap (tc_fill C q) = []" using tc_fill_spec(5) [OF f] C by auto
    then have "tc_elems (tc_fill C q) = {#}" using empty by (simp add: tc_elems_def)
    then show ?thesis using empty pop tc_fill_spec(4,6) [OF f] by (simp add: tc_items_def)
  qed (use pop in auto)
qed

text \<open>
  The window width of the program is 6, which makes \<open>with_capacity\<close> succeed; the contract
  holds for every positive width.
\<close>

interpretation tc: run_queue "\<lparr>tc_heap = [], tc_rr = [], tc_infra = []\<rparr>" "tc_push I (Suc c)" "tc_pop I (Suc c)"
  tc_len tc_items "tc_inv I (Suc c)" for I c
proof (unfold_locales, goal_cases)
  case (3 q x v)
  then show ?case by (rule tc_push_spec)
next
  case (4 q r q')
  then show ?case by (rule tc_pop_inv)
next
  case (5 q x q')
  then show ?case by (rule tc_pop_Some)
next
  case (6 q q')
  then show ?case by (intro tc_pop_None) auto
qed (simp_all add: tc_inv_def dominates_def tc_items_def tc_elems_def tc_len_def)

lemma tc_reachable_inv:
  assumes "tc_with_capacity C = Done q0" "run_ops (tc_push I C) (tc_pop I C) q0 ops = Done (rs, q)"
  shows "tc_inv I C q" "0 < C" "pushed ops = mset (somes rs) + tc_items q"
    "size (pushed ops) = length (somes rs) + tc_len q"
proof -
  from assms(1) obtain c where C: "C = Suc c" and q0: "q0 = \<lparr>tc_heap = [], tc_rr = [], tc_infra = []\<rparr>"
    by (cases C) (auto simp: tc_with_capacity_def)
  from tc.run_ops_conserves [OF tc.start_invar [of I c], where ops = ops] assms(2) C q0
  show "tc_inv I C q" "0 < C" "pushed ops = mset (somes rs) + tc_items q"
    "size (pushed ops) = length (somes rs) + tc_len q"
    by (auto simp: tc.start_items tc_len_def tc_items_def tc_elems_def)
qed

lemma size_filter_window:
  assumes "dominates (k # rest) heap"
  shows "size {#k' \<in># mset heap + mset (k # rest). keyed_meta k < keyed_meta k'#} \<le> length rest"
proof -
  have "{#k' \<in># mset heap. keyed_meta k < keyed_meta k'#} = {#}"
    using assms by (auto simp: dominates_def filter_mset_eq_conv)
  then have "{#k' \<in># mset heap + mset (k # rest). keyed_meta k < keyed_meta k'#}
      = {#k' \<in># mset rest. keyed_meta k < keyed_meta k'#}" by simp
  then show ?thesis by (metis size_filter_mset_lesseq size_mset)
qed

section \<open>Properties\<close>

text \<open>
  Claim C1. From a fresh TailClipper queue, whatever was pushed and popped before, the task
  that \<open>pop\<close> returns has fewer than \<open>C\<close> queued tasks older than itself: it is one of the
  \<open>C\<close> oldest, so a request is overtaken by less than a window of younger ones.
\<close>

theorem tailclipper_serves_the_oldest:
  assumes "tc_with_capacity C = Done q0"
    and "run_ops (tc_push False C) (tc_pop False C) q0 ops = Done (rs, q)"
    and "tc_pop False C q = (Some x, q')"
  shows "\<exists>k. k \<in># tc_elems q \<and> keyed_item k = x \<and>
    size {#k' \<in># tc_elems q. meta_value (keyed_meta k') < meta_value (keyed_meta k)#} < C"
proof -
  have inv: "tc_inv False C q" "0 < C" using tc_reachable_inv [OF assms(1,2)] by auto
  have f: "is_heap keyed_meta (tc_heap q)" "dominates (tc_rr q) (tc_heap q)" "length (tc_rr q) \<le> C"
    using inv by (auto simp: tc_inv_def)
  from inv(1) show ?thesis
  proof (cases rule: tc_pop_cases)
    case (window k rest)
    have el: "tc_elems q = mset (tc_heap (tc_fill C q)) + mset (k # rest)"
      using tc_fill_spec(4) [OF f] window(2) by (simp add: tc_elems_def)
    have "size {#k' \<in># tc_elems q. keyed_meta k < keyed_meta k'#} \<le> length rest"
      unfolding el using tc_fill_spec(2) [OF f] window(2) by (intro size_filter_window) simp
    moreover have "length rest < C" using tc_fill_spec(3) [OF f] window(2) by simp
    moreover have "keyed_item k = x" using window(3) assms(3) by simp
    moreover have "k \<in># tc_elems q" unfolding el by simp
    ultimately show ?thesis unfolding meta_less_iff
      by (intro exI [of _ k] conjI) (assumption, assumption, linarith)
  qed (use assms(3) in auto)
qed

definition ex_view :: "u64 \<Rightarrow> task_view" where
  "ex_view m = \<lparr>task_id = m, view_meta = Meta m, enqueued_at = 0, first_enqueued_at = 0, polls = 0\<rparr>"

theorem tailclipper_serves_the_oldest_witness:
  "\<exists>k. k \<in># mset [Keyed (Meta 3) ''b'', Keyed (Meta 9) ''c'', Keyed (Meta 5) ''a''] \<and> keyed_item k = ''b'' \<and>
     size {#k' \<in># mset [Keyed (Meta 3) ''b'', Keyed (Meta 9) ''c'', Keyed (Meta 5) ''a''].
       meta_value (keyed_meta k') < meta_value (keyed_meta k)#} < 1"
proof -
  let ?q = "\<lparr>tc_heap = [Keyed (Meta 3) ''b'', Keyed (Meta 9) ''c'', Keyed (Meta 5) ''a''], tc_rr = [], tc_infra = []\<rparr>"
  have run: "run_ops (tc_push False 1) (tc_pop False 1) \<lparr>tc_heap = [], tc_rr = [], tc_infra = []\<rparr>
      [OpPush ''c'' (ex_view 9), OpPush ''a'' (ex_view 5), OpPush ''b'' (ex_view 3)] = Done ([], ?q)"
    by code_simp
  have pop: "tc_pop False 1 ?q =
      (Some ''b'', \<lparr>tc_heap = [Keyed (Meta 5) ''a'', Keyed (Meta 9) ''c''], tc_rr = [], tc_infra = []\<rparr>)"
    by code_simp
  have "tc_with_capacity 1 = Done \<lparr>tc_heap = [], tc_rr = [], tc_infra = []\<rparr>"
    by (simp add: tc_with_capacity_def)
  from tailclipper_serves_the_oldest [OF this run pop] show ?thesis
    unfolding tc_elems_def tc_queue.select_convs mset.simps(1) add_0_right .
qed

text \<open>
  No sequence of pushes and pops on a fresh TailClipper queue panics (the two
  \<open>expect\<close>s of the eviction loop cannot fire and the loop ends), and it neither loses nor
  duplicates a task: what was pushed is what was popped plus what is still queued, and
  \<open>len\<close> counts the latter.
\<close>

theorem tailclipper_conserves_tasks:
  assumes "tc_with_capacity C = Done q0"
  shows "\<exists>rs q. run_ops (tc_push I C) (tc_pop I C) q0 ops = Done (rs, q) \<and>
    pushed ops = mset (somes rs) + tc_items q \<and> tc_len q = size (tc_items q)"
proof -
  from assms obtain c where C: "C = Suc c" and q0: "q0 = \<lparr>tc_heap = [], tc_rr = [], tc_infra = []\<rparr>"
    by (cases C) (auto simp: tc_with_capacity_def)
  from tc.run_ops_conserves [OF tc.start_invar [of I c], where ops = ops] C q0 show ?thesis
    by (auto simp: tc.start_items tc.len_items)
qed

theorem tailclipper_conserves_tasks_witness:
  "\<exists>rs q. run_ops (tc_push True 6) (tc_pop True 6) \<lparr>tc_heap = [], tc_rr = [], tc_infra = []\<rparr>
      [OpPush ''x'' (ex_view 7), OpPop, OpPush ''y'' (ex_view 0), OpPop] = Done (rs, q) \<and>
    {#''x'', ''y''#} = mset (somes rs) + tc_items q \<and> tc_len q = size (tc_items q)"
  using tailclipper_conserves_tasks [of 6 "\<lparr>tc_heap = [], tc_rr = [], tc_infra = []\<rparr>" True
      "[OpPush ''x'' (ex_view 7), OpPop, OpPush ''y'' (ex_view 0), OpPop]"]
  by (simp add: tc_with_capacity_def)

text \<open>
  After a push into a non-empty window the window holds the oldest tasks: it is full
  unless every queued task is in it, and no waiting task is older than a task of the window.
\<close>

theorem tailclipper_window_is_oldest:
  assumes "tc_inv I C q" "tc_rr q \<noteq> []" "\<not> (I \<and> is_infra (view_meta v))" "tc_push I C q x v = Done q'"
  shows "length (tc_rr q') = min C (size (tc_elems q')) \<and>
    (\<forall>w\<in>set (tc_rr q'). \<forall>h\<in>set (tc_heap q'). meta_value (keyed_meta w) \<le> meta_value (keyed_meta h))"
proof -
  define q1 where "q1 = q\<lparr>tc_heap := heap_push keyed_meta (tc_heap q) (Keyed (view_meta v) x)\<rparr>"
  have heap1: "is_heap keyed_meta (tc_heap q1)" using assms(1) by (simp add: q1_def tc_inv_def bh.push_invar)
  obtain h2 r2 where l2: "tc_fill_loop C (tc_heap q1) (tc_rr q1) = (h2, r2)" by fastforce
  have h2: "is_heap keyed_meta h2" "length r2 \<le> C" "C \<le> length r2 \<or> h2 = []"
    using tc_fill_loop_spec [OF heap1 l2] assms(1) by (auto simp: tc_inv_def q1_def)
  obtain h3 r3 where l3: "tc_evict_loop h2 r2 = Done (h3, r3)" "dominates r3 h3"
    "mset h3 + mset r3 = mset h2 + mset r2" "length r3 = length r2"
    using tc_evict_loop_spec [OF h2(1)] by blast
  have q': "q' = q1\<lparr>tc_heap := h3, tc_rr := r3\<rparr>"
    using assms(2-4) l2 l3(1) by (auto simp: tc_push_def Let_def q1_def tc_fill_def)
  have "size (mset h3 + mset r3) = size (mset h2 + mset r2)" using l3(3) by (rule arg_cong)
  then have "length h3 = length h2" using l3(4) by simp
  with h2(2,3) l3(4) have "length r3 = min C (length h3 + length r3)" by auto
  then show ?thesis using l3(2) by (auto simp: q' tc_elems_def dominates_def meta_le_iff)
qed

theorem tailclipper_window_is_oldest_witness:
  "length [Keyed (Meta 3) ''b''] = min 1 (size (mset [Keyed (Meta 5) ''a''] + mset [Keyed (Meta 3) ''b'']))"
proof -
  let ?q = "\<lparr>tc_heap = [], tc_rr = [Keyed (Meta 5) ''a''], tc_infra = []\<rparr>"
  let ?q' = "\<lparr>tc_heap = [Keyed (Meta 5) ''a''], tc_rr = [Keyed (Meta 3) ''b''], tc_infra = []\<rparr>"
  have "tc_inv False 1 ?q" by (simp add: tc_inv_def dominates_def)
  moreover have "tc_push False 1 ?q ''b'' (ex_view 3) = Done ?q'" by code_simp
  ultimately show ?thesis using tailclipper_window_is_oldest [of False 1 ?q "ex_view 3" "''b''" ?q']
    by (simp add: tc_elems_def)
qed

text \<open>
  Popping a priority-heap queue until it is empty, from any state its operations
  reach, gives the infrastructure tasks first, in the order they arrived, then every other task
  in ascending order of its metadata, each exactly once.
\<close>

theorem heap_queue_pop_order:
  assumes "run_ops (\<lambda>q x v. Done (hq_push q x v)) hq_pop hq_with_capacity ops = Done (rs, q)"
  shows "\<exists>ks. drain hq_pop (hq_len q) q = hq_infra q @ map keyed_item ks \<and> mset ks = mset (hq_q q) \<and>
    sorted (map (\<lambda>k. meta_value (keyed_meta k)) ks) \<and> (\<forall>k\<in>set ks. meta_value (keyed_meta k) \<noteq> 0)"
proof -
  have inv: "hq_inv q" using hq.run_ops_conserves [OF hq.start_invar, where ops = ops] assms by auto
  from hq_drain_order [OF this] obtain ks where ks: "drain hq_pop (hq_len q) q = hq_infra q @ map keyed_item ks"
    "mset ks = mset (hq_q q)" "sorted (map (\<lambda>k. meta_value (keyed_meta k)) ks)" by blast
  have "set ks = set (hq_q q)" using ks(2) by (metis set_mset_mset)
  with inv have "\<forall>k\<in>set ks. meta_value (keyed_meta k) \<noteq> 0"
    by (auto simp: hq_inv_def is_infra_def INFRA_def meta.expand)
  with ks show ?thesis by blast
qed

theorem heap_queue_pop_order_witness:
  "\<exists>ks. drain hq_pop 3 \<lparr>hq_q = [Keyed (Meta 3) ''b'', Keyed (Meta 9) ''c''], hq_infra = [''i'']\<rparr>
      = [''i''] @ map keyed_item ks \<and>
    sorted (map (\<lambda>k. meta_value (keyed_meta k)) ks)"
proof -
  let ?q = "\<lparr>hq_q = [Keyed (Meta 3) ''b'', Keyed (Meta 9) ''c''], hq_infra = [''i'']\<rparr>"
  have "run_ops (\<lambda>q x v. Done (hq_push q x v)) hq_pop hq_with_capacity
      [OpPush ''c'' (ex_view 9), OpPush ''i'' (ex_view 0), OpPush ''b'' (ex_view 3)] = Done ([], ?q)"
    by code_simp
  from heap_queue_pop_order [OF this] show ?thesis by (auto simp: hq_len_def numeral_3_eq_3)
qed

fun pushed_list :: "'a queue_op list \<Rightarrow> 'a list" where
  "pushed_list [] = []"
| "pushed_list (OpPush x v # ops) = x # pushed_list ops"
| "pushed_list (OpPop # ops) = pushed_list ops"

text \<open>
  The FIFO queue returns tasks in the order they were pushed, whatever their
  metadata: at any point, what was pushed is what was popped followed by what is queued.
\<close>

theorem fifo_queue_order:
  "run_ops (\<lambda>q x v. Done (fifo_push q x v)) fifo_pop q ops = Done (rs, q') \<Longrightarrow>
   fifo_inner q @ pushed_list ops = somes rs @ fifo_inner q'"
proof (induction ops arbitrary: q rs)
  case (Cons a ops)
  show ?case
  proof (cases a)
    case (OpPush x v)
    then have "fifo_inner (fifo_push q x v) @ pushed_list ops = somes rs @ fifo_inner q'"
      using Cons by simp
    then show ?thesis using OpPush by (simp add: fifo_push_def)
  next
    case OpPop
    obtain r q1 where p: "fifo_pop q = (r, q1)" by fastforce
    obtain rs' where rs: "rs = r # rs'"
      and run: "run_ops (\<lambda>q x v. Done (fifo_push q x v)) fifo_pop q1 ops = Done (rs', q')"
      using Cons.prems OpPop p by (auto elim!: map_exec.elims)
    show ?thesis using Cons.IH [OF run] p OpPop rs
      by (auto simp: fifo_pop_def split: list.splits)
  qed
qed simp

theorem fifo_queue_order_witness:
  "fifo_inner fifo_with_capacity @ [''a'', ''b'', ''c''] = [''a'', ''b''] @ [''c'']"
proof -
  have "run_ops (\<lambda>q x v. Done (fifo_push q x v)) fifo_pop fifo_with_capacity
      [OpPop, OpPush ''a'' (ex_view 9), OpPush ''b'' (ex_view 3), OpPop, OpPush ''c'' (ex_view 1), OpPop]
      = Done ([None, Some ''a'', Some ''b''], \<lparr>fifo_inner = [''c'']\<rparr>)"
    by code_simp
  from fifo_queue_order [OF this] show ?thesis by simp
qed

definition hq_of_custom :: "'a custom_queue \<Rightarrow> 'a heap_queue" where
  "hq_of_custom q = \<lparr>hq_q = cq_q q, hq_infra = cq_infra q\<rparr>"

lemma hq_of_custom_inj: "hq_of_custom q = hq_of_custom q' \<Longrightarrow> q = q'"
  by (cases q; cases q') (simp add: hq_of_custom_def)

text \<open>
  The custom queue, as shipped, implements the priority-heap queue: with or without
  the lifecycle trace, each of its operations does to the stored tasks what the heap queue's
  does, and a push appends at most its own event to the log.
\<close>

theorem custom_queue_refines_heap:
  "hq_of_custom cq_with_capacity = hq_with_capacity \<and>
   hq_of_custom (fst (cq_push trace q x v log)) = hq_push (hq_of_custom q) x v \<and>
   snd (cq_push trace q x v log) =
     (if trace then log @ [EvPush (task_id v) (polls v) (enqueued_at v) (first_enqueued_at v)] else log) \<and>
   apsnd hq_of_custom (cq_pop q) = hq_pop (hq_of_custom q) \<and>
   cq_len q = hq_len (hq_of_custom q)"
  by (auto simp: hq_of_custom_def cq_with_capacity_def hq_with_capacity_def cq_push_def hq_push_def
      trace_record_def cq_pop_def hq_pop_def cq_len_def hq_len_def Let_def split: list.split prod.split)

end
