(* ===== verification/Multi_Queue.thy ===== *)
theory Multi_Queue
  imports Binary_Heap
begin

text \<open>
  The relaxed concurrent priority queue of \<open>libs/multiqueue-prio-queue/src/lib.rs\<close>: a vector
  of sub-queues, each a mutex around a heap next to an atomic length counter. The methods run
  on many threads at once, so each is a sequence of atomic steps of one thread (a lock attempt, a
  heap operation under the lock, the update of the counter together with the release of the
  guards) and a thread's place in a method is its program counter. The index that the random
  number generator draws is an input of the step, and \<open>try_lock\<close> fails exactly when the
  mutex is held. A run interleaves the steps of the threads in any order.

  A mutex is poisoned only by a panic under the lock, which needs a panicking comparison of the
  items; items here are of a linear order, so \<open>lock().unwrap()\<close> waits and never panics.
\<close>

section \<open>State\<close>

record 'a sub_queue =
  sq_heap :: "'a list"
  sq_len :: u64
  sq_owner :: "nat option"

definition sub_queue_new :: "'a sub_queue" where
  "sub_queue_new = \<lparr>sq_heap = [], sq_len = 0, sq_owner = None\<rparr>"

definition DEFAULT_NUM_QUEUES :: nat where
  "DEFAULT_NUM_QUEUES = 16"

definition mq_new :: "nat \<Rightarrow> 'a sub_queue list exec" where
  "mq_new num_queues = (if 2 \<le> num_queues then Done (replicate num_queues sub_queue_new) else Panic)"

definition mq_default :: "'a sub_queue list exec" where
  "mq_default = mq_new DEFAULT_NUM_QUEUES"

definition mq_with_threads :: "nat \<Rightarrow> 'a sub_queue list exec" where
  "mq_with_threads threads = (if 0 < threads then mq_new (threads * 2) else Panic)"

definition mq_num_queues :: "'a sub_queue list \<Rightarrow> nat" where
  "mq_num_queues qs = length qs"

text \<open>Reads of the counters, without a lock.\<close>

definition mq_len :: "'a sub_queue list \<Rightarrow> u64" where
  "mq_len qs = sum_list (map sq_len qs)"

definition mq_is_empty :: "'a sub_queue list \<Rightarrow> bool" where
  "mq_is_empty qs \<longleftrightarrow> list_all (\<lambda>q. sq_len q = 0) qs"

text \<open>Where a thread is: outside, inside one of the three methods, or about to return.\<close>

datatype 'a mq_pc =
    Outside
  | PushSample 'a
  | PushHold 'a nat
  | PushCount nat
  | PushDone
  | PopSample
  | PopHoldLo nat nat
  | PopHoldBoth nat nat
  | PopCount nat nat nat "'a option"
  | AnyTry nat
  | AnyLock nat
  | AnyHold bool nat
  | AnyCount nat 'a
  | PopDone "'a option"

section \<open>The steps of a thread\<close>

definition lock_sq :: "nat \<Rightarrow> nat \<Rightarrow> 'a sub_queue list \<Rightarrow> 'a sub_queue list" where
  "lock_sq t i qs = qs[i := (qs ! i)\<lparr>sq_owner := Some t\<rparr>]"

definition unlock_sq :: "nat \<Rightarrow> 'a sub_queue list \<Rightarrow> 'a sub_queue list" where
  "unlock_sq i qs = qs[i := (qs ! i)\<lparr>sq_owner := None\<rparr>]"

definition fetch_add :: "nat \<Rightarrow> u64 \<Rightarrow> 'a sub_queue list \<Rightarrow> 'a sub_queue list" where
  "fetch_add i d qs = qs[i := (qs ! i)\<lparr>sq_len := sq_len (qs ! i) + d\<rparr>]"

definition set_heap :: "nat \<Rightarrow> 'a list \<Rightarrow> 'a sub_queue list \<Rightarrow> 'a sub_queue list" where
  "set_heap i h qs = qs[i := (qs ! i)\<lparr>sq_heap := h\<rparr>]"

definition is_free :: "'a sub_queue list \<Rightarrow> nat \<Rightarrow> bool" where
  "is_free qs i \<longleftrightarrow> sq_owner (qs ! i) = None"

text \<open>The pair of distinct indices of \<open>pop\<close>, lower first, from the two numbers drawn.\<close>

definition sample_two :: "nat \<Rightarrow> nat \<Rightarrow> nat \<times> nat" where
  "sample_two i j0 =
     (let j = (if i \<le> j0 then j0 + 1 else j0) in
      if i < j then (i, j) else (j, i))"

fun push_step :: "nat \<Rightarrow> nat \<Rightarrow> 'a::linorder sub_queue list \<Rightarrow> 'a mq_pc \<Rightarrow> ('a sub_queue list \<times> 'a mq_pc) option" where
  "push_step i t qs (PushSample item) =
     (if i < length qs then
        if is_free qs i then Some (lock_sq t i qs, PushHold item i) else Some (qs, PushSample item)
      else None)"
| "push_step _ t qs (PushHold item i) =
     Some (set_heap i (heap_push (\<lambda>x. x) (sq_heap (qs ! i)) item) qs, PushCount i)"
| "push_step _ t qs (PushCount i) = Some (unlock_sq i (fetch_add i 1 qs), PushDone)"
| "push_step _ t qs _ = None"

definition pop_from :: "nat \<Rightarrow> nat \<Rightarrow> nat \<Rightarrow> 'a::linorder sub_queue list \<Rightarrow> 'a sub_queue list \<times> 'a mq_pc" where
  "pop_from lo hi i qs =
     (case heap_pop (\<lambda>x. x) (sq_heap (qs ! i)) of (r, h) \<Rightarrow> (set_heap i h qs, PopCount lo hi i r))"

fun pop_step :: "nat \<times> nat \<Rightarrow> nat \<Rightarrow> 'a::linorder sub_queue list \<Rightarrow> 'a mq_pc \<Rightarrow> ('a sub_queue list \<times> 'a mq_pc) option" where
  "pop_step (i, j0) t qs PopSample =
     (if i < length qs \<and> j0 < length qs - 1 then
        case sample_two i j0 of (lo, hi) \<Rightarrow>
          if is_free qs lo then Some (lock_sq t lo qs, PopHoldLo lo hi) else Some (qs, PopSample)
      else None)"
| "pop_step _ t qs (PopHoldLo lo hi) =
     (if is_free qs hi then Some (lock_sq t hi qs, PopHoldBoth lo hi)
      else Some (unlock_sq lo qs, PopSample))"
| "pop_step _ t qs (PopHoldBoth lo hi) =
     Some (case (heap_peek (sq_heap (qs ! lo)), heap_peek (sq_heap (qs ! hi))) of
        (None, None) \<Rightarrow> (unlock_sq lo (unlock_sq hi qs), PopDone None)
      | (Some _, None) \<Rightarrow> pop_from lo hi lo qs
      | (None, Some _) \<Rightarrow> pop_from lo hi hi qs
      | (Some a, Some b) \<Rightarrow> if b \<le> a then pop_from lo hi lo qs else pop_from lo hi hi qs)"
| "pop_step _ t qs (PopCount lo hi idx result) =
     Some (unlock_sq lo (unlock_sq hi (if result \<noteq> None then fetch_add idx (- 1) qs else qs)), PopDone result)"
| "pop_step _ t qs _ = None"

text \<open>
  The two passes of \<open>pop_any\<close>: the first skips a held mutex, the second waits for it, which
  is the only place where a thread has no step.
\<close>

fun pop_any_step :: "nat \<Rightarrow> 'a::linorder sub_queue list \<Rightarrow> 'a mq_pc \<Rightarrow> ('a sub_queue list \<times> 'a mq_pc) option" where
  "pop_any_step t qs (AnyTry k) =
     (if k < length qs then
        if is_free qs k then Some (lock_sq t k qs, AnyHold False k) else Some (qs, AnyTry (k + 1))
      else Some (qs, AnyLock 0))"
| "pop_any_step t qs (AnyLock k) =
     (if k < length qs then
        if is_free qs k then Some (lock_sq t k qs, AnyHold True k) else None
      else Some (qs, PopDone None))"
| "pop_any_step t qs (AnyHold blocking k) =
     (case heap_pop (\<lambda>x. x) (sq_heap (qs ! k)) of
        (Some v, h) \<Rightarrow> Some (set_heap k h qs, AnyCount k v)
      | (None, h) \<Rightarrow> Some (unlock_sq k qs, if blocking then AnyLock (k + 1) else AnyTry (k + 1)))"
| "pop_any_step t qs (AnyCount k v) = Some (unlock_sq k (fetch_add k (- 1) qs), PopDone (Some v))"
| "pop_any_step t qs _ = None"

text \<open>One step of the thread \<open>t\<close>; \<open>c\<close> is what its random number generator draws.\<close>

definition mq_step :: "nat \<times> nat \<Rightarrow> nat \<Rightarrow> 'a::linorder sub_queue list \<Rightarrow> 'a mq_pc \<Rightarrow> ('a sub_queue list \<times> 'a mq_pc) option" where
  "mq_step c t qs pc =
     (case push_step (fst c) t qs pc of
        Some r \<Rightarrow> Some r
      | None \<Rightarrow> (case pop_step c t qs pc of Some r \<Rightarrow> Some r | None \<Rightarrow> pop_any_step t qs pc))"

section \<open>Runs\<close>

text \<open>
  \<open>mq_run n ins outs qs pcs\<close>: the threads \<open>pcs\<close> on a queue made with \<open>n\<close> sub-queues can
  reach this state after calling \<open>push\<close> on the items \<open>ins\<close> and returning the items
  \<open>outs\<close> from the two pops.
\<close>

inductive mq_run :: "nat \<Rightarrow> 'a::linorder multiset \<Rightarrow> 'a multiset \<Rightarrow> 'a sub_queue list \<Rightarrow> 'a mq_pc list \<Rightarrow> bool"
  for n :: nat where
  start: "mq_new n = Done qs \<Longrightarrow> mq_run n {#} {#} qs (replicate threads Outside)"
| call_push: "mq_run n ins outs qs pcs \<Longrightarrow> t < length pcs \<Longrightarrow> pcs ! t = Outside \<Longrightarrow>
    mq_run n (add_mset x ins) outs qs (pcs[t := PushSample x])"
| call_pop: "mq_run n ins outs qs pcs \<Longrightarrow> t < length pcs \<Longrightarrow> pcs ! t = Outside \<Longrightarrow>
    mq_run n ins outs qs (pcs[t := PopSample])"
| call_pop_any: "mq_run n ins outs qs pcs \<Longrightarrow> t < length pcs \<Longrightarrow> pcs ! t = Outside \<Longrightarrow>
    mq_run n ins outs qs (pcs[t := AnyTry 0])"
| step: "mq_run n ins outs qs pcs \<Longrightarrow> t < length pcs \<Longrightarrow> mq_step c t qs (pcs ! t) = Some (qs', pc') \<Longrightarrow>
    mq_run n ins outs qs' (pcs[t := pc'])"
| return_push: "mq_run n ins outs qs pcs \<Longrightarrow> t < length pcs \<Longrightarrow> pcs ! t = PushDone \<Longrightarrow>
    mq_run n ins outs qs (pcs[t := Outside])"
| return_pop: "mq_run n ins outs qs pcs \<Longrightarrow> t < length pcs \<Longrightarrow> pcs ! t = PopDone r \<Longrightarrow>
    mq_run n ins (outs + mset_set (set_option r)) qs (pcs[t := Outside])"

section \<open>What a program counter says\<close>

text \<open>The mutexes a thread holds, the part of a counter it still owes, the item it carries.\<close>

fun holds :: "'a mq_pc \<Rightarrow> nat set" where
  "holds (PushHold x i) = {i}"
| "holds (PushCount i) = {i}"
| "holds (PopHoldLo lo hi) = {lo}"
| "holds (PopHoldBoth lo hi) = {lo, hi}"
| "holds (PopCount lo hi i r) = {lo, hi}"
| "holds (AnyHold b k) = {k}"
| "holds (AnyCount k v) = {k}"
| "holds _ = {}"

fun owes :: "nat \<Rightarrow> 'a mq_pc \<Rightarrow> u64" where
  "owes j (PushCount i) = (if i = j then 1 else 0)"
| "owes j (PopCount lo hi i r) = (if i = j then - 1 else 0)"
| "owes j (AnyCount k v) = (if k = j then - 1 else 0)"
| "owes j _ = 0"

fun carries :: "'a mq_pc \<Rightarrow> 'a multiset" where
  "carries (PushSample x) = {#x#}"
| "carries (PushHold x i) = {#x#}"
| "carries (PopCount lo hi i (Some x)) = {#x#}"
| "carries (AnyCount k x) = {#x#}"
| "carries (PopDone (Some x)) = {#x#}"
| "carries _ = {#}"

fun pc_ok :: "nat \<Rightarrow> 'a mq_pc \<Rightarrow> bool" where
  "pc_ok n (PushHold x i) \<longleftrightarrow> i < n"
| "pc_ok n (PushCount i) \<longleftrightarrow> i < n"
| "pc_ok n (PopHoldLo lo hi) \<longleftrightarrow> lo < hi \<and> hi < n"
| "pc_ok n (PopHoldBoth lo hi) \<longleftrightarrow> lo < hi \<and> hi < n"
| "pc_ok n (PopCount lo hi i r) \<longleftrightarrow> lo < hi \<and> hi < n \<and> (i = lo \<or> i = hi) \<and> r \<noteq> None"
| "pc_ok n (AnyHold b k) \<longleftrightarrow> k < n"
| "pc_ok n (AnyCount k v) \<longleftrightarrow> k < n"
| "pc_ok n _ \<longleftrightarrow> True"

lemma holds_bound: "pc_ok n pc \<Longrightarrow> i \<in> holds pc \<Longrightarrow> i < n"
  by (cases pc) auto

lemma sample_two_ok: "sample_two i j0 = (lo, hi) \<Longrightarrow> i < n \<Longrightarrow> j0 < n - 1 \<Longrightarrow> lo < hi \<and> hi < n"
  by (auto simp: sample_two_def Let_def split: if_splits)

lemmas sq_update_defs = lock_sq_def unlock_sq_def fetch_add_def set_heap_def

lemma length_sq_update [simp]:
  "length (lock_sq t i qs) = length qs" "length (unlock_sq i qs) = length qs"
  "length (fetch_add i d qs) = length qs" "length (set_heap i h qs) = length qs"
  by (simp_all add: sq_update_defs)

text \<open>
  The cases of a step: which method it belongs to is decided by the program counter, so the
  proofs below look at one equation each.
\<close>

lemma mq_step_cases [consumes 1, case_names PushSample PushBusy PushHold PushCount PopSample PopBusy
    PopHi PopBack PopEmpty PopFrom PopCount AnyTry AnySkip AnyAgain AnyLock AnyNone AnySome AnyEmpty AnyCount]:
  assumes "mq_step c t qs pc = Some (qs', pc')"
  obtains
    (PushSample) x i where "pc = PushSample x" "i < length qs" "is_free qs i" "qs' = lock_sq t i qs" "pc' = PushHold x i"
  | (PushBusy) x where "pc = PushSample x" "qs' = qs" "pc' = pc"
  | (PushHold) x i where "pc = PushHold x i" "qs' = set_heap i (heap_push (\<lambda>x. x) (sq_heap (qs ! i)) x) qs" "pc' = PushCount i"
  | (PushCount) i where "pc = PushCount i" "qs' = unlock_sq i (fetch_add i 1 qs)" "pc' = PushDone"
  | (PopSample) lo hi where "pc = PopSample" "lo < hi" "hi < length qs" "is_free qs lo" "qs' = lock_sq t lo qs" "pc' = PopHoldLo lo hi"
  | (PopBusy) "pc = PopSample" "qs' = qs" "pc' = pc"
  | (PopHi) lo hi where "pc = PopHoldLo lo hi" "is_free qs hi" "qs' = lock_sq t hi qs" "pc' = PopHoldBoth lo hi"
  | (PopBack) lo hi where "pc = PopHoldLo lo hi" "qs' = unlock_sq lo qs" "pc' = PopSample"
  | (PopEmpty) lo hi where "pc = PopHoldBoth lo hi" "sq_heap (qs ! lo) = []" "sq_heap (qs ! hi) = []"
      "qs' = unlock_sq lo (unlock_sq hi qs)" "pc' = PopDone None"
  | (PopFrom) lo hi i x h where "pc = PopHoldBoth lo hi" "i = lo \<or> i = hi" "heap_pop (\<lambda>x. x) (sq_heap (qs ! i)) = (Some x, h)"
      "\<forall>j\<in>{lo, hi}. \<forall>y. heap_peek (sq_heap (qs ! j)) = Some y \<longrightarrow> y \<le> x"
      "qs' = set_heap i h qs" "pc' = PopCount lo hi i (Some x)"
  | (PopCount) lo hi i r where "pc = PopCount lo hi i r"
      "qs' = unlock_sq lo (unlock_sq hi (if r \<noteq> None then fetch_add i (- 1) qs else qs))" "pc' = PopDone r"
  | (AnyTry) k where "pc = AnyTry k" "k < length qs" "is_free qs k" "qs' = lock_sq t k qs" "pc' = AnyHold False k"
  | (AnySkip) k where "pc = AnyTry k" "qs' = qs" "pc' = AnyTry (k + 1)"
  | (AnyAgain) k where "pc = AnyTry k" "qs' = qs" "pc' = AnyLock 0"
  | (AnyLock) k where "pc = AnyLock k" "k < length qs" "is_free qs k" "qs' = lock_sq t k qs" "pc' = AnyHold True k"
  | (AnyNone) k where "pc = AnyLock k" "qs' = qs" "pc' = PopDone None"
  | (AnySome) b k x h where "pc = AnyHold b k" "heap_pop (\<lambda>x. x) (sq_heap (qs ! k)) = (Some x, h)"
      "qs' = set_heap k h qs" "pc' = AnyCount k x"
  | (AnyEmpty) b k where "pc = AnyHold b k" "sq_heap (qs ! k) = []" "qs' = unlock_sq k qs"
      "pc' = (if b then AnyLock (k + 1) else AnyTry (k + 1))"
  | (AnyCount) k x where "pc = AnyCount k x" "qs' = unlock_sq k (fetch_add k (- 1) qs)" "pc' = PopDone (Some x)"
proof (cases pc)
  case (PushSample x)
  then show ?thesis using assms that(1) [of x "fst c"] that(2) [of x] by (auto simp: mq_step_def split: if_splits)
next
  case (PushHold x i)
  then show ?thesis using assms that(3) [of x i] by (simp add: mq_step_def)
next
  case (PushCount i)
  then show ?thesis using assms that(4) [of i] by (simp add: mq_step_def)
next
  case PopSample
  obtain i j0 lo hi where c: "c = (i, j0)" "sample_two i j0 = (lo, hi)" by (metis surj_pair)
  with assms PopSample have "i < length qs" "j0 < length qs - 1" by (auto simp: mq_step_def split: if_splits)
  with sample_two_ok [OF c(2)] have "lo < hi" "hi < length qs" by auto
  then show ?thesis using assms PopSample c that(5) [of lo hi] that(6) by (auto simp: mq_step_def split: if_splits)
next
  case (PopHoldLo lo hi)
  then show ?thesis using assms that(7) [of lo hi] that(8) [of lo hi] by (auto simp: mq_step_def split: if_splits)
next
  case (PopHoldBoth lo hi)
  let ?a = "heap_peek (sq_heap (qs ! lo))" and ?b = "heap_peek (sq_heap (qs ! hi))"
  have step: "pop_step c t qs pc = Some (qs', pc')" using assms PopHoldBoth by (simp add: mq_step_def)
  show ?thesis
  proof (cases "?a = None \<and> ?b = None")
    case True
    then have e: "sq_heap (qs ! lo) = []" "sq_heap (qs ! hi) = []" by simp_all
    show ?thesis using step by (intro that(9) [OF PopHoldBoth e]) (simp_all add: PopHoldBoth True)
  next
    case False
    define i where "i = (if ?b = None \<or> ?a \<noteq> None \<and> the ?b \<le> the ?a then lo else hi)"
    obtain r h where p: "heap_pop (\<lambda>x. x) (sq_heap (qs ! i)) = (r, h)" by fastforce
    then have r: "r = heap_peek (sq_heap (qs ! i))" using heap_pop_peek by (metis fst_conv)
    then obtain x where x: "r = Some x" using False by (cases ?a; cases ?b) (auto simp: i_def split: if_splits)
    have mx: "\<forall>j\<in>{lo, hi}. \<forall>y. heap_peek (sq_heap (qs ! j)) = Some y \<longrightarrow> y \<le> x"
      using r x by (cases "sq_heap (qs ! lo)"; cases "sq_heap (qs ! hi)") (auto simp: i_def heap_peek_def split: if_splits)
    have "(qs', pc') = pop_from lo hi i qs"
      using step PopHoldBoth False by (auto simp: i_def split: option.splits if_splits)
    moreover have "i = lo \<or> i = hi" by (simp add: i_def)
    ultimately show ?thesis using that(10) [OF PopHoldBoth _ _ mx, of i h] p x by (auto simp: pop_from_def)
  qed
next
  case (PopCount lo hi i r)
  then show ?thesis using assms that(11) [of lo hi i r] by (simp add: mq_step_def)
next
  case (AnyTry k)
  then show ?thesis using assms that(12-14) [of k] by (auto simp: mq_step_def split: if_splits)
next
  case (AnyLock k)
  then show ?thesis using assms that(15,16) [of k] by (auto simp: mq_step_def split: if_splits)
next
  case (AnyHold b k)
  obtain r h where p: "heap_pop (\<lambda>x. x) (sq_heap (qs ! k)) = (r, h)" by fastforce
  then have "r = None \<longleftrightarrow> sq_heap (qs ! k) = []" using heap_pop_None by (metis fst_conv)
  then show ?thesis using assms AnyHold p that(17) [of b k _ h] that(18) [of b k]
    by (cases r) (simp_all add: mq_step_def)
next
  case (AnyCount k x)
  then show ?thesis using assms that(19) [of k x] by (simp add: mq_step_def)
qed (use assms in \<open>simp_all add: mq_step_def\<close>)

section \<open>What a step keeps\<close>

definition heaps_ok :: "'a::linorder sub_queue list \<Rightarrow> bool" where
  "heaps_ok qs \<longleftrightarrow> (\<forall>q\<in>set qs. is_heap (\<lambda>x. x) (sq_heap q))"

definition stored :: "'a sub_queue list \<Rightarrow> 'a multiset" where
  "stored qs = sum_list (map (\<lambda>q. mset (sq_heap q)) qs)"

lemma heaps_ok_nth: "heaps_ok qs \<Longrightarrow> i < length qs \<Longrightarrow> is_heap (\<lambda>x. x) (sq_heap (qs ! i))"
  by (simp add: heaps_ok_def)

lemma heaps_ok_update: "heaps_ok qs \<Longrightarrow> is_heap (\<lambda>x. x) (sq_heap q) \<Longrightarrow> heaps_ok (qs[i := q])"
  using set_update_subset_insert [of qs i q] by (auto simp: heaps_ok_def)

lemma heaps_ok_same:
  assumes "heaps_ok qs" "sq_heap q = sq_heap (qs ! i)"
  shows "heaps_ok (qs[i := q])"
proof (cases "i < length qs")
  case True
  then show ?thesis using assms by (auto intro!: heaps_ok_update simp: heaps_ok_nth)
qed (use assms in \<open>simp add: list_update_beyond\<close>)

lemma heaps_ok_sq [simp]:
  "heaps_ok qs \<Longrightarrow> heaps_ok (lock_sq t i qs)" "heaps_ok qs \<Longrightarrow> heaps_ok (unlock_sq i qs)"
  "heaps_ok qs \<Longrightarrow> heaps_ok (fetch_add i d qs)"
  "heaps_ok qs \<Longrightarrow> is_heap (\<lambda>x. x) h \<Longrightarrow> heaps_ok (set_heap i h qs)"
  by (simp_all add: sq_update_defs heaps_ok_same heaps_ok_update)

lemma stored_sq [simp]:
  "stored (lock_sq t i qs) = stored qs" "stored (unlock_sq i qs) = stored qs"
  "stored (fetch_add i d qs) = stored qs"
  by (simp_all add: stored_def sq_update_defs)

lemma stored_set_heap: "i < length qs \<Longrightarrow> stored (set_heap i h qs) + mset (sq_heap (qs ! i)) = stored qs + mset h"
  using sum_list_map_update [of i qs "\<lambda>q. mset (sq_heap q)" "(qs ! i)\<lparr>sq_heap := h\<rparr>"]
  by (simp add: stored_def set_heap_def)

lemma step_length: "mq_step c t qs pc = Some (qs', pc') \<Longrightarrow> length qs' = length qs"
  by (cases rule: mq_step_cases) auto

lemma step_pc_ok: "mq_step c t qs pc = Some (qs', pc') \<Longrightarrow> pc_ok (length qs) pc \<Longrightarrow> pc_ok (length qs) pc'"
  by (cases rule: mq_step_cases) auto

lemma step_heaps_ok:
  assumes "mq_step c t qs pc = Some (qs', pc')" "pc_ok (length qs) pc" "heaps_ok qs"
  shows "heaps_ok qs'"
  using assms(1)
proof (cases rule: mq_step_cases)
  case (PopFrom lo hi i x h)
  then have "is_heap (\<lambda>x. x) h" using heaps_ok_nth [OF assms(3), of i] assms(2) bh.pop_invar by fastforce
  then show ?thesis using PopFrom assms(3) by simp
next
  case (AnySome b k x h)
  then have "is_heap (\<lambda>x. x) h" using heaps_ok_nth [OF assms(3), of k] assms(2) bh.pop_invar by fastforce
  then show ?thesis using AnySome assms(3) by simp
qed (use assms(2,3) in \<open>auto simp: heaps_ok_nth bh.push_invar\<close>)

text \<open>An item only moves between a thread and the heap it works on.\<close>

lemma step_stored:
  assumes "mq_step c t qs pc = Some (qs', pc')" "pc_ok (length qs) pc"
  shows "stored qs' + carries pc' = stored qs + carries pc"
  using assms(1)
proof (cases rule: mq_step_cases)
  case (PushHold x i)
  with assms(2) stored_set_heap [of i qs "heap_push (\<lambda>x. x) (sq_heap (qs ! i)) x"]
  show ?thesis by (simp add: mset_heap_push)
next
  case (PopFrom lo hi i x h)
  with assms(2) stored_set_heap [of i qs h] mset_heap_pop [OF PopFrom(3)]
  show ?thesis by auto
next
  case (PopCount lo hi i r)
  then show ?thesis by (cases r) auto
next
  case (AnySome b k x h)
  with assms(2) stored_set_heap [of k qs h] mset_heap_pop [OF AnySome(2)]
  show ?thesis by auto
qed auto

text \<open>The counter of a sub-queue, with what the thread owes it, follows the heap.\<close>

definition count_gap :: "nat \<Rightarrow> 'a sub_queue list \<Rightarrow> u64" where
  "count_gap j qs = of_nat (length (sq_heap (qs ! j))) - sq_len (qs ! j)"

lemma count_gap_sq [simp]:
  "count_gap j (lock_sq t i qs) = count_gap j qs" "count_gap j (unlock_sq i qs) = count_gap j qs"
  by (cases "i < length qs"; auto simp: count_gap_def sq_update_defs nth_list_update list_update_beyond)+

lemma count_gap_fetch_add:
  "i < length qs \<Longrightarrow> count_gap j (fetch_add i d qs) = count_gap j qs - (if i = j then d else 0)"
  by (auto simp: count_gap_def sq_update_defs nth_list_update)

lemma count_gap_set_heap:
  "i < length qs \<Longrightarrow> count_gap j (set_heap i h qs) =
    count_gap j qs + (if i = j then of_nat (length h) - of_nat (length (sq_heap (qs ! i))) else 0)"
  by (auto simp: count_gap_def sq_update_defs nth_list_update)

lemma length_heap_push: "length (heap_push key xs x) = Suc (length xs)"
  by (metis mset_heap_push size_add_mset size_mset)

lemma length_heap_pop: "heap_pop key xs = (Some x, ys) \<Longrightarrow> length xs = Suc (length ys)"
  by (metis mset_heap_pop size_add_mset size_mset)

lemma step_count:
  assumes "mq_step c t qs pc = Some (qs', pc')" "pc_ok (length qs) pc"
  shows "count_gap j qs' - owes j pc' = count_gap j qs - owes j pc"
  using assms(1)
proof (cases rule: mq_step_cases)
  case (PopFrom lo hi i x h)
  with assms(2) length_heap_pop [OF PopFrom(3)] show ?thesis by (auto simp: count_gap_set_heap)
next
  case (AnySome b k x h)
  with assms(2) length_heap_pop [OF AnySome(2)] show ?thesis by (auto simp: count_gap_set_heap)
qed (use assms(2) in \<open>auto simp: count_gap_set_heap count_gap_fetch_add length_heap_push\<close>)

text \<open>A step takes only a free mutex and gives back only its own.\<close>

lemma step_owner:
  assumes "mq_step c t qs pc = Some (qs', pc')" "pc_ok (length qs) pc" "i < length qs"
    "\<forall>j\<in>holds pc. sq_owner (qs ! j) = Some t"
  shows "sq_owner (qs' ! i) = (if i \<in> holds pc' then Some t else if i \<in> holds pc then None else sq_owner (qs ! i))"
    "i \<in> holds pc' - holds pc \<Longrightarrow> sq_owner (qs ! i) = None"
  using assms
  by (cases rule: mq_step_cases; auto simp: sq_update_defs nth_list_update is_free_def split: if_splits)+

section \<open>The invariant of every run\<close>

definition mq_inv :: "nat \<Rightarrow> 'a::linorder multiset \<Rightarrow> 'a multiset \<Rightarrow> 'a sub_queue list \<Rightarrow> 'a mq_pc list \<Rightarrow> bool" where
  "mq_inv n ins outs qs pcs \<longleftrightarrow>
     2 \<le> n \<and> length qs = n \<and> heaps_ok qs \<and> (\<forall>pc\<in>set pcs. pc_ok n pc) \<and>
     ins = outs + stored qs + sum_list (map carries pcs) \<and>
     (\<forall>j<n. count_gap j qs = sum_list (map (owes j) pcs)) \<and>
     (\<forall>i<n. \<forall>t. sq_owner (qs ! i) = Some t \<longleftrightarrow> t < length pcs \<and> i \<in> holds (pcs ! t))"

lemma mq_inv_start: "mq_new n = Done qs \<Longrightarrow> mq_inv n {#} {#} qs (replicate threads Outside)"
proof -
  assume "mq_new n = Done qs"
  then have n: "2 \<le> n" and qs: "qs = replicate n sub_queue_new" by (auto simp: mq_new_def split: if_splits)
  have "sum_list (replicate k {#}) = ({#} :: 'a multiset)" "sum_list (replicate k (0 :: u64)) = 0" for k
    by (induction k) auto
  then show ?thesis using n
    by (auto simp: qs mq_inv_def sub_queue_new_def heaps_ok_def stored_def count_gap_def)
qed

text \<open>A call or a return changes one program counter that holds nothing.\<close>

lemma mq_inv_pc:
  assumes "mq_inv n ins outs qs pcs" "t < length pcs" "holds (pcs ! t) = {}" "holds pc = {}" "pc_ok n pc"
    "\<And>j. owes j pc = owes j (pcs ! t)" "ins' + carries (pcs ! t) + outs = ins + carries pc + outs'"
  shows "mq_inv n ins' outs' qs (pcs[t := pc])"
proof -
  have c: "sum_list (map carries (pcs[t := pc])) + carries (pcs ! t) = sum_list (map carries pcs) + carries pc"
    using assms(2) by (rule sum_list_map_update)
  have "ins' + carries (pcs ! t) + outs = outs' + stored qs + sum_list (map carries (pcs[t := pc])) + carries (pcs ! t) + outs"
    using assms(1,7) c by (simp add: mq_inv_def ac_simps)
  then have "ins' = outs' + stored qs + sum_list (map carries (pcs[t := pc]))" by simp
  moreover have "\<forall>pc\<in>set (pcs[t := pc]). pc_ok n pc"
    using assms(1,5) set_update_subset_insert [of pcs t pc] by (auto simp: mq_inv_def)
  ultimately show ?thesis using assms(1-4,6) by (auto simp: mq_inv_def nth_list_update)
qed

lemma mq_inv_step:
  assumes inv: "mq_inv n ins outs qs pcs" and t: "t < length pcs" and st: "mq_step c t qs (pcs ! t) = Some (qs', pc')"
  shows "mq_inv n ins outs qs' (pcs[t := pc'])"
proof -
  have n: "length qs = n" "pc_ok n (pcs ! t)" "heaps_ok qs" using inv t by (auto simp: mq_inv_def)
  have own: "sq_owner (qs ! i) = Some u \<longleftrightarrow> u < length pcs \<and> i \<in> holds (pcs ! u)" if "i < n" for i u
    using inv that by (simp add: mq_inv_def)
  then have mine: "\<forall>j\<in>holds (pcs ! t). sq_owner (qs ! j) = Some t" using n t holds_bound by metis
  have c: "sum_list (map carries (pcs[t := pc'])) + carries (pcs ! t) = sum_list (map carries pcs) + carries pc'"
    using t by (rule sum_list_map_update)
  have o: "sum_list (map (owes j) (pcs[t := pc'])) + owes j (pcs ! t) = sum_list (map (owes j) pcs) + owes j pc'" for j
    using t by (rule sum_list_map_update)
  have "ins + carries (pcs ! t) = outs + (stored qs + carries (pcs ! t)) + sum_list (map carries pcs)"
    using inv by (simp add: mq_inv_def)
  also have "stored qs + carries (pcs ! t) = stored qs' + carries pc'"
    using step_stored [OF st] n(1,2) by simp
  also have "outs + (stored qs' + carries pc') + sum_list (map carries pcs)
      = outs + stored qs' + (sum_list (map carries pcs) + carries pc')"
    by (simp add: ac_simps)
  also have "\<dots> = outs + stored qs' + sum_list (map carries (pcs[t := pc'])) + carries (pcs ! t)"
    using c by (simp add: add.assoc)
  finally have "ins + carries (pcs ! t) = outs + stored qs' + sum_list (map carries (pcs[t := pc'])) + carries (pcs ! t)" .
  then have "ins = outs + stored qs' + sum_list (map carries (pcs[t := pc']))" by simp
  moreover have "count_gap j qs' = sum_list (map (owes j) (pcs[t := pc']))" if "j < n" for j
  proof -
    have "count_gap j qs = sum_list (map (owes j) pcs)" using inv that by (simp add: mq_inv_def)
    moreover have "count_gap j qs' + owes j (pcs ! t) = count_gap j qs + owes j pc'"
      using step_count [OF st, of j] n(1,2) by (simp add: algebra_simps)
    ultimately have "count_gap j qs' + owes j (pcs ! t) = sum_list (map (owes j) (pcs[t := pc'])) + owes j (pcs ! t)"
      using o [of j] by simp
    then show ?thesis by simp
  qed
  moreover have "sq_owner (qs' ! i) = Some u \<longleftrightarrow> u < length (pcs[t := pc']) \<and> i \<in> holds (pcs[t := pc'] ! u)"
    if "i < n" for i u
    using step_owner [OF st, of i] n that mine own [OF that, of u] own [OF that, of t] t by (auto simp: nth_list_update split: if_splits)
  moreover have "\<forall>pc\<in>set (pcs[t := pc']). pc_ok n pc"
    using inv step_pc_ok [OF st] n set_update_subset_insert [of pcs t pc'] by (auto simp: mq_inv_def)
  ultimately show ?thesis using inv step_length [OF st] step_heaps_ok [OF st] n by (simp add: mq_inv_def)
qed

lemma mq_run_inv: "mq_run n ins outs qs pcs \<Longrightarrow> mq_inv n ins outs qs pcs"
proof (induction rule: mq_run.induct)
  case (start qs threads)
  then show ?case by (rule mq_inv_start)
next
  case (step ins outs qs pcs t c qs' pc')
  then show ?case by (intro mq_inv_step)
next
  case (return_pop ins outs qs pcs t r)
  then show ?case by (cases r) (auto intro!: mq_inv_pc)
qed (auto intro!: mq_inv_pc)

section \<open>Quiet states\<close>

text \<open>A thread is quiet when it is outside every method or has its result in hand.\<close>

fun quiet :: "'a mq_pc \<Rightarrow> bool" where
  "quiet Outside \<longleftrightarrow> True"
| "quiet PushDone \<longleftrightarrow> True"
| "quiet (PopDone r) \<longleftrightarrow> True"
| "quiet _ \<longleftrightarrow> False"

lemma quiet_owes: "quiet pc \<Longrightarrow> owes j pc = 0" and quiet_holds: "quiet pc \<Longrightarrow> holds pc = {}"
  by (cases pc; simp)+

lemma quiet_counts:
  assumes "mq_inv n ins outs qs pcs" "list_all quiet pcs" "j < n"
  shows "sq_len (qs ! j) = of_nat (length (sq_heap (qs ! j)))"
proof -
  have "map (owes j) pcs = map (\<lambda>_. 0) pcs" using assms(2) by (auto simp: list_all_iff quiet_owes)
  then have "sum_list (map (owes j) pcs) = sum_list (map (\<lambda>_. 0) pcs)" by (rule arg_cong)
  with assms(1,3) have "count_gap j qs = 0" by (simp add: mq_inv_def)
  then show ?thesis by (simp add: count_gap_def)
qed

lemma size_stored: "size (stored qs) = sum_list (map (\<lambda>q. length (sq_heap q)) qs)"
  by (induction qs) (auto simp: stored_def)

lemma sum_list_of_nat_map: "sum_list (map (\<lambda>x. of_nat (f x)) xs) = (of_nat (sum_list (map f xs)) :: 'b::semiring_1)"
  by (induction xs) auto

lemma quiet_len:
  assumes "mq_inv n ins outs qs pcs" "list_all quiet pcs"
  shows "mq_len qs = of_nat (size (stored qs))"
proof -
  have "\<forall>q\<in>set qs. sq_len q = of_nat (length (sq_heap q))"
    using quiet_counts [OF assms] assms(1) by (auto simp: in_set_conv_nth mq_inv_def)
  then have "map sq_len qs = map (\<lambda>q. of_nat (length (sq_heap q))) qs" by simp
  then show ?thesis unfolding mq_len_def size_stored sum_list_of_nat_map [symmetric] by (rule arg_cong)
qed

lemma length_heap_le_stored: "q \<in> set qs \<Longrightarrow> length (sq_heap q) \<le> size (stored qs)"
  by (simp add: size_stored member_le_sum_list)

lemma quiet_is_empty:
  assumes "mq_inv n ins outs qs pcs" "list_all quiet pcs" "size (stored qs) < 2 ^ 64"
  shows "mq_is_empty qs \<longleftrightarrow> stored qs = {#}"
proof -
  have c: "sq_len q = 0 \<longleftrightarrow> sq_heap q = []" if "q \<in> set qs" for q
  proof -
    have "sq_len q = of_nat (length (sq_heap q))"
      using quiet_counts [OF assms(1,2)] assms(1) that by (auto simp: in_set_conv_nth mq_inv_def)
    moreover have "length (sq_heap q) < 2 ^ 64" using length_heap_le_stored [OF that] assms(3) by simp
    ultimately have "unat (sq_len q) = length (sq_heap q)" by (simp add: unat_of_nat_less)
    then show ?thesis by (metis length_0_conv unat_eq_zero)
  qed
  have "stored qs = {#} \<longleftrightarrow> (\<forall>q\<in>set qs. sq_heap q = [])"
    by (induction qs) (auto simp: stored_def)
  then show ?thesis using c by (auto simp: mq_is_empty_def list_all_iff)
qed

section \<open>Properties\<close>

text \<open>
  Claim C3. However the threads interleave, the concurrent queue neither loses nor duplicates an
  item: what was pushed is what the pops have returned, what lies in the sub-queues and what a
  thread carries in or out; and each mutex is held by exactly the thread whose method has
  taken it.
\<close>

theorem multi_queue_conserves:
  assumes "mq_run n ins outs qs pcs"
  shows "ins = outs + stored qs + sum_list (map carries pcs) \<and>
    (\<forall>i t. i < length qs \<longrightarrow> (sq_owner (qs ! i) = Some t) = (t < length pcs \<and> i \<in> holds (pcs ! t)))"
  using mq_run_inv [OF assms] by (simp add: mq_inv_def)

definition ex_mq :: "nat list \<Rightarrow> u64 \<Rightarrow> nat option \<Rightarrow> nat sub_queue" where
  "ex_mq h l owner = \<lparr>sq_heap = h, sq_len = l, sq_owner = owner\<rparr>"

lemma ex_mq_run:
  "mq_run 2 {#7#} {#} [ex_mq [] 0 None, ex_mq [7] 1 None] [PushDone, Outside]"
  "mq_run 2 {#7#} {#} [ex_mq [] 0 (Some 1), ex_mq [7] 1 (Some 1)] [PushDone, PopHoldBoth 0 1]"
proof -
  have s0: "mq_run 2 {#} {#} [ex_mq [] 0 None, ex_mq [] 0 None] [Outside, Outside]"
    using mq_run.start [of 2 "[ex_mq [] 0 None, ex_mq [] 0 None]" 2]
    by (simp add: mq_new_def sub_queue_new_def ex_mq_def numeral_2_eq_2)
  have s1: "mq_run 2 {#7#} {#} [ex_mq [] 0 None, ex_mq [] 0 None] [PushSample 7, Outside]"
    using mq_run.call_push [OF s0, of 0 7] by simp
  have s2: "mq_run 2 {#7#} {#} [ex_mq [] 0 None, ex_mq [] 0 (Some 0)] [PushHold 7 1, Outside]"
    using mq_run.step [OF s1, of 0 "(1, 0)"] by (simp add: mq_step_def is_free_def lock_sq_def ex_mq_def)
  have "heap_push (\<lambda>x. x) [] (7 :: nat) = [7]" by code_simp
  then have s3: "mq_run 2 {#7#} {#} [ex_mq [] 0 None, ex_mq [7] 0 (Some 0)] [PushCount 1, Outside]"
    using mq_run.step [OF s2, of 0 "(0, 0)"] by (simp add: mq_step_def set_heap_def ex_mq_def)
  show s4: "mq_run 2 {#7#} {#} [ex_mq [] 0 None, ex_mq [7] 1 None] [PushDone, Outside]"
    using mq_run.step [OF s3, of 0 "(0, 0)"] by (simp add: mq_step_def unlock_sq_def fetch_add_def ex_mq_def)
  have s5: "mq_run 2 {#7#} {#} [ex_mq [] 0 None, ex_mq [7] 1 None] [PushDone, PopSample]"
    using mq_run.call_pop [OF s4, of 1] by simp
  have s6: "mq_run 2 {#7#} {#} [ex_mq [] 0 (Some 1), ex_mq [7] 1 None] [PushDone, PopHoldLo 0 1]"
    using mq_run.step [OF s5, of 1 "(1, 0)"] by (simp add: mq_step_def sample_two_def is_free_def lock_sq_def ex_mq_def)
  show "mq_run 2 {#7#} {#} [ex_mq [] 0 (Some 1), ex_mq [7] 1 (Some 1)] [PushDone, PopHoldBoth 0 1]"
    using mq_run.step [OF s6, of 1 "(0, 0)"] by (simp add: mq_step_def is_free_def lock_sq_def ex_mq_def)
qed

theorem multi_queue_conserves_witness:
  "{#7#} = {#} + stored [ex_mq [] 0 None, ex_mq [7] 1 None] + sum_list (map carries [PushDone, Outside])"
  using multi_queue_conserves [OF ex_mq_run(1)] by blast

text \<open>
  When no thread is inside a method, \<open>len\<close> is the number of stored items (modulo
  the width of \<open>usize\<close>) and \<open>is_empty\<close> says whether there is any.
\<close>

theorem multi_queue_len_exact:
  assumes "mq_run n ins outs qs pcs" "list_all quiet pcs"
  shows "mq_len qs = of_nat (size (stored qs)) \<and>
    (size (stored qs) < 2 ^ 64 \<longrightarrow> mq_is_empty qs = (stored qs = {#}))"
  using quiet_len [OF mq_run_inv [OF assms(1)] assms(2)] quiet_is_empty [OF mq_run_inv [OF assms(1)] assms(2)]
  by blast

theorem multi_queue_len_exact_witness:
  "mq_len [ex_mq [] 0 None, ex_mq [7] 1 None] = 1 \<and> \<not> mq_is_empty [ex_mq [] 0 None, ex_mq [7] 1 None]"
  using multi_queue_len_exact [OF ex_mq_run(1)] by (simp add: stored_def ex_mq_def)

text \<open>
  A \<open>pop\<close> that holds its two sub-queues returns the greatest item of the two, and
  returns nothing only when both are empty, whatever the other threads do.
\<close>

theorem multi_queue_pop_best_of_two:
  assumes "mq_run n ins outs qs pcs" "t < length pcs" "pcs ! t = PopHoldBoth lo hi"
  shows "(\<exists>i x qs'. (i = lo \<or> i = hi) \<and> mq_step c t qs (pcs ! t) = Some (qs', PopCount lo hi i (Some x)) \<and>
      x \<in> set (sq_heap (qs ! i)) \<and> (\<forall>y\<in>set (sq_heap (qs ! lo)) \<union> set (sq_heap (qs ! hi)). y \<le> x)) \<or>
    (\<exists>qs'. mq_step c t qs (pcs ! t) = Some (qs', PopDone None) \<and> sq_heap (qs ! lo) = [] \<and> sq_heap (qs ! hi) = [])"
proof -
  have "pc_ok (length qs) (PopHoldBoth lo hi :: 'a mq_pc)"
    using mq_run_inv [OF assms(1)] assms(2) unfolding assms(3) [symmetric] by (simp add: mq_inv_def)
  then have inv: "heaps_ok qs" "lo < length qs" "hi < length qs"
    using mq_run_inv [OF assms(1)] by (auto simp: mq_inv_def)
  have "mq_step c t qs (PopHoldBoth lo hi) \<noteq> None" by (simp add: mq_step_def)
  then obtain qs' pc' where st: "mq_step c t qs (PopHoldBoth lo hi) = Some (qs', pc')" by fast
  have root: "y \<le> x" if j: "j \<in> {lo, hi}"
    and x: "\<forall>j\<in>{lo, hi}. \<forall>y. heap_peek (sq_heap (qs ! j)) = Some y \<longrightarrow> y \<le> x"
    and y: "y \<in> set (sq_heap (qs ! j))" for j x y
  proof -
    obtain z where z: "heap_peek (sq_heap (qs ! j)) = Some z" using y by (cases "sq_heap (qs ! j)") auto
    have "y \<le> z" using heap_peek_max [OF _ z y] heaps_ok_nth [OF inv(1)] inv(2,3) j by blast
    moreover have "z \<le> x" using j x z by blast
    ultimately show ?thesis by (rule order_trans)
  qed
  from st show ?thesis
  proof (cases rule: mq_step_cases)
    case (PopFrom l h i x h')
    then have eq: "l = lo" "h = hi" by simp_all
    have "x \<in># mset (sq_heap (qs ! i))" unfolding mset_heap_pop [OF PopFrom(3)] by simp
    then have "x \<in> set (sq_heap (qs ! i))" by simp
    moreover have "\<forall>y\<in>set (sq_heap (qs ! lo)) \<union> set (sq_heap (qs ! hi)). y \<le> x"
      using root [of lo x] root [of hi x] PopFrom(4) unfolding eq by blast
    moreover have "mq_step c t qs (pcs ! t) = Some (qs', PopCount lo hi i (Some x))"
      using st PopFrom(6) unfolding assms(3) eq by simp
    ultimately show ?thesis using PopFrom(2) unfolding eq by blast
  next
    case (PopEmpty l h)
    then show ?thesis using st unfolding assms(3) by simp
  qed simp_all
qed

theorem multi_queue_pop_best_of_two_witness:
  "\<exists>i x qs'. (i = 0 \<or> i = 1) \<and>
     mq_step (0, 0) 1 [ex_mq [] 0 (Some 1), ex_mq [7] 1 (Some 1)] (PopHoldBoth 0 1) = Some (qs', PopCount 0 1 i (Some x)) \<and>
     x \<in> set (sq_heap ([ex_mq [] 0 (Some 1), ex_mq [7] 1 (Some 1)] ! i))"
  using multi_queue_pop_best_of_two [OF ex_mq_run(2), of 1 0 1 "(0, 0)"] by (auto simp: ex_mq_def)

text \<open>
  Claim C34. The queue does not deadlock: whenever a thread is inside a method, it has a step
  for some draw of its generator, or it waits in the second pass of \<open>pop_any\<close> for a mutex
  whose holder has a step for every draw (a thread that holds a mutex never waits).
\<close>

theorem multi_queue_no_deadlock:
  assumes "mq_run n ins outs qs pcs" "t < length pcs" "\<not> quiet (pcs ! t)"
  shows "(\<exists>c. mq_step c t qs (pcs ! t) \<noteq> None) \<or>
    (\<exists>k t'. pcs ! t = AnyLock k \<and> sq_owner (qs ! k) = Some t' \<and> t' < length pcs \<and>
      (\<forall>c. mq_step c t' qs (pcs ! t') \<noteq> None))"
proof (cases "\<exists>k. pcs ! t = AnyLock k \<and> k < length qs \<and> \<not> is_free qs k")
  case True
  then obtain k t' where k: "pcs ! t = AnyLock k" "k < length qs" "sq_owner (qs ! k) = Some t'"
    by (auto simp: is_free_def)
  then have "t' < length pcs" "k \<in> holds (pcs ! t')" using mq_run_inv [OF assms(1)] by (auto simp: mq_inv_def)
  moreover have "mq_step c u qs pc \<noteq> None" if "k \<in> holds pc" for c u pc
    using that by (cases pc; cases c) (auto simp: mq_step_def split: prod.splits option.splits)
  ultimately show ?thesis using k by blast
next
  case False
  have "2 \<le> length qs" using mq_run_inv [OF assms(1)] by (simp add: mq_inv_def)
  then have "mq_step (0, 0) t qs (pcs ! t) \<noteq> None"
    using False assms(3)
    by (cases "pcs ! t") (auto simp: mq_step_def sample_two_def split: prod.splits option.splits)
  then show ?thesis by blast
qed

theorem multi_queue_no_deadlock_witness:
  "(\<exists>c. mq_step c 1 [ex_mq [] 0 (Some 1), ex_mq [7] 1 (Some 1)] (PopHoldBoth 0 1) \<noteq> None)"
  using multi_queue_no_deadlock [OF ex_mq_run(2), of 1] by simp

end
