(* ===== verification/Wire_Codec.thy ===== *)
theory Wire_Codec
  imports Prelude
begin

text \<open>
  The header codec of \<open>libs/rpcstack-wire/src/lib.rs\<close>. A header value is a sequence of
  sections \<open>name:payload\<close> separated by dots; a payload is base64 over \<open>bincode\<close>. The file
  has its own base64 decoder, which writes into a caller's buffer; the general decoder is the
  \<open>base64\<close> crate's, and the serializer is \<open>bincode\<close>'s. Those two crates are the
  parameters \<open>base64_engine\<close> and \<open>bincode\<close> of the definitions that call them.
\<close>

section \<open>Sections of a header value\<close>

definition HEADER_NAME :: string where
  "HEADER_NAME = ''ctx''"

definition SCHEDULING_HEADER :: string where
  "SCHEDULING_HEADER = ''x-rpcstack-scheduling''"

definition STACK_PAYLOAD :: nat where
  "STACK_PAYLOAD = 192"

definition SECTION_SEPARATOR :: char where
  "SECTION_SEPARATOR = CHR ''.''"

definition NAME_SEPARATOR :: char where
  "NAME_SEPARATOR = CHR '':''"

definition sections :: "string \<Rightarrow> (string \<times> string) list" where
  "sections header =
     map (\<lambda>s. case split_once NAME_SEPARATOR s of Some r \<Rightarrow> r | None \<Rightarrow> (s, ''''))
       (filter (\<lambda>s. s \<noteq> '''') (split_on SECTION_SEPARATOR header))"

function find_section :: "string \<Rightarrow> string \<Rightarrow> string option" where
  "find_section rest name =
     (let end = (case position (\<lambda>b. b = SECTION_SEPARATOR) rest of Some i \<Rightarrow> i | None \<Rightarrow> length rest);
          next = (if end + 1 \<le> length rest then find_section (drop (end + 1) rest) name else None) in
      case strip_prefix name (take end rest) of
        None \<Rightarrow> next
      | Some after_name \<Rightarrow>
          (case strip_prefix [NAME_SEPARATOR] after_name of
             Some payload \<Rightarrow> Some payload
           | None \<Rightarrow> if after_name = '''' \<and> name \<noteq> '''' then Some '''' else next))"
  by pat_completeness auto
termination
  by (relation "measure (\<lambda>(rest, name). length rest)") auto

declare find_section.simps [simp del]

definition push_section :: "string \<Rightarrow> string \<Rightarrow> string \<Rightarrow> string" where
  "push_section header name payload =
     (if header \<noteq> '''' then header @ [SECTION_SEPARATOR] else header) @ name @ [NAME_SEPARATOR] @ payload"

section \<open>The decoder that does not allocate\<close>

definition INVALID :: u8 where
  "INVALID = 0x80"

definition alphabet :: string where
  "alphabet = ''ABCDEFGHIJKLMNOPQRSTUVWXYZabcdefghijklmnopqrstuvwxyz0123456789+/''"

definition BASE64_VALUE :: "u8 list" where
  "BASE64_VALUE = fold (\<lambda>at table. table[of_char (alphabet ! at) := of_nat at])
     [0..<length alphabet] (replicate 256 INVALID)"

definition base64_value :: "char \<Rightarrow> u8" where
  "base64_value c = BASE64_VALUE ! of_char c"

definition group_bits :: "u8 \<Rightarrow> u8 \<Rightarrow> u8 \<Rightarrow> u8 \<Rightarrow> u32" where
  "group_bits a b c d =
     push_bit 18 (ucast a) OR push_bit 12 (ucast b) OR push_bit 6 (ucast c) OR ucast d"

text \<open>The last three of the four bytes of \<open>to_be_bytes\<close>.\<close>

definition low_bytes :: "u32 \<Rightarrow> u8 list" where
  "low_bytes bits = [ucast (drop_bit 16 bits), ucast (drop_bit 8 bits), ucast bits]"

text \<open>\<open>copy_from_slice\<close> at an offset of the buffer, which the caller has checked to fit.\<close>

definition write_at :: "nat \<Rightarrow> 'a list \<Rightarrow> 'a list \<Rightarrow> 'a list" where
  "write_at at bytes buf = take at buf @ bytes @ drop (at + length bytes) buf"

text \<open>
  The loop over the groups before the last one; it ends when the text or the three-byte chunks
  of the buffer run out.
\<close>

fun decode_groups :: "string \<Rightarrow> u8 list \<Rightarrow> nat \<Rightarrow> u8 \<Rightarrow> u8 list \<times> nat \<times> u8" where
  "decode_groups (c0 # c1 # c2 # c3 # rest) buf written invalid =
     (if written + 3 \<le> length buf then
        let a = base64_value c0; b = base64_value c1; c = base64_value c2; d = base64_value c3 in
        decode_groups rest (write_at written (low_bytes (group_bits a b c d)) buf) (written + 3)
          (invalid OR (a OR b OR c OR d))
      else (buf, written, invalid))"
| "decode_groups _ buf written invalid = (buf, written, invalid)"

text \<open>The last group, which may be padded: what it writes, or that it is not base64.\<close>

definition decode_last :: "char \<Rightarrow> char \<Rightarrow> char \<Rightarrow> char \<Rightarrow> u8 list option" where
  "decode_last c0 c1 c2 c3 =
     (let a = base64_value c0; b = base64_value c1; c = base64_value c2; d = base64_value c3 in
      if c2 \<noteq> CHR ''='' \<and> c3 \<noteq> CHR ''='' \<and> (a OR b OR c OR d) AND INVALID = 0 then
        Some (low_bytes (group_bits a b c d))
      else if c2 \<noteq> CHR ''='' \<and> c3 = CHR ''='' \<and> (a OR b OR c) AND INVALID = 0 \<and> c AND 3 = 0 then
        Some (take 2 (low_bytes (group_bits a b c 0)))
      else if c2 = CHR ''='' \<and> c3 = CHR ''='' \<and> (a OR b) AND INVALID = 0 \<and> b AND 15 = 0 then
        Some (take 1 (low_bytes (group_bits a b 0 0)))
      else None)"

text \<open>The result and the buffer afterwards; a write past its end panics.\<close>

definition decode_payload_into :: "string \<Rightarrow> u8 list \<Rightarrow> (u8 list option \<times> u8 list) exec" where
  "decode_payload_into bytes buf =
     (if length bytes mod 4 \<noteq> 0 \<or> length buf < length bytes div 4 * 3 then Done (None, buf)
      else
        let body = take (length bytes - 4) bytes; last = drop (length bytes - 4) bytes in
        case decode_groups body buf 0 0 of (buf1, written, invalid) \<Rightarrow>
          if invalid AND INVALID \<noteq> 0 then Done (None, buf1)
          else (case last of
             [c0, c1, c2, c3] \<Rightarrow>
               (case decode_last c0 c1 c2 c3 of
                  None \<Rightarrow> Done (None, buf1)
                | Some out \<Rightarrow>
                    if written + length out \<le> length buf1 then
                      let buf2 = write_at written out buf1 in
                      Done (Some (take (written + length out) buf2), buf2)
                    else Panic)
           | _ \<Rightarrow> Done (Some (take written buf1), buf1)))"

section \<open>Payloads\<close>

text \<open>
  The \<open>base64\<close> crate's standard engine: \<open>decode\<close> with its error text, \<open>encode\<close>, and
  \<open>encode_slice\<close>, which fails when the text does not fit the buffer. \<open>bincode\<close> with the
  options of this file: \<open>serialize\<close>, \<open>serialize_into\<close> a buffer of a given size (its error
  text is dropped by the caller) and \<open>deserialize\<close>.
\<close>

record base64_engine =
  b64_decode :: "string \<Rightarrow> string + u8 list"
  b64_encode :: "u8 list \<Rightarrow> string"
  b64_encode_slice :: "u8 list \<Rightarrow> nat \<Rightarrow> string option"

record 'w bincode =
  bin_serialize :: "'w \<Rightarrow> string + u8 list"
  bin_serialize_into :: "'w \<Rightarrow> nat \<Rightarrow> u8 list option"
  bin_deserialize :: "u8 list \<Rightarrow> string + 'w"

definition deserialize :: "'w bincode \<Rightarrow> u8 list \<Rightarrow> string + 'w" where
  "deserialize bin bytes =
     (case bin_deserialize bin bytes of Inl err \<Rightarrow> Inl (''bincode: '' @ err) | Inr w \<Rightarrow> Inr w)"

definition decode_payload :: "base64_engine \<Rightarrow> 'w bincode \<Rightarrow> string \<Rightarrow> (string + 'w) exec" where
  "decode_payload b64 bin payload =
     bind_exec (decode_payload_into payload (replicate STACK_PAYLOAD 0))
       (\<lambda>(r, _). case r of
          Some bytes \<Rightarrow> Done (deserialize bin bytes)
        | None \<Rightarrow>
            (case b64_decode b64 payload of
               Inl err \<Rightarrow> Done (Inl (''base64: '' @ err))
             | Inr bytes \<Rightarrow> Done (deserialize bin bytes)))"

definition encode_payload_with :: "base64_engine \<Rightarrow> 'w bincode \<Rightarrow> 'w \<Rightarrow> (string \<Rightarrow> 'r) \<Rightarrow> (string + 'r) exec" where
  "encode_payload_with b64 bin wire use_payload =
     (case bin_serialize_into bin wire STACK_PAYLOAD of
        Some raw \<Rightarrow>
          (case b64_encode_slice b64 raw (STACK_PAYLOAD div 3 * 4) of
             None \<Rightarrow> Panic
           | Some text \<Rightarrow> Done (Inr (use_payload text)))
      | None \<Rightarrow>
          (case bin_serialize bin wire of
             Inl err \<Rightarrow> Done (Inl (''bincode: '' @ err))
           | Inr bytes \<Rightarrow> Done (Inr (use_payload (b64_encode b64 bytes)))))"

definition encode_payload :: "base64_engine \<Rightarrow> 'w bincode \<Rightarrow> 'w \<Rightarrow> (string + string) exec" where
  "encode_payload b64 bin wire = encode_payload_with b64 bin wire (\<lambda>payload. payload)"

section \<open>The readable form of a header\<close>

definition hex_digit :: "nat \<Rightarrow> char" where
  "hex_digit n = ''0123456789abcdef'' ! n"

definition hex_byte :: "u8 \<Rightarrow> string" where
  "hex_byte b = [hex_digit (unat b div 16), hex_digit (unat b mod 16)]"

definition describe_section :: "base64_engine \<Rightarrow> string \<times> string \<Rightarrow> string" where
  "describe_section b64 s = (case s of (name, payload) \<Rightarrow>
     (case b64_decode b64 payload of
        Inl err \<Rightarrow> name @ '': not base64 ('' @ err @ '')''
      | Inr bytes \<Rightarrow> name @ '' ('' @ show_nat (length bytes) @ '' bytes):'' @
          concat (map (\<lambda>b. '' '' @ hex_byte b) bytes)))"

definition describe :: "base64_engine \<Rightarrow> string \<Rightarrow> string" where
  "describe b64 header =
     foldl (\<lambda>text s. text @ (if text \<noteq> '''' then [CHR 0x0A] else '''') @ describe_section b64 s)
       '''' (sections header)"

section \<open>Finding a section\<close>

text \<open>A name the header syntax allows: not empty and without separators.\<close>

definition plain_name :: "string \<Rightarrow> bool" where
  "plain_name name \<longleftrightarrow> name \<noteq> '''' \<and> SECTION_SEPARATOR \<notin> set name \<and> NAME_SEPARATOR \<notin> set name"

text \<open>What \<open>find_section\<close> makes of one section.\<close>

definition section_payload :: "string \<Rightarrow> string \<Rightarrow> string option" where
  "section_payload name s =
     (case strip_prefix name s of
        None \<Rightarrow> None
      | Some after_name \<Rightarrow>
          (case strip_prefix [NAME_SEPARATOR] after_name of
             Some payload \<Rightarrow> Some payload
           | None \<Rightarrow> if after_name = '''' \<and> name \<noteq> '''' then Some '''' else None))"

lemma find_section_last: "SECTION_SEPARATOR \<notin> set s \<Longrightarrow> find_section s name = section_payload name s"
proof -
  assume "SECTION_SEPARATOR \<notin> set s"
  then have "position (\<lambda>b. b = SECTION_SEPARATOR) s = None" by auto
  then show ?thesis
    by (subst find_section.simps; cases "strip_prefix name s";
        cases "strip_prefix [NAME_SEPARATOR] (the (strip_prefix name s))")
      (simp_all add: section_payload_def Let_def del: strip_prefix_Some strip_prefix.simps position_None)
qed

lemma find_section_step:
  assumes "SECTION_SEPARATOR \<notin> set s"
  shows "find_section (s @ SECTION_SEPARATOR # rest) name =
    (case section_payload name s of Some p \<Rightarrow> Some p | None \<Rightarrow> find_section rest name)"
proof -
  from assms have "position (\<lambda>b. b = SECTION_SEPARATOR) (s @ SECTION_SEPARATOR # rest) = Some (length s)"
    by (induction s) auto
  then show ?thesis
    by (subst find_section.simps; cases "strip_prefix name s";
        cases "strip_prefix [NAME_SEPARATOR] (the (strip_prefix name s))")
      (simp_all add: section_payload_def Let_def del: strip_prefix_Some strip_prefix.simps position_None)
qed

text \<open>A header is a last section, or a section, a dot and a shorter header.\<close>

lemma header_induct [case_names last step]:
  assumes "\<And>s. SECTION_SEPARATOR \<notin> set s \<Longrightarrow> P s"
    and "\<And>s rest. SECTION_SEPARATOR \<notin> set s \<Longrightarrow> P rest \<Longrightarrow> P (s @ SECTION_SEPARATOR # rest)"
  shows "P header"
proof (induction header rule: length_induct)
  case (1 header)
  show ?case
  proof (cases "SECTION_SEPARATOR \<in> set header")
    case True
    then obtain s rest where "header = s @ SECTION_SEPARATOR # rest" "SECTION_SEPARATOR \<notin> set s"
      by (metis split_list_first)
    with 1 assms(2) show ?thesis by simp
  qed (rule assms(1))
qed

lemma section_payload_eq:
  assumes "plain_name name"
  shows "section_payload name s =
    (case (case split_once NAME_SEPARATOR s of Some r \<Rightarrow> r | None \<Rightarrow> (s, '''')) of
       (n, p) \<Rightarrow> if s \<noteq> '''' \<and> n = name then Some p else None)"
proof (cases "NAME_SEPARATOR \<in> set s")
  case True
  then obtain n p where s: "s = n @ NAME_SEPARATOR # p" "NAME_SEPARATOR \<notin> set n" by (metis split_list_first)
  show ?thesis
  proof (cases "n = name")
    case True
    then show ?thesis using s(2) by (simp add: section_payload_def s(1) split_once_append)
  next
    case False
    have "x # xs \<noteq> NAME_SEPARATOR # q" if "n @ NAME_SEPARATOR # p = name @ x # xs" for x xs q
    proof
      assume "x # xs = NAME_SEPARATOR # q"
      with that have "n @ NAME_SEPARATOR # p = name @ NAME_SEPARATOR # q" by simp
      then have "n = name" using split_once_append [OF s(2), of p] split_once_append [of NAME_SEPARATOR name q] assms
        by (simp add: plain_name_def)
      with False show False by simp
    qed
    moreover have "s \<noteq> name" using assms s(1) by (auto simp: plain_name_def)
    ultimately have "section_payload name s = None"
      using s(1) by (auto simp: section_payload_def neq_Nil_conv split: option.split)
    then show ?thesis using False s(2) by (simp add: s(1) split_once_append)
  qed
next
  case False
  show ?thesis
  proof (cases "s = name")
    case True
    moreover have "position (\<lambda>c. c = NAME_SEPARATOR) s = None" using False by auto
    ultimately show ?thesis using assms by (simp add: section_payload_def plain_name_def split_once_def del: position_None)
  next
    case neq: False
    have "position (\<lambda>c. c = NAME_SEPARATOR) s = None" using False by auto
    moreover have "section_payload name s = None"
      using False neq by (auto simp: section_payload_def split: option.split)
    ultimately show ?thesis using neq by (simp add: split_once_def del: position_None)
  qed
qed

lemma sections_last: "SECTION_SEPARATOR \<notin> set s \<Longrightarrow> sections s = (if s = '''' then [] else
    [case split_once NAME_SEPARATOR s of Some r \<Rightarrow> r | None \<Rightarrow> (s, '''')])"
  by (simp add: sections_def)

lemma sections_step: "SECTION_SEPARATOR \<notin> set s \<Longrightarrow>
    sections (s @ SECTION_SEPARATOR # rest) = sections s @ sections rest"
  by (simp add: sections_def split_on_append_sep)

lemma find_section_map_of: "plain_name name \<Longrightarrow> find_section header name = map_of (sections header) name"
proof (induction header rule: header_induct)
  case (last s)
  then show ?case by (auto simp: find_section_last section_payload_eq sections_last split: prod.split)
next
  case (step s rest)
  then have "section_payload name s = map_of (sections s) name"
    by (auto simp: section_payload_eq sections_last split: prod.split)
  with step show ?case
    by (simp add: find_section_step sections_step map_add_def split: option.split)
qed

lemma sections_append: "sections (h @ SECTION_SEPARATOR # t) = sections h @ sections t"
proof (induction h rule: header_induct)
  case (step s rest)
  then show ?case using sections_step [of s "rest @ SECTION_SEPARATOR # t"] by (simp add: sections_step)
qed (rule sections_step)

lemma sections_push:
  assumes "plain_name name" "SECTION_SEPARATOR \<notin> set payload"
  shows "sections (push_section header name payload) = sections header @ [(name, payload)]"
proof -
  have new: "sections (name @ NAME_SEPARATOR # payload) = [(name, payload)]"
    using assms by (subst sections_last) (auto simp: plain_name_def split_once_append SECTION_SEPARATOR_def NAME_SEPARATOR_def)
  then show ?thesis using sections_append [of header]
    by (cases "header = ''''") (auto simp: push_section_def sections_def)
qed

section \<open>The alphabet table\<close>

lemma fold_update_other: "(\<forall>at\<in>set ats. i \<noteq> f at) \<Longrightarrow> fold (\<lambda>at t. t[f at := g at]) ats t ! i = t ! i"
  by (induction ats arbitrary: t) auto

lemma fold_update_hit:
  "at \<in> set ats \<Longrightarrow> inj_on f (set ats) \<Longrightarrow> f at < length t \<Longrightarrow> fold (\<lambda>at t. t[f at := g at]) ats t ! f at = g at"
proof (induction ats arbitrary: t)
  case (Cons a ats)
  show ?case
  proof (cases "at \<in> set ats")
    case True
    with Cons show ?thesis by simp
  next
    case False
    with Cons.prems have "at = a" "\<forall>b\<in>set ats. f a \<noteq> f b" by (auto simp: inj_on_def)
    then show ?thesis using Cons.prems(3) by (simp add: fold_update_other)
  qed
qed simp

lemma alphabet_facts: "length alphabet = 64" "distinct alphabet" "CHR ''='' \<notin> set alphabet"
    "SECTION_SEPARATOR \<notin> set alphabet"
  by (simp_all add: alphabet_def SECTION_SEPARATOR_def)

lemma of_char_256: "(of_char c :: nat) < 256"
  by simp

lemma base64_value_nth: "i < 64 \<Longrightarrow> base64_value (alphabet ! i) = of_nat i"
proof -
  assume i: "i < 64"
  have inj: "inj_on (\<lambda>at. of_char (alphabet ! at) :: nat) (set [0..<length alphabet])"
    using alphabet_facts by (auto simp: inj_on_def nth_eq_iff_index_eq)
  have "i \<in> set [0..<length alphabet]" "of_char (alphabet ! i) < length (replicate 256 INVALID)"
    using i alphabet_facts(1) by (auto simp: of_char_256)
  from fold_update_hit [OF this(1) inj this(2)] show ?thesis
    by (simp add: base64_value_def BASE64_VALUE_def)
qed

lemma base64_value_other: "c \<notin> set alphabet \<Longrightarrow> base64_value c = INVALID"
proof -
  assume "c \<notin> set alphabet"
  then have "\<forall>at\<in>set [0..<length alphabet]. (of_char c :: nat) \<noteq> of_char (alphabet ! at)"
    by (auto simp: in_set_conv_nth)
  then show ?thesis
    by (simp add: base64_value_def BASE64_VALUE_def fold_update_other of_char_256)
qed

section \<open>The base64 of RFC 4648\<close>

text \<open>
  The standard's encoding, on bit groups: three bytes give four characters, and one or two
  remaining bytes are padded with zero bits and \<open>=\<close>.
\<close>

definition b64_char :: "u8 \<Rightarrow> char" where
  "b64_char v = alphabet ! unat v"

definition sextets :: "u8 \<Rightarrow> u8 \<Rightarrow> u8 \<Rightarrow> u8 list" where
  "sextets b0 b1 b2 =
     [drop_bit 2 b0, push_bit 4 (b0 AND 3) OR drop_bit 4 b1, push_bit 2 (b1 AND 15) OR drop_bit 6 b2, b2 AND 63]"

fun rfc4648_encode :: "u8 list \<Rightarrow> string" where
  "rfc4648_encode [] = []"
| "rfc4648_encode [b0] = map b64_char (take 2 (sextets b0 0 0)) @ ''==''"
| "rfc4648_encode [b0, b1] = map b64_char (take 3 (sextets b0 b1 0)) @ ''=''"
| "rfc4648_encode (b0 # b1 # b2 # rest) = map b64_char (sextets b0 b1 b2) @ rfc4648_encode rest"

lemma base64_value_valid: "base64_value c AND INVALID = 0 \<longleftrightarrow> c \<in> set alphabet"
proof (cases "c \<in> set alphabet")
  case True
  then obtain i where i: "c = alphabet ! i" "i < 64" using alphabet_facts(1) by (auto simp: in_set_conv_nth)
  have "\<forall>i\<in>set [0..<64]. (of_nat i :: u8) AND INVALID = 0" by code_simp
  then show ?thesis using i True by (simp add: base64_value_nth)
qed (simp add: base64_value_other INVALID_def)

lemma b64_char_value: "c \<in> set alphabet \<Longrightarrow> b64_char (base64_value c) = c \<and> base64_value c < 64"
proof -
  assume "c \<in> set alphabet"
  then obtain i where i: "c = alphabet ! i" "i < 64" using alphabet_facts(1) by (auto simp: in_set_conv_nth)
  then have "unat (of_nat i :: u8) = i" by (intro unat_of_nat_less) simp
  with i show ?thesis by (simp add: base64_value_nth b64_char_def word_less_nat_alt)
qed

lemma b64_value_char: "v < 64 \<Longrightarrow> base64_value (b64_char v) = v \<and> b64_char v \<in> set alphabet"
proof -
  assume "v < 64"
  then have "unat v < 64" by (simp add: word_less_nat_alt)
  then show ?thesis using alphabet_facts(1) by (simp add: b64_char_def base64_value_nth)
qed

lemma take_bit_6: "take_bit 6 v = v \<longleftrightarrow> (v :: u8) < 64"
proof -
  have "take_bit 6 v = v \<longleftrightarrow> take_bit 6 (unat v) = unat v"
    by (metis unsigned_take_bit_eq unsigned_word_eqI)
  also have "\<dots> \<longleftrightarrow> unat v < 2 ^ 6" by (metis take_bit_nat_eq_self take_bit_nat_less_exp)
  finally show ?thesis by (simp add: word_less_nat_alt)
qed

lemma bit_less_64: "(v :: u8) < 64 \<Longrightarrow> bit v n \<Longrightarrow> n < 6"
proof -
  assume v: "v < 64" "bit v n"
  then have "take_bit 6 v = v" by (simp add: take_bit_6)
  with v(2) show ?thesis by (metis bit_take_bit_iff)
qed

lemma word8_eqI:
  fixes x y :: u8
  assumes "bit x 0 = bit y 0" "bit x 1 = bit y 1" "bit x 2 = bit y 2" "bit x 3 = bit y 3"
    "bit x 4 = bit y 4" "bit x 5 = bit y 5" "bit x 6 = bit y 6" "bit x 7 = bit y 7"
  shows "x = y"
proof (rule bit_word_eqI)
  fix n :: nat
  assume "n < LENGTH(8)"
  then have "n \<in> {0, 1, 2, 3, 4, 5, 6, 7}" by auto
  with assms show "bit x n = bit y n" by auto
qed

lemma bit_masks:
  "bit (3 :: u8) n \<longleftrightarrow> n < 2" "bit (15 :: u8) n \<longleftrightarrow> n < 4" "bit (63 :: u8) n \<longleftrightarrow> n < 6"
proof -
  have "(3 :: u8) = mask 2" "(15 :: u8) = mask 4" "(63 :: u8) = mask 6" by (simp_all add: mask_eq_exp_minus_1)
  then show "bit (3 :: u8) n \<longleftrightarrow> n < 2" "bit (15 :: u8) n \<longleftrightarrow> n < 4" "bit (63 :: u8) n \<longleftrightarrow> n < 6"
    by (simp_all only: bit_mask_iff) auto
qed

lemma bit_u8_beyond: "8 \<le> n \<Longrightarrow> \<not> bit (v :: u8) n"
  using bit_imp_le_length [of v n] by auto

lemmas group_bit_simps = bit_u8_beyond bit_or_iff bit_and_iff bit_push_bit_iff bit_drop_bit_eq bit_ucast_iff bit_masks

lemma high_bits_64: "(v :: u8) < 64 \<Longrightarrow> \<not> bit v 6 \<and> \<not> bit v 7"
  using bit_less_64 [of v 6] bit_less_64 [of v 7] by auto

text \<open>Four values below 64 are the bit groups of the three bytes they decode to, and back.\<close>

lemma low_bytes_sextets:
  "low_bytes (case sextets b0 b1 b2 of [a, b, c, d] \<Rightarrow> group_bits a b c d | _ \<Rightarrow> 0) = [b0, b1, b2]"
  unfolding sextets_def low_bytes_def group_bits_def list.case list.inject
  by (intro conjI refl; rule word8_eqI) (simp_all add: group_bit_simps)

lemma sextets_low_bytes:
  assumes "a < 64" "b < 64" "c < 64" "d < 64"
  shows "(case low_bytes (group_bits a b c d) of [b0, b1, b2] \<Rightarrow> sextets b0 b1 b2 | _ \<Rightarrow> []) = [a, b, c, d]"
  unfolding sextets_def low_bytes_def group_bits_def list.case list.inject
  using assms [THEN high_bits_64]
  by (intro conjI refl; intro word8_eqI) (simp_all add: group_bit_simps)

lemma sextets_less: "v \<in> set (sextets b0 b1 b2) \<Longrightarrow> v < 64"
proof -
  have "w < 64" if "\<not> bit w 6" "\<not> bit w 7" for w :: u8
  proof -
    have "take_bit 6 w = w" using that by (intro word8_eqI) (simp_all add: bit_take_bit_iff)
    then show ?thesis by (simp add: take_bit_6)
  qed
  then show "v \<in> set (sextets b0 b1 b2) \<Longrightarrow> v < 64"
    by (auto simp: sextets_def group_bit_simps)
qed

lemma or_INVALID: "(a OR b) AND INVALID = 0 \<longleftrightarrow> a AND INVALID = 0 \<and> b AND INVALID = 0"
  by (simp add: bit.conj_disj_distrib2 or_eq_0_iff)

lemma low_bytes_eq: "\<exists>b0 b1 b2. low_bytes bits = [b0, b1, b2]"
  by (simp add: low_bytes_def)

lemma map_b64_char_sextets:
  "set (map b64_char (sextets b0 b1 b2)) \<subseteq> set alphabet" "map base64_value (map b64_char (sextets b0 b1 b2)) = sextets b0 b1 b2"
  using sextets_less [of _ b0 b1 b2] b64_value_char by (auto intro: map_idI)

lemma sextets_inj: "sextets b0 b1 b2 = sextets d0 d1 d2 \<Longrightarrow> b0 = d0 \<and> b1 = d1 \<and> b2 = d2"
proof -
  assume eq: "sextets b0 b1 b2 = sextets d0 d1 d2"
  from low_bytes_sextets [of b0 b1 b2, unfolded eq, unfolded low_bytes_sextets]
  show ?thesis by simp
qed

lemma sextets_char_inj:
  "map b64_char (sextets b0 b1 b2) = map b64_char (sextets d0 d1 d2) \<Longrightarrow> b0 = d0 \<and> b1 = d1 \<and> b2 = d2"
  using map_b64_char_sextets(2) by (intro sextets_inj) metis

text \<open>A group of the body is valid exactly when it is the encoding of the bytes it decodes to.\<close>

lemma group_spec:
  assumes "low_bytes (group_bits (base64_value c0) (base64_value c1) (base64_value c2) (base64_value c3)) = [b0, b1, b2]"
  shows "[c0, c1, c2, c3] = map b64_char (sextets b0 b1 b2) \<longleftrightarrow> set [c0, c1, c2, c3] \<subseteq> set alphabet"
proof
  assume "[c0, c1, c2, c3] = map b64_char (sextets b0 b1 b2)"
  then show "set [c0, c1, c2, c3] \<subseteq> set alphabet" using map_b64_char_sextets(1) by metis
next
  assume "set [c0, c1, c2, c3] \<subseteq> set alphabet"
  then have c: "b64_char (base64_value c) = c \<and> base64_value c < 64" if "c \<in> set [c0, c1, c2, c3]" for c
    using that b64_char_value by blast
  have "sextets b0 b1 b2 = [base64_value c0, base64_value c1, base64_value c2, base64_value c3]"
    using sextets_low_bytes [of "base64_value c0" "base64_value c1" "base64_value c2" "base64_value c3"] assms c by simp
  then show "[c0, c1, c2, c3] = map b64_char (sextets b0 b1 b2)" using c by simp
qed

lemma rfc4648_encode_group: "rfc4648_encode ([b0, b1, b2] @ bs) = map b64_char (sextets b0 b1 b2) @ rfc4648_encode bs"
  by simp

lemma rfc4648_encode_append: "3 dvd length xs \<Longrightarrow> rfc4648_encode (xs @ ys) = rfc4648_encode xs @ rfc4648_encode ys"
proof (induction xs rule: rfc4648_encode.induct)
  case (4 b0 b1 b2 rest)
  from 4(2) have "3 dvd length rest" by simp presburger
  with 4 show ?case by simp
next
  case (3 b0 b1)
  then have False by (simp add: dvd_def) presburger
  then show ?case ..
qed auto

lemma length_rfc4648_encode: "length (rfc4648_encode xs) = (length xs + 2) div 3 * 4"
proof (induction xs rule: rfc4648_encode.induct)
  case (4 b0 b1 b2 rest)
  have "(length rest + 5) div 3 = (length rest + 2) div 3 + 1" by presburger
  with 4 show ?case by (simp add: sextets_def add.commute)
qed (auto simp: sextets_def)

lemma b64_char_not_pad: "v < 64 \<Longrightarrow> b64_char v \<noteq> CHR ''=''"
  using b64_value_char alphabet_facts(3) by metis

lemma sextets_shape: "\<exists>a b c d. sextets b0 b1 b2 = [a, b, c, d] \<and> a < 64 \<and> b < 64 \<and> c < 64 \<and> d < 64"
  using sextets_less [of _ b0 b1 b2] unfolding sextets_def by (intro exI conjI) (auto simp: sextets_def)

lemma write_at_write_at:
  "w + length g \<le> length buf \<Longrightarrow> write_at (w + length g) bs (write_at w g buf) = write_at w (g @ bs) buf"
  by (simp add: write_at_def add.commute add.left_commute)

lemma length_write_at [simp]: "w + length g \<le> length buf \<Longrightarrow> length (write_at w g buf) = length buf"
  by (simp add: write_at_def)

lemma write_at_Nil [simp]: "write_at w [] buf = buf"
  by (simp add: write_at_def)

lemma decode_groups_spec:
  "length s mod 4 = 0 \<Longrightarrow> w + length s div 4 * 3 \<le> length buf \<Longrightarrow>
   \<exists>bs iv'. decode_groups s buf w iv = (write_at w bs buf, w + length bs, iv') \<and> length bs = length s div 4 * 3 \<and>
     (iv' AND INVALID = 0 \<longleftrightarrow> iv AND INVALID = 0 \<and> set s \<subseteq> set alphabet) \<and>
     (set s \<subseteq> set alphabet \<longrightarrow> s = rfc4648_encode bs)"
proof (induction s buf w iv rule: decode_groups.induct)
  case (1 c0 c1 c2 c3 rest buf w iv)
  let ?a = "base64_value c0" and ?b = "base64_value c1" and ?c = "base64_value c2" and ?d = "base64_value c3"
  obtain b0 b1 b2 where g: "low_bytes (group_bits ?a ?b ?c ?d) = [b0, b1, b2]" using low_bytes_eq by blast
  have div4: "length (c0 # c1 # c2 # c3 # rest) div 4 = length rest div 4 + 1" by simp
  with "1.prems" have len: "length rest mod 4 = 0" "w + 3 \<le> length buf" "w + 3 + length rest div 4 * 3 \<le> length buf"
    by simp_all
  then have "w + 3 + length rest div 4 * 3 \<le> length (write_at w [b0, b1, b2] buf)" by simp
  from "1.IH" [OF len(2) refl refl refl refl len(1), unfolded g, OF this] obtain bs iv' where
    ih: "decode_groups rest (write_at w [b0, b1, b2] buf) (w + 3) (iv OR (?a OR ?b OR ?c OR ?d))
        = (write_at (w + 3) bs (write_at w [b0, b1, b2] buf), w + 3 + length bs, iv')"
      "length bs = length rest div 4 * 3"
      "iv' AND INVALID = 0 \<longleftrightarrow> (iv OR (?a OR ?b OR ?c OR ?d)) AND INVALID = 0 \<and> set rest \<subseteq> set alphabet"
      "set rest \<subseteq> set alphabet \<longrightarrow> rest = rfc4648_encode bs"
    by blast
  have "decode_groups (c0 # c1 # c2 # c3 # rest) buf w iv =
      (write_at w ([b0, b1, b2] @ bs) buf, w + length ([b0, b1, b2] @ bs), iv')"
    using ih(1) g len(2) write_at_write_at [of w "[b0, b1, b2]" buf bs] by (simp add: Let_def eval_nat_numeral)
  moreover have "iv' AND INVALID = 0 \<longleftrightarrow> iv AND INVALID = 0 \<and> set (c0 # c1 # c2 # c3 # rest) \<subseteq> set alphabet"
    unfolding ih(3) or_INVALID base64_value_valid by auto
  moreover have "set (c0 # c1 # c2 # c3 # rest) \<subseteq> set alphabet \<longrightarrow>
      c0 # c1 # c2 # c3 # rest = rfc4648_encode ([b0, b1, b2] @ bs)"
    unfolding rfc4648_encode_group using group_spec [OF g] ih(4) by (metis append_Cons append_Nil set_append Un_subset_iff)
  moreover have "length ([b0, b1, b2] @ bs) = length (c0 # c1 # c2 # c3 # rest) div 4 * 3" using ih(2) div4 by simp
  ultimately show ?case by blast
qed auto

lemma low_zero_bits:
  "(c :: u8) AND 3 = 0 \<longleftrightarrow> \<not> bit c 0 \<and> \<not> bit c 1"
  "(b :: u8) AND 15 = 0 \<longleftrightarrow> \<not> bit b 0 \<and> \<not> bit b 1 \<and> \<not> bit b 2 \<and> \<not> bit b 3"
proof -
  have zero: "w = 0 \<longleftrightarrow> (\<forall>n. \<not> bit w n)" for w :: u8 by (auto intro: bit_word_eqI)
  show "c AND 3 = 0 \<longleftrightarrow> \<not> bit c 0 \<and> \<not> bit c 1"
    unfolding zero bit_and_iff bit_masks by (metis less_2_cases_iff One_nat_def)
  have "n < 4 \<longleftrightarrow> n \<in> {0, 1, 2, 3}" for n :: nat by auto
  then have "b AND 15 = 0 \<longleftrightarrow> (\<forall>n\<in>{0, 1, 2, 3}. \<not> bit b n)"
    unfolding zero bit_and_iff bit_masks by blast
  then show "b AND 15 = 0 \<longleftrightarrow> \<not> bit b 0 \<and> \<not> bit b 1 \<and> \<not> bit b 2 \<and> \<not> bit b 3" by simp
qed

text \<open>The bytes a padded group leaves out are zero exactly when it has no stray bits.\<close>

lemma padded_bytes:
  "low_bytes (group_bits a b c 0) = [b0, b1, b2] \<Longrightarrow> b2 = 0 \<longleftrightarrow> c AND 3 = 0"
  "low_bytes (group_bits a b 0 0) = [b0, b1, b2] \<Longrightarrow> b1 = 0 \<and> b2 = 0 \<longleftrightarrow> b AND 15 = 0"
proof -
  assume "low_bytes (group_bits a b c 0) = [b0, b1, b2]"
  then have b2: "b2 = ucast (group_bits a b c 0)" by (simp add: low_bytes_def)
  show "b2 = 0 \<longleftrightarrow> c AND 3 = 0"
  proof
    assume "b2 = 0"
    then have "\<not> bit b2 6 \<and> \<not> bit b2 7" by simp
    then show "c AND 3 = 0" by (simp add: b2 group_bits_def group_bit_simps low_zero_bits)
  next
    assume "c AND 3 = 0"
    then show "b2 = 0" unfolding low_zero_bits b2 group_bits_def by (intro word8_eqI) (auto simp: group_bit_simps)
  qed
next
  assume "low_bytes (group_bits a b 0 0) = [b0, b1, b2]"
  then have b12: "b1 = ucast (drop_bit 8 (group_bits a b 0 0))" "b2 = ucast (group_bits a b 0 0)"
    by (simp_all add: low_bytes_def)
  show "b1 = 0 \<and> b2 = 0 \<longleftrightarrow> b AND 15 = 0"
  proof
    assume "b1 = 0 \<and> b2 = 0"
    then have "\<not> bit b1 4 \<and> \<not> bit b1 5 \<and> \<not> bit b1 6 \<and> \<not> bit b1 7" by simp
    then show "b AND 15 = 0" by (simp add: b12 group_bits_def group_bit_simps low_zero_bits)
  next
    assume "b AND 15 = 0"
    then show "b1 = 0 \<and> b2 = 0" unfolding low_zero_bits b12 group_bits_def
      by (intro conjI word8_eqI) (auto simp: group_bit_simps)
  qed
qed

lemma group_bits_sextets: "sextets b0 b1 b2 = [a, b, c, d] \<Longrightarrow> low_bytes (group_bits a b c d) = [b0, b1, b2]"
  using low_bytes_sextets [of b0 b1 b2] by simp

lemma decode_last_sound:
  assumes "decode_last c0 c1 c2 c3 = Some out"
  shows "rfc4648_encode out = [c0, c1, c2, c3]"
proof -
  let ?a = "base64_value c0" and ?b = "base64_value c1" and ?c = "base64_value c2" and ?d = "base64_value c3"
  have v: "b64_char (base64_value x) = x \<and> base64_value x < 64" if "base64_value x AND INVALID = 0" for x
    using that b64_char_value base64_value_valid by blast
  consider "c3 \<noteq> CHR ''=''" "(?a OR ?b OR ?c OR ?d) AND INVALID = 0" "out = low_bytes (group_bits ?a ?b ?c ?d)"
    | "c3 = CHR ''=''" "(?a OR ?b OR ?c) AND INVALID = 0" "?c AND 3 = 0" "out = take 2 (low_bytes (group_bits ?a ?b ?c 0))"
    | "c2 = CHR ''=''" "c3 = CHR ''=''" "(?a OR ?b) AND INVALID = 0" "?b AND 15 = 0" "out = take 1 (low_bytes (group_bits ?a ?b 0 0))"
    using assms by (auto simp: decode_last_def Let_def split: if_splits)
  then show ?thesis
  proof cases
    case 1
    then obtain b0 b1 b2 where g: "low_bytes (group_bits ?a ?b ?c ?d) = [b0, b1, b2]" using low_bytes_eq by blast
    have "sextets b0 b1 b2 = [?a, ?b, ?c, ?d]" using sextets_low_bytes [of ?a ?b ?c ?d] g 1(2) v by (simp add: or_INVALID)
    then show ?thesis using 1 g v by (simp add: or_INVALID)
  next
    case 2
    then obtain b0 b1 b2 where g: "low_bytes (group_bits ?a ?b ?c 0) = [b0, b1, b2]" using low_bytes_eq by blast
    have "b2 = 0" using padded_bytes(1) [OF g] 2(3) by simp
    moreover have "sextets b0 b1 b2 = [?a, ?b, ?c, 0]" using sextets_low_bytes [of ?a ?b ?c 0] g 2(2) v by (simp add: or_INVALID)
    ultimately show ?thesis using 2 g v by (simp add: or_INVALID)
  next
    case 3
    then obtain b0 b1 b2 where g: "low_bytes (group_bits ?a ?b 0 0) = [b0, b1, b2]" using low_bytes_eq by blast
    have "b1 = 0 \<and> b2 = 0" using padded_bytes(2) [OF g] 3(4) by simp
    moreover have "sextets b0 b1 b2 = [?a, ?b, 0, 0]" using sextets_low_bytes [of ?a ?b 0 0] g 3(3) v by (simp add: or_INVALID)
    ultimately show ?thesis using 3 g v by (simp add: or_INVALID)
  qed
qed

lemma b64_char_valid: "v < 64 \<Longrightarrow> base64_value (b64_char v) = v \<and> v AND INVALID = 0 \<and> b64_char v \<noteq> CHR ''=''"
  using b64_value_char [of v] base64_value_valid [of "b64_char v"] b64_char_not_pad by auto

lemma sextets_zero: "sextets b0 b1 0 = [a, b, c, d] \<Longrightarrow> d = 0" "sextets b0 0 0 = [a, b, c, d] \<Longrightarrow> c = 0 \<and> d = 0"
  by (auto simp: sextets_def)

lemma decode_last_complete:
  assumes "rfc4648_encode out = [c0, c1, c2, c3]"
  shows "decode_last c0 c1 c2 c3 = Some out"
proof (cases out rule: rfc4648_encode.cases)
  case (2 b0)
  obtain a b c d where s: "sextets b0 0 0 = [a, b, c, d]" "a < 64" "b < 64" using sextets_shape by metis
  then have g: "low_bytes (group_bits a b 0 0) = [b0, 0, 0]" using group_bits_sextets [of b0 0 0] sextets_zero(2) by metis
  then have "b AND 15 = 0" using padded_bytes(2) by blast
  then show ?thesis using assms 2 s g b64_char_valid by (auto simp: decode_last_def or_INVALID)
next
  case (3 b0 b1)
  obtain a b c d where s: "sextets b0 b1 0 = [a, b, c, d]" "a < 64" "b < 64" "c < 64" using sextets_shape by metis
  then have g: "low_bytes (group_bits a b c 0) = [b0, b1, 0]" using group_bits_sextets [of b0 b1 0] sextets_zero(1) by metis
  then have "c AND 3 = 0" using padded_bytes(1) by blast
  then show ?thesis using assms 3 s g b64_char_valid by (auto simp: decode_last_def or_INVALID)
next
  case (4 b0 b1 b2 rest)
  obtain a b c d where s: "sextets b0 b1 b2 = [a, b, c, d]" "a < 64" "b < 64" "c < 64" "d < 64" using sextets_shape by metis
  with assms 4 have "rfc4648_encode rest = []" by simp
  then have "rest = []" by (cases rest rule: rfc4648_encode.cases) (auto simp: sextets_def)
  then show ?thesis using assms 4 s group_bits_sextets [OF s(1)] b64_char_valid by (auto simp: decode_last_def or_INVALID)
qed (use assms in simp)

section \<open>The decoder accepts exactly the encodings\<close>

lemma rfc4648_alphabet: "3 dvd length bs \<Longrightarrow> set (rfc4648_encode bs) \<subseteq> set alphabet"
proof (induction bs rule: rfc4648_encode.induct)
  case (3 b0 b1)
  then have False by (simp add: dvd_def) presburger
  then show ?case ..
next
  case (4 b0 b1 b2 rest)
  from 4(2) have "3 dvd length rest" by simp presburger
  with 4(1) map_b64_char_sextets(1) [of b0 b1 b2] show ?case by simp
qed auto

text \<open>All but the last one to three bytes.\<close>

lemma encode_last_group:
  assumes "bs \<noteq> []"
  obtains xs out c0 c1 c2 c3 where "bs = xs @ out" "3 dvd length xs" "out \<noteq> []" "length out \<le> 3"
    "rfc4648_encode out = [c0, c1, c2, c3]" "rfc4648_encode bs = rfc4648_encode xs @ [c0, c1, c2, c3]"
proof -
  define k where "k = (length bs - 1) div 3 * 3"
  have k: "k < length bs" "length bs - k \<le> 3" using assms unfolding k_def by (cases "length bs"; simp; presburger)+
  have "length (drop k bs) \<noteq> 0" "length (drop k bs) \<le> 3" using k by simp_all
  then have "\<exists>c0 c1 c2 c3. rfc4648_encode (drop k bs) = [c0, c1, c2, c3]"
    by (cases "drop k bs" rule: rfc4648_encode.cases) (auto simp: sextets_def simp del: length_drop)
  moreover have "3 dvd length (take k bs)" using k by (simp add: k_def)
  ultimately show ?thesis
    using that [of "take k bs" "drop k bs"] k rfc4648_encode_append [of "take k bs" "drop k bs"] by auto
qed

lemma rfc4648_inj_groups:
  "3 dvd length xs \<Longrightarrow> length xs = length ys \<Longrightarrow> rfc4648_encode xs = rfc4648_encode ys \<Longrightarrow> xs = ys"
proof (induction xs arbitrary: ys rule: rfc4648_encode.induct)
  case (4 b0 b1 b2 rest)
  then obtain d0 d1 d2 ds where ys: "ys = d0 # d1 # d2 # ds" by (metis length_Suc_conv)
  from 4(2) have "3 dvd length rest" by simp presburger
  moreover have "map b64_char (sextets b0 b1 b2) = map b64_char (sextets d0 d1 d2)" "rfc4648_encode rest = rfc4648_encode ds"
    using 4(4) ys by (simp_all add: sextets_def)
  ultimately show ?case using 4(1) [of ds] 4(3) ys sextets_char_inj [of b0 b1 b2 d0 d1 d2] by simp
next
  case (3 b0 b1)
  then have False by (simp add: dvd_def) presburger
  then show ?case ..
qed auto

lemma quarter_step: "(4 + n) div 4 * 3 = n div 4 * 3 + (3 :: nat)"
  by presburger

lemma length_4_conv: "length xs = 4 \<longleftrightarrow> (\<exists>a b c d. xs = [a, b, c, d])"
  by (auto simp: numeral_eq_Suc length_Suc_conv)

lemma decode_payload_into_complete:
  assumes fits: "length (rfc4648_encode bs) div 4 * 3 \<le> length buf"
  shows "\<exists>buf'. decode_payload_into (rfc4648_encode bs) buf = Done (Some bs, buf')"
proof (cases "bs = []")
  case True
  then show ?thesis by (simp add: decode_payload_into_def INVALID_def)
next
  case False
  obtain xs out c0 c1 c2 c3 where bs: "bs = xs @ out" "3 dvd length xs" "out \<noteq> []" "length out \<le> 3"
    and out: "rfc4648_encode out = [c0, c1, c2, c3]" and s: "rfc4648_encode bs = rfc4648_encode xs @ [c0, c1, c2, c3]"
    using encode_last_group [OF False] .
  let ?body = "rfc4648_encode xs"
  have m: "length ?body mod 4 = 0" "length ?body div 4 * 3 = length xs"
    using bs(2) by (auto simp: length_rfc4648_encode elim!: dvdE)
  have w: "length xs + 3 \<le> length buf" using fits m by (simp add: s quarter_step)
  have m2: "0 + length ?body div 4 * 3 \<le> length buf" using m w by simp
  obtain ys iv where g: "decode_groups ?body buf 0 0 = (write_at 0 ys buf, 0 + length ys, iv)"
    "length ys = length ?body div 4 * 3"
    "iv AND INVALID = 0 \<longleftrightarrow> (0 :: u8) AND INVALID = 0 \<and> set ?body \<subseteq> set alphabet"
    "set ?body \<subseteq> set alphabet \<longrightarrow> ?body = rfc4648_encode ys"
    using decode_groups_spec [OF m(1) m2, of 0] by blast
  have "xs = ys" using rfc4648_inj_groups [OF bs(2)] g(2,4) m(2) rfc4648_alphabet [OF bs(2)] by simp
  moreover have "iv AND INVALID = 0" using g(3) rfc4648_alphabet [OF bs(2)] by simp
  ultimately have "decode_payload_into (?body @ [c0, c1, c2, c3]) buf =
      Done (Some (take (length xs + length out) (write_at (length xs) out (write_at 0 xs buf))),
        write_at (length xs) out (write_at 0 xs buf))"
    using g(1) m w bs(4) decode_last_complete [OF out]
    by (simp add: decode_payload_into_def Let_def quarter_step)
  then show ?thesis using bs(1,4) w unfolding s by (simp add: write_at_def)
qed

lemma decode_payload_into_sound:
  "\<exists>r buf'. decode_payload_into s buf = Done (r, buf') \<and> length buf' = length buf \<and>
    (\<forall>bs. r = Some bs \<longrightarrow> length s div 4 * 3 \<le> length buf \<and> s = rfc4648_encode bs)"
proof (cases "length s mod 4 \<noteq> 0 \<or> length buf < length s div 4 * 3")
  case fits: False
  define body where "body = take (length s - 4) s"
  have body: "length body mod 4 = 0" "0 + length body div 4 * 3 \<le> length buf"
    using fits by (auto simp: body_def min_def)
  obtain bs iv where g: "decode_groups body buf 0 0 = (write_at 0 bs buf, 0 + length bs, iv)"
    and lbs: "length bs = length body div 4 * 3"
    and iv: "iv AND INVALID = 0 \<Longrightarrow> body = rfc4648_encode bs"
    using decode_groups_spec [OF body, of 0] by blast
  have lw: "length (write_at 0 bs buf) = length buf" using body lbs by simp
  show ?thesis
  proof (cases "s = []")
    case True
    then show ?thesis by (simp add: decode_payload_into_def INVALID_def)
  next
    case False
    then have s4: "4 \<le> length s" using fits by (cases "length s < 4") auto
    then have "length (drop (length s - 4) s) = 4" by simp
    then obtain c0 c1 c2 c3 where last: "drop (length s - 4) s = [c0, c1, c2, c3]"
      using length_4_conv by metis
    have s: "s = body @ [c0, c1, c2, c3]" using last append_take_drop_id [of "length s - 4" s] by (simp add: body_def)
    have w: "length bs + 3 \<le> length buf" using fits lbs body(1) by (simp add: s quarter_step)
    show ?thesis
    proof (cases "iv AND INVALID = 0 \<and> decode_last c0 c1 c2 c3 \<noteq> None")
      case True
      then obtain out where out: "decode_last c0 c1 c2 c3 = Some out" by auto
      have lo: "length out \<le> 3" using out by (auto simp: decode_last_def low_bytes_def Let_def split: if_splits)
      have "rfc4648_encode (bs @ out) = s"
        using rfc4648_encode_append [of bs out] lbs iv True decode_last_sound [OF out] s by simp
      moreover have "decode_payload_into s buf =
          Done (Some (bs @ out), write_at (length bs) out (write_at 0 bs buf))"
        using fits last g True out lo w lw
        by (simp add: decode_payload_into_def body_def [symmetric] Let_def) (simp add: write_at_def)
      ultimately show ?thesis using fits lw lo w by auto
    next
      case False
      then show ?thesis using fits last g lw by (auto simp: decode_payload_into_def body_def [symmetric] Let_def)
    qed
  qed
qed (simp add: decode_payload_into_def)

section \<open>What the two crates promise\<close>

text \<open>
  The standard engine of the \<open>base64\<close> crate encodes as RFC 4648 says, decodes exactly the
  canonical encodings (padding required, no stray bits), and \<open>encode_slice\<close> fails only when
  the text does not fit.
\<close>

definition standard_engine :: "base64_engine \<Rightarrow> bool" where
  "standard_engine b64 \<longleftrightarrow>
     (\<forall>bytes. b64_encode b64 bytes = rfc4648_encode bytes) \<and>
     (\<forall>s bytes. b64_decode b64 s = Inr bytes \<longleftrightarrow> s = rfc4648_encode bytes) \<and>
     (\<forall>bytes n. b64_encode_slice b64 bytes n =
        (if length (rfc4648_encode bytes) \<le> n then Some (rfc4648_encode bytes) else None))"

text \<open>
  \<open>bincode\<close> serializes into a buffer exactly when the serialized value fits it, and reads
  back what it wrote.
\<close>

definition bincode_buffer :: "'w bincode \<Rightarrow> bool" where
  "bincode_buffer bin \<longleftrightarrow>
     (\<forall>w n. bin_serialize_into bin w n =
        (case bin_serialize bin w of Inr bytes \<Rightarrow> if length bytes \<le> n then Some bytes else None | Inl _ \<Rightarrow> None))"

definition bincode_inverse :: "'w bincode \<Rightarrow> bool" where
  "bincode_inverse bin \<longleftrightarrow>
     (\<forall>w bytes. bin_serialize bin w = Inr bytes \<longrightarrow> bin_deserialize bin bytes = Inr w)"

lemma decode_payload_general:
  assumes "standard_engine b64"
  shows "decode_payload b64 bin payload =
    Done (case b64_decode b64 payload of Inl err \<Rightarrow> Inl (''base64: '' @ err) | Inr bytes \<Rightarrow> deserialize bin bytes)"
proof -
  let ?buf = "replicate STACK_PAYLOAD 0"
  obtain r buf' where d: "decode_payload_into payload ?buf = Done (r, buf')"
    "\<forall>bs. r = Some bs \<longrightarrow> payload = rfc4648_encode bs"
    using decode_payload_into_sound [of payload ?buf] by blast
  show ?thesis
  proof (cases r)
    case (Some bs)
    with d(2) assms have "b64_decode b64 payload = Inr bs" by (simp add: standard_engine_def)
    then show ?thesis using d(1) Some by (simp add: decode_payload_def)
  qed (use d(1) in \<open>simp add: decode_payload_def split: sum.split\<close>)
qed

lemma encode_payload_with_general:
  assumes "standard_engine b64" "bincode_buffer bin"
  shows "encode_payload_with b64 bin w f =
    Done (case bin_serialize bin w of Inl err \<Rightarrow> Inl (''bincode: '' @ err) | Inr bytes \<Rightarrow> Inr (f (rfc4648_encode bytes)))"
proof (cases "bin_serialize_into bin w STACK_PAYLOAD")
  case None
  then show ?thesis using assms by (simp add: encode_payload_with_def standard_engine_def split: sum.split)
next
  case (Some raw)
  then have raw: "bin_serialize bin w = Inr raw" "length raw \<le> 192"
    using assms(2) by (auto simp: bincode_buffer_def STACK_PAYLOAD_def split: sum.splits if_splits)
  then have "(length raw + 2) div 3 \<le> 64" by linarith
  then have "length (rfc4648_encode raw) \<le> STACK_PAYLOAD div 3 * 4"
    by (simp add: length_rfc4648_encode STACK_PAYLOAD_def)
  then show ?thesis using Some raw assms(1) by (simp add: encode_payload_with_def standard_engine_def)
qed

text \<open>A decoder that satisfies the contract: the one of this file, with a buffer large enough.\<close>

definition ex_engine :: base64_engine where
  "ex_engine = \<lparr>
     b64_decode = (\<lambda>s. case decode_payload_into s (replicate (length s) 0) of
        Done (Some bytes, _) \<Rightarrow> Inr bytes | _ \<Rightarrow> Inl ''Invalid input''),
     b64_encode = rfc4648_encode,
     b64_encode_slice = (\<lambda>bytes n. if length (rfc4648_encode bytes) \<le> n then Some (rfc4648_encode bytes) else None)\<rparr>"

lemma ex_engine_standard: "standard_engine ex_engine"
proof -
  have "b64_decode ex_engine s = Inr bytes \<longleftrightarrow> s = rfc4648_encode bytes" for s bytes
  proof
    assume "b64_decode ex_engine s = Inr bytes"
    then show "s = rfc4648_encode bytes" using decode_payload_into_sound [of s "replicate (length s) 0"]
      by (auto simp: ex_engine_def split: exec.splits option.splits)
  next
    assume s: "s = rfc4648_encode bytes"
    have "length s div 4 * 3 \<le> length s" by presburger
    then show "b64_decode ex_engine s = Inr bytes"
      using decode_payload_into_complete [of bytes "replicate (length s) 0"] s by (auto simp: ex_engine_def)
  qed
  then show ?thesis by (simp add: standard_engine_def) (simp add: ex_engine_def)
qed

text \<open>A one-byte wire type.\<close>

definition ex_bincode :: "u8 bincode" where
  "ex_bincode = \<lparr>
     bin_serialize = (\<lambda>w. Inr [w]),
     bin_serialize_into = (\<lambda>w n. if 1 \<le> n then Some [w] else None),
     bin_deserialize = (\<lambda>bytes. case bytes of [w] \<Rightarrow> Inr w | _ \<Rightarrow> Inl ''trailing'')\<rparr>"

lemma ex_bincode_ok: "bincode_buffer ex_bincode" "bincode_inverse ex_bincode"
  by (simp_all add: bincode_buffer_def bincode_inverse_def ex_bincode_def)

section \<open>Properties\<close>

text \<open>
  Claim C4. The allocation-free decoder never panics, leaves the buffer's length alone, and
  accepts exactly the RFC 4648 encodings that fit the buffer, each decoded to the bytes it
  encodes.
\<close>

theorem decode_payload_into_exact:
  "\<exists>r buf'. decode_payload_into s buf = Done (r, buf') \<and> length buf' = length buf \<and>
    (\<forall>bs. (r = Some bs) = (length s div 4 * 3 \<le> length buf \<and> s = rfc4648_encode bs))"
proof -
  obtain r buf' where d: "decode_payload_into s buf = Done (r, buf')" "length buf' = length buf"
    "\<forall>bs. r = Some bs \<longrightarrow> length s div 4 * 3 \<le> length buf \<and> s = rfc4648_encode bs"
    using decode_payload_into_sound by blast
  moreover have "r = Some bs" if "length s div 4 * 3 \<le> length buf" "s = rfc4648_encode bs" for bs
    using decode_payload_into_complete [of bs buf] that d(1) by auto
  ultimately show ?thesis by blast
qed

text \<open>
  A value that serializes survives the wire: encoding never panics (the stack buffer
  always holds the base64 of a full stack buffer), it gives the base64 of the serialized bytes
  whichever of the two buffers was used, and decoding the payload, by the fast path or by the
  general decoder, gives the value back.
\<close>

theorem payload_round_trip:
  assumes "standard_engine b64" "bincode_buffer bin" "bincode_inverse bin" "bin_serialize bin w = Inr bytes"
  shows "encode_payload b64 bin w = Done (Inr (rfc4648_encode bytes)) \<and>
    decode_payload b64 bin (rfc4648_encode bytes) = Done (Inr w)"
proof -
  have "b64_decode b64 (rfc4648_encode bytes) = Inr bytes" using assms(1) by (simp add: standard_engine_def)
  moreover have "deserialize bin bytes = Inr w" using assms(3,4) by (simp add: bincode_inverse_def deserialize_def)
  ultimately show ?thesis
    using assms by (simp add: encode_payload_def encode_payload_with_general decode_payload_general)
qed

theorem payload_round_trip_witness:
  "encode_payload ex_engine ex_bincode 7 = Done (Inr ''Bw=='') \<and> decode_payload ex_engine ex_bincode ''Bw=='' = Done (Inr 7)"
proof -
  have "rfc4648_encode [7] = ''Bw==''" by code_simp
  moreover have "bin_serialize ex_bincode 7 = Inr [7]" by (simp add: ex_bincode_def)
  ultimately show ?thesis
    using payload_round_trip [OF ex_engine_standard ex_bincode_ok, of 7 "[7]"] by simp
qed

text \<open>
  The fast path of \<open>decode_payload\<close> cannot be observed: for every payload the
  result, errors included, is that of the general base64 decoder followed by \<open>bincode\<close>.
\<close>

theorem decode_fast_path_transparent:
  assumes "standard_engine b64"
  shows "decode_payload b64 bin payload =
    Done (case b64_decode b64 payload of Inl err \<Rightarrow> Inl (''base64: '' @ err) | Inr bytes \<Rightarrow> deserialize bin bytes)"
  using assms by (rule decode_payload_general)

theorem decode_fast_path_transparent_witness:
  "decode_payload ex_engine ex_bincode ''Bw='' = Done (Inl ''base64: Invalid input'')"
proof -
  have "b64_decode ex_engine ''Bw='' = Inl ''Invalid input''" by (simp add: ex_engine_def decode_payload_into_def)
  then show ?thesis using decode_fast_path_transparent [OF ex_engine_standard, of ex_bincode "''Bw=''"] by simp
qed

text \<open>
  The scan of \<open>find_section\<close>, which never splits the header, returns the payload
  of the first section of that name among the header's sections, for every header and every name
  the syntax allows.
\<close>

theorem find_section_is_first_section:
  assumes "plain_name name"
  shows "find_section header name = map_of (sections header) name"
  using assms by (rule find_section_map_of)

theorem find_section_is_first_section_witness:
  "find_section ''a:x..ab:y.b.ab:z'' ''ab'' = Some ''y''"
proof -
  have "map_of (sections ''a:x..ab:y.b.ab:z'') ''ab'' = Some ''y''" by code_simp
  moreover have "plain_name ''ab''" by (simp add: plain_name_def SECTION_SEPARATOR_def NAME_SEPARATOR_def)
  ultimately show ?thesis using find_section_is_first_section [of "''ab''"] by simp
qed

end
