(* ===== verification/Wire_Sections.thy ===== *)
theory Wire_Sections
  imports Wire_Codec
begin

text \<open>
  The typed view of the header, \<open>libs/rpcstack/src/wire.rs\<close>: \<open>WireIn\<close> reads the sections
  of a received header, \<open>WireOut\<close> builds the header of an outgoing message in place, and the
  metadata helpers combine the two. A module \<open>M\<close> is its section name \<open>M::NAME\<close> and the
  codec of \<open>M::Wire\<close>. Header maps belong to the crates \<open>http\<close> and \<open>tonic\<close>; they are the
  parameter \<open>metadata_ops\<close>.
\<close>

section \<open>Errors and names\<close>

text \<open>
  An error carries its text, except that the text of a value that is not UTF-8 is the standard
  library's.
\<close>

datatype wire_error = NotUtf8 | WireError string

definition wire_error_display :: "string \<Rightarrow> string" where
  "wire_error_display detail =
     ''invalid module wire data in header `'' @ HEADER_NAME @
     ''`; all binaries of a deployment must be built from the same policy stack: '' @ detail"

definition is_ascii_alphanumeric :: "char \<Rightarrow> bool" where
  "is_ascii_alphanumeric c \<longleftrightarrow>
     (let b = (of_char c :: nat) in
      (48 \<le> b \<and> b \<le> 57) \<or> (65 \<le> b \<and> b \<le> 90) \<or> (97 \<le> b \<and> b \<le> 122))"

definition valid_name :: "string \<Rightarrow> bool" where
  "valid_name name \<longleftrightarrow> name \<noteq> '''' \<and>
     list_all (\<lambda>b. is_ascii_alphanumeric b \<or> b = CHR ''_'' \<or> b = CHR ''-'') name"

definition assert_valid_name :: "string \<Rightarrow> unit exec" where
  "assert_valid_name name = (if valid_name name then Done () else Panic)"

text \<open>\<open>str::from_utf8\<close>, by the table of well-formed byte sequences of the Unicode standard.\<close>

definition is_cont :: "char \<Rightarrow> bool" where
  "is_cont c \<longleftrightarrow> 0x80 \<le> (of_char c :: nat) \<and> (of_char c :: nat) \<le> 0xBF"

definition in_range :: "nat \<Rightarrow> nat \<Rightarrow> char \<Rightarrow> bool" where
  "in_range lo hi c \<longleftrightarrow> lo \<le> of_char c \<and> of_char c \<le> hi"

definition second_ok :: "nat \<Rightarrow> char \<Rightarrow> bool" where
  "second_ok first c =
     (if first = 0xE0 then in_range 0xA0 0xBF c
      else if first = 0xED then in_range 0x80 0x9F c
      else if first = 0xF0 then in_range 0x90 0xBF c
      else if first = 0xF4 then in_range 0x80 0x8F c
      else is_cont c)"

text \<open>What follows the first character, if the text begins with a well-formed one.\<close>

fun utf8_rest :: "string \<Rightarrow> string option" where
  "utf8_rest [] = None"
| "utf8_rest (c # cs) =
     (let b = (of_char c :: nat) in
      if b < 0x80 then Some cs
      else if 0xC2 \<le> b \<and> b \<le> 0xDF then
        (case cs of c1 # r \<Rightarrow> if is_cont c1 then Some r else None | _ \<Rightarrow> None)
      else if 0xE0 \<le> b \<and> b \<le> 0xEF then
        (case cs of c1 # c2 # r \<Rightarrow> if second_ok b c1 \<and> is_cont c2 then Some r else None | _ \<Rightarrow> None)
      else if 0xF0 \<le> b \<and> b \<le> 0xF4 then
        (case cs of c1 # c2 # c3 # r \<Rightarrow> if second_ok b c1 \<and> is_cont c2 \<and> is_cont c3 then Some r else None | _ \<Rightarrow> None)
      else None)"

lemma utf8_rest_shorter: "utf8_rest s = Some r \<Longrightarrow> length r < length s"
  by (cases s) (auto simp: Let_def split: if_splits list.splits)

function valid_utf8 :: "string \<Rightarrow> bool" where
  "valid_utf8 s = (s = [] \<or> (case utf8_rest s of None \<Rightarrow> False | Some r \<Rightarrow> valid_utf8 r))"
  by pat_completeness auto
termination
  by (relation "measure length") (auto simp: utf8_rest_shorter)

declare valid_utf8.simps [simp del]

section \<open>Reading\<close>

record wire_in =
  wi_sections :: string

definition wi_default :: wire_in where
  "wi_default = \<lparr>wi_sections = ''''\<rparr>"

definition from_header_bytes :: "string \<Rightarrow> wire_error + wire_in" where
  "from_header_bytes v = (if valid_utf8 v then Inr \<lparr>wi_sections = v\<rparr> else Inl NotUtf8)"

text \<open>A header map: look up, insert and remove a value by name, and which bytes are a value.\<close>

record 'm metadata_ops =
  md_get :: "'m \<Rightarrow> string \<Rightarrow> string option"
  md_insert :: "'m \<Rightarrow> string \<Rightarrow> string \<Rightarrow> 'm"
  md_remove :: "'m \<Rightarrow> string \<Rightarrow> 'm"
  md_value_ok :: "string \<Rightarrow> bool"

definition wi_from_headers :: "'m metadata_ops \<Rightarrow> 'm \<Rightarrow> wire_error + wire_in" where
  "wi_from_headers ops headers =
     (case md_get ops headers HEADER_NAME of None \<Rightarrow> Inr wi_default | Some v \<Rightarrow> from_header_bytes v)"

definition wi_from_metadata :: "'m metadata_ops \<Rightarrow> 'm \<Rightarrow> wire_error + wire_in" where
  "wi_from_metadata ops metadata =
     (case md_get ops metadata HEADER_NAME of None \<Rightarrow> Inr wi_default | Some v \<Rightarrow> from_header_bytes v)"

definition decode_present :: "base64_engine \<Rightarrow> 'w bincode \<Rightarrow> wire_in \<Rightarrow> string \<Rightarrow> (wire_error + 'w option) exec" where
  "decode_present b64 bin w name =
     (case find_section (wi_sections w) name of
        None \<Rightarrow> Done (Inr None)
      | Some payload \<Rightarrow>
          map_exec (\<lambda>r. case r of Inl err \<Rightarrow> Inl (WireError (name @ '': '' @ err)) | Inr v \<Rightarrow> Inr (Some v))
            (decode_payload b64 bin payload))"

definition wi_get :: "base64_engine \<Rightarrow> 'w bincode \<Rightarrow> string \<Rightarrow> wire_in \<Rightarrow> (wire_error + 'w option) exec" where
  "wi_get b64 bin NAME w = decode_present b64 bin w NAME"

datatype encoded_section = EncodedSection (encoded_payload: string)

definition wi_get_with_encoded ::
    "base64_engine \<Rightarrow> 'w bincode \<Rightarrow> string \<Rightarrow> wire_in \<Rightarrow> (wire_error + ('w \<times> encoded_section) option) exec" where
  "wi_get_with_encoded b64 bin NAME w =
     (case find_section (wi_sections w) NAME of
        None \<Rightarrow> Done (Inr None)
      | Some payload \<Rightarrow>
          map_exec (\<lambda>r. case r of
              Inl err \<Rightarrow> Inl (WireError (NAME @ '': '' @ err))
            | Inr v \<Rightarrow> Inr (Some (v, EncodedSection payload)))
            (decode_payload b64 bin payload))"

definition wi_display :: "base64_engine \<Rightarrow> wire_in \<Rightarrow> string" where
  "wi_display b64 w = describe b64 (wi_sections w)"

section \<open>Writing\<close>

record wire_out =
  wo_header :: string

definition wo_new :: wire_out where
  "wo_new = \<lparr>wo_header = ''''\<rparr>"

definition wo_from_metadata :: "'m metadata_ops \<Rightarrow> 'm \<Rightarrow> wire_error + wire_out" where
  "wo_from_metadata ops metadata =
     (case wi_from_metadata ops metadata of
        Inl e \<Rightarrow> Inl e
      | Inr input \<Rightarrow> Inr \<lparr>wo_header = wi_sections input\<rparr>)"

text \<open>The byte range of the section called \<open>name\<close>: start and end.\<close>

fun wo_find_loop :: "string list \<Rightarrow> nat \<Rightarrow> string \<Rightarrow> (nat \<times> nat) option" where
  "wo_find_loop [] start name = None"
| "wo_find_loop (s # ss) start name =
     (let end = start + length s in
      if hd (split_on CHR '':'' s) = name then Some (start, end)
      else wo_find_loop ss (end + 1) name)"

definition wo_find :: "wire_out \<Rightarrow> string \<Rightarrow> (nat \<times> nat) option" where
  "wo_find out name = wo_find_loop (split_on CHR ''.'' (wo_header out)) 0 name"

definition wo_set :: "wire_out \<Rightarrow> string \<Rightarrow> string \<Rightarrow> wire_out" where
  "wo_set out name payload =
     (case wo_find out name of
        Some (at, end) \<Rightarrow>
          let section = name @ [CHR '':''] @ payload;
              drained = take at (wo_header out) @ drop end (wo_header out) in
          out\<lparr>wo_header := take at drained @ section @ drop at drained\<rparr>
      | None \<Rightarrow>
          let h = (if wo_header out \<noteq> '''' then wo_header out @ [SECTION_SEPARATOR] else wo_header out) in
          out\<lparr>wo_header := h @ name @ [NAME_SEPARATOR] @ payload\<rparr>)"

definition wo_put_named :: "base64_engine \<Rightarrow> 'w bincode \<Rightarrow> string \<Rightarrow> 'w \<Rightarrow> wire_out \<Rightarrow> (wire_error + wire_out) exec" where
  "wo_put_named b64 bin name wire out =
     map_exec (\<lambda>r. case r of Inl err \<Rightarrow> Inl (WireError (name @ '': '' @ err)) | Inr out' \<Rightarrow> Inr out')
       (encode_payload_with b64 bin wire (\<lambda>payload. wo_set out name payload))"

definition wo_put :: "base64_engine \<Rightarrow> 'w bincode \<Rightarrow> string \<Rightarrow> 'w \<Rightarrow> wire_out \<Rightarrow> (wire_error + wire_out) exec" where
  "wo_put b64 bin NAME wire out = wo_put_named b64 bin NAME wire out"

definition wo_put_encoded :: "string \<Rightarrow> encoded_section \<Rightarrow> wire_out \<Rightarrow> wire_out" where
  "wo_put_encoded NAME payload out = wo_set out NAME (encoded_payload payload)"

definition wo_header_value :: "wire_out \<Rightarrow> string exec" where
  "wo_header_value out = (if valid_utf8 (wo_header out) then Done (wo_header out) else Panic)"

definition wo_install :: "'m metadata_ops \<Rightarrow> wire_out \<Rightarrow> 'm \<Rightarrow> 'm exec" where
  "wo_install ops out metadata =
     (if wo_header out = '''' then Done (md_remove ops metadata HEADER_NAME)
      else if md_value_ok ops (wo_header out) then Done (md_insert ops metadata HEADER_NAME (wo_header out))
      else Panic)"

section \<open>Metadata helpers\<close>

definition peek :: "base64_engine \<Rightarrow> 'w bincode \<Rightarrow> string \<Rightarrow> 'm metadata_ops \<Rightarrow> 'm \<Rightarrow> (wire_error + 'w option) exec" where
  "peek b64 bin NAME ops headers =
     (case wi_from_headers ops headers of Inl e \<Rightarrow> Done (Inl e) | Inr w \<Rightarrow> wi_get b64 bin NAME w)"

definition get_from_metadata ::
    "base64_engine \<Rightarrow> 'w bincode \<Rightarrow> string \<Rightarrow> 'm metadata_ops \<Rightarrow> 'm \<Rightarrow> (wire_error + 'w option) exec" where
  "get_from_metadata b64 bin NAME ops metadata =
     (case wi_from_metadata ops metadata of Inl e \<Rightarrow> Done (Inl e) | Inr w \<Rightarrow> wi_get b64 bin NAME w)"

text \<open>The metadata afterwards is the second component; an error leaves it unchanged.\<close>

definition set_in_metadata ::
    "base64_engine \<Rightarrow> 'w bincode \<Rightarrow> string \<Rightarrow> 'm metadata_ops \<Rightarrow> 'm \<Rightarrow> 'w \<Rightarrow> ((wire_error + unit) \<times> 'm) exec" where
  "set_in_metadata b64 bin NAME ops metadata wire =
     (case wo_from_metadata ops metadata of
        Inl e \<Rightarrow> Done (Inl e, metadata)
      | Inr out \<Rightarrow>
          bind_exec (wo_put b64 bin NAME wire out) (\<lambda>r. case r of
              Inl e \<Rightarrow> Done (Inl e, metadata)
            | Inr out' \<Rightarrow> map_exec (\<lambda>m. (Inr (), m)) (wo_install ops out' metadata)))"

definition header_value_with :: "base64_engine \<Rightarrow> 'w bincode \<Rightarrow> string \<Rightarrow> 'w \<Rightarrow> (wire_error + string) exec" where
  "header_value_with b64 bin NAME wire =
     bind_exec (wo_put b64 bin NAME wire wo_new) (\<lambda>r. case r of
         Inl e \<Rightarrow> Done (Inl e)
       | Inr out \<Rightarrow> map_exec Inr (wo_header_value out))"

section \<open>Sections as pieces of the header\<close>

definition dotted :: "string list \<Rightarrow> string" where
  "dotted ss = concat (map (\<lambda>s. s @ [SECTION_SEPARATOR]) ss)"

lemma dotted_simps [simp]: "dotted [] = []" "dotted (s # ss) = s @ SECTION_SEPARATOR # dotted ss"
  by (simp_all add: dotted_def)

lemma split_dotted:
  "\<forall>s\<in>set ss. SECTION_SEPARATOR \<notin> set s \<Longrightarrow> split_on SECTION_SEPARATOR (dotted ss @ t) = ss @ split_on SECTION_SEPARATOR t"
  by (induction ss) (auto simp: split_on_append_sep)

text \<open>Cutting a header at a piece: what precedes it, the piece, and what follows its dot.\<close>

lemma split_pieces:
  assumes "split_on SECTION_SEPARATOR h = pre @ s # post"
  obtains tail where "h = dotted pre @ s @ tail"
    "\<And>t. SECTION_SEPARATOR \<notin> set t \<Longrightarrow> split_on SECTION_SEPARATOR (dotted pre @ t @ tail) = pre @ t # post"
  using assms
proof (induction h arbitrary: pre thesis rule: header_induct)
  case (last h)
  then have e: "pre = []" "s = h" "post = []" by (auto simp: Cons_eq_append_conv)
  then show ?case using last(2) [of "[]"] by simp
next
  case (step u rest)
  then have "u # split_on SECTION_SEPARATOR rest = pre @ s # post" by (simp add: split_on_append_sep)
  then consider "pre = []" "s = u" "post = split_on SECTION_SEPARATOR rest"
    | pre' where "pre = u # pre'" "split_on SECTION_SEPARATOR rest = pre' @ s # post"
    by (auto simp: Cons_eq_append_conv)
  then show ?case
  proof cases
    case 1
    then show ?thesis using step(3) [of "SECTION_SEPARATOR # rest"] by (simp add: split_on_append_sep)
  next
    case 2
    obtain tail where t: "rest = dotted pre' @ s @ tail"
      "\<And>t. SECTION_SEPARATOR \<notin> set t \<Longrightarrow> split_on SECTION_SEPARATOR (dotted pre' @ t @ tail) = pre' @ t # post"
      using step(2) [OF _ 2(2)] by blast
    then show ?thesis using step(3) [of tail] 2(1) split_on_append_sep [OF step(1)] by simp
  qed
qed

definition piece_name :: "string \<Rightarrow> string" where
  "piece_name s = hd (split_on CHR '':'' s)"

lemma wo_find_loop_None: "wo_find_loop ps start name = None \<longleftrightarrow> name \<notin> piece_name ` set ps"
  by (induction ps start name rule: wo_find_loop.induct) (auto simp: Let_def piece_name_def)

lemma wo_find_loop_Some:
  "wo_find_loop ps start name = Some (a, b) \<Longrightarrow>
   \<exists>pre s post. ps = pre @ s # post \<and> piece_name s = name \<and> name \<notin> piece_name ` set pre \<and>
     a = start + length (dotted pre) \<and> b = a + length s"
proof (induction ps start name rule: wo_find_loop.induct)
  case (2 p ps start name)
  show ?case
  proof (cases "piece_name p = name")
    case True
    with 2(2) show ?thesis
      by (intro exI [of _ "[]"] exI [of _ p] exI [of _ ps]) (auto simp: Let_def piece_name_def)
  next
    case False
    with 2(2) have "wo_find_loop ps (start + length p + 1) name = Some (a, b)" by (simp add: Let_def piece_name_def)
    then obtain pre s post where "ps = pre @ s # post \<and> piece_name s = name \<and> name \<notin> piece_name ` set pre \<and>
        a = start + length p + 1 + length (dotted pre) \<and> b = a + length s"
      using 2(1) [OF refl] False by (auto simp: piece_name_def)
    then show ?thesis using False by (intro exI [of _ "p # pre"] exI [of _ s] exI [of _ post]) auto
  qed
qed simp

lemma colon_dot: "CHR '':'' = NAME_SEPARATOR" "CHR ''.'' = SECTION_SEPARATOR"
  by (simp_all add: NAME_SEPARATOR_def SECTION_SEPARATOR_def)

lemma piece_name_section: "plain_name name \<Longrightarrow> (piece_name s = name) = (section_payload name s \<noteq> None)"
proof -
  assume n: "plain_name name"
  show ?thesis
  proof (cases "NAME_SEPARATOR \<in> set s")
    case True
    then obtain u p where s: "s = u @ NAME_SEPARATOR # p" "NAME_SEPARATOR \<notin> set u" by (metis split_list_first)
    then have "piece_name s = u" by (simp add: piece_name_def colon_dot split_on_append_sep)
    then show ?thesis using n s(2) by (simp add: section_payload_eq s(1) split_once_append)
  next
    case False
    then have "piece_name s = s" by (simp add: piece_name_def colon_dot)
    moreover have "split_once NAME_SEPARATOR s = None" using False by simp
    ultimately show ?thesis using n by (auto simp: section_payload_eq plain_name_def simp del: split_once_None)
  qed
qed

text \<open>The first payload among the pieces.\<close>

fun first_payload :: "string \<Rightarrow> string list \<Rightarrow> string option" where
  "first_payload name [] = None"
| "first_payload name (s # ss) = (case section_payload name s of Some p \<Rightarrow> Some p | None \<Rightarrow> first_payload name ss)"

lemma find_section_pieces: "find_section h name = first_payload name (split_on SECTION_SEPARATOR h)"
  by (induction h rule: header_induct)
    (auto simp: find_section_last find_section_step split_on_append_sep split: option.split)

lemma first_payload_append:
  "first_payload name (xs @ ys) = (case first_payload name xs of Some p \<Rightarrow> Some p | None \<Rightarrow> first_payload name ys)"
  by (induction xs) (auto split: option.split)

lemma first_payload_None: "plain_name name \<Longrightarrow> first_payload name ss = None \<longleftrightarrow> name \<notin> piece_name ` set ss"
proof (induction ss)
  case (Cons a ss)
  then show ?case using piece_name_section [of name a] by (auto split: option.split)
qed simp

lemma section_payload_set: "plain_name name \<Longrightarrow> plain_name m \<Longrightarrow>
    section_payload m (name @ NAME_SEPARATOR # payload) = (if m = name then Some payload else None)"
  by (auto simp: section_payload_eq split_once_append plain_name_def)

text \<open>\<open>set\<close> replaces the first piece of that name, or appends one.\<close>

lemma wo_set_pieces:
  assumes "plain_name name" "SECTION_SEPARATOR \<notin> set payload"
  obtains (replace) pre s post where "split_on SECTION_SEPARATOR (wo_header out) = pre @ s # post"
      "piece_name s = name" "name \<notin> piece_name ` set pre"
      "split_on SECTION_SEPARATOR (wo_header (wo_set out name payload)) = pre @ (name @ NAME_SEPARATOR # payload) # post"
  | (append) pre where "name \<notin> piece_name ` set (split_on SECTION_SEPARATOR (wo_header out))"
      "pre = (if wo_header out = [] then [] else split_on SECTION_SEPARATOR (wo_header out))"
      "split_on SECTION_SEPARATOR (wo_header (wo_set out name payload)) = pre @ [name @ NAME_SEPARATOR # payload]"
proof (cases "wo_find out name")
  case (Some r)
  obtain a b where ab: "wo_find out name = Some (a, b)" using Some by (cases r) auto
  then obtain pre s post where p: "split_on SECTION_SEPARATOR (wo_header out) = pre @ s # post" "piece_name s = name"
      "name \<notin> piece_name ` set pre" "a = length (dotted pre)" "b = a + length s"
    using wo_find_loop_Some [of _ 0 name a b] unfolding wo_find_def colon_dot by fastforce
  obtain tail where t: "wo_header out = dotted pre @ s @ tail"
    "\<And>t. SECTION_SEPARATOR \<notin> set t \<Longrightarrow> split_on SECTION_SEPARATOR (dotted pre @ t @ tail) = pre @ t # post"
    using split_pieces [OF p(1)] by blast
  have "wo_header (wo_set out name payload) = dotted pre @ (name @ NAME_SEPARATOR # payload) @ tail"
    using ab p(4,5) t(1) by (simp add: wo_set_def Let_def colon_dot)
  moreover have "SECTION_SEPARATOR \<notin> set (name @ NAME_SEPARATOR # payload)"
    using assms by (auto simp: plain_name_def SECTION_SEPARATOR_def NAME_SEPARATOR_def)
  ultimately show ?thesis using replace [OF p(1-3)] t(2) by metis
next
  case None
  then have n: "name \<notin> piece_name ` set (split_on SECTION_SEPARATOR (wo_header out))"
    by (simp add: wo_find_def wo_find_loop_None colon_dot)
  have sec: "SECTION_SEPARATOR \<notin> set (name @ NAME_SEPARATOR # payload)"
    using assms by (auto simp: plain_name_def SECTION_SEPARATOR_def NAME_SEPARATOR_def)
  have "split_on SECTION_SEPARATOR (h @ SECTION_SEPARATOR # t) = split_on SECTION_SEPARATOR h @ [t]"
    if "SECTION_SEPARATOR \<notin> set t" for h t
    using that by (induction h rule: header_induct) (simp_all add: split_on_append_sep)
  from this [OF sec] show ?thesis using append [OF n refl] None sec
    by (simp add: wo_set_def Let_def)
qed

lemma lookup_wo_set:
  assumes "plain_name name" "plain_name m" "SECTION_SEPARATOR \<notin> set payload"
  shows "find_section (wo_header (wo_set out name payload)) m =
    (if m = name then Some payload else find_section (wo_header out) m)"
proof (rule wo_set_pieces [OF assms(1,3), of out])
  fix pre s post
  assume p: "split_on SECTION_SEPARATOR (wo_header out) = pre @ s # post" "piece_name s = name" "name \<notin> piece_name ` set pre"
    "split_on SECTION_SEPARATOR (wo_header (wo_set out name payload)) = pre @ (name @ NAME_SEPARATOR # payload) # post"
  have "section_payload m s = None" if "m \<noteq> name" using piece_name_section [OF assms(2), of s] p(2) that by simp
  moreover have "first_payload name pre = None" using first_payload_None [OF assms(1)] p(3) by simp
  ultimately show ?thesis using assms(1,2)
    by (auto simp: find_section_pieces p(1,4) first_payload_append section_payload_set split: option.split)
next
  fix pre
  assume p: "name \<notin> piece_name ` set (split_on SECTION_SEPARATOR (wo_header out))"
    "pre = (if wo_header out = [] then [] else split_on SECTION_SEPARATOR (wo_header out))"
    "split_on SECTION_SEPARATOR (wo_header (wo_set out name payload)) = pre @ [name @ NAME_SEPARATOR # payload]"
  have "section_payload m [] = None" using assms(2) by (auto simp: section_payload_eq)
  then have "first_payload m pre = first_payload m (split_on SECTION_SEPARATOR (wo_header out))" by (simp add: p(2))
  moreover have "first_payload name (split_on SECTION_SEPARATOR (wo_header out)) = None"
    using first_payload_None [OF assms(1)] p(1) by simp
  ultimately show ?thesis using assms(1,2)
    by (auto simp: find_section_pieces p(3) first_payload_append section_payload_set split: option.split)
qed

section \<open>The contract of a section store\<close>

text \<open>
  What the modules rely on: a section reads back as it was written, and writing one leaves the
  others alone.
\<close>

locale section_store =
  fixes lookup :: "'h \<Rightarrow> string \<Rightarrow> string option"
    and set :: "'h \<Rightarrow> string \<Rightarrow> string \<Rightarrow> 'h"
    and name_ok :: "string \<Rightarrow> bool"
    and payload_ok :: "string \<Rightarrow> bool"
  assumes lookup_set: "name_ok n \<Longrightarrow> name_ok m \<Longrightarrow> payload_ok p \<Longrightarrow>
    lookup (set h n p) m = (if m = n then Some p else lookup h m)"
begin

text \<open>Writing a list of sections one after the other, as the hooks of a stack do.\<close>

definition set_all :: "'h \<Rightarrow> (string \<times> string) list \<Rightarrow> 'h" where
  "set_all h nps = foldl (\<lambda>h (n, p). set h n p) h nps"

lemma lookup_set_all:
  "\<forall>(n, p)\<in>List.set nps. name_ok n \<and> payload_ok p \<Longrightarrow> name_ok m \<Longrightarrow>
   lookup (set_all h nps) m = (case map_of (rev nps) m of Some p \<Rightarrow> Some p | None \<Rightarrow> lookup h m)"
proof (induction nps arbitrary: h)
  case (Cons np nps)
  obtain n p where np: "np = (n, p)" by fastforce
  with Cons.prems have "lookup (set h n p) m = (if m = n then Some p else lookup h m)"
    by (intro lookup_set) auto
  with Cons np show ?case by (auto simp: set_all_def map_add_def split: option.split)
qed (simp add: set_all_def)

end

definition payload_ok :: "string \<Rightarrow> bool" where
  "payload_ok payload \<longleftrightarrow> SECTION_SEPARATOR \<notin> set payload"

interpretation wo: section_store "\<lambda>out. find_section (wo_header out)" wo_set plain_name payload_ok
  by unfold_locales (auto simp: lookup_wo_set payload_ok_def)

lemma valid_name_plain: "valid_name name \<Longrightarrow> plain_name name"
  by (auto simp: valid_name_def plain_name_def list_all_iff is_ascii_alphanumeric_def
      SECTION_SEPARATOR_def NAME_SEPARATOR_def)

lemma rfc4648_chars: "set (rfc4648_encode bytes) \<subseteq> set alphabet \<union> {CHR ''=''}"
proof (induction bytes rule: rfc4648_encode.induct)
  case (2 b0)
  then show ?case using map_b64_char_sextets(1) [of b0 0 0] by (auto dest!: in_set_takeD)
next
  case (3 b0 b1)
  then show ?case using map_b64_char_sextets(1) [of b0 b1 0] by (auto dest!: in_set_takeD)
next
  case (4 b0 b1 b2 rest)
  then show ?case using map_b64_char_sextets(1) [of b0 b1 b2] by auto
qed simp

lemma rfc4648_payload_ok: "payload_ok (rfc4648_encode bytes)"
  using rfc4648_chars [of bytes] alphabet_facts(4) by (auto simp: payload_ok_def SECTION_SEPARATOR_def)

lemma wo_put_Done:
  assumes "standard_engine b64" "bincode_buffer bin" "bin_serialize bin w = Inr bytes"
  shows "wo_put b64 bin NAME w out = Done (Inr (wo_set out NAME (rfc4648_encode bytes)))"
  using assms by (simp add: wo_put_def wo_put_named_def encode_payload_with_general)

lemma wi_get_encoded:
  assumes "standard_engine b64" "bincode_inverse bin" "bin_serialize bin w = Inr bytes"
    "find_section (wi_sections win) NAME = Some (rfc4648_encode bytes)"
  shows "wi_get b64 bin NAME win = Done (Inr (Some w))"
proof -
  have "b64_decode b64 (rfc4648_encode bytes) = Inr bytes" using assms(1) by (simp add: standard_engine_def)
  then show ?thesis using assms
    by (simp add: wi_get_def decode_present_def decode_payload_general bincode_inverse_def deserialize_def)
qed

text \<open>A wire type whose values can all be serialized: a section written with it reads back.\<close>

definition bincode_total :: "'w bincode \<Rightarrow> bool" where
  "bincode_total bin \<longleftrightarrow> bincode_buffer bin \<and> bincode_inverse bin \<and> (\<forall>w. \<exists>bytes. bin_serialize bin w = Inr bytes)"

lemma put_then_get:
  assumes "standard_engine b64" "bincode_total bin" "valid_name NAME"
  obtains out' where "wo_put b64 bin NAME w out = Done (Inr out')"
    "wi_get b64 bin NAME \<lparr>wi_sections = wo_header out'\<rparr> = Done (Inr (Some w))"
    "\<And>n. valid_name n \<Longrightarrow> n \<noteq> NAME \<Longrightarrow> find_section (wo_header out') n = find_section (wo_header out) n"
proof -
  obtain bytes where bytes: "bin_serialize bin w = Inr bytes" using assms(2) by (auto simp: bincode_total_def)
  let ?out = "wo_set out NAME (rfc4648_encode bytes)"
  have ok: "bincode_buffer bin" "bincode_inverse bin" using assms(2) by (simp_all add: bincode_total_def)
  have sep: "SECTION_SEPARATOR \<notin> set (rfc4648_encode bytes)" using rfc4648_payload_ok [of bytes] by (simp add: payload_ok_def)
  note lookup = lookup_wo_set [OF valid_name_plain [OF assms(3)] valid_name_plain sep, of _ out]
  from wo_put_Done [OF assms(1) ok(1) bytes] wi_get_encoded [OF assms(1) ok(2) bytes] lookup assms(3)
  show thesis by (intro that [of ?out]) auto
qed

section \<open>Properties\<close>

text \<open>
  Claim C33. Writing sections with \<open>WireOut::set\<close>, in any order and any number of times, over
  any header: every valid name then reads as the payload last written under it, and a name that
  was not written reads as before.
\<close>

theorem wire_out_sections:
  assumes "\<forall>(n, p)\<in>set nps. valid_name n \<and> payload_ok p" "valid_name m"
  shows "find_section (wo_header (foldl (\<lambda>out (n, p). wo_set out n p) out nps)) m =
    (case map_of (rev nps) m of Some p \<Rightarrow> Some p | None \<Rightarrow> find_section (wo_header out) m)"
proof -
  have "\<forall>(n, p)\<in>set nps. plain_name n \<and> payload_ok p" using assms(1) valid_name_plain by auto
  from wo.lookup_set_all [OF this valid_name_plain [OF assms(2)]] show ?thesis by (simp add: wo.set_all_def)
qed

theorem wire_out_sections_witness:
  "find_section (wo_header (foldl (\<lambda>out (n, p). wo_set out n p) \<lparr>wo_header = ''b:QQ==.c:QQ==''\<rparr>
     [(''b'', ''AA==''), (''a'', ''Bw=='')])) ''c'' = Some ''QQ==''"
proof -
  have "find_section ''b:QQ==.c:QQ=='' ''c'' = Some ''QQ==''" by code_simp
  then show ?thesis
    using wire_out_sections [of "[(''b'', ''AA==''), (''a'', ''Bw=='')]" "''c''" "\<lparr>wo_header = ''b:QQ==.c:QQ==''\<rparr>"]
    by (simp add: valid_name_def is_ascii_alphanumeric_def payload_ok_def SECTION_SEPARATOR_def)
qed

text \<open>
  What the header map of \<open>http\<close> promises: a value reads back as inserted, a removed one is
  absent, and a value is valid when each of its bytes is, visible ASCII among them; what the
  map holds is valid.
\<close>

definition visible_ascii :: "char \<Rightarrow> bool" where
  "visible_ascii c \<longleftrightarrow> 32 \<le> (of_char c :: nat) \<and> (of_char c :: nat) < 127"

definition metadata_laws :: "'m metadata_ops \<Rightarrow> bool" where
  "metadata_laws ops \<longleftrightarrow>
     (\<forall>m k v. md_value_ok ops v \<longrightarrow> md_get ops (md_insert ops m k v) k = Some v) \<and>
     (\<forall>m k. md_get ops (md_remove ops m k) k = None) \<and>
     (\<exists>byte_ok. (\<forall>c. visible_ascii c \<longrightarrow> byte_ok c) \<and> (\<forall>v. md_value_ok ops v \<longleftrightarrow> list_all byte_ok v)) \<and>
     (\<forall>m k v. md_get ops m k = Some v \<longrightarrow> md_value_ok ops v)"

text \<open>A property of headers that is decided piece by piece survives \<open>set\<close>.\<close>

lemma pieces_all:
  assumes "\<And>s r. P (s @ SECTION_SEPARATOR # r) \<longleftrightarrow> P s \<and> P r"
  shows "P h \<longleftrightarrow> (\<forall>s\<in>set (split_on SECTION_SEPARATOR h). P s)"
  by (induction h rule: header_induct) (auto simp: assms split_on_append_sep)

lemma wo_set_keeps:
  assumes comp: "\<And>s r. P (s @ SECTION_SEPARATOR # r) \<longleftrightarrow> P s \<and> P r"
    and h: "P (wo_header out)" and new: "P (name @ NAME_SEPARATOR # payload)"
    and ok: "plain_name name" "payload_ok payload"
  shows "P (wo_header (wo_set out name payload))"
proof -
  note pa = pieces_all [where P = P, OF comp]
  have sep: "SECTION_SEPARATOR \<notin> set payload" using ok(2) by (simp add: payload_ok_def)
  show ?thesis
    by (rule wo_set_pieces [OF ok(1) sep, of out]) (use h new in \<open>auto simp: pa [of "wo_header (wo_set out name payload)"]
      pa [of "wo_header out"] split: if_splits\<close>)
qed

lemma valid_utf8_Nil [simp]: "valid_utf8 []"
  by (simp add: valid_utf8.simps)

lemma utf8_rest_append:
  assumes "(of_char c :: nat) < 128" "xs \<noteq> []"
  shows "utf8_rest (xs @ c # ys) = map_option (\<lambda>r. r @ c # ys) (utf8_rest xs)"
proof -
  obtain x r where xs: "xs = x # r" using assms(2) by (cases xs) auto
  have nc: "\<not> is_cont c" "\<And>b. \<not> second_ok b c"
    using assms by (auto simp: is_cont_def second_ok_def in_range_def)
  consider "r = []" | c1 where "r = [c1]" | c1 c2 where "r = [c1, c2]" | c1 c2 c3 r' where "r = c1 # c2 # c3 # r'"
    by (metis list.exhaust)
  then show ?thesis by cases (simp_all add: xs nc Let_def split: list.split)
qed

lemma valid_utf8_append_ascii:
  assumes "(of_char c :: nat) < 128"
  shows "valid_utf8 (xs @ c # ys) \<longleftrightarrow> valid_utf8 xs \<and> valid_utf8 ys"
proof (induction xs rule: valid_utf8.induct)
  case (1 xs)
  show ?case
  proof (cases "xs = []")
    case True
    then show ?thesis using assms valid_utf8.simps [of "c # ys"] valid_utf8.simps [of "[]"] by simp
  next
    case False
    then show ?thesis
      using 1 utf8_rest_append [OF assms, of xs ys] valid_utf8.simps [of "xs @ c # ys"] valid_utf8.simps [of xs]
      by (cases "utf8_rest xs") simp_all
  qed
qed

lemma visible_ascii_utf8: "list_all visible_ascii s \<Longrightarrow> valid_utf8 s"
proof (induction s)
  case (Cons c s)
  then have "(of_char c :: nat) < 128" by (simp add: visible_ascii_def)
  then have "valid_utf8 ([] @ c # s) = (valid_utf8 [] \<and> valid_utf8 s)" by (rule valid_utf8_append_ascii)
  with Cons show ?case using valid_utf8.simps [of "[]"] by simp
qed (simp add: valid_utf8.simps)

lemma alphabet_ascii: "list_all visible_ascii (alphabet @ ''=:._-'')"
  by (simp add: alphabet_def visible_ascii_def)

lemma section_ascii: "valid_name name \<Longrightarrow> list_all visible_ascii (name @ NAME_SEPARATOR # rfc4648_encode bytes)"
proof -
  assume "valid_name name"
  then have "list_all visible_ascii name"
    by (auto simp: valid_name_def list_all_iff visible_ascii_def is_ascii_alphanumeric_def Let_def)
  moreover have "list_all visible_ascii (rfc4648_encode bytes)"
    using rfc4648_chars [of bytes] alphabet_ascii by (auto simp: list_all_iff)
  ultimately show ?thesis by (simp add: NAME_SEPARATOR_def visible_ascii_def)
qed

text \<open>Installing a header with a freshly written section never panics, and it is then the header.\<close>

lemma install_written:
  assumes laws: "metadata_laws ops" and md: "wo_from_metadata ops md = Inr out" and name: "valid_name NAME"
    and out'_def: "out' = wo_set out NAME (rfc4648_encode bytes)"
  shows "\<exists>md'. wo_install ops out' md = Done md' \<and> wi_from_metadata ops md' = Inr \<lparr>wi_sections = wo_header out'\<rparr>"
proof -
  obtain ok where ok: "\<And>c. visible_ascii c \<Longrightarrow> ok c" "\<And>v. md_value_ok ops v \<longleftrightarrow> list_all ok v"
    using laws unfolding metadata_laws_def by blast
  have old: "valid_utf8 (wo_header out)" "list_all ok (wo_header out)"
    using md laws ok(2) by (auto simp: wo_from_metadata_def wi_from_metadata_def from_header_bytes_def wi_default_def
        metadata_laws_def split: option.splits if_splits)
  have dot: "ok SECTION_SEPARATOR" "(of_char SECTION_SEPARATOR :: nat) < 128"
    using ok(1) by (auto simp: SECTION_SEPARATOR_def visible_ascii_def)
  note new = section_ascii [OF name, of bytes]
  have "valid_utf8 (wo_header out')" unfolding out'_def
    by (rule wo_set_keeps [where P = valid_utf8])
      (use old new dot name in \<open>auto simp: valid_utf8_append_ascii visible_ascii_utf8 valid_name_plain rfc4648_payload_ok\<close>)
  moreover have "list_all ok (wo_header out')" unfolding out'_def
    by (rule wo_set_keeps [where P = "list_all ok"])
      (use old new dot name ok(1) in \<open>auto simp: valid_name_plain rfc4648_payload_ok list_all_iff\<close>)
  moreover have "wo_header out' \<noteq> []"
  proof
    assume "wo_header out' = []"
    moreover have "find_section (wo_header out') NAME = Some (rfc4648_encode bytes)"
      unfolding out'_def using wo.lookup_set [of NAME NAME] name by (simp add: valid_name_plain rfc4648_payload_ok)
    ultimately show False
      using name by (simp add: find_section_map_of [OF valid_name_plain] sections_def)
  qed
  ultimately show ?thesis using ok(2) laws
    by (simp add: wo_install_def metadata_laws_def wi_from_metadata_def from_header_bytes_def)
qed

text \<open>
  \<open>set_in_metadata\<close> never panics on metadata whose header is text: the module reads
  its value back with \<open>get_from_metadata\<close>, and the data of every other module is what it was.
\<close>

theorem metadata_round_trip:
  assumes "metadata_laws ops" "standard_engine b64" "bincode_buffer bin" "bincode_inverse bin"
    and "wi_from_metadata ops md = Inr w0" "valid_name NAME" "bin_serialize bin w = Inr bytes"
  shows "\<exists>md'. set_in_metadata b64 bin NAME ops md w = Done (Inr (), md') \<and>
    get_from_metadata b64 bin NAME ops md' = Done (Inr (Some w)) \<and>
    (\<forall>M bin'. valid_name M \<longrightarrow> M \<noteq> NAME \<longrightarrow>
       get_from_metadata b64 (bin' :: 'v bincode) M ops md' = get_from_metadata b64 bin' M ops md)"
proof -
  define out where "out = \<lparr>wo_header = wi_sections w0\<rparr>"
  define out' where "out' = wo_set out NAME (rfc4648_encode bytes)"
  have out: "wo_from_metadata ops md = Inr out" using assms(5) by (simp add: wo_from_metadata_def out_def)
  obtain md' where md': "wo_install ops out' md = Done md'" "wi_from_metadata ops md' = Inr \<lparr>wi_sections = wo_header out'\<rparr>"
    using install_written [OF assms(1) out assms(6) out'_def] by blast
  have look: "find_section (wo_header out') M = (if M = NAME then Some (rfc4648_encode bytes) else find_section (wi_sections w0) M)"
    if "valid_name M" for M
    unfolding out'_def using wo.lookup_set [of NAME M] assms(6) that
    by (simp add: valid_name_plain rfc4648_payload_ok out_def)
  have "set_in_metadata b64 bin NAME ops md w = Done (Inr (), md')"
    using out md'(1) wo_put_Done [OF assms(2,3,7)] by (simp add: set_in_metadata_def out'_def)
  moreover have "get_from_metadata b64 bin NAME ops md' = Done (Inr (Some w))"
    using md'(2) look [OF assms(6)] wi_get_encoded [OF assms(2,4,7)] by (simp add: get_from_metadata_def)
  moreover have "get_from_metadata b64 (bin' :: 'v bincode) M ops md' = get_from_metadata b64 bin' M ops md"
    if "valid_name M" "M \<noteq> NAME" for M bin'
    using md'(2) assms(5) look [OF that(1)] that(2) by (simp add: get_from_metadata_def wi_get_def decode_present_def)
  ultimately show ?thesis by blast
qed

text \<open>A header map as an association list.\<close>

definition ex_metadata :: "(string \<times> string) list metadata_ops" where
  "ex_metadata = \<lparr>
     md_get = (\<lambda>m k. map_of (filter (\<lambda>kv. list_all visible_ascii (snd kv)) m) k),
     md_insert = (\<lambda>m k v. (k, v) # m),
     md_remove = (\<lambda>m k. filter (\<lambda>kv. fst kv \<noteq> k) m),
     md_value_ok = list_all visible_ascii\<rparr>"

lemma ex_metadata_laws: "metadata_laws ex_metadata"
proof -
  have "map_of (filter P (filter (\<lambda>kv. fst kv \<noteq> k) m)) k = None" for P :: "string \<times> string \<Rightarrow> bool" and m k
    by (induction m) auto
  moreover have "list_all visible_ascii v" if "map_of (filter (\<lambda>kv. list_all visible_ascii (snd kv)) m) k = Some v" for m k v
    using map_of_SomeD [OF that] by auto
  ultimately show ?thesis unfolding metadata_laws_def by (auto simp: ex_metadata_def)
qed

theorem metadata_round_trip_witness:
  "\<exists>md'. set_in_metadata ex_engine ex_bincode ''m'' ex_metadata [] 7 = Done (Inr (), md') \<and>
     get_from_metadata ex_engine ex_bincode ''m'' ex_metadata md' = Done (Inr (Some 7))"
proof -
  have "wi_from_metadata ex_metadata [] = Inr wi_default" by (simp add: wi_from_metadata_def ex_metadata_def)
  moreover have "valid_name ''m''" by (simp add: valid_name_def is_ascii_alphanumeric_def)
  moreover have "bin_serialize ex_bincode 7 = Inr [7]" by (simp add: ex_bincode_def)
  ultimately show ?thesis
    using metadata_round_trip [OF ex_metadata_laws ex_engine_standard ex_bincode_ok] by blast
qed

text \<open>
  A module that forwards a section it received without decoding it into a new header
  sends the receiver the same value and the same bytes, and the scan of the header never panics.
\<close>

theorem encoded_section_forwarding:
  assumes "standard_engine b64" "valid_name NAME"
    and "wi_get_with_encoded b64 bin NAME win = Done (Inr (Some (w, enc)))"
  shows "wi_get_with_encoded b64 bin NAME \<lparr>wi_sections = wo_header (wo_put_encoded NAME enc out)\<rparr>
    = Done (Inr (Some (w, enc)))"
proof -
  obtain payload r where r: "find_section (wi_sections win) NAME = Some payload" "decode_payload b64 bin payload = Done r"
    using assms(3) by (auto simp: wi_get_with_encoded_def map_exec_Done split: option.splits)
  have p: "find_section (wi_sections win) NAME = Some payload" "enc = EncodedSection payload"
    "decode_payload b64 bin payload = Done (Inr w)"
    using assms(3) r by (cases r; simp add: wi_get_with_encoded_def)+
  obtain bytes where "b64_decode b64 payload = Inr bytes"
    using p(3) by (auto simp: decode_payload_general [OF assms(1)] split: sum.splits)
  then have "payload = rfc4648_encode bytes" using assms(1) by (simp add: standard_engine_def)
  then have "find_section (wo_header (wo_put_encoded NAME enc out)) NAME = Some payload"
    using wo.lookup_set [of NAME NAME payload out] assms(2) p(2)
    by (simp add: wo_put_encoded_def valid_name_plain rfc4648_payload_ok)
  then show ?thesis using p by (simp add: wi_get_with_encoded_def)
qed

lemma ex_encoded: "find_section ''m:Bw=='' ''m'' = Some (rfc4648_encode [7])"
proof -
  have "find_section ''m:Bw=='' ''m'' = Some ''Bw==''" "rfc4648_encode [7] = ''Bw==''" by code_simp+
  then show ?thesis by simp
qed

theorem encoded_section_forwarding_witness:
  "wi_get_with_encoded ex_engine ex_bincode ''m''
     \<lparr>wi_sections = wo_header (wo_put_encoded ''m'' (EncodedSection (rfc4648_encode [7])) wo_new)\<rparr>
   = Done (Inr (Some (7, EncodedSection (rfc4648_encode [7]))))"
proof -
  have "b64_decode ex_engine (rfc4648_encode [7]) = Inr [7]" using ex_engine_standard by (simp add: standard_engine_def)
  moreover have "deserialize ex_bincode [7] = Inr 7" by (simp add: deserialize_def ex_bincode_def)
  ultimately have "decode_payload ex_engine ex_bincode (rfc4648_encode [7]) = Done (Inr 7)"
    by (simp add: decode_payload_general [OF ex_engine_standard] del: rfc4648_encode.simps)
  then have "wi_get_with_encoded ex_engine ex_bincode ''m'' \<lparr>wi_sections = ''m:Bw==''\<rparr>
      = Done (Inr (Some (7, EncodedSection (rfc4648_encode [7]))))"
    using ex_encoded by (simp add: wi_get_with_encoded_def del: rfc4648_encode.simps)
  moreover have "valid_name ''m''" by (simp add: valid_name_def is_ascii_alphanumeric_def)
  ultimately show ?thesis
    using encoded_section_forwarding [OF ex_engine_standard, of "''m''" ex_bincode "\<lparr>wi_sections = ''m:Bw==''\<rparr>" 7
        "EncodedSection (rfc4648_encode [7])" wo_new] by (simp del: rfc4648_encode.simps)
qed

end
