(* ===== verification/Extensions.thy ===== *)
theory Extensions
  imports Prelude
begin

text \<open>
  The typed maps through which the modules of a stack share data,
  \<open>libs/rpcstack/src/extensions.rs\<close>: a list of boxed values scanned by type, and on top of it
  the decision points, where modules propose values and the owner resolves them. A value is
  stored with the identity of its type twice, as the key and inside the box, as
  \<open>Box<dyn Any>\<close> does; \<open>downcast\<close> compares the latter.
\<close>

section \<open>Values of any type\<close>

text \<open>The type of a value is named; \<open>DecisionOf t\<close> is the private type \<open>Decision<T>\<close>.\<close>

datatype type_id = TypeId string | DecisionOf type_id

fun type_name :: "type_id \<Rightarrow> string" where
  "type_name (TypeId s) = s"
| "type_name (DecisionOf t) = ''rpcstack::extensions::Decision<'' @ type_name t @ ''>''"

record 'v proposal =
  proposal_by :: string
  proposal_value :: 'v

record 'v decision =
  decision_proposals :: "'v proposal list"
  resolved_by :: "string option"

datatype 'v stored = Value 'v | DecisionValue "'v decision"

text \<open>\<open>Box<dyn Any>\<close>: the dynamic type and the value.\<close>

datatype 'v any = Any (any_type: type_id) (any_value: "'v stored")

definition downcast :: "type_id \<Rightarrow> 'v any \<Rightarrow> 'v stored option" where
  "downcast t a = (if any_type a = t then Some (any_value a) else None)"

section \<open>The map\<close>

record 'v extensions =
  ext_values :: "(type_id \<times> 'v any) list"
  ext_module :: string

definition ext_new :: "'v extensions" where
  "ext_new = \<lparr>ext_values = [], ext_module = ''''\<rparr>"

definition ext_position :: "type_id \<Rightarrow> 'v extensions \<Rightarrow> nat option" where
  "ext_position t e = position (\<lambda>kv. fst kv = t) (ext_values e)"

definition ext_insert :: "type_id \<Rightarrow> 'v stored \<Rightarrow> 'v extensions \<Rightarrow> 'v stored option \<times> 'v extensions" where
  "ext_insert t v e =
     (case ext_position t e of
        Some at \<Rightarrow>
          let (key, old) = ext_values e ! at in
          (downcast t old, e\<lparr>ext_values := (ext_values e)[at := (key, Any t v)]\<rparr>)
      | None \<Rightarrow> (None, e\<lparr>ext_values := ext_values e @ [(t, Any t v)]\<rparr>))"

definition ext_get :: "type_id \<Rightarrow> 'v extensions \<Rightarrow> 'v stored option" where
  "ext_get t e =
     (case ext_position t e of None \<Rightarrow> None | Some at \<Rightarrow> downcast t (snd (ext_values e ! at)))"

text \<open>What a caller does through the reference \<open>get_mut\<close> returns: nothing when it is absent.\<close>

definition ext_get_mut :: "type_id \<Rightarrow> ('v stored \<Rightarrow> 'v stored) \<Rightarrow> 'v extensions \<Rightarrow> 'v extensions" where
  "ext_get_mut t f e =
     (case ext_position t e of
        None \<Rightarrow> e
      | Some at \<Rightarrow>
          (case downcast t (snd (ext_values e ! at)) of
             None \<Rightarrow> e
           | Some v \<Rightarrow> e\<lparr>ext_values := (ext_values e)[at := (fst (ext_values e ! at), Any t (f v))]\<rparr>))"

text \<open>\<open>SmallVec::swap_remove\<close>: the last element takes the place of the removed one.\<close>

definition swap_remove :: "nat \<Rightarrow> 'a list \<Rightarrow> 'a list" where
  "swap_remove at xs = (if at = length xs - 1 then butlast xs else butlast (xs[at := last xs]))"

definition ext_remove :: "type_id \<Rightarrow> 'v extensions \<Rightarrow> 'v stored option \<times> 'v extensions" where
  "ext_remove t e =
     (case ext_position t e of
        None \<Rightarrow> (None, e)
      | Some at \<Rightarrow>
          (downcast t (snd (ext_values e ! at)), e\<lparr>ext_values := swap_remove at (ext_values e)\<rparr>))"

section \<open>Decisions\<close>

record decision_closed =
  dc_decision :: string
  dc_proposer :: string
  dc_resolver :: string

definition decision_closed_display :: "decision_closed \<Rightarrow> string" where
  "decision_closed_display c =
     ''module `'' @ dc_proposer c @ ''` proposed a `'' @ dc_decision c @ ''` after module `'' @ dc_resolver c @
     ''` had resolved it; proposals must be made before the owner's `seal_child_rpc`, which runs in reverse '' @
     ''stack order, so a proposer must come after its owner in the stack''"

definition ext_decision :: "type_id \<Rightarrow> 'v extensions \<Rightarrow> 'v decision option" where
  "ext_decision t e =
     (case ext_get (DecisionOf t) e of Some (DecisionValue d) \<Rightarrow> Some d | _ \<Rightarrow> None)"

definition ext_set_decision :: "type_id \<Rightarrow> 'v decision \<Rightarrow> 'v extensions \<Rightarrow> 'v extensions" where
  "ext_set_decision t d e = ext_get_mut (DecisionOf t) (\<lambda>_. DecisionValue d) e"

definition propose :: "type_id \<Rightarrow> 'v \<Rightarrow> 'v extensions \<Rightarrow> (decision_closed + unit) \<times> 'v extensions" where
  "propose t v e =
     (let by = ext_module e in
      case ext_decision t e of
        Some d \<Rightarrow>
          (case resolved_by d of
             Some resolver \<Rightarrow> (Inl \<lparr>dc_decision = type_name t, dc_proposer = by, dc_resolver = resolver\<rparr>, e)
           | None \<Rightarrow>
               (Inr (), ext_set_decision t
                 (d\<lparr>decision_proposals := decision_proposals d @ [\<lparr>proposal_by = by, proposal_value = v\<rparr>]\<rparr>) e))
      | None \<Rightarrow>
          (Inr (), snd (ext_insert (DecisionOf t)
             (DecisionValue \<lparr>decision_proposals = [\<lparr>proposal_by = by, proposal_value = v\<rparr>], resolved_by = None\<rparr>) e)))"

definition proposals :: "type_id \<Rightarrow> 'v extensions \<Rightarrow> 'v proposal list" where
  "proposals t e = (case ext_decision t e of None \<Rightarrow> [] | Some d \<Rightarrow> decision_proposals d)"

definition resolve :: "type_id \<Rightarrow> 'v extensions \<Rightarrow> 'v proposal list \<times> 'v extensions" where
  "resolve t e =
     (let by = ext_module e in
      case ext_decision t e of
        Some d \<Rightarrow>
          (decision_proposals d, ext_set_decision t (d\<lparr>decision_proposals := [], resolved_by := Some by\<rparr>) e)
      | None \<Rightarrow>
          ([], snd (ext_insert (DecisionOf t)
             (DecisionValue \<lparr>decision_proposals = [], resolved_by = Some by\<rparr>) e)))"

definition set_module :: "string \<Rightarrow> 'v extensions \<Rightarrow> 'v extensions" where
  "set_module module e = e\<lparr>ext_module := module\<rparr>"

text \<open>The state of one child RPC is such a map of its own.\<close>

datatype 'v child_state = ChildState (child_extensions: "'v extensions")

definition child_state_new :: "'v child_state" where
  "child_state_new = ChildState ext_new"

section \<open>The contract of a typed map\<close>

locale typed_map =
  fixes get :: "'k \<Rightarrow> 'm \<Rightarrow> 'v option"
    and insert :: "'k \<Rightarrow> 'v \<Rightarrow> 'm \<Rightarrow> 'v option \<times> 'm"
    and remove :: "'k \<Rightarrow> 'm \<Rightarrow> 'v option \<times> 'm"
    and invar :: "'m \<Rightarrow> bool"
  assumes get_insert: "invar m \<Longrightarrow> get k' (snd (insert k v m)) = (if k' = k then Some v else get k' m)"
    and insert_old: "invar m \<Longrightarrow> fst (insert k v m) = get k m"
    and insert_invar: "invar m \<Longrightarrow> invar (snd (insert k v m))"
    and get_remove: "invar m \<Longrightarrow> get k' (snd (remove k m)) = (if k' = k then None else get k' m)"
    and remove_old: "invar m \<Longrightarrow> fst (remove k m) = get k m"
    and remove_invar: "invar m \<Longrightarrow> invar (snd (remove k m))"
begin

text \<open>The map it stands for.\<close>

definition abs_map :: "'m \<Rightarrow> 'k \<rightharpoonup> 'v" where
  "abs_map m = (\<lambda>k. get k m)"

lemma abs_insert: "invar m \<Longrightarrow> abs_map (snd (insert k v m)) = (abs_map m)(k \<mapsto> v)"
  by (auto simp: abs_map_def get_insert)

lemma abs_remove: "invar m \<Longrightarrow> abs_map (snd (remove k m)) = (abs_map m)(k := None)"
  by (auto simp: abs_map_def get_remove)

lemma take_back: "invar m \<Longrightarrow> fst (remove k (snd (insert k v m))) = Some v"
  by (simp add: remove_old insert_invar get_insert)

end

text \<open>Each type at most once, and every box holds the type it is stored under.\<close>

definition ext_inv :: "'v extensions \<Rightarrow> bool" where
  "ext_inv e \<longleftrightarrow> distinct (map fst (ext_values e)) \<and> list_all (\<lambda>(k, a). any_type a = k) (ext_values e)"

lemma position_key:
  assumes "distinct (map fst xs)"
  shows "position (\<lambda>kv. fst kv = k) xs = Some i \<longleftrightarrow> i < length xs \<and> fst (xs ! i) = k"
proof
  assume "i < length xs \<and> fst (xs ! i) = k"
  then obtain j where j: "position (\<lambda>kv. fst kv = k) xs = Some j" by fastforce
  from position_SomeD [OF this] \<open>i < length xs \<and> fst (xs ! i) = k\<close> assms have "j = i"
    by (auto simp: distinct_conv_nth)
  with j show "position (\<lambda>kv. fst kv = k) xs = Some i" by simp
qed (use position_SomeD [of "\<lambda>kv. fst kv = k" xs i] in auto)

lemma ext_get_eq: "ext_inv e \<Longrightarrow> ext_get t e = map_option any_value (map_of (ext_values e) t)"
proof (cases "ext_position t e")
  case None
  then have "t \<notin> fst ` set (ext_values e)" by (auto simp: ext_position_def)
  then show ?thesis using None by (simp add: ext_get_def map_of_eq_None_iff [THEN iffD2])
next
  case (Some i)
  assume inv: "ext_inv e"
  then have i: "i < length (ext_values e)" "fst (ext_values e ! i) = t"
    using Some by (auto simp: ext_inv_def ext_position_def position_key)
  then obtain a where a: "ext_values e ! i = (t, a)" by (cases "ext_values e ! i") auto
  then have "(t, a) \<in> set (ext_values e)" using i(1) by (metis nth_mem)
  with inv have "map_of (ext_values e) t = Some a" "any_type a = t"
    by (auto simp: ext_inv_def map_of_is_SomeI list_all_iff)
  then show ?thesis using Some a by (simp add: ext_get_def downcast_def)
qed

lemma ext_get_iff: "ext_inv e \<Longrightarrow> ext_get t e = Some v \<longleftrightarrow> (t, Any t v) \<in> set (ext_values e)"
proof -
  assume inv: "ext_inv e"
  have "(t, a) \<in> set (ext_values e) \<Longrightarrow> a = Any t (any_value a)" for a
    using inv by (cases a) (auto simp: ext_inv_def list_all_iff)
  then show ?thesis using inv by (auto simp: ext_get_eq ext_inv_def map_of_eq_Some_iff)
qed

lemma option_eqI: "(\<And>v. x = Some v \<longleftrightarrow> y = Some v) \<Longrightarrow> x = y"
  by (cases x; cases y) auto

lemma ext_position_Some:
  assumes "ext_inv e" "ext_position t e = Some i"
  obtains v where "i < length (ext_values e)" "ext_values e ! i = (t, Any t v)" "ext_get t e = Some v"
proof -
  have i: "i < length (ext_values e)" "fst (ext_values e ! i) = t"
    using assms by (auto simp: ext_inv_def ext_position_def position_key)
  then obtain a where a: "ext_values e ! i = (t, a)" by (cases "ext_values e ! i") auto
  have "any_type a = t" using assms(1) i(1) a by (auto simp: ext_inv_def list_all_length)
  then show ?thesis using that [of "any_value a"] i a assms(2) by (cases a) (simp add: ext_get_def downcast_def)
qed

lemma ext_position_None: "ext_inv e \<Longrightarrow> ext_position t e = None \<Longrightarrow> t \<notin> fst ` set (ext_values e) \<and> ext_get t e = None"
  by (auto simp: ext_position_def ext_get_eq map_of_eq_None_iff)

text \<open>Replacing the value of a stored type, which both \<open>insert\<close> and \<open>get_mut\<close> do.\<close>

lemma ext_replace:
  assumes inv: "ext_inv e" and i: "i < length (ext_values e)" "ext_values e ! i = (t, Any t v)"
    and e': "e' = e\<lparr>ext_values := (ext_values e)[i := (t, Any t w)]\<rparr>"
  shows "ext_inv e'" "ext_get k e' = (if k = t then Some w else ext_get k e)"
proof -
  have d: "distinct (map fst (ext_values e))" using inv by (simp add: ext_inv_def)
  have "map fst ((ext_values e)[i := (t, Any t w)]) = map fst (ext_values e)"
    using i by (simp add: map_update list_update_same_conv)
  then show inv': "ext_inv e'" using inv i d set_update_subset_insert [of "ext_values e" i "(t, Any t w)"]
    by (auto simp: e' ext_inv_def list_all_iff)
  have s: "set (ext_values e') = insert (t, Any t w) (set (ext_values e) - {(t, Any t v)})"
    using d i by (simp add: e' set_update_distinct distinct_map)
  have "(t, Any t u) \<in> set (ext_values e) \<longleftrightarrow> u = v" for u
    using ext_get_iff [OF inv, of t] i by (metis nth_mem option.inject)
  then show "ext_get k e' = (if k = t then Some w else ext_get k e)"
    by (intro option_eqI) (auto simp: ext_get_iff [OF inv'] ext_get_iff [OF inv] s)
qed

lemma ext_append:
  assumes inv: "ext_inv e" and t: "t \<notin> fst ` set (ext_values e)"
    and e': "e' = e\<lparr>ext_values := ext_values e @ [(t, Any t w)]\<rparr>"
  shows "ext_inv e'" "ext_get k e' = (if k = t then Some w else ext_get k e)"
proof -
  show inv': "ext_inv e'" using inv t by (auto simp: e' ext_inv_def)
  have s: "set (ext_values e') = insert (t, Any t w) (set (ext_values e))" by (simp add: e')
  have "(t, a) \<notin> set (ext_values e)" for a using t by force
  then show "ext_get k e' = (if k = t then Some w else ext_get k e)"
    by (intro option_eqI) (auto simp: ext_get_iff [OF inv'] ext_get_iff [OF inv] s)
qed

lemma mset_swap_remove: "i < length xs \<Longrightarrow> add_mset (xs ! i) (mset (swap_remove i xs)) = mset xs"
proof -
  assume i: "i < length xs"
  then obtain ys y where xs: "xs = ys @ [y]" by (cases xs rule: rev_cases) auto
  show ?thesis
  proof (cases "i = length ys")
    case False
    with i xs have i': "i < length ys" by simp
    then have "mset (ys[i := y]) = add_mset y (mset ys - {#ys ! i#})" by (simp add: mset_update)
    with i' xs show ?thesis by (simp add: swap_remove_def list_update_append nth_append)
  qed (simp add: xs swap_remove_def)
qed

lemma ext_drop:
  assumes inv: "ext_inv e" and i: "i < length (ext_values e)" "ext_values e ! i = (t, Any t v)"
    and e': "e' = e\<lparr>ext_values := swap_remove i (ext_values e)\<rparr>"
  shows "ext_inv e'" "ext_get k e' = (if k = t then None else ext_get k e)"
proof -
  have m: "add_mset (t, Any t v) (mset (ext_values e')) = mset (ext_values e)"
    using mset_swap_remove [OF i(1)] i(2) by (simp add: e')
  then have "mset (map fst (ext_values e)) = mset (t # map fst (ext_values e'))"
    by (metis image_mset_add_mset mset_map fst_conv mset.simps(2))
  then have "distinct (t # map fst (ext_values e'))"
    using inv mset_eq_imp_distinct_iff unfolding ext_inv_def by blast
  then have d: "distinct (map fst (ext_values e'))" "t \<notin> fst ` set (ext_values e')" by auto
  have s: "set (ext_values e) = insert (t, Any t v) (set (ext_values e'))"
    using arg_cong [OF m, of set_mset] by simp
  show inv': "ext_inv e'" using inv d(1) s by (auto simp: ext_inv_def list_all_iff)
  have "(t, a) \<notin> set (ext_values e')" for a using d(2) by force
  then show "ext_get k e' = (if k = t then None else ext_get k e)"
    by (intro option_eqI) (auto simp: ext_get_iff [OF inv'] ext_get_iff [OF inv] s)
qed

lemma ext_inv_new: "ext_inv ext_new"
  by (simp add: ext_inv_def ext_new_def)

lemma ext_insert_spec:
  assumes "ext_inv e"
  shows "ext_inv (snd (ext_insert t v e))" "fst (ext_insert t v e) = ext_get t e"
    "ext_get k (snd (ext_insert t v e)) = (if k = t then Some v else ext_get k e)"
    "ext_module (snd (ext_insert t v e)) = ext_module e"
proof -
  have "ext_inv (snd (ext_insert t v e)) \<and> fst (ext_insert t v e) = ext_get t e \<and>
    ext_get k (snd (ext_insert t v e)) = (if k = t then Some v else ext_get k e) \<and>
    ext_module (snd (ext_insert t v e)) = ext_module e"
  proof (cases "ext_position t e")
    case None
    then have e': "snd (ext_insert t v e) = e\<lparr>ext_values := ext_values e @ [(t, Any t v)]\<rparr>" "fst (ext_insert t v e) = None"
      by (simp_all add: ext_insert_def)
    show ?thesis using ext_append [OF assms _ e'(1)] ext_position_None [OF assms None] e' by simp
  next
    case (Some i)
    obtain u where u: "i < length (ext_values e)" "ext_values e ! i = (t, Any t u)" "ext_get t e = Some u"
      using ext_position_Some [OF assms Some] .
    then have e': "snd (ext_insert t v e) = e\<lparr>ext_values := (ext_values e)[i := (t, Any t v)]\<rparr>" "fst (ext_insert t v e) = Some u"
      using Some by (simp_all add: ext_insert_def downcast_def)
    show ?thesis using ext_replace [OF assms u(1,2) e'(1)] e' u(3) by simp
  qed
  then show "ext_inv (snd (ext_insert t v e))" "fst (ext_insert t v e) = ext_get t e"
    "ext_get k (snd (ext_insert t v e)) = (if k = t then Some v else ext_get k e)"
    "ext_module (snd (ext_insert t v e)) = ext_module e" by auto
qed

lemma ext_get_mut_spec:
  assumes "ext_inv e"
  shows "ext_inv (ext_get_mut t f e)" "ext_get k (ext_get_mut t f e) = (if k = t then map_option f (ext_get t e) else ext_get k e)"
    "ext_module (ext_get_mut t f e) = ext_module e"
proof -
  have "ext_inv (ext_get_mut t f e) \<and>
    ext_get k (ext_get_mut t f e) = (if k = t then map_option f (ext_get t e) else ext_get k e) \<and>
    ext_module (ext_get_mut t f e) = ext_module e"
  proof (cases "ext_position t e")
    case None
    then show ?thesis using assms ext_position_None [OF assms None] by (simp add: ext_get_mut_def)
  next
    case (Some i)
    obtain u where u: "i < length (ext_values e)" "ext_values e ! i = (t, Any t u)" "ext_get t e = Some u"
      using ext_position_Some [OF assms Some] .
    then have e': "ext_get_mut t f e = e\<lparr>ext_values := (ext_values e)[i := (t, Any t (f u))]\<rparr>"
      using Some by (simp add: ext_get_mut_def downcast_def)
    show ?thesis using ext_replace [OF assms u(1,2) e'] e' u(3) by simp
  qed
  then show "ext_inv (ext_get_mut t f e)" "ext_get k (ext_get_mut t f e) = (if k = t then map_option f (ext_get t e) else ext_get k e)"
    "ext_module (ext_get_mut t f e) = ext_module e" by auto
qed

lemma ext_remove_spec:
  assumes "ext_inv e"
  shows "ext_inv (snd (ext_remove t e))" "fst (ext_remove t e) = ext_get t e"
    "ext_get k (snd (ext_remove t e)) = (if k = t then None else ext_get k e)"
proof -
  have "ext_inv (snd (ext_remove t e)) \<and> fst (ext_remove t e) = ext_get t e \<and>
    ext_get k (snd (ext_remove t e)) = (if k = t then None else ext_get k e)"
  proof (cases "ext_position t e")
    case None
    then show ?thesis using assms ext_position_None [OF assms None] by (simp add: ext_remove_def)
  next
    case (Some i)
    obtain u where u: "i < length (ext_values e)" "ext_values e ! i = (t, Any t u)" "ext_get t e = Some u"
      using ext_position_Some [OF assms Some] .
    then have e': "snd (ext_remove t e) = e\<lparr>ext_values := swap_remove i (ext_values e)\<rparr>" "fst (ext_remove t e) = Some u"
      using Some by (simp_all add: ext_remove_def downcast_def)
    show ?thesis using ext_drop [OF assms u(1,2) e'(1)] e'(2) u(3) by simp
  qed
  then show "ext_inv (snd (ext_remove t e))" "fst (ext_remove t e) = ext_get t e"
    "ext_get k (snd (ext_remove t e)) = (if k = t then None else ext_get k e)" by auto
qed

interpretation ext: typed_map ext_get ext_insert ext_remove ext_inv
  by unfold_locales (simp_all add: ext_insert_spec ext_remove_spec)

section \<open>Decisions\<close>

text \<open>Every entry stored under a decision type is a decision.\<close>

definition decisions_ok :: "'v extensions \<Rightarrow> bool" where
  "decisions_ok e \<longleftrightarrow> ext_inv e \<and> (\<forall>t v. ext_get (DecisionOf t) e \<noteq> Some (Value v))"

lemma ext_decision_set:
  assumes "decisions_ok e" "ext_decision t e = Some d"
  shows "decisions_ok (ext_set_decision t d' e)"
    "ext_decision k (ext_set_decision t d' e) = (if k = t then Some d' else ext_decision k e)"
    "ext_module (ext_set_decision t d' e) = ext_module e"
  using assms by (auto simp: decisions_ok_def ext_decision_def ext_set_decision_def ext_get_mut_spec
      split: option.splits stored.splits)

lemma ext_decision_insert:
  assumes "decisions_ok e"
  shows "decisions_ok (snd (ext_insert (DecisionOf t) (DecisionValue d) e))"
    "ext_decision k (snd (ext_insert (DecisionOf t) (DecisionValue d) e)) = (if k = t then Some d else ext_decision k e)"
    "ext_module (snd (ext_insert (DecisionOf t) (DecisionValue d) e)) = ext_module e"
  using assms by (auto simp: decisions_ok_def ext_decision_def ext_insert_spec split: option.splits stored.splits)

lemma ext_get_set_module [simp]: "ext_get t (set_module m e) = ext_get t e"
proof -
  have "ext_values (set_module m e) = ext_values e" by (simp add: set_module_def)
  then show ?thesis by (simp only: ext_get_def ext_position_def)
qed

lemma set_module_simps [simp]:
  "ext_decision t (set_module m e) = ext_decision t e" "ext_module (set_module m e) = m"
  "decisions_ok (set_module m e) = decisions_ok e"
proof -
  have "ext_inv (set_module m e) = ext_inv e" by (simp add: ext_inv_def set_module_def)
  then show "decisions_ok (set_module m e) = decisions_ok e" by (simp add: decisions_ok_def)
qed (simp_all add: ext_decision_def, simp add: set_module_def)

lemmas decision_simps = ext_decision_set ext_decision_insert

lemma propose_open:
  assumes "decisions_ok e" "case ext_decision t e of None \<Rightarrow> True | Some d \<Rightarrow> resolved_by d = None"
  shows "fst (propose t v e) = Inr ()" "decisions_ok (snd (propose t v e))"
    "proposals t (snd (propose t v e)) = proposals t e @ [\<lparr>proposal_by = ext_module e, proposal_value = v\<rparr>]"
    "case ext_decision t (snd (propose t v e)) of None \<Rightarrow> True | Some d \<Rightarrow> resolved_by d = None"
    "k \<noteq> t \<Longrightarrow> ext_decision k (snd (propose t v e)) = ext_decision k e"
  using assms by (auto simp: propose_def proposals_def decision_simps Let_def split: option.splits)

lemma resolve_spec:
  assumes "decisions_ok e"
  shows "fst (resolve t e) = proposals t e" "decisions_ok (snd (resolve t e))"
    "\<exists>d. ext_decision t (snd (resolve t e)) = Some d \<and> resolved_by d = Some (ext_module e) \<and> decision_proposals d = []"
    "k \<noteq> t \<Longrightarrow> ext_decision k (snd (resolve t e)) = ext_decision k e"
  using assms by (auto simp: resolve_def proposals_def decision_simps Let_def split: option.splits)

lemma propose_closed:
  "ext_decision t e = Some d \<Longrightarrow> resolved_by d = Some r \<Longrightarrow>
   propose t v e = (Inl \<lparr>dc_decision = type_name t, dc_proposer = ext_module e, dc_resolver = r\<rparr>, e)"
  by (simp add: propose_def Let_def)

text \<open>The modules of a stack proposing one after the other.\<close>

fun propose_all :: "type_id \<Rightarrow> (string \<times> 'v) list \<Rightarrow> 'v extensions \<Rightarrow> (decision_closed + unit) list \<times> 'v extensions" where
  "propose_all t [] e = ([], e)"
| "propose_all t ((m, v) # mvs) e =
     (case propose t v (set_module m e) of (r, e1) \<Rightarrow>
        (case propose_all t mvs e1 of (rs, e2) \<Rightarrow> (r # rs, e2)))"

lemma propose_all_open:
  assumes "decisions_ok e" "case ext_decision t e of None \<Rightarrow> True | Some d \<Rightarrow> resolved_by d = None"
  shows "\<exists>e'. propose_all t mvs e = (map (\<lambda>_. Inr ()) mvs, e') \<and> decisions_ok e' \<and>
    proposals t e' = proposals t e @ map (\<lambda>(m, v). \<lparr>proposal_by = m, proposal_value = v\<rparr>) mvs \<and>
    (\<forall>k. k \<noteq> t \<longrightarrow> ext_decision k e' = ext_decision k e)"
  using assms
proof (induction mvs arbitrary: e)
  case (Cons mv mvs)
  obtain m v where mv: "mv = (m, v)" by fastforce
  let ?e1 = "snd (propose t v (set_module m e))"
  note p = propose_open [of "set_module m e" t, simplified, OF Cons.prems, where v = v]
  have "proposals t (set_module m e) = proposals t e" by (simp add: proposals_def)
  with p Cons.IH [OF p(2,4)] show ?case by (cases "propose t v (set_module m e)") (auto simp: mv)
qed auto

section \<open>Properties\<close>

text \<open>
  The scanned list behaves as a finite map keyed by type: from any state its
  operations reach, \<open>insert\<close>, \<open>get_mut\<close> and \<open>remove\<close> change exactly the entry of
  their type, \<open>insert\<close> and \<open>remove\<close> return the previous entry, no downcast fails, and the
  representation invariant (one entry per type, boxed under its own type) is kept.
\<close>

theorem extensions_refine_map:
  assumes "ext_inv e"
  shows "ext_inv (snd (ext_insert t v e)) \<and> ext_inv (snd (ext_remove t e)) \<and> ext_inv (ext_get_mut t f e) \<and>
    fst (ext_insert t v e) = ext_get t e \<and> fst (ext_remove t e) = ext_get t e \<and>
    (\<lambda>k. ext_get k (snd (ext_insert t v e))) = (\<lambda>k. ext_get k e)(t \<mapsto> v) \<and>
    (\<lambda>k. ext_get k (snd (ext_remove t e))) = (\<lambda>k. ext_get k e)(t := None) \<and>
    (\<lambda>k. ext_get k (ext_get_mut t f e)) = (\<lambda>k. ext_get k e)(t := map_option f (ext_get t e))"
  using ext.abs_insert [OF assms, of t v] ext.abs_remove [OF assms, of t] ext_insert_spec [OF assms, where t = t and v = v]
    ext_remove_spec [OF assms, where t = t] ext_get_mut_spec [OF assms, where t = t and f = f]
  by (auto simp: ext.abs_map_def)

theorem extensions_refine_map_witness:
  "fst (ext_remove (TypeId ''A'') (snd (ext_insert (TypeId ''B'') (Value (2::int))
     (snd (ext_insert (TypeId ''A'') (Value 1) ext_new))))) = Some (Value 1)"
proof -
  have "ext_inv (snd (ext_insert (TypeId ''A'') (Value (1::int)) ext_new))" using ext_insert_spec(1) ext_inv_new by blast
  from extensions_refine_map [OF this, of "TypeId ''B''" "Value 2" id] have
    "ext_inv (snd (ext_insert (TypeId ''B'') (Value 2) (snd (ext_insert (TypeId ''A'') (Value (1::int)) ext_new))))" by blast
  from extensions_refine_map [OF this, of "TypeId ''A''" "Value 3" id] show ?thesis
    by (simp add: ext_insert_spec ext_inv_new)
qed

text \<open>
  On an open decision every proposal is accepted, and \<open>resolve\<close> returns exactly
  the proposals made, in order and each with the module that made it; it closes the decision, so a
  later proposal is refused with an error that names the type, the late module and the resolver,
  and changes nothing; the decisions of other types are untouched throughout.
\<close>

theorem decision_resolution:
  assumes "decisions_ok e" "ext_decision t e = None"
    and "propose_all t mvs e = (rs, e1)" "resolve t (set_module owner e1) = (ps, e2)"
  shows "rs = map (\<lambda>_. Inr ()) mvs \<and> ps = map (\<lambda>(m, v). \<lparr>proposal_by = m, proposal_value = v\<rparr>) mvs \<and>
    propose t v (set_module late e2) =
      (Inl \<lparr>dc_decision = type_name t, dc_proposer = late, dc_resolver = owner\<rparr>, set_module late e2) \<and>
    (\<forall>k. k \<noteq> t \<longrightarrow> ext_decision k e2 = ext_decision k e)"
proof -
  have "proposals t e = []" using assms(2) by (simp add: proposals_def)
  then have e1: "rs = map (\<lambda>_. Inr ()) mvs" "decisions_ok e1"
    "proposals t e1 = map (\<lambda>(m, v). \<lparr>proposal_by = m, proposal_value = v\<rparr>) mvs"
    "\<And>k. k \<noteq> t \<Longrightarrow> ext_decision k e1 = ext_decision k e"
    using propose_all_open [OF assms(1), of t mvs] assms(2,3) by auto
  have ok: "decisions_ok (set_module owner e1)" using e1(2) by simp
  have "proposals t (set_module owner e1) = proposals t e1" by (simp add: proposals_def)
  then have "ps = proposals t e1" using resolve_spec(1) [OF ok, of t] assms(4) by simp
  moreover obtain d where "ext_decision t e2 = Some d" "resolved_by d = Some owner"
    using resolve_spec(3) [OF ok, of t] assms(4) by auto
  then have "propose t v (set_module late e2) =
      (Inl \<lparr>dc_decision = type_name t, dc_proposer = late, dc_resolver = owner\<rparr>, set_module late e2)"
    using propose_closed [of t "set_module late e2"] by simp
  moreover have "ext_decision k e2 = ext_decision k e" if "k \<noteq> t" for k
    using resolve_spec(4) [OF ok that] assms(4) e1(4) [OF that] by simp
  ultimately show ?thesis using e1 by simp
qed

theorem decision_resolution_witness:
  "\<exists>e1 e2. propose_all (TypeId ''Cost'') [(''budget'', 3), (''est'', 5 :: int)] ext_new = ([Inr (), Inr ()], e1) \<and>
     resolve (TypeId ''Cost'') (set_module ''admission'' e1) =
       ([\<lparr>proposal_by = ''budget'', proposal_value = 3\<rparr>, \<lparr>proposal_by = ''est'', proposal_value = 5\<rparr>], e2) \<and>
     fst (propose (TypeId ''Cost'') 7 (set_module ''late'' e2)) =
       Inl \<lparr>dc_decision = ''Cost'', dc_proposer = ''late'', dc_resolver = ''admission''\<rparr>"
proof -
  have ok: "decisions_ok ext_new" "ext_decision (TypeId ''Cost'') ext_new = None"
    by (simp_all add: decisions_ok_def ext_inv_new ext_decision_def ext_get_eq) (simp_all add: ext_new_def)
  obtain rs e1 where p: "propose_all (TypeId ''Cost'') [(''budget'', 3), (''est'', 5 :: int)] ext_new = (rs, e1)" by fastforce
  obtain ps e2 where r: "resolve (TypeId ''Cost'') (set_module ''admission'' e1) = (ps, e2)" by fastforce
  from decision_resolution [OF ok p r, of 7 "''late''"] p r show ?thesis by auto
qed

end
