(* ===== verification/Module_Stack.thy ===== *)
theory Module_Stack
  imports Wire_Sections Extensions
begin

text \<open>
  Modules and the stack that runs them, \<open>libs/rpcstack/src/module.rs\<close>. A module is the record
  of its trait items; its hooks are arbitrary functions. What a hook may change is what the trait
  hands it mutably, and the world \<open>'g\<close>, which holds whatever modules and servers keep behind
  interior mutability (the instance that \<open>Module::new\<close> returns included). A stack
  \<open>Stack<H, T>\<close> is a list of modules, \<open>()\<close> the empty list. The type variables are the
  world \<open>'g\<close>, the values of the typed maps \<open>'v\<close>, requests \<open>'r\<close>, statuses \<open>'s\<close> and
  responses \<open>'p\<close>; a \<open>Result\<close> is a sum with the error on the left. The definitions are
  those of a release build: the checks under \<open>debug_assertions\<close> are left out.
\<close>

section \<open>Server state and dependencies\<close>

datatype missing = ServerState | ModuleAbsent | ModuleLater

record missing_dependency =
  md_resource :: string
  md_module :: string
  md_missing :: missing

definition missing_dependency_display :: "missing_dependency \<Rightarrow> string" where
  "missing_dependency_display d =
     (case md_missing d of
        ServerState \<Rightarrow>
          ''policy stack misconfigured: module server `'' @ md_module d @ ''` requires a `'' @ md_resource d @
          ''` published by a module earlier in the stack, but none did; add the providing module or move it '' @
          ''before `'' @ md_module d @ ''`''
      | ModuleAbsent \<Rightarrow>
          ''policy stack misconfigured: module `'' @ md_module d @ ''` requires module `'' @ md_resource d @
          ''` earlier in the stack, but the stack has none; add `'' @ md_resource d @ ''` before `'' @ md_module d @ ''`''
      | ModuleLater \<Rightarrow>
          ''policy stack misconfigured: module `'' @ md_module d @ ''` requires module `'' @ md_resource d @
          ''` earlier in the stack, but it comes later; move `'' @ md_resource d @ ''` before `'' @ md_module d @ ''`'')"

record 'v server_init =
  si_service_name :: string
  si_module :: string
  si_resources :: "type_id \<rightharpoonup> 'v any"

definition si_new :: "string \<Rightarrow> 'v server_init" where
  "si_new service_name = \<lparr>si_service_name = service_name, si_module = '''', si_resources = Map.empty\<rparr>"

definition si_enter :: "string \<Rightarrow> 'v server_init \<Rightarrow> 'v server_init" where
  "si_enter name init = init\<lparr>si_module := name\<rparr>"

definition si_provide :: "type_id \<Rightarrow> 'v stored \<Rightarrow> 'v server_init \<Rightarrow> 'v server_init" where
  "si_provide t v init = init\<lparr>si_resources := (si_resources init)(t \<mapsto> Any t v)\<rparr>"

definition si_get :: "type_id \<Rightarrow> 'v server_init \<Rightarrow> 'v stored option" where
  "si_get t init = (case si_resources init t of None \<Rightarrow> None | Some a \<Rightarrow> downcast t a)"

definition si_require :: "type_id \<Rightarrow> 'v server_init \<Rightarrow> missing_dependency + 'v stored" where
  "si_require t init =
     (case si_get t init of
        Some v \<Rightarrow> Inr v
      | None \<Rightarrow> Inl \<lparr>md_resource = type_name t, md_module = si_module init, md_missing = ServerState\<rparr>)"

record requires =
  req_modules :: "(type_id \<times> string) list"

definition requires_module :: "type_id \<Rightarrow> string \<Rightarrow> requires \<Rightarrow> requires" where
  "requires_module t name r = r\<lparr>req_modules := req_modules r @ [(t, name)]\<rparr>"

section \<open>Outcomes\<close>

datatype 's outcome = Handled | RequestRejected string 's | Replied string

fun ended_by :: "'s outcome \<Rightarrow> string option" where
  "ended_by Handled = None"
| "ended_by (RequestRejected by status) = Some by"
| "ended_by (Replied by) = Some by"

datatype ('s, 'p) child_outcome = Sent "'s + 'p" | ChildRejected string 's

fun sent :: "('s, 'p) child_outcome \<Rightarrow> ('s + 'p) option" where
  "sent (Sent response) = Some response"
| "sent (ChildRejected by status) = None"

datatype 'a poll = PollPending | PollReady 'a

record ('s, 'p) early =
  early_by :: string
  early_reply :: "'s + 'p"

record 's rejection =
  rejection_by :: string
  rejection_status :: 's

section \<open>The module trait\<close>

text \<open>The service and the method of an RPC (\<open>CowGrpcMethod\<close>).\<close>

record grpc_method =
  gm_service :: string
  gm_method :: string

text \<open>What the hooks of a child RPC may change, and those of a root RPC.\<close>

record ('g, 'v, 'r) child_ctx =
  cx_child :: "'v child_state"
  cx_request :: 'r
  cx_wire :: wire_out
  cx_ext :: "'v extensions"
  cx_world :: 'g

record ('g, 'v, 'r) root_ctx =
  rx_request :: 'r
  rx_wire :: wire_out
  rx_state :: "'v child_state"
  rx_world :: 'g

record ('g, 'v, 'r, 's, 'p) module =
  m_NAME :: string
  m_POLL_HOOKS :: bool
  m_id :: type_id
  m_type_name :: string
  m_wire_id :: type_id
  m_server_type_name :: string
  m_server_new :: "'v server_init \<Rightarrow> 'g \<Rightarrow> (missing_dependency + unit) \<times> 'v server_init \<times> 'g"
  m_requires :: "requires \<Rightarrow> requires"
  m_before_root_rpc :: "grpc_method \<Rightarrow> ('g, 'v, 'r) root_ctx \<Rightarrow> ('s + unit) \<times> ('g, 'v, 'r) root_ctx"
  m_after_root_rpc :: "grpc_method \<Rightarrow> ('s, 'p) child_outcome \<Rightarrow> wire_in \<Rightarrow> 'v child_state \<Rightarrow> 'g \<Rightarrow> ('s + unit) \<times> 'g"
  m_new :: "grpc_method \<Rightarrow> wire_in \<Rightarrow> 'v extensions \<Rightarrow> 'g \<Rightarrow> 'v extensions \<times> 'g"
  m_before_poll :: "'v extensions \<Rightarrow> 'g \<Rightarrow> (('s + 'p) + unit) \<times> 'v extensions \<times> 'g"
  m_before_child_rpc :: "grpc_method \<Rightarrow> ('g, 'v, 'r) child_ctx \<Rightarrow> ('s + unit) \<times> ('g, 'v, 'r) child_ctx"
  m_seal_child_rpc :: "grpc_method \<Rightarrow> ('g, 'v, 'r) child_ctx \<Rightarrow> ('s + unit) \<times> ('g, 'v, 'r) child_ctx"
  m_after_child_rpc :: "grpc_method \<Rightarrow> ('s, 'p) child_outcome \<Rightarrow> wire_in \<Rightarrow> 'v child_state \<Rightarrow> 'v extensions \<Rightarrow> 'g \<Rightarrow>
    ('s + unit) \<times> 'g"
  m_after_poll :: "('s + 'p) poll \<Rightarrow> 'v extensions \<Rightarrow> 'g \<Rightarrow> (('s + 'p) + unit) \<times> 'g"
  m_finalize :: "('s + 'p) \<Rightarrow> 's outcome \<Rightarrow> wire_out \<Rightarrow> 'v extensions \<Rightarrow> 'g \<Rightarrow> ('s + 'p) \<times> wire_out \<times> 'g"

text \<open>The identity of the unit type, which is also the wire type of a module without wire data.\<close>

definition UNIT :: type_id where
  "UNIT = TypeId ''()''"

text \<open>The empty module: every hook is the trait's default.\<close>

definition empty_module :: "('g, 'v, 'r, 's, 'p) module" where
  "empty_module = \<lparr>
     m_NAME = '''', m_POLL_HOOKS = False, m_id = UNIT, m_type_name = ''()'', m_wire_id = UNIT,
     m_server_type_name = ''()'',
     m_server_new = (\<lambda>init g. (Inr (), init, g)),
     m_requires = (\<lambda>r. r),
     m_before_root_rpc = (\<lambda>method rx. (Inr (), rx)),
     m_after_root_rpc = (\<lambda>method outcome wire state g. (Inr (), g)),
     m_new = (\<lambda>method wire ext g. (ext, g)),
     m_before_poll = (\<lambda>ext g. (Inr (), ext, g)),
     m_before_child_rpc = (\<lambda>method cx. (Inr (), cx)),
     m_seal_child_rpc = (\<lambda>method cx. (Inr (), cx)),
     m_after_child_rpc = (\<lambda>method outcome wire child ext g. (Inr (), g)),
     m_after_poll = (\<lambda>poll ext g. (Inr (), g)),
     m_finalize = (\<lambda>result outcome wire ext g. (result, wire, g))\<rparr>"

section \<open>Validation of a stack\<close>

record module_decl =
  decl_id :: type_id
  decl_type_name :: string
  decl_name :: string
  decl_has_wire :: bool
  decl_is_empty :: bool
  decl_requires :: requires

definition module_decl_of :: "('g, 'v, 'r, 's, 'p) module \<Rightarrow> module_decl" where
  "module_decl_of m = \<lparr>
     decl_id = m_id m, decl_type_name = m_type_name m, decl_name = m_NAME m,
     decl_has_wire = (m_wire_id m \<noteq> UNIT), decl_is_empty = (m_id m = UNIT),
     decl_requires = m_requires m \<lparr>req_modules = []\<rparr>\<rparr>"

primrec stack_describe :: "('g, 'v, 'r, 's, 'p) module list \<Rightarrow> module_decl list \<Rightarrow> module_decl list" where
  "stack_describe [] modules = modules"
| "stack_describe (h # t) modules = stack_describe t (modules @ [module_decl_of h])"

text \<open>The first loop of \<open>validate_stack\<close>, over the modules after \<open>before\<close>.\<close>

fun validate_names :: "module_decl list \<Rightarrow> module_decl list \<Rightarrow> unit exec" where
  "validate_names before [] = Done ()"
| "validate_names before (m # ms) =
     (if decl_is_empty m then validate_names (before @ [m]) ms
      else bind_exec (if decl_has_wire m then assert_valid_name (decl_name m) else Done ())
        (\<lambda>_. case find (\<lambda>e. \<not> decl_is_empty e \<and> decl_name e = decl_name m) before of
            Some first \<Rightarrow> Panic
          | None \<Rightarrow> validate_names (before @ [m]) ms))"

text \<open>The second loop, and its inner loop over the requirements of one module.\<close>

fun check_requires :: "module_decl list \<Rightarrow> module_decl \<Rightarrow> module_decl list \<Rightarrow> (type_id \<times> string) list \<Rightarrow>
    missing_dependency + unit" where
  "check_requires before m after [] = Inr ()"
| "check_requires before m after ((rid, rname) # rs) =
     (if list_ex (\<lambda>e. decl_id e = rid) before then check_requires before m after rs
      else Inl \<lparr>md_resource = rname, md_module = decl_type_name m,
        md_missing = (if list_ex (\<lambda>l. decl_id l = rid) after then ModuleLater else ModuleAbsent)\<rparr>)"

fun validate_requires :: "module_decl list \<Rightarrow> module_decl list \<Rightarrow> missing_dependency + unit" where
  "validate_requires before [] = Inr ()"
| "validate_requires before (m # ms) =
     (case check_requires before m ms (req_modules (decl_requires m)) of
        Inl d \<Rightarrow> Inl d
      | Inr _ \<Rightarrow> validate_requires (before @ [m]) ms)"

definition validate_stack :: "('g, 'v, 'r, 's, 'p) module list \<Rightarrow> (missing_dependency + unit) exec" where
  "validate_stack S =
     (let modules = stack_describe S [] in
      bind_exec (validate_names [] modules) (\<lambda>_. Done (validate_requires [] modules)))"

text \<open>\<open>type_name\<close> of the server type of a stack, a nested pair.\<close>

primrec stack_server_type_name :: "('g, 'v, 'r, 's, 'p) module list \<Rightarrow> string" where
  "stack_server_type_name [] = ''()''"
| "stack_server_type_name (h # t) = ''('' @ m_server_type_name h @ '', '' @ stack_server_type_name t @ '')''"

primrec stack_server_new :: "('g, 'v, 'r, 's, 'p) module list \<Rightarrow> 'v server_init \<Rightarrow> 'g \<Rightarrow>
    (missing_dependency + unit) \<times> 'v server_init \<times> 'g" where
  "stack_server_new [] init g = (Inr (), init, g)"
| "stack_server_new (h # t) init g =
     (case m_server_new h (si_enter (m_server_type_name h) init) g of
        (Inl d, init1, g1) \<Rightarrow> (Inl d, init1, g1)
      | (Inr _, init1, g1) \<Rightarrow> stack_server_new t (si_enter (stack_server_type_name t) init1) g1)"

definition build_server :: "('g, 'v, 'r, 's, 'p) module list \<Rightarrow> string \<Rightarrow> 'g \<Rightarrow> ((missing_dependency + unit) \<times> 'g) exec" where
  "build_server S service_name g =
     bind_exec (validate_stack S) (\<lambda>r. case r of
         Inl d \<Rightarrow> Done (Inl d, g)
       | Inr _ \<Rightarrow> (case stack_server_new S (si_new service_name) g of (r', _, g') \<Rightarrow> Done (r', g')))"

section \<open>Running the hooks of a stack\<close>

text \<open>\<open>Result::and\<close>: the first error.\<close>

definition result_and :: "'s + unit \<Rightarrow> 's + unit \<Rightarrow> 's + unit" where
  "result_and a b = (case a of Inl e \<Rightarrow> Inl e | Inr _ \<Rightarrow> b)"

definition child_set_module :: "string \<Rightarrow> 'v child_state \<Rightarrow> 'v child_state" where
  "child_set_module name child = ChildState (set_module name (child_extensions child))"

primrec stack_poll_hooks :: "('g, 'v, 'r, 's, 'p) module list \<Rightarrow> bool" where
  "stack_poll_hooks [] = False"
| "stack_poll_hooks (h # t) = (m_POLL_HOOKS h \<or> stack_poll_hooks t)"

primrec stack_before_root_rpc :: "('g, 'v, 'r, 's, 'p) module list \<Rightarrow> grpc_method \<Rightarrow> ('g, 'v, 'r) root_ctx \<Rightarrow>
    ('s rejection + unit) \<times> ('g, 'v, 'r) root_ctx" where
  "stack_before_root_rpc [] method rx = (Inr (), rx)"
| "stack_before_root_rpc (h # t) method rx =
     (case (case m_before_root_rpc h method (rx\<lparr>rx_state := child_set_module (m_NAME h) (rx_state rx)\<rparr>) of
              (Inl status, rx1) \<Rightarrow> (Inl \<lparr>rejection_by = m_NAME h, rejection_status = status\<rparr>, rx1)
            | (Inr _, rx1) \<Rightarrow> stack_before_root_rpc t method rx1) of
        (Inr _, rx2) \<Rightarrow> (Inr (), rx2)
      | (Inl rejection, rx2) \<Rightarrow>
          (case m_after_root_rpc h method (ChildRejected (rejection_by rejection) (rejection_status rejection))
                  wi_default (rx_state rx2) (rx_world rx2) of
             (_, g) \<Rightarrow> (Inl rejection, rx2\<lparr>rx_world := g\<rparr>)))"

primrec stack_after_root_rpc :: "('g, 'v, 'r, 's, 'p) module list \<Rightarrow> grpc_method \<Rightarrow> ('s, 'p) child_outcome \<Rightarrow>
    wire_in \<Rightarrow> 'v child_state \<Rightarrow> 'g \<Rightarrow> ('s + unit) \<times> 'g" where
  "stack_after_root_rpc [] method outcome wire state g = (Inr (), g)"
| "stack_after_root_rpc (h # t) method outcome wire state g =
     (case stack_after_root_rpc t method outcome wire state g of (tail, g1) \<Rightarrow>
        (case m_after_root_rpc h method outcome wire state g1 of (head, g2) \<Rightarrow> (result_and tail head, g2)))"

primrec stack_new :: "('g, 'v, 'r, 's, 'p) module list \<Rightarrow> grpc_method \<Rightarrow> wire_in \<Rightarrow> 'v extensions \<Rightarrow> 'g \<Rightarrow> 'v extensions \<times> 'g" where
  "stack_new [] method wire ext g = (ext, g)"
| "stack_new (h # t) method wire ext g =
     (case m_new h method wire ext g of (ext1, g1) \<Rightarrow> stack_new t method wire ext1 g1)"

primrec stack_before_poll :: "('g, 'v, 'r, 's, 'p) module list \<Rightarrow> 'v extensions \<Rightarrow> 'g \<Rightarrow>
    (('s, 'p) early + unit) \<times> 'v extensions \<times> 'g" where
  "stack_before_poll [] ext g = (Inr (), ext, g)"
| "stack_before_poll (h # t) ext g =
     (if m_POLL_HOOKS h then
        (case m_before_poll h (set_module (m_NAME h) ext) g of
           (Inl reply, ext1, g1) \<Rightarrow> (Inl \<lparr>early_by = m_NAME h, early_reply = reply\<rparr>, ext1, g1)
         | (Inr _, ext1, g1) \<Rightarrow> stack_before_poll t ext1 g1)
      else stack_before_poll t ext g)"

primrec stack_after_poll :: "('g, 'v, 'r, 's, 'p) module list \<Rightarrow> ('s + 'p) poll \<Rightarrow> 'v extensions \<Rightarrow> 'g \<Rightarrow>
    (('s, 'p) early + unit) \<times> 'g" where
  "stack_after_poll [] poll ext g = (Inr (), g)"
| "stack_after_poll (h # t) poll ext g =
     (if m_POLL_HOOKS h then
        (case m_after_poll h poll ext g of
           (Inl reply, g1) \<Rightarrow> (Inl \<lparr>early_by = m_NAME h, early_reply = reply\<rparr>, g1)
         | (Inr _, g1) \<Rightarrow> stack_after_poll t poll ext g1)
      else stack_after_poll t poll ext g)"

text \<open>What the framework records before it calls a hook of the module \<open>h\<close>.\<close>

definition enter_module :: "string \<Rightarrow> ('g, 'v, 'r) child_ctx \<Rightarrow> ('g, 'v, 'r) child_ctx" where
  "enter_module name cx =
     cx\<lparr>cx_child := child_set_module name (cx_child cx), cx_ext := set_module name (cx_ext cx)\<rparr>"

primrec stack_before_child_rpc :: "('g, 'v, 'r, 's, 'p) module list \<Rightarrow> grpc_method \<Rightarrow> ('g, 'v, 'r) child_ctx \<Rightarrow>
    ('s rejection + unit) \<times> ('g, 'v, 'r) child_ctx" where
  "stack_before_child_rpc [] method cx = (Inr (), cx)"
| "stack_before_child_rpc (h # t) method cx =
     (case (case m_before_child_rpc h method (enter_module (m_NAME h) cx) of
              (Inl status, cx1) \<Rightarrow> (Inl \<lparr>rejection_by = m_NAME h, rejection_status = status\<rparr>, cx1)
            | (Inr _, cx1) \<Rightarrow> stack_before_child_rpc t method cx1) of
        (Inr _, cx2) \<Rightarrow> (Inr (), cx2)
      | (Inl rejection, cx2) \<Rightarrow>
          (case m_after_child_rpc h method (ChildRejected (rejection_by rejection) (rejection_status rejection))
                  wi_default (cx_child cx2) (cx_ext cx2) (cx_world cx2) of
             (_, g) \<Rightarrow> (Inl rejection, cx2\<lparr>cx_world := g\<rparr>)))"

primrec stack_seal_child_rpc :: "('g, 'v, 'r, 's, 'p) module list \<Rightarrow> grpc_method \<Rightarrow> ('g, 'v, 'r) child_ctx \<Rightarrow>
    ('s rejection + unit) \<times> ('g, 'v, 'r) child_ctx" where
  "stack_seal_child_rpc [] method cx = (Inr (), cx)"
| "stack_seal_child_rpc (h # t) method cx =
     (case stack_seal_child_rpc t method cx of
        (Inl rejection, cx1) \<Rightarrow> (Inl rejection, cx1)
      | (Inr _, cx1) \<Rightarrow>
          (case m_seal_child_rpc h method (enter_module (m_NAME h) cx1) of
             (Inl status, cx2) \<Rightarrow> (Inl \<lparr>rejection_by = m_NAME h, rejection_status = status\<rparr>, cx2)
           | (Inr _, cx2) \<Rightarrow> (Inr (), cx2)))"

primrec stack_reject_child_rpc :: "('g, 'v, 'r, 's, 'p) module list \<Rightarrow> grpc_method \<Rightarrow> string \<Rightarrow> 's \<Rightarrow>
    'v child_state \<Rightarrow> 'v extensions \<Rightarrow> 'g \<Rightarrow> 'g" where
  "stack_reject_child_rpc [] method by status child ext g = g"
| "stack_reject_child_rpc (h # t) method by status child ext g =
     snd (m_after_child_rpc h method (ChildRejected by status) wi_default child ext
       (stack_reject_child_rpc t method by status child ext g))"

primrec stack_after_child_rpc :: "('g, 'v, 'r, 's, 'p) module list \<Rightarrow> grpc_method \<Rightarrow> ('s, 'p) child_outcome \<Rightarrow>
    wire_in \<Rightarrow> 'v child_state \<Rightarrow> 'v extensions \<Rightarrow> 'g \<Rightarrow> ('s + unit) \<times> 'g" where
  "stack_after_child_rpc [] method outcome wire child ext g = (Inr (), g)"
| "stack_after_child_rpc (h # t) method outcome wire child ext g =
     (case stack_after_child_rpc t method outcome wire child ext g of (tail, g1) \<Rightarrow>
        (case m_after_child_rpc h method outcome wire child ext g1 of (head, g2) \<Rightarrow> (result_and tail head, g2)))"

primrec stack_finalize :: "('g, 'v, 'r, 's, 'p) module list \<Rightarrow> ('s + 'p) \<Rightarrow> 's outcome \<Rightarrow> wire_out \<Rightarrow>
    'v extensions \<Rightarrow> 'g \<Rightarrow> ('s + 'p) \<times> wire_out \<times> 'g" where
  "stack_finalize [] result outcome wire ext g = (result, wire, g)"
| "stack_finalize (h # t) result outcome wire ext g =
     (case stack_finalize t result outcome wire ext g of (result1, wire1, g1) \<Rightarrow>
        m_finalize h result1 outcome wire1 ext g1)"

section \<open>Observing which hooks run\<close>

text \<open>
  An instrumented module behaves like the module and, beside the world, keeps a log of the hooks
  that ran and of what they returned.
\<close>

datatype ('s, 'p) hook_event =
    EvBefore string "'s + unit"
  | EvSeal string "'s + unit"
  | EvAfter string "('s, 'p) child_outcome" "'s + unit"
  | EvFinalize string

definition cx_with_world :: "'h \<Rightarrow> ('g, 'v, 'r) child_ctx \<Rightarrow> ('h, 'v, 'r) child_ctx" where
  "cx_with_world w cx = \<lparr>cx_child = cx_child cx, cx_request = cx_request cx, cx_wire = cx_wire cx,
     cx_ext = cx_ext cx, cx_world = w\<rparr>"

definition rx_with_world :: "'h \<Rightarrow> ('g, 'v, 'r) root_ctx \<Rightarrow> ('h, 'v, 'r) root_ctx" where
  "rx_with_world w rx = \<lparr>rx_request = rx_request rx, rx_wire = rx_wire rx, rx_state = rx_state rx, rx_world = w\<rparr>"

text \<open>Run a hook on the inner world and log an event made from its result.\<close>

definition log_cx :: "('s + unit \<Rightarrow> 'e) \<Rightarrow> (('g, 'v, 'r) child_ctx \<Rightarrow> ('s + unit) \<times> ('g, 'v, 'r) child_ctx) \<Rightarrow>
    ('g \<times> 'e list, 'v, 'r) child_ctx \<Rightarrow> ('s + unit) \<times> ('g \<times> 'e list, 'v, 'r) child_ctx" where
  "log_cx ev hook cx =
     (case hook (cx_with_world (fst (cx_world cx)) cx) of
        (r, cx1) \<Rightarrow> (r, cx_with_world (cx_world cx1, snd (cx_world cx) @ [ev r]) cx1))"

definition log_rx :: "('s + unit \<Rightarrow> 'e) \<Rightarrow> (('g, 'v, 'r) root_ctx \<Rightarrow> ('s + unit) \<times> ('g, 'v, 'r) root_ctx) \<Rightarrow>
    ('g \<times> 'e list, 'v, 'r) root_ctx \<Rightarrow> ('s + unit) \<times> ('g \<times> 'e list, 'v, 'r) root_ctx" where
  "log_rx ev hook rx =
     (case hook (rx_with_world (fst (rx_world rx)) rx) of
        (r, rx1) \<Rightarrow> (r, rx_with_world (rx_world rx1, snd (rx_world rx) @ [ev r]) rx1))"

definition log_world :: "('s + unit \<Rightarrow> 'e) \<Rightarrow> ('g \<Rightarrow> ('s + unit) \<times> 'g) \<Rightarrow> 'g \<times> 'e list \<Rightarrow> ('s + unit) \<times> 'g \<times> 'e list" where
  "log_world ev hook w = (case hook (fst w) of (r, g) \<Rightarrow> (r, g, snd w @ [ev r]))"

definition logged :: "('g, 'v, 'r, 's, 'p) module \<Rightarrow> ('g \<times> ('s, 'p) hook_event list, 'v, 'r, 's, 'p) module" where
  "logged m = \<lparr>
     m_NAME = m_NAME m, m_POLL_HOOKS = m_POLL_HOOKS m, m_id = m_id m, m_type_name = m_type_name m,
     m_wire_id = m_wire_id m, m_server_type_name = m_server_type_name m,
     m_server_new = (\<lambda>init w. case m_server_new m init (fst w) of (r, init1, g) \<Rightarrow> (r, init1, g, snd w)),
     m_requires = m_requires m,
     m_before_root_rpc = (\<lambda>method. log_rx (EvBefore (m_NAME m)) (m_before_root_rpc m method)),
     m_after_root_rpc = (\<lambda>method outcome wire state.
       log_world (EvAfter (m_NAME m) outcome) (m_after_root_rpc m method outcome wire state)),
     m_new = (\<lambda>method wire ext w. case m_new m method wire ext (fst w) of (ext1, g) \<Rightarrow> (ext1, g, snd w)),
     m_before_poll = (\<lambda>ext w. case m_before_poll m ext (fst w) of (r, ext1, g) \<Rightarrow> (r, ext1, g, snd w)),
     m_before_child_rpc = (\<lambda>method. log_cx (EvBefore (m_NAME m)) (m_before_child_rpc m method)),
     m_seal_child_rpc = (\<lambda>method. log_cx (EvSeal (m_NAME m)) (m_seal_child_rpc m method)),
     m_after_child_rpc = (\<lambda>method outcome wire child ext.
       log_world (EvAfter (m_NAME m) outcome) (m_after_child_rpc m method outcome wire child ext)),
     m_after_poll = (\<lambda>poll ext w. case m_after_poll m poll ext (fst w) of (r, g) \<Rightarrow> (r, g, snd w)),
     m_finalize = (\<lambda>result outcome wire ext w. case m_finalize m result outcome wire ext (fst w) of
       (result1, wire1, g) \<Rightarrow> (result1, wire1, g, snd w @ [EvFinalize (m_NAME m)]))\<rparr>"

text \<open>
  What the proofs need of a log: each hook appends the one event that says that it ran and what
  it returned.
\<close>

locale hook_log =
  fixes log :: "'g \<Rightarrow> ('s, 'p) hook_event list"
    and instrument :: "'m \<Rightarrow> ('g, 'v, 'r, 's, 'p) module"
  assumes before_child: "m_before_child_rpc (instrument m) method cx = (r, cx') \<Longrightarrow>
      log (cx_world cx') = log (cx_world cx) @ [EvBefore (m_NAME (instrument m)) r]"
    and seal_child: "m_seal_child_rpc (instrument m) method cx = (r, cx') \<Longrightarrow>
      log (cx_world cx') = log (cx_world cx) @ [EvSeal (m_NAME (instrument m)) r]"
    and after_child: "m_after_child_rpc (instrument m) method outcome wire child ext g = (r, g') \<Longrightarrow>
      log g' = log g @ [EvAfter (m_NAME (instrument m)) outcome r]"
    and before_root: "m_before_root_rpc (instrument m) method rx = (r, rx') \<Longrightarrow>
      log (rx_world rx') = log (rx_world rx) @ [EvBefore (m_NAME (instrument m)) r]"
    and after_root: "m_after_root_rpc (instrument m) method outcome wire child g = (r, g') \<Longrightarrow>
      log g' = log g @ [EvAfter (m_NAME (instrument m)) outcome r]"
    and finalize: "m_finalize (instrument m) result ended wire_out ext g = (result', wire', g') \<Longrightarrow>
      log g' = log g @ [EvFinalize (m_NAME (instrument m))]"
begin

abbreviation stack :: "'m list \<Rightarrow> ('g, 'v, 'r, 's, 'p) module list" where
  "stack ms \<equiv> map instrument ms"

abbreviation names :: "'m list \<Rightarrow> string list" where
  "names ms \<equiv> map (\<lambda>m. m_NAME (instrument m)) ms"

lemma enter_module_world [simp]: "cx_world (enter_module name cx) = cx_world cx"
  by (simp add: enter_module_def)

text \<open>Post-hooks: every module, tail first; the first error in that order is the result.\<close>

definition afters :: "('s, 'p) child_outcome \<Rightarrow> 'm list \<Rightarrow> ('s + unit) list \<Rightarrow> ('s, 'p) hook_event list" where
  "afters outcome ms rs = map2 (\<lambda>n r. EvAfter n outcome r) (names ms) rs"

definition first_error :: "('s + unit) list \<Rightarrow> 's + unit" where
  "first_error rs = foldl result_and (Inr ()) rs"

lemma first_error_snoc: "first_error (rs @ [r]) = result_and (first_error rs) r"
  by (simp add: first_error_def)

lemma afters_snoc: "length ms = length rs \<Longrightarrow>
    afters outcome (ms @ [m]) (rs @ [r]) = afters outcome ms rs @ [EvAfter (m_NAME (instrument m)) outcome r]"
  by (simp add: afters_def)

lemma after_child_stack:
  "stack_after_child_rpc (stack ms) method outcome wire child ext g = (r, g') \<Longrightarrow>
   \<exists>rs. length rs = length ms \<and> log g' = log g @ afters outcome (rev ms) rs \<and> r = first_error rs"
proof (induction ms arbitrary: r g')
  case (Cons m ms)
  obtain r1 g1 where t: "stack_after_child_rpc (stack ms) method outcome wire child ext g = (r1, g1)" by fastforce
  obtain r2 g2 where h: "m_after_child_rpc (instrument m) method outcome wire child ext g1 = (r2, g2)" by fastforce
  from Cons.IH [OF t] obtain rs where "length rs = length ms" "log g1 = log g @ afters outcome (rev ms) rs" "r1 = first_error rs"
    by blast
  then show ?case using t h Cons.prems after_child [OF h]
    by (intro exI [of _ "rs @ [r2]"]) (simp add: afters_snoc first_error_snoc)
qed (simp add: afters_def first_error_def)

lemma reject_child_stack:
  "\<exists>rs. length rs = length ms \<and>
     log (stack_reject_child_rpc (stack ms) method by status child ext g) =
       log g @ afters (ChildRejected by status) (rev ms) rs"
proof (induction ms)
  case (Cons m ms)
  let ?g = "stack_reject_child_rpc (stack ms) method by status child ext g"
  obtain r g' where h: "m_after_child_rpc (instrument m) method (ChildRejected by status) wi_default child ext ?g = (r, g')"
    by fastforce
  from Cons obtain rs where "length rs = length ms" "log ?g = log g @ afters (ChildRejected by status) (rev ms) rs" by blast
  then show ?case using h after_child [OF h] by (intro exI [of _ "rs @ [r]"]) (simp add: afters_snoc)
qed (simp add: afters_def)

text \<open>
  Pre-hooks: in order up to the first that rejects; the ones that ran, the rejecting one
  included, are told in reverse order.
\<close>

definition befores :: "'m list \<Rightarrow> ('s, 'p) hook_event list" where
  "befores ms = map (\<lambda>n. EvBefore n (Inr ())) (names ms)"

definition rejected_at :: "'m list \<Rightarrow> 'm list \<Rightarrow> 'm \<Rightarrow> 'm list \<Rightarrow> 's rejection \<Rightarrow> ('s, 'p) hook_event list \<Rightarrow> bool" where
  "rejected_at ms pre m post rej events \<longleftrightarrow>
     ms = pre @ m # post \<and> rejection_by rej = m_NAME (instrument m) \<and>
     (\<exists>rs. length rs = Suc (length pre) \<and>
       events = befores pre @ [EvBefore (m_NAME (instrument m)) (Inl (rejection_status rej))] @
         afters (ChildRejected (rejection_by rej) (rejection_status rej)) (m # rev pre) rs)"

lemma rejected_at_Cons:
  assumes "rejected_at ms pre m post rej events"
  shows "rejected_at (m0 # ms) (m0 # pre) m post rej
    (EvBefore (m_NAME (instrument m0)) (Inr ()) # events @
      [EvAfter (m_NAME (instrument m0)) (ChildRejected (rejection_by rej) (rejection_status rej)) r])"
proof -
  from assms obtain rs where rs: "length rs = Suc (length pre)"
    "events = befores pre @ [EvBefore (m_NAME (instrument m)) (Inl (rejection_status rej))] @
         afters (ChildRejected (rejection_by rej) (rejection_status rej)) (m # rev pre) rs"
    unfolding rejected_at_def by blast
  moreover have "afters out (m # rev pre) rs @ [EvAfter (m_NAME (instrument m0)) out r] = afters out (m # rev (m0 # pre)) (rs @ [r])" for out
    using afters_snoc [of "m # rev pre" rs out m0 r] rs(1) by simp
  ultimately show ?thesis using assms unfolding rejected_at_def
    by (intro conjI exI [of _ "rs @ [r]"]) (auto simp: befores_def)
qed

lemma before_child_stack:
  "stack_before_child_rpc (stack ms) method cx = (r, cx') \<Longrightarrow>
   \<exists>events. log (cx_world cx') = log (cx_world cx) @ events \<and>
     (case r of Inr _ \<Rightarrow> events = befores ms | Inl rej \<Rightarrow> \<exists>pre m post. rejected_at ms pre m post rej events)"
proof (induction ms arbitrary: cx r cx')
  case (Cons m ms)
  obtain r1 cx1 where b: "m_before_child_rpc (instrument m) method (enter_module (m_NAME (instrument m)) cx) = (r1, cx1)" by fastforce
  note l1 = before_child [OF b, simplified]
  let ?after = "\<lambda>rej cx2. m_after_child_rpc (instrument m) method (ChildRejected (rejection_by rej) (rejection_status rej))
      wi_default (cx_child cx2) (cx_ext cx2) (cx_world cx2)"
  show ?case
  proof (cases r1)
    case (Inl status)
    let ?rej = "\<lparr>rejection_by = m_NAME (instrument m), rejection_status = status\<rparr>"
    obtain r2 g2 where a: "?after ?rej cx1 = (r2, g2)" by fastforce
    have "rejected_at (m # ms) [] m ms ?rej
        [EvBefore (m_NAME (instrument m)) (Inl status), EvAfter (m_NAME (instrument m)) (ChildRejected (m_NAME (instrument m)) status) r2]"
      unfolding rejected_at_def by (intro conjI exI [of _ "[r2]"]) (simp_all add: befores_def afters_def)
    moreover have "r = Inl ?rej" "log (cx_world cx') = log (cx_world cx) @
        [EvBefore (m_NAME (instrument m)) (Inl status), EvAfter (m_NAME (instrument m)) (ChildRejected (m_NAME (instrument m)) status) r2]"
      using Cons.prems b Inl a after_child [OF a] l1 by auto
    ultimately show ?thesis by (simp only: sum.case) blast
  next
    case (Inr u)
    obtain r2 cx2 where t: "stack_before_child_rpc (stack ms) method cx1 = (r2, cx2)" by fastforce
    from Cons.IH [OF t] obtain events where ev: "log (cx_world cx2) = log (cx_world cx1) @ events"
      "case r2 of Inr _ \<Rightarrow> events = befores ms | Inl rej \<Rightarrow> \<exists>pre m post. rejected_at ms pre m post rej events" by blast
    show ?thesis
    proof (cases r2)
      case (Inl rej)
      obtain r3 g3 where a: "?after rej cx2 = (r3, g3)" by fastforce
      from ev(2) Inl obtain pre m' post where "rejected_at ms pre m' post rej events" by auto
      from rejected_at_Cons [OF this, of m r3] show ?thesis
        using Cons.prems b Inr t Inl a after_child [OF a] l1 ev(1) by (fastforce simp: unit_eq [of u])
    next
      case (Inr u')
      then show ?thesis using Cons.prems b \<open>r1 = Inr u\<close> t ev l1 by (auto simp: befores_def unit_eq [of u])
    qed
  qed
qed (simp add: befores_def)

lemma seal_child_stack:
  "stack_seal_child_rpc (stack ms) method cx = (r, cx') \<Longrightarrow>
   \<exists>events. log (cx_world cx') = log (cx_world cx) @ events \<and>
     (case r of
        Inr _ \<Rightarrow> events = map (\<lambda>n. EvSeal n (Inr ())) (rev (names ms))
      | Inl rej \<Rightarrow> \<exists>pre m post. ms = pre @ m # post \<and> rejection_by rej = m_NAME (instrument m) \<and>
          events = map (\<lambda>n. EvSeal n (Inr ())) (rev (names post)) @ [EvSeal (m_NAME (instrument m)) (Inl (rejection_status rej))])"
proof (induction ms arbitrary: r cx')
  case (Cons m ms)
  obtain r1 cx1 where t: "stack_seal_child_rpc (stack ms) method cx = (r1, cx1)" by fastforce
  from Cons.IH [OF t] obtain events where ev: "log (cx_world cx1) = log (cx_world cx) @ events"
     "case r1 of
        Inr _ \<Rightarrow> events = map (\<lambda>n. EvSeal n (Inr ())) (rev (names ms))
      | Inl rej \<Rightarrow> \<exists>pre m post. ms = pre @ m # post \<and> rejection_by rej = m_NAME (instrument m) \<and>
          events = map (\<lambda>n. EvSeal n (Inr ())) (rev (names post)) @ [EvSeal (m_NAME (instrument m)) (Inl (rejection_status rej))]"
    by blast
  show ?case
  proof (cases r1)
    case (Inl rej)
    with ev(2) obtain pre m' post where "ms = pre @ m' # post" "rejection_by rej = m_NAME (instrument m')"
      "events = map (\<lambda>n. EvSeal n (Inr ())) (rev (names post)) @ [EvSeal (m_NAME (instrument m')) (Inl (rejection_status rej))]" by auto
    then show ?thesis using Inl t Cons.prems ev(1) by (intro exI [of _ events]) (auto intro!: exI [of _ "m # pre"])
  next
    case (Inr u)
    obtain r2 cx2 where h: "m_seal_child_rpc (instrument m) method (enter_module (m_NAME (instrument m)) cx1) = (r2, cx2)" by fastforce
    from seal_child [OF h] show ?thesis using Inr t Cons.prems ev h
      by (cases r2) (auto simp: unit_eq intro!: exI [of _ "[]"])
  qed
qed simp

lemma after_root_stack:
  "stack_after_root_rpc (stack ms) method outcome wire state g = (r, g') \<Longrightarrow>
   \<exists>rs. length rs = length ms \<and> log g' = log g @ afters outcome (rev ms) rs \<and> r = first_error rs"
proof (induction ms arbitrary: r g')
  case (Cons m ms)
  obtain r1 g1 where t: "stack_after_root_rpc (stack ms) method outcome wire state g = (r1, g1)" by fastforce
  obtain r2 g2 where h: "m_after_root_rpc (instrument m) method outcome wire state g1 = (r2, g2)" by fastforce
  from Cons.IH [OF t] obtain rs where "length rs = length ms" "log g1 = log g @ afters outcome (rev ms) rs" "r1 = first_error rs"
    by blast
  then show ?case using t h Cons.prems after_root [OF h]
    by (intro exI [of _ "rs @ [r2]"]) (simp add: afters_snoc first_error_snoc)
qed (simp add: afters_def first_error_def)

lemma before_root_stack:
  "stack_before_root_rpc (stack ms) method rx = (r, rx') \<Longrightarrow>
   \<exists>events. log (rx_world rx') = log (rx_world rx) @ events \<and>
     (case r of Inr _ \<Rightarrow> events = befores ms | Inl rej \<Rightarrow> \<exists>pre m post. rejected_at ms pre m post rej events)"
proof (induction ms arbitrary: rx r rx')
  case (Cons m ms)
  obtain r1 rx1 where b: "m_before_root_rpc (instrument m) method
      (rx\<lparr>rx_state := child_set_module (m_NAME (instrument m)) (rx_state rx)\<rparr>) = (r1, rx1)" by fastforce
  note l1 = before_root [OF b, simplified]
  let ?after = "\<lambda>rej rx2. m_after_root_rpc (instrument m) method (ChildRejected (rejection_by rej) (rejection_status rej))
      wi_default (rx_state rx2) (rx_world rx2)"
  show ?case
  proof (cases r1)
    case (Inl status)
    let ?rej = "\<lparr>rejection_by = m_NAME (instrument m), rejection_status = status\<rparr>"
    obtain r2 g2 where a: "?after ?rej rx1 = (r2, g2)" by fastforce
    have "rejected_at (m # ms) [] m ms ?rej
        [EvBefore (m_NAME (instrument m)) (Inl status), EvAfter (m_NAME (instrument m)) (ChildRejected (m_NAME (instrument m)) status) r2]"
      unfolding rejected_at_def by (intro conjI exI [of _ "[r2]"]) (simp_all add: befores_def afters_def)
    moreover have "r = Inl ?rej" "log (rx_world rx') = log (rx_world rx) @
        [EvBefore (m_NAME (instrument m)) (Inl status), EvAfter (m_NAME (instrument m)) (ChildRejected (m_NAME (instrument m)) status) r2]"
      using Cons.prems b Inl a after_root [OF a] l1 by auto
    ultimately show ?thesis by (simp only: sum.case) blast
  next
    case (Inr u)
    obtain r2 rx2 where t: "stack_before_root_rpc (stack ms) method rx1 = (r2, rx2)" by fastforce
    from Cons.IH [OF t] obtain events where ev: "log (rx_world rx2) = log (rx_world rx1) @ events"
      "case r2 of Inr _ \<Rightarrow> events = befores ms | Inl rej \<Rightarrow> \<exists>pre m post. rejected_at ms pre m post rej events" by blast
    show ?thesis
    proof (cases r2)
      case (Inl rej)
      obtain r3 g3 where a: "?after rej rx2 = (r3, g3)" by fastforce
      from ev(2) Inl obtain pre m' post where "rejected_at ms pre m' post rej events" by auto
      from rejected_at_Cons [OF this, of m r3] show ?thesis
        using Cons.prems b Inr t Inl a after_root [OF a] l1 ev(1) by (fastforce simp: unit_eq [of u])
    next
      case (Inr u')
      then show ?thesis using Cons.prems b \<open>r1 = Inr u\<close> t ev l1 by (auto simp: befores_def unit_eq [of u])
    qed
  qed
qed (simp add: befores_def)

lemma finalize_stack:
  "stack_finalize (stack ms) result outcome wire ext g = (result', wire', g') \<Longrightarrow>
   log g' = log g @ map EvFinalize (rev (names ms))"
proof (induction ms arbitrary: result' wire' g')
  case (Cons m ms)
  obtain result1 wire1 g1 where t: "stack_finalize (stack ms) result outcome wire ext g = (result1, wire1, g1)"
    using prod_cases3 by blast
  from Cons.IH [OF t] Cons.prems t finalize [of m result1 outcome wire1 ext g1] show ?case by simp
qed simp

end

interpretation lg: hook_log snd logged
  by unfold_locales
    (auto simp: logged_def log_cx_def log_rx_def log_world_def cx_with_world_def rx_with_world_def split: prod.splits)

lemma names_logged [simp]: "m_NAME (logged m) = m_NAME m"
  by (simp add: logged_def)

lemma afters_logged: "lg.afters out ms rs = map2 (\<lambda>m. EvAfter (m_NAME m) out) ms rs"
  by (simp add: lg.afters_def zip_map1 case_prod_unfold comp_def)

lemma befores_logged: "lg.befores ms = map (\<lambda>m. EvBefore (m_NAME m) (Inr ())) ms"
  by (simp add: lg.befores_def)

section \<open>Validation\<close>

lemma stack_describe_eq: "stack_describe S modules = modules @ map module_decl_of S"
  by (induction S arbitrary: modules) auto

text \<open>The names a stack must have: valid where they name a section, and distinct.\<close>

definition names_ok :: "module_decl list \<Rightarrow> bool" where
  "names_ok ms \<longleftrightarrow>
     (\<forall>m\<in>set ms. \<not> decl_is_empty m \<and> decl_has_wire m \<longrightarrow> valid_name (decl_name m)) \<and>
     distinct (map decl_name (filter (\<lambda>m. \<not> decl_is_empty m) ms))"

lemma validate_names_eq:
  assumes "distinct (map decl_name (filter (\<lambda>m. \<not> decl_is_empty m) before))"
  shows "validate_names before ms =
    (if (\<forall>m\<in>set ms. \<not> decl_is_empty m \<and> decl_has_wire m \<longrightarrow> valid_name (decl_name m)) \<and>
        distinct (map decl_name (filter (\<lambda>m. \<not> decl_is_empty m) (before @ ms))) then Done () else Panic)"
  using assms
proof (induction before ms rule: validate_names.induct)
  case (2 before m ms)
  show ?case
  proof (cases "decl_is_empty m")
    case True
    with 2 show ?thesis by simp
  next
    case False
    have f: "find (\<lambda>e. \<not> decl_is_empty e \<and> decl_name e = decl_name m) before = None \<longleftrightarrow>
        decl_name m \<notin> decl_name ` {e \<in> set before. \<not> decl_is_empty e}"
      unfolding find_None_iff image_iff by auto
    show ?thesis
    proof (cases "find (\<lambda>e. \<not> decl_is_empty e \<and> decl_name e = decl_name m) before")
      case None
      with f have "distinct (map decl_name (filter (\<lambda>m. \<not> decl_is_empty m) (before @ [m])))"
        using False "2.prems" by force
      with 2 False None show ?thesis by (auto simp: assert_valid_name_def)
    next
      case (Some e)
      with f have "decl_name m \<in> decl_name ` {e \<in> set before. \<not> decl_is_empty e}" by simp
      then show ?thesis using Some False by (auto simp: assert_valid_name_def)
    qed
  qed
qed simp

text \<open>One module's requirement is met when an earlier module has that type.\<close>

lemma check_requires_cases:
  "case check_requires before m after rs of
     Inr _ \<Rightarrow> \<forall>(rid, _)\<in>set rs. rid \<in> decl_id ` set before
   | Inl d \<Rightarrow> \<exists>rid. (rid, md_resource d) \<in> set rs \<and> md_module d = decl_type_name m \<and> rid \<notin> decl_id ` set before \<and>
       md_missing d = (if rid \<in> decl_id ` set after then ModuleLater else ModuleAbsent)"
proof (induction before m after rs rule: check_requires.induct)
  case (2 before m after rid rname rs)
  have ex: "list_ex (\<lambda>e. decl_id e = rid) ms \<longleftrightarrow> rid \<in> decl_id ` set ms" for ms :: "module_decl list"
    by (auto simp: list_ex_iff)
  show ?case
  proof (cases "rid \<in> decl_id ` set before")
    case True
    with 2 ex show ?thesis by (cases "check_requires before m after rs") auto
  next
    case False
    then show ?thesis using ex by (auto intro!: exI [of _ rid])
  qed
qed simp

lemma validate_requires_cases:
  "case validate_requires before ms of
     Inr _ \<Rightarrow> \<forall>i<length ms. \<forall>(rid, _)\<in>set (req_modules (decl_requires (ms ! i))). rid \<in> decl_id ` set (before @ take i ms)
   | Inl d \<Rightarrow> \<exists>i rid. i < length ms \<and> (rid, md_resource d) \<in> set (req_modules (decl_requires (ms ! i))) \<and>
       md_module d = decl_type_name (ms ! i) \<and> rid \<notin> decl_id ` set (before @ take i ms) \<and>
       md_missing d = (if rid \<in> decl_id ` set (drop (Suc i) ms) then ModuleLater else ModuleAbsent)"
proof (induction before ms rule: validate_requires.induct)
  case (2 before m ms)
  let ?rs = "req_modules (decl_requires m)"
  note c = check_requires_cases [where before = before and m = m and after = ms and rs = ?rs]
  show ?case
  proof (cases "check_requires before m ms ?rs")
    case (Inl d)
    with c show ?thesis by (auto intro!: exI [of _ 0])
  next
    case (Inr u)
    note ih = "2.IH" [OF Inr]
    show ?thesis
    proof (cases "validate_requires (before @ [m]) ms")
      case (Inl d)
      with ih obtain i rid where i: "i < length ms" "(rid, md_resource d) \<in> set (req_modules (decl_requires (ms ! i)))"
         "md_module d = decl_type_name (ms ! i)" "rid \<notin> decl_id ` set ((before @ [m]) @ take i ms)"
         "md_missing d = (if rid \<in> decl_id ` set (drop (Suc i) ms) then ModuleLater else ModuleAbsent)"
        by (simp only: sum.case) blast
      have "validate_requires before (m # ms) = Inl d" using Inr Inl by simp
      then show ?thesis using i by (simp only: sum.case) (intro exI [of _ "Suc i"] exI [of _ rid], simp)
    next
      case (Inr u')
      have "\<forall>(rid, _)\<in>set (req_modules (decl_requires ((m # ms) ! i))). rid \<in> decl_id ` set (before @ take i (m # ms))"
        if "i < length (m # ms)" for i
      proof (cases i)
        case 0
        then show ?thesis using c \<open>check_requires before m ms ?rs = Inr u\<close> by simp
      next
        case (Suc k)
        have "\<forall>i<length ms. \<forall>(rid, _)\<in>set (req_modules (decl_requires (ms ! i))). rid \<in> decl_id ` set ((before @ [m]) @ take i ms)"
          using ih Inr by simp
        then show ?thesis using that Suc by simp
      qed
      moreover have "validate_requires before (m # ms) = Inr ()"
        using Inr \<open>check_requires before m ms ?rs = Inr u\<close> by simp
      ultimately show ?thesis by (simp only: sum.case) blast
    qed
  qed
qed simp

section \<open>Properties\<close>

text \<open>
  Setting up a child RPC runs the modules in stack order up to the first that
  rejects. When none does, the whole stack has run and nothing else. When one does, the rejection
  carries its name and its status, no later module runs, and exactly the modules that ran, the
  rejecting one included, are told once each, in reverse order, whatever their own hooks return.
\<close>

theorem before_child_unwinds:
  assumes "stack_before_child_rpc (map logged ms) method cx = (r, cx')"
  shows "\<exists>events. snd (cx_world cx') = snd (cx_world cx) @ events \<and>
    (case r of
       Inr _ \<Rightarrow> events = map (\<lambda>m. EvBefore (m_NAME m) (Inr ())) ms
     | Inl rej \<Rightarrow> \<exists>pre m post rs. ms = pre @ m # post \<and> rejection_by rej = m_NAME m \<and> length rs = Suc (length pre) \<and>
         events = map (\<lambda>m. EvBefore (m_NAME m) (Inr ())) pre @ [EvBefore (m_NAME m) (Inl (rejection_status rej))] @
           map2 (\<lambda>m. EvAfter (m_NAME m) (ChildRejected (rejection_by rej) (rejection_status rej))) (m # rev pre) rs)"
proof -
  from lg.before_child_stack [OF assms] obtain events where e: "snd (cx_world cx') = snd (cx_world cx) @ events"
    "case r of Inr _ \<Rightarrow> events = lg.befores ms | Inl rej \<Rightarrow> \<exists>pre m post. lg.rejected_at ms pre m post rej events" by blast
  show ?thesis
  proof (cases r)
    case (Inr u)
    then show ?thesis using e by (simp add: befores_logged)
  next
    case (Inl rej)
    with e(2) obtain pre m post where "lg.rejected_at ms pre m post rej events" by auto
    then obtain rs where rs: "ms = pre @ m # post" "rejection_by rej = m_NAME m" "length rs = Suc (length pre)"
      "events = lg.befores pre @ [EvBefore (m_NAME m) (Inl (rejection_status rej))] @
         lg.afters (ChildRejected (rejection_by rej) (rejection_status rej)) (m # rev pre) rs"
      unfolding lg.rejected_at_def by auto
    then show ?thesis unfolding Inl sum.case using e(1) unfolding befores_logged afters_logged by blast
  qed
qed

text \<open>A module that admits and one that rejects every child.\<close>

definition ex_module :: "string \<Rightarrow> bool \<Rightarrow> (unit, unit, unit, string, unit) module" where
  "ex_module name rejects = empty_module\<lparr>
     m_NAME := name, m_id := TypeId name, m_type_name := name,
     m_before_child_rpc := (\<lambda>method cx. (if rejects then Inl ''busy'' else Inr (), cx))\<rparr>"

definition ex_cx :: "'w \<Rightarrow> ('w, unit, unit) child_ctx" where
  "ex_cx w = \<lparr>cx_child = child_state_new, cx_request = (), cx_wire = wo_new, cx_ext = ext_new, cx_world = w\<rparr>"

definition ex_method :: grpc_method where
  "ex_method = \<lparr>gm_service = ''s'', gm_method = ''m''\<rparr>"

theorem before_child_unwinds_witness:
  "\<exists>cx'. stack_before_child_rpc (map logged [ex_module ''a'' False, ex_module ''b'' True, ex_module ''c'' False])
       ex_method (ex_cx ((), [])) = (Inl \<lparr>rejection_by = ''b'', rejection_status = ''busy''\<rparr>, cx') \<and>
     (\<exists>events. snd (cx_world cx') = [] @ events \<and> EvBefore ''b'' (Inl ''busy'') \<in> set events)"
proof -
  let ?S = "[ex_module ''a'' False, ex_module ''b'' True, ex_module ''c'' False]"
  obtain r cx' where run: "stack_before_child_rpc (map logged ?S) ex_method (ex_cx ((), [])) = (r, cx')" by fastforce
  have r: "r = Inl \<lparr>rejection_by = ''b'', rejection_status = ''busy''\<rparr>"
    using arg_cong [OF run, of fst]
    by (simp add: ex_module_def logged_def log_cx_def log_world_def empty_module_def cx_with_world_def split: prod.splits)
  from before_child_unwinds [OF run, unfolded r] show ?thesis
    using run r by (auto simp: ex_cx_def)
qed

text \<open>
  After a child RPC every module's post-hook runs exactly once, in reverse stack
  order; an error of one does not skip the others, and the first error in that order, if any, is
  the result.
\<close>

theorem after_child_runs_all:
  assumes "stack_after_child_rpc (map logged ms) method outcome wire child ext w = (r, w')"
  shows "\<exists>rs. length rs = length ms \<and>
    snd w' = snd w @ map2 (\<lambda>m. EvAfter (m_NAME m) outcome) (rev ms) rs \<and> r = foldl result_and (Inr ()) rs"
proof -
  from lg.after_child_stack [OF assms] obtain rs where "length rs = length ms"
    "snd w' = snd w @ lg.afters outcome (rev ms) rs" "r = lg.first_error rs" by blast
  then show ?thesis unfolding afters_logged lg.first_error_def by blast
qed

theorem after_child_runs_all_witness:
  "\<exists>r w' rs. stack_after_child_rpc (map logged [ex_module ''a'' False, ex_module ''b'' True]) ex_method
       (Sent (Inr ())) wi_default child_state_new ext_new ((), []) = (r, w') \<and> length rs = 2 \<and>
     snd w' = map2 (\<lambda>m. EvAfter (m_NAME m) (Sent (Inr ()))) [ex_module ''b'' True, ex_module ''a'' False] rs"
proof -
  obtain r w' where run: "stack_after_child_rpc (map logged [ex_module ''a'' False, ex_module ''b'' True]) ex_method
       (Sent (Inr ())) wi_default child_state_new ext_new ((), []) = (r, w')" by (metis surj_pair)
  from after_child_runs_all [OF run] obtain rs where "length rs = length [ex_module ''a'' False, ex_module ''b'' True]"
    "snd w' = snd ((), []) @ map2 (\<lambda>m. EvAfter (m_NAME m) (Sent (Inr ()))) (rev [ex_module ''a'' False, ex_module ''b'' True]) rs"
    by blast
  then show ?thesis using run by (intro exI [of _ r] exI [of _ w'] exI [of _ rs]) simp
qed

text \<open>
  Claim C35. Validation of a stack panics exactly when two non-empty modules share a name or a
  module with wire data has a name that cannot be a section; otherwise it succeeds exactly when
  every required module comes earlier in the stack, and else it reports a requirement that is not
  met, the module that has it, and whether the required module comes later or is absent.
\<close>

theorem validate_stack_correct:
  "case validate_stack S of
     Panic \<Rightarrow> \<not> names_ok (map module_decl_of S)
   | Done (Inr _) \<Rightarrow> names_ok (map module_decl_of S) \<and>
       (\<forall>i<length S. \<forall>(rid, _)\<in>set (req_modules (m_requires (S ! i) \<lparr>req_modules = []\<rparr>)). rid \<in> m_id ` set (take i S))
   | Done (Inl d) \<Rightarrow> names_ok (map module_decl_of S) \<and>
       (\<exists>i rid. i < length S \<and> (rid, md_resource d) \<in> set (req_modules (m_requires (S ! i) \<lparr>req_modules = []\<rparr>)) \<and>
          md_module d = m_type_name (S ! i) \<and> rid \<notin> m_id ` set (take i S) \<and>
          md_missing d = (if rid \<in> m_id ` set (drop (Suc i) S) then ModuleLater else ModuleAbsent))"
proof -
  let ?D = "map module_decl_of S"
  have ids: "decl_id ` set (map module_decl_of xs) = m_id ` set xs" for xs :: "('a, 'b, 'c, 'd, 'e) module list"
    by (auto simp: module_decl_of_def image_image)
  have names: "validate_names [] ?D = (if names_ok ?D then Done () else Panic)"
    using validate_names_eq [of "[]" ?D] by (simp only: names_ok_def) simp
  have v: "validate_stack S = (if names_ok ?D then Done (validate_requires [] ?D) else Panic)"
    by (simp add: validate_stack_def stack_describe_eq names)
  have nth: "decl_requires (?D ! i) = m_requires (S ! i) \<lparr>req_modules = []\<rparr>" "decl_type_name (?D ! i) = m_type_name (S ! i)"
    if "i < length S" for i
    using that by (simp_all add: module_decl_of_def)
  note c = validate_requires_cases [where before = "[]" and ms = ?D]
  show ?thesis
  proof (cases "names_ok ?D")
    case True
    show ?thesis
    proof (cases "validate_requires [] ?D")
      case (Inl d)
      with c obtain i rid where i: "i < length S" "(rid, md_resource d) \<in> set (req_modules (decl_requires (?D ! i)))"
        "md_module d = decl_type_name (?D ! i)" "rid \<notin> decl_id ` set (take i ?D)"
        "md_missing d = (if rid \<in> decl_id ` set (drop (Suc i) ?D) then ModuleLater else ModuleAbsent)" by auto
      have "rid \<notin> m_id ` set (take i S)" "md_missing d = (if rid \<in> m_id ` set (drop (Suc i) S) then ModuleLater else ModuleAbsent)"
        using i(4,5) unfolding take_map drop_map ids .
      moreover have "validate_stack S = Done (Inl d)" using v True Inl by simp
      ultimately show ?thesis using True i(1-3) unfolding nth [OF i(1)] by (simp only: exec.case sum.case) blast
    next
      case (Inr u)
      have "rid \<in> m_id ` set (take i S)"
        if "i < length S" "(rid, x) \<in> set (req_modules (m_requires (S ! i) \<lparr>req_modules = []\<rparr>))" for i rid x
      proof -
        have "\<forall>i<length ?D. \<forall>(rid, _)\<in>set (req_modules (decl_requires (?D ! i))). rid \<in> decl_id ` set (take i ?D)"
          using c Inr by simp
        then have "rid \<in> decl_id ` set (take i ?D)" using that nth [OF that(1)] by fastforce
        then show ?thesis by (simp only: take_map ids)
      qed
      then show ?thesis using True Inr by (auto simp: v)
    qed
  qed (simp add: v)
qed

definition ex_declared :: "string \<Rightarrow> (type_id \<times> string) list \<Rightarrow> (unit, unit, unit, string, unit) module" where
  "ex_declared name needs = empty_module\<lparr>m_NAME := name, m_id := TypeId name, m_type_name := name,
     m_requires := (\<lambda>r. foldl (\<lambda>r (t, n). requires_module t n r) r needs)\<rparr>"

theorem validate_stack_correct_witness:
  "(\<exists>d. validate_stack [ex_declared ''b'' [(TypeId ''a'', ''a'')], ex_declared ''a'' []] = Done (Inl d) \<and>
     md_resource d = ''a'' \<and> md_module d = ''b'' \<and> md_missing d = ModuleLater) \<and>
   validate_stack [ex_declared ''a'' [], ex_declared ''b'' [(TypeId ''a'', ''a'')]] = Done (Inr ()) \<and>
   TypeId ''a'' \<in> m_id ` set (take 1 [ex_declared ''a'' [], ex_declared ''b'' [(TypeId ''a'', ''a'')]])"
proof -
  let ?a = "ex_declared ''a'' []" and ?b = "ex_declared ''b'' [(TypeId ''a'', ''a'')]"
  have "validate_stack [?b, ?a] = Done (Inl \<lparr>md_resource = ''a'', md_module = ''b'', md_missing = ModuleLater\<rparr>)"
    by code_simp
  then have bad: "\<exists>d. validate_stack [?b, ?a] = Done (Inl d)" by blast
  have good: "validate_stack [?a, ?b] = Done (Inr ())" by code_simp
  have "req_modules (m_requires ?b \<lparr>req_modules = []\<rparr>) = [(TypeId ''a'', ''a'')]"
    "req_modules (m_requires ?a \<lparr>req_modules = []\<rparr>) = []" "m_type_name ?b = ''b''" "m_id ?a = TypeId ''a''"
    "m_id ?b = TypeId ''b''"
    by (simp_all add: ex_declared_def requires_module_def)
  note ev = this
  from bad obtain d where d: "validate_stack [?b, ?a] = Done (Inl d)" by blast
  have "md_resource d = ''a'' \<and> md_module d = ''b'' \<and> md_missing d = ModuleLater"
    using validate_stack_correct [of "[?b, ?a]"] unfolding d by (auto simp: ev less_Suc_eq)
  moreover have "TypeId ''a'' \<in> m_id ` set (take 1 [?a, ?b])"
    using validate_stack_correct [of "[?a, ?b]"] unfolding good by (auto simp: ev less_Suc_eq)
  ultimately show ?thesis using d good by blast
qed

text \<open>
  A module that declares no poll hooks is never run by the poll hooks of its stack:
  they are those of the stack without it, so a stack without any poll hook can skip them.
\<close>

theorem poll_hooks_skip:
  "stack_before_poll S ext g = stack_before_poll (filter m_POLL_HOOKS S) ext g \<and>
   stack_after_poll S poll ext g = stack_after_poll (filter m_POLL_HOOKS S) poll ext g \<and>
   (stack_poll_hooks S \<or> (stack_before_poll S ext g = (Inr (), ext, g) \<and> stack_after_poll S poll ext g = (Inr (), g)))"
proof -
  have "stack_before_poll S ext g = stack_before_poll (filter m_POLL_HOOKS S) ext g" for ext g
    by (induction S arbitrary: ext g) (auto split: prod.split sum.split)
  moreover have "stack_after_poll S poll ext g = stack_after_poll (filter m_POLL_HOOKS S) poll ext g" for ext g
    by (induction S arbitrary: ext g) (auto split: prod.split sum.split)
  moreover have "\<not> stack_poll_hooks S \<Longrightarrow> filter m_POLL_HOOKS S = []" by (induction S) auto
  ultimately show ?thesis by auto
qed

end
