(* ===== verification/Tonic_Hooks.thy ===== *)
theory Tonic_Hooks
  imports Module_Stack
begin

text \<open>
  The adapter that drives a module stack from the hooks of \<open>tonic\<close>,
  \<open>libs/rpcstack-tonic/src/hooks.rs\<close>, with the metadata helpers of
  \<open>libs/rpcstack-tonic/src/metadata.rs\<close> it uses. What it needs of \<open>tonic\<close> and \<open>http\<close>
  (the metadata of a request, a response or a status, the text of a header value, and two status
  constructors) is the parameter \<open>tonic_ops\<close>. The mutex around the request state is never
  contended (the hooks of a request run one at a time), so the state is passed along.
\<close>

record ('m, 'r, 's, 'p) tonic_ops =
  t_md :: "'m metadata_ops"
  t_to_str :: "string \<Rightarrow> string option"
  t_req_get :: "'r \<Rightarrow> 'm"
  t_req_put :: "'m \<Rightarrow> 'r \<Rightarrow> 'r"
  t_resp_get :: "'p \<Rightarrow> 'm"
  t_resp_put :: "'m \<Rightarrow> 'p \<Rightarrow> 'p"
  t_status_get :: "'s \<Rightarrow> 'm"
  t_status_put :: "'m \<Rightarrow> 's \<Rightarrow> 's"
  t_internal :: "string \<Rightarrow> 's"
  t_invalid_argument :: "string \<Rightarrow> 's"
  t_utf8_text :: string

section \<open>Metadata\<close>

definition METHOD_NAME_OVERRIDE_HEADER :: string where
  "METHOD_NAME_OVERRIDE_HEADER = ''x-rpcstack-method-name''"

definition SERVICE_NAME_OVERRIDE_HEADER :: string where
  "SERVICE_NAME_OVERRIDE_HEADER = ''x-rpcstack-service-name''"

definition get_ascii_metadata :: "('m, 'r, 's, 'p) tonic_ops \<Rightarrow> 'm \<Rightarrow> string \<Rightarrow> string option" where
  "get_ascii_metadata ops m key = Option.bind (md_get (t_md ops) m key) (t_to_str ops)"

definition get_method_name_override :: "('m, 'r, 's, 'p) tonic_ops \<Rightarrow> 'm \<Rightarrow> string option" where
  "get_method_name_override ops m = get_ascii_metadata ops m METHOD_NAME_OVERRIDE_HEADER"

definition get_service_name_override :: "('m, 'r, 's, 'p) tonic_ops \<Rightarrow> 'm \<Rightarrow> string option" where
  "get_service_name_override ops m = get_ascii_metadata ops m SERVICE_NAME_OVERRIDE_HEADER"

text \<open>The setters of \<open>RequestExt\<close>; \<open>dbg\<close> is the debug text of the conversion error.\<close>

definition set_method_name_override ::
    "('m, 'r, 's, 'p) tonic_ops \<Rightarrow> string \<Rightarrow> string \<Rightarrow> 'r \<Rightarrow> ('s + unit) \<times> 'r" where
  "set_method_name_override ops dbg method_name request =
     (if md_value_ok (t_md ops) method_name then
        (Inr (), t_req_put ops (md_insert (t_md ops) (t_req_get ops request) METHOD_NAME_OVERRIDE_HEADER method_name) request)
      else (Inl (t_internal ops (''Failed to create metadata value for method name override: '' @ dbg)), request))"

definition set_service_name_override ::
    "('m, 'r, 's, 'p) tonic_ops \<Rightarrow> string \<Rightarrow> string \<Rightarrow> 'r \<Rightarrow> ('s + unit) \<times> 'r" where
  "set_service_name_override ops dbg service_name request =
     (if md_value_ok (t_md ops) service_name then
        (Inr (), t_req_put ops (md_insert (t_md ops) (t_req_get ops request) SERVICE_NAME_OVERRIDE_HEADER service_name) request)
      else (Inl (t_internal ops (''Failed to create metadata value for service name override: '' @ dbg)), request))"

text \<open>The setters on HTTP headers; \<open>None\<close> is the invalid-value error.\<close>

definition set_method_name_override_in_headers :: "'m metadata_ops \<Rightarrow> 'm \<Rightarrow> string \<Rightarrow> 'm option" where
  "set_method_name_override_in_headers ops headers method_name =
     (if md_value_ok ops method_name then Some (md_insert ops headers METHOD_NAME_OVERRIDE_HEADER method_name) else None)"

definition set_service_name_override_in_headers :: "'m metadata_ops \<Rightarrow> 'm \<Rightarrow> string \<Rightarrow> 'm option" where
  "set_service_name_override_in_headers ops headers service_name =
     (if md_value_ok ops service_name then Some (md_insert ops headers SERVICE_NAME_OVERRIDE_HEADER service_name) else None)"

definition get_wire_from_metadata :: "base64_engine \<Rightarrow> 'w bincode \<Rightarrow> string \<Rightarrow> 'm metadata_ops \<Rightarrow> 'm \<Rightarrow> 'w option exec" where
  "get_wire_from_metadata b64 bin NAME ops m =
     bind_exec (get_from_metadata b64 bin NAME ops m) (\<lambda>r. case r of Inl e \<Rightarrow> Panic | Inr w \<Rightarrow> Done w)"

definition set_wire_in_metadata :: "base64_engine \<Rightarrow> 'w bincode \<Rightarrow> string \<Rightarrow> 'm metadata_ops \<Rightarrow> 'm \<Rightarrow> 'w \<Rightarrow> 'm exec" where
  "set_wire_in_metadata b64 bin NAME ops m w =
     bind_exec (set_in_metadata b64 bin NAME ops m w) (\<lambda>(r, m'). case r of Inl e \<Rightarrow> Panic | Inr _ \<Rightarrow> Done m')"

section \<open>Method names\<close>

definition resolve_method_name_impl :: "grpc_method \<Rightarrow> string option \<Rightarrow> string option \<Rightarrow> grpc_method" where
  "resolve_method_name_impl method method_override service_override =
     (case method_override of
        Some method_name \<Rightarrow>
          (case service_override of
             Some service_name \<Rightarrow> \<lparr>gm_service = service_name, gm_method = method_name\<rparr>
           | None \<Rightarrow> \<lparr>gm_service = gm_service method, gm_method = method_name\<rparr>)
      | None \<Rightarrow> \<lparr>gm_service = gm_service method, gm_method = gm_method method\<rparr>)"

definition resolve_method_name_from_http :: "('m, 'r, 's, 'p) tonic_ops \<Rightarrow> grpc_method \<Rightarrow> 'm \<Rightarrow> grpc_method" where
  "resolve_method_name_from_http ops method headers =
     resolve_method_name_impl method (get_method_name_override ops headers) (get_service_name_override ops headers)"

definition resolve_method_name_from_request :: "('m, 'r, 's, 'p) tonic_ops \<Rightarrow> grpc_method \<Rightarrow> 'r \<Rightarrow> grpc_method" where
  "resolve_method_name_from_request ops method request =
     resolve_method_name_impl method (get_method_name_override ops (t_req_get ops request))
       (get_service_name_override ops (t_req_get ops request))"

section \<open>The server\<close>

definition server_try_new :: "('g, 'v, 'r, 's, 'p) module list \<Rightarrow> string \<Rightarrow> 'g \<Rightarrow> ((missing_dependency + unit) \<times> 'g) exec" where
  "server_try_new S service_name g = build_server S service_name g"

definition server_new :: "('g, 'v, 'r, 's, 'p) module list \<Rightarrow> string \<Rightarrow> 'g \<Rightarrow> 'g exec" where
  "server_new S service_name g =
     bind_exec (server_try_new S service_name g) (\<lambda>(r, g'). case r of Inl d \<Rightarrow> Panic | Inr _ \<Rightarrow> Done g')"

section \<open>One request\<close>

record ('v, 's) request_state =
  rs_ext :: "'v extensions"
  rs_ended_by :: "(string \<times> 's option) option"

definition rs_record :: "('s, 'p) early \<Rightarrow> ('v, 's) request_state \<Rightarrow> ('v, 's) request_state" where
  "rs_record early st =
     (let status = (case early_reply early of Inl s \<Rightarrow> Some s | Inr _ \<Rightarrow> None) in
      case rs_ended_by st of
        None \<Rightarrow> st\<lparr>rs_ended_by := Some (early_by early, status)\<rparr>
      | Some _ \<Rightarrow> st)"

definition rs_outcome :: "('v, 's) request_state \<Rightarrow> 's outcome" where
  "rs_outcome st =
     (case rs_ended_by st of
        None \<Rightarrow> Handled
      | Some (by, Some status) \<Rightarrow> RequestRejected by status
      | Some (by, None) \<Rightarrow> Replied by)"

definition parent_begin :: "('m, 'r, 's, 'p) tonic_ops \<Rightarrow> ('g, 'v, 'r, 's, 'p) module list \<Rightarrow> grpc_method \<Rightarrow> 'm \<Rightarrow> 'g \<Rightarrow>
    (('v, 's) request_state \<times> 'g) exec" where
  "parent_begin ops S method headers g =
     (case wi_from_headers (t_md ops) headers of
        Inl err \<Rightarrow> Panic
      | Inr wire \<Rightarrow>
          (case stack_new S (resolve_method_name_from_http ops method headers) wire ext_new g of
             (ext, g') \<Rightarrow> Done (\<lparr>rs_ext = ext, rs_ended_by = None\<rparr>, g')))"

definition parent_before_poll :: "('g, 'v, 'r, 's, 'p) module list \<Rightarrow> ('v, 's) request_state \<Rightarrow> 'g \<Rightarrow>
    (('s + 'p) + unit) \<times> ('v, 's) request_state \<times> 'g" where
  "parent_before_poll S st g =
     (if \<not> stack_poll_hooks S then (Inr (), st, g)
      else (case stack_before_poll S (rs_ext st) g of
         (Inr _, ext, g') \<Rightarrow> (Inr (), st\<lparr>rs_ext := ext\<rparr>, g')
       | (Inl early, ext, g') \<Rightarrow> (Inl (early_reply early), rs_record early (st\<lparr>rs_ext := ext\<rparr>), g')))"

definition parent_after_poll :: "('g, 'v, 'r, 's, 'p) module list \<Rightarrow> ('s + 'p) poll \<Rightarrow> ('v, 's) request_state \<Rightarrow> 'g \<Rightarrow>
    (('s + 'p) + unit) \<times> ('v, 's) request_state \<times> 'g" where
  "parent_after_poll S poll st g =
     (if \<not> stack_poll_hooks S then (Inr (), st, g)
      else (case stack_after_poll S poll (rs_ext st) g of
         (Inr _, g') \<Rightarrow> (Inr (), st, g')
       | (Inl early, g') \<Rightarrow> (Inl (early_reply early), rs_record early st, g')))"

section \<open>Child RPCs\<close>

record 'v child_context =
  cc_method_name :: "grpc_method option"
  cc_state :: "'v child_state"
  cc_root_method :: grpc_method
  cc_root_sent :: bool

definition child_context_new :: "('m, 'r, 's, 'p) tonic_ops \<Rightarrow> grpc_method \<Rightarrow> 'r \<Rightarrow> 'v child_context" where
  "child_context_new ops method request = \<lparr>
     cc_method_name = None, cc_state = child_state_new,
     cc_root_method = resolve_method_name_from_request ops method request, cc_root_sent = False\<rparr>"

definition set_method_name :: "grpc_method \<Rightarrow> 'v child_context \<Rightarrow> 'v child_context" where
  "set_method_name name cc = cc\<lparr>cc_method_name := Some name\<rparr>"

text \<open>What a child hook leaves behind: the request, the child's context, the request state, the world.\<close>

record ('g, 'v, 'r, 's) child_call =
  call_request :: 'r
  call_context :: "'v child_context"
  call_state :: "('v, 's) request_state"
  call_world :: 'g

definition call_update :: "('g, 'v, 'r) child_ctx \<Rightarrow> ('g, 'v, 'r, 's) child_call \<Rightarrow> ('g, 'v, 'r, 's) child_call" where
  "call_update cx call = call\<lparr>
     call_request := cx_request cx,
     call_context := (call_context call)\<lparr>cc_state := cx_child cx\<rparr>,
     call_state := (call_state call)\<lparr>rs_ext := cx_ext cx\<rparr>,
     call_world := cx_world cx\<rparr>"

definition parent_before_child_rpc :: "('m, 'r, 's, 'p) tonic_ops \<Rightarrow> ('g, 'v, 'r, 's, 'p) module list \<Rightarrow> grpc_method \<Rightarrow>
    ('g, 'v, 'r, 's) child_call \<Rightarrow> (('s + unit) \<times> ('g, 'v, 'r, 's) child_call) exec" where
  "parent_before_child_rpc ops S child_method call0 =
     (let name = resolve_method_name_from_request ops child_method (call_request call0);
          call = call0\<lparr>call_context := set_method_name name (call_context call0)\<rparr>;
          cx = \<lparr>cx_child = cc_state (call_context call), cx_request = call_request call, cx_wire = wo_new,
                cx_ext = rs_ext (call_state call), cx_world = call_world call\<rparr> in
      case stack_before_child_rpc S name cx of
        (Inl rejection, cx1) \<Rightarrow> Done (Inl (rejection_status rejection), call_update cx1 call)
      | (Inr _, cx1) \<Rightarrow>
          (case stack_seal_child_rpc S name cx1 of
             (Inl rejection, cx2) \<Rightarrow>
               let g = stack_reject_child_rpc S name (rejection_by rejection) (rejection_status rejection)
                     (cx_child cx2) (cx_ext cx2) (cx_world cx2) in
               Done (Inl (rejection_status rejection), (call_update cx2 call)\<lparr>call_world := g\<rparr>)
           | (Inr _, cx2) \<Rightarrow>
               map_exec (\<lambda>m. (Inr (), (call_update cx2 call)\<lparr>call_request := t_req_put ops m (cx_request cx2)\<rparr>))
                 (wo_install (t_md ops) (cx_wire cx2) (t_req_get ops (cx_request cx2)))))"

text \<open>The metadata of a result, a response's or a status's.\<close>

definition result_metadata :: "('m, 'r, 's, 'p) tonic_ops \<Rightarrow> 's + 'p \<Rightarrow> 'm" where
  "result_metadata ops result = (case result of Inr resp \<Rightarrow> t_resp_get ops resp | Inl status \<Rightarrow> t_status_get ops status)"

definition result_set_metadata :: "('m, 'r, 's, 'p) tonic_ops \<Rightarrow> 'm \<Rightarrow> 's + 'p \<Rightarrow> 's + 'p" where
  "result_set_metadata ops m result =
     (case result of Inr resp \<Rightarrow> Inr (t_resp_put ops m resp) | Inl status \<Rightarrow> Inl (t_status_put ops m status))"

definition parent_after_child_rpc :: "('m, 'r, 's, 'p) tonic_ops \<Rightarrow> ('g, 'v, 'r, 's, 'p) module list \<Rightarrow>
    's + 'p \<Rightarrow> 'v child_context \<Rightarrow> ('v, 's) request_state \<Rightarrow> 'g \<Rightarrow> (('s + unit) \<times> 'g) exec" where
  "parent_after_child_rpc ops S response child_ctx st g =
     (case cc_method_name child_ctx of
        Some child_method \<Rightarrow>
          (case wi_from_metadata (t_md ops) (result_metadata ops response) of
             Inl err \<Rightarrow> Panic
           | Inr response_wire \<Rightarrow>
               Done (stack_after_child_rpc S child_method (Sent response) response_wire (cc_state child_ctx) (rs_ext st) g))
      | None \<Rightarrow> Done (Inr (), g))"

definition finalize_before_serialization :: "('m, 'r, 's, 'p) tonic_ops \<Rightarrow> ('g, 'v, 'r, 's, 'p) module list \<Rightarrow>
    's + 'p \<Rightarrow> ('v, 's) request_state \<Rightarrow> 'g \<Rightarrow> (('s + 'p) \<times> 'g) exec" where
  "finalize_before_serialization ops S result st g =
     (case stack_finalize S result (rs_outcome st) wo_new (rs_ext st) g of
        (result1, wire, g') \<Rightarrow>
          map_exec (\<lambda>m. (result_set_metadata ops m result1, g')) (wo_install (t_md ops) wire (result_metadata ops result1)))"

section \<open>Root RPCs\<close>

definition wire_error_text :: "('m, 'r, 's, 'p) tonic_ops \<Rightarrow> wire_error \<Rightarrow> string" where
  "wire_error_text ops e = wire_error_display (case e of NotUtf8 \<Rightarrow> t_utf8_text ops | WireError detail \<Rightarrow> detail)"

definition try_before_send :: "('m, 'r, 's, 'p) tonic_ops \<Rightarrow> ('g, 'v, 'r, 's, 'p) module list \<Rightarrow>
    'v child_context \<Rightarrow> 'r \<Rightarrow> 'g \<Rightarrow> (('s + unit) \<times> 'v child_context \<times> 'r \<times> 'g) exec" where
  "try_before_send ops S cc request g =
     (if cc_method_name cc \<noteq> None then Done (Inr (), cc, request, g)
      else (case wo_from_metadata (t_md ops) (t_req_get ops request) of
         Inl err \<Rightarrow> Done (Inl (t_invalid_argument ops (''invalid root metadata: '' @ wire_error_text ops err)), cc, request, g)
       | Inr wire \<Rightarrow>
           (case stack_before_root_rpc S (cc_root_method cc)
                   \<lparr>rx_request = request, rx_wire = wire, rx_state = cc_state cc, rx_world = g\<rparr> of
              (Inl rejection, rx) \<Rightarrow>
                Done (Inl (rejection_status rejection), cc\<lparr>cc_state := rx_state rx\<rparr>, rx_request rx, rx_world rx)
            | (Inr _, rx) \<Rightarrow>
                bind_exec (wo_header_value (rx_wire rx)) (\<lambda>h.
                  map_exec (\<lambda>request'. (Inr (), cc\<lparr>cc_state := rx_state rx, cc_root_sent := True\<rparr>, request', rx_world rx))
                    (if h \<noteq> '''' then
                       map_exec (\<lambda>m. t_req_put ops m (rx_request rx))
                         (wo_install (t_md ops) (rx_wire rx) (t_req_get ops (rx_request rx)))
                     else Done (rx_request rx))))))"

definition after_recv :: "('m, 'r, 's, 'p) tonic_ops \<Rightarrow> ('g, 'v, 'r, 's, 'p) module list \<Rightarrow>
    'v child_context \<Rightarrow> 's + 'p \<Rightarrow> 'g \<Rightarrow> 'v child_context \<times> ('s + 'p) \<times> 'g" where
  "after_recv ops S cc response g =
     (if \<not> cc_root_sent cc then (cc, response, g)
      else
        let cc' = cc\<lparr>cc_root_sent := False\<rparr> in
        (case (case wi_from_metadata (t_md ops) (result_metadata ops response) of
                 Inr wire \<Rightarrow> stack_after_root_rpc S (cc_root_method cc') (Sent response) wire (cc_state cc') g
               | Inl err \<Rightarrow> (Inl (t_internal ops (''invalid root response metadata: '' @ wire_error_text ops err)), g)) of
           (Inl status, g') \<Rightarrow> (cc', Inl status, g')
         | (Inr _, g') \<Rightarrow> (cc', response, g')))"

section \<open>Opened and closed children\<close>

text \<open>The modules whose pre-hook, and whose post-hook, an event log records, in order.\<close>

fun opened :: "('s, 'p) hook_event list \<Rightarrow> string list" where
  "opened [] = []"
| "opened (EvBefore n r # es) = n # opened es"
| "opened (_ # es) = opened es"

fun closed :: "('s, 'p) hook_event list \<Rightarrow> string list" where
  "closed [] = []"
| "closed (EvAfter n out r # es) = n # closed es"
| "closed (_ # es) = closed es"

lemma opened_append [simp]: "opened (xs @ ys) = opened xs @ opened ys"
  by (induction xs rule: opened.induct) auto

lemma closed_append [simp]: "closed (xs @ ys) = closed xs @ closed ys"
  by (induction xs rule: closed.induct) auto

lemma afters_names:
  "length rs = length ms \<Longrightarrow> closed (lg.afters out ms rs) = map m_NAME ms"
  "opened (lg.afters out ms rs) = []"
proof -
  have "closed (map2 (\<lambda>m. EvAfter (m_NAME m) out) ms rs) = map m_NAME ms" if "length rs = length ms"
    using that by (induction rs ms rule: list_induct2) auto
  then show "length rs = length ms \<Longrightarrow> closed (lg.afters out ms rs) = map m_NAME ms"
    by (simp add: afters_logged)
  have "opened (map2 (\<lambda>m. EvAfter (m_NAME m) out) ms rs) = []"
    by (induction ms rs rule: list_induct2') auto
  then show "opened (lg.afters out ms rs) = []" by (simp add: afters_logged)
qed

lemma befores_names: "opened (lg.befores ms) = map m_NAME ms" "closed (lg.befores ms) = []"
  unfolding befores_logged by (induction ms) auto

lemma seals_names: "opened (map (\<lambda>n. EvSeal n r) ns) = []" "closed (map (\<lambda>n. EvSeal n r) ns) = []"
  by (induction ns) auto

lemma rejected_names:
  assumes "lg.rejected_at ms pre m post rej events"
  shows "closed events = rev (opened events)"
proof -
  from assms obtain rs where "length rs = Suc (length pre)"
    "events = lg.befores pre @ [EvBefore (m_NAME m) (Inl (rejection_status rej))] @
       lg.afters (ChildRejected (rejection_by rej) (rejection_status rej)) (m # rev pre) rs"
    unfolding lg.rejected_at_def by auto
  then show ?thesis by (simp add: befores_names afters_names rev_map)
qed

text \<open>Set-up of a stack: paired when it rejects, open for every module when it accepts.\<close>

lemma before_child_names:
  assumes "stack_before_child_rpc (map logged ms) method cx = (r, cx')"
  obtains events where "snd (cx_world cx') = snd (cx_world cx) @ events"
    "case r of Inr _ \<Rightarrow> opened events = map m_NAME ms \<and> closed events = [] | Inl _ \<Rightarrow> closed events = rev (opened events)"
proof -
  from lg.before_child_stack [OF assms] obtain events where e: "snd (cx_world cx') = snd (cx_world cx) @ events"
    "case r of Inr _ \<Rightarrow> events = lg.befores ms | Inl rej \<Rightarrow> \<exists>pre m post. lg.rejected_at ms pre m post rej events" by blast
  have "case r of Inr _ \<Rightarrow> opened events = map m_NAME ms \<and> closed events = [] | Inl _ \<Rightarrow> closed events = rev (opened events)"
  proof (cases r)
    case (Inl rej)
    with e(2) obtain pre m post where "lg.rejected_at ms pre m post rej events" by auto
    from rejected_names [OF this] show ?thesis using Inl by simp
  qed (use e(2) in \<open>simp add: befores_names\<close>)
  then show ?thesis using that e(1) by blast
qed

lemma seal_child_names:
  assumes "stack_seal_child_rpc (map logged ms) method cx = (r, cx')"
  obtains events where "snd (cx_world cx') = snd (cx_world cx) @ events" "opened events = []" "closed events = []"
proof -
  from lg.seal_child_stack [OF assms] obtain events where "snd (cx_world cx') = snd (cx_world cx) @ events"
    "opened events = [] \<and> closed events = []"
    by (cases r) (auto simp: seals_names)
  then show ?thesis using that by blast
qed

section \<open>Properties\<close>

text \<open>
  Pairing of the child hooks, over the whole set-up of a child RPC by the adapter
  (pre-hooks, sealing, and the notification of a rejection made while sealing): if the child is
  refused, every module whose \<open>before_child_rpc\<close> ran has had exactly one
  \<open>after_child_rpc\<close>, in reverse order, and no other module has had one; if it is accepted,
  every module's pre-hook has run and none is closed, and when the response has come back every
  module is closed exactly once, in reverse order.
\<close>

theorem child_rpc_paired:
  assumes "parent_before_child_rpc ops (map logged ms) method call = Done (r, call')"
  shows "\<exists>events. snd (call_world call') = snd (call_world call) @ events \<and>
    (case r of
       Inl _ \<Rightarrow> closed events = rev (opened events)
     | Inr _ \<Rightarrow> opened events = map m_NAME ms \<and> closed events = [] \<and>
         (\<forall>response st g r' g'. parent_after_child_rpc ops (map logged ms) response (call_context call') st g = Done (r', g') \<longrightarrow>
            (\<exists>events'. snd g' = snd g @ events' \<and> opened events' = [] \<and> closed events' = rev (map m_NAME ms))))"
proof -
  define name where "name = resolve_method_name_from_request ops method (call_request call)"
  define cx where "cx = \<lparr>cx_child = cc_state (call_context call), cx_request = call_request call, cx_wire = wo_new,
      cx_ext = rs_ext (call_state call), cx_world = call_world call\<rparr>"
  note defs = parent_before_child_rpc_def Let_def set_method_name_def call_update_def
  obtain r1 cx1 where b: "stack_before_child_rpc (map logged ms) name cx = (r1, cx1)" by fastforce
  obtain ev1 where ev1: "snd (cx_world cx1) = snd (cx_world cx) @ ev1"
    "case r1 of Inr _ \<Rightarrow> opened ev1 = map m_NAME ms \<and> closed ev1 = [] | Inl _ \<Rightarrow> closed ev1 = rev (opened ev1)"
    using before_child_names [OF b] .
  show ?thesis
  proof (cases r1)
    case (Inl rej)
    then have "r = Inl (rejection_status rej)" "call_world call' = cx_world cx1"
      using assms b by (auto simp: defs name_def cx_def)
    then show ?thesis using ev1 Inl by (intro exI [of _ ev1]) (simp add: cx_def)
  next
    case (Inr u)
    obtain r2 cx2 where s: "stack_seal_child_rpc (map logged ms) name cx1 = (r2, cx2)" by fastforce
    obtain ev2 where ev2: "snd (cx_world cx2) = snd (cx_world cx1) @ ev2" "opened ev2 = []" "closed ev2 = []"
      using seal_child_names [OF s] .
    show ?thesis
    proof (cases r2)
      case (Inl rej)
      obtain rs where rs: "length rs = length ms"
        "snd (stack_reject_child_rpc (map logged ms) name (rejection_by rej) (rejection_status rej) (cx_child cx2) (cx_ext cx2) (cx_world cx2))
          = snd (cx_world cx2) @ lg.afters (ChildRejected (rejection_by rej) (rejection_status rej)) (rev ms) rs"
        using lg.reject_child_stack [of ms name "rejection_by rej" "rejection_status rej" "cx_child cx2" "cx_ext cx2" "cx_world cx2"]
        by blast
      have "r = Inl (rejection_status rej)" "call_world call' = stack_reject_child_rpc (map logged ms) name (rejection_by rej)
          (rejection_status rej) (cx_child cx2) (cx_ext cx2) (cx_world cx2)"
        using assms b Inr s Inl by (auto simp: defs name_def cx_def)
      then show ?thesis using ev1 ev2 rs Inr
        by (intro exI [of _ "ev1 @ ev2 @ lg.afters (ChildRejected (rejection_by rej) (rejection_status rej)) (rev ms) rs"])
          (simp add: cx_def afters_names rev_map)
    next
      case ok: (Inr u')
      have r: "r = Inr ()" "call_world call' = cx_world cx2" "cc_method_name (call_context call') = Some name"
        using assms b Inr s ok by (auto simp: defs name_def cx_def map_exec_Done)
      have "\<exists>events'. snd g' = snd g @ events' \<and> opened events' = [] \<and> closed events' = rev (map m_NAME ms)"
        if after: "parent_after_child_rpc ops (map logged ms) response (call_context call') st g = Done (r', g')" for response st g r' g'
      proof -
        obtain wire where a: "stack_after_child_rpc (map logged ms) name (Sent response) wire (cc_state (call_context call')) (rs_ext st) g = (r', g')"
          using after r(3) by (auto simp: parent_after_child_rpc_def split: sum.splits)
        from lg.after_child_stack [OF a] obtain rs where "length rs = length ms" "snd g' = snd g @ lg.afters (Sent response) (rev ms) rs"
          by blast
        then show ?thesis by (intro exI [of _ "lg.afters (Sent response) (rev ms) rs"]) (simp add: afters_names rev_map)
      qed
      then show ?thesis using ev1 ev2 Inr r by (intro exI [of _ "ev1 @ ev2"]) (simp add: cx_def)
    qed
  qed
qed

definition ex_tonic :: "((string \<times> string) list, unit, string, unit) tonic_ops" where
  "ex_tonic = \<lparr>t_md = ex_metadata, t_to_str = Some, t_req_get = (\<lambda>_. []), t_req_put = (\<lambda>m r. r),
     t_resp_get = (\<lambda>_. []), t_resp_put = (\<lambda>m p. p), t_status_get = (\<lambda>_. []), t_status_put = (\<lambda>m s. s),
     t_internal = (\<lambda>s. s), t_invalid_argument = (\<lambda>s. s), t_utf8_text = ''''\<rparr>"

definition ex_call :: "'w \<Rightarrow> ('w, unit, unit, string) child_call" where
  "ex_call w = \<lparr>call_request = (), call_context = child_context_new ex_tonic ex_method (),
     call_state = \<lparr>rs_ext = ext_new, rs_ended_by = None\<rparr>, call_world = w\<rparr>"

theorem child_rpc_paired_witness:
  "\<exists>r call' events. parent_before_child_rpc ex_tonic (map logged [ex_module ''a'' False, ex_module ''b'' True]) ex_method
      (ex_call ((), [])) = Done (Inl r, call') \<and>
    snd (call_world call') = [] @ events \<and> closed events = rev (opened events)"
proof -
  let ?S = "[ex_module ''a'' False, ex_module ''b'' True]"
  obtain r0 cx0 where b: "stack_before_child_rpc (map logged ?S) (resolve_method_name_from_request ex_tonic ex_method ())
      \<lparr>cx_child = child_state_new, cx_request = (), cx_wire = wo_new, cx_ext = ext_new, cx_world = ((), [])\<rparr> = (r0, cx0)"
    by (metis surj_pair)
  have "r0 = Inl \<lparr>rejection_by = ''b'', rejection_status = ''busy''\<rparr>"
    using arg_cong [OF b, of fst]
    by (simp add: ex_module_def logged_def log_cx_def log_world_def empty_module_def cx_with_world_def split: prod.splits)
  then obtain call' where run: "parent_before_child_rpc ex_tonic (map logged ?S) ex_method (ex_call ((), [])) = Done (Inl ''busy'', call')"
    using b by (simp add: parent_before_child_rpc_def ex_call_def Let_def child_context_new_def set_method_name_def del: list.map)
  from child_rpc_paired [OF run] show ?thesis using run by (auto simp: ex_call_def)
qed

lemma ended_by_stays:
  "rs_ended_by st \<noteq> None \<Longrightarrow> rs_ended_by (foldl (\<lambda>st e. rs_record e st) st es) = rs_ended_by st"
  by (induction es arbitrary: st) (auto simp: rs_record_def Let_def split: option.splits)

text \<open>
  The first module that ends a request is the one every module is told of when the
  request is finalized: later replies do not change the recorded outcome, and without any the
  request was handled.
\<close>

theorem request_outcome_first:
  "rs_outcome (foldl (\<lambda>st e. rs_record e st) \<lparr>rs_ext = ext, rs_ended_by = None\<rparr> es) =
    (case es of
       [] \<Rightarrow> Handled
     | e # _ \<Rightarrow> (case early_reply e of Inl status \<Rightarrow> RequestRejected (early_by e) status | Inr _ \<Rightarrow> Replied (early_by e)))"
proof (cases es)
  case (Cons e es')
  let ?st = "rs_record e \<lparr>rs_ext = ext, rs_ended_by = None\<rparr>"
  have "rs_ended_by (foldl (\<lambda>st e. rs_record e st) ?st es') = rs_ended_by ?st"
    by (rule ended_by_stays) (simp add: rs_record_def Let_def)
  then show ?thesis using Cons by (auto simp: rs_outcome_def rs_record_def Let_def split: sum.split)
qed (simp add: rs_outcome_def)

end
