(* ===== verification/Masa_Context.thy ===== *)
theory Masa_Context
  imports Wire_Sections
begin

text \<open>
  The request context of \<open>libs/masa-core/src\<close>: \<open>context.rs\<close>, \<open>header.rs\<close>,
  \<open>priority.rs\<close>, \<open>typing.rs\<close> and the latency tracker of \<open>timing.rs\<close>. A context is the
  data of the \<open>budget\<close> section of the header. The transport reads the priority of every stream
  by a scan of the serialized context (\<open>scan_priority\<close>) that does not build it; the main result
  is that the scan cannot be told from decoding the whole context. The \<open>bincode\<close> of
  \<open>ContextCompact\<close> is a parameter, and so are the header map and \<open>HeaderValue::to_str\<close> of
  the \<open>http\<close> crate. A panic's message is not part of \<open>Panic\<close>.
\<close>

section \<open>Types\<close>

type_synonym api = string
type_synonym timestamp = u64
type_synonym latency = u64
type_synonym request_id = u64

datatype priority_hint = PriorityHint (hint_value: u64)

definition infra :: priority_hint where
  "infra = PriorityHint 0"

text \<open>\<open>Ord\<close> of the hint is flipped, for a min-heap.\<close>

definition hint_cmp :: "priority_hint \<Rightarrow> priority_hint \<Rightarrow> rust_ordering" where
  "hint_cmp a b = u64_cmp (hint_value b) (hint_value a)"

instantiation priority_hint :: linorder
begin

definition less_eq_priority_hint :: "priority_hint \<Rightarrow> priority_hint \<Rightarrow> bool" where
  "less_eq_priority_hint a b \<longleftrightarrow> hint_cmp a b \<noteq> Greater"

definition less_priority_hint :: "priority_hint \<Rightarrow> priority_hint \<Rightarrow> bool" where
  "less_priority_hint a b \<longleftrightarrow> hint_cmp a b = Less"

instance
  by standard (auto simp: less_eq_priority_hint_def less_priority_hint_def hint_cmp_def not_less priority_hint.expand)

end

lemma priority_hint_le_iff: "a \<le> b \<longleftrightarrow> hint_value b \<le> hint_value a" for a b :: priority_hint
  by (simp add: less_eq_priority_hint_def hint_cmp_def not_less)

lemma priority_hint_less_iff: "a < b \<longleftrightarrow> hint_value b < hint_value a" for a b :: priority_hint
  by (simp add: less_priority_hint_def hint_cmp_def)

record masa_context =
  ctx_api :: api
  ctx_request_id :: request_id
  ctx_slo :: latency
  ctx_gateway_entry :: timestamp
  ctx_deadline :: timestamp
  ctx_prio_hint :: priority_hint

datatype context_compact = ContextCompact api request_id latency timestamp timestamp priority_hint

definition compact_of_context :: "masa_context \<Rightarrow> context_compact" where
  "compact_of_context ctx = ContextCompact (ctx_api ctx) (ctx_request_id ctx) (ctx_slo ctx)
     (ctx_gateway_entry ctx) (ctx_deadline ctx) (ctx_prio_hint ctx)"

fun context_of_compact :: "context_compact \<Rightarrow> masa_context" where
  "context_of_compact (ContextCompact a r s g d p) = \<lparr>ctx_api = a, ctx_request_id = r, ctx_slo = s,
     ctx_gateway_entry = g, ctx_deadline = d, ctx_prio_hint = p\<rparr>"

fun compact_prio :: "context_compact \<Rightarrow> priority_hint" where
  "compact_prio (ContextCompact a r s g d p) = p"

definition context_new :: "api \<Rightarrow> request_id \<Rightarrow> latency \<Rightarrow> timestamp \<Rightarrow> timestamp \<Rightarrow> priority_hint \<Rightarrow> masa_context" where
  "context_new a r s g d p = \<lparr>ctx_api = a, ctx_request_id = r, ctx_slo = s, ctx_gateway_entry = g,
     ctx_deadline = d, ctx_prio_hint = p\<rparr>"

definition context_default :: masa_context where
  "context_default = context_new '''' 0 0 0 0 infra"

definition e2e_deadline :: "masa_context \<Rightarrow> timestamp" where
  "e2e_deadline ctx = ctx_gateway_entry ctx + ctx_slo ctx"

section \<open>The scan for the priority\<close>

definition BUDGET_SECTION :: string where
  "BUDGET_SECTION = ''budget''"

definition SCAN_BUFFER :: nat where
  "SCAN_BUFFER = 192"

text \<open>\<open>split_at_checked\<close>, and a \<open>u64\<close> from at most eight little-endian bytes.\<close>

definition split_at_checked :: "nat \<Rightarrow> 'a list \<Rightarrow> ('a list \<times> 'a list) option" where
  "split_at_checked n xs = (if n \<le> length xs then Some (take n xs, drop n xs) else None)"

fun from_le_bytes :: "u8 list \<Rightarrow> u64" where
  "from_le_bytes [] = 0"
| "from_le_bytes (b # bs) = ucast b OR push_bit 8 (from_le_bytes bs)"

definition read_varint :: "u8 list \<Rightarrow> (u64 \<times> u8 list) option" where
  "read_varint bytes =
     (case bytes of
        [] \<Rightarrow> None
      | marker # rest \<Rightarrow>
          if marker \<le> 250 then Some (ucast marker, rest)
          else
            let wide = (\<lambda>width. map_option (apfst (\<lambda>value. from_le_bytes (value @ replicate (8 - width) 0)))
                  (split_at_checked width rest)) in
            if marker = 251 then wide 2
            else if marker = 252 then wide 4
            else if marker = 253 then wide 8
            else None)"

fun skip_varints :: "nat \<Rightarrow> u8 list \<Rightarrow> u8 list option" where
  "skip_varints 0 rest = Some rest"
| "skip_varints (Suc n) rest = (case read_varint rest of None \<Rightarrow> None | Some (_, rest') \<Rightarrow> skip_varints n rest')"

definition scan_priority :: "u8 list \<Rightarrow> u64 option" where
  "scan_priority bytes =
     (case read_varint bytes of
        None \<Rightarrow> None
      | Some (name_len, rest) \<Rightarrow>
          (case split_at_checked (unat name_len) rest of
             None \<Rightarrow> None
           | Some (name, rest) \<Rightarrow>
               if \<not> list_all (\<lambda>b. b < 128) name then None
               else (case skip_varints 4 rest of
                       None \<Rightarrow> None
                     | Some rest \<Rightarrow>
                         (case read_varint rest of
                            None \<Rightarrow> None
                          | Some (priority, rest) \<Rightarrow> if rest = [] then Some priority else None))))"

definition peek_priority :: "base64_engine \<Rightarrow> context_compact bincode \<Rightarrow> string \<Rightarrow> (string + priority_hint) exec" where
  "peek_priority b64 bin payload =
     bind_exec (decode_payload_into payload (replicate SCAN_BUFFER 0))
       (\<lambda>(r, _). case Option.bind r scan_priority of
          Some priority \<Rightarrow> Done (Inr (PriorityHint priority))
        | None \<Rightarrow> map_exec (map_sum id compact_prio) (decode_payload b64 bin payload))"

section \<open>Headers\<close>

text \<open>Serialization of a context goes through its compact form (serde's \<open>from\<close> and \<open>into\<close>).\<close>

definition context_bincode :: "context_compact bincode \<Rightarrow> masa_context bincode" where
  "context_bincode bin = \<lparr>
     bin_serialize = (\<lambda>ctx. bin_serialize bin (compact_of_context ctx)),
     bin_serialize_into = (\<lambda>ctx. bin_serialize_into bin (compact_of_context ctx)),
     bin_deserialize = (\<lambda>bytes. map_sum id context_of_compact (bin_deserialize bin bytes))\<rparr>"

definition from_header_string :: "base64_engine \<Rightarrow> context_compact bincode \<Rightarrow> string \<Rightarrow> masa_context exec" where
  "from_header_string b64 bin s =
     (case find_section s BUDGET_SECTION of
        None \<Rightarrow> Panic
      | Some payload \<Rightarrow>
          bind_exec (decode_payload b64 (context_bincode bin) payload)
            (\<lambda>r. case r of Inl err \<Rightarrow> Panic | Inr ctx \<Rightarrow> Done ctx))"

definition to_header_string :: "base64_engine \<Rightarrow> context_compact bincode \<Rightarrow> masa_context \<Rightarrow> string exec" where
  "to_header_string b64 bin ctx =
     bind_exec
       (encode_payload_with b64 (context_bincode bin) ctx
         (\<lambda>payload. let header = BUDGET_SECTION @ [NAME_SEPARATOR] @ payload in
           if valid_utf8 header then Done header else Panic))
       (\<lambda>r. case r of Inl err \<Rightarrow> Panic | Inr header \<Rightarrow> header)"

text \<open>The header map and the conversion of a value to text, of the \<open>http\<close> crate.\<close>

record 'h http_ops =
  http_get :: "'h \<Rightarrow> string \<Rightarrow> string option"
  http_to_str :: "string \<Rightarrow> string + string"

definition header_value :: "'h http_ops \<Rightarrow> 'h \<Rightarrow> string exec" where
  "header_value http headers =
     (case http_get http headers HEADER_NAME of
        None \<Rightarrow> Panic
      | Some bytes \<Rightarrow>
          if list_all (\<lambda>c. (of_char c :: nat) < 128) bytes \<and> valid_utf8 bytes then Done bytes
          else (case http_to_str http bytes of Inl err \<Rightarrow> Panic | Inr text \<Rightarrow> Done text))"

definition read_context_from_headers :: "base64_engine \<Rightarrow> context_compact bincode \<Rightarrow> 'h http_ops \<Rightarrow> 'h \<Rightarrow> masa_context exec" where
  "read_context_from_headers b64 bin http headers = bind_exec (header_value http headers) (from_header_string b64 bin)"

definition read_priority_from_headers ::
    "base64_engine \<Rightarrow> context_compact bincode \<Rightarrow> 'h http_ops \<Rightarrow> 'h \<Rightarrow> priority_hint exec" where
  "read_priority_from_headers b64 bin http headers =
     bind_exec (header_value http headers)
       (\<lambda>text. case find_section text BUDGET_SECTION of
          None \<Rightarrow> Panic
        | Some payload \<Rightarrow>
            bind_exec (peek_priority b64 bin payload)
              (\<lambda>r. case r of Inl err \<Rightarrow> Panic | Inr hint \<Rightarrow> Done hint))"

section \<open>The latency tracker\<close>

text \<open>An instant and a duration are counted in nanoseconds; \<open>elapsed\<close> never goes below zero.\<close>

datatype latency_tracker = NotStarted | Started nat | Finished nat

fun tracker_start :: "nat \<Rightarrow> latency_tracker \<Rightarrow> latency_tracker exec" where
  "tracker_start now NotStarted = Done (Started now)"
| "tracker_start now _ = Panic"

fun tracker_record_latency :: "nat \<Rightarrow> latency_tracker \<Rightarrow> latency_tracker exec" where
  "tracker_record_latency now (Started inst) = Done (Finished (now - inst))"
| "tracker_record_latency now _ = Panic"

fun tracker_get_latency :: "latency_tracker \<Rightarrow> nat option" where
  "tracker_get_latency (Finished lat) = Some lat"
| "tracker_get_latency _ = None"

section \<open>Variable-length integers\<close>

text \<open>
  The format \<open>bincode\<close> documents for a \<open>u64\<close> with variable-length integers: what it writes
  (\<open>write_varint\<close>) and all that it reads as a value, which includes encodings wider than
  needed (\<open>is_varint\<close>).
\<close>

definition to_le_bytes :: "nat \<Rightarrow> u64 \<Rightarrow> u8 list" where
  "to_le_bytes n v = map (\<lambda>i. ucast (drop_bit (8 * i) v)) [0..<n]"

definition is_varint :: "u64 \<Rightarrow> u8 list \<Rightarrow> bool" where
  "is_varint v e \<longleftrightarrow> v \<le> 250 \<and> e = [ucast v] \<or>
     (\<exists>(width, marker)\<in>{(2, 251), (4, 252), (8, 253)}. take_bit (8 * width) v = v \<and> e = marker # to_le_bytes width v)"

definition write_varint :: "u64 \<Rightarrow> u8 list" where
  "write_varint v =
     (if v \<le> 250 then [ucast v]
      else if unat v < 2 ^ 16 then 251 # to_le_bytes 2 v
      else if unat v < 2 ^ 32 then 252 # to_le_bytes 4 v
      else 253 # to_le_bytes 8 v)"

lemma length_to_le_bytes [simp]: "length (to_le_bytes n v) = n"
  by (simp add: to_le_bytes_def)

lemma bit_from_le_bytes: "bit (from_le_bytes bs) i \<longleftrightarrow> i < 64 \<and> i div 8 < length bs \<and> bit (bs ! (i div 8)) (i mod 8)"
proof (induction bs arbitrary: i)
  case (Cons b bs)
  show ?case
  proof (cases "i < 8")
    case True
    then show ?thesis by (auto simp: bit_or_iff bit_ucast_iff bit_push_bit_iff)
  next
    case False
    then have "i div 8 = Suc ((i - 8) div 8)" "i mod 8 = (i - 8) mod 8"
      by (auto simp: le_div_geq le_mod_geq)
    moreover have "\<not> bit b i" using False bit_imp_le_length [of b i] by auto
    ultimately show ?thesis using False Cons [of "i - 8"]
      by (auto simp: bit_or_iff bit_ucast_iff bit_push_bit_iff)
  qed
qed simp

lemma from_to_le_bytes:
  assumes "n \<le> 8" "take_bit (8 * n) v = v"
  shows "from_le_bytes (to_le_bytes n v @ replicate (8 - n) 0) = v"
proof (rule bit_eqI)
  fix i
  assume "possible_bit TYPE(u64) i"
  then have i: "i < 64" by simp
  have "bit v i \<longleftrightarrow> i < 8 * n \<and> bit v i" using assms(2) bit_take_bit_iff [of "8 * n" v i] by simp
  moreover have "bit (to_le_bytes n v ! (i div 8)) (i mod 8) = bit v i" if "i < 8 * n"
    using that by (simp add: to_le_bytes_def bit_ucast_iff bit_drop_bit_eq less_mult_imp_div_less mult.commute)
  ultimately show "bit (from_le_bytes (to_le_bytes n v @ replicate (8 - n) 0)) i = bit v i"
    using i assms(1) by (auto simp: bit_from_le_bytes nth_append)
qed

lemma to_from_le_bytes:
  assumes "length bs = n" "n \<le> 8"
  shows "to_le_bytes n (from_le_bytes (bs @ replicate (8 - n) 0)) = bs"
    "take_bit (8 * n) (from_le_bytes (bs @ replicate (8 - n) 0)) = from_le_bytes (bs @ replicate (8 - n) 0)"
proof -
  let ?v = "from_le_bytes (bs @ replicate (8 - n) 0)"
  have bits: "bit ?v i \<longleftrightarrow> i < 8 * n \<and> bit (bs ! (i div 8)) (i mod 8)" for i
  proof (cases "i < 8 * n")
    case True
    then have "i div 8 < n" by (simp add: less_mult_imp_div_less mult.commute)
    then show ?thesis using True assms by (simp add: bit_from_le_bytes nth_append)
  next
    case False
    then have "\<not> i div 8 < n" by auto
    then show ?thesis using False assms by (auto simp: bit_from_le_bytes nth_append)
  qed
  show "take_bit (8 * n) ?v = ?v" by (rule bit_eqI) (auto simp: bit_take_bit_iff bits)
  show "to_le_bytes n ?v = bs"
  proof (rule nth_equalityI)
    fix j
    assume "j < length (to_le_bytes n ?v)"
    then have j: "j < n" by simp
    show "to_le_bytes n ?v ! j = bs ! j"
    proof (rule bit_eqI)
      fix k
      assume "possible_bit TYPE(u8) k"
      then have "k < 8" by simp
      then show "bit (to_le_bytes n ?v ! j) k = bit (bs ! j) k"
        using j by (auto simp: to_le_bytes_def bit_ucast_iff bit_drop_bit_eq bits)
    qed
  qed (simp add: assms)
qed

lemma read_varint_wide:
  assumes "(width, marker) \<in> {(2, 251), (4, 252), (8, 253)}"
  shows "read_varint (marker # bytes) = (if width \<le> length bytes
    then Some (from_le_bytes (take width bytes @ replicate (8 - width) 0), drop width bytes) else None)"
  using assms by (auto simp: read_varint_def split_at_checked_def)

lemma read_varint_sound:
  assumes "read_varint bytes = Some (v, rest)"
  shows "\<exists>e. bytes = e @ rest \<and> is_varint v e"
proof -
  obtain marker r where b: "bytes = marker # r" using assms by (cases bytes) (auto simp: read_varint_def)
  consider "marker \<le> 250" | width :: nat where "(width, marker) \<in> {(2, 251), (4, 252), (8, 253)}"
    using assms b by (auto simp: read_varint_def Let_def split: if_splits)
  then show ?thesis
  proof cases
    case 1
    then have "v = ucast marker" "rest = r" using assms b by (auto simp: read_varint_def)
    moreover have "unat (ucast marker :: u64) = unat marker"
      by (simp add: unsigned_ucast_eq take_bit_nat_eq_self unsigned_less [of marker, THEN less_trans])
    moreover have "ucast (ucast marker :: u64) = marker" by (rule bit_eqI) (auto simp: bit_ucast_iff)
    ultimately show ?thesis using 1 b by (auto simp: is_varint_def word_le_nat_alt)
  next
    case 2
    then have w: "width \<le> length r" "v = from_le_bytes (take width r @ replicate (8 - width) 0)" "rest = drop width r"
      using assms read_varint_wide [OF 2, of r] b by (auto split: if_splits)
    have "width \<le> 8" using 2 by auto
    then have "to_le_bytes width v = take width r" "take_bit (8 * width) v = v"
      using to_from_le_bytes [of "take width r" width] w by (simp_all add: w(2))
    then have "is_varint v (marker # take width r)" unfolding is_varint_def using 2 by (intro disjI2 bexI [OF _ 2]) auto
    then show ?thesis using b w(3) by (intro exI [of _ "marker # take width r"]) simp
  qed
qed

lemma read_varint_complete:
  assumes "is_varint v e"
  shows "read_varint (e @ rest) = Some (v, rest)"
proof -
  consider "v \<le> 250" "e = [ucast v]" | width marker where "(width, marker) \<in> {(2, 251), (4, 252), (8, 253)}"
      "take_bit (8 * width) v = v" "e = marker # to_le_bytes width v"
    using assms by (auto simp: is_varint_def)
  then show ?thesis
  proof cases
    case 1
    then have "unat v \<le> 250" by (simp add: word_le_nat_alt)
    then have "unat (ucast v :: u8) = unat v" by (simp add: unsigned_ucast_eq take_bit_nat_eq_self)
    moreover from this have "(ucast (ucast v :: u8) :: u64) = v"
      by (intro word_unat_eq_iff [THEN iffD2]) (simp add: unsigned_ucast_eq unsigned_take_bit_eq take_bit_nat_eq_self)
    ultimately show ?thesis using 1 by (simp add: read_varint_def word_le_nat_alt)
  next
    case 2
    have "width \<le> 8" using 2(1) by auto
    then show ?thesis using read_varint_wide [OF 2(1), of "to_le_bytes width v @ rest"] from_to_le_bytes 2 by simp
  qed
qed

lemma write_varint_is_varint: "is_varint v (write_varint v)"
proof -
  have small: "take_bit n v = v" if "unat v < 2 ^ n" for n
  proof -
    have "unat (take_bit n v) = unat v" using that by (simp add: unsigned_take_bit_eq take_bit_nat_eq_self)
    then show ?thesis by (simp add: word_unat_eq_iff)
  qed
  have "take_bit 64 v = v" by (rule small) (use unsigned_less [of v] in simp)
  then show ?thesis using small [of 16] small [of 32] by (auto simp: write_varint_def is_varint_def)
qed


section \<open>The serialized context\<close>

text \<open>
  What \<open>bincode\<close> documents of a tuple struct of a string and five integers: the fields in
  order, the string as its length and its UTF-8 bytes; any encoding of an integer is read.
\<close>

definition text_bytes :: "string \<Rightarrow> u8 list" where
  "text_bytes s = map of_char s"

definition is_compact :: "context_compact \<Rightarrow> u8 list \<Rightarrow> bool" where
  "is_compact c bytes \<longleftrightarrow> (case c of ContextCompact a r s g d p \<Rightarrow>
     \<exists>e0 e1 e2 e3 e4 e5. bytes = e0 @ text_bytes a @ e1 @ e2 @ e3 @ e4 @ e5 \<and> valid_utf8 a \<and> length a < 2 ^ 64 \<and>
       is_varint (of_nat (length a)) e0 \<and> is_varint r e1 \<and> is_varint s e2 \<and> is_varint g e3 \<and> is_varint d e4 \<and>
       is_varint (hint_value p) e5)"

fun compact_bytes :: "context_compact \<Rightarrow> u8 list" where
  "compact_bytes (ContextCompact a r s g d p) = write_varint (of_nat (length a)) @ text_bytes a @ write_varint r @
     write_varint s @ write_varint g @ write_varint d @ write_varint (hint_value p)"

text \<open>A Rust \<open>String\<close> is UTF-8 and shorter than the address space.\<close>

definition rust_string :: "string \<Rightarrow> bool" where
  "rust_string a \<longleftrightarrow> valid_utf8 a \<and> length a < 2 ^ 64"

definition compact_format :: "context_compact bincode \<Rightarrow> bool" where
  "compact_format bin \<longleftrightarrow>
     (\<forall>c bytes. is_compact c bytes \<longrightarrow> bin_deserialize bin bytes = Inr c) \<and>
     (\<forall>a r s g d p. rust_string a \<longrightarrow>
        bin_serialize bin (ContextCompact a r s g d p) = Inr (compact_bytes (ContextCompact a r s g d p)))"

lemma is_compactI:
  assumes "rust_string a" "is_varint (of_nat (length a)) e0" "is_varint r e1" "is_varint s e2" "is_varint g e3"
    "is_varint d e4" "is_varint (hint_value p) e5"
  shows "is_compact (ContextCompact a r s g d p) (e0 @ text_bytes a @ e1 @ e2 @ e3 @ e4 @ e5)"
  unfolding is_compact_def context_compact.case using assms unfolding rust_string_def by blast

lemma is_compact_bytes: "rust_string a \<Longrightarrow> is_compact (ContextCompact a r s g d p) (compact_bytes (ContextCompact a r s g d p))"
  unfolding compact_bytes.simps by (intro is_compactI write_varint_is_varint)

lemma ascii_utf8: "list_all (\<lambda>c. (of_char c :: nat) < 128) s \<Longrightarrow> valid_utf8 s"
proof (induction s)
  case (Cons c s)
  then have "valid_utf8 ([] @ c # s) = (valid_utf8 [] \<and> valid_utf8 s)" by (intro valid_utf8_append_ascii) simp
  with Cons show ?case by simp
qed simp

lemma of_char_char_of_u8: "of_char (char_of (unat (b :: u8))) = b" "of_char (char_of (unat b)) = unat b"
proof -
  have "unat b < 256" using unsigned_less [of b] by simp
  then show nat: "of_char (char_of (unat b)) = unat b" by simp
  have "(of_char (char_of (unat b)) :: u8) = of_nat (of_char (char_of (unat b)))" by (simp only: of_nat_of_char)
  then show "of_char (char_of (unat b)) = b" by (simp only: nat) simp
qed

lemma ascii_bytes_text:
  assumes "list_all (\<lambda>b. b < 128) (name :: u8 list)" "length name < 2 ^ 64"
  shows "\<exists>a. text_bytes a = name \<and> length a = length name \<and> rust_string a \<and> list_all (\<lambda>c. (of_char c :: nat) < 128) a"
proof -
  let ?a = "map (\<lambda>b. char_of (unat b)) name"
  have "text_bytes ?a = name" by (simp add: text_bytes_def of_char_char_of_u8 comp_def)
  moreover have "list_all (\<lambda>c. (of_char c :: nat) < 128) ?a"
    using assms(1) by (auto simp: list_all_iff of_char_char_of_u8 word_less_nat_alt)
  moreover from this have "valid_utf8 ?a" by (rule ascii_utf8)
  ultimately show ?thesis using assms(2) by (intro exI [of _ ?a] conjI) (auto simp: rust_string_def)
qed

lemma skip_varints_sound:
  "skip_varints n bytes = Some rest \<Longrightarrow> \<exists>ves. bytes = concat (map snd ves) @ rest \<and> length ves = n \<and> (\<forall>(v, e)\<in>set ves. is_varint v e)"
proof (induction n arbitrary: bytes)
  case (Suc n)
  then obtain v r where v: "read_varint bytes = Some (v, r)" "skip_varints n r = Some rest"
    by (auto split: option.splits)
  from read_varint_sound [OF v(1)] obtain e where "bytes = e @ r" "is_varint v e" by blast
  moreover from Suc.IH [OF v(2)] obtain ves where "r = concat (map snd ves) @ rest" "length ves = n"
    "\<forall>(v, e)\<in>set ves. is_varint v e" by blast
  ultimately show ?case by (intro exI [of _ "(v, e) # ves"]) auto
qed simp

lemma scan_priority_sound:
  assumes "scan_priority bytes = Some p"
  shows "\<exists>a r s g d. is_compact (ContextCompact a r s g d (PriorityHint p)) bytes \<and> list_all (\<lambda>c. (of_char c :: nat) < 128) a"
proof -
  from assms obtain n r1 name r2 r3 where
    f: "read_varint bytes = Some (n, r1)" "split_at_checked (unat n) r1 = Some (name, r2)"
      "list_all (\<lambda>b. b < 128) name" "skip_varints 4 r2 = Some r3" "read_varint r3 = Some (p, [])"
    by (auto simp: scan_priority_def split: option.splits if_splits)
  from read_varint_sound [OF f(1)] obtain e0 where e0: "bytes = e0 @ r1" "is_varint n e0" by blast
  have name: "r1 = name @ r2" "length name = unat n" using f(2) by (auto simp: split_at_checked_def split: if_splits)
  have "length name < 2 ^ 64" using name(2) unsigned_less [of n] by simp
  from ascii_bytes_text [OF f(3) this] obtain a where a: "text_bytes a = name" "length a = length name" "rust_string a"
    "list_all (\<lambda>c. (of_char c :: nat) < 128) a" by blast
  from skip_varints_sound [OF f(4)] obtain ves where ves: "r2 = concat (map snd ves) @ r3" "length ves = 4"
    "\<forall>(v, e)\<in>set ves. is_varint v e" by blast
  from ves(2) obtain v1 e1 v2 e2 v3 e3 v4 e4 where "ves = [(v1, e1), (v2, e2), (v3, e3), (v4, e4)]"
    by (auto simp: numeral_eq_Suc length_Suc_conv)
  note ves4 = this
  from read_varint_sound [OF f(5)] have "is_varint p r3" by auto
  moreover have "of_nat (length a) = n" using a(2) name(2) by simp
  ultimately have "is_compact (ContextCompact a v1 v2 v3 v4 (PriorityHint p)) (e0 @ text_bytes a @ e1 @ e2 @ e3 @ e4 @ r3)"
    using e0(2) a(3) ves(3) ves4 by (intro is_compactI) auto
  then have "is_compact (ContextCompact a v1 v2 v3 v4 (PriorityHint p)) bytes"
    using e0(1) name(1) a(1) ves(1) ves4 by simp
  then show ?thesis using a(4) by blast
qed

lemma peek_priority_general:
  assumes "standard_engine b64" "compact_format bin"
  shows "peek_priority b64 bin payload = map_exec (map_sum id compact_prio) (decode_payload b64 bin payload)"
proof -
  obtain r buf where d: "decode_payload_into payload (replicate SCAN_BUFFER 0) = Done (r, buf)"
    "\<forall>bs. r = Some bs \<longrightarrow> payload = rfc4648_encode bs"
    using decode_payload_into_sound [of payload "replicate SCAN_BUFFER 0"] by blast
  show ?thesis
  proof (cases "Option.bind r scan_priority")
    case (Some p)
    then obtain bs where bs: "r = Some bs" "scan_priority bs = Some p" by (cases r) auto
    from scan_priority_sound [OF bs(2)] obtain c where c: "is_compact c bs" "compact_prio c = PriorityHint p"
      by (metis compact_prio.simps)
    have "b64_decode b64 payload = Inr bs" using assms(1) d(2) bs(1) by (simp add: standard_engine_def)
    moreover have "bin_deserialize bin bs = Inr c" using assms(2) c(1) by (auto simp: compact_format_def)
    ultimately show ?thesis using d(1) Some c(2) assms(1)
      by (simp add: peek_priority_def decode_payload_general deserialize_def)
  qed (simp add: peek_priority_def d(1))
qed

lemma context_of_compact_of [simp]: "context_of_compact (compact_of_context ctx) = ctx"
  by (simp add: compact_of_context_def)

lemma ctx_prio_context_of [simp]: "ctx_prio_hint (context_of_compact c) = compact_prio c"
  by (cases c) simp

lemma decode_context:
  assumes "standard_engine b64"
  shows "decode_payload b64 (context_bincode bin) payload = map_exec (map_sum id context_of_compact) (decode_payload b64 bin payload)"
  using assms by (simp add: decode_payload_general deserialize_def context_bincode_def split: sum.split)


lemma skip_varints_complete:
  "list_all2 is_varint vs es \<Longrightarrow> skip_varints (length vs) (concat es @ rest) = Some rest"
  by (induction vs es rule: list_all2_induct) (simp_all add: read_varint_complete)

lemma ascii_of_char: "((of_char c :: u8) < 128) = ((of_char c :: nat) < 128)"
proof -
  have "(of_char c :: u8) = of_nat (of_char c)" by (simp only: of_nat_of_char)
  moreover have "(of_char c :: nat) < 256" using of_char_256 by blast
  ultimately show ?thesis by (simp add: word_less_nat_alt unat_of_nat_less)
qed

lemma scan_priority_complete:
  assumes "is_compact (ContextCompact a r s g d p) bytes" "list_all (\<lambda>c. (of_char c :: nat) < 128) a"
  shows "scan_priority bytes = Some (hint_value p)"
proof -
  from assms(1) obtain e0 e1 e2 e3 e4 e5 where e: "bytes = e0 @ text_bytes a @ e1 @ e2 @ e3 @ e4 @ e5" "length a < 2 ^ 64"
    "is_varint (of_nat (length a)) e0" "is_varint r e1" "is_varint s e2" "is_varint g e3" "is_varint d e4"
    "is_varint (hint_value p) e5"
    unfolding is_compact_def context_compact.case by blast
  have "unat (of_nat (length a) :: u64) = length (text_bytes a)"
    using e(2) unat_of_nat_less [where 'a = 64, of "length a"] by (simp add: text_bytes_def)
  moreover have "list_all (\<lambda>b. b < 128) (text_bytes a)"
    using assms(2) by (simp add: text_bytes_def list.pred_map comp_def ascii_of_char)
  moreover have "skip_varints 4 (e1 @ e2 @ e3 @ e4 @ e5) = Some e5"
    using skip_varints_complete [of "[r, s, g, d]" "[e1, e2, e3, e4]" e5] e(4-7)
    by (simp add: numeral_eq_Suc del: skip_varints.simps)
  ultimately show ?thesis
    using read_varint_complete [OF e(3)] read_varint_complete [OF e(8), of "[]"]
    by (simp add: scan_priority_def e(1) split_at_checked_def)
qed

section \<open>A serializer with the documented format\<close>

definition ex_read_compact :: "u8 list \<Rightarrow> context_compact option" where
  "ex_read_compact bytes =
     Option.bind (read_varint bytes) (\<lambda>(n, r1).
     Option.bind (split_at_checked (unat n) r1) (\<lambda>(name, r2).
     Option.bind (read_varint r2) (\<lambda>(r, r3).
     Option.bind (read_varint r3) (\<lambda>(s, r4).
     Option.bind (read_varint r4) (\<lambda>(g, r5).
     Option.bind (read_varint r5) (\<lambda>(d, r6).
     Option.bind (read_varint r6) (\<lambda>(p, r7).
       if r7 = [] \<and> valid_utf8 (map (\<lambda>b. char_of (unat b)) name)
       then Some (ContextCompact (map (\<lambda>b. char_of (unat b)) name) r s g d (PriorityHint p)) else None)))))))"

definition ex_compact :: "context_compact bincode" where
  "ex_compact = \<lparr>
     bin_serialize = (\<lambda>c. Inr (compact_bytes c)),
     bin_serialize_into = (\<lambda>c n. if length (compact_bytes c) \<le> n then Some (compact_bytes c) else None),
     bin_deserialize = (\<lambda>bytes. case ex_read_compact bytes of Some c \<Rightarrow> Inr c | None \<Rightarrow> Inl ''format'')\<rparr>"

lemma char_of_of_char_u8: "char_of (unat (of_char c :: u8)) = c"
proof -
  have "(of_char c :: u8) = of_nat (of_char c)" by (simp only: of_nat_of_char)
  moreover have "unat (of_nat (of_char c) :: u8) = of_char c"
    by (rule unat_of_nat_less) (use of_char_256 [of c] in simp)
  ultimately show ?thesis by simp
qed

lemma ex_read_compact_complete: "is_compact c bytes \<Longrightarrow> ex_read_compact bytes = Some c"
proof (cases c)
  case (ContextCompact a r s g d p)
  assume "is_compact c bytes"
  then obtain e0 e1 e2 e3 e4 e5 where e: "bytes = e0 @ text_bytes a @ e1 @ e2 @ e3 @ e4 @ e5" "valid_utf8 a" "length a < 2 ^ 64"
    "is_varint (of_nat (length a)) e0" "is_varint r e1" "is_varint s e2" "is_varint g e3" "is_varint d e4"
    "is_varint (hint_value p) e5"
    unfolding is_compact_def ContextCompact context_compact.case by blast
  have "unat (of_nat (length a) :: u64) = length (text_bytes a)"
    using e(3) unat_of_nat_less [where 'a = 64, of "length a"] by (simp add: text_bytes_def)
  moreover have "map (\<lambda>b. char_of (unat b)) (text_bytes a) = a"
    by (simp add: text_bytes_def char_of_of_char_u8 comp_def)
  ultimately show ?thesis using e(2) read_varint_complete [OF e(9), of "[]"]
    by (simp add: ex_read_compact_def e(1) split_at_checked_def read_varint_complete [OF e(4)]
        read_varint_complete [OF e(5)] read_varint_complete [OF e(6)] read_varint_complete [OF e(7)]
        read_varint_complete [OF e(8)] ContextCompact)
qed

lemma ex_compact_format: "compact_format ex_compact" "bincode_buffer ex_compact"
  using ex_read_compact_complete by (auto simp: compact_format_def bincode_buffer_def ex_compact_def)

definition ex_context :: masa_context where
  "ex_context = context_new ''/api/search'' 7 300000 1000 301000 (PriorityHint 301000)"

lemma ex_context_api: "rust_string (ctx_api ex_context)"
  by (simp add: ex_context_def context_new_def rust_string_def ascii_utf8)

definition ex_http :: "(string \<rightharpoonup> string) http_ops" where
  "ex_http = \<lparr>http_get = (\<lambda>h k. h k), http_to_str = (\<lambda>v. if list_all visible_ascii v then Inr v else Inl ''to_str'')\<rparr>"

section \<open>Properties\<close>

text \<open>
  The scan for the priority recognizes exactly the serialized contexts whose API name
  is ASCII, in any encoding of their integers, and returns their priority.
\<close>

theorem scan_priority_exact:
  "scan_priority bytes = Some p \<longleftrightarrow>
    (\<exists>a r s g d. is_compact (ContextCompact a r s g d (PriorityHint p)) bytes \<and> list_all (\<lambda>c. (of_char c :: nat) < 128) a)"
proof
  assume "scan_priority bytes = Some p"
  then show "\<exists>a r s g d. is_compact (ContextCompact a r s g d (PriorityHint p)) bytes \<and>
    list_all (\<lambda>c. (of_char c :: nat) < 128) a" by (rule scan_priority_sound)
qed (use scan_priority_complete in fastforce)

text \<open>
  Reading the priority of a stream from its headers is reading the whole context and
  taking its priority: for every header map the same hint, or a panic in both.
\<close>

theorem priority_read_agrees:
  assumes "standard_engine b64" "compact_format bin"
  shows "read_priority_from_headers b64 bin http headers = map_exec ctx_prio_hint (read_context_from_headers b64 bin http headers)"
proof (cases "header_value http headers")
  case (Done t)
  show ?thesis
  proof (cases "find_section t BUDGET_SECTION")
    case (Some payload)
    obtain r where "decode_payload b64 bin payload = Done r" using assms(1) by (simp add: decode_payload_general)
    with Some Done assms show ?thesis
      by (cases r) (simp_all add: read_priority_from_headers_def read_context_from_headers_def from_header_string_def
          peek_priority_general decode_context)
  qed (simp add: read_priority_from_headers_def read_context_from_headers_def from_header_string_def Done)
qed (simp add: read_priority_from_headers_def read_context_from_headers_def)

theorem priority_read_agrees_witness:
  "read_priority_from_headers ex_engine ex_compact ex_http [HEADER_NAME \<mapsto> ''est:AA==.budget''] = Panic \<and>
   read_context_from_headers ex_engine ex_compact ex_http [HEADER_NAME \<mapsto> ''est:AA==.budget''] = Panic"
proof -
  let ?h = "[HEADER_NAME \<mapsto> ''est:AA==.budget'']"
  have "find_section ''est:AA==.budget'' BUDGET_SECTION = Some ''''" by code_simp
  moreover have "header_value ex_http ?h = Done ''est:AA==.budget''"
    by (simp add: header_value_def ex_http_def ascii_utf8)
  moreover have "ex_read_compact [] = None" by (simp add: ex_read_compact_def read_varint_def)
  then have "decode_payload ex_engine ex_compact '''' = Done (Inl (''bincode: '' @ ''format''))"
    by (simp add: decode_payload_def decode_payload_into_def deserialize_def ex_compact_def)
  ultimately have "read_context_from_headers ex_engine ex_compact ex_http ?h = Panic"
    by (simp add: read_context_from_headers_def from_header_string_def decode_context ex_engine_standard)
  then show ?thesis using priority_read_agrees [OF ex_engine_standard ex_compact_format(1), of ex_http ?h] by simp
qed

text \<open>
  Claim C36. A context survives its header: writing it never panics, and reading the header, as a
  string or out of a header map, gives the context back, and its priority.
\<close>

theorem context_header_round_trip:
  assumes "standard_engine b64" "compact_format bin" "bincode_buffer bin" "rust_string (ctx_api ctx)"
  shows "\<exists>h. to_header_string b64 bin ctx = Done h \<and> from_header_string b64 bin h = Done ctx \<and>
    (\<forall>http headers. http_get http headers HEADER_NAME = Some h \<longrightarrow>
       read_context_from_headers b64 bin http headers = Done ctx \<and>
       read_priority_from_headers b64 bin http headers = Done (ctx_prio_hint ctx))"
proof -
  let ?c = "compact_of_context ctx"
  let ?h = "BUDGET_SECTION @ NAME_SEPARATOR # rfc4648_encode (compact_bytes ?c)"
  have ser: "bin_serialize bin ?c = Inr (compact_bytes ?c)" and des: "bin_deserialize bin (compact_bytes ?c) = Inr ?c"
    using assms(2,4) is_compact_bytes by (auto simp: compact_format_def compact_of_context_def)
  have name: "valid_name BUDGET_SECTION" by (simp add: BUDGET_SECTION_def valid_name_def is_ascii_alphanumeric_def)
  have vis: "list_all visible_ascii ?h" by (rule section_ascii [OF name])
  then have ascii: "list_all (\<lambda>c. (of_char c :: nat) < 128) ?h"
    by (rule list.pred_mono_strong) (simp add: visible_ascii_def)
  have "bincode_buffer (context_bincode bin)" using assms(3) by (simp add: bincode_buffer_def context_bincode_def)
  then have to: "to_header_string b64 bin ctx = Done ?h"
    using assms(1) ser visible_ascii_utf8 [OF vis]
    by (simp add: to_header_string_def encode_payload_with_general context_bincode_def Let_def)
  have find: "find_section ?h BUDGET_SECTION = Some (rfc4648_encode (compact_bytes ?c))"
    using sections_push [OF valid_name_plain [OF name], of "rfc4648_encode (compact_bytes ?c)" "[]"] rfc4648_payload_ok
    by (simp add: find_section_map_of [OF valid_name_plain [OF name]] push_section_def payload_ok_def sections_def)
  have "b64_decode b64 (rfc4648_encode (compact_bytes ?c)) = Inr (compact_bytes ?c)"
    using assms(1) by (simp add: standard_engine_def)
  then have dec: "decode_payload b64 bin (rfc4648_encode (compact_bytes ?c)) = Done (Inr ?c)"
    using assms(1) des by (simp add: decode_payload_general deserialize_def)
  have frm: "from_header_string b64 bin ?h = Done ctx"
    using assms(1) by (simp add: from_header_string_def find decode_context dec)
  have "read_context_from_headers b64 bin http headers = Done ctx \<and>
      read_priority_from_headers b64 bin http headers = Done (ctx_prio_hint ctx)"
    if "http_get http headers HEADER_NAME = Some ?h" for http :: "'c http_ops" and headers
  proof -
    have "header_value http headers = Done ?h" using that ascii visible_ascii_utf8 [OF vis] by (simp add: header_value_def)
    then show ?thesis using assms(1,2) frm find dec
      by (simp add: read_context_from_headers_def read_priority_from_headers_def peek_priority_general compact_of_context_def)
  qed
  then show ?thesis using to frm by blast
qed


theorem context_header_round_trip_witness:
  "\<exists>h. to_header_string ex_engine ex_compact ex_context = Done h \<and>
     from_header_string ex_engine ex_compact h = Done ex_context \<and>
     read_priority_from_headers ex_engine ex_compact ex_http [HEADER_NAME \<mapsto> h] = Done (PriorityHint 301000)"
proof -
  obtain h where h: "to_header_string ex_engine ex_compact ex_context = Done h \<and>
    from_header_string ex_engine ex_compact h = Done ex_context \<and>
    (\<forall>(http :: (string \<rightharpoonup> string) http_ops) headers. http_get http headers HEADER_NAME = Some h \<longrightarrow>
       read_context_from_headers ex_engine ex_compact http headers = Done ex_context \<and>
       read_priority_from_headers ex_engine ex_compact http headers = Done (ctx_prio_hint ex_context))"
    using context_header_round_trip [OF ex_engine_standard ex_compact_format ex_context_api] by (rule exE)
  then have "http_get ex_http [HEADER_NAME \<mapsto> h] HEADER_NAME = Some h \<Longrightarrow>
    read_priority_from_headers ex_engine ex_compact ex_http [HEADER_NAME \<mapsto> h] = Done (ctx_prio_hint ex_context)" by blast
  then have "read_priority_from_headers ex_engine ex_compact ex_http [HEADER_NAME \<mapsto> h] = Done (PriorityHint 301000)"
    by (simp add: ex_http_def ex_context_def context_new_def)
  with h show ?thesis by blast
qed


end
