(* ===== verification/Policy_Modules.thy ===== *)
theory Policy_Modules
  imports Masa_Context Tonic_Hooks
begin

text \<open>
  Masa's own modules, \<open>libs/masa-policy/src/module\<close>: the budget module (\<open>budget.rs\<close>), the
  end-to-end deadline guard (\<open>e2e_deadline_guard.rs\<close>), the oracle (\<open>oracle.rs\<close>) and the
  queue-latency observer (\<open>queue_latency.rs\<close>); the metadata helpers of
  \<open>context_ext.rs\<close>; and the stack the features select (\<open>masa_stack.rs\<close>). The hooks of a
  module are functions of its state; the clock, the length of the run queue and the service name
  are arguments of the hooks that read them.
\<close>

section \<open>Statuses and shared values\<close>

datatype code = DeadlineExceeded | Internal | ResourceExhausted | InvalidArgument

datatype status = Status (status_code: code) (status_message: string)

datatype policy_value =
    BudgetInfo (info_context: masa_context)
  | ChildDeadline (deadline_value: timestamp)
  | ChildPriority (priority_value: priority_hint)

definition BUDGET_INFO :: type_id where
  "BUDGET_INFO = TypeId ''masa_policy::module::budget::BudgetInfo''"

definition CHILD_DEADLINE :: type_id where
  "CHILD_DEADLINE = TypeId ''masa_policy::module::budget::ChildDeadline''"

definition CHILD_PRIORITY :: type_id where
  "CHILD_PRIORITY = TypeId ''masa_policy::module::budget::ChildPriority''"

section \<open>Root requests\<close>

text \<open>The two features that choose what a root priority means, and the clock.\<close>

definition root_priority :: "bool \<Rightarrow> bool \<Rightarrow> u64 \<Rightarrow> timestamp \<Rightarrow> timestamp \<Rightarrow> priority_hint" where
  "root_priority sched_tailclipper sched_pred now entry deadline =
     (if sched_tailclipper then PriorityHint entry
      else if sched_pred then PriorityHint (saturating_sub deadline now)
      else PriorityHint deadline)"

record context_builder =
  cb_api :: api
  cb_request_id :: request_id
  cb_slo :: latency
  cb_gateway_entry :: timestamp
  cb_deadline :: timestamp
  cb_prio_hint :: "priority_hint option"

definition cb_new :: "api \<Rightarrow> request_id \<Rightarrow> context_builder" where
  "cb_new a r = \<lparr>cb_api = a, cb_request_id = r, cb_slo = 0, cb_gateway_entry = 0, cb_deadline = 0, cb_prio_hint = None\<rparr>"

definition cb_from :: "masa_context \<Rightarrow> context_builder" where
  "cb_from ctx = \<lparr>cb_api = ctx_api ctx, cb_request_id = ctx_request_id ctx, cb_slo = ctx_slo ctx,
     cb_gateway_entry = ctx_gateway_entry ctx, cb_deadline = ctx_deadline ctx, cb_prio_hint = Some (ctx_prio_hint ctx)\<rparr>"

definition cb_build :: "bool \<Rightarrow> bool \<Rightarrow> u64 \<Rightarrow> context_builder \<Rightarrow> masa_context" where
  "cb_build sched_tailclipper sched_pred now b =
     (let prio = (case cb_prio_hint b of
          Some p \<Rightarrow> p
        | None \<Rightarrow> root_priority sched_tailclipper sched_pred now (cb_gateway_entry b) (cb_deadline b)) in
      context_new (cb_api b) (cb_request_id b) (cb_slo b) (cb_gateway_entry b) (cb_deadline b) prio)"

section \<open>The budget module\<close>

definition budget_of :: "policy_value extensions \<Rightarrow> masa_context exec" where
  "budget_of ext =
     (case ext_get BUDGET_INFO ext of Some (Value v) \<Rightarrow> Done (info_context v) | _ \<Rightarrow> Panic)"

record budget_module =
  bm_info :: masa_context
  bm_encoded :: encoded_section

definition budget_new :: "base64_engine \<Rightarrow> context_compact bincode \<Rightarrow> wire_in \<Rightarrow> policy_value extensions \<Rightarrow>
    (budget_module \<times> policy_value extensions) exec" where
  "budget_new b64 bin wire ext =
     bind_exec (wi_get_with_encoded b64 (context_bincode bin) BUDGET_SECTION wire)
       (\<lambda>r. case r of
          Inl err \<Rightarrow> Panic
        | Inr None \<Rightarrow> Panic
        | Inr (Some (request, encoded)) \<Rightarrow>
            Done (\<lparr>bm_info = request, bm_encoded = encoded\<rparr>, snd (ext_insert BUDGET_INFO (Value (BudgetInfo request)) ext)))"

definition last_or :: "'b \<Rightarrow> ('v \<Rightarrow> 'b) \<Rightarrow> 'v proposal list \<Rightarrow> 'b" where
  "last_or d f ps = (if ps = [] then d else f (proposal_value (last ps)))"

definition budget_seal_child_rpc :: "base64_engine \<Rightarrow> context_compact bincode \<Rightarrow> budget_module \<Rightarrow>
    policy_value child_state \<Rightarrow> wire_out \<Rightarrow> (policy_value child_state \<times> wire_out) exec" where
  "budget_seal_child_rpc b64 bin m child child_wire =
     (case resolve CHILD_DEADLINE (child_extensions child) of (dps, c1) \<Rightarrow>
      let deadline = last_or (ctx_deadline (bm_info m)) deadline_value dps in
      case resolve CHILD_PRIORITY c1 of (pps, c2) \<Rightarrow>
      let prio = last_or (ctx_prio_hint (bm_info m)) priority_value pps in
      if deadline = ctx_deadline (bm_info m) \<and> prio = ctx_prio_hint (bm_info m) then
        Done (ChildState c2, wo_put_encoded BUDGET_SECTION (bm_encoded m) child_wire)
      else
        let ctx = context_new (ctx_api (bm_info m)) (ctx_request_id (bm_info m)) (ctx_slo (bm_info m))
              (ctx_gateway_entry (bm_info m)) deadline prio in
        bind_exec (wo_put b64 (context_bincode bin) BUDGET_SECTION ctx child_wire)
          (\<lambda>r. case r of Inl err \<Rightarrow> Panic | Inr w \<Rightarrow> Done (ChildState c2, w)))"

definition budget_finalize :: "budget_module \<Rightarrow> wire_out \<Rightarrow> wire_out" where
  "budget_finalize m wire = wo_put_encoded BUDGET_SECTION (bm_encoded m) wire"

section \<open>The deadline guard\<close>

record slo_abort_handler =
  will_abort :: bool
  guard_rpc :: grpc_method
  guard_budget :: masa_context
  last_child :: "grpc_method option"

definition guard_new :: "grpc_method \<Rightarrow> policy_value extensions \<Rightarrow> slo_abort_handler exec" where
  "guard_new method ext =
     map_exec (\<lambda>b. \<lparr>will_abort = False, guard_rpc = method, guard_budget = b, last_child = None\<rparr>) (budget_of ext)"

text \<open>\<open>spurious\<close>: the weak exchange may fail without reason and leave the flag as it is.\<close>

definition guard_check :: "u64 \<Rightarrow> bool \<Rightarrow> slo_abort_handler \<Rightarrow> bool \<times> slo_abort_handler" where
  "guard_check now spurious h =
     (let e2e = e2e_deadline (guard_budget h) in
      if e2e = 0 then (False, h)
      else if will_abort h then (True, h)
      else if ctx_deadline (guard_budget h) = 0 then (False, h)
      else let should = (e2e \<le> now) in
        (should, if should \<and> \<not> spurious then h\<lparr>will_abort := True\<rparr> else h))"

definition method_path :: "grpc_method \<Rightarrow> string" where
  "method_path m = gm_service m @ ''::'' @ gm_method m"

definition issue_error :: "slo_abort_handler \<Rightarrow> status" where
  "issue_error h = Status DeadlineExceeded (''/EarlyReturn?src='' @ method_path (guard_rpc h) @
     (case last_child h of None \<Rightarrow> '''' | Some child \<Rightarrow> ''?last_rpc='' @ method_path child))"

definition guard_before_poll :: "u64 \<Rightarrow> bool \<Rightarrow> slo_abort_handler \<Rightarrow> ((status + 'p) + unit) \<times> slo_abort_handler" where
  "guard_before_poll now spurious h =
     (case guard_check now spurious h of (abort, h') \<Rightarrow> (if abort then Inl (Inl (issue_error h')) else Inr (), h'))"

definition guard_before_child_rpc :: "u64 \<Rightarrow> bool \<Rightarrow> slo_abort_handler \<Rightarrow> (status + unit) \<times> slo_abort_handler" where
  "guard_before_child_rpc now spurious h =
     (case guard_check now spurious h of (abort, h') \<Rightarrow> (if abort then Inl (issue_error h') else Inr (), h'))"

definition guard_after_child_rpc :: "grpc_method \<Rightarrow> ('s, 'p) child_outcome \<Rightarrow> slo_abort_handler \<Rightarrow> slo_abort_handler" where
  "guard_after_child_rpc child outcome h = (if sent outcome \<noteq> None then h\<lparr>last_child := Some child\<rparr> else h)"

definition guard_after_poll ::
    "(status + 'p) poll \<Rightarrow> u64 \<Rightarrow> bool \<Rightarrow> slo_abort_handler \<Rightarrow> ((status + 'p) + unit) \<times> slo_abort_handler" where
  "guard_after_poll poll now spurious h =
     (case poll of
        PollPending \<Rightarrow> guard_before_poll now spurious h
      | PollReady _ \<Rightarrow> (Inr (), h))"

section \<open>The oracle\<close>

definition ORACLE_CHILD_WORK_US_HEADER :: string where
  "ORACLE_CHILD_WORK_US_HEADER = ''x-masa-oracle-child-work-us''"

definition ORACLE_REMAINING_AFTER_US_HEADER :: string where
  "ORACLE_REMAINING_AFTER_US_HEADER = ''x-masa-oracle-remaining-after-us''"

text \<open>\<open>str::parse::<u64>\<close>, with the texts of its errors.\<close>

fun parse_digits :: "nat \<Rightarrow> string \<Rightarrow> string + nat" where
  "parse_digits acc [] = Inr acc"
| "parse_digits acc (c # cs) =
     (if \<not> is_digit c then Inl ''invalid digit found in string''
      else if 2 ^ 64 \<le> 10 * acc + digit_value c then Inl ''number too large to fit in target type''
      else parse_digits (10 * acc + digit_value c) cs)"

definition parse_u64 :: "string \<Rightarrow> string + u64" where
  "parse_u64 s =
     (if s = '''' then Inl ''cannot parse integer from empty string''
      else if s = ''+'' then Inl ''invalid digit found in string''
      else map_sum id of_nat (parse_digits 0 (if hd s = CHR ''+'' then tl s else s)))"

definition quoted :: "string \<Rightarrow> string" where
  "quoted s = [CHR 0x27] @ s @ [CHR 0x27]"

definition read_u64_header :: "'m metadata_ops \<Rightarrow> (string \<Rightarrow> string + string) \<Rightarrow> 'm \<Rightarrow> string \<Rightarrow> grpc_method \<Rightarrow> status + u64" where
  "read_u64_header ops to_str metadata key child =
     (case md_get ops metadata key of
        None \<Rightarrow> Inl (Status Internal (''missing oracle header '' @ quoted key @ '' for '' @ method_path child))
      | Some value \<Rightarrow>
          (case to_str value of
             Inl e \<Rightarrow> Inl (Status Internal
               (''invalid oracle header '' @ quoted key @ '' for '' @ method_path child @ '': '' @ e))
           | Inr s \<Rightarrow>
               (case parse_u64 s of
                  Inl e \<Rightarrow> Inl (Status Internal
                    (''invalid oracle header '' @ quoted key @ '' value '' @ quoted s @ '' for '' @ method_path child @ '': '' @ e))
                | Inr v \<Rightarrow> Inr v)))"

record oracle_hint =
  child_work_us :: u64
  remaining_after_us :: u64

definition oracle_hint_from_request ::
    "'m metadata_ops \<Rightarrow> (string \<Rightarrow> string + string) \<Rightarrow> 'm \<Rightarrow> grpc_method \<Rightarrow> status + oracle_hint" where
  "oracle_hint_from_request ops to_str metadata child =
     (case read_u64_header ops to_str metadata ORACLE_CHILD_WORK_US_HEADER child of
        Inl e \<Rightarrow> Inl e
      | Inr work \<Rightarrow>
          (case read_u64_header ops to_str metadata ORACLE_REMAINING_AFTER_US_HEADER child of
             Inl e \<Rightarrow> Inl e
           | Inr remaining \<Rightarrow> Inr \<lparr>child_work_us = work, remaining_after_us = remaining\<rparr>))"

text \<open>A refused proposal becomes an internal status; \<open>budget\<close> is the module's \<open>BudgetInfo\<close>.\<close>

definition oracle_before_child_rpc ::
    "'m metadata_ops \<Rightarrow> (string \<Rightarrow> string + string) \<Rightarrow> masa_context \<Rightarrow> grpc_method \<Rightarrow> 'm \<Rightarrow> policy_value extensions \<Rightarrow>
      (status + unit) \<times> policy_value extensions" where
  "oracle_before_child_rpc ops to_str budget child_method metadata child =
     (case oracle_hint_from_request ops to_str metadata child_method of
        Inl e \<Rightarrow> (Inl e, child)
      | Inr hint \<Rightarrow>
          let completion_deadline = saturating_sub (e2e_deadline budget) (remaining_after_us hint);
              latest_start = saturating_sub completion_deadline (child_work_us hint) in
          (case propose CHILD_DEADLINE (ChildDeadline completion_deadline) child of
             (Inl refused, c1) \<Rightarrow> (Inl (Status Internal (decision_closed_display refused)), c1)
           | (Inr _, c1) \<Rightarrow>
               (case propose CHILD_PRIORITY (ChildPriority (PriorityHint latest_start)) c1 of
                  (Inl refused, c2) \<Rightarrow> (Inl (Status Internal (decision_closed_display refused)), c2)
                | (Inr _, c2) \<Rightarrow> (Inr (), c2))))"

section \<open>The queue-latency observer\<close>

record queue_latency_wire =
  qlw_initial :: u64
  qlw_resume :: u64
  qlw_queue_lengths :: "string \<rightharpoonup> u64"

record queue_latency_module =
  initial_q_lat :: u64
  resume_q_lat :: u64
  is_first_poll :: bool
  own_queue_len :: u64
  child_queue_lengths :: "string \<rightharpoonup> u64"

definition ql_new :: queue_latency_module where
  "ql_new = \<lparr>initial_q_lat = 0, resume_q_lat = 0, is_first_poll = True, own_queue_len = 0, child_queue_lengths = Map.empty\<rparr>"

text \<open>The latency of the task's last wait and the length of the thread's queue are read from the runtime.\<close>

definition ql_before_poll :: "u64 \<Rightarrow> u64 \<Rightarrow> queue_latency_module \<Rightarrow> queue_latency_module" where
  "ql_before_poll queue_latency q_len m =
     (if is_first_poll m then
        let m1 = m\<lparr>is_first_poll := False\<rparr>;
            m2 = (if queue_latency > 0 then m1\<lparr>initial_q_lat := initial_q_lat m1 + queue_latency\<rparr> else m1) in
        m2\<lparr>own_queue_len := q_len\<rparr>
      else if queue_latency > 0 then m\<lparr>resume_q_lat := resume_q_lat m + queue_latency\<rparr>
      else m)"

definition merge_max :: "(string \<rightharpoonup> u64) \<Rightarrow> (string \<rightharpoonup> u64) \<Rightarrow> string \<rightharpoonup> u64" where
  "merge_max m new = (\<lambda>svc. case new svc of
       None \<Rightarrow> m svc
     | Some len \<Rightarrow> Some (case m svc of Some e \<Rightarrow> max e len | None \<Rightarrow> len))"

definition ql_after_child_rpc :: "base64_engine \<Rightarrow> queue_latency_wire bincode \<Rightarrow> ('s, 'p) child_outcome \<Rightarrow> wire_in \<Rightarrow>
    queue_latency_module \<Rightarrow> queue_latency_module exec" where
  "ql_after_child_rpc b64 bin outcome response_wire m =
     (case sent outcome of
        Some (Inr _) \<Rightarrow>
          bind_exec (wi_get b64 bin ''queue_latency'' response_wire)
            (\<lambda>r. case r of
               Inl err \<Rightarrow> Panic
             | Inr None \<Rightarrow> Done m
             | Inr (Some ql) \<Rightarrow>
                 Done (m\<lparr>initial_q_lat := initial_q_lat m + qlw_initial ql,
                   resume_q_lat := resume_q_lat m + qlw_resume ql,
                   child_queue_lengths := merge_max (child_queue_lengths m) (qlw_queue_lengths ql)\<rparr>))
      | _ \<Rightarrow> Done m)"

definition ql_totals :: "string \<Rightarrow> queue_latency_module \<Rightarrow> queue_latency_wire" where
  "ql_totals service_name m = \<lparr>qlw_initial = initial_q_lat m, qlw_resume = resume_q_lat m,
     qlw_queue_lengths = (child_queue_lengths m)(service_name \<mapsto> own_queue_len m)\<rparr>"

definition ql_finalize :: "base64_engine \<Rightarrow> queue_latency_wire bincode \<Rightarrow> string \<Rightarrow> queue_latency_module \<Rightarrow> wire_out \<Rightarrow>
    (queue_latency_module \<times> wire_out) exec" where
  "ql_finalize b64 bin service_name m wire =
     bind_exec (wo_put b64 bin ''queue_latency'' (ql_totals service_name m) wire)
       (\<lambda>r. case r of Inl err \<Rightarrow> Panic | Inr w \<Rightarrow> Done (m\<lparr>child_queue_lengths := Map.empty\<rparr>, w))"

section \<open>Context in metadata\<close>

definition get_masa_context_from_metadata ::
    "base64_engine \<Rightarrow> context_compact bincode \<Rightarrow> 'm metadata_ops \<Rightarrow> 'm \<Rightarrow> masa_context option exec" where
  "get_masa_context_from_metadata b64 bin ops metadata =
     get_wire_from_metadata b64 (context_bincode bin) BUDGET_SECTION ops metadata"

definition set_masa_context_in_metadata ::
    "base64_engine \<Rightarrow> context_compact bincode \<Rightarrow> 'm metadata_ops \<Rightarrow> 'm \<Rightarrow> masa_context \<Rightarrow> 'm exec" where
  "set_masa_context_in_metadata b64 bin ops metadata ctx =
     set_wire_in_metadata b64 (context_bincode bin) BUDGET_SECTION ops metadata ctx"

definition header_string_with_wire ::
    "base64_engine \<Rightarrow> context_compact bincode \<Rightarrow> 'w bincode \<Rightarrow> string \<Rightarrow> masa_context \<Rightarrow> 'w \<Rightarrow> string exec" where
  "header_string_with_wire b64 bin bin_m NAME ctx data =
     bind_exec (wo_put b64 (context_bincode bin) BUDGET_SECTION ctx wo_new) (\<lambda>r. case r of
         Inl err \<Rightarrow> Panic
       | Inr out \<Rightarrow>
           bind_exec (wo_put b64 bin_m NAME data out) (\<lambda>r. case r of
               Inl err \<Rightarrow> Panic
             | Inr out' \<Rightarrow> wo_header_value out'))"

section \<open>The stack the features select\<close>

record masa_features =
  abort_slo :: bool
  estimator :: bool
  sched_oracle :: bool
  ac_pred :: bool
  ac_rajomon :: bool
  trace_queue_latency :: bool

text \<open>What each module declares: its type, section name, whether it has wire data, and requirements.\<close>

definition declares :: "string \<Rightarrow> string \<Rightarrow> bool \<Rightarrow> string list \<Rightarrow> module_decl" where
  "declares ty name wire reqs = \<lparr>decl_id = TypeId ty, decl_type_name = ty, decl_name = name, decl_has_wire = wire,
     decl_is_empty = False, decl_requires = foldl (\<lambda>r t. requires_module (TypeId t) t r) \<lparr>req_modules = []\<rparr> reqs\<rparr>"

definition decl_unit :: module_decl where
  "decl_unit = \<lparr>decl_id = UNIT, decl_type_name = ''()'', decl_name = '''', decl_has_wire = False, decl_is_empty = True,
     decl_requires = \<lparr>req_modules = []\<rparr>\<rparr>"

definition decl_budget :: module_decl where
  "decl_budget = declares ''BudgetModule'' BUDGET_SECTION True []"

definition decl_guard :: module_decl where
  "decl_guard = declares ''E2eDeadlineGuardModule'' ''e2e_deadline_guard'' False [''BudgetModule'']"

definition decl_estimation :: module_decl where
  "decl_estimation = declares ''EstimationModule'' ''estimation'' True [''BudgetModule'']"

definition decl_oracle :: module_decl where
  "decl_oracle = declares ''OracleModule'' ''oracle'' False [''BudgetModule'']"

definition decl_pred_admission :: module_decl where
  "decl_pred_admission = declares ''PredAdmissionModule'' ''pred_admission'' False [''BudgetModule'', ''EstimationModule'']"

definition decl_rajomon :: module_decl where
  "decl_rajomon = declares ''RajomonModule'' ''rajomon'' True []"

definition decl_queue_latency :: module_decl where
  "decl_queue_latency = declares ''QueueLatencyModule'' ''queue_latency'' True []"

definition masa_stack :: "masa_features \<Rightarrow> module_decl list" where
  "masa_stack f = [
     decl_budget,
     (if abort_slo f then decl_guard else decl_unit),
     (if estimator f then decl_estimation else decl_unit),
     (if sched_oracle f then decl_oracle else decl_unit),
     (if ac_pred f then decl_pred_admission else if ac_rajomon f then decl_rajomon else decl_unit),
     (if trace_queue_latency f then decl_queue_latency else decl_unit)]"

section \<open>Sealing a child's budget\<close>

lemma BUDGET_SECTION_valid: "valid_name BUDGET_SECTION"
  by (simp add: BUDGET_SECTION_def valid_name_def is_ascii_alphanumeric_def)

lemma decision_ids [simp]: "CHILD_DEADLINE \<noteq> CHILD_PRIORITY" "CHILD_PRIORITY \<noteq> CHILD_DEADLINE"
  by (simp_all add: CHILD_DEADLINE_def CHILD_PRIORITY_def)

lemma budget_newE:
  assumes "budget_new b64 bin wire ext = Done (m, ext')"
  obtains payload where "find_section (wi_sections wire) BUDGET_SECTION = Some payload"
    "decode_payload b64 (context_bincode bin) payload = Done (Inr (bm_info m))" "bm_encoded m = EncodedSection payload"
    "ext' = snd (ext_insert BUDGET_INFO (Value (BudgetInfo (bm_info m))) ext)"
proof -
  obtain payload where p: "find_section (wi_sections wire) BUDGET_SECTION = Some payload"
    using assms by (auto simp: budget_new_def wi_get_with_encoded_def split: option.splits)
  then obtain r where "decode_payload b64 (context_bincode bin) payload = Done r"
    using assms by (cases "decode_payload b64 (context_bincode bin) payload") (auto simp: budget_new_def wi_get_with_encoded_def)
  with p assms show ?thesis
    by (cases r) (auto simp: budget_new_def wi_get_with_encoded_def intro: that)
qed

lemma budget_newI:
  assumes "find_section (wi_sections wire) BUDGET_SECTION = Some payload"
    "decode_payload b64 (context_bincode bin) payload = Done (Inr ctx)"
  shows "budget_new b64 bin wire ext =
    Done (\<lparr>bm_info = ctx, bm_encoded = EncodedSection payload\<rparr>, snd (ext_insert BUDGET_INFO (Value (BudgetInfo ctx)) ext))"
  using assms by (simp add: budget_new_def wi_get_with_encoded_def)

lemma decode_written_context:
  assumes "standard_engine b64" "compact_format bin" "rust_string (ctx_api ctx)"
  shows "bin_serialize (context_bincode bin) ctx = Inr (compact_bytes (compact_of_context ctx))"
    "decode_payload b64 (context_bincode bin) (rfc4648_encode (compact_bytes (compact_of_context ctx))) = Done (Inr ctx)"
proof -
  let ?c = "compact_of_context ctx"
  have f: "bin_serialize bin ?c = Inr (compact_bytes ?c)" "bin_deserialize bin (compact_bytes ?c) = Inr ?c"
    using assms(2,3) is_compact_bytes by (auto simp: compact_format_def compact_of_context_def)
  then show "bin_serialize (context_bincode bin) ctx = Inr (compact_bytes ?c)" by (simp add: context_bincode_def)
  have "b64_decode b64 (rfc4648_encode (compact_bytes ?c)) = Inr (compact_bytes ?c)"
    using assms(1) by (simp add: standard_engine_def)
  then show "decode_payload b64 (context_bincode bin) (rfc4648_encode (compact_bytes ?c)) = Done (Inr ctx)"
    using assms(1) f(2) by (simp add: decode_payload_general deserialize_def context_bincode_def)
qed

lemma bincode_buffer_context: "bincode_buffer bin \<Longrightarrow> bincode_buffer (context_bincode bin)"
  by (simp add: bincode_buffer_def context_bincode_def)

text \<open>The section \<open>seal_child_rpc\<close> writes decodes to the child's context, however it was written.\<close>

lemma seal_writes:
  assumes env: "standard_engine b64" "compact_format bin" "bincode_buffer bin" "rust_string (ctx_api (bm_info m))"
    and m: "budget_new b64 bin wire ext = Done (m, ext')"
    and ctx: "ctx = (bm_info m)\<lparr>ctx_deadline := last_or (ctx_deadline (bm_info m)) deadline_value dps,
      ctx_prio_hint := last_or (ctx_prio_hint (bm_info m)) priority_value pps\<rparr>"
    and r: "resolve CHILD_DEADLINE e = (dps, e1)" "resolve CHILD_PRIORITY e1 = (pps, e2)"
  shows "\<exists>payload. budget_seal_child_rpc b64 bin m (ChildState e) out = Done (ChildState e2, wo_set out BUDGET_SECTION payload) \<and>
    payload_ok payload \<and> decode_payload b64 (context_bincode bin) payload = Done (Inr ctx)"
proof (cases "ctx_deadline ctx = ctx_deadline (bm_info m) \<and> ctx_prio_hint ctx = ctx_prio_hint (bm_info m)")
  case True
  obtain payload where p: "decode_payload b64 (context_bincode bin) payload = Done (Inr (bm_info m))"
    "bm_encoded m = EncodedSection payload"
    using budget_newE [OF m] by metis
  from p(1) have "b64_decode b64 payload \<noteq> Inl err" for err
    using env(1) by (auto simp: decode_payload_general)
  then obtain bytes where "b64_decode b64 payload = Inr bytes" by (metis sum.exhaust)
  then have "payload_ok payload" using env(1) rfc4648_payload_ok by (auto simp: standard_engine_def)
  moreover have "ctx = bm_info m" using True ctx by simp
  moreover have "last_or (ctx_deadline (bm_info m)) deadline_value dps = ctx_deadline (bm_info m)"
    "last_or (ctx_prio_hint (bm_info m)) priority_value pps = ctx_prio_hint (bm_info m)"
    using True unfolding ctx by simp_all
  ultimately show ?thesis using r p
    by (intro exI [of _ payload]) (simp add: budget_seal_child_rpc_def wo_put_encoded_def)
next
  case False
  let ?payload = "rfc4648_encode (compact_bytes (compact_of_context ctx))"
  have api: "rust_string (ctx_api ctx)" using env(4) ctx by simp
  note w = decode_written_context [OF env(1,2) api]
  have new: "ctx = context_new (ctx_api (bm_info m)) (ctx_request_id (bm_info m)) (ctx_slo (bm_info m))
      (ctx_gateway_entry (bm_info m)) (ctx_deadline ctx) (ctx_prio_hint ctx)"
    by (simp add: ctx context_new_def)
  have "budget_seal_child_rpc b64 bin m (ChildState e) out =
      bind_exec (wo_put b64 (context_bincode bin) BUDGET_SECTION ctx out)
        (\<lambda>r. case r of Inl err \<Rightarrow> Panic | Inr w \<Rightarrow> Done (ChildState e2, w))"
    using False r by (subst new) (auto simp: budget_seal_child_rpc_def ctx Let_def)
  then show ?thesis using w(2) rfc4648_payload_ok wo_put_Done [OF env(1) bincode_buffer_context [OF env(3)] w(1)]
    by (intro exI [of _ ?payload]) simp
qed

text \<open>
  The rule for a child's budget: the parent's facts with the last proposed deadline and the last
  proposed priority, each the parent's own when nobody proposed one.
\<close>

definition child_budget :: "masa_context \<Rightarrow> policy_value extensions \<Rightarrow> masa_context" where
  "child_budget info e = info\<lparr>
     ctx_deadline := last_or (ctx_deadline info) deadline_value (proposals CHILD_DEADLINE e),
     ctx_prio_hint := last_or (ctx_prio_hint info) priority_value (proposals CHILD_PRIORITY e)\<rparr>"

text \<open>
  Claim C37. Whatever the modules of a stack proposed for a child RPC, sealing never panics and
  the child's own budget module reads, and publishes to the child's modules, the parent's facts
  with the last proposed deadline and the last proposed priority; the other sections are
  untouched, and a proposal made after sealing is refused.
\<close>

theorem child_budget_sealed:
  assumes "standard_engine b64" "compact_format bin" "bincode_buffer bin" "rust_string (ctx_api (bm_info m))"
    and "budget_new b64 bin wire ext = Done (m, ext')" "decisions_ok e"
  shows "\<exists>e' out'. budget_seal_child_rpc b64 bin m (ChildState e) out = Done (ChildState e', out') \<and>
    (\<forall>cext. ext_inv cext \<longrightarrow> (\<exists>m' cext'. budget_new b64 bin \<lparr>wi_sections = wo_header out'\<rparr> cext = Done (m', cext') \<and>
       bm_info m' = child_budget (bm_info m) e \<and> budget_of cext' = Done (child_budget (bm_info m) e))) \<and>
    (\<forall>n. valid_name n \<longrightarrow> n \<noteq> BUDGET_SECTION \<longrightarrow> find_section (wo_header out') n = find_section (wo_header out) n) \<and>
    (\<forall>v. fst (propose CHILD_DEADLINE v e') \<noteq> Inr () \<and> fst (propose CHILD_PRIORITY v e') \<noteq> Inr ())"
proof -
  obtain dps e1 where r1: "resolve CHILD_DEADLINE e = (dps, e1)" by fastforce
  obtain pps e2 where r2: "resolve CHILD_PRIORITY e1 = (pps, e2)" by fastforce
  have e1: "dps = proposals CHILD_DEADLINE e" "decisions_ok e1" "ext_decision CHILD_PRIORITY e1 = ext_decision CHILD_PRIORITY e"
    "\<exists>d. ext_decision CHILD_DEADLINE e1 = Some d \<and> resolved_by d \<noteq> None"
    using resolve_spec [OF assms(6), of CHILD_DEADLINE] resolve_spec(4) [OF assms(6), of CHILD_PRIORITY CHILD_DEADLINE] r1 by auto
  have e2: "pps = proposals CHILD_PRIORITY e" "\<exists>d. ext_decision CHILD_PRIORITY e2 = Some d \<and> resolved_by d \<noteq> None"
    "ext_decision CHILD_DEADLINE e2 = ext_decision CHILD_DEADLINE e1"
    using resolve_spec [OF e1(2), of CHILD_PRIORITY] resolve_spec(4) [OF e1(2), of CHILD_DEADLINE CHILD_PRIORITY] r2 e1(3)
    by (auto simp: proposals_def)
  let ?c = "child_budget (bm_info m) e"
  obtain payload where p: "budget_seal_child_rpc b64 bin m (ChildState e) out = Done (ChildState e2, wo_set out BUDGET_SECTION payload)"
    "payload_ok payload" "decode_payload b64 (context_bincode bin) payload = Done (Inr ?c)"
    using seal_writes [OF assms(1-5) refl r1 r2, of out] unfolding e1(1) e2(1) child_budget_def by blast
  let ?out = "wo_set out BUDGET_SECTION payload"
  note lookup = wo.lookup_set [OF valid_name_plain [OF BUDGET_SECTION_valid] valid_name_plain p(2), of _ out]
  have "budget_new b64 bin \<lparr>wi_sections = wo_header ?out\<rparr> cext =
      Done (\<lparr>bm_info = ?c, bm_encoded = EncodedSection payload\<rparr>, snd (ext_insert BUDGET_INFO (Value (BudgetInfo ?c)) cext))" for cext
    using p(3) lookup [OF BUDGET_SECTION_valid] by (intro budget_newI) simp_all
  moreover have "budget_of (snd (ext_insert BUDGET_INFO (Value (BudgetInfo ?c)) cext)) = Done ?c" if "ext_inv cext" for cext
    using that by (simp add: budget_of_def ext_insert_spec)
  moreover have "fst (propose CHILD_DEADLINE v e2) \<noteq> Inr () \<and> fst (propose CHILD_PRIORITY v e2) \<noteq> Inr ()" for v
    using e1(4) e2(2,3) by (auto simp: propose_closed)
  moreover have "find_section (wo_header ?out) n = find_section (wo_header out) n" if "valid_name n" "n \<noteq> BUDGET_SECTION" for n
    using lookup [OF that(1)] that(2) by simp
  ultimately show ?thesis unfolding p(1) by (intro exI [of _ e2] exI [of _ ?out]) simp
qed

definition ex_wire :: wire_in where
  "ex_wire = \<lparr>wi_sections = ''budget:'' @ rfc4648_encode (compact_bytes (compact_of_context ex_context))\<rparr>"

lemma ex_budget_new:
  "\<exists>m ext'. budget_new ex_engine ex_compact ex_wire ext_new = Done (m, ext') \<and> bm_info m = ex_context"
proof -
  let ?p = "rfc4648_encode (compact_bytes (compact_of_context ex_context))"
  have "sections (wi_sections ex_wire) = [(BUDGET_SECTION, ?p)]"
    using sections_push [OF valid_name_plain [OF BUDGET_SECTION_valid], of ?p "[]"] rfc4648_payload_ok
    by (simp add: push_section_def payload_ok_def sections_def ex_wire_def BUDGET_SECTION_def NAME_SEPARATOR_def)
  then have "find_section (wi_sections ex_wire) BUDGET_SECTION = Some ?p"
    by (simp add: find_section_map_of [OF valid_name_plain [OF BUDGET_SECTION_valid]])
  from budget_newI [OF this decode_written_context(2) [OF ex_engine_standard ex_compact_format(1) ex_context_api]]
  show ?thesis by simp
qed

lemma decisions_ok_new: "decisions_ok ext_new"
  by (simp add: decisions_ok_def ext_inv_new ext_get_eq) (simp add: ext_new_def)

theorem child_budget_sealed_witness:
  "\<exists>m e e' out'. fst (propose CHILD_DEADLINE (ChildDeadline 5) ext_new) = Inr () \<and>
     e = snd (propose CHILD_DEADLINE (ChildDeadline 5) ext_new) \<and>
     budget_seal_child_rpc ex_engine ex_compact m (ChildState e) wo_new = Done (ChildState e', out') \<and>
     (\<exists>m' cext'. budget_new ex_engine ex_compact \<lparr>wi_sections = wo_header out'\<rparr> ext_new = Done (m', cext') \<and>
        ctx_deadline (bm_info m') = 5 \<and> ctx_prio_hint (bm_info m') = PriorityHint 301000)"
proof -
  obtain m ext' where m: "budget_new ex_engine ex_compact ex_wire ext_new = Done (m, ext')" "bm_info m = ex_context"
    using ex_budget_new by blast
  have none: "ext_decision CHILD_DEADLINE (ext_new :: policy_value extensions) = None"
    "ext_decision CHILD_PRIORITY (ext_new :: policy_value extensions) = None"
    by (simp_all add: ext_decision_def ext_get_def ext_position_def ext_new_def)
  define e where "e = snd (propose CHILD_DEADLINE (ChildDeadline 5) ext_new)"
  have m0: "ext_module (ext_new :: policy_value extensions) = ''''" by (simp add: ext_new_def)
  have "case ext_decision CHILD_DEADLINE (ext_new :: policy_value extensions) of None \<Rightarrow> True | Some d \<Rightarrow> resolved_by d = None"
    using none(1) by simp
  note po = propose_open [OF decisions_ok_new this, where v = "ChildDeadline 5"] m0
  have e: "fst (propose CHILD_DEADLINE (ChildDeadline 5) ext_new) = Inr ()" "decisions_ok e"
    "proposals CHILD_DEADLINE e = [\<lparr>proposal_by = '''', proposal_value = ChildDeadline 5\<rparr>]" "proposals CHILD_PRIORITY e = []"
    unfolding e_def using po none by (simp_all add: proposals_def)
  have "rust_string (ctx_api (bm_info m))" using m(2) ex_context_api by simp
  from child_budget_sealed [OF ex_engine_standard ex_compact_format this m(1) e(2), of wo_new]
  obtain e' out' where s: "budget_seal_child_rpc ex_engine ex_compact m (ChildState e) wo_new = Done (ChildState e', out')"
    "\<exists>m' cext'. budget_new ex_engine ex_compact \<lparr>wi_sections = wo_header out'\<rparr> ext_new = Done (m', cext') \<and>
       bm_info m' = child_budget (bm_info m) e"
    using ext_inv_new by blast
  have "ctx_deadline (child_budget (bm_info m) e) = 5" "ctx_prio_hint (child_budget (bm_info m) e) = PriorityHint 301000"
    by (simp_all add: child_budget_def last_or_def e(3,4) m(2) ex_context_def context_new_def)
  with s e(1) e_def show ?thesis by metis
qed

section \<open>The deadline guard over a request\<close>

text \<open>The checks that a request's hooks make, each with the clock and whether the exchange fails.\<close>

fun guard_checks :: "slo_abort_handler \<Rightarrow> (u64 \<times> bool) list \<Rightarrow> bool list" where
  "guard_checks h [] = []"
| "guard_checks h ((now, spurious) # cs) =
     (case guard_check now spurious h of (abort, h') \<Rightarrow> abort # guard_checks h' cs)"

text \<open>When the guard has to end a request: it has a budget and its end-to-end deadline is reached.\<close>

definition past_slo :: "masa_context \<Rightarrow> u64 \<Rightarrow> bool" where
  "past_slo ctx now \<longleftrightarrow> e2e_deadline ctx \<noteq> 0 \<and> ctx_deadline ctx \<noteq> 0 \<and> e2e_deadline ctx \<le> now"

lemma guard_check_step:
  assumes "guard_check now spurious h = (abort, h')"
  shows "guard_budget h' = guard_budget h" "guard_rpc h' = guard_rpc h" "last_child h' = last_child h"
    "past_slo (guard_budget h) now \<Longrightarrow> abort" "abort \<Longrightarrow> will_abort h \<or> past_slo (guard_budget h) now"
    "will_abort h' \<Longrightarrow> will_abort h \<or> past_slo (guard_budget h) now"
  using assms by (auto simp: guard_check_def past_slo_def Let_def split: if_splits)

lemma guard_checks_nth:
  "i < length cs \<Longrightarrow> (past_slo (guard_budget h) (fst (cs ! i)) \<longrightarrow> guard_checks h cs ! i) \<and>
    (guard_checks h cs ! i \<longrightarrow> will_abort h \<or> (\<exists>j\<le>i. past_slo (guard_budget h) (fst (cs ! j))))"
proof (induction cs arbitrary: h i)
  case (Cons c cs)
  obtain now spurious where c: "c = (now, spurious)" by fastforce
  obtain abort h' where g: "guard_check now spurious h = (abort, h')" by fastforce
  note step = guard_check_step [OF g]
  show ?case
  proof (cases i)
    case 0
    then show ?thesis using step by (auto simp: c g)
  next
    case (Suc k)
    with Cons.IH [of k h'] Cons.prems step show ?thesis
      by (simp add: c g) (metis Suc_le_mono fst_conv le0 nth_Cons_0 nth_Cons_Suc)
  qed
qed simp

text \<open>
  A request with a budget is ended at every check made at or after its end-to-end
  deadline, and only if that deadline had been reached at this check or an earlier one of the
  request, whichever of the exchanges on the abort flag fail: a tightened hop deadline never ends
  a request early, and a request without a budget is never ended.
\<close>

theorem guard_ends_past_slo:
  assumes "guard_new method ext = Done h" "i < length cs"
  shows "(past_slo (guard_budget h) (fst (cs ! i)) \<longrightarrow> guard_checks h cs ! i) \<and>
    (guard_checks h cs ! i \<longrightarrow> (\<exists>j\<le>i. past_slo (guard_budget h) (fst (cs ! j))))"
proof -
  have "\<not> will_abort h" using assms(1) by (auto simp: guard_new_def map_exec_Done)
  with guard_checks_nth [OF assms(2), of h] show ?thesis by simp
qed

theorem guard_ends_past_slo_witness:
  "\<exists>h. guard_new ex_method (snd (ext_insert BUDGET_INFO (Value (BudgetInfo ex_context)) ext_new)) = Done h \<and>
    \<not> guard_checks h [(300999, False), (301000, True)] ! 0 \<and> guard_checks h [(300999, False), (301000, True)] ! 1"
proof -
  let ?h = "\<lparr>will_abort = False, guard_rpc = ex_method, guard_budget = ex_context, last_child = None\<rparr>"
  have n: "guard_new ex_method (snd (ext_insert BUDGET_INFO (Value (BudgetInfo ex_context)) ext_new)) = Done ?h"
    by (simp add: guard_new_def budget_of_def ext_insert_spec ext_inv_new)
  have "past_slo ex_context 301000" "\<not> past_slo ex_context 300999"
    by (simp_all add: past_slo_def ex_context_def context_new_def e2e_deadline_def)
  then show ?thesis using n guard_ends_past_slo [OF n, of 0 "[(300999, False), (301000, True)]"]
      guard_ends_past_slo [OF n, of 1 "[(300999, False), (301000, True)]"] by (intro exI [of _ ?h]) auto
qed

section \<open>Queue latencies over a request\<close>

text \<open>What the observer sees of a request: a poll, with the wait before it, or the end of a child.\<close>

datatype ('s, 'p) ql_event = QlPoll u64 u64 | QlChild "('s, 'p) child_outcome" wire_in

fun ql_run :: "base64_engine \<Rightarrow> queue_latency_wire bincode \<Rightarrow> ('s, 'p) ql_event list \<Rightarrow> queue_latency_module \<Rightarrow>
    queue_latency_module exec" where
  "ql_run b64 bin [] m = Done m"
| "ql_run b64 bin (QlPoll lat len # es) m = ql_run b64 bin es (ql_before_poll lat len m)"
| "ql_run b64 bin (QlChild outcome wire # es) m =
     bind_exec (ql_after_child_rpc b64 bin outcome wire m) (ql_run b64 bin es)"

fun ql_polls :: "('s, 'p) ql_event list \<Rightarrow> (u64 \<times> u64) list" where
  "ql_polls [] = []"
| "ql_polls (QlPoll lat len # es) = (lat, len) # ql_polls es"
| "ql_polls (QlChild _ _ # es) = ql_polls es"

text \<open>The sections of the children that succeeded.\<close>

fun ql_children :: "base64_engine \<Rightarrow> queue_latency_wire bincode \<Rightarrow> ('s, 'p) ql_event list \<Rightarrow> queue_latency_wire list" where
  "ql_children b64 bin [] = []"
| "ql_children b64 bin (QlPoll lat len # es) = ql_children b64 bin es"
| "ql_children b64 bin (QlChild outcome wire # es) =
     (case (outcome, wi_get b64 bin ''queue_latency'' wire) of
        (Sent (Inr _), Done (Inr (Some ql))) \<Rightarrow> ql # ql_children b64 bin es
      | _ \<Rightarrow> ql_children b64 bin es)"

definition reported :: "string \<Rightarrow> queue_latency_wire list \<Rightarrow> u64 set" where
  "reported svc qls = {len. \<exists>ql\<in>set qls. qlw_queue_lengths ql svc = Some len}"

lemma merge_max_reported:
  assumes "\<And>svc. m svc = (if reported svc qls = {} then None else Some (Max (reported svc qls)))"
  shows "merge_max m (qlw_queue_lengths ql) svc =
    (if reported svc (qls @ [ql]) = {} then None else Some (Max (reported svc (qls @ [ql]))))"
proof -
  have fin: "finite (reported svc qls)"
  proof -
    have "reported svc qls \<subseteq> (\<lambda>ql. the (qlw_queue_lengths ql svc)) ` set qls" by (force simp: reported_def)
    then show ?thesis using finite_surj by blast
  qed
  have "reported svc (qls @ [ql]) = (case qlw_queue_lengths ql svc of None \<Rightarrow> reported svc qls | Some len \<Rightarrow> insert len (reported svc qls))"
    by (auto simp: reported_def split: option.split)
  then show ?thesis using fin by (auto simp: merge_max_def assms max.commute split: option.split)
qed

text \<open>The state of the observer after a request's polls and its children's sections.\<close>

definition ql_state :: "(u64 \<times> u64) list \<Rightarrow> queue_latency_wire list \<Rightarrow> queue_latency_module \<Rightarrow> bool" where
  "ql_state polls qls m \<longleftrightarrow>
     is_first_poll m = (polls = []) \<and> own_queue_len m = (if polls = [] then 0 else snd (hd polls)) \<and>
     initial_q_lat m = (if polls = [] then 0 else fst (hd polls)) + sum_list (map qlw_initial qls) \<and>
     resume_q_lat m = sum_list (map fst (tl polls)) + sum_list (map qlw_resume qls) \<and>
     (\<forall>svc. child_queue_lengths m svc = (if reported svc qls = {} then None else Some (Max (reported svc qls))))"

lemma ql_state_poll: "ql_state polls qls m \<Longrightarrow> ql_state (polls @ [(lat, len)]) qls (ql_before_poll lat len m)"
  by (cases polls) (auto simp: ql_state_def ql_before_poll_def Let_def word_gt_0 ac_simps)

lemma ql_state_child:
  "ql_state polls qls m \<Longrightarrow> ql_state polls (qls @ [ql]) (m\<lparr>initial_q_lat := initial_q_lat m + qlw_initial ql,
     resume_q_lat := resume_q_lat m + qlw_resume ql,
     child_queue_lengths := merge_max (child_queue_lengths m) (qlw_queue_lengths ql)\<rparr>)"
  using merge_max_reported [of "child_queue_lengths m" qls ql] by (auto simp: ql_state_def ac_simps)

lemma ql_after_child_cases:
  assumes "ql_after_child_rpc b64 bin outcome wire m = Done m1"
  obtains ql r where "outcome = Sent (Inr r)" "wi_get b64 bin ''queue_latency'' wire = Done (Inr (Some ql))"
      "m1 = m\<lparr>initial_q_lat := initial_q_lat m + qlw_initial ql, resume_q_lat := resume_q_lat m + qlw_resume ql,
        child_queue_lengths := merge_max (child_queue_lengths m) (qlw_queue_lengths ql)\<rparr>"
    | "m1 = m" "\<And>es. ql_children b64 bin (QlChild outcome wire # es) = ql_children b64 bin es"
proof (cases "\<exists>r. outcome = Sent (Inr r)")
  case True
  then obtain r where r: "outcome = Sent (Inr r)" by blast
  then obtain x where x: "wi_get b64 bin ''queue_latency'' wire = Done x"
    using assms by (auto simp: ql_after_child_rpc_def bind_exec_Done)
  then obtain y where "x = Inr y" using assms r by (cases x) (auto simp: ql_after_child_rpc_def)
  then show ?thesis using that assms r x by (cases y) (auto simp: ql_after_child_rpc_def)
next
  case False
  then have "m1 = m" "ql_children b64 bin (QlChild outcome wire # es) = ql_children b64 bin es" for es
    using assms by (cases outcome; auto simp: ql_after_child_rpc_def split: sum.splits)+
  then show ?thesis using that(2) by blast
qed

lemma ql_run_state:
  "ql_run b64 bin es m = Done m' \<Longrightarrow> ql_state polls qls m \<Longrightarrow> ql_state (polls @ ql_polls es) (qls @ ql_children b64 bin es) m'"
proof (induction es arbitrary: m polls qls)
  case (Cons e es)
  show ?case
  proof (cases e)
    case (QlPoll lat len)
    with Cons.IH [OF _ ql_state_poll [OF Cons.prems(2), of lat len]] Cons.prems(1) show ?thesis by simp
  next
    case (QlChild outcome wire)
    obtain m1 where m1: "ql_after_child_rpc b64 bin outcome wire m = Done m1" "ql_run b64 bin es m1 = Done m'"
      using Cons.prems(1) QlChild by (auto simp: bind_exec_Done)
    from m1(1) show ?thesis
    proof (cases rule: ql_after_child_cases)
      case (1 ql r)
      from Cons.IH [OF m1(2), of polls "qls @ [ql]"] ql_state_child [OF Cons.prems(2), of ql] 1 QlChild show ?thesis by simp
    next
      case 2
      with Cons.IH [OF m1(2), of polls qls] Cons.prems(2) QlChild show ?thesis by simp
    qed
  qed
qed simp

text \<open>
  What the observer reports for a request: the wait before its first poll plus the
  initial waits of the children that succeeded; the waits before its later polls plus theirs (both
  modulo the width of the counters); and for each other service the longest queue a child
  reported, with the length at the first poll as its own.
\<close>

theorem queue_latency_totals:
  assumes "ql_run b64 bin es ql_new = Done m" "ql_polls es = (lat, len) # polls"
  shows "qlw_initial (ql_totals me m) = lat + sum_list (map qlw_initial (ql_children b64 bin es)) \<and>
    qlw_resume (ql_totals me m) = sum_list (map fst polls) + sum_list (map qlw_resume (ql_children b64 bin es)) \<and>
    qlw_queue_lengths (ql_totals me m) = (\<lambda>svc. if svc = me then Some len
      else if reported svc (ql_children b64 bin es) = {} then None else Some (Max (reported svc (ql_children b64 bin es))))"
proof -
  have "ql_state [] [] ql_new" by (simp add: ql_state_def ql_new_def reported_def)
  from ql_run_state [OF assms(1) this] assms(2) show ?thesis
    by (auto simp: ql_state_def ql_totals_def)
qed

definition ex_ql_bincode :: "queue_latency_wire bincode" where
  "ex_ql_bincode = \<lparr>
     bin_serialize = (\<lambda>w. Inr [ucast (qlw_initial w), ucast (qlw_resume w)]),
     bin_serialize_into = (\<lambda>w n. if 2 \<le> n then Some [ucast (qlw_initial w), ucast (qlw_resume w)] else None),
     bin_deserialize = (\<lambda>bytes. case bytes of
        [a, b] \<Rightarrow> Inr \<lparr>qlw_initial = ucast a, qlw_resume = ucast b, qlw_queue_lengths = [''b'' \<mapsto> 7]\<rparr>
      | _ \<Rightarrow> Inl ''length'')\<rparr>"

theorem queue_latency_totals_witness:
  "\<exists>m. ql_run ex_engine ex_ql_bincode
       [QlPoll 3 9, QlChild (Sent (Inr ())) \<lparr>wi_sections = ''queue_latency:BQY=''\<rparr>, QlChild (Sent (Inl ''busy'')) wi_default, QlPoll 4 2]
       ql_new = Done m \<and>
     qlw_initial (ql_totals ''a'' m) = 8 \<and> qlw_resume (ql_totals ''a'' m) = 10 \<and>
     qlw_queue_lengths (ql_totals ''a'' m) ''b'' = Some 7"
proof -
  let ?w = "\<lparr>wi_sections = ''queue_latency:BQY=''\<rparr>"
  let ?es = "[QlPoll 3 9, QlChild (Sent (Inr ())) ?w, QlChild (Sent (Inl ''busy'')) wi_default, QlPoll 4 2]"
  let ?ql = "\<lparr>qlw_initial = 5, qlw_resume = 6, qlw_queue_lengths = [''b'' \<mapsto> 7]\<rparr>"
  have "find_section ''queue_latency:BQY='' ''queue_latency'' = Some ''BQY=''" "rfc4648_encode [5, 6] = ''BQY=''" by code_simp+
  moreover from this(2) have "b64_decode ex_engine ''BQY='' = Inr [5, 6]"
    using ex_engine_standard by (simp add: standard_engine_def)
  ultimately have get: "wi_get ex_engine ex_ql_bincode ''queue_latency'' ?w = Done (Inr (Some ?ql))"
    by (simp add: wi_get_def decode_present_def decode_payload_general ex_engine_standard deserialize_def ex_ql_bincode_def)
  then obtain m where m: "ql_run ex_engine ex_ql_bincode ?es ql_new = Done m"
    by (simp add: ql_after_child_rpc_def)
  have "ql_children ex_engine ex_ql_bincode ?es = [?ql]" using get by simp
  with queue_latency_totals [OF m, of 3 9 "[(4, 2)]" "''a''"] m show ?thesis
    by (intro exI [of _ m]) (simp add: reported_def)
qed

section \<open>The selected stack\<close>

text \<open>
  Claim C38. The stack that Masa's features select is well formed, whatever they are: its names
  never clash and are valid sections, and it validates, except that predictive admission without
  the estimator is reported as a missing module (the crate's feature of predictive admission
  enables the estimator).
\<close>

theorem masa_stack_valid:
  assumes "map module_decl_of S = masa_stack f"
  shows "validate_stack S = Done (if ac_pred f \<and> \<not> estimator f
    then Inl \<lparr>md_resource = ''EstimationModule'', md_module = ''PredAdmissionModule'', md_missing = ModuleAbsent\<rparr> else Inr ())"
proof -
  have "bind_exec (validate_names [] (masa_stack f)) (\<lambda>_. Done (validate_requires [] (masa_stack f))) = Done (if ac_pred f \<and> \<not> estimator f
    then Inl \<lparr>md_resource = ''EstimationModule'', md_module = ''PredAdmissionModule'', md_missing = ModuleAbsent\<rparr> else Inr ())"
    by (cases "abort_slo f"; cases "estimator f"; cases "sched_oracle f"; cases "ac_pred f"; cases "ac_rajomon f";
        cases "trace_queue_latency f")
      (simp_all add: masa_stack_def decl_budget_def decl_guard_def decl_estimation_def decl_oracle_def decl_pred_admission_def
        decl_rajomon_def decl_queue_latency_def decl_unit_def declares_def BUDGET_SECTION_def assert_valid_name_def valid_name_def
        is_ascii_alphanumeric_def requires_module_def UNIT_def)
  then show ?thesis using assms by (simp add: validate_stack_def stack_describe_eq)
qed

definition ex_of_decl :: "module_decl \<Rightarrow> (unit, unit, unit, string, unit) module" where
  "ex_of_decl d = empty_module\<lparr>m_NAME := decl_name d, m_id := decl_id d, m_type_name := decl_type_name d,
     m_wire_id := (if decl_has_wire d then decl_id d else UNIT), m_requires := (\<lambda>_. decl_requires d)\<rparr>"

theorem masa_stack_valid_witness:
  "validate_stack (map ex_of_decl (masa_stack \<lparr>abort_slo = True, estimator = True, sched_oracle = False, ac_pred = True,
     ac_rajomon = True, trace_queue_latency = True\<rparr>)) = Done (Inr ())"
proof -
  let ?f = "\<lparr>abort_slo = True, estimator = True, sched_oracle = False, ac_pred = True, ac_rajomon = True, trace_queue_latency = True\<rparr>"
  have "map module_decl_of (map ex_of_decl (masa_stack ?f)) = masa_stack ?f"
    by (simp add: module_decl_of_def ex_of_decl_def masa_stack_def decl_budget_def decl_guard_def decl_estimation_def
        decl_pred_admission_def decl_queue_latency_def decl_unit_def declares_def UNIT_def)
  from masa_stack_valid [OF this] show ?thesis by simp
qed

section \<open>The oracle's proposals\<close>

lemma digits_value_ge: "acc \<le> digits_value acc s"
proof (induction s arbitrary: acc)
  case (Cons c s)
  have "acc \<le> 10 * acc + digit_value c" by simp
  also have "\<dots> \<le> digits_value (10 * acc + digit_value c) s" by (rule Cons.IH)
  finally show ?case by simp
qed simp

lemma parse_digits_ok:
  "list_all is_digit s \<Longrightarrow> digits_value acc s < 2 ^ 64 \<Longrightarrow> parse_digits acc s = Inr (digits_value acc s)"
proof (induction s arbitrary: acc)
  case (Cons c s)
  from digits_value_ge [of "10 * acc + digit_value c" s] Cons show ?case by auto
qed simp

lemma parse_u64_show: "n < 2 ^ 64 \<Longrightarrow> parse_u64 (show_nat n) = Inr (of_nat n)"
proof -
  assume n: "n < 2 ^ 64"
  have "CHR ''+'' \<notin> set (show_nat n)" using show_nat_digits [of n] by (auto simp: is_digit_def)
  then have "show_nat n \<noteq> ''+''" "hd (show_nat n) \<noteq> CHR ''+''"
    using hd_in_set [OF show_nat_ne, of n] by (auto simp del: hd_in_set)
  then show ?thesis using n show_nat_digits [of n]
    by (simp add: parse_u64_def parse_digits_ok list_all_iff digits_value_show)
qed

lemma oracle_proposes:
  assumes "oracle_hint_from_request ops to_str md child = Inr hint" "decisions_ok e"
    "\<And>t. t \<in> {CHILD_DEADLINE, CHILD_PRIORITY} \<Longrightarrow> case ext_decision t e of None \<Rightarrow> True | Some d \<Rightarrow> resolved_by d = None"
    "oracle_before_child_rpc ops to_str budget child md e = (r, e')"
  shows "r = Inr ()" "child_budget info e' = info\<lparr>
      ctx_deadline := saturating_sub (e2e_deadline budget) (remaining_after_us hint),
      ctx_prio_hint := PriorityHint (saturating_sub (saturating_sub (e2e_deadline budget) (remaining_after_us hint)) (child_work_us hint))\<rparr>"
proof -
  let ?d = "saturating_sub (e2e_deadline budget) (remaining_after_us hint)"
  let ?e1 = "snd (propose CHILD_DEADLINE (ChildDeadline ?d) e)"
  note p1 = propose_open [OF assms(2) assms(3) [of CHILD_DEADLINE], where v = "ChildDeadline ?d", simplified]
  have open2: "case ext_decision CHILD_PRIORITY ?e1 of None \<Rightarrow> True | Some d \<Rightarrow> resolved_by d = None"
    using assms(3) [of CHILD_PRIORITY] p1(5) [of CHILD_PRIORITY] by simp
  note p2 = propose_open [OF p1(2) open2, where v = "ChildPriority (PriorityHint (saturating_sub ?d (child_work_us hint)))"]
  have e': "e' = snd (propose CHILD_PRIORITY (ChildPriority (PriorityHint (saturating_sub ?d (child_work_us hint)))) ?e1)" "r = Inr ()"
    using assms(1,4) p1(1) p2(1)
    by (auto simp: oracle_before_child_rpc_def Let_def split: prod.splits sum.splits)
  have "proposals CHILD_DEADLINE e' = proposals CHILD_DEADLINE ?e1"
    using p2(5) [of CHILD_DEADLINE] e' by (simp add: proposals_def)
  then show "child_budget info e' = info\<lparr>ctx_deadline := ?d,
      ctx_prio_hint := PriorityHint (saturating_sub ?d (child_work_us hint))\<rparr>" "r = Inr ()"
    using p1(3) p2(3) e' by (simp_all add: child_budget_def last_or_def)
qed


end
