(* ===== verification/Rajomon.thy ===== *)
theory Rajomon
  imports Policy_Modules "HOL-Library.AList"
begin

text \<open>
  Rajomon, \<open>libs/rajomon/src\<close>: admission control by prices and tokens. The state the server's
  modules share and its worker (\<open>shared.rs\<close>), the client's token bucket (\<open>client.rs\<close>), the
  module of the existing implementation (\<open>module.rs\<close>) and the one that follows the paper
  (\<open>paper.rs\<close>). A concurrent map is a list of entries with distinct keys; where the code iterates over
  one and the order matters, the arrangement of its entries is an argument. Random draws, the
  queue latency and the parameters read from the file (\<open>params.rs\<close>) are arguments. Arithmetic
  wraps as in a release build.
\<close>

section \<open>Parameters\<close>

record rajomon_params =
  price_update_rate_ms :: u64
  latency_threshold_us :: u64
  price_step_up :: u64
  init_price :: u64
  price_freq :: u64
  tokens_left_init :: u64
  token_update_rate_ms :: u64
  token_update_step :: u64

definition rajomon_params_default :: rajomon_params where
  "rajomon_params_default = \<lparr>price_update_rate_ms = 10, latency_threshold_us = 5000, price_step_up = 8, init_price = 0,
     price_freq = 5, tokens_left_init = 10, token_update_rate_ms = 10, token_update_step = 5\<rparr>"

definition PARAMS_PATH_ENV :: string where
  "PARAMS_PATH_ENV = ''RAJOMON_PARAMS_PATH''"

definition LEGACY_PARAMS_PATH_ENV :: string where
  "LEGACY_PARAMS_PATH_ENV = ''MASA_POLICY_PARAMS_PATH''"

text \<open>The environment, the files and the parser of the section are arguments; logging is left out.\<close>

definition params_global :: "(string \<rightharpoonup> string) \<Rightarrow> (string \<rightharpoonup> 'file) \<Rightarrow> ('file \<rightharpoonup> rajomon_params) \<Rightarrow> rajomon_params" where
  "params_global env open_file parse =
     (case (case env PARAMS_PATH_ENV of Some path \<Rightarrow> Some path | None \<Rightarrow> env LEGACY_PARAMS_PATH_ENV) of
        None \<Rightarrow> rajomon_params_default
      | Some path \<Rightarrow>
          (case open_file path of
             None \<Rightarrow> rajomon_params_default
           | Some file \<Rightarrow> (case parse file of None \<Rightarrow> rajomon_params_default | Some p \<Rightarrow> p)))"

section \<open>State shared by the server's requests\<close>

type_synonym edge_price = "(grpc_method \<times> grpc_method) \<times> u64"

record rajomon_state =
  own_price :: u64
  downstream_prices :: "edge_price list"
  max_downstream_for_method :: "(grpc_method \<times> u64) list"
  window_max :: u64
  log_window_max :: u64
  diag_admitted :: u64
  diag_rejected :: u64
  diag_child_budget_rej :: u64
  diag_price_up_ticks :: u64
  diag_price_down_ticks :: u64
  diag_price_hold_ticks :: u64
  diag_token_deficit_sum :: u64

definition rajomon_state_new :: "rajomon_params \<Rightarrow> rajomon_state" where
  "rajomon_state_new p = \<lparr>own_price = init_price p, downstream_prices = [], max_downstream_for_method = [],
     window_max = 0, log_window_max = 0, diag_admitted = 0, diag_rejected = 0, diag_child_budget_rej = 0,
     diag_price_up_ticks = 0, diag_price_down_ticks = 0, diag_price_hold_ticks = 0, diag_token_deficit_sum = 0\<rparr>"

text \<open>\<open>.max().unwrap_or(0)\<close>.\<close>

definition max_or_zero :: "u64 list \<Rightarrow> u64" where
  "max_or_zero vs = fold max vs 0"

definition accumulated_price :: "rajomon_state \<Rightarrow> grpc_method \<Rightarrow> u64" where
  "accumulated_price s method =
     saturating_add (own_price s) (case map_of (max_downstream_for_method s) method of Some v \<Rightarrow> v | None \<Rightarrow> 0)"

definition child_price :: "edge_price list \<Rightarrow> grpc_method \<Rightarrow> u64" where
  "child_price iter child_method =
     (case filter (\<lambda>e. snd (fst e) = child_method) iter of [] \<Rightarrow> 0 | e # _ \<Rightarrow> snd e)"

definition update_prices :: "rajomon_params \<Rightarrow> rajomon_state \<Rightarrow> rajomon_state" where
  "update_prices p s =
     (let max_us = window_max s;
          s1 = s\<lparr>window_max := max_us div 2, log_window_max := max (log_window_max s) max_us\<rparr>;
          own = own_price s1 in
      if latency_threshold_us p < max_us then
        let excess_us = max_us - latency_threshold_us p;
            increment = max ((excess_us * price_step_up p) div 1000) 1 in
        s1\<lparr>diag_price_up_ticks := diag_price_up_ticks s1 + 1, own_price := saturating_add own increment\<rparr>
      else if 0 < own \<and> max_us < latency_threshold_us p div 2 then
        s1\<lparr>diag_price_down_ticks := diag_price_down_ticks s1 + 1, own_price := saturating_sub own 1\<rparr>
      else s1\<lparr>diag_price_hold_ticks := diag_price_hold_ticks s1 + 1, own_price := own\<rparr>)"

definition max_price_of :: "edge_price list \<Rightarrow> grpc_method \<Rightarrow> u64" where
  "max_price_of prices parent = max_or_zero (map snd (filter (\<lambda>e. fst (fst e) = parent) prices))"

text \<open>The entries halved so far, and the parents of those that changed.\<close>

fun decay_loop :: "edge_price list \<Rightarrow> edge_price list \<Rightarrow> grpc_method list \<Rightarrow> edge_price list \<times> grpc_method list" where
  "decay_loop [] halved parents = (halved, parents)"
| "decay_loop ((key, old) # es) halved parents =
     (if 0 < old then
        decay_loop es (halved @ [(key, old div 2)]) (if fst key \<in> set parents then parents else parents @ [fst key])
      else decay_loop es (halved @ [(key, old)]) parents)"

definition decay_downstream_prices :: "rajomon_state \<Rightarrow> rajomon_state" where
  "decay_downstream_prices s =
     (case decay_loop (downstream_prices s) [] [] of (prices, parents) \<Rightarrow>
        s\<lparr>downstream_prices := prices,
          max_downstream_for_method :=
            foldl (\<lambda>m parent. AList.update parent (max_price_of prices parent) m) (max_downstream_for_method s) parents\<rparr>)"

text \<open>What logging changes; the text logged is left out.\<close>

definition log_pricing_tables :: "rajomon_state \<Rightarrow> rajomon_state" where
  "log_pricing_tables s = s\<lparr>log_window_max := 0, diag_admitted := 0, diag_rejected := 0, diag_child_budget_rej := 0,
     diag_price_up_ticks := 0, diag_price_down_ticks := 0, diag_price_hold_ticks := 0, diag_token_deficit_sum := 0\<rparr>"

definition worker_tick :: "rajomon_params \<Rightarrow> rajomon_state \<times> u32 \<Rightarrow> rajomon_state \<times> u32" where
  "worker_tick p w =
     (case w of (s, log_tick) \<Rightarrow>
        let s1 = decay_downstream_prices (update_prices p s); log_tick1 = log_tick + 1 in
        if 500 \<le> log_tick1 then (log_pricing_tables s1, 0) else (s1, log_tick1))"

section \<open>Wire data\<close>

record rajomon_wire =
  rw_tokens :: u64
  rw_price :: "u64 option"

definition wire_request :: "u64 \<Rightarrow> rajomon_wire" where
  "wire_request tokens = \<lparr>rw_tokens = tokens, rw_price = None\<rparr>"

definition wire_response :: "u64 \<Rightarrow> u64 \<Rightarrow> rajomon_wire" where
  "wire_response tokens price = \<lparr>rw_tokens = tokens, rw_price = Some price\<rparr>"

definition DEFAULT_TOKENS :: u64 where
  "DEFAULT_TOKENS = 100"

definition RAJOMON :: string where
  "RAJOMON = ''rajomon''"

section \<open>The module\<close>

record rajomon_module =
  rj_rpc :: grpc_method
  should_drop :: bool
  remaining_tokens :: u64
  inbound_tokens :: u64

text \<open>
  The accumulated price is read in state \<open>s\<close>, the own price and the counters in \<open>s'\<close>: the worker
  may change the price between the two reads.
\<close>

definition rajomon_new :: "base64_engine \<Rightarrow> rajomon_wire bincode \<Rightarrow> grpc_method \<Rightarrow> wire_in \<Rightarrow>
    rajomon_state \<Rightarrow> rajomon_state \<Rightarrow> (rajomon_module \<times> rajomon_state) exec" where
  "rajomon_new b64 bin method wire s s' =
     bind_exec (wi_get b64 bin RAJOMON wire) (\<lambda>r. case r of
         Inl err \<Rightarrow> Panic
       | Inr w \<Rightarrow>
           let tokens = (case w of None \<Rightarrow> DEFAULT_TOKENS | Some w \<Rightarrow> rw_tokens w);
               module = \<lparr>rj_rpc = method, should_drop = False, remaining_tokens = 0, inbound_tokens = tokens\<rparr>;
               accumulated = accumulated_price s method;
               own = own_price s' in
           Done (if tokens < accumulated then
               (module\<lparr>should_drop := True\<rparr>,
                s'\<lparr>diag_rejected := diag_rejected s' + 1, diag_token_deficit_sum := diag_token_deficit_sum s' + (accumulated - tokens)\<rparr>)
             else
               (module\<lparr>remaining_tokens := tokens - own\<rparr>, s'\<lparr>diag_admitted := diag_admitted s' + 1\<rparr>)))"

definition rajomon_issue_error :: "rajomon_module \<Rightarrow> grpc_method option \<Rightarrow> string \<Rightarrow> status" where
  "rajomon_issue_error m child_method reason = Status ResourceExhausted (''/EarlyReturn?src='' @ method_path (rj_rpc m) @
     (case child_method of Some child \<Rightarrow> ''?last_rpc='' @ method_path child | None \<Rightarrow> '''') @ ''&reason='' @ reason)"

definition rajomon_before_poll :: "u64 \<Rightarrow> rajomon_module \<Rightarrow> rajomon_state \<Rightarrow> ((status + 'p) + unit) \<times> rajomon_state" where
  "rajomon_before_poll q_lat_us m s =
     (if should_drop m then Inl (Inl (rajomon_issue_error m None ''RajomonAdmissionRej'')) else Inr (),
      s\<lparr>window_max := max (window_max s) q_lat_us\<rparr>)"

text \<open>\<open>iter\<close>: the entries of the shared prices in the order they are iterated.\<close>

definition rajomon_before_child_rpc :: "base64_engine \<Rightarrow> rajomon_wire bincode \<Rightarrow> edge_price list \<Rightarrow> grpc_method \<Rightarrow>
    rajomon_module \<Rightarrow> wire_out \<Rightarrow> rajomon_state \<Rightarrow> ((status + unit) \<times> wire_out \<times> rajomon_state) exec" where
  "rajomon_before_child_rpc b64 bin iter child_method m child_wire s =
     (if should_drop m then Done (Inl (rajomon_issue_error m None ''RajomonAdmissionRej''), child_wire, s)
      else if remaining_tokens m < child_price iter child_method then
        Done (Inl (rajomon_issue_error m (Some child_method) ''RajomonChildBudgetRej''), child_wire,
          s\<lparr>diag_child_budget_rej := diag_child_budget_rej s + 1\<rparr>)
      else
        bind_exec (wo_put b64 bin RAJOMON (wire_request (remaining_tokens m)) child_wire)
          (\<lambda>r. case r of Inl err \<Rightarrow> Panic | Inr w \<Rightarrow> Done (Inr (), w, s)))"

definition rajomon_after_poll :: "(status + 'p) poll \<Rightarrow> rajomon_module \<Rightarrow> (status + 'p) + unit" where
  "rajomon_after_poll poll m =
     (case poll of
        PollPending \<Rightarrow> if should_drop m then Inl (Inl (rajomon_issue_error m None ''RajomonAdmissionRej'')) else Inr ()
      | PollReady _ \<Rightarrow> Inr ())"

definition learn_price :: "grpc_method \<Rightarrow> grpc_method \<Rightarrow> u64 \<Rightarrow> rajomon_state \<Rightarrow> rajomon_state" where
  "learn_price parent child price s =
     (let prices = AList.update (parent, child) price (downstream_prices s) in
      s\<lparr>downstream_prices := prices,
        max_downstream_for_method := AList.update parent (max_price_of prices parent) (max_downstream_for_method s)\<rparr>)"

definition rajomon_after_child_rpc :: "base64_engine \<Rightarrow> rajomon_wire bincode \<Rightarrow> grpc_method \<Rightarrow> ('s, 'p) child_outcome \<Rightarrow>
    wire_in \<Rightarrow> rajomon_module \<Rightarrow> rajomon_state \<Rightarrow> rajomon_state exec" where
  "rajomon_after_child_rpc b64 bin child_method outcome response_wire m s =
     (if sent outcome = None then Done s
      else
        bind_exec (wi_get b64 bin RAJOMON response_wire) (\<lambda>r. case r of
            Inl err \<Rightarrow> Panic
          | Inr w \<Rightarrow>
              (case (case w of None \<Rightarrow> None | Some w \<Rightarrow> rw_price w) of
                 Some price \<Rightarrow> Done (learn_price (rj_rpc m) child_method price s)
               | None \<Rightarrow> Done s)))"

text \<open>\<open>draw\<close>: the number drawn below the frequency.\<close>

definition should_propagate_price :: "rajomon_params \<Rightarrow> u64 \<Rightarrow> bool" where
  "should_propagate_price p draw =
     (if price_freq p = 0 then False else if price_freq p = 1 then True else draw = 0)"

definition rajomon_finalize :: "base64_engine \<Rightarrow> rajomon_wire bincode \<Rightarrow> rajomon_params \<Rightarrow> u64 \<Rightarrow> rajomon_module \<Rightarrow>
    wire_out \<Rightarrow> rajomon_state \<Rightarrow> wire_out exec" where
  "rajomon_finalize b64 bin p draw m wire s =
     bind_exec (wo_put b64 bin RAJOMON
         (if should_propagate_price p draw then wire_response (inbound_tokens m) (accumulated_price s (rj_rpc m))
          else wire_request (inbound_tokens m)) wire)
       (\<lambda>r. case r of Inl err \<Rightarrow> Panic | Inr w \<Rightarrow> Done w)"

section \<open>The client's token bucket\<close>

record token_bucket =
  tokens_left :: u64
  cached_prices :: "grpc_method \<rightharpoonup> u64"

definition bucket_new :: "rajomon_params \<Rightarrow> token_bucket" where
  "bucket_new p = \<lparr>tokens_left = tokens_left_init p, cached_prices = Map.empty\<rparr>"

definition cached_price :: "grpc_method \<Rightarrow> token_bucket \<Rightarrow> u64" where
  "cached_price method b = (case cached_prices b method of Some v \<Rightarrow> v | None \<Rightarrow> 0)"

definition update_price :: "grpc_method \<Rightarrow> u64 \<Rightarrow> token_bucket \<Rightarrow> token_bucket" where
  "update_price method price b = b\<lparr>cached_prices := (cached_prices b)(method \<mapsto> price)\<rparr>"

text \<open>
  What one turn of the acquiring loop decides from the level it loaded: \<open>draw\<close> is the number drawn
  between zero and that level.
\<close>

definition acquire_choice :: "u64 \<Rightarrow> u64 \<Rightarrow> u64 \<Rightarrow> u64 option" where
  "acquire_choice price current draw =
     (if current < price then None
      else let tok = (if current = 0 then 0 else draw) in if tok < price then None else Some tok)"

text \<open>A call that no other thread disturbs.\<close>

definition try_acquire :: "u64 \<Rightarrow> grpc_method \<Rightarrow> token_bucket \<Rightarrow> u64 option \<times> token_bucket" where
  "try_acquire draw method b =
     (case acquire_choice (cached_price method b) (tokens_left b) draw of
        None \<Rightarrow> (None, b)
      | Some tok \<Rightarrow> (Some tok, b\<lparr>tokens_left := tokens_left b - tok\<rparr>))"

definition deducted :: "u64 \<Rightarrow> u64 \<Rightarrow> u64" where
  "deducted n current = saturating_sub current n"

definition replenished :: "rajomon_params \<Rightarrow> u64 \<Rightarrow> u64" where
  "replenished p current = saturating_add current (token_update_step p)"

text \<open>
  Threads inside the three loops: where each is, with what it has loaded. Every turn loads the
  level and then exchanges it if it has not changed; the weak exchange may also fail for no reason.
\<close>

datatype bucket_pc =
    Outside
  | AcquireLoad u64
  | AcquireCas u64 u64 u64
  | DeductLoad u64
  | DeductCas u64 u64
  | ReplenishLoad
  | ReplenishCas u64

datatype bucket_event = Granted u64 u64 | RateLimited u64 | Deducted u64 | Replenished

record 't bucket_world =
  bw_level :: u64
  bw_pc :: "'t \<Rightarrow> bucket_pc"
  bw_log :: "bucket_event list"

definition bw_start :: "u64 \<Rightarrow> 't bucket_world" where
  "bw_start level = \<lparr>bw_level = level, bw_pc = (\<lambda>_. Outside), bw_log = []\<rparr>"

definition bw_goto :: "'t \<Rightarrow> bucket_pc \<Rightarrow> 't bucket_world \<Rightarrow> 't bucket_world" where
  "bw_goto t pc w = w\<lparr>bw_pc := (bw_pc w)(t := pc)\<rparr>"

definition bw_return :: "'t \<Rightarrow> u64 \<Rightarrow> bucket_event \<Rightarrow> 't bucket_world \<Rightarrow> 't bucket_world" where
  "bw_return t level ev w = w\<lparr>bw_level := level, bw_pc := (bw_pc w)(t := Outside), bw_log := bw_log w @ [ev]\<rparr>"

inductive bucket_step :: "rajomon_params \<Rightarrow> 't bucket_world \<Rightarrow> 't bucket_world \<Rightarrow> bool" for p where
  call_acquire: "bw_pc w t = Outside \<Longrightarrow> bucket_step p w (bw_goto t (AcquireLoad price) w)"
| call_deduct: "bw_pc w t = Outside \<Longrightarrow> bucket_step p w (bw_goto t (DeductLoad n) w)"
| call_replenish: "bw_pc w t = Outside \<Longrightarrow> bucket_step p w (bw_goto t ReplenishLoad w)"
| acquire_none: "bw_pc w t = AcquireLoad price \<Longrightarrow> draw \<le> bw_level w \<Longrightarrow> acquire_choice price (bw_level w) draw = None \<Longrightarrow>
    bucket_step p w (bw_return t (bw_level w) (RateLimited price) w)"
| acquire_load: "bw_pc w t = AcquireLoad price \<Longrightarrow> draw \<le> bw_level w \<Longrightarrow> acquire_choice price (bw_level w) draw = Some tok \<Longrightarrow>
    bucket_step p w (bw_goto t (AcquireCas price (bw_level w) tok) w)"
| acquire_cas: "bw_pc w t = AcquireCas price current tok \<Longrightarrow> bw_level w = current \<Longrightarrow>
    bucket_step p w (bw_return t (current - tok) (Granted price tok) w)"
| acquire_retry: "bw_pc w t = AcquireCas price current tok \<Longrightarrow> bucket_step p w (bw_goto t (AcquireLoad price) w)"
| deduct_load: "bw_pc w t = DeductLoad n \<Longrightarrow> bucket_step p w (bw_goto t (DeductCas n (bw_level w)) w)"
| deduct_cas: "bw_pc w t = DeductCas n current \<Longrightarrow> bw_level w = current \<Longrightarrow>
    bucket_step p w (bw_return t (deducted n current) (Deducted n) w)"
| deduct_retry: "bw_pc w t = DeductCas n current \<Longrightarrow> bucket_step p w (bw_goto t (DeductLoad n) w)"
| replenish_load: "bw_pc w t = ReplenishLoad \<Longrightarrow> bucket_step p w (bw_goto t (ReplenishCas (bw_level w)) w)"
| replenish_cas: "bw_pc w t = ReplenishCas current \<Longrightarrow> bw_level w = current \<Longrightarrow>
    bucket_step p w (bw_return t (replenished p current) Replenished w)"
| replenish_retry: "bw_pc w t = ReplenishCas current \<Longrightarrow> bucket_step p w (bw_goto t ReplenishLoad w)"

section \<open>The controller of the paper's version\<close>

record interface =
  if_own :: u64
  if_queue_max_us :: u64
  if_children :: "(grpc_method \<times> u64) list"

definition interface_default :: interface where
  "interface_default = \<lparr>if_own = 0, if_queue_max_us = 0, if_children = []\<rparr>"

definition interface_total :: "interface \<Rightarrow> u64" where
  "interface_total i = saturating_add (if_own i) (max_or_zero (map snd (if_children i)))"

type_synonym controller = "grpc_method \<rightharpoonup> interface"

definition controller_new :: controller where
  "controller_new = Map.empty"

definition controller_total :: "rajomon_params \<Rightarrow> grpc_method \<Rightarrow> controller \<Rightarrow> u64 \<times> controller" where
  "controller_total p method c =
     (let i = (case c method of Some i \<Rightarrow> i | None \<Rightarrow> interface_default\<lparr>if_own := init_price p\<rparr>) in
      (interface_total i, c(method \<mapsto> i)))"

definition or_default :: "interface option \<Rightarrow> interface" where
  "or_default i = (case i of Some i \<Rightarrow> i | None \<Rightarrow> interface_default)"

definition controller_observe :: "grpc_method \<Rightarrow> u64 \<Rightarrow> controller \<Rightarrow> controller" where
  "controller_observe method queue_us c =
     (let i = or_default (c method) in c(method \<mapsto> i\<lparr>if_queue_max_us := max (if_queue_max_us i) queue_us\<rparr>))"

definition controller_learn :: "grpc_method \<Rightarrow> grpc_method \<Rightarrow> u64 \<Rightarrow> controller \<Rightarrow> controller" where
  "controller_learn parent child price c =
     (let i = or_default (c parent) in c(parent \<mapsto> i\<lparr>if_children := AList.update child price (if_children i)\<rparr>))"

definition tick_interface :: "rajomon_params \<Rightarrow> interface \<Rightarrow> interface" where
  "tick_interface p i =
     (let queue = if_queue_max_us i; i1 = i\<lparr>if_queue_max_us := 0\<rparr> in
      if latency_threshold_us p < queue then
        let increase = (ucast (min (max (ucast (queue - latency_threshold_us p) * ucast (price_step_up p) div (1000 :: u128)) 1)
              (ucast (- 1 :: u64))) :: u64) in
        i1\<lparr>if_own := saturating_add (if_own i1) increase\<rparr>
      else if ucast queue * 2 < (ucast (latency_threshold_us p) :: u128) then i1\<lparr>if_own := saturating_sub (if_own i1) 1\<rparr>
      else i1)"

definition controller_tick :: "rajomon_params \<Rightarrow> controller \<Rightarrow> controller" where
  "controller_tick p c = (\<lambda>m. map_option (tick_interface p) (c m))"

section \<open>The paper's module\<close>

record paper_module =
  pm_method :: grpc_method
  pm_tokens :: "status + u64"
  pm_admitted :: bool

text \<open>\<open>err_text\<close>: the text of a wire error.\<close>

definition paper_before_root_rpc :: "base64_engine \<Rightarrow> rajomon_wire bincode \<Rightarrow> 'm metadata_ops \<Rightarrow> (wire_error \<Rightarrow> string) \<Rightarrow>
    u64 \<Rightarrow> grpc_method \<Rightarrow> 'm \<Rightarrow> wire_out \<Rightarrow> token_bucket \<Rightarrow> ((status + unit) \<times> wire_out \<times> token_bucket) exec" where
  "paper_before_root_rpc b64 bin ops err_text draw method metadata wire bucket =
     bind_exec (case wi_from_metadata ops metadata of Inl e \<Rightarrow> Done (Inl e) | Inr w \<Rightarrow> wi_get b64 bin RAJOMON w) (\<lambda>provided.
       let put = (\<lambda>tokens b.
           map_exec (\<lambda>r. case r of Inl e \<Rightarrow> (Inl (Status Internal (err_text e)), wire, b) | Inr out \<Rightarrow> (Inr (), out, b))
             (wo_put b64 bin RAJOMON (wire_request tokens) wire)) in
       case provided of
         Inl e \<Rightarrow> Done (Inl (Status InvalidArgument (err_text e)), wire, bucket)
       | Inr (Some w) \<Rightarrow> put (rw_tokens w) bucket
       | Inr None \<Rightarrow>
           (case try_acquire draw method bucket of
              (None, b) \<Rightarrow> Done (Inl (Status ResourceExhausted ''Rajomon root rate limit''), wire, b)
            | (Some tokens, b) \<Rightarrow> put tokens b))"

text \<open>The price a response carries, if it was sent, goes to \<open>learn\<close>.\<close>

definition with_price :: "base64_engine \<Rightarrow> rajomon_wire bincode \<Rightarrow> (wire_error \<Rightarrow> string) \<Rightarrow> ('s, 'p) child_outcome \<Rightarrow>
    wire_in \<Rightarrow> (u64 \<Rightarrow> 'c \<Rightarrow> 'c) \<Rightarrow> 'c \<Rightarrow> ((status + unit) \<times> 'c) exec" where
  "with_price b64 bin err_text outcome wire learn c =
     (if sent outcome = None then Done (Inr (), c)
      else
        map_exec (\<lambda>r. case r of
            Inl e \<Rightarrow> (Inl (Status Internal (err_text e)), c)
          | Inr w \<Rightarrow>
              (case (case w of None \<Rightarrow> None | Some w \<Rightarrow> rw_price w) of
                 Some price \<Rightarrow> (Inr (), learn price c)
               | None \<Rightarrow> (Inr (), c)))
          (wi_get b64 bin RAJOMON wire))"

definition paper_after_root_rpc :: "base64_engine \<Rightarrow> rajomon_wire bincode \<Rightarrow> (wire_error \<Rightarrow> string) \<Rightarrow> grpc_method \<Rightarrow>
    ('s, 'p) child_outcome \<Rightarrow> wire_in \<Rightarrow> token_bucket \<Rightarrow> ((status + unit) \<times> token_bucket) exec" where
  "paper_after_root_rpc b64 bin err_text method outcome wire bucket =
     with_price b64 bin err_text outcome wire (update_price method) bucket"

definition paper_new :: "base64_engine \<Rightarrow> rajomon_wire bincode \<Rightarrow> (wire_error \<Rightarrow> string) \<Rightarrow> rajomon_params \<Rightarrow> grpc_method \<Rightarrow>
    wire_in \<Rightarrow> controller \<Rightarrow> (paper_module \<times> controller) exec" where
  "paper_new b64 bin err_text p method wire c =
     map_exec (\<lambda>r.
         let tokens = (case r of
               Inl e \<Rightarrow> Inl (Status InvalidArgument (err_text e))
             | Inr None \<Rightarrow> Inl (Status InvalidArgument ''missing Rajomon tokens'')
             | Inr (Some w) \<Rightarrow> Inr (rw_tokens w)) in
         case controller_total p method c of (price, c') \<Rightarrow>
           (\<lparr>pm_method = method, pm_tokens = tokens,
             pm_admitted = (case tokens of Inl _ \<Rightarrow> False | Inr t \<Rightarrow> price \<le> t)\<rparr>, c'))
       (wi_get b64 bin RAJOMON wire)"

definition paper_before_poll :: "u128 \<Rightarrow> paper_module \<Rightarrow> controller \<Rightarrow> ((status + 'p) + unit) \<times> controller" where
  "paper_before_poll queue_us m c =
     (case pm_tokens m of
        Inl status \<Rightarrow> Inl (Inl status)
      | Inr _ \<Rightarrow> if \<not> pm_admitted m then Inl (Inl (Status ResourceExhausted ''Rajomon admission'')) else Inr (),
      controller_observe (pm_method m) (ucast (min queue_us (ucast (- 1 :: u64)))) c)"

definition paper_before_child_rpc :: "base64_engine \<Rightarrow> rajomon_wire bincode \<Rightarrow> (wire_error \<Rightarrow> string) \<Rightarrow> paper_module \<Rightarrow>
    wire_out \<Rightarrow> ((status + unit) \<times> wire_out) exec" where
  "paper_before_child_rpc b64 bin err_text m wire =
     (if \<not> pm_admitted m then Done (Inl (Status ResourceExhausted ''Rajomon admission''), wire)
      else (case pm_tokens m of
          Inl status \<Rightarrow> Done (Inl status, wire)
        | Inr tokens \<Rightarrow>
            map_exec (\<lambda>r. case r of Inl e \<Rightarrow> (Inl (Status Internal (err_text e)), wire) | Inr out \<Rightarrow> (Inr (), out))
              (wo_put b64 bin RAJOMON (wire_request tokens) wire)))"

definition paper_after_child_rpc :: "base64_engine \<Rightarrow> rajomon_wire bincode \<Rightarrow> (wire_error \<Rightarrow> string) \<Rightarrow> grpc_method \<Rightarrow>
    ('s, 'p) child_outcome \<Rightarrow> wire_in \<Rightarrow> paper_module \<Rightarrow> controller \<Rightarrow> ((status + unit) \<times> controller) exec" where
  "paper_after_child_rpc b64 bin err_text method outcome wire m c =
     with_price b64 bin err_text outcome wire (controller_learn (pm_method m) method) c"

definition paper_finalize :: "base64_engine \<Rightarrow> rajomon_wire bincode \<Rightarrow> rajomon_params \<Rightarrow> u64 \<Rightarrow> paper_module \<Rightarrow> wire_out \<Rightarrow>
    controller \<Rightarrow> (wire_out \<times> controller) exec" where
  "paper_finalize b64 bin p draw m wire c =
     (let (price, c') = (if 0 < price_freq p \<and> draw = 0 then map_prod Some id (controller_total p (pm_method m) c) else (None, c));
          tokens = (case pm_tokens m of Inr t \<Rightarrow> t | Inl _ \<Rightarrow> 0) in
      bind_exec (wo_put b64 bin RAJOMON \<lparr>rw_tokens = tokens, rw_price = price\<rparr> wire)
        (\<lambda>r. case r of Inl e \<Rightarrow> Panic | Inr w \<Rightarrow> Done (w, c')))"

section \<open>Prices of a call tree\<close>

text \<open>What happens to the shared prices, and the price of each call that should be known.\<close>

datatype price_op = UpdatePrices | DecayPrices | LearnPrice grpc_method grpc_method u64 | ObserveQueue u64 | LogTables

fun price_step :: "rajomon_params \<Rightarrow> price_op \<Rightarrow> rajomon_state \<Rightarrow> rajomon_state" where
  "price_step p UpdatePrices s = update_prices p s"
| "price_step p DecayPrices s = decay_downstream_prices s"
| "price_step p (LearnPrice parent child v) s = learn_price parent child v s"
| "price_step p (ObserveQueue q) s = s\<lparr>window_max := max (window_max s) q\<rparr>"
| "price_step p LogTables s = log_pricing_tables s"

fun known_step :: "price_op \<Rightarrow> (grpc_method \<times> grpc_method \<rightharpoonup> u64) \<Rightarrow> (grpc_method \<times> grpc_method \<rightharpoonup> u64)" where
  "known_step (LearnPrice parent child v) known = known((parent, child) \<mapsto> v)"
| "known_step DecayPrices known = (\<lambda>k. map_option (\<lambda>v. v div 2) (known k))"
| "known_step _ known = known"

definition known_prices :: "price_op list \<Rightarrow> (grpc_method \<times> grpc_method \<rightharpoonup> u64)" where
  "known_prices acts = fold known_step acts Map.empty"

definition total_price :: "u64 \<Rightarrow> (grpc_method \<times> grpc_method \<rightharpoonup> u64) \<Rightarrow> grpc_method \<Rightarrow> u64 \<Rightarrow> bool" where
  "total_price own known m v \<longleftrightarrow>
     (\<forall>child w. known (m, child) = Some w \<longrightarrow> saturating_add own w \<le> v) \<and>
     (v = own \<or> (\<exists>child w. known (m, child) = Some w \<and> v = saturating_add own w)) \<and> own \<le> v"

lemma max_or_zero_Nil [simp]: "max_or_zero [] = 0"
  by (simp add: max_or_zero_def)

lemma fold_max: "fold max vs (a :: u64) = max a (max_or_zero vs)"
proof (induction vs arbitrary: a)
  case (Cons v vs)
  then have "fold max (v # vs) b = max b (max v (max_or_zero vs))" for b
    by (simp add: max.left_commute max.assoc)
  from this [of a] this [of 0] show ?case by (simp add: max_or_zero_def)
qed simp

lemma max_or_zero_Cons [simp]: "max_or_zero (v # vs) = max v (max_or_zero vs)"
  using fold_max [of vs "max v 0"] by (simp add: max_or_zero_def)

lemma max_or_zero_ge: "v \<in> set vs \<Longrightarrow> v \<le> max_or_zero vs"
  by (induction vs) (auto simp: le_max_iff_disj)

lemma max_or_zero_in: "max_or_zero vs = 0 \<or> max_or_zero vs \<in> set vs"
  by (induction vs) (auto simp: max_def)

lemma max_or_zero_zeros: "(\<And>v. v \<in> set vs \<Longrightarrow> v = 0) \<Longrightarrow> max_or_zero vs = 0"
  using max_or_zero_in [of vs] by blast

lemma decay_loop_spec:
  "decay_loop es halved parents = (hs, ps) \<Longrightarrow>
   hs = halved @ map (\<lambda>(k, v). (k, v div 2)) es \<and> set ps = set parents \<union> {fst k |k v. (k, v) \<in> set es \<and> 0 < v}"
proof (induction es halved parents rule: decay_loop.induct)
  case (2 key old es halved parents)
  show ?case
  proof (cases "0 < old")
    case True
    with 2(1,3) show ?thesis by (cases key) (auto split: if_splits)
  next
    case False
    then have "old = 0" by (simp add: word_gt_0)
    then have "old div 2 = old" by simp
    with False 2(2,3) show ?thesis by (auto split: if_splits)
  qed
qed auto

lemma map_of_halved: "map_of (map (\<lambda>(k, v). (k, v div 2)) es) = (\<lambda>k. map_option (\<lambda>v. v div (2 :: u64)) (map_of es k))"
  by (induction es) auto

lemma max_price_of_ge: "((p, c), v) \<in> set es \<Longrightarrow> v \<le> max_price_of es p"
  unfolding max_price_of_def by (rule max_or_zero_ge) force

lemma max_price_of_in: "max_price_of es p = 0 \<or> (\<exists>c. ((p, c), max_price_of es p) \<in> set es)"
  using max_or_zero_in [of "map snd (filter (\<lambda>e. fst (fst e) = p) es)"] unfolding max_price_of_def by auto

lemma max_price_of_update: "q \<noteq> p \<Longrightarrow> max_price_of (AList.update (p, c) v es) q = max_price_of es q"
proof -
  assume "q \<noteq> p"
  then have "filter (\<lambda>e. fst (fst e) = q) (AList.update (p, c) v es) = filter (\<lambda>e. fst (fst e) = q) es" by (induction es) auto
  then show ?thesis by (simp add: max_price_of_def)
qed

text \<open>The cached maximum of every parent is the maximum over its cached children.\<close>

definition prices_inv :: "rajomon_state \<Rightarrow> bool" where
  "prices_inv s \<longleftrightarrow> distinct (map fst (downstream_prices s)) \<and>
     (\<forall>m. (case map_of (max_downstream_for_method s) m of Some v \<Rightarrow> v | None \<Rightarrow> 0) = max_price_of (downstream_prices s) m)"

lemma prices_inv_new: "prices_inv (rajomon_state_new p)"
  by (simp add: prices_inv_def rajomon_state_new_def max_price_of_def)

lemma map_of_foldl_update:
  "map_of (foldl (\<lambda>m parent. AList.update parent (f parent) m) al ps) k = (if k \<in> set ps then Some (f k) else map_of al k)"
  by (induction ps arbitrary: al) (auto simp: update_conv')

lemma update_prices_keeps [simp]:
  "downstream_prices (update_prices p s) = downstream_prices s"
  "max_downstream_for_method (update_prices p s) = max_downstream_for_method s"
  by (simp_all add: update_prices_def Let_def)

lemma learn_price_inv:
  assumes "prices_inv s"
  shows "prices_inv (learn_price parent child v s)"
    "map_of (downstream_prices (learn_price parent child v s)) = (map_of (downstream_prices s))((parent, child) \<mapsto> v)"
  using assms by (auto simp: prices_inv_def learn_price_def Let_def distinct_update update_conv' max_price_of_update)

lemma decay_inv:
  assumes "prices_inv s"
  shows "prices_inv (decay_downstream_prices s)"
    "map_of (downstream_prices (decay_downstream_prices s)) = (\<lambda>k. map_option (\<lambda>v. v div 2) (map_of (downstream_prices s) k))"
proof -
  let ?es = "downstream_prices s"
  obtain hs ps where d: "decay_loop ?es [] [] = (hs, ps)" by fastforce
  from decay_loop_spec [OF d] have hs: "hs = map (\<lambda>(k, v). (k, v div 2)) ?es" and ps: "set ps = {fst k |k v. (k, v) \<in> set ?es \<and> 0 < v}" by auto
  have s': "decay_downstream_prices s = s\<lparr>downstream_prices := hs, max_downstream_for_method :=
      foldl (\<lambda>m parent. AList.update parent (max_price_of hs parent) m) (max_downstream_for_method s) ps\<rparr>"
    by (simp add: decay_downstream_prices_def d)
  show "map_of (downstream_prices (decay_downstream_prices s)) = (\<lambda>k. map_option (\<lambda>v. v div 2) (map_of ?es k))"
    by (simp add: s' hs map_of_halved)
  have "max_price_of hs m = max_price_of ?es m" if m: "m \<notin> set ps" for m
  proof -
    have zero: "v = 0" if "((m, c), v) \<in> set ?es" for c v using that m ps by (force simp: word_gt_0)
    then have "max_price_of ?es m = 0" unfolding max_price_of_def by (intro max_or_zero_zeros) auto
    moreover have "max_price_of hs m = 0" unfolding max_price_of_def hs by (intro max_or_zero_zeros) (auto dest!: zero)
    ultimately show ?thesis by simp
  qed
  moreover have "distinct (map fst hs)" using assms by (simp add: hs prices_inv_def comp_def case_prod_unfold)
  ultimately show "prices_inv (decay_downstream_prices s)"
    using assms by (simp add: prices_inv_def s' map_of_foldl_update)
qed

lemma price_step_inv:
  assumes "prices_inv s"
  shows "prices_inv (price_step p op s) \<and>
    map_of (downstream_prices (price_step p op s)) = known_step op (map_of (downstream_prices s))"
  using assms learn_price_inv [OF assms] decay_inv [OF assms]
  by (cases op) (simp_all add: log_pricing_tables_def, simp_all add: prices_inv_def)

lemma price_run_inv:
  "prices_inv s \<Longrightarrow> prices_inv (fold (price_step p) acts s) \<and>
   map_of (downstream_prices (fold (price_step p) acts s)) = fold known_step acts (map_of (downstream_prices s))"
  by (induction acts arbitrary: s) (use price_step_inv in \<open>fastforce+\<close>)

lemma saturating_add_mono: "b \<le> c \<Longrightarrow> saturating_add a b \<le> saturating_add a (c :: 'a::len word)"
  by (simp add: word_le_nat_alt unat_saturating_add)

lemma accumulated_total:
  assumes "prices_inv s"
  shows "total_price (own_price s) (map_of (downstream_prices s)) m (accumulated_price s m)"
proof -
  let ?es = "downstream_prices s"
  have a: "accumulated_price s m = saturating_add (own_price s) (max_price_of ?es m)"
    using assms by (simp add: accumulated_price_def prices_inv_def)
  have "saturating_add (own_price s) w \<le> accumulated_price s m" if "map_of ?es (m, c) = Some w" for c w
    unfolding a by (rule saturating_add_mono [OF max_price_of_ge]) (rule map_of_SomeD [OF that])
  moreover have "accumulated_price s m = own_price s \<or> (\<exists>c w. map_of ?es (m, c) = Some w \<and> accumulated_price s m = saturating_add (own_price s) w)"
    using max_price_of_in [of ?es m] assms a by (auto simp: prices_inv_def saturating_add_def)
  ultimately show ?thesis using saturating_add_ge a by (auto simp: total_price_def)
qed


text \<open>
  The cached prices of a server refine the prices its calls have reported: whatever the
  worker ticks, responses and observations in between, the price known for a call is the one last
  reported, halved at every decay since, and the price of a method is the server's own plus the
  greatest price known of its children, saturating. A child that stops answering is forgotten
  after at most as many decays as its price has bits.
\<close>

theorem rajomon_prices_refine_reports:
  "let s = fold (price_step p) acts (rajomon_state_new p) in
     map_of (downstream_prices s) = known_prices acts \<and>
     total_price (own_price s) (known_prices acts) m (accumulated_price s m) \<and>
     (\<forall>v. known_prices (acts @ LearnPrice m c v # replicate 64 DecayPrices) (m, c) = Some 0)"
proof -
  define s where "s = fold (price_step p) acts (rajomon_state_new p)"
  have "map_of (downstream_prices (rajomon_state_new p)) = Map.empty" by (simp add: rajomon_state_new_def)
  then have s: "prices_inv s" "map_of (downstream_prices s) = known_prices acts"
    using price_run_inv [OF prices_inv_new [of p], of p acts] by (simp_all add: s_def known_prices_def)
  have halves: "fold known_step (replicate n DecayPrices) known k = map_option (\<lambda>v. drop_bit n v) (known k)" for n known k
  proof (induction n arbitrary: known)
    case (Suc n)
    then show ?case by (cases "known k") (simp_all add: drop_bit_Suc)
  qed (simp add: option.map_id)
  have "known_prices (acts @ LearnPrice m c v # replicate 64 DecayPrices) (m, c) = Some 0" for v
    using halves [of 64] drop_bit_word_beyond [of 64 v] by (simp add: known_prices_def)
  then show ?thesis using s accumulated_total [OF s(1), of m] by (simp add: Let_def s_def)
qed

section \<open>The law of price updates\<close>

text \<open>The paper's rule: one token per millisecond of excess and step, at least one; down by one.\<close>

definition price_rule :: "nat \<Rightarrow> nat \<Rightarrow> nat \<Rightarrow> nat \<Rightarrow> bool \<Rightarrow> nat" where
  "price_rule threshold step own queue low =
     (if threshold < queue then min (own + max 1 ((queue - threshold) * step div 1000)) (2 ^ 64 - 1)
      else if low then own - 1 else own)"

lemma tick_interface_rule:
  "unat (if_own (tick_interface p i)) =
     price_rule (unat (latency_threshold_us p)) (unat (price_step_up p)) (unat (if_own i)) (unat (if_queue_max_us i))
       (2 * unat (if_queue_max_us i) < unat (latency_threshold_us p))"
proof -
  let ?t = "latency_threshold_us p" and ?q = "if_queue_max_us i" and ?st = "price_step_up p"
  let ?x = "ucast (?q - ?t) * ucast ?st div (1000 :: u128)"
  show ?thesis
  proof (cases "?t < ?q")
    case True
    then have d: "unat (?q - ?t) = unat ?q - unat ?t" by (simp add: unat_sub)
    have x: "unat ?x = (unat ?q - unat ?t) * unat ?st div 1000" by (simp add: unat_div unat_mult_128 d)
    define y where "y = min (max ?x 1) (ucast (- 1 :: u64))"
    have y: "unat y = min (max (unat ?x) 1) (2 ^ 64 - 1)" by (simp add: y_def unat_min unat_max unat_minus_one_word)
    then have "unat y < 2 ^ 64" by simp
    from unat_ucast_64 [OF this] y have "unat (ucast y :: u64) = min (max (unat ?x) 1) (2 ^ 64 - 1)" by simp
    moreover have "if_own (tick_interface p i) = saturating_add (if_own i) (ucast y)"
      using True by (simp add: tick_interface_def Let_def y_def)
    moreover have "unat ?t < unat ?q" using True by (simp add: word_less_nat_alt)
    moreover have "min (a + min (max b 1) c) c = min (a + max 1 b) c" for a b c :: nat by (simp add: min_def max_def)
    ultimately show ?thesis unfolding price_rule_def by (simp only: unat_saturating_add x if_True) simp
  next
    case False
    have "unat ?q * 2 < 2 ^ 128" using unat_u64_less [of ?q] by simp
    then have "unat (ucast ?q * 2 :: u128) = unat ?q * 2" by (simp add: unat_word_ariths)
    then have "(ucast ?q * 2 < (ucast ?t :: u128)) = (2 * unat ?q < unat ?t)" by (simp add: word_less_nat_alt mult.commute)
    then show ?thesis using False
      by (simp add: tick_interface_def Let_def price_rule_def unat_saturating_sub word_less_nat_alt)
  qed
qed

lemma update_prices_rule:
  assumes "(unat (window_max s) - unat (latency_threshold_us p)) * unat (price_step_up p) < 2 ^ 64"
  shows "unat (own_price (update_prices p s)) =
     price_rule (unat (latency_threshold_us p)) (unat (price_step_up p)) (unat (own_price s)) (unat (window_max s))
       (unat (window_max s) < unat (latency_threshold_us p) div 2)"
proof -
  let ?t = "latency_threshold_us p" and ?q = "window_max s" and ?st = "price_step_up p"
  show ?thesis
  proof (cases "?t < ?q")
    case True
    then have d: "unat (?q - ?t) = unat ?q - unat ?t" by (simp add: unat_sub)
    with assms have "unat ((?q - ?t) * ?st) = (unat ?q - unat ?t) * unat ?st" by (simp add: unat_word_ariths)
    then have "unat ((?q - ?t) * ?st div 1000) = (unat ?q - unat ?t) * unat ?st div 1000" by (simp add: unat_div)
    then show ?thesis using True
      by (simp add: update_prices_def Let_def unat_saturating_add price_rule_def unat_max word_less_nat_alt max.commute)
  next
    case False
    then show ?thesis
      by (simp add: update_prices_def Let_def price_rule_def unat_saturating_sub word_less_nat_alt unat_div unat_gt_0)
  qed
qed

text \<open>
  Both controllers follow the paper's rule for the own price, computed in unbounded
  arithmetic and capped at the largest price: up by the excess over the threshold times the step
  per millisecond, and by at least one; down by one when the queue was below half the threshold;
  otherwise unchanged. The paper's version does so for every input; the existing one as long as
  the excess times the step fits in 64 bits. The existing one halves the observed maximum, the
  paper's forgets it.
\<close>

theorem price_updates_follow_rule:
  shows "unat (if_own (tick_interface p i)) =
      price_rule (unat (latency_threshold_us p)) (unat (price_step_up p)) (unat (if_own i)) (unat (if_queue_max_us i))
        (2 * unat (if_queue_max_us i) < unat (latency_threshold_us p)) \<and>
    if_queue_max_us (tick_interface p i) = 0 \<and> unat (window_max (update_prices p s)) = unat (window_max s) div 2 \<and>
    ((unat (window_max s) - unat (latency_threshold_us p)) * unat (price_step_up p) < 2 ^ 64 \<longrightarrow>
      unat (own_price (update_prices p s)) =
        price_rule (unat (latency_threshold_us p)) (unat (price_step_up p)) (unat (own_price s)) (unat (window_max s))
          (unat (window_max s) < unat (latency_threshold_us p) div 2))"
proof -
  have "if_queue_max_us (tick_interface p i) = 0" by (simp add: tick_interface_def Let_def)
  moreover have "unat (window_max (update_prices p s)) = unat (window_max s) div 2"
    by (simp add: update_prices_def Let_def unat_div)
  ultimately show ?thesis using tick_interface_rule update_prices_rule by blast
qed

theorem price_updates_follow_rule_witness:
  "unat (own_price (update_prices rajomon_params_default (rajomon_state_new rajomon_params_default\<lparr>window_max := 7000\<rparr>))) = 16"
proof -
  let ?s = "rajomon_state_new rajomon_params_default\<lparr>window_max := 7000\<rparr>"
  have "unat (window_max ?s) = 7000" "unat (latency_threshold_us rajomon_params_default) = 5000"
    "unat (price_step_up rajomon_params_default) = 8" "unat (own_price ?s) = 0"
    by (simp_all add: rajomon_params_default_def rajomon_state_new_def)
  then show ?thesis using price_updates_follow_rule [of rajomon_params_default interface_default ?s]
    by (simp add: price_rule_def)
qed

text \<open>Beyond that the product wraps, and a longer queue may raise the price by a single token.\<close>

lemma update_prices_wraps:
  "own_price (update_prices rajomon_params_default (s\<lparr>window_max := 5000 + 2 ^ 61\<rparr>)) = saturating_add (own_price s) 1"
  by (simp add: update_prices_def rajomon_params_default_def Let_def)


section \<open>Tokens on the wire\<close>

lemma RAJOMON_valid: "valid_name RAJOMON"
  by (simp add: RAJOMON_def valid_name_def is_ascii_alphanumeric_def)

definition inbound :: "rajomon_wire option \<Rightarrow> u64" where
  "inbound w = (case w of None \<Rightarrow> DEFAULT_TOKENS | Some w \<Rightarrow> rw_tokens w)"

lemma rajomon_new_cases:
  assumes "wi_get b64 bin RAJOMON wire = Done (Inr w)"
  shows "\<exists>m s2. rajomon_new b64 bin method wire s s' = Done (m, s2) \<and> rj_rpc m = method \<and> inbound_tokens m = inbound w \<and>
    should_drop m = (inbound w < accumulated_price s method) \<and>
    (\<not> should_drop m \<longrightarrow> remaining_tokens m = inbound w - own_price s')"
  using assms by (auto simp: rajomon_new_def inbound_def Let_def)

lemma own_le_accumulated: "own_price s \<le> accumulated_price s m"
  by (simp add: accumulated_price_def saturating_add_ge)

lemma rajomon_sends_tokens:
  assumes "standard_engine b64" "bincode_total bin" "\<not> should_drop m" "child_price iter child \<le> remaining_tokens m"
  obtains out' where "rajomon_before_child_rpc b64 bin iter child m out s = Done (Inr (), out', s)"
    "\<And>child_method cs cs'. \<exists>cm cs2. rajomon_new b64 bin child_method \<lparr>wi_sections = wo_header out'\<rparr> cs cs' = Done (cm, cs2) \<and>
       inbound_tokens cm = remaining_tokens m"
proof -
  obtain out' where out: "wo_put b64 bin RAJOMON (wire_request (remaining_tokens m)) out = Done (Inr out')"
    "wi_get b64 bin RAJOMON \<lparr>wi_sections = wo_header out'\<rparr> = Done (Inr (Some (wire_request (remaining_tokens m))))"
    using put_then_get [OF assms(1,2) RAJOMON_valid] by blast
  have "inbound (Some (wire_request (remaining_tokens m))) = remaining_tokens m" by (simp add: inbound_def wire_request_def)
  with rajomon_new_cases [OF out(2)] have "\<exists>cm cs2. rajomon_new b64 bin child_method \<lparr>wi_sections = wo_header out'\<rparr> cs cs' = Done (cm, cs2) \<and>
       inbound_tokens cm = remaining_tokens m" for child_method cs cs' by metis
  moreover have "rajomon_before_child_rpc b64 bin iter child m out s = Done (Inr (), out', s)"
    using assms(3,4) out(1) by (simp add: rajomon_before_child_rpc_def)
  ultimately show thesis by (rule that [rotated])
qed


text \<open>A wire format for the module's data: eight bytes of tokens and an optional price.\<close>

definition ex_rajomon_bytes :: "rajomon_wire \<Rightarrow> u8 list" where
  "ex_rajomon_bytes w = to_le_bytes 8 (rw_tokens w) @ (case rw_price w of None \<Rightarrow> [] | Some v \<Rightarrow> to_le_bytes 8 v)"

definition ex_rajomon :: "rajomon_wire bincode" where
  "ex_rajomon = \<lparr>
     bin_serialize = (\<lambda>w. Inr (ex_rajomon_bytes w)),
     bin_serialize_into = (\<lambda>w n. if length (ex_rajomon_bytes w) \<le> n then Some (ex_rajomon_bytes w) else None),
     bin_deserialize = (\<lambda>bs. if length bs < 8 then Inl ''short'' else Inr \<lparr>rw_tokens = from_le_bytes (take 8 bs),
       rw_price = (if length bs = 8 then None else Some (from_le_bytes (drop 8 bs)))\<rparr>)\<rparr>"

lemma from_to_le_bytes_8 [simp]: "from_le_bytes (to_le_bytes 8 v) = v"
  using from_to_le_bytes [of 8 v] take_bit_length_eq [of v] by simp

lemma ex_rajomon_total: "bincode_total ex_rajomon"
  by (auto simp: bincode_total_def bincode_buffer_def bincode_inverse_def ex_rajomon_def ex_rajomon_bytes_def
      split: option.split dest: arg_cong [of _ "[]" length])


text \<open>
  With a price update between the two reads the tokens left can wrap: a request that just covers
  the old price is admitted and its children are sent with nearly all tokens there are.
\<close>

lemma rajomon_new_race:
  assumes "wi_get b64 bin RAJOMON wire = Done (Inr (Some (wire_request 100)))"
  defines "s \<equiv> rajomon_state_new rajomon_params_default\<lparr>own_price := 100, window_max := 6000\<rparr>"
  shows "\<exists>m s2. rajomon_new b64 bin method wire s (update_prices rajomon_params_default s) = Done (m, s2) \<and>
    \<not> should_drop m \<and> remaining_tokens m = - 8"
proof -
  have "accumulated_price s method = 100" by (simp add: s_def accumulated_price_def rajomon_state_new_def saturating_add_def)
  moreover have "own_price (update_prices rajomon_params_default s) = 108"
    by (simp add: s_def update_prices_def rajomon_state_new_def rajomon_params_default_def Let_def saturating_add_def)
  ultimately show ?thesis
    using rajomon_new_cases [OF assms(1), of "method" s "update_prices rajomon_params_default s"]
    by (auto simp: inbound_def wire_request_def)
qed


section \<open>The bucket under concurrency\<close>

fun spent :: "bucket_event \<Rightarrow> nat" where
  "spent (Granted price tok) = unat tok"
| "spent _ = 0"

fun supplied :: "rajomon_params \<Rightarrow> bucket_event \<Rightarrow> nat" where
  "supplied p Replenished = unat (token_update_step p)"
| "supplied p _ = 0"

fun paid :: "bucket_event \<Rightarrow> bool" where
  "paid (Granted price tok) = (price \<le> tok)"
| "paid _ = True"

text \<open>What a thread about to exchange has chosen fits what it loaded.\<close>

fun pc_ok :: "bucket_pc \<Rightarrow> bool" where
  "pc_ok (AcquireCas price current tok) = (price \<le> tok \<and> tok \<le> current)"
| "pc_ok _ = True"

definition bucket_inv :: "rajomon_params \<Rightarrow> u64 \<Rightarrow> 't bucket_world \<Rightarrow> bool" where
  "bucket_inv p level w \<longleftrightarrow>
     unat (bw_level w) + (\<Sum>e\<leftarrow>bw_log w. spent e) \<le> unat level + (\<Sum>e\<leftarrow>bw_log w. supplied p e) \<and>
     list_all paid (bw_log w) \<and> (\<forall>t. pc_ok (bw_pc w t))"

lemma acquire_choice_Some:
  assumes "acquire_choice price current draw = Some tok" "draw \<le> current"
  shows "price \<le> tok \<and> tok \<le> current"
  using assms by (auto simp: acquire_choice_def Let_def not_less split: if_splits)

lemma bucket_inv_goto: "bucket_inv p level w \<Longrightarrow> pc_ok pc \<Longrightarrow> bucket_inv p level (bw_goto t pc w)"
  by (simp add: bucket_inv_def bw_goto_def)

lemma bucket_inv_return:
  assumes "bucket_inv p level w" "unat l + spent ev \<le> unat (bw_level w) + supplied p ev" "paid ev"
  shows "bucket_inv p level (bw_return t l ev w)"
  using assms by (simp add: bucket_inv_def bw_return_def)

lemma bucket_step_inv: "bucket_step p w w' \<Longrightarrow> bucket_inv p level w \<Longrightarrow> bucket_inv p level w'"
proof (induction rule: bucket_step.induct)
  case (acquire_load w t price draw tok)
  then show ?case using acquire_choice_Some by (intro bucket_inv_goto) auto
next
  case (acquire_cas w t price current tok)
  then have "pc_ok (AcquireCas price current tok)" unfolding bucket_inv_def by metis
  then have ok: "price \<le> tok" "tok \<le> current" by simp_all
  then have "unat (current - tok) + unat tok = unat (bw_level w)"
    using acquire_cas.hyps(2) by (simp add: unat_sub word_le_nat_alt)
  then show ?case using acquire_cas.prems ok by (intro bucket_inv_return) simp_all
next
  case (deduct_cas w t n current)
  then show ?case by (intro bucket_inv_return) (simp_all add: deducted_def unat_saturating_sub)
next
  case (replenish_cas w t current)
  then show ?case by (intro bucket_inv_return) (simp_all add: replenished_def unat_saturating_add)
qed (auto intro: bucket_inv_goto bucket_inv_return)

text \<open>
  Claim C30. However threads acquire, deduct and replenish at the same time, and however often an
  exchange fails, the bucket never hands out more tokens than it started with and was given:
  what is left and what was granted stay within that sum, no count wraps below zero, and every
  grant covers the price it was asked for.
\<close>

theorem token_bucket_conserves:
  assumes "(bucket_step p)\<^sup>*\<^sup>* (bw_start level) w"
  shows "unat (bw_level w) + (\<Sum>e\<leftarrow>bw_log w. spent e) \<le> unat level + (\<Sum>e\<leftarrow>bw_log w. supplied p e) \<and>
    list_all paid (bw_log w)"
proof -
  have "bucket_inv p level (bw_start level)" by (simp add: bucket_inv_def bw_start_def)
  with assms have "bucket_inv p level w" by (induction rule: rtranclp_induct) (auto intro: bucket_step_inv)
  then show ?thesis by (simp add: bucket_inv_def)
qed

theorem token_bucket_conserves_witness:
  "\<exists>w :: bool bucket_world. (bucket_step rajomon_params_default)\<^sup>*\<^sup>* (bw_start 10) w \<and> bw_log w = [Replenished, Granted 3 4] \<and>
     unat (bw_level w) + 4 \<le> 15"
proof -
  let ?p = rajomon_params_default and ?w0 = "bw_start 10 :: bool bucket_world"
  define w1 where "w1 = bw_goto True (AcquireLoad 3) ?w0"
  define w2 where "w2 = bw_goto True (AcquireCas 3 10 4) w1"
  define w3 where "w3 = bw_goto False ReplenishLoad w2"
  define w4 where "w4 = bw_goto False (ReplenishCas 10) w3"
  define w5 where "w5 = bw_return False (replenished ?p 10) Replenished w4"
  define w6 where "w6 = bw_goto True (AcquireLoad 3) w5"
  define w7 where "w7 = bw_goto True (AcquireCas 3 15 4) w6"
  define w8 where "w8 = bw_return True (15 - 4) (Granted 3 4) w7"
  note defs = w1_def w2_def w3_def w4_def w5_def w6_def w7_def bw_start_def bw_goto_def bw_return_def
  have five: "replenished ?p 10 = 15" by (simp add: replenished_def saturating_add_def rajomon_params_default_def)
  have "bucket_step ?p ?w0 w1" unfolding w1_def by (rule call_acquire) (simp add: defs)
  moreover have "bucket_step ?p w1 w2"
    using acquire_load [of w1 True 3 4 4 ?p] by (simp add: w2_def) (simp add: defs acquire_choice_def)
  moreover have "bucket_step ?p w2 w3" unfolding w3_def by (rule call_replenish) (simp add: defs)
  moreover have "bucket_step ?p w3 w4" using replenish_load [of w3 False ?p] by (simp add: w4_def) (simp add: defs)
  moreover have "bucket_step ?p w4 w5" unfolding w5_def by (rule replenish_cas) (simp_all add: defs)
  moreover have "bucket_step ?p w5 w6" unfolding w6_def by (rule acquire_retry [where current = 10 and tok = 4]) (simp add: defs)
  moreover have "bucket_step ?p w6 w7"
    using acquire_load [of w6 True 3 4 4 ?p] by (simp add: w7_def) (simp add: defs acquire_choice_def five)
  moreover have "bucket_step ?p w7 w8" unfolding w8_def by (rule acquire_cas) (simp_all add: defs five)
  ultimately have run: "(bucket_step ?p)\<^sup>*\<^sup>* ?w0 w8" by (meson converse_rtranclp_into_rtranclp rtranclp.rtrancl_refl)
  have "bw_log w8 = [Replenished, Granted 3 4]" by (simp add: w8_def) (simp add: defs)
  with token_bucket_conserves [OF run] run show ?thesis by (intro exI [of _ w8]) (simp add: rajomon_params_default_def)
qed

section \<open>Tokens and prices of the paper's version\<close>

lemma paper_new_reads:
  assumes "wi_get b64 bin RAJOMON wire = Done (Inr (Some w))"
  shows "paper_new b64 bin err_text p method wire c = Done (\<lparr>pm_method = method, pm_tokens = Inr (rw_tokens w),
    pm_admitted = (fst (controller_total p method c) \<le> rw_tokens w)\<rparr>, snd (controller_total p method c))"
  using assms by (cases "controller_total p method c") (simp add: paper_new_def)

text \<open>
  In the paper's version a request is admitted exactly when its tokens cover the price
  of the method, and only then do its polls and its children proceed; every child reads the
  tokens of its parent unchanged. A response that carries the price, which a draw of zero selects,
  gives the caller exactly the price of the method at that moment, whatever the outcome of the call.
\<close>

theorem paper_tokens_and_prices:
  assumes "standard_engine b64" "bincode_total bin" "wi_get b64 bin RAJOMON wire = Done (Inr (Some w))"
  shows "\<exists>m c1. paper_new b64 bin err_text p method wire c = Done (m, c1) \<and>
    pm_admitted m = (fst (controller_total p method c) \<le> rw_tokens w) \<and>
    (\<forall>q. (fst (paper_before_poll q m c1) = (Inr () :: (status + unit) + unit)) = pm_admitted m) \<and>
    (\<forall>out. \<exists>r out'. paper_before_child_rpc b64 bin err_text m out = Done (r, out') \<and> (r = Inr ()) = pm_admitted m \<and>
       (r = Inr () \<longrightarrow> (\<forall>child p' c'. \<exists>cm c''.
          paper_new b64 bin err_text p' child \<lparr>wi_sections = wo_header out'\<rparr> c' = Done (cm, c'') \<and> pm_tokens cm = pm_tokens m))) \<and>
    (\<forall>out c2. 0 < price_freq p \<longrightarrow> (\<exists>out' c3. paper_finalize b64 bin p 0 m out c2 = Done (out', c3) \<and>
       (\<forall>outcome :: (status, unit) child_outcome. \<forall>caller cc. sent outcome \<noteq> None \<longrightarrow>
          paper_after_child_rpc b64 bin err_text method outcome \<lparr>wi_sections = wo_header out'\<rparr> caller cc =
            Done (Inr (), controller_learn (pm_method caller) method (fst (controller_total p method c2)) cc))))"
proof -
  define m where "m = \<lparr>pm_method = method, pm_tokens = Inr (rw_tokens w) :: status + u64, pm_admitted = (fst (controller_total p method c) \<le> rw_tokens w)\<rparr>"
  have new: "paper_new b64 bin err_text p method wire c = Done (m, snd (controller_total p method c))"
    using paper_new_reads [OF assms(3)] by (simp add: m_def)
  note put = put_then_get [OF assms(1,2) RAJOMON_valid]
  have "\<exists>r out'. paper_before_child_rpc b64 bin err_text m out = Done (r, out') \<and> (r = Inr ()) = pm_admitted m \<and>
       (r = Inr () \<longrightarrow> (\<forall>child p' c'. \<exists>cm c''.
          paper_new b64 bin err_text p' child \<lparr>wi_sections = wo_header out'\<rparr> c' = Done (cm, c'') \<and> pm_tokens cm = pm_tokens m))" for out
  proof (cases "pm_admitted m")
    case True
    obtain out' where out: "wo_put b64 bin RAJOMON (wire_request (rw_tokens w)) out = Done (Inr out')"
      "wi_get b64 bin RAJOMON \<lparr>wi_sections = wo_header out'\<rparr> = Done (Inr (Some (wire_request (rw_tokens w))))"
      using put by blast
    have "paper_before_child_rpc b64 bin err_text m out = Done (Inr (), out')"
      using True out(1) by (simp add: paper_before_child_rpc_def m_def)
    then show ?thesis using True paper_new_reads [OF out(2)]
      by (intro exI [of _ "Inr ()"] exI [of _ out']) (simp add: m_def wire_request_def)
  qed (simp add: paper_before_child_rpc_def)
  moreover have "\<exists>out' c3. paper_finalize b64 bin p 0 m out c2 = Done (out', c3) \<and>
       (\<forall>outcome :: (status, unit) child_outcome. \<forall>caller cc. sent outcome \<noteq> None \<longrightarrow>
          paper_after_child_rpc b64 bin err_text method outcome \<lparr>wi_sections = wo_header out'\<rparr> caller cc =
            Done (Inr (), controller_learn (pm_method caller) method (fst (controller_total p method c2)) cc))"
    if f: "0 < price_freq p" for out c2
  proof -
    let ?w = "\<lparr>rw_tokens = rw_tokens w, rw_price = Some (fst (controller_total p method c2))\<rparr>"
    obtain out' where "wo_put b64 bin RAJOMON ?w out = Done (Inr out')"
      "wi_get b64 bin RAJOMON \<lparr>wi_sections = wo_header out'\<rparr> = Done (Inr (Some ?w))"
      using put by blast
    then show ?thesis using f
      by (cases "controller_total p method c2") (auto simp: paper_finalize_def paper_after_child_rpc_def with_price_def m_def)
  qed
  moreover have "(fst (paper_before_poll q m c1) = (Inr () :: (status + unit) + unit)) = pm_admitted m" for q c1
    by (simp add: paper_before_poll_def m_def)
  ultimately show ?thesis
    using new by (intro exI [of _ m] exI [of _ "snd (controller_total p method c)"] conjI allI impI) (simp_all add: m_def)
qed

lemma ex_rajomon_request:
  obtains out :: wire_out
  where "wi_get ex_engine ex_rajomon RAJOMON \<lparr>wi_sections = wo_header out\<rparr> = Done (Inr (Some (wire_request t)))"
  by (rule put_then_get [OF ex_engine_standard ex_rajomon_total RAJOMON_valid])

theorem paper_tokens_and_prices_witness:
  "\<exists>(out :: wire_out) m c1. wi_get ex_engine ex_rajomon RAJOMON \<lparr>wi_sections = wo_header out\<rparr> = Done (Inr (Some (wire_request 20))) \<and>
     paper_new ex_engine ex_rajomon (\<lambda>_. '''') rajomon_params_default ex_method \<lparr>wi_sections = wo_header out\<rparr> controller_new = Done (m, c1) \<and>
     pm_admitted m"
proof -
  obtain out :: wire_out
    where out: "wi_get ex_engine ex_rajomon RAJOMON \<lparr>wi_sections = wo_header out\<rparr> = Done (Inr (Some (wire_request 20)))"
    by (rule ex_rajomon_request)
  have "fst (controller_total rajomon_params_default ex_method controller_new) \<le> rw_tokens (wire_request 20)"
    by (simp add: controller_total_def controller_new_def interface_total_def interface_default_def rajomon_params_default_def
        wire_request_def saturating_add_def)
  moreover obtain m c1 where "paper_new ex_engine ex_rajomon (\<lambda>_. '''') rajomon_params_default ex_method
        \<lparr>wi_sections = wo_header out\<rparr> controller_new = Done (m, c1)"
      "pm_admitted m = (fst (controller_total rajomon_params_default ex_method controller_new) \<le> rw_tokens (wire_request 20))"
    using paper_tokens_and_prices [OF ex_engine_standard ex_rajomon_total out, of "\<lambda>_. ''''" rajomon_params_default ex_method controller_new]
    by (elim exE conjE) rule
  ultimately show ?thesis using out by (intro exI [of _ out] exI [of _ m] exI [of _ c1]) simp
qed

text \<open>A method first seen through a queue or a child's price starts at zero, not at the initial price.\<close>

lemma observed_first_starts_at_zero:
  "fst (controller_total p m (controller_observe m q controller_new)) = 0"
  "fst (controller_total p m controller_new) = init_price p"
  by (simp_all add: controller_total_def controller_observe_def controller_new_def or_default_def interface_default_def
      interface_total_def Let_def saturating_add_def)

end
