(* ===== verification/Tail_Clipper.thy ===== *)
theory Tail_Clipper
  imports Policy_Modules Sched_Queues
begin

text \<open>
  The TailClipper module, \<open>libs/tailclipper/src/lib.rs\<close>, which carries a request's arrival time
  down its call tree, and the place where the HTTP server turns the header it writes into the
  priority of a stream's task (\<open>libs/hyper/src/common/exec.rs\<close>). The clock is an argument.
\<close>

section \<open>The module\<close>

record tailclipper_wire =
  arrival_ns :: u64

text \<open>Nanoseconds since the epoch, zero before it.\<close>

definition tailclipper_now :: "u128 \<Rightarrow> tailclipper_wire" where
  "tailclipper_now nanos = \<lparr>arrival_ns = ucast (min (max nanos 1) (ucast (- 1 :: u64)))\<rparr>"

definition TAILCLIPPER :: string where
  "TAILCLIPPER = ''tailclipper''"

record tailclipper_module =
  tcm_arrival :: "status + tailclipper_wire"

definition annotate :: "base64_engine \<Rightarrow> tailclipper_wire bincode \<Rightarrow> 'm metadata_ops \<Rightarrow> (wire_error \<Rightarrow> string) \<Rightarrow>
    'm \<Rightarrow> wire_out \<Rightarrow> tailclipper_wire \<Rightarrow> ((status + unit) \<times> 'm \<times> wire_out) exec" where
  "annotate b64 bin ops err_text metadata wire arrival =
     (if arrival_ns arrival = 0 then Done (Inl (Status InvalidArgument ''zero TailClipper arrival time''), metadata, wire)
      else
        map_exec (\<lambda>r. case r of
            Inl e \<Rightarrow> (Inl (Status Internal (err_text e)), metadata, wire)
          | Inr wire' \<Rightarrow>
              let key = show_nat (unat (arrival_ns arrival)) in
              if md_value_ok ops key then (Inr (), md_insert ops metadata SCHEDULING_HEADER key, wire')
              else (Inl (Status Internal ''invalid scheduling key''), metadata, wire'))
          (wo_put b64 bin TAILCLIPPER arrival wire))"

definition tailclipper_before_root_rpc :: "base64_engine \<Rightarrow> tailclipper_wire bincode \<Rightarrow> 'm metadata_ops \<Rightarrow> (wire_error \<Rightarrow> string) \<Rightarrow>
    u128 \<Rightarrow> 'm \<Rightarrow> wire_out \<Rightarrow> ((status + unit) \<times> 'm \<times> wire_out) exec" where
  "tailclipper_before_root_rpc b64 bin ops err_text nanos metadata wire =
     bind_exec (case wi_from_metadata ops metadata of Inl e \<Rightarrow> Done (Inl e) | Inr w \<Rightarrow> wi_get b64 bin TAILCLIPPER w) (\<lambda>r. case r of
         Inl e \<Rightarrow> Done (Inl (Status InvalidArgument (err_text e)), metadata, wire)
       | Inr w \<Rightarrow> annotate b64 bin ops err_text metadata wire (case w of Some w \<Rightarrow> w | None \<Rightarrow> tailclipper_now nanos))"

definition tailclipper_new :: "base64_engine \<Rightarrow> tailclipper_wire bincode \<Rightarrow> (wire_error \<Rightarrow> string) \<Rightarrow> u128 \<Rightarrow> wire_in \<Rightarrow>
    tailclipper_module exec" where
  "tailclipper_new b64 bin err_text nanos wire =
     map_exec (\<lambda>r. \<lparr>tcm_arrival = (case r of
           Inl e \<Rightarrow> Inl (Status InvalidArgument (err_text e))
         | Inr w \<Rightarrow>
             let a = (case w of Some w \<Rightarrow> w | None \<Rightarrow> tailclipper_now nanos) in
             if arrival_ns a = 0 then Inl (Status InvalidArgument ''zero TailClipper arrival time'') else Inr a)\<rparr>)
       (wi_get b64 bin TAILCLIPPER wire)"

text \<open>The second component is what the task is reprioritized to, if at all.\<close>

definition tailclipper_before_poll :: "tailclipper_module \<Rightarrow> ((status + 'p) + unit) \<times> meta option" where
  "tailclipper_before_poll m =
     (case tcm_arrival m of Inr w \<Rightarrow> (Inr (), Some (Meta (arrival_ns w))) | Inl status \<Rightarrow> (Inl (Inl status), None))"

definition tailclipper_before_child_rpc :: "base64_engine \<Rightarrow> tailclipper_wire bincode \<Rightarrow> 'm metadata_ops \<Rightarrow> (wire_error \<Rightarrow> string) \<Rightarrow>
    tailclipper_module \<Rightarrow> 'm \<Rightarrow> wire_out \<Rightarrow> ((status + unit) \<times> 'm \<times> wire_out) exec" where
  "tailclipper_before_child_rpc b64 bin ops err_text m metadata wire =
     (case tcm_arrival m of
        Inl status \<Rightarrow> Done (Inl status, metadata, wire)
      | Inr arrival \<Rightarrow> annotate b64 bin ops err_text metadata wire arrival)"

text \<open>One poll of \<open>yield_slice\<close>: its result, whether it wakes its own task, and its state after.\<close>

definition yield_slice_poll :: "bool \<Rightarrow> unit poll \<times> bool \<times> bool" where
  "yield_slice_poll yielded = (if yielded then (PollReady (), False, True) else (PollPending, True, True))"

section \<open>The priority of a stream\<close>

datatype exec_kind = DefaultExec | CustomExec

definition h2_stream_priority :: "base64_engine \<Rightarrow> context_compact bincode \<Rightarrow> 'h http_ops \<Rightarrow> exec_kind \<Rightarrow> 'h \<Rightarrow> meta exec" where
  "h2_stream_priority b64 bin http kind headers =
     (case kind of
        DefaultExec \<Rightarrow>
          (case (case http_get http headers SCHEDULING_HEADER of
                   None \<Rightarrow> None
                 | Some v \<Rightarrow> (case http_to_str http v of
                      Inl _ \<Rightarrow> None
                    | Inr s \<Rightarrow> (case parse_u64 s of Inl _ \<Rightarrow> None | Inr n \<Rightarrow> Some n))) of
             Some n \<Rightarrow> Done (Meta n)
           | None \<Rightarrow> map_exec (\<lambda>h. Meta (hint_value h)) (read_priority_from_headers b64 bin http headers))
      | CustomExec \<Rightarrow> Done (meta_for_unannotated_spawn None))"

section \<open>The arrival time of a call tree\<close>

text \<open>
  What the header maps promise beyond reading back what was written: writing one name leaves the
  others alone, and a value of visible ASCII is a text.
\<close>

definition metadata_frame :: "'m metadata_ops \<Rightarrow> bool" where
  "metadata_frame ops \<longleftrightarrow>
     (\<forall>m k j v. j \<noteq> k \<longrightarrow> md_get ops (md_insert ops m k v) j = md_get ops m j \<and> md_get ops (md_remove ops m k) j = md_get ops m j)"

definition header_text :: "'h http_ops \<Rightarrow> bool" where
  "header_text http \<longleftrightarrow> (\<forall>v. list_all visible_ascii v \<longrightarrow> http_to_str http v = Inr v)"

lemma TAILCLIPPER_valid: "valid_name TAILCLIPPER"
  by (simp add: TAILCLIPPER_def valid_name_def is_ascii_alphanumeric_def)

lemma show_nat_ascii: "list_all visible_ascii (show_nat n)"
proof -
  have "visible_ascii c" if "c \<in> set (show_nat n)" for c
    using show_nat_digits [of n] that by (auto simp: list_all_iff is_digit_def visible_ascii_def)
  then show ?thesis by (simp add: list_all_iff)
qed

lemma stamped_nonzero: "arrival_ns (tailclipper_now nanos) \<noteq> 0"
proof -
  define y where "y = min (max nanos 1) (ucast (- 1 :: u64))"
  have y: "unat y = min (max (unat nanos) 1) (2 ^ 64 - 1)" by (simp add: y_def unat_min unat_max unat_minus_one_word)
  then have "unat (ucast y :: u64) = unat y" by (intro unat_ucast_64) simp
  then have "unat (ucast y :: u64) \<noteq> 0" using y by simp
  then show ?thesis by (auto simp: tailclipper_now_def y_def)
qed

lemma annotate_written:
  assumes "standard_engine b64" "bincode_total bin" "metadata_laws ops" "arrival_ns a \<noteq> 0"
  obtains out' where "annotate b64 bin ops err_text md out a =
      Done (Inr (), md_insert ops md SCHEDULING_HEADER (show_nat (unat (arrival_ns a))), out')"
    "wi_get b64 bin TAILCLIPPER \<lparr>wi_sections = wo_header out'\<rparr> = Done (Inr (Some a))"
proof -
  obtain out' where out: "wo_put b64 bin TAILCLIPPER a out = Done (Inr out')"
    "wi_get b64 bin TAILCLIPPER \<lparr>wi_sections = wo_header out'\<rparr> = Done (Inr (Some a))"
    by (rule put_then_get [OF assms(1,2) TAILCLIPPER_valid])
  have "md_value_ok ops (show_nat (unat (arrival_ns a)))"
    using assms(3) show_nat_ascii [of "unat (arrival_ns a)"] unfolding metadata_laws_def list_all_iff by metis
  then show thesis using out assms(4) by (intro that [of out']) (simp_all add: annotate_def)
qed

lemma stream_priority_of_key:
  assumes "header_text http" "http_get http headers SCHEDULING_HEADER = Some (show_nat (unat (n :: u64)))"
  shows "h2_stream_priority b64 cbin http DefaultExec headers = Done (Meta n)"
proof -
  have "http_to_str http (show_nat (unat n)) = Inr (show_nat (unat n))" using assms(1) show_nat_ascii by (simp add: header_text_def)
  moreover have "parse_u64 (show_nat (unat n)) = Inr n" using parse_u64_show [OF unat_u64_less [of n]] by simp
  ultimately show ?thesis using assms(2) by (simp add: h2_stream_priority_def)
qed

lemma tailclipper_new_arrival:
  assumes "tailclipper_new b64 bin err_text nanos wire = Done m"
  shows "\<exists>r. wi_get b64 bin TAILCLIPPER wire = Done r \<and> tcm_arrival m = (case r of
      Inl e \<Rightarrow> Inl (Status InvalidArgument (err_text e))
    | Inr (Some a) \<Rightarrow> if arrival_ns a = 0 then Inl (Status InvalidArgument ''zero TailClipper arrival time'') else Inr a
    | Inr None \<Rightarrow> Inr (tailclipper_now nanos))"
proof -
  obtain r where "wi_get b64 bin TAILCLIPPER wire = Done r" using assms by (auto simp: tailclipper_new_def exec_simps)
  then show ?thesis using assms stamped_nonzero [of nanos]
    by (auto simp: tailclipper_new_def Let_def split: sum.split option.split)
qed

text \<open>
  Claim C31. The arrival time is the same everywhere below the root. A request whose data does not
  decode, or whose arrival is zero, is refused: at every poll, and with every child RPC. Any other
  keeps the arrival it carries, or, when it carries none, the server's clock, which is never stamped
  as zero; every poll reprioritizes its task to it, every child RPC carries it so that the child's
  module is the parent's, and the task that the default executor of the child's server spawns for
  the stream gets it as its priority before any module runs, whatever the other headers are.
\<close>

theorem tailclipper_arrival_kept:
  assumes "standard_engine b64" "bincode_total bin" "metadata_laws ops" "metadata_frame ops" "header_text http"
    and "tailclipper_new b64 bin err_text nanos wire = Done m"
  shows "(\<exists>r. wi_get b64 bin TAILCLIPPER wire = Done r \<and> tcm_arrival m = (case r of
      Inl e \<Rightarrow> Inl (Status InvalidArgument (err_text e))
    | Inr (Some a) \<Rightarrow> if arrival_ns a = 0 then Inl (Status InvalidArgument ''zero TailClipper arrival time'') else Inr a
    | Inr None \<Rightarrow> Inr (tailclipper_now nanos))) \<and>
    (case tcm_arrival m of
      Inl status \<Rightarrow> fst (tailclipper_before_poll m) = (Inl (Inl status) :: (status + unit) + unit) \<and>
        (\<forall>md out. tailclipper_before_child_rpc b64 bin ops err_text m md out = Done (Inl status, md, out))
    | Inr a \<Rightarrow> arrival_ns a \<noteq> 0 \<and> tailclipper_before_poll m = (Inr () :: (status + unit) + unit, Some (Meta (arrival_ns a))) \<and>
        (\<forall>md out. \<exists>md' out'. tailclipper_before_child_rpc b64 bin ops err_text m md out = Done (Inr (), md', out') \<and>
           (\<forall>later. tailclipper_new b64 bin err_text later \<lparr>wi_sections = wo_header out'\<rparr> = Done m) \<and>
           (\<forall>md'' headers. wo_install ops out' md' = Done md'' \<longrightarrow>
              http_get http headers SCHEDULING_HEADER = md_get ops md'' SCHEDULING_HEADER \<longrightarrow>
              h2_stream_priority b64 cbin http DefaultExec headers = Done (Meta (arrival_ns a)))))"
    (is "?arrival \<and> ?kept")
proof
  show ?arrival by (rule tailclipper_new_arrival [OF assms(6)])
  obtain r where r: "wi_get b64 bin TAILCLIPPER wire = Done r"
    using assms(6) by (auto simp: tailclipper_new_def exec_simps)
  show ?kept
  proof (cases "tcm_arrival m")
    case (Inl status)
    then show ?thesis by (simp add: tailclipper_before_poll_def tailclipper_before_child_rpc_def)
  next
    case (Inr a)
    have a: "arrival_ns a \<noteq> 0"
      using assms(6) Inr r by (cases r) (auto simp: tailclipper_new_def Let_def split: if_splits)
    have "\<exists>md' out'. tailclipper_before_child_rpc b64 bin ops err_text m md out = Done (Inr (), md', out') \<and>
        (\<forall>later. tailclipper_new b64 bin err_text later \<lparr>wi_sections = wo_header out'\<rparr> = Done m) \<and>
        (\<forall>md'' headers. wo_install ops out' md' = Done md'' \<longrightarrow>
           http_get http headers SCHEDULING_HEADER = md_get ops md'' SCHEDULING_HEADER \<longrightarrow>
           h2_stream_priority b64 cbin http DefaultExec headers = Done (Meta (arrival_ns a)))" for md out
    proof -
      let ?key = "show_nat (unat (arrival_ns a))"
      let ?md = "md_insert ops md SCHEDULING_HEADER ?key"
      obtain out' where out: "annotate b64 bin ops err_text md out a = Done (Inr (), ?md, out')"
        "wi_get b64 bin TAILCLIPPER \<lparr>wi_sections = wo_header out'\<rparr> = Done (Inr (Some a))"
        by (rule annotate_written [OF assms(1-3) a])
      have ok: "md_value_ok ops ?key"
        using assms(3) show_nat_ascii [of "unat (arrival_ns a)"] unfolding metadata_laws_def list_all_iff by metis
      then have key: "md_get ops ?md SCHEDULING_HEADER = Some ?key" using assms(3) by (simp add: metadata_laws_def)
      have "SCHEDULING_HEADER \<noteq> HEADER_NAME" by (simp add: SCHEDULING_HEADER_def HEADER_NAME_def)
      then have "md_get ops md'' SCHEDULING_HEADER = Some ?key" if "wo_install ops out' ?md = Done md''" for md''
        using that assms(4) key by (auto simp: wo_install_def metadata_frame_def split: if_splits)
      moreover have "tailclipper_new b64 bin err_text later \<lparr>wi_sections = wo_header out'\<rparr> = Done m" for later
        using out(2) Inr a by (cases m) (simp add: tailclipper_new_def)
      ultimately show ?thesis using out(1) Inr stream_priority_of_key [OF assms(5)]
        by (intro exI [of _ ?md] exI [of _ out']) (simp add: tailclipper_before_child_rpc_def)
    qed
    then show ?thesis using Inr a by (simp add: tailclipper_before_poll_def)
  qed
qed

definition ex_tailclipper :: "tailclipper_wire bincode" where
  "ex_tailclipper = \<lparr>
     bin_serialize = (\<lambda>w. Inr (to_le_bytes 8 (arrival_ns w))),
     bin_serialize_into = (\<lambda>w n. if 8 \<le> n then Some (to_le_bytes 8 (arrival_ns w)) else None),
     bin_deserialize = (\<lambda>bs. Inr \<lparr>arrival_ns = from_le_bytes bs\<rparr>)\<rparr>"

lemma ex_tailclipper_total: "bincode_total ex_tailclipper"
proof -
  have "from_le_bytes (to_le_bytes 8 v) = v" for v using from_to_le_bytes [of 8 v] take_bit_length_eq [of v] by simp
  then show ?thesis by (simp add: bincode_total_def bincode_buffer_def bincode_inverse_def ex_tailclipper_def)
qed

lemma ex_metadata_frame: "metadata_frame ex_metadata"
proof -
  have "map_of (filter P (filter (\<lambda>kv. fst kv \<noteq> k) m)) j = map_of (filter P m) j" if "j \<noteq> k"
    for P :: "string \<times> string \<Rightarrow> bool" and m j k using that by (induction m) auto
  then show ?thesis by (simp add: metadata_frame_def ex_metadata_def)
qed

lemma ex_http_text: "header_text ex_http"
  by (simp add: header_text_def ex_http_def)

theorem tailclipper_arrival_kept_witness:
  "\<exists>m md' out'. tailclipper_new ex_engine ex_tailclipper (\<lambda>_. '''') 5 wi_default = Done m \<and>
     fst (tailclipper_before_poll m) = (Inr () :: (status + unit) + unit) \<and>
     tailclipper_before_child_rpc ex_engine ex_tailclipper ex_metadata (\<lambda>_. '''') m [] wo_new = Done (Inr (), md', out') \<and>
     tailclipper_new ex_engine ex_tailclipper (\<lambda>_. '''') 9 \<lparr>wi_sections = wo_header out'\<rparr> = Done m"
proof -
  have "find_section '''' TAILCLIPPER = None" by code_simp
  then have m: "tailclipper_new ex_engine ex_tailclipper (\<lambda>_. '''') 5 wi_default = Done \<lparr>tcm_arrival = Inr (tailclipper_now 5)\<rparr>"
    using stamped_nonzero [of 5] by (simp add: tailclipper_new_def wi_get_def decode_present_def wi_default_def)
  let ?m = "\<lparr>tcm_arrival = Inr (tailclipper_now 5)\<rparr>"
  from tailclipper_arrival_kept [OF ex_engine_standard ex_tailclipper_total ex_metadata_laws ex_metadata_frame ex_http_text m,
      where cbin = ex_compact]
  have "fst (tailclipper_before_poll ?m) = (Inr () :: (status + unit) + unit)"
    "\<exists>md' out'. tailclipper_before_child_rpc ex_engine ex_tailclipper ex_metadata (\<lambda>_. '''') ?m [] wo_new = Done (Inr (), md', out') \<and>
       (\<forall>later. tailclipper_new ex_engine ex_tailclipper (\<lambda>_. '''') later \<lparr>wi_sections = wo_header out'\<rparr> = Done ?m)"
    by (simp, simp) blast
  then show ?thesis using m by blast
qed

end
