(* ===== verification/Estimators.thy ===== *)
theory Estimators
  imports Prelude
begin

text \<open>
  The latency estimators with integer arithmetic, \<open>libs/masa-core/src/latency_estimator\<close>
  (\<open>ewma.rs\<close>, \<open>rms.rs\<close>, \<open>histogram.rs\<close>), behind their common trait (\<open>mod.rs\<close>), and the
  map from keys to estimators that the estimation module keeps,
  \<open>libs/masa-policy/src/module/est/latency_map.rs\<close>. Arithmetic is at its width and wraps as in a
  release build; a division by zero, an index out of range and a failed assertion panic. The
  trait is the record \<open>estimator_ops\<close>; what the map relies on is the locale
  \<open>latency_estimator\<close>, which each of the three estimators interprets.
\<close>

section \<open>The trait\<close>

record 'e estimator_ops =
  e_default :: "'e exec"
  e_track :: "u64 \<Rightarrow> 'e \<Rightarrow> 'e exec"
  e_can_estimate :: "'e \<Rightarrow> bool"
  e_estimate :: "'e \<Rightarrow> u64 exec"
  e_mean_estimate :: "'e \<Rightarrow> u64 exec"
  e_mean_floor_estimate :: "'e \<Rightarrow> u64 exec"
  e_last_observation_us :: "'e \<Rightarrow> u64"

text \<open>An estimator that implements only the required methods takes the default ones.\<close>

definition with_defaults :: "'e exec \<Rightarrow> (u64 \<Rightarrow> 'e \<Rightarrow> 'e exec) \<Rightarrow> ('e \<Rightarrow> bool) \<Rightarrow> ('e \<Rightarrow> u64 exec) \<Rightarrow> 'e estimator_ops" where
  "with_defaults dflt track can est = \<lparr>e_default = dflt, e_track = track, e_can_estimate = can, e_estimate = est,
     e_mean_estimate = est, e_mean_floor_estimate = est, e_last_observation_us = (\<lambda>_. 0)\<rparr>"

section \<open>Exponentially weighted moving average\<close>

record latency_ewma =
  alpha_num :: u64
  alpha_den :: u64
  ewma :: u64
  has_sample :: bool

definition ewma_new :: "u64 \<Rightarrow> u64 \<Rightarrow> latency_ewma exec" where
  "ewma_new num den =
     (if 0 < num \<and> num < den then Done \<lparr>alpha_num = num, alpha_den = den, ewma = 0, has_sample = False\<rparr> else Panic)"

definition ewma_track :: "u64 \<Rightarrow> latency_ewma \<Rightarrow> latency_ewma exec" where
  "ewma_track value e =
     (if \<not> has_sample e then Done (e\<lparr>ewma := value, has_sample := True\<rparr>)
      else if alpha_den e = 0 then Panic
      else
        let new_ewma = (ucast (alpha_num e) * ucast value + ucast (alpha_den e - alpha_num e) * ucast (ewma e) :: u128)
              div ucast (alpha_den e) in
        Done (e\<lparr>ewma := ucast new_ewma\<rparr>))"

definition ewma_can_estimate :: "latency_ewma \<Rightarrow> bool" where
  "ewma_can_estimate e = has_sample e"

definition ewma_estimate :: "latency_ewma \<Rightarrow> u64 exec" where
  "ewma_estimate e = Done (ewma e)"

definition ewma_default :: "latency_ewma exec" where
  "ewma_default = ewma_new 1 8"

definition ewma_ops :: "latency_ewma estimator_ops" where
  "ewma_ops = with_defaults ewma_default ewma_track ewma_can_estimate ewma_estimate"

section \<open>Root mean square\<close>

text \<open>The loop of Newton's method; dividing by zero panics.\<close>

function isqrt_loop :: "u128 \<Rightarrow> u128 \<Rightarrow> u128 \<Rightarrow> u128 exec" where
  "isqrt_loop n x y =
     (if y < x then (if y = 0 then Panic else isqrt_loop n y ((y + n div y) div 2)) else Done x)"
  by pat_completeness auto
termination
  by (relation "measure (\<lambda>(n, x, y). unat x)") (auto simp: word_less_nat_alt)

declare isqrt_loop.simps [simp del]

definition integer_sqrt :: "u128 \<Rightarrow> u128 exec" where
  "integer_sqrt n =
     (if n = 0 then Done 0
      else if n < 4 then Done 1
      else isqrt_loop n n ((n + 1) div 2))"

record latency_rms =
  sum_squares :: u128
  rms_count :: u64
  rms :: u64
  update_interval :: u64
  since_last_update :: u64

definition rms_new :: "u64 \<Rightarrow> latency_rms exec" where
  "rms_new interval =
     (if 1 \<le> interval then
        Done \<lparr>sum_squares = 0, rms_count = 0, rms = 0, update_interval = interval, since_last_update = 0\<rparr>
      else Panic)"

definition update_rms :: "latency_rms \<Rightarrow> latency_rms exec" where
  "update_rms e =
     (if rms_count e = 0 then Done (e\<lparr>rms := 0\<rparr>)
      else map_exec (\<lambda>r. e\<lparr>rms := ucast r\<rparr>) (integer_sqrt (sum_squares e div ucast (rms_count e))))"

definition rms_track :: "u64 \<Rightarrow> latency_rms \<Rightarrow> latency_rms exec" where
  "rms_track value e =
     (let e1 = e\<lparr>sum_squares := sum_squares e + ucast value * ucast value, rms_count := rms_count e + 1,
            since_last_update := since_last_update e + 1\<rparr> in
      if update_interval e1 \<le> since_last_update e1 then
        map_exec (\<lambda>e2. e2\<lparr>since_last_update := 0\<rparr>) (update_rms e1)
      else Done e1)"

definition rms_can_estimate :: "latency_rms \<Rightarrow> bool" where
  "rms_can_estimate e \<longleftrightarrow> 0 < rms_count e"

definition rms_estimate :: "latency_rms \<Rightarrow> u64 exec" where
  "rms_estimate e = Done (rms e)"

definition rms_default :: "latency_rms exec" where
  "rms_default = rms_new 512"

definition rms_ops :: "latency_rms estimator_ops" where
  "rms_ops = with_defaults rms_default rms_track rms_can_estimate rms_estimate"

section \<open>Histogram\<close>

definition PERCENTILE :: nat where
  "PERCENTILE = 50"

record latency_distribution =
  dist_name :: string
  dist_capacity :: nat
  cur_queue :: "u64 list"
  prev_queue :: "u64 list"
  dist_mean :: u64
  percentiles :: "u64 list"

definition dist_new :: "string \<Rightarrow> nat \<Rightarrow> latency_distribution exec" where
  "dist_new name capacity =
     (if 100 \<le> capacity then
        Done \<lparr>dist_name = name, dist_capacity = capacity, cur_queue = [], prev_queue = [], dist_mean = 0, percentiles = []\<rparr>
      else Panic)"

text \<open>Indexing a vector: out of range panics.\<close>

definition index :: "'a list \<Rightarrow> nat \<Rightarrow> 'a exec" where
  "index xs i = (if i < length xs then Done (xs ! i) else Panic)"

fun push_percentiles :: "u64 list \<Rightarrow> nat list \<Rightarrow> u64 list \<Rightarrow> u64 list exec" where
  "push_percentiles values [] ps = Done ps"
| "push_percentiles values (i # is) ps =
     bind_exec (index values (length values * i div 100)) (\<lambda>v. push_percentiles values is (ps @ [v]))"

definition dist_update :: "latency_distribution \<Rightarrow> latency_distribution exec" where
  "dist_update d =
     (let values = sort (prev_queue d @ cur_queue d) in
      if values = [] then Panic
      else map_exec (\<lambda>ps. d\<lparr>dist_mean := sum_list values div of_nat (length values), percentiles := ps\<rparr>)
        (push_percentiles values [0..<100] []))"

definition dist_track :: "u64 \<Rightarrow> latency_distribution \<Rightarrow> latency_distribution exec" where
  "dist_track value d =
     (let d1 = d\<lparr>cur_queue := cur_queue d @ [value]\<rparr> in
      if dist_capacity d1 \<le> length (cur_queue d1) then
        map_exec (\<lambda>d2. d2\<lparr>prev_queue := cur_queue d2, cur_queue := []\<rparr>) (dist_update d1)
      else Done d1)"

definition percentile :: "nat \<Rightarrow> latency_distribution \<Rightarrow> u64 exec" where
  "percentile p d = (if p < 100 then index (percentiles d) p else Panic)"

definition dist_can_estimate :: "latency_distribution \<Rightarrow> bool" where
  "dist_can_estimate d \<longleftrightarrow> 0 < length (percentiles d)"

definition dist_estimate :: "latency_distribution \<Rightarrow> u64 exec" where
  "dist_estimate d = (if length (percentiles d) = 0 then Done (dist_mean d) else percentile PERCENTILE d)"

definition dist_default :: "latency_distribution exec" where
  "dist_default = dist_new '''' 512"

definition dist_ops :: "latency_distribution estimator_ops" where
  "dist_ops = with_defaults dist_default dist_track dist_can_estimate dist_estimate"

section \<open>The map of estimators\<close>

type_synonym ('k, 'e) latency_map = "'k \<rightharpoonup> 'e"

definition lm_new :: "('k, 'e) latency_map" where
  "lm_new = Map.empty"

definition lm_get_estimate_with ::
    "'e estimator_ops \<Rightarrow> ('e \<Rightarrow> 'r exec) \<Rightarrow> 'k \<Rightarrow> ('k, 'e) latency_map \<Rightarrow> ('r option \<times> ('k, 'e) latency_map) exec" where
  "lm_get_estimate_with ops extract key m =
     (case m key of
        Some e \<Rightarrow> if e_can_estimate ops e then map_exec (\<lambda>v. (Some v, m)) (extract e) else Done (None, m)
      | None \<Rightarrow> map_exec (\<lambda>e. (None, m(key \<mapsto> e))) (e_default ops))"

definition lm_get_estimate :: "'e estimator_ops \<Rightarrow> 'k \<Rightarrow> ('k, 'e) latency_map \<Rightarrow> (u64 option \<times> ('k, 'e) latency_map) exec" where
  "lm_get_estimate ops = lm_get_estimate_with ops (e_estimate ops)"

definition lm_get_mean_estimate :: "'e estimator_ops \<Rightarrow> 'k \<Rightarrow> ('k, 'e) latency_map \<Rightarrow> (u64 option \<times> ('k, 'e) latency_map) exec" where
  "lm_get_mean_estimate ops = lm_get_estimate_with ops (e_mean_estimate ops)"

definition lm_get_mean_floor_estimate ::
    "'e estimator_ops \<Rightarrow> 'k \<Rightarrow> ('k, 'e) latency_map \<Rightarrow> (u64 option \<times> ('k, 'e) latency_map) exec" where
  "lm_get_mean_floor_estimate ops = lm_get_estimate_with ops (e_mean_floor_estimate ops)"

record estimates_pack =
  pack_mean :: u64
  pack_floor :: u64
  pack_last_observation_us :: u64

definition lm_get_estimates_pack ::
    "'e estimator_ops \<Rightarrow> 'k \<Rightarrow> ('k, 'e) latency_map \<Rightarrow> (estimates_pack option \<times> ('k, 'e) latency_map) exec" where
  "lm_get_estimates_pack ops = lm_get_estimate_with ops
     (\<lambda>e. bind_exec (e_mean_estimate ops e) (\<lambda>mean. map_exec (\<lambda>floor.
        \<lparr>pack_mean = mean, pack_floor = floor, pack_last_observation_us = e_last_observation_us ops e\<rparr>)
        (e_mean_floor_estimate ops e)))"

definition lm_track :: "'e estimator_ops \<Rightarrow> 'k \<Rightarrow> u64 \<Rightarrow> ('k, 'e) latency_map \<Rightarrow> ('k, 'e) latency_map exec" where
  "lm_track ops key duration m =
     bind_exec (case m key of Some e \<Rightarrow> Done e | None \<Rightarrow> e_default ops)
       (\<lambda>e. map_exec (\<lambda>e'. m(key \<mapsto> e')) (e_track ops duration e))"

section \<open>The moving average\<close>

lemma weighted_mean_bounds:
  fixes a d v s :: nat
  assumes "a \<le> d" "0 < d"
  shows "min v s \<le> (a * v + (d - a) * s) div d" "(a * v + (d - a) * s) div d \<le> max v s"
proof -
  have "d * min v s = a * min v s + (d - a) * min v s" using assms(1) by (metis add_mult_distrib le_add_diff_inverse)
  also have "\<dots> \<le> a * v + (d - a) * s" by (intro add_mono mult_le_mono2) simp_all
  finally show "min v s \<le> (a * v + (d - a) * s) div d" using assms(2) by (simp add: less_eq_div_iff_mult_less_eq mult.commute)
  have "a * v + (d - a) * s \<le> a * max v s + (d - a) * max v s" by (intro add_mono mult_le_mono2) simp_all
  also have "\<dots> = d * max v s" using assms(1) by (metis add_mult_distrib le_add_diff_inverse)
  finally show "(a * v + (d - a) * s) div d \<le> max v s" using assms(2) by (simp add: div_le_mono [THEN order_trans])
qed

definition ewma_ok :: "latency_ewma \<Rightarrow> bool" where
  "ewma_ok e \<longleftrightarrow> 0 < alpha_num e \<and> alpha_num e < alpha_den e"

text \<open>With the intermediate products in 128 bits no step wraps: it is the weighted mean, rounded down.\<close>

lemma ewma_track_exact:
  assumes "ewma_ok e" "has_sample e"
  shows "\<exists>e'. ewma_track value e = Done e' \<and> ewma_ok e' \<and> has_sample e' \<and>
    unat (ewma e') = (unat (alpha_num e) * unat value + (unat (alpha_den e) - unat (alpha_num e)) * unat (ewma e)) div unat (alpha_den e)"
proof -
  let ?a = "unat (alpha_num e)" and ?d = "unat (alpha_den e)" and ?v = "unat value" and ?s = "unat (ewma e)"
  have ad: "?a < ?d" "0 < ?d" using assms(1) by (auto simp: ewma_ok_def word_less_nat_alt)
  have diff: "unat (alpha_den e - alpha_num e) = ?d - ?a" using ad by (simp add: unat_sub_if_size)
  have lt: "?d < 2 ^ 64" "?v < 2 ^ 64" "?s < 2 ^ 64"
    using unsigned_less [of "alpha_den e"] unsigned_less [of "value"] unsigned_less [of "ewma e"] by simp_all
  have total: "?a * ?v + (?d - ?a) * ?s \<le> ?d * max ?v ?s"
  proof -
    have "?a * ?v + (?d - ?a) * ?s \<le> ?a * max ?v ?s + (?d - ?a) * max ?v ?s" by (intro add_mono mult_le_mono2) simp_all
    also have "\<dots> = ?d * max ?v ?s" using ad by (metis add_mult_distrib le_add_diff_inverse less_imp_le)
    finally show ?thesis .
  qed
  have "?d * max ?v ?s < 2 ^ 64 * 2 ^ 64" using lt ad by (intro mult_strict_mono) auto
  then have fits: "?a * ?v + (?d - ?a) * ?s < 2 ^ 128" using total by simp
  let ?w = "ucast (alpha_num e) * ucast value + ucast (alpha_den e - alpha_num e) * ucast (ewma e) :: u128"
  have p: "unat (ucast (alpha_num e) * ucast value :: u128) = ?a * ?v"
    "unat (ucast (alpha_den e - alpha_num e) * ucast (ewma e) :: u128) = (?d - ?a) * ?s"
    using fits by (simp_all add: unat_mult_lem [THEN iffD1] diff)
  have "unat ?w = ?a * ?v + (?d - ?a) * ?s" using fits p by (simp add: unat_add_lem [THEN iffD1])
  then have q: "unat (?w div ucast (alpha_den e)) = (?a * ?v + (?d - ?a) * ?s) div ?d" by (simp add: unat_div)
  moreover have "(?a * ?v + (?d - ?a) * ?s) div ?d < 2 ^ 64"
    using weighted_mean_bounds(2) [of ?a ?d ?v ?s] ad lt by (simp add: less_le_trans)
  ultimately have "unat (ucast (?w div ucast (alpha_den e)) :: u64) = (?a * ?v + (?d - ?a) * ?s) div ?d"
    using unat_ucast_64 by simp
  moreover have "alpha_den e \<noteq> 0" using ad by auto
  ultimately show ?thesis using assms by (simp add: ewma_track_def Let_def ewma_ok_def)
qed

fun track_all :: "(u64 \<Rightarrow> 'e \<Rightarrow> 'e exec) \<Rightarrow> u64 list \<Rightarrow> 'e \<Rightarrow> 'e exec" where
  "track_all track [] e = Done e"
| "track_all track (v # vs) e = bind_exec (track v e) (track_all track vs)"

lemma track_all_append: "track_all track (vs @ ws) e = bind_exec (track_all track vs e) (track_all track ws)"
  by (induction vs arbitrary: e) (auto, metis bind_exec.elims bind_exec.simps(1) bind_exec.simps(2))

section \<open>The integer square root\<close>

lemma newton_lower:
  fixes x n s :: nat
  assumes "0 < x" "s * s \<le> n"
  shows "s \<le> (x + n div x) div 2"
proof -
  have "2 * s - x \<le> n div x"
  proof (cases "x \<le> 2 * s")
    case True
    then obtain k where k: "2 * s = x + k" using le_Suc_ex by blast
    have "(int x - int s) * (int x - int s) \<ge> 0" by (rule zero_le_square)
    then have "2 * (int x * int s) \<le> int x * int x + int s * int s" by (simp add: algebra_simps)
    moreover have "2 * int s = int x + int k" using k by linarith
    ultimately have "int x * (int x + int k) \<le> int x * int x + int s * int s" by (metis mult.left_commute mult.commute)
    then have "int (k * x) \<le> int (s * s)" by (simp add: algebra_simps)
    then have "k * x \<le> n" using assms(2) by linarith
    then have "k \<le> n div x" using assms(1) by (simp add: less_eq_div_iff_mult_less_eq)
    then show ?thesis using k by simp
  qed simp
  then show ?thesis by linarith
qed

lemma isqrt_loop_correct:
  assumes "0 < unat x" "unat x \<le> unat n" "unat n < 2 ^ 128 - 1" "\<And>s. s * s \<le> unat n \<Longrightarrow> s \<le> unat x"
    "y = (x + n div x) div 2"
  shows "\<exists>r. isqrt_loop n x y = Done r \<and> unat r * unat r \<le> unat n \<and> unat n < (unat r + 1) * (unat r + 1)"
  using assms
proof (induction n x y rule: isqrt_loop.induct)
  case (1 n x y)
  have "unat n div unat x \<le> unat n" by simp
  have "unat x + unat n div unat x \<le> unat n + 1"
  proof (cases "unat x = 1")
    case False
    then have "2 \<le> unat x" using "1.prems"(1) by simp
    obtain k where k: "unat n = unat x + k" using "1.prems"(2) le_Suc_ex by blast
    have "k * 1 \<le> k * (unat x - 1)" using \<open>2 \<le> unat x\<close> by (intro mult_le_mono2) simp
    then have "unat n \<le> (k + 1) * unat x" using k \<open>2 \<le> unat x\<close> by (simp add: algebra_simps)
    then have "unat n div unat x \<le> k + 1" using "1.prems"(1)
      by (metis div_le_mono div_mult_self_is_m)
    then show ?thesis using k by simp
  qed simp
  then have sum: "unat x + unat n div unat x < 2 ^ 128" using "1.prems"(3) by linarith
  then have "unat (x + n div x) = unat x + unat n div unat x" by (simp add: unat_add_lem [THEN iffD1] unat_div)
  then have y: "unat y = (unat x + unat n div unat x) div 2" using "1.prems"(5) by (simp add: unat_div)
  have low: "s \<le> unat y" if "s * s \<le> unat n" for s
    unfolding y using newton_lower "1.prems"(1) that by blast
  show ?case
  proof (cases "y < x")
    case True
    have "1 \<le> unat y" using low [of 1] "1.prems"(1,2) by simp
    moreover from this have "y \<noteq> 0" by auto
    moreover have "unat y \<le> unat n" using True "1.prems"(2) by (simp add: word_less_nat_alt)
    ultimately show ?thesis using "1.IH" [OF True] low "1.prems"(3) True by (subst isqrt_loop.simps) simp
  next
    case False
    then have "unat x \<le> (unat x + unat n div unat x) div 2" using y by (simp add: word_less_nat_alt)
    then have "unat x \<le> unat n div unat x" by linarith
    then have "unat x * unat x \<le> unat n" using "1.prems"(1) by (simp add: less_eq_div_iff_mult_less_eq)
    moreover have "unat n < (unat x + 1) * (unat x + 1)"
      using "1.prems"(4) [of "unat x + 1"] by (meson add_le_same_cancel1 not_less not_one_le_zero)
    ultimately show ?thesis using False by (subst isqrt_loop.simps) simp
  qed
qed

lemma integer_sqrt_spec:
  assumes "unat n < 2 ^ 128 - 1"
  shows "\<exists>r. integer_sqrt n = Done r \<and> unat r * unat r \<le> unat n \<and> unat n < (unat r + 1) * (unat r + 1)"
proof -
  consider "n = 0" | "n \<noteq> 0" "n < 4" | "4 \<le> n" by (metis not_less)
  then show ?thesis
  proof cases
    case 2
    then have "1 \<le> unat n" "unat n < 4" by (auto simp: word_less_nat_alt Suc_le_eq unat_gt_0)
    then show ?thesis using 2 by (simp add: integer_sqrt_def)
  next
    case 3
    then have n4: "4 \<le> unat n" "n \<noteq> 0" "\<not> n < 4"
      by (auto simp: word_le_nat_alt word_less_nat_alt)
    have "n div n = 1" using n4 by (simp add: word_unat_eq_iff unat_div)
    then have start: "(n + 1) div 2 = (n + n div n) div 2" by simp
    have le: "s \<le> unat n" if "s * s \<le> unat n" for s
      using that by (metis le_square order_trans)
    have "0 < unat n" using n4(1) by simp
    from isqrt_loop_correct [OF this order_refl assms le start] n4(2,3) show ?thesis by (simp add: integer_sqrt_def)
  qed (simp add: integer_sqrt_def)
qed

section \<open>Using a map of estimators\<close>

text \<open>The calls made on one map, the values tracked under a key, and what a reader may rely on.\<close>

datatype 'k lm_op = LmTrack 'k u64 | LmGet 'k

fun lm_run :: "'e estimator_ops \<Rightarrow> 'k lm_op list \<Rightarrow> ('k, 'e) latency_map \<Rightarrow> ('k, 'e) latency_map exec" where
  "lm_run ops [] m = Done m"
| "lm_run ops (LmTrack k v # acts) m = bind_exec (lm_track ops k v m) (lm_run ops acts)"
| "lm_run ops (LmGet k # acts) m = bind_exec (lm_get_estimate ops k m) (\<lambda>(_, m'). lm_run ops acts m')"

fun lm_values :: "'k \<Rightarrow> 'k lm_op list \<Rightarrow> u64 list" where
  "lm_values k [] = []"
| "lm_values k (LmTrack j v # acts) = (if j = k then v # lm_values k acts else lm_values k acts)"
| "lm_values k (LmGet j # acts) = lm_values k acts"

definition lm_bounded :: "'e estimator_ops \<Rightarrow> 'k lm_op list \<Rightarrow> 'k \<Rightarrow> bool" where
  "lm_bounded ops acts k \<longleftrightarrow>
     (\<exists>m r m'. lm_run ops acts lm_new = Done m \<and> lm_get_estimate ops k m = Done (r, m') \<and>
        (\<forall>x. r = Some x \<longrightarrow> lm_values k acts \<noteq> [] \<and> x \<le> Max (set (lm_values k acts))))"

section \<open>What the estimators promise\<close>

text \<open>
  The contract the map of estimators relies on. \<open>tracked vs e\<close>: the state \<open>e\<close> is one an
  estimator can be in after tracking \<open>vs\<close>. Tracking does not panic (until the sample counter
  would wrap), there is no estimate before the first sample, and none exceeds every sample.
\<close>

locale latency_estimator =
  fixes ops :: "'e estimator_ops" and tracked :: "u64 list \<Rightarrow> 'e \<Rightarrow> bool"
  assumes start: "\<exists>e. e_default ops = Done e \<and> tracked [] e"
    and track: "tracked vs e \<Longrightarrow> Suc (length vs) < 2 ^ 64 \<Longrightarrow> \<exists>e'. e_track ops v e = Done e' \<and> tracked (vs @ [v]) e'"
    and can: "tracked vs e \<Longrightarrow> e_can_estimate ops e \<Longrightarrow> vs \<noteq> []"
    and estimate: "tracked vs e \<Longrightarrow> e_can_estimate ops e \<Longrightarrow>
      f \<in> {e_estimate ops, e_mean_estimate ops, e_mean_floor_estimate ops} \<Longrightarrow> \<exists>r. f e = Done r \<and> r \<le> Max (set vs)"
begin

text \<open>Every entry of the map is in a state its own samples lead to.\<close>

definition lm_inv :: "('k \<Rightarrow> u64 list) \<Rightarrow> ('k, 'e) latency_map \<Rightarrow> bool" where
  "lm_inv samples m \<longleftrightarrow> (\<forall>k. case m k of None \<Rightarrow> samples k = [] | Some e \<Rightarrow> tracked (samples k) e)"

lemma lm_inv_at:
  assumes "lm_inv samples m"
  shows "m k = Some e \<Longrightarrow> tracked (samples k) e" "m k = None \<Longrightarrow> samples k = []"
  using assms [unfolded lm_inv_def, rule_format, of k] by simp_all

lemma lm_inv_new: "lm_inv (\<lambda>_. []) lm_new"
  by (simp add: lm_inv_def lm_new_def)

lemma lm_track_inv:
  assumes "lm_inv samples m" "Suc (length (samples k)) < 2 ^ 64"
  shows "\<exists>m'. lm_track ops k v m = Done m' \<and> lm_inv (samples(k := samples k @ [v])) m'"
proof -
  obtain e where e: "(case m k of Some e \<Rightarrow> Done e | None \<Rightarrow> e_default ops) = Done e" "tracked (samples k) e"
    using start lm_inv_at [OF assms(1), of k] by (cases "m k") auto
  obtain e' where e': "e_track ops v e = Done e'" "tracked (samples k @ [v]) e'" using track [OF e(2) assms(2)] by blast
  then have "lm_track ops k v m = Done (m(k \<mapsto> e'))" using e(1) by (simp add: lm_track_def)
  moreover have "lm_inv (samples(k := samples k @ [v])) (m(k \<mapsto> e'))"
    unfolding lm_inv_def
  proof
    fix j
    show "case (m(k \<mapsto> e')) j of None \<Rightarrow> (samples(k := samples k @ [v])) j = [] | Some e \<Rightarrow> tracked ((samples(k := samples k @ [v])) j) e"
      using e'(2) lm_inv_at [OF assms(1), of j] by (cases "j = k"; cases "m j") auto
  qed
  ultimately show ?thesis by blast
qed

lemma lm_get_inv:
  assumes "lm_inv samples m" "f \<in> {e_estimate ops, e_mean_estimate ops, e_mean_floor_estimate ops}"
  shows "\<exists>r m'. lm_get_estimate_with ops f k m = Done (r, m') \<and> lm_inv samples m' \<and>
    (\<forall>x. r = Some x \<longrightarrow> samples k \<noteq> [] \<and> x \<le> Max (set (samples k)))"
proof (cases "m k")
  case None
  obtain e where "e_default ops = Done e" "tracked [] e" using start by blast
  moreover from this(2) have "lm_inv samples (m(k \<mapsto> e))"
    using assms(1) lm_inv_at(2) [OF assms(1) None] by (simp add: lm_inv_def)
  ultimately show ?thesis using None by (simp add: lm_get_estimate_with_def)
next
  case (Some e)
  then have t: "tracked (samples k) e" by (rule lm_inv_at(1) [OF assms(1)])
  show ?thesis
  proof (cases "e_can_estimate ops e")
    case True
    then show ?thesis using Some estimate [OF t True assms(2)] can [OF t True] assms(1)
      by (auto simp: lm_get_estimate_with_def)
  qed (use Some assms(1) in \<open>auto simp: lm_get_estimate_with_def\<close>)
qed

lemma lm_run_inv:
  "lm_inv samples m \<Longrightarrow> (\<And>k. length (samples k) + length acts < 2 ^ 64) \<Longrightarrow>
   \<exists>m'. lm_run ops acts m = Done m' \<and> lm_inv (\<lambda>k. samples k @ lm_values k acts) m'"
proof (induction acts arbitrary: samples m)
  case (Cons a acts)
  show ?case
  proof (cases a)
    case (LmTrack k v)
    have "Suc (length (samples k)) < 2 ^ 64" using Cons.prems(2) [of k] by simp
    from lm_track_inv [OF Cons.prems(1) this, of v] obtain m1 where m1: "lm_track ops k v m = Done m1"
      "lm_inv (samples(k := samples k @ [v])) m1" by blast
    have "length ((samples(k := samples k @ [v])) j) + length acts < 2 ^ 64" for j
      using Cons.prems(2) [of j] by (cases "j = k") auto
    from Cons.IH [OF m1(2) this] obtain m' where m': "lm_run ops acts m1 = Done m'"
      "lm_inv (\<lambda>j. (samples(k := samples k @ [v])) j @ lm_values j acts) m'" by blast
    have "(\<lambda>j. (samples(k := samples k @ [v])) j @ lm_values j acts) = (\<lambda>j. samples j @ lm_values j (a # acts))"
      by (auto simp: LmTrack)
    with m1(1) m' show ?thesis by (simp add: LmTrack)
  next
    case (LmGet k)
    obtain r m1 where m1: "lm_get_estimate ops k m = Done (r, m1)" "lm_inv samples m1"
      using lm_get_inv [OF Cons.prems(1), of "e_estimate ops" k] by (auto simp: lm_get_estimate_def)
    have "length (samples j) + length acts < 2 ^ 64" for j using Cons.prems(2) [of j] by simp
    with Cons.IH [OF m1(2)] m1(1) show ?thesis by (auto simp: LmGet)
  qed
qed auto

lemma lm_bounded:
  assumes "length acts < 2 ^ 64"
  shows "lm_bounded ops acts k"
proof -
  obtain m where m: "lm_run ops acts lm_new = Done m" "lm_inv (\<lambda>k. lm_values k acts) m"
    using lm_run_inv [OF lm_inv_new, of acts] assms by auto
  from lm_get_inv [OF m(2), of "e_estimate ops" k] m(1) show ?thesis
    by (auto simp: lm_bounded_def lm_get_estimate_def)
qed

end

text \<open>The moving average is between the least and the greatest sample.\<close>

definition ewma_tracked :: "u64 list \<Rightarrow> latency_ewma \<Rightarrow> bool" where
  "ewma_tracked vs e \<longleftrightarrow> ewma_ok e \<and> has_sample e = (vs \<noteq> []) \<and>
     (vs \<noteq> [] \<longrightarrow> Min (set vs) \<le> ewma e \<and> ewma e \<le> Max (set vs))"

lemma ewma_tracked_step:
  assumes "ewma_tracked vs e"
  shows "\<exists>e'. ewma_track v e = Done e' \<and> ewma_tracked (vs @ [v]) e'"
proof (cases "vs = []")
  case True
  then show ?thesis using assms by (auto simp: ewma_track_def ewma_tracked_def ewma_ok_def)
next
  case False
  then have ok: "ewma_ok e" "has_sample e" using assms by (auto simp: ewma_tracked_def)
  from ewma_track_exact [OF ok, of v] obtain e' where e': "ewma_track v e = Done e'" "ewma_ok e'" "has_sample e'"
    "unat (ewma e') = (unat (alpha_num e) * unat v + (unat (alpha_den e) - unat (alpha_num e)) * unat (ewma e)) div unat (alpha_den e)"
    by blast
  have "unat (alpha_num e) \<le> unat (alpha_den e)" "0 < unat (alpha_den e)"
    using ok(1) by (auto simp: ewma_ok_def word_less_nat_alt)
  from weighted_mean_bounds [OF this, of "unat v" "unat (ewma e)"]
  have "min v (ewma e) \<le> ewma e'" "ewma e' \<le> max v (ewma e)"
    unfolding e'(4) [symmetric] by (auto simp: min_def max_def word_le_nat_alt split: if_splits)
  moreover have "min v (Min (set vs)) \<le> min v (ewma e)" "max v (ewma e) \<le> max v (Max (set vs))"
    using assms False by (auto simp: ewma_tracked_def intro: min.coboundedI2 max.coboundedI2)
  ultimately have "min v (Min (set vs)) \<le> ewma e'" "ewma e' \<le> max v (Max (set vs))" by (meson order_trans)+
  then show ?thesis using e' False by (auto simp: ewma_tracked_def)
qed

interpretation ewma_est: latency_estimator ewma_ops ewma_tracked
proof (unfold_locales, goal_cases)
  case 1
  show ?case by (simp add: ewma_ops_def with_defaults_def ewma_default_def ewma_new_def ewma_tracked_def ewma_ok_def)
next
  case (2 vs e v)
  then show ?case using ewma_tracked_step by (simp add: ewma_ops_def with_defaults_def)
next
  case (3 vs e)
  then show ?case by (simp add: ewma_ops_def with_defaults_def ewma_can_estimate_def ewma_tracked_def)
next
  case (4 vs e f)
  then show ?case
    by (auto simp: ewma_ops_def with_defaults_def ewma_can_estimate_def ewma_estimate_def ewma_tracked_def)
qed

text \<open>The root mean square never exceeds the greatest sample, even after the sum has wrapped.\<close>

definition square_sum :: "u64 list \<Rightarrow> nat" where
  "square_sum vs = sum_list (map (\<lambda>v. unat v * unat v) vs)"

definition rms_tracked :: "u64 list \<Rightarrow> latency_rms \<Rightarrow> bool" where
  "rms_tracked vs e \<longleftrightarrow> rms_count e = of_nat (length vs) \<and> length vs < 2 ^ 64 \<and>
     unat (sum_squares e) = square_sum vs mod 2 ^ 128 \<and> (\<forall>v. (\<forall>w\<in>set vs. w \<le> v) \<longrightarrow> rms e \<le> v)"

lemma square_sum_le: "(\<And>w. w \<in> set vs \<Longrightarrow> w \<le> v) \<Longrightarrow> square_sum vs \<le> length vs * (unat v * unat v)"
proof (induction vs)
  case (Cons w vs)
  then have "unat w * unat w \<le> unat v * unat v" by (intro mult_le_mono) (auto simp: word_le_nat_alt)
  then show ?case using Cons by (simp add: square_sum_def)
qed (simp add: square_sum_def)

lemma square_u64: "unat (ucast v * ucast v :: u128) = unat (v :: u64) * unat v"
  by (rule unat_mult_128)

lemma update_rms_spec:
  assumes "vs \<noteq> []" "rms_count e = of_nat (length vs)" "length vs < 2 ^ 64" "unat (sum_squares e) = square_sum vs mod 2 ^ 128"
  shows "\<exists>r. update_rms e = Done (e\<lparr>rms := r\<rparr>) \<and>
    unat r * unat r \<le> square_sum vs mod 2 ^ 128 div length vs \<and>
    square_sum vs mod 2 ^ 128 div length vs < (unat r + 1) * (unat r + 1) \<and> (\<forall>v. (\<forall>w\<in>set vs. w \<le> v) \<longrightarrow> r \<le> v)"
proof -
  let ?ms = "sum_squares e div ucast (rms_count e)"
  have n: "unat (rms_count e) = length vs" using assms(2,3) by (simp add: unat_of_nat_less)
  then have ms: "unat ?ms = square_sum vs mod 2 ^ 128 div length vs" by (simp add: unat_div assms(4))
  have le: "unat ?ms \<le> unat v * unat v" if "\<forall>w\<in>set vs. w \<le> v" for v
  proof -
    have "square_sum vs mod 2 ^ 128 \<le> length vs * (unat v * unat v)"
      using square_sum_le [of vs v] that by (meson mod_less_eq_dividend order_trans)
    then have "square_sum vs mod 2 ^ 128 div length vs \<le> length vs * (unat v * unat v) div length vs" by (rule div_le_mono)
    then show ?thesis using ms assms(1) by simp
  qed
  have bound: "unat (- 1 :: u64) * unat (- 1 :: u64) < 2 ^ 128 - 1" by (simp add: unat_minus_one_word)
  have "unat ?ms < 2 ^ 128 - 1" using le [of "- 1"] bound by (meson le_less_trans word_order.extremum)
  from integer_sqrt_spec [OF this] obtain r where r: "integer_sqrt ?ms = Done r"
    "unat r * unat r \<le> unat ?ms" "unat ?ms < (unat r + 1) * (unat r + 1)" by blast
  have small: "unat r \<le> unat v" if "\<forall>w\<in>set vs. w \<le> v" for v
    using order_trans [OF r(2) le [OF that]] by (simp add: power2_nat_le_eq_le flip: power2_eq_square)
  then have "unat r \<le> unat (- 1 :: u64)" using word_order.extremum by blast
  then have "unat (ucast r :: u64) = unat r" by (intro unat_ucast_64) (simp add: unat_minus_one_word)
  moreover have "rms_count e \<noteq> 0" using n assms(1) by auto
  ultimately show ?thesis using r small ms
    by (intro exI [of _ "ucast r"]) (simp add: update_rms_def word_le_nat_alt)
qed

lemma rms_tracked_step:
  assumes "rms_tracked vs e" "Suc (length vs) < 2 ^ 64"
  shows "\<exists>e'. rms_track v e = Done e' \<and> rms_tracked (vs @ [v]) e'"
proof -
  define e1 where "e1 = e\<lparr>sum_squares := sum_squares e + ucast v * ucast v, rms_count := rms_count e + 1,
    since_last_update := since_last_update e + 1\<rparr>"
  have count: "rms_count e1 = of_nat (length (vs @ [v]))" using assms(1) by (simp add: e1_def rms_tracked_def add.commute)
  have "unat (sum_squares e1) = (square_sum vs mod 2 ^ 128 + unat v * unat v) mod 2 ^ 128"
    using assms(1) by (simp add: e1_def unat_word_ariths square_u64 rms_tracked_def mod_simps)
  then have sum: "unat (sum_squares e1) = square_sum (vs @ [v]) mod 2 ^ 128" by (simp add: square_sum_def mod_simps)
  have old: "\<forall>x. (\<forall>w\<in>set (vs @ [v]). w \<le> x) \<longrightarrow> rms e1 \<le> x" using assms(1) by (simp add: rms_tracked_def e1_def)
  have len: "length (vs @ [v]) < 2 ^ 64" using assms(2) by simp
  show ?thesis
  proof (cases "update_interval e1 \<le> since_last_update e1")
    case True
    obtain r where r: "update_rms e1 = Done (e1\<lparr>rms := r\<rparr>)" "\<forall>x. (\<forall>w\<in>set (vs @ [v]). w \<le> x) \<longrightarrow> r \<le> x"
      using update_rms_spec [OF _ count len sum] by blast
    then have "rms_track v e = Done (e1\<lparr>rms := r, since_last_update := 0\<rparr>)"
      using True by (simp add: rms_track_def e1_def [symmetric])
    then show ?thesis using r(2) count sum len by (simp add: rms_tracked_def)
  next
    case False
    then have "rms_track v e = Done e1" by (simp add: rms_track_def e1_def [symmetric])
    then show ?thesis using old count sum len by (simp add: rms_tracked_def)
  qed
qed

interpretation rms_est: latency_estimator rms_ops rms_tracked
proof (unfold_locales, goal_cases)
  case 1
  show ?case by (auto simp: rms_ops_def with_defaults_def rms_default_def rms_new_def rms_tracked_def square_sum_def)
next
  case (2 vs e v)
  then show ?case using rms_tracked_step by (simp add: rms_ops_def with_defaults_def)
next
  case (3 vs e)
  then show ?case by (auto simp: rms_ops_def with_defaults_def rms_can_estimate_def rms_tracked_def)
next
  case (4 vs e f)
  then have "rms e \<le> Max (set vs)" by (simp add: rms_tracked_def)
  then show ?case using 4 by (auto simp: rms_ops_def with_defaults_def rms_estimate_def)
qed

text \<open>The percentiles of the histogram are samples, taken by rank from the sorted window.\<close>

definition window :: "latency_distribution \<Rightarrow> u64 list" where
  "window d = prev_queue d @ cur_queue d"

lemma rank_in_range: "xs \<noteq> [] \<Longrightarrow> i < 100 \<Longrightarrow> length xs * i div 100 < length xs"
  by (simp add: less_mult_imp_div_less)

lemma push_percentiles_ok:
  "values \<noteq> [] \<Longrightarrow> \<forall>i\<in>set is. i < 100 \<Longrightarrow>
   push_percentiles values is ps = Done (ps @ map (\<lambda>i. values ! (length values * i div 100)) is)"
  by (induction "is" arbitrary: ps) (simp_all add: index_def rank_in_range)

lemma dist_update_spec:
  "window d \<noteq> [] \<Longrightarrow> \<exists>mean. dist_update d = Done (d\<lparr>dist_mean := mean,
     percentiles := map (\<lambda>i. sort (window d) ! (length (window d) * i div 100)) [0..<100]\<rparr>)"
proof -
  assume "window d \<noteq> []"
  then have "sort (window d) \<noteq> []" by (metis length_0_conv length_sort)
  then show ?thesis using push_percentiles_ok [of "sort (window d)" "[0..<100]" "[]"]
    by (auto simp: dist_update_def Let_def window_def)
qed

lemma sorted_rank:
  assumes "sorted xs" "i < length xs"
  shows "length (filter (\<lambda>y. y < xs ! i) xs) \<le> i" "i < length (filter (\<lambda>y. y \<le> xs ! i) xs)"
proof -
  have "{j. j < length xs \<and> xs ! j < xs ! i} \<subseteq> {..<i}"
    using assms(1) sorted_nth_mono [OF assms(1)] by (force simp: not_le [symmetric])
  from card_mono [OF _ this] show "length (filter (\<lambda>y. y < xs ! i) xs) \<le> i" by (simp add: length_filter_conv_card)
  have "{..i} \<subseteq> {j. j < length xs \<and> xs ! j \<le> xs ! i}"
    using assms sorted_nth_mono [OF assms(1)] by auto
  from card_mono [OF _ this] show "i < length (filter (\<lambda>y. y \<le> xs ! i) xs)" by (simp add: length_filter_conv_card)
qed

lemma length_filter_sort: "length (filter P (sort xs)) = length (filter P xs)"
  by (metis mset_filter mset_sort size_mset)

definition dist_tracked :: "u64 list \<Rightarrow> latency_distribution \<Rightarrow> bool" where
  "dist_tracked vs d \<longleftrightarrow> set (window d) \<subseteq> set vs \<and> set (percentiles d) \<subseteq> set vs \<and> length (percentiles d) \<in> {0, 100}"

lemma dist_track_cases:
  "if dist_capacity d \<le> Suc (length (cur_queue d)) then
     \<exists>mean. dist_track v d = Done (d\<lparr>dist_mean := mean,
       percentiles := map (\<lambda>i. sort (window d @ [v]) ! (length (window d @ [v]) * i div 100)) [0..<100],
       prev_queue := cur_queue d @ [v], cur_queue := []\<rparr>)
   else dist_track v d = Done (d\<lparr>cur_queue := cur_queue d @ [v]\<rparr>)"
proof -
  have w: "window (d\<lparr>cur_queue := cur_queue d @ [v]\<rparr>) = window d @ [v]" by (simp add: window_def)
  then show ?thesis using dist_update_spec [of "d\<lparr>cur_queue := cur_queue d @ [v]\<rparr>"]
    by (auto simp: dist_track_def Let_def)
qed

lemma dist_tracked_step:
  assumes "dist_tracked vs d"
  shows "\<exists>d'. dist_track v d = Done d' \<and> dist_tracked (vs @ [v]) d'"
proof (cases "dist_capacity d \<le> Suc (length (cur_queue d))")
  case True
  let ?ps = "map (\<lambda>i. sort (window d @ [v]) ! (length (window d @ [v]) * i div 100)) [0..<100]"
  have "sort (window d @ [v]) ! (length (window d @ [v]) * i div 100) \<in> set (window d @ [v])" if "i < 100" for i
    using rank_in_range [of "window d @ [v]", OF _ that] by (metis length_sort nth_mem set_sort snoc_eq_iff_butlast)
  then have "set ?ps \<subseteq> set (window d @ [v])"
    unfolding set_map set_upt by (intro image_subsetI) (simp only: atLeastLessThan_iff)
  also have "\<dots> \<subseteq> set (vs @ [v])" using assms by (auto simp: dist_tracked_def)
  finally show ?thesis using dist_track_cases [of d v] True assms
    by (auto simp: dist_tracked_def window_def simp del: set_map)
next
  case False
  then show ?thesis using dist_track_cases [of d v] assms by (auto simp: dist_tracked_def window_def)
qed

interpretation dist_est: latency_estimator dist_ops dist_tracked
proof (unfold_locales, goal_cases)
  case 1
  show ?case
    by (simp add: dist_ops_def with_defaults_def dist_default_def dist_new_def dist_tracked_def window_def)
next
  case (2 vs e v)
  then show ?case using dist_tracked_step by (simp add: dist_ops_def with_defaults_def)
next
  case (3 vs e)
  then show ?case by (auto simp: dist_ops_def with_defaults_def dist_can_estimate_def dist_tracked_def)
next
  case (4 vs e f)
  then have len: "length (percentiles e) = 100" by (auto simp: dist_ops_def with_defaults_def dist_can_estimate_def dist_tracked_def)
  then have "dist_estimate e = Done (percentiles e ! PERCENTILE)"
    by (simp add: dist_estimate_def percentile_def index_def PERCENTILE_def)
  moreover have "percentiles e ! PERCENTILE \<in> set vs"
    using 4(1) len nth_mem [of PERCENTILE "percentiles e"] by (auto simp: dist_tracked_def PERCENTILE_def)
  ultimately show ?case using 4(3) by (auto simp: dist_ops_def with_defaults_def)
qed

section \<open>Properties\<close>

text \<open>
  Claim C39. Newton's iteration ends and is the integer square root, rounded down, of every
  \<open>u128\<close> but the greatest (for which the first step wraps to zero and the loop divides by it);
  and \<open>update_rms\<close> never asks for that one, so it never panics and computes the root of the
  mean square of the samples exactly as long as the sum of squares has not wrapped.
\<close>

theorem integer_sqrt_exact:
  "(if n = - 1 then integer_sqrt n = Panic
    else \<exists>r. integer_sqrt n = Done r \<and> unat r * unat r \<le> unat n \<and> unat n < (unat r + 1) * (unat r + 1)) \<and>
   (rms_tracked vs e \<and> vs \<noteq> [] \<longrightarrow>
     (\<exists>e'. update_rms e = Done e' \<and> unat (rms e') * unat (rms e') \<le> square_sum vs mod 2 ^ 128 div length vs \<and>
        square_sum vs mod 2 ^ 128 div length vs < (unat (rms e') + 1) * (unat (rms e') + 1)))"
proof -
  have "integer_sqrt (- 1) = Panic"
    by (simp add: integer_sqrt_def isqrt_loop.simps [of "- 1" "- 1"] word_less_nat_alt unat_minus_one_word)
  moreover have "unat n < 2 ^ 128 - 1" if "n \<noteq> - 1"
  proof -
    have "unat n < 2 ^ 128" using unsigned_less [of n] by simp
    moreover have "unat n \<noteq> unat (- 1 :: u128)" using that by (metis word_unat_eq_iff)
    ultimately show ?thesis by (simp add: unat_minus_one_word)
  qed
  moreover have "\<exists>e'. update_rms e = Done e' \<and> unat (rms e') * unat (rms e') \<le> square_sum vs mod 2 ^ 128 div length vs \<and>
      square_sum vs mod 2 ^ 128 div length vs < (unat (rms e') + 1) * (unat (rms e') + 1)" if t: "rms_tracked vs e" and ne: "vs \<noteq> []"
  proof -
    obtain r where "update_rms e = Done (e\<lparr>rms := r\<rparr>)" "unat r * unat r \<le> square_sum vs mod 2 ^ 128 div length vs"
      "square_sum vs mod 2 ^ 128 div length vs < (unat r + 1) * (unat r + 1)"
      using update_rms_spec [OF ne] t unfolding rms_tracked_def by blast
    then show ?thesis by auto
  qed
  ultimately show ?thesis using integer_sqrt_spec by auto
qed

theorem integer_sqrt_exact_witness:
  "\<exists>e e'. rms_tracked [3, 4] e \<and> update_rms e = Done e' \<and> unat (rms e') * unat (rms e') \<le> 12"
proof -
  let ?e = "\<lparr>sum_squares = 25, rms_count = 2, rms = 0, update_interval = 512, since_last_update = 2\<rparr>"
  have "square_sum [3, 4] = 25" by (simp add: square_sum_def)
  moreover from this have "rms_tracked [3, 4] ?e" by (simp add: rms_tracked_def)
  ultimately obtain e' where "update_rms ?e = Done e'" "unat (rms e') * unat (rms e') \<le> 25 div 2"
    using integer_sqrt_exact [of 0 "[3, 4]" ?e] by (auto simp flip: numeral_2_eq_2)
  with \<open>rms_tracked [3, 4] ?e\<close> show ?thesis by (intro exI [of _ ?e] exI [of _ e']) simp
qed

text \<open>
  The moving average never wraps and stays between the least and the greatest sample
  tracked, whatever the samples and the weight.
\<close>

theorem ewma_within_samples:
  assumes "ewma_new num den = Done e0" "vs \<noteq> []"
  shows "\<exists>e. track_all ewma_track vs e0 = Done e \<and> ewma_can_estimate e \<and>
    (\<exists>r. ewma_estimate e = Done r \<and> Min (set vs) \<le> r \<and> r \<le> Max (set vs))"
proof -
  have "ewma_tracked [] e0" using assms(1) by (auto simp: ewma_new_def ewma_tracked_def ewma_ok_def split: if_splits)
  moreover have "\<exists>e'. track_all ewma_track vs e = Done e' \<and> ewma_tracked (ws @ vs) e'" if "ewma_tracked ws e" for ws e
    using that
  proof (induction vs arbitrary: ws e)
    case (Cons v vs)
    from ewma_tracked_step [OF Cons.prems, of v] obtain e1 where "ewma_track v e = Done e1" "ewma_tracked (ws @ [v]) e1" by blast
    with Cons.IH [of "ws @ [v]" e1] show ?case by simp
  qed simp
  ultimately obtain e where "track_all ewma_track vs e0 = Done e" "ewma_tracked vs e" by (metis append_Nil)
  with assms(2) show ?thesis by (auto simp: ewma_tracked_def ewma_can_estimate_def ewma_estimate_def)
qed

theorem ewma_within_samples_witness:
  "\<exists>e0 e. ewma_new 1 8 = Done e0 \<and> track_all ewma_track [10, - 1] e0 = Done e \<and> 10 \<le> ewma e"
proof -
  obtain e0 where e0: "ewma_new 1 8 = Done e0" by (simp add: ewma_new_def)
  from ewma_within_samples [OF e0, of "[10, - 1]"] obtain e where
    "track_all ewma_track [10, - 1] e0 = Done e" "Min (set [10, - 1]) \<le> ewma e" by (auto simp: ewma_estimate_def)
  moreover have "Min (set [10, - 1]) = (10 :: u64)" by simp
  ultimately show ?thesis using e0 by (intro exI [of _ e0] exI [of _ e]) simp
qed

text \<open>
  When the histogram's window fills, no index is out of range and the \<open>p\<close>-th
  percentile is a sample of the last two windows of which at most \<open>p\<close> percent are smaller and
  more than \<open>p\<close> percent are not larger (counts rounded down).
\<close>

theorem percentile_rank:
  assumes "dist_capacity d \<le> Suc (length (cur_queue d))" "p < 100"
  shows "\<exists>d' x. dist_track v d = Done d' \<and> percentile p d' = Done x \<and> x \<in> set (window d @ [v]) \<and>
    length (filter (\<lambda>y. y < x) (window d @ [v])) \<le> length (window d @ [v]) * p div 100 \<and>
    length (window d @ [v]) * p div 100 < length (filter (\<lambda>y. y \<le> x) (window d @ [v]))"
proof -
  let ?w = "window d @ [v]"
  let ?i = "length ?w * p div 100" and ?x = "sort ?w ! (length ?w * p div 100)"
  have i: "?i < length (sort ?w)" using rank_in_range [of ?w p] assms(2) by simp
  obtain d' where d': "dist_track v d = Done d'" "percentiles d' = map (\<lambda>i. sort ?w ! (length ?w * i div 100)) [0..<100]"
    using dist_track_cases [of d v] assms(1) by auto
  then have "percentile p d' = Done ?x" using assms(2) by (simp add: percentile_def index_def)
  moreover have "?x \<in> set ?w" using nth_mem [OF i] by (simp only: set_sort)
  ultimately show ?thesis using d'(1) sorted_rank [OF sorted_sort i] by (auto simp only: length_filter_sort)
qed

theorem percentile_rank_witness:
  "\<exists>d d' x. dist_new ''rpc'' 100 = Done d \<and>
    dist_track 7 (d\<lparr>cur_queue := replicate 99 3\<rparr>) = Done d' \<and> percentile 50 d' = Done x \<and> x \<in> {3, 7}"
proof -
  obtain d where d: "dist_new ''rpc'' 100 = Done d" "dist_capacity d = 100" "prev_queue d = []" by (simp add: dist_new_def)
  let ?d = "d\<lparr>cur_queue := replicate 99 3\<rparr>"
  have "set (window ?d @ [7]) = {3, 7}" using d(3) by (simp add: window_def insert_commute)
  moreover have "dist_capacity ?d \<le> Suc (length (cur_queue ?d))" "(50 :: nat) < 100" using d(2) by simp_all
  from percentile_rank [OF this, of 7] obtain d' x where "dist_track 7 ?d = Done d'" "percentile 50 d' = Done x"
    "x \<in> set (window ?d @ [7])" by blast
  ultimately show ?thesis using d(1) by (intro exI [of _ d] exI [of _ d'] exI [of _ x]) simp
qed

text \<open>
  A map of estimators, for each of the three, never panics over fewer calls than the
  sample counter can count, has no estimate for a key before a value was tracked under it, and
  never estimates more than the greatest value tracked under that key; the other keys do not matter.
\<close>

theorem latency_map_bounded:
  assumes "length acts < 2 ^ 64"
  shows "lm_bounded ewma_ops acts k \<and> lm_bounded rms_ops acts k \<and> lm_bounded dist_ops acts k"
  using ewma_est.lm_bounded [OF assms] rms_est.lm_bounded [OF assms] dist_est.lm_bounded [OF assms] by blast

theorem latency_map_bounded_witness:
  "\<exists>m r m'. lm_run ewma_ops [LmGet ''a'', LmTrack ''a'' 5, LmTrack ''b'' 9, LmTrack ''a'' 6] lm_new = Done m \<and>
     lm_get_estimate ewma_ops ''a'' m = Done (r, m') \<and> (\<forall>x. r = Some x \<longrightarrow> x \<le> 6)"
proof -
  let ?acts = "[LmGet ''a'', LmTrack ''a'' 5, LmTrack ''b'' 9, LmTrack ''a'' 6]"
  have "length ?acts < 2 ^ 64" by simp
  from latency_map_bounded [OF this, of "''a''"] have "lm_bounded ewma_ops ?acts ''a''" by blast
  moreover have "Max (set (lm_values ''a'' ?acts)) = 6" by simp
  ultimately show ?thesis unfolding lm_bounded_def by metis
qed

end
