(* ===== verification/Registry.thy ===== *)
theory Registry
  imports Module_Stack
begin

text \<open>
  The registry that maps methods and services to numeric identifiers,
  \<open>libs/masa-policy/src/registry.rs\<close>. Each registration holds the mutex of its map from the
  second look-up to the end, and takes its identifier from one atomic counter, so an operation is
  one step on the registry's state. The counter wraps as an \<open>AtomicU64\<close> does.
\<close>

type_synonym method_id = u64

record method_registry =
  reg_map :: "grpc_method \<rightharpoonup> method_id"
  reg_service_map :: "string \<rightharpoonup> method_id"
  reg_id_map :: "method_id \<rightharpoonup> grpc_method"
  next_id :: u64

definition registry_new :: method_registry where
  "registry_new = \<lparr>reg_map = Map.empty, reg_service_map = Map.empty, reg_id_map = Map.empty, next_id = 1\<rparr>"

definition get_or_register :: "grpc_method \<Rightarrow> method_registry \<Rightarrow> method_id \<times> method_registry" where
  "get_or_register key r =
     (case reg_map r key of
        Some mid \<Rightarrow> (mid, r)
      | None \<Rightarrow>
          let mid = next_id r in
          (mid, r\<lparr>next_id := next_id r + 1, reg_map := (reg_map r)(key \<mapsto> mid), reg_id_map := (reg_id_map r)(mid \<mapsto> key)\<rparr>))"

definition get_or_register_service :: "string \<Rightarrow> method_registry \<Rightarrow> method_id \<times> method_registry" where
  "get_or_register_service service r =
     (case reg_service_map r service of
        Some mid \<Rightarrow> (mid, r)
      | None \<Rightarrow>
          let mid = next_id r in
          (mid, r\<lparr>next_id := next_id r + 1, reg_service_map := (reg_service_map r)(service \<mapsto> mid),
             reg_id_map := (reg_id_map r)(mid \<mapsto> \<lparr>gm_service = service, gm_method = ''*''\<rparr>)\<rparr>))"

definition get_or_register_with_service ::
    "grpc_method \<Rightarrow> method_registry \<Rightarrow> (method_id \<times> method_id) \<times> method_registry" where
  "get_or_register_with_service key r =
     (case get_or_register_service (gm_service key) r of (service_id, r1) \<Rightarrow>
      case get_or_register key r1 of (method_id, r2) \<Rightarrow> ((method_id, service_id), r2))"

definition get_method_name :: "method_registry \<Rightarrow> method_id \<Rightarrow> grpc_method option" where
  "get_method_name r mid = reg_id_map r mid"

section \<open>Identifiers\<close>

text \<open>What is registered: a method or a service; a run of registrations returns their identifiers.\<close>

datatype reg_key = MethodKey grpc_method | ServiceKey string

fun reg_name :: "reg_key \<Rightarrow> grpc_method" where
  "reg_name (MethodKey m) = m"
| "reg_name (ServiceKey s) = \<lparr>gm_service = s, gm_method = ''*''\<rparr>"

fun reg_lookup :: "method_registry \<Rightarrow> reg_key \<Rightarrow> method_id option" where
  "reg_lookup r (MethodKey m) = reg_map r m"
| "reg_lookup r (ServiceKey s) = reg_service_map r s"

fun reg_call :: "reg_key \<Rightarrow> method_registry \<Rightarrow> method_id \<times> method_registry" where
  "reg_call (MethodKey m) r = get_or_register m r"
| "reg_call (ServiceKey s) r = get_or_register_service s r"

fun reg_run :: "reg_key list \<Rightarrow> method_registry \<Rightarrow> method_id list \<times> method_registry" where
  "reg_run [] r = ([], r)"
| "reg_run (k # ks) r = (case reg_call k r of (mid, r1) \<Rightarrow> case reg_run ks r1 of (mids, r2) \<Rightarrow> (mid # mids, r2))"

text \<open>Identifiers are below the counter, no two keys share one, and each is named by its key.\<close>

definition reg_inv :: "method_registry \<Rightarrow> bool" where
  "reg_inv r \<longleftrightarrow>
     (\<forall>k mid. reg_lookup r k = Some mid \<longrightarrow> 0 < mid \<and> mid < next_id r \<and> reg_id_map r mid = Some (reg_name k)) \<and>
     (\<forall>k j mid. reg_lookup r k = Some mid \<longrightarrow> reg_lookup r j = Some mid \<longrightarrow> k = j) \<and> 0 < next_id r"

lemma reg_inv_new: "reg_inv registry_new"
proof -
  have "reg_lookup registry_new k = None" for k by (cases k) (simp_all add: registry_new_def)
  then show ?thesis by (simp add: reg_inv_def) (simp add: registry_new_def)
qed

lemma reg_call_known: "reg_lookup r k = Some mid \<Longrightarrow> reg_call k r = (mid, r)"
  by (cases k) (simp_all add: get_or_register_def get_or_register_service_def)

lemma reg_call_fresh:
  assumes "reg_lookup r k = None" "reg_call k r = (mid, r')"
  shows "mid = next_id r" "next_id r' = next_id r + 1" "reg_lookup r' = (reg_lookup r)(k \<mapsto> mid)"
    "reg_id_map r' = (reg_id_map r)(mid \<mapsto> reg_name k)"
proof -
  have "mid = next_id r \<and> next_id r' = next_id r + 1 \<and> reg_lookup r' j = ((reg_lookup r)(k \<mapsto> mid)) j \<and>
      reg_id_map r' = (reg_id_map r)(mid \<mapsto> reg_name k)" for j
    using assms by (cases k; cases j) (auto simp: get_or_register_def get_or_register_service_def Let_def)
  then show "mid = next_id r" "next_id r' = next_id r + 1" "reg_lookup r' = (reg_lookup r)(k \<mapsto> mid)"
    "reg_id_map r' = (reg_id_map r)(mid \<mapsto> reg_name k)" by auto
qed

lemma reg_call_step:
  assumes "reg_inv r" "next_id r \<noteq> - 1" "reg_call k r = (mid, r')"
  shows "reg_inv r'" "reg_lookup r' k = Some mid" "\<And>j i. reg_lookup r j = Some i \<Longrightarrow> reg_lookup r' j = Some i"
    "unat (next_id r') \<le> unat (next_id r) + 1"
proof -
  have "reg_inv r' \<and> reg_lookup r' k = Some mid \<and> (\<forall>j i. reg_lookup r j = Some i \<longrightarrow> reg_lookup r' j = Some i) \<and>
    unat (next_id r') \<le> unat (next_id r) + 1"
  proof (cases "reg_lookup r k")
    case None
    note f = reg_call_fresh [OF None assms(3)]
    have "next_id r + 1 \<noteq> 0" using assms(2) by (metis add_eq_0_iff2)
    then have n: "unat (next_id r + 1) = Suc (unat (next_id r))" by (simp add: unatSuc add.commute)
    have lt: "i < next_id r + 1" if "i < next_id r" for i using that n by (simp add: word_less_nat_alt)
    have "next_id r < next_id r + 1" "0 < next_id r + 1" using n by (simp_all add: word_less_nat_alt)
    then have "reg_inv r'" using assms(1) lt unfolding reg_inv_def f
      by (auto split: if_splits)
    then show ?thesis using None f n by auto
  next
    case (Some i)
    then show ?thesis using assms reg_call_known by simp
  qed
  then show "reg_inv r'" "reg_lookup r' k = Some mid" "\<And>j i. reg_lookup r j = Some i \<Longrightarrow> reg_lookup r' j = Some i"
    "unat (next_id r') \<le> unat (next_id r) + 1" by auto
qed

lemma reg_run_spec:
  "reg_run ks r = (mids, r') \<Longrightarrow> reg_inv r \<Longrightarrow> unat (next_id r) + length ks < 2 ^ 64 \<Longrightarrow>
   reg_inv r' \<and> length mids = length ks \<and> (\<forall>j i. reg_lookup r j = Some i \<longrightarrow> reg_lookup r' j = Some i) \<and>
   (\<forall>i<length ks. reg_lookup r' (ks ! i) = Some (mids ! i))"
proof (induction ks arbitrary: r mids)
  case (Cons k ks)
  obtain mid r1 where c: "reg_call k r = (mid, r1)" by fastforce
  obtain mids1 where run: "reg_run ks r1 = (mids1, r')" "mids = mid # mids1"
    using Cons.prems(1) c by (auto split: prod.splits)
  have "next_id r \<noteq> - 1" using Cons.prems(3) by (auto simp: unat_minus_one_word)
  note step = reg_call_step [OF Cons.prems(2) this c]
  have "unat (next_id r1) + length ks < 2 ^ 64" using step(4) Cons.prems(3) by simp
  from Cons.IH [OF run(1) step(1) this] step(2,3) show ?case
    by (auto simp: run(2) nth_Cons split: nat.split)
qed simp

text \<open>
  From an empty registry, whatever is registered and in whatever order (as long as the
  counter does not wrap): a method or service gets the same identifier every time, different ones
  get different identifiers (a method and a service too), and the identifier is named after what
  it was given to.
\<close>

theorem registry_identifiers:
  assumes "reg_run ks registry_new = (mids, r)" "length ks < 2 ^ 64 - 1" "i < length ks" "j < length ks"
  shows "(mids ! i = mids ! j) = (ks ! i = ks ! j) \<and> get_method_name r (mids ! i) = Some (reg_name (ks ! i))"
proof -
  have "unat (next_id registry_new) + length ks < 2 ^ 64" using assms(2) by (simp add: registry_new_def)
  from reg_run_spec [OF assms(1) reg_inv_new this] have f: "reg_inv r"
    "reg_lookup r (ks ! i) = Some (mids ! i)" "reg_lookup r (ks ! j) = Some (mids ! j)" using assms(3,4) by auto
  have "reg_id_map r (mids ! i) = Some (reg_name (ks ! i))" using f(1,2) unfolding reg_inv_def by blast
  moreover have "ks ! i = ks ! j" if "mids ! i = mids ! j"
    using f(1) f(2) f(3) [folded that] unfolding reg_inv_def by blast
  ultimately show ?thesis using f(2,3) by (auto simp: get_method_name_def)
qed

theorem registry_identifiers_witness:
  "\<exists>a b c d r. reg_run [MethodKey \<lparr>gm_service = ''geo'', gm_method = ''*''\<rparr>, ServiceKey ''geo'', ServiceKey ''rate'', ServiceKey ''geo'']
     registry_new = ([a, b, c, d], r) \<and> a \<noteq> b \<and> b = d \<and> get_method_name r c = Some \<lparr>gm_service = ''rate'', gm_method = ''*''\<rparr>"
proof -
  let ?ks = "[MethodKey \<lparr>gm_service = ''geo'', gm_method = ''*''\<rparr>, ServiceKey ''geo'', ServiceKey ''rate'', ServiceKey ''geo'']"
  obtain mids r where run: "reg_run ?ks registry_new = (mids, r)" by fastforce
  then have "length mids = 4" by (auto split: prod.splits)
  then obtain a b c d where m: "mids = [a, b, c, d]" by (auto simp: numeral_eq_Suc length_Suc_conv)
  from registry_identifiers [OF run, of 0 1] registry_identifiers [OF run, of 1 3] registry_identifiers [OF run, of 2 2] run m
  show ?thesis by auto
qed


end
