(* ===== verification/Fanout.thy ===== *)
theory Fanout
  imports Masa_Context Estimators Registry
begin

text \<open>
  The fan-out patterns of the estimation module, \<open>libs/masa-policy/src/module/est/fanout.rs\<close>:
  the groups of overlapping children of a request and the table of what followed them. At the end
  of a request the groups are recovered from the children's intervals; when a child is issued, the
  table is searched for the closest known groups that contain the children already open. The
  search goes through posting lists; the results relate it to a scan of the whole table. An
  instant is counted in nanoseconds.
\<close>

section \<open>Path prefixes\<close>

record path_prefix =
  pp_hash :: u64
  pp_depth :: u16

definition ROOT_HASH :: u64 where
  "ROOT_HASH = 0xcbf29ce484222325"

definition FNV_PRIME :: u64 where
  "FNV_PRIME = 0x100000001b3"

definition pp_root :: path_prefix where
  "pp_root = \<lparr>pp_hash = ROOT_HASH, pp_depth = 0\<rparr>"

text \<open>One round per byte, in \<open>mix_u64\<close> and in the hasher alike.\<close>

definition hash_bytes :: "u64 \<Rightarrow> u8 list \<Rightarrow> u64" where
  "hash_bytes hash bytes = foldl (\<lambda>h byte. (h XOR ucast byte) * FNV_PRIME) hash bytes"

definition mix_u64 :: "u64 \<Rightarrow> u64 \<Rightarrow> u64" where
  "mix_u64 hash v = hash_bytes hash (to_le_bytes 8 v)"

definition stable_hash :: "method_id \<Rightarrow> u64" where
  "stable_hash child = hash_bytes ROOT_HASH (to_le_bytes 8 child)"

definition append_signature :: "path_prefix \<Rightarrow> method_id list \<Rightarrow> path_prefix" where
  "append_signature p sig =
     (let h1 = mix_u64 (pp_hash p) 0xff51afd7ed558ccd;
          h2 = mix_u64 h1 (of_nat (length sig));
          h3 = foldl (\<lambda>h child. mix_u64 h (stable_hash child)) h2 sig in
      \<lparr>pp_hash = h3, pp_depth = saturating_add (pp_depth p) 1\<rparr>)"

definition hex16 :: "u64 \<Rightarrow> string" where
  "hex16 v = concat (map hex_byte (rev (to_le_bytes 8 v)))"

definition pp_label :: "path_prefix \<Rightarrow> string" where
  "pp_label p = (if pp_depth p = 0 then ''root'' else show_nat (unat (pp_depth p)) @ '':'' @ hex16 (pp_hash p))"

section \<open>The table of patterns\<close>

datatype pattern_scope = Aggregate | Path path_prefix

record group_pattern_key =
  gk_scope :: pattern_scope
  gk_signature :: "method_id list"

record 'e group_pattern =
  gp_estimator :: 'e
  gp_occurrence_count :: u64

record 'e pattern_entry =
  pe_key :: group_pattern_key
  pe_pattern :: "'e group_pattern"

record 'e parent_patterns =
  by_key :: "group_pattern_key \<rightharpoonup> nat"
  pp_entries :: "'e pattern_entry list"
  postings :: "pattern_scope \<times> method_id \<rightharpoonup> nat list"

definition patterns_default :: "'e parent_patterns" where
  "patterns_default = \<lparr>by_key = Map.empty, pp_entries = [], postings = Map.empty\<rparr>"

type_synonym 'e fanout_table = "method_id \<times> method_id \<rightharpoonup> 'e parent_patterns"

definition table_new :: "'e fanout_table" where
  "table_new = Map.empty"

record after_child_estimates =
  ac_full :: u64
  ac_mean :: u64
  ac_floor :: u64

definition after_child_zero :: after_child_estimates where
  "after_child_zero = \<lparr>ac_full = 0, ac_mean = 0, ac_floor = 0\<rparr>"

fun index_loop :: "pattern_scope \<Rightarrow> nat \<Rightarrow> method_id option \<Rightarrow> method_id list \<Rightarrow>
    (pattern_scope \<times> method_id \<rightharpoonup> nat list) \<Rightarrow> (pattern_scope \<times> method_id \<rightharpoonup> nat list)" where
  "index_loop scope at previous [] m = m"
| "index_loop scope at previous (child # sig) m =
     (if previous = Some child then index_loop scope at previous sig m
      else index_loop scope at (Some child) sig
        (m((scope, child) \<mapsto> (case m (scope, child) of None \<Rightarrow> [] | Some l \<Rightarrow> l) @ [at])))"

definition index_group_pattern :: "group_pattern_key \<Rightarrow> nat \<Rightarrow> 'e parent_patterns \<Rightarrow> 'e parent_patterns" where
  "index_group_pattern key at p =
     p\<lparr>postings := index_loop (gk_scope key) at None (gk_signature key) (postings p)\<rparr>"

definition patterns_update :: "'e estimator_ops \<Rightarrow> group_pattern_key \<Rightarrow> u64 \<Rightarrow> 'e parent_patterns \<Rightarrow>
    'e parent_patterns exec" where
  "patterns_update ops key after_child_us patterns =
     (case by_key patterns key of
        Some at \<Rightarrow>
          bind_exec (index (pp_entries patterns) at) (\<lambda>entry.
          map_exec (\<lambda>e. patterns\<lparr>pp_entries := (pp_entries patterns)[at :=
              entry\<lparr>pe_pattern := \<lparr>gp_estimator = e, gp_occurrence_count = gp_occurrence_count (pe_pattern entry) + 1\<rparr>\<rparr>]\<rparr>)
            (e_track ops after_child_us (gp_estimator (pe_pattern entry))))
      | None \<Rightarrow>
          bind_exec (e_default ops) (\<lambda>e0.
          map_exec (\<lambda>e.
              let at = length (pp_entries patterns); p1 = index_group_pattern key at patterns in
              p1\<lparr>by_key := (by_key p1)(key \<mapsto> at),
                pp_entries := pp_entries p1 @ [\<lparr>pe_key = key, pe_pattern = \<lparr>gp_estimator = e, gp_occurrence_count = 1\<rparr>\<rparr>]\<rparr>)
            (e_track ops after_child_us e0)))"

definition table_update :: "'e estimator_ops \<Rightarrow> method_id \<Rightarrow> method_id \<Rightarrow> pattern_scope \<Rightarrow> method_id list \<Rightarrow> u64 \<Rightarrow>
    'e fanout_table \<Rightarrow> 'e fanout_table exec" where
  "table_update ops root parent scope sig after_child_us table =
     (let patterns = (case table (root, parent) of None \<Rightarrow> patterns_default | Some p \<Rightarrow> p);
          key = \<lparr>gk_scope = scope, gk_signature = sig\<rparr> in
      map_exec (\<lambda>p. table((root, parent) \<mapsto> p)) (patterns_update ops key after_child_us patterns))"

section \<open>Search\<close>

text \<open>Both lists sorted: the loop over two indices.\<close>

fun multiset_loop :: "method_id list \<Rightarrow> method_id list \<Rightarrow> bool" where
  "multiset_loop [] hay = True"
| "multiset_loop (n # needle) [] = False"
| "multiset_loop (n # needle) (h # hay) =
     (if n = h then multiset_loop needle hay
      else if h < n then multiset_loop (n # needle) hay
      else False)"

definition is_multiset_subset :: "method_id list \<Rightarrow> method_id list \<Rightarrow> bool" where
  "is_multiset_subset needle hay = (if length hay < length needle then False else multiset_loop needle hay)"

definition pattern_estimates :: "'e estimator_ops \<Rightarrow> 'e group_pattern \<Rightarrow> u64 \<Rightarrow> after_child_estimates exec" where
  "pattern_estimates ops p cap =
     bind_exec (e_estimate ops (gp_estimator p)) (\<lambda>full.
     bind_exec (e_mean_estimate ops (gp_estimator p)) (\<lambda>mean.
     map_exec (\<lambda>floor. \<lparr>ac_full = min full cap, ac_mean = min mean cap, ac_floor = min floor cap\<rparr>)
       (e_mean_floor_estimate ops (gp_estimator p))))"

text \<open>The shortest posting of the children of the base signature; \<open>None\<close> when one has none.\<close>

fun smallest_posting :: "(pattern_scope \<times> method_id \<rightharpoonup> nat list) \<Rightarrow> pattern_scope \<Rightarrow> method_id option \<Rightarrow>
    nat list option \<Rightarrow> method_id list \<Rightarrow> nat list option" where
  "smallest_posting m scope previous smallest [] = smallest"
| "smallest_posting m scope previous smallest (child # sig) =
     (if previous = Some child then smallest_posting m scope previous smallest sig
      else case m (scope, child) of
        None \<Rightarrow> None
      | Some posting \<Rightarrow>
          smallest_posting m scope (Some child)
            (case smallest of
               None \<Rightarrow> Some posting
             | Some current \<Rightarrow> if length posting < length current then Some posting else smallest) sig)"

definition compatible_candidate_keys :: "'e parent_patterns \<Rightarrow> pattern_scope \<Rightarrow> method_id list \<Rightarrow> nat list option" where
  "compatible_candidate_keys p scope base =
     (if base = [] then Some [0..<length (pp_entries p)] else smallest_posting (postings p) scope None None base)"

record search_state =
  closest_len :: "nat option"
  total_weight :: u128
  sum_full :: u128
  sum_mean :: u128
  sum_floor :: u128

definition search_start :: search_state where
  "search_start = \<lparr>closest_len = None, total_weight = 0, sum_full = 0, sum_mean = 0, sum_floor = 0\<rparr>"

definition eligible :: "'e estimator_ops \<Rightarrow> pattern_scope \<Rightarrow> method_id list \<Rightarrow> u64 \<Rightarrow> 'e pattern_entry \<Rightarrow> bool" where
  "eligible ops scope base min_samples entry \<longleftrightarrow>
     gk_scope (pe_key entry) = scope \<and> is_multiset_subset base (gk_signature (pe_key entry)) \<and>
     min_samples \<le> gp_occurrence_count (pe_pattern entry) \<and> e_can_estimate ops (gp_estimator (pe_pattern entry))"

definition weight :: "'e pattern_entry \<Rightarrow> u128" where
  "weight entry = ucast (max (gp_occurrence_count (pe_pattern entry)) 1)"

definition add_estimates :: "u128 \<Rightarrow> after_child_estimates \<Rightarrow> search_state \<Rightarrow> search_state" where
  "add_estimates w a s = s\<lparr>total_weight := total_weight s + w, sum_full := sum_full s + ucast (ac_full a) * w,
     sum_mean := sum_mean s + ucast (ac_mean a) * w, sum_floor := sum_floor s + ucast (ac_floor a) * w\<rparr>"

text \<open>One turn of the loop over the candidates.\<close>

definition search_step :: "'e estimator_ops \<Rightarrow> 'e parent_patterns \<Rightarrow> pattern_scope \<Rightarrow> method_id list \<Rightarrow> u64 \<Rightarrow> u64 \<Rightarrow>
    nat \<Rightarrow> search_state \<Rightarrow> search_state exec" where
  "search_step ops p scope base min_samples cap at s =
     (if at < length (pp_entries p) then
        let entry = pp_entries p ! at; len = length (gk_signature (pe_key entry)) in
        if \<not> eligible ops scope base min_samples entry then Done s
        else
          let add = (\<lambda>s. map_exec (\<lambda>a. add_estimates (weight entry) a s) (pattern_estimates ops (pe_pattern entry) cap)) in
          (case closest_len s of
             Some l \<Rightarrow>
               if l < len then Done s
               else if len < l then
                 add (s\<lparr>closest_len := Some len, total_weight := 0, sum_full := 0, sum_mean := 0, sum_floor := 0\<rparr>)
               else add s
           | None \<Rightarrow> add (s\<lparr>closest_len := Some len\<rparr>))
      else Done s)"

fun search_loop :: "'e estimator_ops \<Rightarrow> 'e parent_patterns \<Rightarrow> pattern_scope \<Rightarrow> method_id list \<Rightarrow> u64 \<Rightarrow> u64 \<Rightarrow>
    nat list \<Rightarrow> search_state \<Rightarrow> search_state exec" where
  "search_loop ops p scope base min_samples cap [] s = Done s"
| "search_loop ops p scope base min_samples cap (at # ats) s =
     bind_exec (search_step ops p scope base min_samples cap at s) (search_loop ops p scope base min_samples cap ats)"

definition search_result :: "search_state \<Rightarrow> after_child_estimates option" where
  "search_result s =
     (if total_weight s = 0 then None
      else Some \<lparr>ac_full = ucast (sum_full s div total_weight s), ac_mean = ucast (sum_mean s div total_weight s),
        ac_floor = ucast (sum_floor s div total_weight s)\<rparr>)"

definition closest_compatible_lookup :: "'e estimator_ops \<Rightarrow> 'e parent_patterns \<Rightarrow> pattern_scope \<Rightarrow> method_id list \<Rightarrow>
    u64 \<Rightarrow> u64 \<Rightarrow> after_child_estimates option exec" where
  "closest_compatible_lookup ops p scope base min_samples cap =
     (let slow = (case compatible_candidate_keys p scope base of
          None \<Rightarrow> Done None
        | Some ats \<Rightarrow> map_exec search_result (search_loop ops p scope base min_samples cap ats search_start)) in
      case by_key p \<lparr>gk_scope = scope, gk_signature = base\<rparr> of
        Some at \<Rightarrow>
          bind_exec (index (pp_entries p) at) (\<lambda>entry.
            let pattern = pe_pattern entry in
            if min_samples \<le> gp_occurrence_count pattern \<and> e_can_estimate ops (gp_estimator pattern)
            then map_exec Some (pattern_estimates ops pattern cap) else slow)
      | None \<Rightarrow> slow)"

definition lookup_estimate :: "'e estimator_ops \<Rightarrow> method_id \<Rightarrow> method_id \<Rightarrow> path_prefix \<Rightarrow> method_id list \<Rightarrow> u64 \<Rightarrow> u64 \<Rightarrow>
    'e fanout_table \<Rightarrow> after_child_estimates exec" where
  "lookup_estimate ops root parent prefix base min_samples cap table =
     (case table (root, parent) of
        None \<Rightarrow> Done after_child_zero
      | Some p \<Rightarrow>
          bind_exec (closest_compatible_lookup ops p (Path prefix) base min_samples cap) (\<lambda>r. case r of
              Some a \<Rightarrow> Done a
            | None \<Rightarrow> map_exec (\<lambda>r. case r of Some a \<Rightarrow> a | None \<Rightarrow> after_child_zero)
                (closest_compatible_lookup ops p Aggregate base min_samples cap)))"

section \<open>Recovering groups\<close>

record child_record =
  cr_child_id :: method_id
  cr_child_service_id :: method_id
  cr_start :: nat
  cr_end :: "nat option"
  cr_terminal :: bool

record fanout_group =
  fg_signature :: "method_id list"
  fg_post_join_us :: u64

definition post_join_us :: "nat \<Rightarrow> nat \<Rightarrow> u64" where
  "post_join_us group_max_end parent_end = of_nat ((parent_end - group_max_end) div 1000)"

definition group_observation :: "method_id list \<Rightarrow> nat \<Rightarrow> nat \<Rightarrow> fanout_group" where
  "group_observation sig group_max_end parent_end =
     \<lparr>fg_signature = sort sig, fg_post_join_us = post_join_us group_max_end parent_end\<rparr>"

text \<open>The loop over the completed children after the first, ordered by their start.\<close>

fun recover_loop :: "nat \<Rightarrow> child_record list \<Rightarrow> nat \<Rightarrow> method_id list \<Rightarrow> fanout_group list \<Rightarrow> fanout_group list" where
  "recover_loop parent_end [] group_max_end sig out = out @ [group_observation sig group_max_end parent_end]"
| "recover_loop parent_end (c # cs) group_max_end sig out =
     (let end = the (cr_end c) in
      if cr_start c \<le> group_max_end then recover_loop parent_end cs (max group_max_end end) (sig @ [cr_child_id c]) out
      else recover_loop parent_end cs end [cr_child_id c] (out @ [group_observation sig group_max_end parent_end]))"

definition recover_group_observations :: "child_record list \<Rightarrow> nat \<Rightarrow> fanout_group list" where
  "recover_group_observations children parent_end =
     (case sort_key cr_start (filter (\<lambda>c. cr_end c \<noteq> None) children) of
        [] \<Rightarrow> []
      | c # cs \<Rightarrow> recover_loop parent_end cs (the (cr_end c)) [cr_child_id c] [])"

definition recover_groups :: "child_record list \<Rightarrow> nat \<Rightarrow> (method_id list \<times> u64) list" where
  "recover_groups children parent_end =
     map (\<lambda>g. (fg_signature g, fg_post_join_us g)) (recover_group_observations children parent_end)"

record path_fanout =
  pf_path_prefix :: path_prefix
  pf_service_path_prefix :: path_prefix
  pf_signature :: "method_id list"
  pf_service_signature :: "method_id list"
  pf_post_join_us :: u64

text \<open>The prefixes and the groups so far.\<close>

definition push_path_group :: "path_fanout list \<times> path_prefix \<times> path_prefix \<Rightarrow> method_id list \<Rightarrow> method_id list \<Rightarrow>
    nat \<Rightarrow> nat \<Rightarrow> path_fanout list \<times> path_prefix \<times> path_prefix" where
  "push_path_group acc sig service_sig group_max_end parent_end =
     (case acc of (out, prefix, service_prefix) \<Rightarrow>
        (out @ [\<lparr>pf_path_prefix = prefix, pf_service_path_prefix = service_prefix, pf_signature = sort sig,
           pf_service_signature = sort service_sig, pf_post_join_us = post_join_us group_max_end parent_end\<rparr>],
         append_signature prefix (sort sig), append_signature service_prefix (sort service_sig)))"

fun recover_path_loop :: "nat \<Rightarrow> child_record list \<Rightarrow> nat \<Rightarrow> method_id list \<Rightarrow> method_id list \<Rightarrow>
    path_fanout list \<times> path_prefix \<times> path_prefix \<Rightarrow> path_fanout list" where
  "recover_path_loop parent_end [] group_max_end sig service_sig acc =
     fst (push_path_group acc sig service_sig group_max_end parent_end)"
| "recover_path_loop parent_end (c # cs) group_max_end sig service_sig acc =
     (let end = the (cr_end c) in
      if cr_start c \<le> group_max_end then
        recover_path_loop parent_end cs (max group_max_end end) (sig @ [cr_child_id c]) (service_sig @ [cr_child_service_id c]) acc
      else
        recover_path_loop parent_end cs end [cr_child_id c] [cr_child_service_id c]
          (push_path_group acc sig service_sig group_max_end parent_end))"

definition recover_path_groups :: "child_record list \<Rightarrow> nat \<Rightarrow> path_fanout list" where
  "recover_path_groups children parent_end =
     (case sort_key cr_start (filter (\<lambda>c. cr_end c \<noteq> None) children) of
        [] \<Rightarrow> []
      | c # cs \<Rightarrow> recover_path_loop parent_end cs (the (cr_end c)) [cr_child_id c] [cr_child_service_id c] ([], pp_root, pp_root))"

section \<open>Multisets of children\<close>

lemma subseteq_add_other:
  assumes "x \<notin># A"
  shows "A \<subseteq># add_mset x B \<longleftrightarrow> A \<subseteq># B"
proof
  assume sub: "A \<subseteq># add_mset x B"
  show "A \<subseteq># B"
  proof (rule mset_subset_eqI)
    fix a
    show "count A a \<le> count B a" using mset_subset_eq_count [OF sub, of a] assms by (cases "a = x") (simp_all add: not_in_iff)
  qed
qed (metis mset_subset_eq_add_right add_mset_add_single subset_mset.order_trans add.commute mset_subset_eq_add_left)

lemma multiset_loop_subset:
  "sorted needle \<Longrightarrow> sorted hay \<Longrightarrow> multiset_loop needle hay \<longleftrightarrow> mset needle \<subseteq># mset hay"
proof (induction needle hay rule: multiset_loop.induct)
  case (3 n needle h hay)
  consider "n = h" | "h < n" | "n < h" by (rule linorder_cases)
  then show ?case
  proof cases
    case 2
    then have "h \<notin># mset (n # needle)" using 3(3) by auto
    then have "mset (n # needle) \<subseteq># mset (h # hay) \<longleftrightarrow> mset (n # needle) \<subseteq># mset hay"
      by (simp add: subseteq_add_other)
    with 2 3 show ?thesis by auto
  next
    case 3
    then have "n \<notin># mset (h # hay)" using \<open>sorted (h # hay)\<close> by auto
    then have "\<not> mset (n # needle) \<subseteq># mset (h # hay)" using mset_subset_eqD [of "mset (n # needle)" _ n] by (metis list.set_intros(1) set_mset_mset)
    with 3 show ?thesis by auto
  qed (use 3 in auto)
qed auto

lemma is_multiset_subset_iff:
  assumes "sorted needle" "sorted hay"
  shows "is_multiset_subset needle hay \<longleftrightarrow> mset needle \<subseteq># mset hay"
  using multiset_loop_subset [OF assms] size_mset_mono [of "mset needle" "mset hay"]
  by (auto simp: is_multiset_subset_def)

section \<open>What the search returns\<close>

text \<open>The updates of a table, and the values recorded under one key.\<close>

type_synonym fanout_update = "method_id \<times> method_id \<times> pattern_scope \<times> method_id list \<times> u64"

fun table_run :: "'e estimator_ops \<Rightarrow> fanout_update list \<Rightarrow> 'e fanout_table \<Rightarrow> 'e fanout_table exec" where
  "table_run ops [] t = Done t"
| "table_run ops ((root, parent, scope, sig, v) # us) t = bind_exec (table_update ops root parent scope sig v t) (table_run ops us)"

fun pattern_samples :: "method_id \<times> method_id \<Rightarrow> group_pattern_key \<Rightarrow> fanout_update list \<Rightarrow> u64 list" where
  "pattern_samples at key [] = []"
| "pattern_samples at key ((root, parent, scope, sig, v) # us) =
     (if at = (root, parent) \<and> key = \<lparr>gk_scope = scope, gk_signature = sig\<rparr> then v # pattern_samples at key us
      else pattern_samples at key us)"

definition patterns_at :: "'e fanout_table \<Rightarrow> method_id \<times> method_id \<Rightarrow> 'e parent_patterns" where
  "patterns_at t at = (case t at of None \<Rightarrow> patterns_default | Some p \<Rightarrow> p)"

text \<open>The entries that count: eligible, and no eligible one has a shorter signature.\<close>

definition sig_len :: "'e pattern_entry \<Rightarrow> nat" where
  "sig_len entry = length (gk_signature (pe_key entry))"

definition shortest :: "'e pattern_entry list \<Rightarrow> 'e pattern_entry list" where
  "shortest es = filter (\<lambda>e. \<forall>d\<in>set es. sig_len e \<le> sig_len d) es"

definition closest :: "'e estimator_ops \<Rightarrow> pattern_scope \<Rightarrow> method_id list \<Rightarrow> u64 \<Rightarrow> 'e pattern_entry list \<Rightarrow> 'e pattern_entry list" where
  "closest ops scope base min_samples es = shortest (filter (eligible ops scope base min_samples) es)"

text \<open>Their mean, weighted by how often each group occurred, in unbounded arithmetic.\<close>

definition estimates_of :: "'e estimator_ops \<Rightarrow> u64 \<Rightarrow> 'e pattern_entry \<Rightarrow> after_child_estimates" where
  "estimates_of ops cap entry = (case pattern_estimates ops (pe_pattern entry) cap of Done a \<Rightarrow> a | Panic \<Rightarrow> after_child_zero)"

definition weight_sum :: "('e pattern_entry \<Rightarrow> nat) \<Rightarrow> 'e pattern_entry list \<Rightarrow> nat" where
  "weight_sum f es = (\<Sum>e\<leftarrow>es. f e * unat (weight e))"

definition weight_total :: "'e pattern_entry list \<Rightarrow> nat" where
  "weight_total es = (\<Sum>e\<leftarrow>es. unat (weight e))"

definition weighted_mean :: "('e pattern_entry \<Rightarrow> u64) \<Rightarrow> 'e pattern_entry list \<Rightarrow> u64" where
  "weighted_mean f es = of_nat (weight_sum (\<lambda>e. unat (f e)) es div weight_total es)"

definition mean_estimates :: "'e estimator_ops \<Rightarrow> u64 \<Rightarrow> 'e pattern_entry list \<Rightarrow> after_child_estimates option" where
  "mean_estimates ops cap es =
     (if es = [] then None
      else Some \<lparr>ac_full = weighted_mean (\<lambda>e. ac_full (estimates_of ops cap e)) es,
        ac_mean = weighted_mean (\<lambda>e. ac_mean (estimates_of ops cap e)) es,
        ac_floor = weighted_mean (\<lambda>e. ac_floor (estimates_of ops cap e)) es\<rparr>)"

definition closest_estimates :: "'e estimator_ops \<Rightarrow> path_prefix \<Rightarrow> method_id list \<Rightarrow> u64 \<Rightarrow> u64 \<Rightarrow> 'e pattern_entry list \<Rightarrow>
    after_child_estimates" where
  "closest_estimates ops prefix base min_samples cap es =
     (case mean_estimates ops cap (closest ops (Path prefix) base min_samples es) of
        Some a \<Rightarrow> a
      | None \<Rightarrow> (case mean_estimates ops cap (closest ops Aggregate base min_samples es) of
          Some a \<Rightarrow> a | None \<Rightarrow> after_child_zero))"

section \<open>The index of the table\<close>

text \<open>
  The key map finds every entry, each entry has tracked the values recorded under its key, and a
  posting lists the entries whose group has the child, in ascending order.
\<close>

definition has_child :: "'e parent_patterns \<Rightarrow> pattern_scope \<Rightarrow> method_id \<Rightarrow> nat \<Rightarrow> bool" where
  "has_child p scope child at \<longleftrightarrow>
     gk_scope (pe_key (pp_entries p ! at)) = scope \<and> child \<in> set (gk_signature (pe_key (pp_entries p ! at)))"

definition posting_of :: "'e parent_patterns \<Rightarrow> pattern_scope \<Rightarrow> method_id \<Rightarrow> nat list" where
  "posting_of p scope child = filter (has_child p scope child) [0..<length (pp_entries p)]"

definition keys_inv :: "'e parent_patterns \<Rightarrow> bool" where
  "keys_inv p \<longleftrightarrow> (\<forall>k at. by_key p k = Some at \<longleftrightarrow> at < length (pp_entries p) \<and> pe_key (pp_entries p ! at) = k)"

definition postings_inv :: "'e parent_patterns \<Rightarrow> bool" where
  "postings_inv p \<longleftrightarrow>
     (\<forall>scope child. (case postings p (scope, child) of None \<Rightarrow> [] | Some l \<Rightarrow> l) = posting_of p scope child)"

definition entry_inv :: "'e estimator_ops \<Rightarrow> (group_pattern_key \<Rightarrow> u64 list) \<Rightarrow> 'e pattern_entry \<Rightarrow> bool" where
  "entry_inv ops samples entry \<longleftrightarrow>
     sorted (gk_signature (pe_key entry)) \<and>
     gp_occurrence_count (pe_pattern entry) = of_nat (length (samples (pe_key entry))) \<and>
     bind_exec (e_default ops) (track_all (e_track ops) (samples (pe_key entry))) = Done (gp_estimator (pe_pattern entry))"

definition patterns_inv :: "'e estimator_ops \<Rightarrow> (group_pattern_key \<Rightarrow> u64 list) \<Rightarrow> 'e parent_patterns \<Rightarrow> bool" where
  "patterns_inv ops samples p \<longleftrightarrow>
     keys_inv p \<and> postings_inv p \<and> (\<forall>entry\<in>set (pp_entries p). entry_inv ops samples entry) \<and>
     pe_key ` set (pp_entries p) = {k. samples k \<noteq> []}"

lemma index_loop_sorted:
  "sorted sig \<Longrightarrow> (\<And>q. previous = Some q \<Longrightarrow> \<forall>c\<in>set sig. q \<le> c) \<Longrightarrow>
   index_loop scope at previous sig m (s, c) =
     (if s = scope \<and> c \<in> set sig \<and> previous \<noteq> Some c
      then Some ((case m (scope, c) of None \<Rightarrow> [] | Some l \<Rightarrow> l) @ [at]) else m (s, c))"
proof (induction sig arbitrary: previous m)
  case (Cons a sig)
  have "index_loop scope at (Some a) sig m' (s, c) =
     (if s = scope \<and> c \<in> set sig \<and> a \<noteq> c then Some ((case m' (scope, c) of None \<Rightarrow> [] | Some l \<Rightarrow> l) @ [at]) else m' (s, c))" for m'
    using Cons.IH [of "Some a" m'] Cons.prems(1) by simp
  with Cons.prems show ?case by (cases "previous = Some a") auto
qed simp


lemma keys_distinct: "keys_inv p \<Longrightarrow> distinct (map pe_key (pp_entries p))"
  unfolding keys_inv_def distinct_conv_nth by (metis length_map nth_map option.inject)

lemma patterns_default_inv: "patterns_inv ops (\<lambda>_. []) patterns_default"
  by (simp add: patterns_inv_def patterns_default_def keys_inv_def postings_inv_def posting_of_def)

lemma entry_inv_other: "pe_key entry \<noteq> key \<Longrightarrow> entry_inv ops (samples(key := vs)) entry = entry_inv ops samples entry"
  by (simp add: entry_inv_def)

lemma entry_inv_tracked:
  assumes "sorted (gk_signature key)" "bind_exec (e_default ops) (track_all (e_track ops) (samples key)) = Done e"
    "e_track ops v e = Done e'" "n = of_nat (length (samples key)) + 1"
  shows "entry_inv ops (samples(key := samples key @ [v])) \<lparr>pe_key = key, pe_pattern = \<lparr>gp_estimator = e', gp_occurrence_count = n\<rparr>\<rparr>"
proof -
  obtain e0 where "e_default ops = Done e0" "track_all (e_track ops) (samples key) e0 = Done e"
    using assms(2) by (auto simp: exec_simps)
  with assms show ?thesis by (simp add: entry_inv_def track_all_append add.commute)
qed

lemma patterns_update_known:
  assumes inv: "patterns_inv ops samples p" and at: "by_key p key = Some at"
    and up: "patterns_update ops key v p = Done p'"
  shows "patterns_inv ops (samples(key := samples key @ [v])) p'"
proof -
  let ?es = "pp_entries p" and ?samples = "samples(key := samples key @ [v])"
  have keys: "keys_inv p" and e: "at < length ?es" "pe_key (?es ! at) = key"
    using inv at by (auto simp: patterns_inv_def keys_inv_def)
  from e inv have ok: "entry_inv ops samples (?es ! at)" by (simp add: patterns_inv_def)
  obtain e' where e': "e_track ops v (gp_estimator (pe_pattern (?es ! at))) = Done e'"
    and p': "p' = p\<lparr>pp_entries := ?es[at := (?es ! at)\<lparr>pe_pattern :=
      \<lparr>gp_estimator = e', gp_occurrence_count = gp_occurrence_count (pe_pattern (?es ! at)) + 1\<rparr>\<rparr>]\<rparr>"
    using up at e(1) by (auto simp: patterns_update_def index_def exec_simps)
  let ?new = "\<lparr>pe_key = key, pe_pattern = \<lparr>gp_estimator = e', gp_occurrence_count = gp_occurrence_count (pe_pattern (?es ! at)) + 1\<rparr>\<rparr>"
  have p'': "p' = p\<lparr>pp_entries := ?es[at := ?new]\<rparr>" using p' e(2) by (cases "?es ! at") simp
  have key_at: "pe_key (?es[at := ?new] ! i) = pe_key (?es ! i)" if "i < length ?es" for i
    using that e by (cases "i = at") simp_all
  have "keys_inv p'" using keys key_at unfolding keys_inv_def p'' by auto
  moreover have "posting_of p' = posting_of p"
    using key_at by (auto simp: posting_of_def has_child_def p'' intro!: ext filter_cong)
  then have "postings_inv p'" using inv by (simp add: patterns_inv_def postings_inv_def p'')
  moreover have "entry_inv ops ?samples ?new"
    using entry_inv_tracked [OF _ _ e'] ok e(2) by (simp add: entry_inv_def)
  then have "\<forall>i<length ?es. entry_inv ops ?samples (?es[at := ?new] ! i)"
    using inv keys_distinct [OF keys] e entry_inv_other [of _ key ops samples]
    by (auto simp: nth_list_update patterns_inv_def distinct_conv_nth)
  then have "\<forall>entry\<in>set (pp_entries p'). entry_inv ops ?samples entry" by (auto simp: p'' in_set_conv_nth)
  moreover have "map pe_key (pp_entries p') = map pe_key ?es" using key_at by (auto simp: p'' intro!: nth_equalityI)
  then have "pe_key ` set (pp_entries p') = pe_key ` set ?es" by (metis list.set_map)
  then have "pe_key ` set (pp_entries p') = {k. ?samples k \<noteq> []}"
    using inv e nth_mem [OF e(1)] unfolding patterns_inv_def by auto
  ultimately show ?thesis by (simp add: patterns_inv_def)
qed

lemma patterns_update_new:
  assumes inv: "patterns_inv ops samples p" and none: "by_key p key = None" and sorted: "sorted (gk_signature key)"
    and up: "patterns_update ops key v p = Done p'"
  shows "patterns_inv ops (samples(key := samples key @ [v])) p'"
proof -
  let ?es = "pp_entries p" and ?samples = "samples(key := samples key @ [v])"
  have keys: "keys_inv p" using inv by (simp add: patterns_inv_def)
  have "key \<notin> pe_key ` set ?es" using keys none unfolding keys_inv_def
    by (metis (no_types) imageE in_set_conv_nth option.distinct(1))
  then have fresh: "pe_key (?es ! i) \<noteq> key" if "i < length ?es" for i using that by auto
  from \<open>key \<notin> _\<close> inv have nil: "samples key = []" by (simp add: patterns_inv_def)
  obtain e0 e where e: "e_default ops = Done e0" "e_track ops v e0 = Done e"
    and p': "p' = (index_group_pattern key (length ?es) p)\<lparr>by_key := (by_key p)(key \<mapsto> length ?es),
      pp_entries := ?es @ [\<lparr>pe_key = key, pe_pattern = \<lparr>gp_estimator = e, gp_occurrence_count = 1\<rparr>\<rparr>]\<rparr>"
    using up none by (auto simp: patterns_update_def exec_simps Let_def index_group_pattern_def)
  let ?new = "\<lparr>pe_key = key, pe_pattern = \<lparr>gp_estimator = e, gp_occurrence_count = 1\<rparr>\<rparr>"
  have es: "pp_entries p' = ?es @ [?new]" by (simp add: p')
  have bk: "by_key p' = (by_key p)(key \<mapsto> length ?es)" by (simp add: p')
  have "keys_inv p'" unfolding keys_inv_def es bk
    using keys fresh none by (auto simp: keys_inv_def nth_append less_Suc_eq split: if_splits)
  moreover have post: "posting_of p' s c = posting_of p s c @ (if gk_scope key = s \<and> c \<in> set (gk_signature key) then [length ?es] else [])" for s c
    by (auto simp: posting_of_def has_child_def es nth_append intro!: filter_cong)
  have "postings p' (s, c) = (if s = gk_scope key \<and> c \<in> set (gk_signature key)
      then Some ((case postings p (s, c) of None \<Rightarrow> [] | Some l \<Rightarrow> l) @ [length ?es]) else postings p (s, c))" for s c
    using index_loop_sorted [OF sorted, of None "gk_scope key" "length ?es" "postings p" s c] by (auto simp: p' index_group_pattern_def)
  then have "postings_inv p'" using inv unfolding postings_inv_def post by (auto simp: patterns_inv_def postings_inv_def)
  moreover have "\<forall>entry\<in>set (pp_entries p'). entry_inv ops ?samples entry"
  proof -
    have "entry_inv ops ?samples ?new" using entry_inv_tracked [of key ops samples e0 v e] sorted e nil by simp
    moreover have "entry_inv ops ?samples x" if x: "x \<in> set ?es" for x
      using x fresh inv by (subst entry_inv_other) (auto simp: in_set_conv_nth patterns_inv_def)
    ultimately show ?thesis by (auto simp: es)
  qed
  moreover have "pe_key ` set (pp_entries p') = {k. ?samples k \<noteq> []}"
    using inv by (auto simp: es patterns_inv_def)
  ultimately show ?thesis by (simp add: patterns_inv_def)
qed

lemma patterns_update_inv:
  assumes "patterns_inv ops samples p" "sorted (gk_signature key)" "patterns_update ops key v p = Done p'"
  shows "patterns_inv ops (samples(key := samples key @ [v])) p'"
  using patterns_update_known [OF assms(1) _ assms(3)] patterns_update_new [OF assms(1) _ assms(2,3)]
  by (cases "by_key p key") simp_all


section \<open>The search over the table\<close>

text \<open>The state of the loop after it has met the eligible entries \<open>xs\<close>.\<close>

definition search_of :: "'e estimator_ops \<Rightarrow> u64 \<Rightarrow> 'e pattern_entry list \<Rightarrow> search_state" where
  "search_of ops cap xs =
     \<lparr>closest_len = (if xs = [] then None else Some (Min (sig_len ` set xs))),
      total_weight = of_nat (weight_total (shortest xs)),
      sum_full = of_nat (weight_sum (\<lambda>e. unat (ac_full (estimates_of ops cap e))) (shortest xs)),
      sum_mean = of_nat (weight_sum (\<lambda>e. unat (ac_mean (estimates_of ops cap e))) (shortest xs)),
      sum_floor = of_nat (weight_sum (\<lambda>e. unat (ac_floor (estimates_of ops cap e))) (shortest xs))\<rparr>"

lemma weight_sum_simps [simp]:
  "weight_sum f [] = 0" "weight_sum f (e # es) = f e * unat (weight e) + weight_sum f es"
  "weight_sum f (es @ ds) = weight_sum f es + weight_sum f ds"
  by (simp_all add: weight_sum_def)

lemma weight_total_simps [simp]:
  "weight_total [] = 0" "weight_total (e # es) = unat (weight e) + weight_total es"
  "weight_total (es @ ds) = weight_total es + weight_total ds"
  by (simp_all add: weight_total_def)

lemma shortest_Min: "xs \<noteq> [] \<Longrightarrow> shortest xs = filter (\<lambda>e. sig_len e = Min (sig_len ` set xs)) xs"
  by (auto simp: shortest_def intro!: filter_cong antisym Min.coboundedI)

lemma shortest_snoc:
  assumes "xs \<noteq> []"
  shows "shortest (xs @ [x]) =
    (if Min (sig_len ` set xs) < sig_len x then shortest xs
     else if sig_len x < Min (sig_len ` set xs) then [x] else shortest xs @ [x])"
proof -
  define m where "m = Min (sig_len ` set xs)"
  have m': "Min (sig_len ` set (xs @ [x])) = min (sig_len x) m" using assms by (simp add: m_def)
  have ge: "m \<le> sig_len e" if "e \<in> set xs" for e using that by (simp add: m_def)
  have "filter (\<lambda>e. sig_len e = sig_len x) xs = []" if "sig_len x < m" using that ge
    by (metis (mono_tags, lifting) filter_False leD)
  moreover have "xs @ [x] \<noteq> []" by simp
  ultimately show ?thesis unfolding shortest_Min [OF assms] shortest_Min [OF \<open>xs @ [x] \<noteq> []\<close>] m' m_def [symmetric]
    by (auto simp: min_def)
qed

lemma shortest_single [simp]: "shortest [x] = [x]" "shortest [] = []"
  by (simp_all add: shortest_def)

lemma shortest_nonempty: "xs \<noteq> [] \<Longrightarrow> shortest xs \<noteq> []"
proof -
  assume xs: "xs \<noteq> []"
  then obtain e where "e \<in> set xs" "sig_len e = Min (sig_len ` set xs)"
    using Min_in [of "sig_len ` set xs"] by (metis (mono_tags, lifting) List.finite_set finite_imageI imageE image_is_empty set_empty)
  then show ?thesis using xs by (auto simp: shortest_Min filter_empty_conv)
qed

lemma search_step_eligible:
  assumes at: "at < length (pp_entries p)" and el: "eligible ops scope base ms (pp_entries p ! at)"
    and ran: "pattern_estimates ops (pe_pattern (pp_entries p ! at)) cap \<noteq> Panic"
  shows "search_step ops p scope base ms cap at (search_of ops cap xs) = Done (search_of ops cap (xs @ [pp_entries p ! at]))"
proof -
  define e where "e = pp_entries p ! at"
  have a: "pattern_estimates ops (pe_pattern e) cap = Done (estimates_of ops cap e)"
    using ran by (cases "pattern_estimates ops (pe_pattern e) cap") (simp_all add: estimates_of_def e_def)
  have len: "length (gk_signature (pe_key e)) = sig_len e" by (simp add: sig_len_def)
  note step = search_step_def [of ops p scope base ms cap at, unfolded Let_def, folded e_def, unfolded len]
  have el': "eligible ops scope base ms e" using el by (simp add: e_def)
  have "search_step ops p scope base ms cap at (search_of ops cap xs) = Done (search_of ops cap (xs @ [e]))"
  proof (cases "xs = []")
    case True
    then show ?thesis using at el' a by (simp add: step search_of_def add_estimates_def len)
  next
    case False
    let ?m = "Min (sig_len ` set xs)"
    have m: "Min (insert (sig_len e) (sig_len ` set xs)) = min (sig_len e) ?m" using False by simp
    consider "?m < sig_len e" | "sig_len e < ?m" | "sig_len e = ?m" by (rule linorder_cases)
    then show ?thesis
      using at el' a False
      by cases (simp_all add: step search_of_def add_estimates_def shortest_snoc add.commute del: Min_less_iff Min_gr_iff)
  qed
  then show ?thesis by (simp add: e_def)
qed

lemma search_loop_eligible:
  assumes "\<And>at. at \<in> set ats \<Longrightarrow> at < length (pp_entries p)"
    and "\<And>e. e \<in> set (pp_entries p) \<Longrightarrow> eligible ops scope base ms e \<Longrightarrow> pattern_estimates ops (pe_pattern e) cap \<noteq> Panic"
  shows "search_loop ops p scope base ms cap ats (search_of ops cap xs) =
    Done (search_of ops cap (xs @ filter (eligible ops scope base ms) (map (nth (pp_entries p)) ats)))"
  using assms(1)
proof (induction ats arbitrary: xs)
  case (Cons at ats)
  then have at: "at < length (pp_entries p)" by simp
  show ?case
  proof (cases "eligible ops scope base ms (pp_entries p ! at)")
    case True
    with search_step_eligible [OF at True assms(2)] at Cons.IH [of "xs @ [pp_entries p ! at]"] Cons.prems show ?thesis by simp
  next
    case False
    then show ?thesis using at Cons.IH [of xs] Cons.prems by (simp add: search_step_def)
  qed
qed simp

lemma weight_pos: "0 < unat (weight e)"
proof -
  have "1 \<le> max (gp_occurrence_count (pe_pattern e)) 1" by simp
  then have "1 \<le> unat (max (gp_occurrence_count (pe_pattern e)) 1)" by (metis unat_1 word_le_nat_alt)
  then show ?thesis by (simp add: weight_def)
qed

lemma weight_sum_bound:
  assumes "weight_total es < 2 ^ 64"
  shows "weight_sum (\<lambda>e. unat (f e :: u64)) es \<le> (2 ^ 64 - 1) * weight_total es"
proof (induction es)
  case (Cons e es)
  have "unat (f e) \<le> 2 ^ 64 - 1" using unsigned_less [of "f e", where 'a = nat] by simp
  then have "unat (f e) * unat (weight e) \<le> (2 ^ 64 - 1) * unat (weight e)" by (rule mult_le_mono1)
  with Cons.IH show ?case unfolding weight_sum_simps weight_total_simps distrib_left by (rule add_mono [rotated])
qed simp

lemma weighted_mean_word:
  assumes "weight_total es < 2 ^ 64" "es \<noteq> []"
  shows "ucast (of_nat (weight_sum (\<lambda>e. unat (f e)) es) div of_nat (weight_total es) :: u128) = weighted_mean f es"
proof -
  let ?s = "weight_sum (\<lambda>e. unat (f e)) es" and ?w = "weight_total es"
  have "?s \<le> (2 ^ 64 - 1) * ?w" by (rule weight_sum_bound [OF assms(1)])
  also have "\<dots> < 2 ^ 128" using assms(1) by simp
  finally have s: "unat (of_nat ?s :: u128) = ?s" by (intro unat_of_nat_less) simp
  have w: "unat (of_nat ?w :: u128) = ?w" using assms(1) by (intro unat_of_nat_less) simp
  have "unat (of_nat ?s div of_nat ?w :: u128) = ?s div ?w" by (simp add: unat_div s w)
  then show ?thesis unfolding weighted_mean_def by (metis of_nat_unat)
qed

lemma weight_sum_pos: "es \<noteq> [] \<Longrightarrow> 0 < weight_total es"
  by (cases es) (simp_all add: weight_pos)

lemma search_result_of:
  assumes "weight_total (shortest xs) < 2 ^ 64"
  shows "search_result (search_of ops cap xs) = mean_estimates ops cap (shortest xs)"
proof (cases "xs = []")
  case False
  note es = shortest_nonempty [OF False]
  have "unat (of_nat (weight_total (shortest xs)) :: u128) = weight_total (shortest xs)"
    using assms by (intro unat_of_nat_less) simp
  then have "of_nat (weight_total (shortest xs)) \<noteq> (0 :: u128)" using weight_sum_pos [OF es] by (metis unat_0 less_irrefl)
  then show ?thesis using es by (simp add: search_result_def search_of_def mean_estimates_def weighted_mean_word [OF assms es])
qed (simp add: search_result_def search_of_def mean_estimates_def)


section \<open>Candidates\<close>

lemma smallest_posting_cases:
  "(case smallest_posting m scope previous (Some cur) sig of
      None \<Rightarrow> \<exists>c\<in>set sig. m (scope, c) = None
    | Some l \<Rightarrow> l = cur \<or> (\<exists>c\<in>set sig. m (scope, c) = Some l))"
proof (induction sig arbitrary: previous cur)
  case (Cons c sig)
  show ?case
  proof (cases "previous = Some c")
    case True
    then show ?thesis using Cons.IH [where previous = previous and cur = cur] by (auto split: option.splits)
  next
    case False
    show ?thesis
    proof (cases "m (scope, c)")
      case (Some posting)
      then show ?thesis using False Cons.IH [where previous = "Some c" and cur = posting] Cons.IH [where previous = "Some c" and cur = cur]
        by (auto split: option.splits)
    qed (use False in simp)
  qed
qed simp

lemma candidates_cases:
  assumes "base \<noteq> []"
  shows "(\<exists>c\<in>set base. compatible_candidate_keys p scope base = postings p (scope, c)) \<or>
    compatible_candidate_keys p scope base = None \<and> (\<exists>c\<in>set base. postings p (scope, c) = None)"
proof -
  obtain c sig where base: "base = c # sig" using assms by (cases base) auto
  show ?thesis
  proof (cases "postings p (scope, c)")
    case (Some l)
    then have "compatible_candidate_keys p scope base = smallest_posting (postings p) scope (Some c) (Some l) sig"
      by (simp add: base compatible_candidate_keys_def)
    with Some smallest_posting_cases [where m = "postings p" and scope = scope and previous = "Some c" and cur = l and sig = sig]
    show ?thesis by (cases "smallest_posting (postings p) scope (Some c) (Some l) sig") (force simp: base)+
  qed (auto simp: base compatible_candidate_keys_def)
qed

lemma filter_single: "distinct xs \<Longrightarrow> x \<in> set xs \<Longrightarrow> filter (\<lambda>y. y = x) xs = [x]"
  by (induction xs) (auto simp: filter_empty_conv)

lemma filter_index: "map (nth xs) (filter (\<lambda>i. P (xs ! i)) [0..<length xs]) = filter P xs"
  by (metis (mono_tags, lifting) comp_def filter_cong filter_map map_nth)

lemma eligible_child:
  assumes "entry_inv ops samples e" "sorted base" "eligible ops scope base ms e" "c \<in> set base"
  shows "gk_scope (pe_key e) = scope \<and> c \<in> set (gk_signature (pe_key e))"
proof -
  have "mset base \<subseteq># mset (gk_signature (pe_key e))"
    using assms is_multiset_subset_iff by (auto simp: eligible_def entry_inv_def)
  then show ?thesis using assms(3,4) mset_subset_eqD by (fastforce simp: eligible_def)
qed

text \<open>Whichever candidates are searched, the eligible entries met are those of the whole table.\<close>

lemma candidates_complete:
  fixes scope ms
  assumes inv: "patterns_inv ops samples p" and sorted: "sorted base"
  defines "el \<equiv> filter (eligible ops scope base ms)"
  shows "case compatible_candidate_keys p scope base of
      None \<Rightarrow> el (pp_entries p) = []
    | Some ats \<Rightarrow> (\<forall>at\<in>set ats. at < length (pp_entries p)) \<and> el (map (nth (pp_entries p)) ats) = el (pp_entries p)"
proof (cases "base = []")
  case True
  then show ?thesis by (simp add: compatible_candidate_keys_def map_nth)
next
  case False
  have all: "el (map (nth (pp_entries p)) (posting_of p scope c)) = el (pp_entries p)" if c: "c \<in> set base" for c
  proof -
    have "map (nth (pp_entries p)) (posting_of p scope c) =
        filter (\<lambda>e. gk_scope (pe_key e) = scope \<and> c \<in> set (gk_signature (pe_key e))) (pp_entries p)"
      unfolding posting_of_def has_child_def by (rule filter_index)
    moreover have "gk_scope (pe_key e) = scope \<and> c \<in> set (gk_signature (pe_key e))"
      if "e \<in> set (pp_entries p)" "eligible ops scope base ms e" for e
      using eligible_child [OF _ sorted that(2) c] that(1) inv by (auto simp: patterns_inv_def)
    ultimately show ?thesis by (auto simp: el_def intro!: filter_cong)
  qed
  have range: "\<forall>at\<in>set (posting_of p scope c). at < length (pp_entries p)" for c by (simp add: posting_of_def)
  have post: "posting_of p scope c = (case postings p (scope, c) of None \<Rightarrow> [] | Some l \<Rightarrow> l)" for c
    using inv by (simp add: patterns_inv_def postings_inv_def)
  have *: "case postings p (scope, c) of None \<Rightarrow> el (pp_entries p) = []
    | Some ats \<Rightarrow> (\<forall>at\<in>set ats. at < length (pp_entries p)) \<and> el (map (nth (pp_entries p)) ats) = el (pp_entries p)"
    if c: "c \<in> set base" for c
    using all [OF c] range [of c] post [of c] by (cases "postings p (scope, c)") (simp_all add: el_def)
  from candidates_cases [OF False, of p scope] show ?thesis
  proof
    assume "\<exists>c\<in>set base. compatible_candidate_keys p scope base = postings p (scope, c)"
    then obtain c where c: "c \<in> set base" "compatible_candidate_keys p scope base = postings p (scope, c)" by blast
    show ?thesis unfolding c(2) by (rule * [OF c(1)])
  next
    assume "compatible_candidate_keys p scope base = None \<and> (\<exists>c\<in>set base. postings p (scope, c) = None)"
    then obtain c where c: "compatible_candidate_keys p scope base = None" "c \<in> set base" "postings p (scope, c) = None" by blast
    from * [OF c(2)] show ?thesis by (simp add: c(1,3))
  qed
qed

lemma mean_estimates_single: "mean_estimates ops cap [e] = Some (estimates_of ops cap e)"
  using weight_pos [of e] by (simp add: mean_estimates_def weighted_mean_def weight_sum_def weight_total_def)

text \<open>An entry for the children themselves is the only closest one.\<close>

lemma closest_exact:
  assumes inv: "patterns_inv ops samples p" and sorted: "sorted base"
    and at: "by_key p \<lparr>gk_scope = scope, gk_signature = base\<rparr> = Some at"
    and ok: "ms \<le> gp_occurrence_count (pe_pattern (pp_entries p ! at))"
      "e_can_estimate ops (gp_estimator (pe_pattern (pp_entries p ! at)))"
  shows "closest ops scope base ms (pp_entries p) = [pp_entries p ! at]"
proof -
  let ?es = "pp_entries p" and ?e = "pp_entries p ! at"
  have e: "?e \<in> set ?es" "pe_key ?e = \<lparr>gk_scope = scope, gk_signature = base\<rparr>"
    using inv at by (auto simp: patterns_inv_def keys_inv_def)
  then have el: "eligible ops scope base ms ?e" using ok is_multiset_subset_iff [OF sorted sorted] by (simp add: eligible_def)
  have distinct: "distinct (map pe_key ?es)" using inv keys_distinct by (auto simp: patterns_inv_def)
  have len: "length base \<le> sig_len d \<and> (sig_len d = length base \<longrightarrow> d = ?e)"
    if d: "d \<in> set ?es" "eligible ops scope base ms d" for d
  proof -
    have ds: "sorted (gk_signature (pe_key d))" using d inv by (simp add: patterns_inv_def entry_inv_def)
    then have sub: "mset base \<subseteq># mset (gk_signature (pe_key d))"
      using d(2) is_multiset_subset_iff [OF sorted] by (simp add: eligible_def)
    then have le: "length base \<le> sig_len d" using size_mset_mono by (fastforce simp: sig_len_def)
    have "d = ?e" if "sig_len d = length base"
    proof -
      have "mset (gk_signature (pe_key d)) = mset base" using sub that
        by (metis mset_subset_size nat_neq_iff sig_len_def size_mset subset_mset.le_imp_less_or_eq)
      then have "gk_signature (pe_key d) = base" using ds sorted by (metis properties_for_sort)
      then have "pe_key d = pe_key ?e" using d(2) e(2) by (cases "pe_key d") (simp add: eligible_def)
      then show ?thesis using distinct d(1) e(1) by (metis distinct_map inj_onD)
    qed
    with le show ?thesis by blast
  qed
  have "sig_len ?e = length base" using e(2) by (simp add: sig_len_def)
  then have "closest ops scope base ms ?es = filter (\<lambda>d. d = ?e) ?es"
    unfolding closest_def shortest_def filter_filter
  proof (intro filter_cong refl)
    fix d
    assume d: "d \<in> set ?es"
    show "(eligible ops scope base ms d \<and> (\<forall>x\<in>set (filter (eligible ops scope base ms) ?es). sig_len d \<le> sig_len x)) = (d = ?e)"
    proof
      assume "eligible ops scope base ms d \<and> (\<forall>x\<in>set (filter (eligible ops scope base ms) ?es). sig_len d \<le> sig_len x)"
      then have "eligible ops scope base ms d" "sig_len d \<le> length base" using el e(1) \<open>sig_len ?e = length base\<close> by auto
      then show "d = ?e" using len [OF d] by auto
    qed (use el len \<open>sig_len ?e = length base\<close> in auto)
  qed
  also have "\<dots> = [?e]" using e(1) distinct by (simp add: distinct_map filter_single)
  finally show ?thesis .
qed


lemma closest_compatible_lookup_spec:
  assumes inv: "patterns_inv ops samples p" and sorted: "sorted base"
    and ran: "\<And>e. e \<in> set (pp_entries p) \<Longrightarrow> e_can_estimate ops (gp_estimator (pe_pattern e)) \<Longrightarrow>
      pattern_estimates ops (pe_pattern e) cap \<noteq> Panic"
    and total: "weight_total (pp_entries p) < 2 ^ 64"
  shows "closest_compatible_lookup ops p scope base ms cap = Done (mean_estimates ops cap (closest ops scope base ms (pp_entries p)))"
proof -
  let ?es = "pp_entries p" and ?key = "\<lparr>gk_scope = scope, gk_signature = base\<rparr>"
  let ?mean = "mean_estimates ops cap (closest ops scope base ms ?es)"
  have "weight_total (filter Q xs) \<le> weight_total xs" for Q and xs :: "'a pattern_entry list" by (induction xs) auto
  then have "weight_total (closest ops scope base ms ?es) \<le> weight_total ?es"
    unfolding closest_def shortest_def filter_filter .
  then have small: "weight_total (shortest (filter (eligible ops scope base ms) ?es)) < 2 ^ 64"
    using total by (simp add: closest_def)
  have start: "search_start = search_of ops cap []" by (simp add: search_start_def search_of_def)
  have "(case compatible_candidate_keys p scope base of None \<Rightarrow> Done None
      | Some ats \<Rightarrow> map_exec search_result (search_loop ops p scope base ms cap ats search_start)) = Done ?mean"
  proof (cases "compatible_candidate_keys p scope base")
    case None
    then show ?thesis using candidates_complete [OF inv sorted, of scope ms] by (simp add: closest_def mean_estimates_def)
  next
    case (Some ats)
    then have ats: "\<And>at. at \<in> set ats \<Longrightarrow> at < length ?es"
      "filter (eligible ops scope base ms) (map (nth ?es) ats) = filter (eligible ops scope base ms) ?es"
      using candidates_complete [OF inv sorted, of scope ms] by auto
    have "search_loop ops p scope base ms cap ats (search_of ops cap []) =
        Done (search_of ops cap ([] @ filter (eligible ops scope base ms) (map (nth ?es) ats)))"
      by (rule search_loop_eligible [OF ats(1)]) (use ran in \<open>auto simp: eligible_def\<close>)
    then show ?thesis using Some small by (simp add: start ats(2) search_result_of closest_def)
  qed
  moreover have "map_exec Some (pattern_estimates ops (pe_pattern (?es ! at)) cap) = Done ?mean"
    if at: "by_key p ?key = Some at" and ok: "ms \<le> gp_occurrence_count (pe_pattern (?es ! at))"
      "e_can_estimate ops (gp_estimator (pe_pattern (?es ! at)))" for at
  proof -
    have "at < length ?es" using inv at by (simp add: patterns_inv_def keys_inv_def)
    then obtain a where "pattern_estimates ops (pe_pattern (?es ! at)) cap = Done a"
      using ran [OF _ ok(2)] by (cases "pattern_estimates ops (pe_pattern (?es ! at)) cap") auto
    then show ?thesis by (simp add: closest_exact [OF inv sorted at ok] mean_estimates_single estimates_of_def)
  qed
  moreover have "at < length ?es" if "by_key p ?key = Some at" for at using inv that by (simp add: patterns_inv_def keys_inv_def)
  ultimately show ?thesis
    by (cases "by_key p ?key") (simp_all add: closest_compatible_lookup_def index_def Let_def)
qed

section \<open>Runs of updates\<close>

lemma pattern_samples_append: "pattern_samples at k (us @ ws) = pattern_samples at k us @ pattern_samples at k ws"
  by (induction us) auto

lemma length_pattern_samples: "length (pattern_samples at k us) \<le> length us"
  by (induction us) auto

lemma pattern_samples_total: "finite K \<Longrightarrow> (\<Sum>k\<in>K. length (pattern_samples at k us)) \<le> length us"
proof (induction us)
  case (Cons u us)
  obtain root parent scope sig v where u: "u = (root, parent, scope, sig, v)" by (cases u)
  let ?key = "\<lparr>gk_scope = scope, gk_signature = sig\<rparr>"
  have "(\<Sum>k\<in>K. length (pattern_samples at k (u # us))) \<le>
      (\<Sum>k\<in>K. (if k = ?key then 1 else 0) + length (pattern_samples at k us))"
    by (rule sum_mono) (auto simp: u)
  also have "\<dots> \<le> 1 + length us"
    using Cons.IH [OF Cons.prems] sum.delta [OF Cons.prems, of ?key "\<lambda>_. 1 :: nat"] by (simp add: sum.distrib)
  finally show ?case by simp
qed simp

lemma weight_total_samples:
  assumes "keys_inv p" "length us < 2 ^ 64"
    and "\<And>e. e \<in> set (pp_entries p) \<Longrightarrow>
      gp_occurrence_count (pe_pattern e) = of_nat (length (pattern_samples at (pe_key e) us)) \<and> pattern_samples at (pe_key e) us \<noteq> []"
  shows "weight_total (pp_entries p) < 2 ^ 64"
proof -
  have w: "unat (weight e) = length (pattern_samples at (pe_key e) us)" if e: "e \<in> set (pp_entries p)" for e
  proof -
    let ?n = "length (pattern_samples at (pe_key e) us)"
    have n: "unat (of_nat ?n :: u64) = ?n"
      using assms(2) length_pattern_samples [of at "pe_key e" us] by (intro unat_of_nat_less) simp
    then have "(1 :: u64) \<le> of_nat ?n" using assms(3) [OF e] by (simp add: word_le_nat_alt Suc_le_eq)
    then show ?thesis using assms(3) [OF e] n by (simp add: weight_def max_def)
  qed
  then have "weight_total (pp_entries p) = (\<Sum>k\<leftarrow>map pe_key (pp_entries p). length (pattern_samples at k us))"
    by (simp add: weight_total_def comp_def cong: map_cong)
  also have "\<dots> = (\<Sum>k\<in>set (map pe_key (pp_entries p)). length (pattern_samples at k us))"
    by (rule sum_list_distinct_conv_sum_set [OF keys_distinct [OF assms(1)]])
  also have "\<dots> \<le> length us" by (rule pattern_samples_total) simp
  finally show ?thesis using assms(2) by simp
qed

definition table_inv :: "'e estimator_ops \<Rightarrow> fanout_update list \<Rightarrow> 'e fanout_table \<Rightarrow> bool" where
  "table_inv ops us t \<longleftrightarrow> (\<forall>at. patterns_inv ops (\<lambda>k. pattern_samples at k us) (patterns_at t at))"

definition sorted_update :: "fanout_update \<Rightarrow> bool" where
  "sorted_update u = (case u of (_, _, _, sig, _) \<Rightarrow> sorted sig)"

lemma table_update_inv:
  assumes "table_inv ops us t" "sorted sig" "table_update ops root parent scope sig v t = Done t'"
  shows "table_inv ops (us @ [(root, parent, scope, sig, v)]) t'"
  unfolding table_inv_def
proof
  fix at
  let ?key = "\<lparr>gk_scope = scope, gk_signature = sig\<rparr>"
  obtain p where p: "patterns_update ops ?key v (patterns_at t (root, parent)) = Done p" "t' = t((root, parent) \<mapsto> p)"
    using assms(3) by (auto simp: table_update_def patterns_at_def exec_simps Let_def)
  have "(\<lambda>k. pattern_samples (root, parent) k (us @ [(root, parent, scope, sig, v)])) =
      (\<lambda>k. pattern_samples (root, parent) k us)(?key := pattern_samples (root, parent) ?key us @ [v])"
    by (auto simp: pattern_samples_append)
  with patterns_update_inv [OF _ _ p(1), of "\<lambda>k. pattern_samples (root, parent) k us"] assms(1,2)
  have p_inv: "patterns_inv ops (\<lambda>k. pattern_samples (root, parent) k (us @ [(root, parent, scope, sig, v)])) p"
    by (simp add: table_inv_def)
  show "patterns_inv ops (\<lambda>k. pattern_samples at k (us @ [(root, parent, scope, sig, v)])) (patterns_at t' at)"
  proof (cases "at = (root, parent)")
    case True
    then show ?thesis using p_inv by (simp add: patterns_at_def p(2))
  next
    case False
    then have "pattern_samples at k (us @ [(root, parent, scope, sig, v)]) = pattern_samples at k us" for k
      by (simp add: pattern_samples_append)
    moreover have "patterns_at t' at = patterns_at t at" using False by (simp add: patterns_at_def p(2))
    ultimately show ?thesis using assms(1) [unfolded table_inv_def, rule_format, of at] by simp
  qed
qed

text \<open>
  The table holds one entry per group observed, with its values tracked in order and its
  occurrences counted, and a look-up is the mean over the closest entries, under the path first.
\<close>

definition fanout_exact :: "'e estimator_ops \<Rightarrow> fanout_update list \<Rightarrow> method_id \<Rightarrow> method_id \<Rightarrow> path_prefix \<Rightarrow>
    method_id list \<Rightarrow> u64 \<Rightarrow> u64 \<Rightarrow> bool" where
  "fanout_exact ops us root parent prefix base min_samples cap \<longleftrightarrow>
     (\<exists>t. table_run ops us table_new = Done t \<and>
        (let es = pp_entries (patterns_at t (root, parent)); samples = (\<lambda>k. pattern_samples (root, parent) k us) in
         distinct (map pe_key es) \<and> set (map pe_key es) = {k. samples k \<noteq> []} \<and>
         (\<forall>e\<in>set es. unat (gp_occurrence_count (pe_pattern e)) = length (samples (pe_key e)) \<and>
            bind_exec (e_default ops) (track_all (e_track ops) (samples (pe_key e))) = Done (gp_estimator (pe_pattern e))) \<and>
         lookup_estimate ops root parent prefix base min_samples cap t =
           Done (closest_estimates ops prefix base min_samples cap es)))"

context latency_estimator
begin

lemma track_all_tracked:
  "length vs < 2 ^ 64 \<Longrightarrow> \<exists>e. bind_exec (e_default ops) (track_all (e_track ops) vs) = Done e \<and> tracked vs e"
proof (induction vs rule: rev_induct)
  case (snoc v vs)
  then obtain e where e: "bind_exec (e_default ops) (track_all (e_track ops) vs) = Done e" "tracked vs e" by auto
  from track [OF e(2), of v] snoc.prems obtain e' where "e_track ops v e = Done e'" "tracked (vs @ [v]) e'" by auto
  with e(1) show ?case by (auto simp: exec_simps track_all_append)
qed (use start in auto)

lemma tracked_estimates:
  assumes "tracked vs (gp_estimator g)" "e_can_estimate ops (gp_estimator g)"
  shows "pattern_estimates ops g cap \<noteq> Panic"
  using estimate [OF assms, of "e_estimate ops"] estimate [OF assms, of "e_mean_estimate ops"]
    estimate [OF assms, of "e_mean_floor_estimate ops"] by (auto simp: pattern_estimates_def)

lemma entry_tracked:
  assumes "entry_inv ops samples e" "length (samples (pe_key e)) < 2 ^ 64"
  shows "tracked (samples (pe_key e)) (gp_estimator (pe_pattern e))"
  using track_all_tracked [OF assms(2)] assms(1) by (auto simp: entry_inv_def)

lemma patterns_update_runs:
  assumes "patterns_inv ops samples p" "\<And>k. Suc (length (samples k)) < 2 ^ 64"
  shows "patterns_update ops key v p \<noteq> Panic"
proof (cases "by_key p key")
  case None
  obtain e where "e_default ops = Done e" "tracked [] e" using start by blast
  with None track [of "[]" e v] show ?thesis by (auto simp: patterns_update_def)
next
  case (Some at)
  then have at: "at < length (pp_entries p)" using assms(1) by (simp add: patterns_inv_def keys_inv_def)
  let ?e = "pp_entries p ! at"
  have "entry_inv ops samples ?e" using assms(1) at by (simp add: patterns_inv_def)
  from entry_tracked [OF this] assms(2) [of "pe_key ?e"] have "tracked (samples (pe_key ?e)) (gp_estimator (pe_pattern ?e))" by simp
  from track [OF this assms(2), of v] Some at show ?thesis by (auto simp: patterns_update_def index_def)
qed

lemma table_run_inv:
  "table_inv ops us t \<Longrightarrow> \<forall>u\<in>set ws. sorted_update u \<Longrightarrow> length us + length ws < 2 ^ 64 \<Longrightarrow>
   \<exists>t'. table_run ops ws t = Done t' \<and> table_inv ops (us @ ws) t'"
proof (induction ws arbitrary: us t)
  case (Cons w ws)
  obtain root parent scope sig v where w: "w = (root, parent, scope, sig, v)" by (cases w)
  let ?key = "\<lparr>gk_scope = scope, gk_signature = sig\<rparr>" and ?at = "(root, parent)"
  have len: "Suc (length (pattern_samples ?at k us)) < 2 ^ 64" for k
    using Cons.prems(3) length_pattern_samples [of ?at k us] by simp
  have "patterns_inv ops (\<lambda>k. pattern_samples ?at k us) (patterns_at t ?at)"
    using Cons.prems(1) unfolding table_inv_def by blast
  from patterns_update_runs [OF this len, of ?key v] obtain t1 where t1: "table_update ops root parent scope sig v t = Done t1"
    by (cases "patterns_update ops ?key v (patterns_at t ?at)") (auto simp: table_update_def patterns_at_def Let_def)
  have "table_inv ops (us @ [w]) t1"
    using table_update_inv [OF Cons.prems(1) _ t1] Cons.prems(2) by (simp add: w sorted_update_def)
  from Cons.IH [OF this] Cons.prems(2,3) obtain t' where "table_run ops ws t1 = Done t'" "table_inv ops (us @ w # ws) t'" by auto
  then show ?case using t1 by (simp add: w)
qed simp

lemma fanout_exact:
  assumes us: "\<forall>u\<in>set us. sorted_update u" "length us < 2 ^ 64" and base: "sorted base"
  shows "fanout_exact ops us root parent prefix base ms cap"
proof -
  have "table_inv ops [] table_new"
    by (simp add: table_inv_def table_new_def patterns_at_def patterns_default_inv)
  from table_run_inv [OF this us(1)] us(2) obtain t where t: "table_run ops us table_new = Done t" "table_inv ops us t" by auto
  define p where "p = patterns_at t (root, parent)"
  let ?samples = "\<lambda>k. pattern_samples (root, parent) k us"
  have inv: "patterns_inv ops ?samples p" using t(2) by (simp add: table_inv_def p_def)
  have len: "length (?samples k) < 2 ^ 64" for k using us(2) length_pattern_samples [of "(root, parent)" k us] by simp
  have es: "entry_inv ops ?samples e" "?samples (pe_key e) \<noteq> []" if e: "e \<in> set (pp_entries p)" for e
    using inv e by (auto simp: patterns_inv_def)
  have ran: "pattern_estimates ops (pe_pattern e) cap \<noteq> Panic"
    if "e \<in> set (pp_entries p)" "e_can_estimate ops (gp_estimator (pe_pattern e))" for e
    using tracked_estimates [OF entry_tracked [OF es(1) [OF that(1)] len] that(2)] .
  have "keys_inv p" using inv by (simp add: patterns_inv_def)
  from weight_total_samples [OF this us(2), of "(root, parent)"] es have total: "weight_total (pp_entries p) < 2 ^ 64"
    by (simp add: entry_inv_def)
  note lookup = closest_compatible_lookup_spec [OF inv base ran total]
  have "lookup_estimate ops root parent prefix base ms cap t = Done (closest_estimates ops prefix base ms cap (pp_entries p))"
  proof (cases "t (root, parent)")
    case None
    then have "pp_entries p = []" by (simp add: p_def patterns_at_def patterns_default_def)
    then show ?thesis using None by (simp add: lookup_estimate_def closest_estimates_def closest_def mean_estimates_def)
  next
    case (Some q)
    then have "q = p" by (simp add: p_def patterns_at_def)
    then show ?thesis using Some by (simp add: lookup_estimate_def lookup closest_estimates_def split: option.splits)
  qed
  moreover have "unat (of_nat (length (?samples k)) :: u64) = length (?samples k)" for k using len [of k] by (intro unat_of_nat_less) simp
  ultimately show ?thesis
    using t(1) es keys_distinct [OF \<open>keys_inv p\<close>] inv by (auto simp: fanout_exact_def p_def Let_def entry_inv_def patterns_inv_def)
qed

end

section \<open>Properties of fan-out patterns\<close>

text \<open>
  Claim C26. The table of fan-out patterns answers as a scan of everything it was told. After any
  updates with sorted signatures, fewer than an occurrence counter can count, it holds exactly one
  entry per group observed under the parent, with the group's values tracked in order; the estimate
  for a set of children is the mean, weighted by occurrences and free of wrap-around, over the
  groups of least size that contain them and are known well enough, under the path if there is
  one and over all paths otherwise. Neither the posting lists nor the exact match change the
  answer, and nothing panics, whichever of the three estimators is used.
\<close>

theorem fanout_lookup_closest:
  assumes "\<forall>u\<in>set us. sorted_update u" "length us < 2 ^ 64" "sorted base"
  shows "fanout_exact ewma_ops us root parent prefix base min_samples cap \<and>
    fanout_exact rms_ops us root parent prefix base min_samples cap \<and>
    fanout_exact dist_ops us root parent prefix base min_samples cap"
  using ewma_est.fanout_exact [OF assms] rms_est.fanout_exact [OF assms] dist_est.fanout_exact [OF assms] by blast


theorem fanout_lookup_closest_witness:
  "fanout_exact ewma_ops [(1, 2, Aggregate, [3, 4], 10), (1, 2, Aggregate, [3, 4, 5], 20)] 1 2 pp_root [3] 1 100 \<and>
   bind_exec (table_run ewma_ops [(1, 2, Aggregate, [3, 4], 10), (1, 2, Aggregate, [3, 4, 5], 20)] table_new)
     (lookup_estimate ewma_ops 1 2 pp_root [3] 1 100) = Done \<lparr>ac_full = 10, ac_mean = 10, ac_floor = 10\<rparr>"
proof
  have "\<forall>u\<in>set [(1, 2, Aggregate, [3, 4], 10), (1, 2, Aggregate, [3, 4, 5], 20)]. sorted_update u" "sorted [3 :: method_id]"
    "length [(1, 2, Aggregate, [3, 4], 10), (1, 2, Aggregate, [3, 4, 5], 20)] < 2 ^ 64"
    by (simp_all add: sorted_update_def)
  from fanout_lookup_closest [OF this(1,3,2), of 1 2 pp_root 1 100]
  show "fanout_exact ewma_ops [(1, 2, Aggregate, [3, 4], 10), (1, 2, Aggregate, [3, 4, 5], 20)] 1 2 pp_root [3] 1 100" by blast
qed code_simp


section \<open>Groups of overlapping children\<close>

text \<open>The same loops with whole records kept instead of what is observed of them.\<close>

fun group_loop :: "child_record list \<Rightarrow> nat \<Rightarrow> child_record list \<Rightarrow> child_record list list" where
  "group_loop [] m g = [g]"
| "group_loop (c # cs) m g =
     (if cr_start c \<le> m then group_loop cs (max m (the (cr_end c))) (g @ [c]) else g # group_loop cs (the (cr_end c)) [c])"

definition last_end :: "child_record list \<Rightarrow> nat" where
  "last_end g = Max (the ` cr_end ` set g)"

definition completed :: "child_record list \<Rightarrow> child_record list" where
  "completed children = filter (\<lambda>c. cr_end c \<noteq> None) children"

definition overlap :: "child_record \<Rightarrow> child_record \<Rightarrow> bool" where
  "overlap c d \<longleftrightarrow> cr_start c \<le> the (cr_end d) \<and> cr_start d \<le> the (cr_end c)"

text \<open>The path prefixes of the groups: each is built from the signatures before it.\<close>

fun prefixes :: "path_prefix \<Rightarrow> method_id list list \<Rightarrow> path_prefix list" where
  "prefixes p [] = []"
| "prefixes p (sig # sigs) = p # prefixes (append_signature p sig) sigs"

lemma last_end_snoc: "g \<noteq> [] \<Longrightarrow> last_end (g @ [c]) = max (last_end g) (the (cr_end c))"
  by (simp add: last_end_def max.commute)

lemma last_end_single [simp]: "last_end [c] = the (cr_end c)"
  by (simp add: last_end_def)

lemma end_le_last_end: "c \<in> set g \<Longrightarrow> the (cr_end c) \<le> last_end g"
  by (simp add: last_end_def)

lemma last_end_attained: "g \<noteq> [] \<Longrightarrow> \<exists>c\<in>set g. the (cr_end c) = last_end g"
proof -
  assume "g \<noteq> []"
  then have "last_end g \<in> the ` cr_end ` set g" unfolding last_end_def by (intro Max_in) simp_all
  then show ?thesis by auto
qed

lemma recover_loop_groups:
  "g \<noteq> [] \<Longrightarrow> recover_loop pe cs (last_end g) (map cr_child_id g) out =
     out @ map (\<lambda>g. group_observation (map cr_child_id g) (last_end g) pe) (group_loop cs (last_end g) g)"
proof (induction cs arbitrary: g out)
  case (Cons c cs)
  show ?case using Cons.IH [of "g @ [c]"] Cons.IH [of "[c]"] Cons.prems by (auto simp: last_end_snoc Let_def)
qed simp

lemma recover_path_loop_groups:
  "g \<noteq> [] \<Longrightarrow> recover_path_loop pe cs (last_end g) (map cr_child_id g) (map cr_child_service_id g) (out, p, q) =
     (let gs = group_loop cs (last_end g) g; sigs = map (\<lambda>g. sort (map cr_child_id g)) gs;
          service_sigs = map (\<lambda>g. sort (map cr_child_service_id g)) gs in
      out @ map (\<lambda>(g, p, q). \<lparr>pf_path_prefix = p, pf_service_path_prefix = q, pf_signature = sort (map cr_child_id g),
          pf_service_signature = sort (map cr_child_service_id g), pf_post_join_us = post_join_us (last_end g) pe\<rparr>)
        (zip gs (zip (prefixes p sigs) (prefixes q service_sigs))))"
proof (induction cs arbitrary: g out p q)
  case (Cons c cs)
  show ?case
    using Cons.IH [of "g @ [c]"] Cons.IH [of "[c]"] Cons.prems
    by (auto simp: last_end_snoc Let_def push_path_group_def)
qed (simp add: push_path_group_def)

text \<open>Inside a group each child starts before an earlier one of it ends; after a group all have ended.\<close>

definition chained :: "child_record list \<Rightarrow> bool" where
  "chained g \<longleftrightarrow> (\<forall>i<length g. 0 < i \<longrightarrow> (\<exists>j<i. cr_start (g ! i) \<le> the (cr_end (g ! j))))"

definition apart :: "child_record list \<Rightarrow> child_record list \<Rightarrow> bool" where
  "apart g h \<longleftrightarrow> (\<forall>c\<in>set g. \<forall>d\<in>set h. the (cr_end c) < cr_start d)"

lemma chained_snoc:
  assumes "chained g" "g \<noteq> []" "cr_start c \<le> last_end g"
  shows "chained (g @ [c])"
proof -
  obtain d where "d \<in> set g" "cr_start c \<le> the (cr_end d)" using last_end_attained [OF assms(2)] assms(3) by auto
  then obtain j where j: "j < length g" "cr_start c \<le> the (cr_end (g ! j))" by (auto simp: in_set_conv_nth)
  show ?thesis unfolding chained_def
  proof (intro allI impI)
    fix i assume i: "i < length (g @ [c])" "0 < i"
    show "\<exists>k<i. cr_start ((g @ [c]) ! i) \<le> the (cr_end ((g @ [c]) ! k))"
    proof (cases "i < length g")
      case True
      then obtain k where "k < i" "cr_start (g ! i) \<le> the (cr_end (g ! k))" using assms(1) i(2) unfolding chained_def by blast
      then show ?thesis using True by (intro exI [of _ k]) (simp add: nth_append)
    next
      case False
      then show ?thesis using j i(1) by (intro exI [of _ j]) (simp add: nth_append less_Suc_eq)
    qed
  qed
qed

lemma concat_group_loop: "concat (group_loop cs m g) = g @ cs"
  by (induction cs m g rule: group_loop.induct) auto

lemma group_loop_spec:
  "g \<noteq> [] \<Longrightarrow> chained g \<Longrightarrow> sorted (map cr_start (g @ cs)) \<Longrightarrow>
   (\<forall>h\<in>set (group_loop cs (last_end g) g). h \<noteq> [] \<and> chained h) \<and> sorted_wrt apart (group_loop cs (last_end g) g)"
proof (induction cs arbitrary: g)
  case (Cons c cs)
  show ?case
  proof (cases "cr_start c \<le> last_end g")
    case True
    then show ?thesis using Cons.IH [of "g @ [c]"] Cons.prems chained_snoc [OF Cons.prems(2,1) True]
      by (simp add: last_end_snoc)
  next
    case False
    have c: "chained [c]" by (simp add: chained_def)
    have "apart g h" if h: "h \<in> set (group_loop cs (the (cr_end c)) [c])" for h
    proof -
      have "set h \<subseteq> set (c # cs)" using h concat_group_loop [of cs "the (cr_end c)" "[c]"] by (metis UN_upper append_Cons append_Nil set_concat)
      moreover have "last_end g < cr_start d" if "d \<in> set (c # cs)" for d
        using that Cons.prems(3) False by (fastforce simp: sorted_append)
      ultimately have "last_end g < cr_start d" if "d \<in> set h" for d using that by blast
      then show ?thesis unfolding apart_def using end_le_last_end by (meson le_less_trans)
    qed
    then show ?thesis using False Cons.IH [of "[c]"] Cons.prems c by (auto simp: sorted_append)
  qed
qed auto


definition linked :: "child_record list \<Rightarrow> child_record \<Rightarrow> child_record \<Rightarrow> bool" where
  "linked cs c d \<longleftrightarrow> c \<in> set cs \<and> d \<in> set cs \<and> overlap c d"

lemma linked_sym: "(linked cs)\<^sup>*\<^sup>* c d \<Longrightarrow> (linked cs)\<^sup>*\<^sup>* d c"
  by (rule sympD [OF symp_rtranclp]) (auto simp: symp_def linked_def overlap_def)

lemma chained_linked:
  assumes "chained g" "set g \<subseteq> set cs" "sorted (map cr_start g)" "\<And>c. c \<in> set cs \<Longrightarrow> cr_start c \<le> the (cr_end c)"
  shows "i < length g \<Longrightarrow> (linked cs)\<^sup>*\<^sup>* (g ! 0) (g ! i)"
proof (induction i rule: less_induct)
  case (less i)
  show ?case
  proof (cases "i = 0")
    case False
    then obtain j where j: "j < i" "cr_start (g ! i) \<le> the (cr_end (g ! j))" using assms(1) less.prems unfolding chained_def by auto
    have "g ! i \<in> set cs" "g ! j \<in> set cs" using assms(2) less.prems j(1) by (auto simp: subset_iff)
    moreover have "cr_start (g ! j) \<le> cr_start (g ! i)" using sorted_nth_mono [OF assms(3), of j i] j(1) less.prems by simp
    ultimately have "linked cs (g ! j) (g ! i)" using j(2) assms(4) [of "g ! i"] by (auto simp: linked_def overlap_def)
    with less.IH [OF j(1)] j(1) less.prems show ?thesis by (meson less_trans rtranclp.rtrancl_into_rtrancl)
  qed simp
qed

lemma sorted_concat_part: "sorted (map f (concat gs)) \<Longrightarrow> g \<in> set gs \<Longrightarrow> sorted (map f g)"
  by (induction gs) (auto simp: sorted_append)

lemma apart_components:
  assumes "sorted_wrt apart gs" "set (concat gs) = set cs" "(linked cs)\<^sup>*\<^sup>* c d" "c \<in> set cs"
  shows "\<exists>g\<in>set gs. c \<in> set g \<and> d \<in> set g"
  using assms(3)
proof (induction rule: rtranclp_induct)
  case base
  then show ?case using assms(2,4) by auto
next
  case (step d e)
  then obtain i where i: "i < length gs" "c \<in> set (gs ! i)" "d \<in> set (gs ! i)" by (metis in_set_conv_nth)
  have "e \<in> set cs" "overlap d e" using step.hyps(2) by (simp_all add: linked_def)
  then have "\<exists>h\<in>set gs. e \<in> set h" using assms(2) by auto
  then obtain j where j: "j < length gs" "e \<in> set (gs ! j)" by (metis in_set_conv_nth)
  have "i = j"
  proof (rule ccontr)
    assume "i \<noteq> j"
    then have "apart (gs ! i) (gs ! j) \<or> apart (gs ! j) (gs ! i)"
      using sorted_wrt_nth_less [OF assms(1)] i(1) j(1) by (meson linorder_neqE_nat)
    then show False using i(3) j(2) \<open>overlap d e\<close> unfolding apart_def overlap_def by (meson leD)
  qed
  then show ?case using i j by (metis nth_mem)
qed

lemma group_loop_components:
  assumes cs: "cs = c # rest" "sorted (map cr_start cs)" and clock: "\<And>c. c \<in> set cs \<Longrightarrow> cr_start c \<le> the (cr_end c)"
  defines "gs \<equiv> group_loop rest (the (cr_end c)) [c]"
  shows "concat gs = cs" "[] \<notin> set gs" "sorted_wrt apart gs"
    "\<And>a b. a \<in> set cs \<Longrightarrow> (\<exists>g\<in>set gs. a \<in> set g \<and> b \<in> set g) \<longleftrightarrow> (linked cs)\<^sup>*\<^sup>* a b"
proof -
  have "chained [c]" by (simp add: chained_def)
  with group_loop_spec [of "[c]" rest] cs
  have spec: "\<forall>h\<in>set gs. h \<noteq> [] \<and> chained h" "sorted_wrt apart gs" by (simp_all add: gs_def)
  then show "[] \<notin> set gs" "sorted_wrt apart gs" by auto
  show all: "concat gs = cs" using concat_group_loop cs(1) by (simp add: gs_def)
  fix a b assume a: "a \<in> set cs"
  show "(\<exists>g\<in>set gs. a \<in> set g \<and> b \<in> set g) \<longleftrightarrow> (linked cs)\<^sup>*\<^sup>* a b"
  proof
    assume "\<exists>g\<in>set gs. a \<in> set g \<and> b \<in> set g"
    then obtain g i j where g: "g \<in> set gs" "i < length g" "a = g ! i" "j < length g" "b = g ! j" by (auto simp: in_set_conv_nth)
    have "set g \<subseteq> set cs" "sorted (map cr_start g)" using g(1) all cs(2) sorted_concat_part by fastforce+
    note link = chained_linked [OF _ this clock, of _]
    have "(linked cs)\<^sup>*\<^sup>* (g ! 0) a" "(linked cs)\<^sup>*\<^sup>* (g ! 0) b" using link g spec(1) by auto
    then show "(linked cs)\<^sup>*\<^sup>* a b" by (meson linked_sym rtranclp_trans)
  next
    assume "(linked cs)\<^sup>*\<^sup>* a b"
    then show "\<exists>g\<in>set gs. a \<in> set g \<and> b \<in> set g" using apart_components [OF spec(2) _ _ a] all by simp
  qed
qed

lemma recovered_components:
  assumes "\<forall>c\<in>set children. \<forall>at. cr_end c = Some at \<longrightarrow> cr_start c \<le> at"
  shows "\<exists>gs. concat gs = sort_key cr_start (completed children) \<and> [] \<notin> set gs \<and> sorted_wrt apart gs \<and>
    (\<forall>a b. a \<in> set (completed children) \<longrightarrow>
       ((\<exists>g\<in>set gs. a \<in> set g \<and> b \<in> set g) \<longleftrightarrow> (linked (completed children))\<^sup>*\<^sup>* a b)) \<and>
    recover_groups children parent_end =
      map (\<lambda>g. (sort (map cr_child_id g), post_join_us (last_end g) parent_end)) gs \<and>
    recover_path_groups children parent_end =
      map (\<lambda>(g, p, q). \<lparr>pf_path_prefix = p, pf_service_path_prefix = q, pf_signature = sort (map cr_child_id g),
          pf_service_signature = sort (map cr_child_service_id g), pf_post_join_us = post_join_us (last_end g) parent_end\<rparr>)
        (zip gs (zip (prefixes pp_root (map (\<lambda>g. sort (map cr_child_id g)) gs))
           (prefixes pp_root (map (\<lambda>g. sort (map cr_child_service_id g)) gs))))"
proof -
  let ?cs = "sort_key cr_start (completed children)"
  have recover: "recover_group_observations children parent_end =
      (case ?cs of [] \<Rightarrow> [] | c # cs \<Rightarrow> recover_loop parent_end cs (the (cr_end c)) [cr_child_id c] [])"
    "recover_path_groups children parent_end = (case ?cs of [] \<Rightarrow> [] | c # cs \<Rightarrow>
      recover_path_loop parent_end cs (the (cr_end c)) [cr_child_id c] [cr_child_service_id c] ([], pp_root, pp_root))"
    by (simp_all add: recover_group_observations_def recover_path_groups_def completed_def)
  show ?thesis
  proof (cases ?cs)
    case Nil
    then have "completed children = []" by (metis length_0_conv length_sort)
    then show ?thesis using Nil recover by (intro exI [of _ "[]"]) (simp add: recover_groups_def)
  next
    case (Cons c rest)
    let ?gs = "group_loop rest (the (cr_end c)) [c]"
    have "cr_start c \<le> the (cr_end c)" if "c \<in> set ?cs" for c using that assms by (auto simp: completed_def)
    note comp = group_loop_components [OF Cons _ this]
    have "linked ?cs = linked (completed children)" by (simp add: linked_def fun_eq_iff)
    with comp(4) have "(\<exists>g\<in>set ?gs. a \<in> set g \<and> b \<in> set g) \<longleftrightarrow> (linked (completed children))\<^sup>*\<^sup>* a b"
      if "a \<in> set (completed children)" for a b using that by simp
    moreover have "concat ?gs = ?cs" "[] \<notin> set ?gs" "sorted_wrt apart ?gs" using comp(1-3) by simp_all
    moreover have "recover_groups children parent_end = map (\<lambda>g. (sort (map cr_child_id g), post_join_us (last_end g) parent_end)) ?gs"
      using recover_loop_groups [of "[c]" parent_end rest "[]"] by (simp add: recover_groups_def recover(1) Cons group_observation_def)
    ultimately show ?thesis using recover_path_loop_groups [of "[c]" parent_end rest "[]" pp_root pp_root]
      by (intro exI [of _ ?gs]) (simp add: recover(2) Cons Let_def)
  qed
qed

text \<open>
  Claim C32. The groups recovered at the end of a request are the connected components of the
  overlap of its completed children, in the order they began: every completed child is in exactly
  one group, two are in the same group exactly when a chain of overlapping children links them,
  and a group's signature is the sorted children with the time from its last end to the parent's.
  Recovery with paths gives the same groups, each under the prefix built from the signatures of
  the groups before it. Instants come from a monotonic clock: no child ends before it starts.
\<close>

theorem fanout_groups_are_components:
  assumes "\<forall>c\<in>set children. \<forall>at. cr_end c = Some at \<longrightarrow> cr_start c \<le> at"
  shows "\<exists>gs. concat gs = sort_key cr_start (completed children) \<and> [] \<notin> set gs \<and> sorted_wrt apart gs \<and>
    (\<forall>a b. a \<in> set (completed children) \<longrightarrow>
       ((\<exists>g\<in>set gs. a \<in> set g \<and> b \<in> set g) \<longleftrightarrow> (linked (completed children))\<^sup>*\<^sup>* a b)) \<and>
    recover_groups children parent_end =
      map (\<lambda>g. (sort (map cr_child_id g), post_join_us (last_end g) parent_end)) gs \<and>
    recover_path_groups children parent_end =
      map (\<lambda>(g, p, q). \<lparr>pf_path_prefix = p, pf_service_path_prefix = q, pf_signature = sort (map cr_child_id g),
          pf_service_signature = sort (map cr_child_service_id g), pf_post_join_us = post_join_us (last_end g) parent_end\<rparr>)
        (zip gs (zip (prefixes pp_root (map (\<lambda>g. sort (map cr_child_id g)) gs))
           (prefixes pp_root (map (\<lambda>g. sort (map cr_child_service_id g)) gs))))"
  by (rule recovered_components [OF assms])

theorem fanout_groups_are_components_witness:
  "\<exists>gs. concat gs = [\<lparr>cr_child_id = 8, cr_child_service_id = 1, cr_start = 1000, cr_end = Some 3000, cr_terminal = False\<rparr>,
      \<lparr>cr_child_id = 7, cr_child_service_id = 1, cr_start = 2000, cr_end = Some 5000, cr_terminal = False\<rparr>] \<and>
    recover_groups [\<lparr>cr_child_id = 7, cr_child_service_id = 1, cr_start = 2000, cr_end = Some 5000, cr_terminal = False\<rparr>,
      \<lparr>cr_child_id = 9, cr_child_service_id = 1, cr_start = 2500, cr_end = None, cr_terminal = False\<rparr>,
      \<lparr>cr_child_id = 8, cr_child_service_id = 1, cr_start = 1000, cr_end = Some 3000, cr_terminal = False\<rparr>] 9000 =
        map (\<lambda>g. (sort (map cr_child_id g), post_join_us (last_end g) 9000)) gs \<and> map length gs = [2]"
proof -
  let ?a = "\<lparr>cr_child_id = 7, cr_child_service_id = 1, cr_start = 2000, cr_end = Some 5000, cr_terminal = False\<rparr>"
  let ?b = "\<lparr>cr_child_id = 9, cr_child_service_id = 1, cr_start = 2500, cr_end = None, cr_terminal = False\<rparr>"
  let ?c = "\<lparr>cr_child_id = 8, cr_child_service_id = 1, cr_start = 1000, cr_end = Some 3000, cr_terminal = False\<rparr>"
  have "\<forall>c\<in>set [?a, ?b, ?c]. \<forall>at. cr_end c = Some at \<longrightarrow> cr_start c \<le> at" by simp
  from fanout_groups_are_components [OF this, of 9000] obtain gs where
    "concat gs = sort_key cr_start (completed [?a, ?b, ?c])"
    "recover_groups [?a, ?b, ?c] 9000 = map (\<lambda>g. (sort (map cr_child_id g), post_join_us (last_end g) 9000)) gs" by blast
  note gs = this
  have order: "concat gs = [?c, ?a]" unfolding gs(1) by (simp add: completed_def)
  have "recover_groups [?a, ?b, ?c] 9000 = [([7, 8], 4)]"
    by (simp add: recover_groups_def recover_group_observations_def group_observation_def post_join_us_def)
  with gs(2) obtain g where "gs = [g]" by (auto simp: Cons_eq_map_conv)
  then have "map length gs = [2]" using order by simp
  with order gs(2) show ?thesis by (intro exI [of _ gs] conjI)
qed

end
