(* ===== verification/Float_Ops.thy ===== *)
theory Float_Ops
  imports Prelude Complex_Main
begin

text \<open>
  Floating-point arithmetic as the code uses it. A finite \<open>f64\<close> is the rational it stands for;
  infinities and NaN do not occur in the code modelled. An operation of IEEE 754 gives the rounded
  exact result: rounding is a parameter, with its laws, and so are the exponential and the square
  root. Conversions to and from \<open>u64\<close> are those of Rust's \<open>as\<close>.
\<close>

type_synonym f32 = rat
type_synonym f64 = rat

record f64_ops =
  rnd :: "rat \<Rightarrow> f64"
  f_exp :: "f64 \<Rightarrow> f64"
  f_sqrt :: "f64 \<Rightarrow> f64"

definition EPSILON :: f64 where
  "EPSILON = 1 / 2 ^ 52"

text \<open>\<open>v as f64\<close>, \<open>x as u64\<close> and \<open>x.round()\<close>.\<close>

definition of_u64 :: "f64_ops \<Rightarrow> u64 \<Rightarrow> f64" where
  "of_u64 fl v = rnd fl (of_nat (unat v))"

definition to_u64 :: "f64 \<Rightarrow> u64" where
  "to_u64 x = (if x \<le> 0 then 0 else if 2 ^ 64 \<le> x then - 1 else of_nat (nat \<lfloor>x\<rfloor>))"

definition f_round :: "f64 \<Rightarrow> f64" where
  "f_round x = (if 0 \<le> x then of_int \<lfloor>x + 1 / 2\<rfloor> else - of_int \<lfloor>1 / 2 - x\<rfloor>)"

definition f_add :: "f64_ops \<Rightarrow> f64 \<Rightarrow> f64 \<Rightarrow> f64" where
  "f_add fl x y = rnd fl (x + y)"

definition f_sub :: "f64_ops \<Rightarrow> f64 \<Rightarrow> f64 \<Rightarrow> f64" where
  "f_sub fl x y = rnd fl (x - y)"

definition f_mul :: "f64_ops \<Rightarrow> f64 \<Rightarrow> f64 \<Rightarrow> f64" where
  "f_mul fl x y = rnd fl (x * y)"

definition f_divide :: "f64_ops \<Rightarrow> f64 \<Rightarrow> f64 \<Rightarrow> f64" where
  "f_divide fl x y = rnd fl (x / y)"

text \<open>\<open>(v as f64 * x) as u64\<close>, \<open>(v as f64 * x).round() as u64\<close>, \<open>v as f64 / y\<close> and \<open>(-x).exp()\<close>.\<close>

definition f_times :: "f64_ops \<Rightarrow> u64 \<Rightarrow> f64 \<Rightarrow> u64" where
  "f_times fl v x = to_u64 (f_mul fl (of_u64 fl v) x)"

definition f_round_times :: "f64_ops \<Rightarrow> u64 \<Rightarrow> f64 \<Rightarrow> u64" where
  "f_round_times fl v x = to_u64 (f_round (f_mul fl (of_u64 fl v) x))"

definition f_div :: "f64_ops \<Rightarrow> u64 \<Rightarrow> f64 \<Rightarrow> f64" where
  "f_div fl v y = f_divide fl (of_u64 fl v) y"

definition f_exp_neg :: "f64_ops \<Rightarrow> f64 \<Rightarrow> f64" where
  "f_exp_neg fl x = f_exp fl (- x)"

text \<open>\<open>Duration::as_secs_f64\<close>, of a duration in nanoseconds.\<close>

definition as_secs_f64 :: "f64_ops \<Rightarrow> nat \<Rightarrow> f64" where
  "as_secs_f64 fl d = f_add fl (rnd fl (of_nat (d div 10 ^ 9))) (f_divide fl (of_nat (d mod 10 ^ 9)) (10 ^ 9))"

section \<open>Laws\<close>

text \<open>
  Rounding to nearest is monotone, symmetric and keeps what is representable, among it the small
  integers and eighths; it at most doubles a number, and changes a difference of two
  floating-point numbers by at most an eighth. The exponential of a number that is not positive
  is between zero and one.
\<close>

definition ieee :: "f64_ops \<Rightarrow> bool" where
  "ieee fl \<longleftrightarrow> (\<forall>x y. x \<le> y \<longrightarrow> rnd fl x \<le> rnd fl y) \<and> (\<forall>x. rnd fl (rnd fl x) = rnd fl x) \<and> (\<forall>x. rnd fl (- x) = - rnd fl x) \<and>
     (\<forall>n\<le>2 ^ 53. rnd fl (of_nat n) = of_nat n \<and> rnd fl (of_nat n / 8) = of_nat n / 8) \<and>
     (\<forall>x\<ge>0. rnd fl x \<le> 2 * x) \<and>
     (\<forall>x y. rnd fl x = x \<longrightarrow> rnd fl y = y \<longrightarrow> \<bar>rnd fl (x - y) - (x - y)\<bar> \<le> \<bar>x - y\<bar> / 8) \<and>
     (\<forall>x\<le>0. 0 \<le> f_exp fl x \<and> f_exp fl x \<le> 1)"

lemma ieee_rnd:
  assumes "ieee fl"
  shows "x \<le> y \<Longrightarrow> rnd fl x \<le> rnd fl y" "rnd fl (rnd fl x) = rnd fl x" "rnd fl (- x) = - rnd fl x"
    "n \<le> 2 ^ 53 \<Longrightarrow> rnd fl (of_nat n) = of_nat n" "n \<le> 2 ^ 53 \<Longrightarrow> rnd fl (of_nat n / 8) = of_nat n / 8" "0 \<le> x \<Longrightarrow> rnd fl x \<le> 2 * x"
    "rnd fl x = x \<Longrightarrow> rnd fl y = y \<Longrightarrow> \<bar>rnd fl (x - y) - (x - y)\<bar> \<le> \<bar>x - y\<bar> / 8"
    "x \<le> 0 \<Longrightarrow> 0 \<le> f_exp fl x" "x \<le> 0 \<Longrightarrow> f_exp fl x \<le> 1"
  using assms by (auto simp: ieee_def)

lemma ieee_0_1 [simp]: "ieee fl \<Longrightarrow> rnd fl 0 = 0" "ieee fl \<Longrightarrow> rnd fl 1 = 1"
  using ieee_rnd(4) [of fl 0] ieee_rnd(4) [of fl 1] by simp_all

lemma rnd_between:
  assumes "ieee fl"
  shows "0 \<le> x \<Longrightarrow> 0 \<le> rnd fl x" "x \<le> 0 \<Longrightarrow> rnd fl x \<le> 0" "x \<le> 1 \<Longrightarrow> rnd fl x \<le> 1"
  using ieee_rnd(1) [OF assms, of 0 x] ieee_rnd(1) [OF assms, of x 0] ieee_rnd(1) [OF assms, of x 1] ieee_0_1 [OF assms] by auto

lemma of_u64_exact: "ieee fl \<Longrightarrow> v \<le> 2 ^ 53 \<Longrightarrow> of_u64 fl v = of_nat (unat v)"
  unfolding of_u64_def by (rule ieee_rnd(4)) (simp_all add: word_le_nat_alt)

lemma of_u64_nonneg: "ieee fl \<Longrightarrow> 0 \<le> of_u64 fl v"
  unfolding of_u64_def by (rule rnd_between(1)) (auto simp del: of_nat_unat)

lemma of_u64_mono: "ieee fl \<Longrightarrow> v \<le> w \<Longrightarrow> of_u64 fl v \<le> of_u64 fl w"
  unfolding of_u64_def by (rule ieee_rnd(1)) (simp_all add: word_le_nat_alt del: of_nat_unat)

lemma to_u64_le: "x \<le> of_nat n \<Longrightarrow> unat (to_u64 x) \<le> n"
proof -
  assume x: "x \<le> of_nat n"
  show ?thesis
  proof (cases "x \<le> 0 \<or> 2 ^ 64 \<le> x")
    case True
    then show ?thesis
    proof
      assume "2 ^ 64 \<le> x"
      with x have "(of_nat (2 ^ 64) :: rat) \<le> of_nat n" by simp
      then have "2 ^ 64 \<le> n" by (simp only: of_nat_le_iff)
      then show ?thesis using unat_u64_less [of "to_u64 x"] by linarith
    qed (simp add: to_u64_def)
  next
    case False
    then have "0 \<le> \<lfloor>x\<rfloor>" "\<lfloor>x\<rfloor> \<le> int n" "\<lfloor>x\<rfloor> < 2 ^ 64" using x by (simp_all add: floor_le_iff floor_less_iff)
    then have "nat \<lfloor>x\<rfloor> < 2 ^ 64" "nat \<lfloor>x\<rfloor> \<le> n" by (simp_all add: nat_less_iff nat_le_iff)
    moreover have "unat (of_nat k :: u64) = k" if "k < 2 ^ 64" for k using that by (simp add: unat_of_nat)
    ultimately have "unat (of_nat (nat \<lfloor>x\<rfloor>) :: u64) \<le> n" by metis
    then show ?thesis using False by (simp only: to_u64_def if_False de_Morgan_disj)
  qed
qed

lemma to_u64_mono: "x \<le> y \<Longrightarrow> to_u64 x \<le> to_u64 y"
proof (cases "x \<le> 0 \<or> 2 ^ 64 \<le> y")
  case True
  then show ?thesis by (auto simp: to_u64_def)
next
  case False
  assume le: "x \<le> y"
  have exact: "unat (to_u64 z) = nat \<lfloor>z\<rfloor>" if z: "\<not> z \<le> 0" "\<not> 2 ^ 64 \<le> z" for z
  proof -
    have "0 \<le> \<lfloor>z\<rfloor>" "\<lfloor>z\<rfloor> < 2 ^ 64" using z by (simp_all add: floor_less_iff)
    then have "nat \<lfloor>z\<rfloor> < 2 ^ 64" by (simp add: nat_less_iff)
    moreover have "unat (of_nat k :: u64) = k" if "k < 2 ^ 64" for k using that by (simp add: unat_of_nat)
    ultimately have "unat (of_nat (nat \<lfloor>z\<rfloor>) :: u64) = nat \<lfloor>z\<rfloor>" by metis
    with z show ?thesis by (simp only: to_u64_def if_False)
  qed
  have "unat (to_u64 x) = nat \<lfloor>x\<rfloor>" "unat (to_u64 y) = nat \<lfloor>y\<rfloor>" using False le by (auto intro!: exact)
  then show ?thesis using floor_mono [OF le] nat_mono [of "\<lfloor>x\<rfloor>" "\<lfloor>y\<rfloor>"] by (simp add: word_le_nat_alt)
qed

lemma f_mul_le:
  assumes "ieee fl" "v < 2 ^ 53" "0 \<le> x" "x \<le> 1"
  shows "0 \<le> f_mul fl (of_u64 fl v) x" "f_mul fl (of_u64 fl v) x \<le> of_nat (unat v)"
proof -
  have v: "of_u64 fl v = of_nat (unat v)" "unat v \<le> 2 ^ 53" using assms(2) of_u64_exact [OF assms(1) less_imp_le [OF assms(2)]] by (simp_all add: word_less_nat_alt)
  have "of_nat (unat v) * x \<le> of_nat (unat v)" by (intro mult_left_le assms(4) of_nat_0_le_iff)
  from ieee_rnd(1) [OF assms(1) this] show "f_mul fl (of_u64 fl v) x \<le> of_nat (unat v)"
    using ieee_rnd(4) [OF assms(1) v(2)] v(1) by (simp add: f_mul_def)
  have "0 \<le> of_nat (unat v) * x" by (intro mult_nonneg_nonneg assms(3) of_nat_0_le_iff)
  from rnd_between(1) [OF assms(1) this] show "0 \<le> f_mul fl (of_u64 fl v) x" by (simp add: f_mul_def v(1))
qed

text \<open>
  Below \<open>2 ^ 53\<close>, where an integer is exact in an \<open>f64\<close>, its product with a factor of at most one
  does not exceed it.
\<close>

lemma product_rounds_below:
  assumes "ieee fl" "v < 2 ^ 53" "0 \<le> x" "x \<le> 1"
  shows "f_times fl v x \<le> v" "f_round_times fl v x \<le> v"
proof -
  note le = f_mul_le [OF assms]
  have "f_round (f_mul fl (of_u64 fl v) x) \<le> of_nat (unat v)"
  proof -
    have "f_mul fl (of_u64 fl v) x + 1 / 2 < of_int (int (unat v) + 1)" using le(2) by simp
    then have "\<lfloor>f_mul fl (of_u64 fl v) x + 1 / 2\<rfloor> \<le> int (unat v)" by linarith
    then have "(of_int \<lfloor>f_mul fl (of_u64 fl v) x + 1 / 2\<rfloor> :: rat) \<le> of_int (int (unat v))" by (simp only: of_int_le_iff)
    then show ?thesis using le(1) by (simp add: f_round_def)
  qed
  from to_u64_le [OF this] to_u64_le [OF le(2)] show "f_times fl v x \<le> v" "f_round_times fl v x \<le> v"
    by (simp_all add: f_times_def f_round_times_def word_le_nat_alt)
qed

text \<open>Exact arithmetic satisfies the laws.\<close>

definition ex_f64 :: f64_ops where
  "ex_f64 = \<lparr>rnd = (\<lambda>x. x), f_exp = (\<lambda>x. 1 / (1 - x)), f_sqrt = (\<lambda>x. x)\<rparr>"

lemma ex_f64_ieee: "ieee ex_f64"
  by (auto simp: ieee_def ex_f64_def divide_simps)

end
