(* ===== verification/Estimation.thy ===== *)
theory Estimation
  imports Policy_Modules Fanout Float_Ops
begin

text \<open>
  The estimation module, \<open>libs/masa-policy/src/module/est\<close>: its wire data (\<open>wire.rs\<close>), the
  estimates shared by a server's requests (\<open>state/latency_estimators.rs\<close>), the record of one
  request's children (\<open>state/request.rs\<close>) and of what its subtree reported (\<open>state/metadata.rs\<close>),
  the decay of old estimates (\<open>state/decay.rs\<close>), the soft deadline (\<open>signal_slack.rs\<close>) and the
  hooks (\<open>module.rs\<close>). Clock readings are arguments, an instant in nanoseconds and a timestamp in
  microseconds. The tally of a request and the tracker of a child, which the code keeps in the typed
  extensions under types of their own, are passed along.
\<close>

section \<open>Wire data\<close>

record root_method =
  rm_service :: string
  rm_method :: string

record estimation_request_wire =
  hop_count :: u8
  erq_root_method :: "root_method option"

record estimation_response_wire =
  compute_time_us :: u64
  accumulated_compute_us :: u64
  utilization :: f32
  max_downstream_util :: f32
  early_return_count :: u32
  deadline_signal_count :: u32

record estimation_wire =
  ew_request :: "estimation_request_wire option"
  ew_response :: "estimation_response_wire option"

definition ew_of_request :: "u8 \<Rightarrow> root_method option \<Rightarrow> estimation_wire" where
  "ew_of_request hops rt = \<lparr>ew_request = Some \<lparr>hop_count = hops, erq_root_method = rt\<rparr>, ew_response = None\<rparr>"

definition ew_of_response :: "estimation_response_wire \<Rightarrow> estimation_wire" where
  "ew_of_response response = \<lparr>ew_request = None, ew_response = Some response\<rparr>"

record estimation_info =
  ei_hop_count :: u8
  ei_root_method :: "root_method option"
  ei_root_method_id :: "method_id option"

definition is_ingress :: "estimation_info \<Rightarrow> bool" where
  "is_ingress info \<longleftrightarrow> ei_hop_count info = 0"

record subtree_health =
  sh_early_return :: bool
  sh_deadline_signal :: bool

section \<open>Decay\<close>

definition TAU_DECAY_US :: f64 where
  "TAU_DECAY_US = 5000000"

definition DECAY_THRESHOLD_US :: u64 where
  "DECAY_THRESHOLD_US = 200000"

definition fast_exp_neg :: "f64_ops \<Rightarrow> f64 \<Rightarrow> f64" where
  "fast_exp_neg fl x = (if 50 \<le> x then 0 else f_exp_neg fl x)"

definition decay_factor :: "f64_ops \<Rightarrow> u64 \<Rightarrow> u64 \<Rightarrow> f64" where
  "decay_factor fl now_us last_obs_us =
     (let age = saturating_sub now_us last_obs_us in
      if age \<le> DECAY_THRESHOLD_US then 1 else fast_exp_neg fl (f_div fl age TAU_DECAY_US))"

section \<open>Estimates of a server\<close>

text \<open>The parameters read: the toggle of the environment and the fields of \<open>PredParams\<close>.\<close>

record fanout_params =
  fanout_aware :: bool
  fanout_root_only :: bool
  fanout_min_samples :: u64
  fanout_deadline_legacy_fraction :: f64

definition fanout_enabled_for_parent :: "fanout_params \<Rightarrow> method_id \<Rightarrow> method_id \<Rightarrow> bool" where
  "fanout_enabled_for_parent params rt parent =
     (if \<not> fanout_aware params then False else \<not> fanout_root_only params \<or> rt = parent)"

definition ace_is_empty :: "after_child_estimates \<Rightarrow> bool" where
  "ace_is_empty a \<longleftrightarrow> ac_full a = 0 \<and> ac_mean a = 0 \<and> ac_floor a = 0"

definition blend_toward_legacy :: "f64_ops \<Rightarrow> u64 \<Rightarrow> u64 \<Rightarrow> f64 \<Rightarrow> u64" where
  "blend_toward_legacy fl v legacy fraction =
     (if legacy \<le> v then legacy
      else let fraction = min (max fraction 0) 1 in
        if fraction \<le> EPSILON then v
        else if 1 - fraction \<le> EPSILON then legacy
        else v + f_round_times fl (legacy - v) fraction)"

definition merge_with_legacy_priority :: "f64_ops \<Rightarrow> after_child_estimates \<Rightarrow> after_child_estimates \<Rightarrow> f64 \<Rightarrow>
    after_child_estimates" where
  "merge_with_legacy_priority fl fanout legacy fraction =
     (if ace_is_empty fanout then legacy
      else if ace_is_empty legacy then fanout
      else \<lparr>ac_full = ac_full legacy,
        ac_mean = blend_toward_legacy fl (min (ac_mean fanout) (ac_mean legacy)) (ac_mean legacy) fraction,
        ac_floor = blend_toward_legacy fl (min (ac_floor fanout) (ac_floor legacy)) (ac_floor legacy) fraction\<rparr>)"

type_synonym parent_to_child = "method_id \<times> method_id \<times> method_id"

record 'e latency_estimators =
  after_child_wallclock :: "(parent_to_child, 'e) latency_map"
  child_wallclock :: "(parent_to_child, 'e) latency_map"
  subtree_compute :: "(method_id, 'e) latency_map"
  method_wallclock :: "(method_id \<times> method_id, 'e) latency_map"
  fanout_patterns :: "'e fanout_table"
  service_fanout_patterns :: "'e fanout_table"
  print_counter :: u64

definition estimators_new :: "'e latency_estimators" where
  "estimators_new = \<lparr>after_child_wallclock = lm_new, child_wallclock = lm_new, subtree_compute = lm_new,
     method_wallclock = lm_new, fanout_patterns = table_new, service_fanout_patterns = table_new, print_counter = 0\<rparr>"

definition or_zero :: "u64 option \<Rightarrow> u64" where
  "or_zero v = (case v of Some v \<Rightarrow> v | None \<Rightarrow> 0)"

definition est_after_child_wallclock :: "'e estimator_ops \<Rightarrow> parent_to_child \<Rightarrow> u64 \<Rightarrow> 'e latency_estimators \<Rightarrow>
    (after_child_estimates \<times> 'e latency_estimators) exec" where
  "est_after_child_wallclock ops key cap est =
     bind_exec (lm_get_estimate ops key (after_child_wallclock est)) (\<lambda>(full, m1).
     bind_exec (lm_get_mean_estimate ops key m1) (\<lambda>(mean, m2).
     map_exec (\<lambda>(flr, m3).
         (\<lparr>ac_full = min (or_zero full) cap, ac_mean = min (or_zero mean) cap, ac_floor = min (or_zero flr) cap\<rparr>,
          est\<lparr>after_child_wallclock := m3\<rparr>))
       (lm_get_mean_floor_estimate ops key m2)))"

definition est_after_child_wallclock_for_group :: "'e estimator_ops \<Rightarrow> f64_ops \<Rightarrow> fanout_params \<Rightarrow> method_id \<Rightarrow> method_id \<Rightarrow>
    path_prefix \<Rightarrow> method_id list \<Rightarrow> path_prefix \<Rightarrow> method_id list \<Rightarrow> method_id \<Rightarrow> u64 \<Rightarrow> 'e latency_estimators \<Rightarrow>
    (after_child_estimates \<times> 'e latency_estimators) exec" where
  "est_after_child_wallclock_for_group ops fl params rt parent prefix base service_prefix service_base child cap est =
     bind_exec (est_after_child_wallclock ops (rt, parent, child) cap est) (\<lambda>(legacy, est1).
       if \<not> fanout_enabled_for_parent params rt parent \<or> length base \<le> 1 then Done (legacy, est1)
       else
         bind_exec (lookup_estimate ops rt parent prefix base (fanout_min_samples params) cap (fanout_patterns est1)) (\<lambda>fanout.
         map_exec (\<lambda>fanout'. (merge_with_legacy_priority fl fanout' legacy (fanout_deadline_legacy_fraction params), est1))
           (if ace_is_empty fanout then
              lookup_estimate ops rt parent service_prefix service_base (fanout_min_samples params) cap
                (service_fanout_patterns est1)
            else Done fanout)))"

definition est_child_wallclock :: "'e estimator_ops \<Rightarrow> parent_to_child \<Rightarrow> 'e latency_estimators \<Rightarrow>
    (u64 option \<times> 'e latency_estimators) exec" where
  "est_child_wallclock ops key est =
     map_exec (\<lambda>(r, m). (r, est\<lparr>child_wallclock := m\<rparr>)) (lm_get_estimate ops key (child_wallclock est))"

definition after_child_wallclock_last_obs :: "'e estimator_ops \<Rightarrow> parent_to_child \<Rightarrow> 'e latency_estimators \<Rightarrow>
    (u64 \<times> 'e latency_estimators) exec" where
  "after_child_wallclock_last_obs ops key est =
     map_exec (\<lambda>(r, m). (case r of Some p \<Rightarrow> pack_last_observation_us p | None \<Rightarrow> 0, est\<lparr>after_child_wallclock := m\<rparr>))
       (lm_get_estimates_pack ops key (after_child_wallclock est))"

definition track_after_child_wallclock :: "'e estimator_ops \<Rightarrow> parent_to_child \<Rightarrow> u64 \<Rightarrow> 'e latency_estimators \<Rightarrow>
    'e latency_estimators exec" where
  "track_after_child_wallclock ops key us est =
     map_exec (\<lambda>m. est\<lparr>after_child_wallclock := m\<rparr>) (lm_track ops key us (after_child_wallclock est))"

definition track_child_wallclock :: "'e estimator_ops \<Rightarrow> parent_to_child \<Rightarrow> u64 \<Rightarrow> 'e latency_estimators \<Rightarrow>
    'e latency_estimators exec" where
  "track_child_wallclock ops key us est =
     map_exec (\<lambda>m. est\<lparr>child_wallclock := m\<rparr>) (lm_track ops key us (child_wallclock est))"

definition track_method_wallclock :: "'e estimator_ops \<Rightarrow> method_id \<times> method_id \<Rightarrow> u64 \<Rightarrow> 'e latency_estimators \<Rightarrow>
    'e latency_estimators exec" where
  "track_method_wallclock ops key us est =
     map_exec (\<lambda>m. est\<lparr>method_wallclock := m\<rparr>) (lm_track ops key us (method_wallclock est))"

definition track_subtree_compute :: "'e estimator_ops \<Rightarrow> method_id \<Rightarrow> u64 \<Rightarrow> 'e latency_estimators \<Rightarrow>
    'e latency_estimators exec" where
  "track_subtree_compute ops key us est =
     map_exec (\<lambda>m. est\<lparr>subtree_compute := m\<rparr>) (lm_track ops key us (subtree_compute est))"

definition track_fanout_group :: "'e estimator_ops \<Rightarrow> method_id \<Rightarrow> method_id \<Rightarrow> path_fanout \<Rightarrow> 'e latency_estimators \<Rightarrow>
    'e latency_estimators exec" where
  "track_fanout_group ops rt parent g est =
     bind_exec (table_update ops rt parent (Path (pf_path_prefix g)) (pf_signature g) (pf_post_join_us g) (fanout_patterns est)) (\<lambda>t1.
     bind_exec (table_update ops rt parent Aggregate (pf_signature g) (pf_post_join_us g) t1) (\<lambda>t2.
     bind_exec (table_update ops rt parent (Path (pf_service_path_prefix g)) (pf_service_signature g) (pf_post_join_us g)
         (service_fanout_patterns est)) (\<lambda>s1.
     map_exec (\<lambda>s2. est\<lparr>fanout_patterns := t2, service_fanout_patterns := s2\<rparr>)
       (table_update ops rt parent Aggregate (pf_service_signature g) (pf_post_join_us g) s1))))"

text \<open>What logging changes: the counter, and an entry the look-up may create.\<close>

definition log_estimates :: "'e estimator_ops \<Rightarrow> parent_to_child \<Rightarrow> 'e latency_estimators \<Rightarrow> 'e latency_estimators exec" where
  "log_estimates ops key est =
     (let est1 = est\<lparr>print_counter := print_counter est + 1\<rparr> in
      if print_counter est mod 5000 = 0 then map_exec snd (est_child_wallclock ops key est1) else Done est1)"

section \<open>Children of a request\<close>

record fanout_invocation =
  fi_children :: "child_record list"
  fi_path_prefix :: path_prefix
  fi_service_path_prefix :: path_prefix
  incorporated_child_count :: nat

definition fanout_invocation_default :: fanout_invocation where
  "fanout_invocation_default = \<lparr>fi_children = [], fi_path_prefix = pp_root, fi_service_path_prefix = pp_root,
     incorporated_child_count = 0\<rparr>"

definition refresh_path_prefix_before_open_group :: "nat \<Rightarrow> fanout_invocation \<Rightarrow> fanout_invocation" where
  "refresh_path_prefix_before_open_group now s =
     (if length (fi_children s) \<le> incorporated_child_count s then s
      else
        let pending = drop (incorporated_child_count s) (fi_children s);
            terminal_prefix_len = length (takeWhile cr_terminal pending) in
        if terminal_prefix_len = 0 then s
        else (foldl (\<lambda>s g. s\<lparr>fi_path_prefix := append_signature (fi_path_prefix s) (pf_signature g),
               fi_service_path_prefix := append_signature (fi_service_path_prefix s) (pf_service_signature g)\<rparr>)
             s (recover_path_groups (take terminal_prefix_len pending) now))
          \<lparr>incorporated_child_count := incorporated_child_count s + terminal_prefix_len\<rparr>)"

text \<open>The tracker of a request; the estimates it shares with the others are passed along.\<close>

record estimation_tracker =
  resolved_method_id :: method_id
  root_method_id :: "method_id option"
  tr_fanout :: fanout_invocation
  request_start :: nat

definition tracker_new :: "method_id \<Rightarrow> method_id option \<Rightarrow> nat \<Rightarrow> estimation_tracker" where
  "tracker_new resolved rt now = \<lparr>resolved_method_id = resolved, root_method_id = rt,
     tr_fanout = fanout_invocation_default, request_start = now\<rparr>"

definition root_or_self :: "estimation_tracker \<Rightarrow> method_id" where
  "root_or_self tr = (case root_method_id tr of Some rt \<Rightarrow> rt | None \<Rightarrow> resolved_method_id tr)"

definition method_wallclock_key :: "estimation_tracker \<Rightarrow> (method_id \<times> method_id) option" where
  "method_wallclock_key tr = map_option (\<lambda>rt. (rt, resolved_method_id tr)) (root_method_id tr)"

record child_rpc_tracker =
  ct_key :: parent_to_child
  ct_child_index :: nat
  ct_path_prefix :: path_prefix
  ct_base_signature :: "method_id list"
  ct_service_path_prefix :: path_prefix
  ct_base_service_signature :: "method_id list"
  ct_child_id :: method_id
  ct_start_time :: nat

definition elapsed_us :: "nat \<Rightarrow> child_rpc_tracker \<Rightarrow> u64" where
  "elapsed_us now t = of_nat ((now - ct_start_time t) div 1000)"

text \<open>What a child sees of the invocation when it is issued, and the invocation with its record.\<close>

definition open_children :: "fanout_invocation \<Rightarrow> child_record list" where
  "open_children s = filter (\<lambda>c. \<not> cr_terminal c) (fi_children s)"

definition issue_child :: "bool \<Rightarrow> method_id \<Rightarrow> method_id \<Rightarrow> nat \<Rightarrow> fanout_invocation \<Rightarrow>
    (path_prefix \<times> method_id list \<times> path_prefix \<times> method_id list) \<times> fanout_invocation" where
  "issue_child enabled child service now s =
     (let record_child = (\<lambda>s. s\<lparr>fi_children := fi_children s @
            [\<lparr>cr_child_id = child, cr_child_service_id = service, cr_start = now, cr_end = None, cr_terminal = False\<rparr>]\<rparr>) in
      if enabled then
        let s1 = (if list_ex (\<lambda>c. \<not> cr_terminal c) (fi_children s) then refresh_path_prefix_before_open_group now s else s) in
        ((fi_path_prefix s1, sort (map cr_child_id (open_children s1) @ [child]),
          fi_service_path_prefix s1, sort (map cr_child_service_id (open_children s1) @ [service])), record_child s1)
      else ((pp_root, [child], pp_root, [service]), record_child s))"

definition begin_child :: "fanout_params \<Rightarrow> grpc_method \<Rightarrow> nat \<Rightarrow> method_registry \<Rightarrow> estimation_tracker \<Rightarrow>
    child_rpc_tracker \<times> estimation_tracker \<times> method_registry" where
  "begin_child params child_method now reg tr =
     (case get_or_register_with_service child_method reg of ((child, service), reg') \<Rightarrow>
      let rt = root_or_self tr; idx = length (fi_children (tr_fanout tr)) in
      case issue_child (fanout_enabled_for_parent params rt (resolved_method_id tr)) child service now (tr_fanout tr) of
        ((prefix, base, service_prefix, service_base), s) \<Rightarrow>
          (\<lparr>ct_key = (rt, resolved_method_id tr, child), ct_child_index = idx, ct_path_prefix = prefix,
             ct_base_signature = base, ct_service_path_prefix = service_prefix, ct_base_service_signature = service_base,
             ct_child_id = child, ct_start_time = now\<rparr>,
           tr\<lparr>tr_fanout := s\<rparr>, reg'))"

definition is_early_return_response :: "status + 'p \<Rightarrow> bool" where
  "is_early_return_response response = (case response of Inr _ \<Rightarrow> False | Inl status \<Rightarrow> status_code status = DeadlineExceeded)"

definition child_report :: "status + 'p \<Rightarrow> estimation_response_wire option \<Rightarrow> estimation_response_wire option" where
  "child_report response wire = (case response of Inr _ \<Rightarrow> wire | Inl _ \<Rightarrow> None)"

definition is_signaled_report :: "estimation_response_wire option \<Rightarrow> bool" where
  "is_signaled_report report = (case report of Some r \<Rightarrow> 0 < deadline_signal_count r | None \<Rightarrow> False)"

text \<open>The record of a child that ended; an early return leaves its end unset.\<close>

definition settle_child :: "nat \<Rightarrow> nat option \<Rightarrow> fanout_invocation \<Rightarrow> fanout_invocation" where
  "settle_child idx end_at s =
     (if idx < length (fi_children s) then
        s\<lparr>fi_children := (fi_children s)[idx := (case end_at of
            None \<Rightarrow> (fi_children s ! idx)\<lparr>cr_terminal := True\<rparr>
          | Some ended \<Rightarrow> (fi_children s ! idx)\<lparr>cr_end := Some ended, cr_terminal := True\<rparr>)]\<rparr>
      else s)"

text \<open>\<open>t_elapsed\<close> and \<open>t_end\<close> are the readings for the child's duration and for its end.\<close>

definition record_child_complete :: "'e estimator_ops \<Rightarrow> child_rpc_tracker \<Rightarrow> status + 'p \<Rightarrow> estimation_response_wire option \<Rightarrow>
    nat \<Rightarrow> nat \<Rightarrow> estimation_tracker \<Rightarrow> 'e latency_estimators \<Rightarrow> (estimation_tracker \<times> 'e latency_estimators) exec" where
  "record_child_complete ops t response report t_elapsed t_end tr est =
     (let settle = (\<lambda>end_at. tr\<lparr>tr_fanout := settle_child (ct_child_index t) end_at (tr_fanout tr)\<rparr>) in
      if is_early_return_response response then Done (settle None, est)
      else if is_signaled_report report then Done (settle (Some t_end), est)
      else map_exec (\<lambda>est'. (settle (Some t_end), est')) (track_child_wallclock ops (ct_key t) (elapsed_us t_elapsed t) est))"

fun flush_children :: "'e estimator_ops \<Rightarrow> method_id \<Rightarrow> method_id \<Rightarrow> nat \<Rightarrow> child_record list \<Rightarrow> 'e latency_estimators \<Rightarrow>
    'e latency_estimators exec" where
  "flush_children ops rt parent parent_end [] est = Done est"
| "flush_children ops rt parent parent_end (c # cs) est =
     (case cr_end c of
        None \<Rightarrow> flush_children ops rt parent parent_end cs est
      | Some ended \<Rightarrow>
          bind_exec (track_after_child_wallclock ops (rt, parent, cr_child_id c) (of_nat ((parent_end - ended) div 1000)) est)
            (flush_children ops rt parent parent_end cs))"

fun flush_groups :: "'e estimator_ops \<Rightarrow> method_id \<Rightarrow> method_id \<Rightarrow> path_fanout list \<Rightarrow> 'e latency_estimators \<Rightarrow>
    'e latency_estimators exec" where
  "flush_groups ops rt parent [] est = Done est"
| "flush_groups ops rt parent (g # gs) est =
     (if length (pf_signature g) \<le> 1 then flush_groups ops rt parent gs est
      else bind_exec (track_fanout_group ops rt parent g est) (flush_groups ops rt parent gs))"

definition flush :: "'e estimator_ops \<Rightarrow> fanout_params \<Rightarrow> nat \<Rightarrow> nat \<Rightarrow> estimation_tracker \<Rightarrow> 'e latency_estimators \<Rightarrow>
    (estimation_tracker \<times> 'e latency_estimators) exec" where
  "flush ops params parent_end t_total tr est =
     (let rt = root_or_self tr; parent = resolved_method_id tr; children = fi_children (tr_fanout tr) in
      bind_exec (flush_children ops rt parent parent_end children est) (\<lambda>est1.
      bind_exec (if fanout_enabled_for_parent params rt parent
                 then flush_groups ops rt parent (recover_path_groups children parent_end) est1 else Done est1) (\<lambda>est2.
      map_exec (\<lambda>est3. (tr\<lparr>tr_fanout := fanout_invocation_default\<rparr>, est3))
        (case method_wallclock_key tr of
           Some key \<Rightarrow> track_method_wallclock ops key (of_nat ((t_total - request_start tr) div 1000)) est2
         | None \<Rightarrow> Done est2))))"

section \<open>What a request reports\<close>

record compute_tracker =
  poll_compute_us :: u64
  poll_start :: "nat option"

definition compute_new :: compute_tracker where
  "compute_new = \<lparr>poll_compute_us = 0, poll_start = None\<rparr>"

definition compute_start :: "nat \<Rightarrow> compute_tracker \<Rightarrow> compute_tracker" where
  "compute_start now c = c\<lparr>poll_start := Some now\<rparr>"

definition compute_stop :: "nat \<Rightarrow> compute_tracker \<Rightarrow> compute_tracker" where
  "compute_stop now c =
     (case poll_start c of
        None \<Rightarrow> c
      | Some start \<Rightarrow> c\<lparr>poll_start := None, poll_compute_us := poll_compute_us c + of_nat ((now - start) div 1000)\<rparr>)"

record request_metadata =
  md_compute :: compute_tracker
  max_child_downstream_util :: f32
  accumulated_child_compute_us :: u64
  accumulated_child_early_returns :: u32
  local_early_return :: bool
  child_deadline_signal :: bool
  local_deadline_signal :: bool

definition metadata_new :: request_metadata where
  "metadata_new = \<lparr>md_compute = compute_new, max_child_downstream_util = 0, accumulated_child_compute_us = 0,
     accumulated_child_early_returns = 0, local_early_return = False, child_deadline_signal = False,
     local_deadline_signal = False\<rparr>"

definition start_poll :: "nat \<Rightarrow> request_metadata \<Rightarrow> request_metadata" where
  "start_poll now md = md\<lparr>md_compute := compute_start now (md_compute md)\<rparr>"

definition end_poll :: "nat \<Rightarrow> request_metadata \<Rightarrow> request_metadata" where
  "end_poll now md = md\<lparr>md_compute := compute_stop now (md_compute md)\<rparr>"

definition absorb_child :: "status + 'p \<Rightarrow> estimation_response_wire option \<Rightarrow> request_metadata \<Rightarrow> request_metadata" where
  "absorb_child response report md =
     (if is_early_return_response response then
        md\<lparr>accumulated_child_early_returns := accumulated_child_early_returns md + 1\<rparr>
      else case report of
        None \<Rightarrow> md
      | Some r \<Rightarrow>
          md\<lparr>max_child_downstream_util := (if max_child_downstream_util md < max_downstream_util r
               then max_downstream_util r else max_child_downstream_util md),
             accumulated_child_compute_us := accumulated_child_compute_us md + accumulated_compute_us r,
             accumulated_child_early_returns := accumulated_child_early_returns md + early_return_count r,
             child_deadline_signal := (0 < deadline_signal_count r \<or> child_deadline_signal md)\<rparr>)"

definition mark_early_return :: "request_metadata \<Rightarrow> request_metadata" where
  "mark_early_return md = md\<lparr>local_early_return := True\<rparr>"

definition mark_deadline_signal :: "request_metadata \<Rightarrow> request_metadata" where
  "mark_deadline_signal md = md\<lparr>local_deadline_signal := True\<rparr>"

definition is_subtree_signaled :: "request_metadata \<Rightarrow> bool" where
  "is_subtree_signaled md \<longleftrightarrow> local_deadline_signal md \<or> child_deadline_signal md"

definition subtree_health_of :: "request_metadata \<Rightarrow> subtree_health" where
  "subtree_health_of md = \<lparr>sh_early_return = (0 < accumulated_child_early_returns md), sh_deadline_signal = is_subtree_signaled md\<rparr>"

definition health_any :: "subtree_health \<Rightarrow> bool" where
  "health_any h \<longleftrightarrow> sh_early_return h \<or> sh_deadline_signal h"

text \<open>\<open>current_utilization\<close> is the runtime's measure when the response is built.\<close>

definition response_wire :: "f32 \<Rightarrow> request_metadata \<Rightarrow> estimation_response_wire" where
  "response_wire current_utilization md =
     \<lparr>compute_time_us = poll_compute_us (md_compute md),
      accumulated_compute_us = poll_compute_us (md_compute md) + accumulated_child_compute_us md,
      utilization = current_utilization,
      max_downstream_util = max current_utilization (max_child_downstream_util md),
      early_return_count = (if local_early_return md then 1 else 0) + accumulated_child_early_returns md,
      deadline_signal_count = (if local_deadline_signal md \<or> child_deadline_signal md then 1 else 0)\<rparr>"


section \<open>The children open at issue\<close>

text \<open>
  The steps of a request on the record of its children: issuing one, and settling the one with an
  index, which returned early or completed.
\<close>

datatype child_step = Issue method_id method_id (step_time: nat) | Settle nat bool (step_time: nat)

fun fanout_step :: "child_step \<Rightarrow> fanout_invocation \<Rightarrow> fanout_invocation" where
  "fanout_step (Issue child service now) s = snd (issue_child True child service now s)"
| "fanout_step (Settle idx early now) s = settle_child idx (if early then None else Some now) s"

definition fanout_run :: "child_step list \<Rightarrow> fanout_invocation \<Rightarrow> fanout_invocation" where
  "fanout_run steps s = fold fanout_step steps s"

lemma refresh_children [simp]: "fi_children (refresh_path_prefix_before_open_group now s) = fi_children s"
proof -
  have "fi_children (foldl (\<lambda>s g. s\<lparr>fi_path_prefix := append_signature (fi_path_prefix s) (pf_signature g),
      fi_service_path_prefix := append_signature (fi_service_path_prefix s) (pf_service_signature g)\<rparr>) s gs) = fi_children s" for gs :: "path_fanout list"
    by (induction gs arbitrary: s) simp_all
  then show ?thesis by (simp add: refresh_path_prefix_before_open_group_def Let_def)
qed

lemma issue_children: "fi_children (snd (issue_child en child service now s)) = fi_children s @
    [\<lparr>cr_child_id = child, cr_child_service_id = service, cr_start = now, cr_end = None, cr_terminal = False\<rparr>]"
  by (simp add: issue_child_def Let_def)

lemma settle_children:
  "fi_children (settle_child idx ended s) = (if idx < length (fi_children s)
     then (fi_children s)[idx := (fi_children s ! idx)
       \<lparr>cr_end := (case ended of None \<Rightarrow> cr_end (fi_children s ! idx) | Some e \<Rightarrow> Some e), cr_terminal := True\<rparr>]
     else fi_children s)"
  by (simp add: settle_child_def split: option.split)

text \<open>A record taken at \<open>now\<close> or before, and how it may change after that.\<close>

definition record_at :: "nat \<Rightarrow> child_record \<Rightarrow> bool" where
  "record_at now c \<longleftrightarrow> cr_start c \<le> now \<and> (\<forall>e. cr_end c = Some e \<longrightarrow> cr_start c \<le> e) \<and> (\<not> cr_terminal c \<longrightarrow> cr_end c = None)"

definition record_later :: "nat \<Rightarrow> child_record \<Rightarrow> child_record \<Rightarrow> bool" where
  "record_later now c d \<longleftrightarrow> cr_child_id d = cr_child_id c \<and> cr_child_service_id d = cr_child_service_id c \<and> cr_start d = cr_start c \<and>
     (cr_end c = None \<longrightarrow> (\<forall>e. cr_end d = Some e \<longrightarrow> now \<le> e))"

definition grown :: "nat \<Rightarrow> child_record list \<Rightarrow> child_record list \<Rightarrow> bool" where
  "grown now cs ds \<longleftrightarrow> length cs \<le> length ds \<and> list_all2 (record_later now) cs (take (length cs) ds)"

lemma fanout_step_records:
  assumes "list_all (record_at now) (fi_children s)" "now \<le> step_time st"
  shows "list_all (record_at (step_time st)) (fi_children (fanout_step st s))"
proof (cases st)
  case (Settle idx early t)
  have "record_at t c" if "record_at now c" for c using that assms(2) Settle by (auto simp: record_at_def)
  then have all: "list_all (record_at t) (fi_children s)" using assms(1) by (auto simp: list_all_iff)
  show ?thesis
  proof (cases "idx < length (fi_children s)")
    case True
    then have "record_at t (fi_children s ! idx)" using all by (simp add: list_all_length)
    then show ?thesis using all True Settle
      by (auto simp: settle_children list_all_iff record_at_def dest!: set_update_subset_insert [THEN subsetD] split: option.splits)
  next
    case False
    then show ?thesis using all Settle by (simp add: settle_children)
  qed
qed (use assms in \<open>auto simp: issue_children record_at_def list_all_iff\<close>)

lemma fanout_step_grown:
  assumes "grown now cs (fi_children s)" "now \<le> step_time st"
  shows "grown now cs (fi_children (fanout_step st s))"
proof (cases st)
  case (Settle idx early t)
  have "record_later now (cs ! i) (fi_children (fanout_step st s) ! i)" if "i < length cs" for i
    using assms that Settle
    by (cases "i = idx") (auto simp: grown_def settle_children list_all2_conv_all_nth record_later_def)
  then show ?thesis using assms(1) Settle by (auto simp: grown_def list_all2_conv_all_nth settle_children)
qed (use assms in \<open>auto simp: grown_def issue_children\<close>)

lemma fanout_run_records:
  "list_all (record_at now) (fi_children s) \<Longrightarrow> sorted (now # map step_time steps) \<Longrightarrow>
   \<exists>t. list_all (record_at t) (fi_children (fanout_run steps s)) \<and> t = last (now # map step_time steps)"
proof (induction steps arbitrary: now s)
  case (Cons st steps)
  from Cons.IH [OF fanout_step_records [OF Cons.prems(1), of st]] Cons.prems(2) show ?case by (auto simp: fanout_run_def)
qed (simp add: fanout_run_def)

lemma fanout_run_grown:
  "grown now cs (fi_children s) \<Longrightarrow> \<forall>st\<in>set steps. now \<le> step_time st \<Longrightarrow> grown now cs (fi_children (fanout_run steps s))"
  by (induction steps arbitrary: s) (simp_all add: fanout_run_def fanout_step_grown)


text \<open>The completed children whose interval holds an instant are in one group.\<close>

definition covers :: "nat \<Rightarrow> child_record \<Rightarrow> bool" where
  "covers now c \<longleftrightarrow> cr_end c \<noteq> None \<and> cr_start c \<le> now \<and> now \<le> the (cr_end c)"

lemma covering_one_group:
  "sorted_wrt apart gs \<Longrightarrow> \<exists>c\<in>set (concat gs). covers now c \<Longrightarrow> \<exists>g\<in>set gs. mset (filter (covers now) (concat gs)) \<subseteq># mset g"
proof (induction gs)
  case (Cons g gs)
  show ?case
  proof (cases "\<exists>c\<in>set g. covers now c")
    case True
    then obtain c where c: "c \<in> set g" "now \<le> the (cr_end c)" by (auto simp: covers_def)
    have "\<not> covers now d" if "d \<in> set (concat gs)" for d
      using that c Cons.prems(1) by (fastforce simp: covers_def apart_def)
    then have "filter (covers now) (concat gs) = []" by (simp add: filter_empty_conv)
    then show ?thesis by (auto intro!: bexI [of _ g] simp: mset_filter)
  next
    case False
    with Cons show ?thesis by (auto simp: filter_empty_conv)
  qed
qed simp

lemma mset_map_filter_le:
  "list_all2 R xs ys \<Longrightarrow> (\<And>x y. R x y \<Longrightarrow> f y = f x) \<Longrightarrow> (\<And>x y. (x, y) \<in> set (zip xs ys) \<Longrightarrow> P x \<Longrightarrow> Q y) \<Longrightarrow>
   mset (map f (filter P xs)) \<subseteq># mset (map f (filter Q ys))"
proof (induction rule: list_all2_induct)
  case (Cons x xs y ys)
  have "mset (map f (filter P xs)) \<subseteq># mset (map f (filter Q ys))" by (rule Cons.IH) (use Cons.prems in auto)
  moreover have "f y = f x" "P x \<Longrightarrow> Q y" using Cons.prems Cons.hyps by auto
  ultimately show ?case by (auto intro: subset_mset.trans)
qed simp

lemma recovered_group_covers:
  assumes "\<forall>c\<in>set cs. \<forall>e. cr_end c = Some e \<longrightarrow> cr_start c \<le> e" "\<exists>c\<in>set cs. covers now c"
  shows "\<exists>g\<in>set (recover_path_groups cs pe). mset (map cr_child_id (filter (covers now) cs)) \<subseteq># mset (pf_signature g) \<and>
    mset (map cr_child_service_id (filter (covers now) cs)) \<subseteq># mset (pf_service_signature g)"
proof -
  from recovered_components [OF assms(1), of pe] obtain gs where
    gs: "concat gs = sort_key cr_start (completed cs)" "sorted_wrt apart gs"
      "recover_path_groups cs pe =
      map (\<lambda>(g, p, q). \<lparr>pf_path_prefix = p, pf_service_path_prefix = q, pf_signature = sort (map cr_child_id g),
          pf_service_signature = sort (map cr_child_service_id g), pf_post_join_us = post_join_us (last_end g) pe\<rparr>)
        (zip gs (zip (prefixes pp_root (map (\<lambda>g. sort (map cr_child_id g)) gs))
           (prefixes pp_root (map (\<lambda>g. sort (map cr_child_service_id g)) gs))))" by blast
  have len: "length (prefixes p ss) = length ss" for p ss by (induction p ss rule: prefixes.induct) simp_all
  have "\<exists>c\<in>set (concat gs). covers now c" using assms(2) by (auto simp: gs(1) completed_def covers_def)
  from covering_one_group [OF gs(2) this] obtain i where
    i: "i < length gs" "mset (filter (covers now) (concat gs)) \<subseteq># mset (gs ! i)" by (metis in_set_conv_nth)
  have "filter (covers now) (completed cs) = filter (covers now) cs" by (auto simp: completed_def covers_def intro: filter_cong)
  then have sub: "mset (filter (covers now) cs) \<subseteq># mset (gs ! i)" using i(2) by (metis gs(1) mset_filter mset_sort)
  have "i < length (recover_path_groups cs pe)" "pf_signature (recover_path_groups cs pe ! i) = sort (map cr_child_id (gs ! i))"
    "pf_service_signature (recover_path_groups cs pe ! i) = sort (map cr_child_service_id (gs ! i))"
    using i(1) by (simp_all add: gs(3) len)
  with image_mset_subseteq_mono [OF sub, of cr_child_id] image_mset_subseteq_mono [OF sub, of cr_child_service_id] show ?thesis
    by (intro bexI [of _ "recover_path_groups cs pe ! i"]) simp_all
qed


text \<open>
  Claim C5. The signature with which a child looks up its group, the methods of the children open
  when it is issued and its own, is sorted and contained, with multiplicities, in the signature of
  one of the groups recovered when the request ends, and so for the services: provided that these
  children complete, whatever else the request issues and settles before and after. A child that
  returns early leaves its group.
\<close>

theorem base_signature_in_group:
  assumes "sorted (map step_time (before @ [Issue child service now] @ after))"
    and "issue_child True child service now (fanout_run before fanout_invocation_default) = ((prefix, base, service_prefix, service_base), s)"
    and "\<forall>i<length (fi_children s). \<not> cr_terminal (fi_children s ! i) \<longrightarrow> cr_end (fi_children (fanout_run after s) ! i) \<noteq> None"
  shows "sorted base \<and> sorted service_base \<and> (\<exists>g\<in>set (recover_path_groups (fi_children (fanout_run after s)) parent_end).
    mset base \<subseteq># mset (pf_signature g) \<and> mset service_base \<subseteq># mset (pf_service_signature g))"
proof -
  let ?cs = "fi_children s" and ?ds = "fi_children (fanout_run after s)" and ?open = "\<lambda>c. \<not> cr_terminal c"
  have step: "s = fanout_step (Issue child service now) (fanout_run before fanout_invocation_default)" using assms(2) by simp
  have base: "base = sort (map cr_child_id (filter ?open ?cs))" "service_base = sort (map cr_child_service_id (filter ?open ?cs))"
    using assms(2) by (auto simp: issue_child_def Let_def open_children_def)
  have run: "fanout_run (before @ [Issue child service now]) fanout_invocation_default = s"
    "fanout_run (before @ [Issue child service now] @ after) fanout_invocation_default = fanout_run after s"
    by (simp_all add: fanout_run_def step)
  have "list_all (record_at 0) (fi_children fanout_invocation_default)" by (simp add: fanout_invocation_default_def)
  from fanout_run_records [OF this, of "before @ [Issue child service now]"]
    fanout_run_records [OF this, of "before @ [Issue child service now] @ after"] assms(1) run
  have records: "list_all (record_at now) ?cs" "\<exists>t. list_all (record_at t) ?ds" by (auto simp: sorted_append)
  have "record_later now c c" if "c \<in> set ?cs" for c by (simp add: record_later_def)
  then have "grown now ?cs ?cs" by (simp add: grown_def list_all2_same)
  from fanout_run_grown [OF this, of after] have grown: "grown now ?cs ?ds" using assms(1) by (simp add: sorted_append)
  then have later: "length ?cs \<le> length ?ds" "list_all2 (record_later now) ?cs (take (length ?cs) ?ds)" by (simp_all add: grown_def)
  have covers: "covers now d" if "(c, d) \<in> set (zip ?cs (take (length ?cs) ?ds))" "?open c" for c d
    using that later records(1) assms(3)
    by (auto simp: set_zip list_all2_conv_all_nth record_later_def record_at_def list_all_length covers_def)
  have sub: "mset (map f (filter ?open ?cs)) \<subseteq># mset (map f (filter (covers now) ?ds))"
    if "\<And>c d. record_later now c d \<Longrightarrow> f d = f c" for f :: "child_record \<Rightarrow> method_id"
  proof -
    have "mset (map f (filter ?open ?cs)) \<subseteq># mset (map f (filter (covers now) (take (length ?cs) ?ds)))"
      using mset_map_filter_le [OF later(2) that covers] .
    also have "\<dots> \<subseteq># mset (map f (filter (covers now) (take (length ?cs) ?ds @ drop (length ?cs) ?ds)))"
      by (simp del: append_take_drop_id)
    finally show ?thesis by simp
  qed
  have "?open (last ?cs)" "?cs \<noteq> []" by (simp_all add: step issue_children)
  then have "covers now (?ds ! (length ?cs - 1))"
    using later(1) by (intro covers [of "last ?cs"]) (auto simp: set_zip last_conv_nth intro!: exI [of _ "length ?cs - 1"])
  moreover have "length ?cs - 1 < length ?ds" using later(1) \<open>?cs \<noteq> []\<close> by (cases ?cs) simp_all
  ultimately have "\<exists>c\<in>set ?ds. covers now c" by (meson nth_mem)
  from recovered_group_covers [OF _ this, of parent_end] records(2) obtain g where
    g: "g \<in> set (recover_path_groups ?ds parent_end)" "mset (map cr_child_id (filter (covers now) ?ds)) \<subseteq># mset (pf_signature g)"
      "mset (map cr_child_service_id (filter (covers now) ?ds)) \<subseteq># mset (pf_service_signature g)"
    by (auto simp: list_all_iff record_at_def)
  have "mset base \<subseteq># mset (pf_signature g)" "mset service_base \<subseteq># mset (pf_service_signature g)"
    using subset_mset.order_trans [OF sub [of cr_child_id] g(2)] subset_mset.order_trans [OF sub [of cr_child_service_id] g(3)]
    by (simp_all add: base record_later_def)
  then show ?thesis using g(1) base by auto
qed


theorem base_signature_in_group_witness:
  "\<exists>g\<in>set (recover_path_groups
      (fi_children (fanout_run [Issue 7 1 0, Issue 8 1 2000, Settle 0 False 4000, Settle 1 False 5000] fanout_invocation_default)) 9000).
    mset [7, 8] \<subseteq># mset (pf_signature g)"
proof -
  let ?s = "snd (issue_child True 8 1 2000 (fanout_run [Issue 7 1 0] fanout_invocation_default))"
  let ?after = "[Settle 0 False 4000, Settle 1 False 5000]"
  have children: "fi_children (fanout_run [Issue 7 1 0] fanout_invocation_default) =
      [\<lparr>cr_child_id = 7, cr_child_service_id = 1, cr_start = 0, cr_end = None, cr_terminal = False\<rparr>]"
    by (simp add: fanout_run_def issue_children fanout_invocation_default_def)
  have "\<exists>p q. issue_child True 8 1 2000 (fanout_run [Issue 7 1 0] fanout_invocation_default) = ((p, [7, 8], q, [1, 1]), ?s)"
    using children by (simp add: issue_child_def Let_def open_children_def)
  then obtain p q where issue: "issue_child True 8 1 2000 (fanout_run [Issue 7 1 0] fanout_invocation_default) = ((p, [7, 8], q, [1, 1]), ?s)"
    by blast
  have "fi_children (fanout_run ?after ?s) = [\<lparr>cr_child_id = 7, cr_child_service_id = 1, cr_start = 0, cr_end = Some 4000, cr_terminal = True\<rparr>,
      \<lparr>cr_child_id = 8, cr_child_service_id = 1, cr_start = 2000, cr_end = Some 5000, cr_terminal = True\<rparr>]"
    using children by (simp add: fanout_run_def settle_children issue_children)
  then have "\<forall>i<length (fi_children ?s). \<not> cr_terminal (fi_children ?s ! i) \<longrightarrow> cr_end (fi_children (fanout_run ?after ?s) ! i) \<noteq> None"
    using children by (auto simp: issue_children less_Suc_eq)
  from base_signature_in_group [OF _ issue this, of 9000] show ?thesis by (simp add: fanout_run_def) blast
qed

text \<open>
  Without that proviso the containment fails: the first child is open when the second is issued,
  so the second looks up both, and returns early, so the recovered group is the second alone.
\<close>

lemma early_sibling_leaves_group:
  defines "s \<equiv> fanout_run [Issue 7 1 0] fanout_invocation_default"
  shows "fst (snd (fst (issue_child True 8 1 2000 s))) = [7, 8]"
    "map pf_signature (recover_path_groups
       (fi_children (fanout_run [Issue 8 1 2000, Settle 0 True 4000, Settle 1 False 5000] s)) 9000) = [[8]]"
proof -
  have children: "fi_children s = [\<lparr>cr_child_id = 7, cr_child_service_id = 1, cr_start = 0, cr_end = None, cr_terminal = False\<rparr>]"
    by (simp add: s_def fanout_run_def issue_children fanout_invocation_default_def)
  then show "fst (snd (fst (issue_child True 8 1 2000 s))) = [7, 8]" by (simp add: issue_child_def Let_def open_children_def)
  have "fi_children (fanout_run [Issue 8 1 2000, Settle 0 True 4000, Settle 1 False 5000] s) =
      [\<lparr>cr_child_id = 7, cr_child_service_id = 1, cr_start = 0, cr_end = None, cr_terminal = True\<rparr>,
       \<lparr>cr_child_id = 8, cr_child_service_id = 1, cr_start = 2000, cr_end = Some 5000, cr_terminal = True\<rparr>]"
    using children by (simp add: fanout_run_def settle_children issue_children)
  then show "map pf_signature (recover_path_groups
       (fi_children (fanout_run [Issue 8 1 2000, Settle 0 True 4000, Settle 1 False 5000] s)) 9000) = [[8]]"
    by (simp add: recover_path_groups_def push_path_group_def)
qed

text \<open>
  The prefix kept for the open group may hold a member of it: the first child has ended when the
  third is issued, but overlaps the second, which is open; the third looks up its group under the
  prefix of the first, and the group of all three is recovered under the root.
\<close>

lemma open_group_prefix_holds_member:
  defines "s \<equiv> fanout_run [Issue 7 1 0, Issue 8 1 2000, Settle 0 False 4000] fanout_invocation_default"
  shows "fst (fst (issue_child True 9 1 5000 s)) = append_signature pp_root [7]"
    "map (\<lambda>g. (pf_path_prefix g, pf_signature g)) (recover_path_groups
       (fi_children (fanout_run [Issue 9 1 5000, Settle 1 False 6000, Settle 2 False 7000] s)) 9000) = [(pp_root, [7, 8, 9])]"
proof -
  have children: "fi_children s =
      [\<lparr>cr_child_id = 7, cr_child_service_id = 1, cr_start = 0, cr_end = Some 4000, cr_terminal = True\<rparr>,
       \<lparr>cr_child_id = 8, cr_child_service_id = 1, cr_start = 2000, cr_end = None, cr_terminal = False\<rparr>]"
    by (simp add: s_def fanout_run_def issue_children settle_children fanout_invocation_default_def)
  have rest: "fi_path_prefix s = pp_root" "incorporated_child_count s = 0"
    by (simp_all add: s_def fanout_run_def issue_child_def settle_child_def fanout_invocation_default_def
        refresh_path_prefix_before_open_group_def Let_def)
  show "fst (fst (issue_child True 9 1 5000 s)) = append_signature pp_root [7]"
    by (simp add: issue_child_def Let_def children rest refresh_path_prefix_before_open_group_def recover_path_groups_def
        push_path_group_def)
  have "fi_children (fanout_run [Issue 9 1 5000, Settle 1 False 6000, Settle 2 False 7000] s) =
      [\<lparr>cr_child_id = 7, cr_child_service_id = 1, cr_start = 0, cr_end = Some 4000, cr_terminal = True\<rparr>,
       \<lparr>cr_child_id = 8, cr_child_service_id = 1, cr_start = 2000, cr_end = Some 6000, cr_terminal = True\<rparr>,
       \<lparr>cr_child_id = 9, cr_child_service_id = 1, cr_start = 5000, cr_end = Some 7000, cr_terminal = True\<rparr>]"
    using children by (simp add: fanout_run_def settle_children issue_children)
  then show "map (\<lambda>g. (pf_path_prefix g, pf_signature g)) (recover_path_groups
       (fi_children (fanout_run [Issue 9 1 5000, Settle 1 False 6000, Settle 2 False 7000] s)) 9000) = [(pp_root, [7, 8, 9])]"
    by (simp add: recover_path_groups_def push_path_group_def)
qed


section \<open>Reports over a call tree\<close>

text \<open>
  What happens in one hop: a poll between two instants, a check past the local deadline, the end of
  a child; a hop is its result, the utilization when it responds and its events. Only the report
  of a child that succeeded is read, so a hop hears of the hops it reaches through such children.
\<close>

datatype 'h hop_event = Polled nat nat | WasLate | Called 'h

datatype hop = Hop (hop_result: "status + unit") (hop_util: f32) (hop_events: "hop hop_event list")

lemma hop_event_map_cong [fundef_cong]:
  "e = e' \<Longrightarrow> (\<And>h. h \<in> set_hop_event e' \<Longrightarrow> f h = g h) \<Longrightarrow> map_hop_event f e = map_hop_event g e'"
  by (cases e') simp_all

fun tally_event :: "((status + unit) \<times> estimation_response_wire) hop_event \<Rightarrow> request_metadata \<Rightarrow> request_metadata" where
  "tally_event (Polled start stop) md = end_poll stop (start_poll start md)"
| "tally_event WasLate md = mark_deadline_signal md"
| "tally_event (Called (response, report)) md = absorb_child response (child_report response (Some report)) md"

lemma hop_size: "e \<in> set es \<Longrightarrow> h \<in> set_hop_event e \<Longrightarrow> size h < size (Hop r u es)"
proof -
  assume e: "e \<in> set es" and h: "h \<in> set_hop_event e"
  have "size_hop_event size e \<le> size_list (size_hop_event size) es" using e by (rule size_list_estimation') simp
  moreover have "size h < size_hop_event size e" using h by (cases e) simp_all
  ultimately show ?thesis by simp
qed

function hop_report :: "hop \<Rightarrow> estimation_response_wire" where
  "hop_report (Hop r u es) =
     (let md = fold tally_event (map (map_hop_event (\<lambda>h. (hop_result h, hop_report h))) es) metadata_new in
      response_wire u (if is_early_return_response r then mark_early_return md else md))"
  by pat_completeness auto
termination by (relation "measure size") (simp_all only: wf_measure in_measure hop_size)

function heard :: "hop \<Rightarrow> hop list" where
  "heard (Hop r u es) = Hop r u es # concat (map (\<lambda>e. case e of
      Called h \<Rightarrow> (case hop_result h of Inr _ \<Rightarrow> heard h | Inl _ \<Rightarrow> []) | _ \<Rightarrow> []) es)"
  by pat_completeness auto
termination by (relation "measure size") (simp_all only: wf_measure in_measure, metis hop_event.set_intros hop_size)

definition own_compute :: "hop \<Rightarrow> u64" where
  "own_compute h = sum_list (map (\<lambda>e. case e of Polled start stop \<Rightarrow> of_nat ((stop - start) div 1000) | _ \<Rightarrow> 0) (hop_events h))"

definition early_children :: "hop \<Rightarrow> nat" where
  "early_children h = length (filter (\<lambda>e. case e of Called c \<Rightarrow> is_early_return_response (hop_result c) | _ \<Rightarrow> False) (hop_events h))"


lemma tally_step:
  "poll_compute_us (md_compute (tally_event e md)) = poll_compute_us (md_compute md) +
      (case e of Polled start stop \<Rightarrow> of_nat ((stop - start) div 1000) | _ \<Rightarrow> 0)"
  "accumulated_child_compute_us (tally_event e md) = accumulated_child_compute_us md +
      (case e of Called (Inr _, r) \<Rightarrow> accumulated_compute_us r | _ \<Rightarrow> 0)"
  "accumulated_child_early_returns (tally_event e md) = accumulated_child_early_returns md +
      (case e of Called (Inr _, r) \<Rightarrow> early_return_count r
        | Called (response, _) \<Rightarrow> if is_early_return_response response then 1 else 0 | _ \<Rightarrow> 0)"
  "max_child_downstream_util (tally_event e md) =
      fold max (case e of Called (Inr _, r) \<Rightarrow> [max_downstream_util r] | _ \<Rightarrow> []) (max_child_downstream_util md)"
  "child_deadline_signal (tally_event e md) \<longleftrightarrow> child_deadline_signal md \<or>
      (case e of Called (Inr _, r) \<Rightarrow> 0 < deadline_signal_count r | _ \<Rightarrow> False)"
  "local_deadline_signal (tally_event e md) \<longleftrightarrow> local_deadline_signal md \<or> e = WasLate"
  "local_early_return (tally_event e md) = local_early_return md"
proof -
  note one = end_poll_def start_poll_def compute_start_def compute_stop_def mark_deadline_signal_def absorb_child_def
    child_report_def is_early_return_response_def
  have cases: P if "\<And>start stop. e = Polled start stop \<Longrightarrow> P" "e = WasLate \<Longrightarrow> P" "\<And>u r. e = Called (Inr u, r) \<Longrightarrow> P"
      "\<And>st r. e = Called (Inl st, r) \<Longrightarrow> P" for P
    using that by (metis hop_event.exhaust old.prod.exhaust old.sum.exhaust)
  show "poll_compute_us (md_compute (tally_event e md)) = poll_compute_us (md_compute md) +
      (case e of Polled start stop \<Rightarrow> of_nat ((stop - start) div 1000) | _ \<Rightarrow> 0)"
    by (rule cases) (simp_all add: one max_def disj_commute)
  show "accumulated_child_compute_us (tally_event e md) = accumulated_child_compute_us md +
      (case e of Called (Inr _, r) \<Rightarrow> accumulated_compute_us r | _ \<Rightarrow> 0)"
    by (rule cases) (simp_all add: one max_def disj_commute)
  show "accumulated_child_early_returns (tally_event e md) = accumulated_child_early_returns md +
      (case e of Called (Inr _, r) \<Rightarrow> early_return_count r
        | Called (response, _) \<Rightarrow> if is_early_return_response response then 1 else 0 | _ \<Rightarrow> 0)"
    by (rule cases) (simp_all add: one max_def disj_commute)
  show "max_child_downstream_util (tally_event e md) =
      fold max (case e of Called (Inr _, r) \<Rightarrow> [max_downstream_util r] | _ \<Rightarrow> []) (max_child_downstream_util md)"
    by (rule cases) (simp_all add: one max_def disj_commute)
  show "child_deadline_signal (tally_event e md) \<longleftrightarrow> child_deadline_signal md \<or>
      (case e of Called (Inr _, r) \<Rightarrow> 0 < deadline_signal_count r | _ \<Rightarrow> False)"
    by (rule cases) (simp_all add: one max_def disj_commute)
  show "local_deadline_signal (tally_event e md) \<longleftrightarrow> local_deadline_signal md \<or> e = WasLate"
    by (rule cases) (simp_all add: one max_def disj_commute)
  show "local_early_return (tally_event e md) = local_early_return md"
    by (rule cases) (simp_all add: one max_def disj_commute)
qed

lemma tally_fold:
  "poll_compute_us (md_compute (fold tally_event es md)) = poll_compute_us (md_compute md) +
      sum_list (map (\<lambda>e. case e of Polled start stop \<Rightarrow> of_nat ((stop - start) div 1000) | _ \<Rightarrow> 0) es)"
  "accumulated_child_compute_us (fold tally_event es md) = accumulated_child_compute_us md +
      sum_list (map (\<lambda>e. case e of Called (Inr _, r) \<Rightarrow> accumulated_compute_us r | _ \<Rightarrow> 0) es)"
  "accumulated_child_early_returns (fold tally_event es md) = accumulated_child_early_returns md +
      sum_list (map (\<lambda>e. case e of Called (Inr _, r) \<Rightarrow> early_return_count r
        | Called (response, _) \<Rightarrow> if is_early_return_response response then 1 else 0 | _ \<Rightarrow> 0) es)"
  "max_child_downstream_util (fold tally_event es md) =
      fold max (concat (map (\<lambda>e. case e of Called (Inr _, r) \<Rightarrow> [max_downstream_util r] | _ \<Rightarrow> []) es)) (max_child_downstream_util md)"
  "child_deadline_signal (fold tally_event es md) \<longleftrightarrow> child_deadline_signal md \<or>
      (\<exists>e\<in>set es. case e of Called (Inr _, r) \<Rightarrow> 0 < deadline_signal_count r | _ \<Rightarrow> False)"
  "local_deadline_signal (fold tally_event es md) \<longleftrightarrow> local_deadline_signal md \<or> WasLate \<in> set es"
  "local_early_return (fold tally_event es md) = local_early_return md"
proof (induction es arbitrary: md)
  case (Cons e es)
  { case 1 show ?case using Cons.IH(1) [of "tally_event e md"] by (simp add: tally_step add.assoc disj_assoc) }
  { case 2 show ?case using Cons.IH(2) [of "tally_event e md"] by (simp add: tally_step add.assoc disj_assoc) }
  { case 3 show ?case using Cons.IH(3) [of "tally_event e md"] by (simp add: tally_step add.assoc disj_assoc) }
  { case 4 show ?case using Cons.IH(4) [of "tally_event e md"] by (simp add: tally_step add.assoc disj_assoc) }
  { case 5 show ?case using Cons.IH(5) [of "tally_event e md"] by (simp add: tally_step add.assoc disj_assoc) }
  { case 6 show ?case using Cons.IH(6) [of "tally_event e md"] by (auto simp: tally_step) }
  { case 7 show ?case using Cons.IH(7) [of "tally_event e md"] by (simp add: tally_step add.assoc disj_assoc) }
qed simp_all

lemma fold_max_Max: "fold max xs (m :: 'a::linorder) = Max (insert m (set xs))"
  using Max.set_eq_fold [of m xs] by simp

lemma Max_of_Maxes:
  "(\<And>k. finite (A k)) \<Longrightarrow> Max (insert m ((\<lambda>k. Max (insert (m :: 'a::linorder) (A k))) ` set ks)) = Max (insert m (\<Union>k\<in>set ks. A k))"
proof (induction ks)
  case (Cons k ks)
  have "insert m (\<Union>k\<in>set (k # ks). A k) = insert m (A k) \<union> insert m (\<Union>k\<in>set ks. A k)" by auto
  then have "Max (insert m (\<Union>k\<in>set (k # ks). A k)) = max (Max (insert m (A k))) (Max (insert m (\<Union>k\<in>set ks. A k)))"
    using Cons.prems by (simp only:) (subst Max_Un, auto)
  also have "\<dots> = max (Max (insert m (A k))) (Max (insert m ((\<lambda>k. Max (insert m (A k))) ` set ks)))" using Cons by simp
  also have "\<dots> = Max (insert (Max (insert m (A k))) (insert m ((\<lambda>k. Max (insert m (A k))) ` set ks)))" by simp
  finally show ?case by (simp add: insert_commute)
qed simp

text \<open>The children of a hop that succeeded, and what the tally takes from each event.\<close>

definition ok_calls :: "hop hop_event list \<Rightarrow> hop list" where
  "ok_calls es = concat (map (\<lambda>e. case e of Called h \<Rightarrow> (case hop_result h of Inr _ \<Rightarrow> [h] | Inl _ \<Rightarrow> []) | _ \<Rightarrow> []) es)"

abbreviation reports :: "hop hop_event list \<Rightarrow> ((status + unit) \<times> estimation_response_wire) hop_event list" where
  "reports es \<equiv> map (map_hop_event (\<lambda>h. (hop_result h, hop_report h))) es"

lemma heard_ok_calls: "heard (Hop r u es) = Hop r u es # concat (map heard (ok_calls es))"
  unfolding ok_calls_def by (simp, induction es) (simp_all split: hop_event.split sum.split)

lemma reports_sum:
  fixes f :: "estimation_response_wire \<Rightarrow> 'a::monoid_add"
  shows "sum_list (map (\<lambda>e. case e of Called (Inr _, x) \<Rightarrow> f x | _ \<Rightarrow> 0) (reports es)) = sum_list (map (f \<circ> hop_report) (ok_calls es))"
  unfolding ok_calls_def by (induction es) (simp_all split: hop_event.split sum.split)

lemma reports_polls:
  "sum_list (map (\<lambda>e. case e of Polled start stop \<Rightarrow> of_nat ((stop - start) div 1000) | _ \<Rightarrow> 0) (reports es)) = own_compute (Hop r u es)"
  unfolding own_compute_def hop.sel by (induction es) (simp_all split: hop_event.split)

lemma reports_early:
  "sum_list (map (\<lambda>e. case e of Called (Inr _, x) \<Rightarrow> early_return_count x
      | Called (response, _) \<Rightarrow> if is_early_return_response response then 1 else 0 | _ \<Rightarrow> 0) (reports es)) =
   of_nat (early_children (Hop r u es)) + sum_list (map (early_return_count \<circ> hop_report) (ok_calls es))"
  unfolding early_children_def hop.sel ok_calls_def
  by (induction es) (simp_all add: is_early_return_response_def split: hop_event.split sum.split)

lemma reports_utils:
  "concat (map (\<lambda>e. case e of Called (Inr _, x) \<Rightarrow> [max_downstream_util x] | _ \<Rightarrow> []) (reports es)) =
   map (max_downstream_util \<circ> hop_report) (ok_calls es)"
  unfolding ok_calls_def by (induction es) (simp_all split: hop_event.split sum.split)

lemma reports_signals:
  "(\<exists>e\<in>set (reports es). case e of Called (Inr _, x) \<Rightarrow> 0 < deadline_signal_count x | _ \<Rightarrow> False) \<longleftrightarrow>
   (\<exists>k\<in>set (ok_calls es). 0 < deadline_signal_count (hop_report k))"
proof -
  have "(case map_hop_event (\<lambda>h. (hop_result h, hop_report h)) e of Called (Inr _, x) \<Rightarrow> 0 < deadline_signal_count x | _ \<Rightarrow> False) \<longleftrightarrow>
      (\<exists>k\<in>set (case e of Called h \<Rightarrow> (case hop_result h of Inr _ \<Rightarrow> [h] | Inl _ \<Rightarrow> []) | _ \<Rightarrow> []). 0 < deadline_signal_count (hop_report k))" for e
    by (cases e) (simp_all split: sum.split)
  then show ?thesis unfolding ok_calls_def by simp
qed

lemma reports_late: "WasLate \<in> set (reports es) \<longleftrightarrow> WasLate \<in> set es"
proof -
  have "WasLate = map_hop_event f e \<longleftrightarrow> WasLate = e" for f :: "hop \<Rightarrow> (status + unit) \<times> estimation_response_wire" and e by (cases e) simp_all
  then show ?thesis by (simp add: image_iff)
qed

lemma hop_report_step:
  "accumulated_compute_us (hop_report (Hop r u es)) = own_compute (Hop r u es) + sum_list (map (accumulated_compute_us \<circ> hop_report) (ok_calls es))"
  "early_return_count (hop_report (Hop r u es)) = (if is_early_return_response r then 1 else 0) +
     (of_nat (early_children (Hop r u es)) + sum_list (map (early_return_count \<circ> hop_report) (ok_calls es)))"
  "max_downstream_util (hop_report (Hop r u es)) = max u (Max (insert 0 ((max_downstream_util \<circ> hop_report) ` set (ok_calls es))))"
  "deadline_signal_count (hop_report (Hop r u es)) =
     (if WasLate \<in> set es \<or> (\<exists>k\<in>set (ok_calls es). 0 < deadline_signal_count (hop_report k)) then 1 else 0)"
proof -
  let ?md = "fold tally_event (reports es) metadata_new"
  note md = tally_fold [of "reports es" metadata_new, unfolded reports_sum reports_polls [of _ r u] reports_early [of _ r u] reports_utils
      reports_signals reports_late fold_max_Max]
  have init: "poll_compute_us (md_compute metadata_new) = 0" "accumulated_child_compute_us metadata_new = 0"
    "accumulated_child_early_returns metadata_new = 0" "max_child_downstream_util metadata_new = 0"
    "\<not> child_deadline_signal metadata_new" "\<not> local_deadline_signal metadata_new" "\<not> local_early_return metadata_new"
    by (simp_all add: metadata_new_def compute_new_def)
  have report: "hop_report (Hop r u es) = response_wire u (if is_early_return_response r then mark_early_return ?md else ?md)"
    by (simp only: hop_report.simps Let_def)
  note defs = response_wire_def mark_early_return_def init
  show "accumulated_compute_us (hop_report (Hop r u es)) = own_compute (Hop r u es) + sum_list (map (accumulated_compute_us \<circ> hop_report) (ok_calls es))"
    unfolding report using md(1,2) by (simp add: defs)
  show "early_return_count (hop_report (Hop r u es)) = (if is_early_return_response r then 1 else 0) +
     (of_nat (early_children (Hop r u es)) + sum_list (map (early_return_count \<circ> hop_report) (ok_calls es)))"
    unfolding report using md(3,7) by (simp add: defs)
  show "max_downstream_util (hop_report (Hop r u es)) = max u (Max (insert 0 ((max_downstream_util \<circ> hop_report) ` set (ok_calls es))))"
    unfolding report using md(4) by (simp add: defs)
  show "deadline_signal_count (hop_report (Hop r u es)) =
     (if WasLate \<in> set es \<or> (\<exists>k\<in>set (ok_calls es). 0 < deadline_signal_count (hop_report k)) then 1 else 0)"
    unfolding report using md(5,6) by (simp add: defs)
qed

text \<open>
  Claim C6. What a hop reports at its end, over the call tree below it. Its accumulated compute time
  is the time spent polling by every hop it hears of; the utilization is the highest of theirs; it
  counts each child of these hops that returned early, and itself when it did; and however many of
  them were late, the deadline signal is 1 exactly when one was and 0 otherwise. Counters are taken
  at their width.
\<close>

theorem subtree_report:
  "accumulated_compute_us (hop_report h) = sum_list (map own_compute (heard h)) \<and>
   early_return_count (hop_report h) =
     (if is_early_return_response (hop_result h) then 1 else 0) + of_nat (sum_list (map early_children (heard h))) \<and>
   max_downstream_util (hop_report h) = Max (insert 0 (hop_util ` set (heard h))) \<and>
   deadline_signal_count (hop_report h) = (if \<exists>k\<in>set (heard h). WasLate \<in> set (hop_events k) then 1 else 0)"
proof (induction h rule: heard.induct)
  case (1 r u es)
  let ?ok = "ok_calls es"
  have IH: "accumulated_compute_us (hop_report k) = sum_list (map own_compute (heard k))"
    "early_return_count (hop_report k) = of_nat (sum_list (map early_children (heard k)))"
    "max_downstream_util (hop_report k) = Max (insert 0 (hop_util ` set (heard k)))"
    "deadline_signal_count (hop_report k) = (if \<exists>j\<in>set (heard k). WasLate \<in> set (hop_events j) then 1 else 0)"
    if "k \<in> set ?ok" for k
    using that 1 by (auto simp: ok_calls_def is_early_return_response_def split: hop_event.splits sum.splits)
  have concat: "sum_list (map f (concat (map heard ks))) = sum_list (map (\<lambda>k. sum_list (map f (heard k))) ks)" for f :: "hop \<Rightarrow> 'b::monoid_add" and ks
    by (induction ks) simp_all
  have "sum_list (map (accumulated_compute_us \<circ> hop_report) ?ok) = sum_list (map (\<lambda>k. sum_list (map own_compute (heard k))) ?ok)"
    using IH(1) by (intro arg_cong [of _ _ sum_list] map_cong) simp_all
  then have compute: "accumulated_compute_us (hop_report (Hop r u es)) = sum_list (map own_compute (heard (Hop r u es)))"
    unfolding heard_ok_calls hop_report_step by (simp add: concat)
  have "sum_list (map (early_return_count \<circ> hop_report) ?ok) = of_nat (sum_list (map early_children (concat (map heard ?ok))))"
  proof -
    have "sum_list (map (early_return_count \<circ> hop_report) ?ok) = sum_list (map (\<lambda>k. of_nat (sum_list (map early_children (heard k)))) ?ok)"
      using IH(2) by (intro arg_cong [of _ _ sum_list] map_cong) simp_all
    moreover have "sum_list (map (\<lambda>k. of_nat (f k)) ks) = (of_nat (sum_list (map f ks)) :: u32)" for f and ks :: "hop list"
      by (induction ks) simp_all
    ultimately show ?thesis unfolding concat by simp
  qed
  then have count: "early_return_count (hop_report (Hop r u es)) =
      (if is_early_return_response r then 1 else 0) + of_nat (sum_list (map early_children (heard (Hop r u es))))"
    unfolding heard_ok_calls hop_report_step by simp
  have *: "(max_downstream_util \<circ> hop_report) ` set ?ok = (\<lambda>k. Max (insert 0 (hop_util ` set (heard k)))) ` set ?ok" using IH(3) by auto
  have util: "max_downstream_util (hop_report (Hop r u es)) = Max (insert 0 (hop_util ` set (heard (Hop r u es))))"
  proof -
    let ?U = "\<Union>k\<in>set ?ok. hop_util ` set (heard k)"
    have "insert 0 (hop_util ` set (heard (Hop r u es))) = insert u (insert 0 ?U)" unfolding heard_ok_calls by auto
    then have "Max (insert 0 (hop_util ` set (heard (Hop r u es)))) = max u (Max (insert 0 ?U))" by simp
    then show ?thesis unfolding hop_report_step *
      using Max_of_Maxes [of "\<lambda>k. hop_util ` set (heard k)" 0 ?ok] by simp
  qed
  have "deadline_signal_count (hop_report (Hop r u es)) =
      (if \<exists>k\<in>set (heard (Hop r u es)). WasLate \<in> set (hop_events k) then 1 else 0)"
    unfolding heard_ok_calls hop_report_step using IH(4) by auto
  with compute count util show ?case by simp
qed


end
