(* ===== verification/Estimation_Module.thy ===== *)
theory Estimation_Module
  imports Estimation "HOL-Library.Countable"
begin

text \<open>
  The hooks of the estimation module, \<open>libs/masa-policy/src/module/est/module.rs\<close>, and the soft
  deadline of \<open>signal_slack.rs\<close>, over the state of \<open>Estimation\<close>. The features of the crate are a
  record. The estimates of the server, the registry, the tally and the tracker of a child are
  passed along with the module; so is each reading of a clock, in the order the code makes them.
\<close>

section \<open>The soft deadline\<close>

record est_features =
  abort_slack :: bool
  signal_slack :: bool
  sched_pred :: bool
  deadline_equals_slack :: bool

definition past_local_deadline :: "masa_context \<Rightarrow> u64 \<Rightarrow> bool" where
  "past_local_deadline budget now \<longleftrightarrow> ctx_deadline budget \<noteq> 0 \<and> ctx_deadline budget < now"

definition mark_if_late :: "est_features \<Rightarrow> masa_context \<Rightarrow> u64 \<Rightarrow> request_metadata \<Rightarrow> request_metadata" where
  "mark_if_late f budget now md =
     (if \<not> signal_slack f then md
      else if past_local_deadline budget now then mark_deadline_signal md else md)"

definition should_skip_flush :: "est_features \<Rightarrow> request_metadata \<Rightarrow> bool" where
  "should_skip_flush f md \<longleftrightarrow> signal_slack f \<and> is_subtree_signaled md"

section \<open>The hooks\<close>

definition ESTIMATION_SECTION :: string where
  "ESTIMATION_SECTION = ''estimation''"

record estimation_module =
  em_tracker :: estimation_tracker
  em_rpc :: grpc_method
  em_info :: estimation_info
  em_budget :: masa_context

definition est_new :: "base64_engine \<Rightarrow> estimation_wire bincode \<Rightarrow> grpc_method \<Rightarrow> nat \<Rightarrow> wire_in \<Rightarrow>
    policy_value extensions \<Rightarrow> method_registry \<Rightarrow> (estimation_module \<times> request_metadata \<times> method_registry) exec" where
  "est_new b64 bin rpc now wire ext reg =
     (case get_or_register rpc reg of (resolved, reg1) \<Rightarrow>
      bind_exec (wi_get b64 bin ESTIMATION_SECTION wire) (\<lambda>r. case r of
        Inl err \<Rightarrow> Panic
      | Inr w \<Rightarrow>
          let inbound = Option.bind w ew_request;
              hops = (case inbound of None \<Rightarrow> 0 | Some request \<Rightarrow> hop_count request) in
          case (if hops = 0 then (Some \<lparr>rm_service = gm_service rpc, rm_method = gm_method rpc\<rparr>, Some resolved, reg1)
                else case Option.bind inbound erq_root_method of
                  None \<Rightarrow> (None, None, reg1)
                | Some rt \<Rightarrow> (case get_or_register \<lparr>gm_service = rm_service rt, gm_method = rm_method rt\<rparr> reg1 of
                    (rid, reg2) \<Rightarrow> (Some rt, Some rid, reg2))) of
            (rt, rid, reg') \<Rightarrow>
              map_exec (\<lambda>budget. (\<lparr>em_tracker = tracker_new resolved rid now, em_rpc = rpc,
                  em_info = \<lparr>ei_hop_count = hops, ei_root_method = rt, ei_root_method_id = rid\<rparr>, em_budget = budget\<rparr>,
                metadata_new, reg'))
              (budget_of ext)))"

definition local_deadline_exceeded :: "grpc_method \<Rightarrow> status" where
  "local_deadline_exceeded rpc =
     Status DeadlineExceeded (''/EarlyReturn?src='' @ method_path rpc @ ''&reason=LocalDeadlineExceeded'')"

text \<open>The second component is the task's new priority, when it is given one.\<close>

definition est_before_poll :: "est_features \<Rightarrow> u64 \<Rightarrow> u64 \<Rightarrow> u64 \<Rightarrow> nat \<Rightarrow> estimation_module \<Rightarrow> request_metadata \<Rightarrow>
    ((status + 'p) + unit) \<times> u64 option \<times> request_metadata" where
  "est_before_poll f t_abort t_signal t_prio t_start m md =
     (if abort_slack f \<and> past_local_deadline (em_budget m) t_abort then (Inl (Inl (local_deadline_exceeded (em_rpc m))), None, md)
      else
        (Inr (), if sched_pred f then Some (saturating_sub (ctx_deadline (em_budget m)) t_prio) else None,
         start_poll t_start (mark_if_late f (em_budget m) t_signal md)))"

definition est_after_poll :: "est_features \<Rightarrow> (status + 'p) poll \<Rightarrow> nat \<Rightarrow> u64 \<Rightarrow> u64 \<Rightarrow> estimation_module \<Rightarrow> request_metadata \<Rightarrow>
    ((status + 'p) + unit) \<times> request_metadata" where
  "est_after_poll f poll t_stop t_abort t_signal m md =
     (let md1 = end_poll t_stop md in
      if poll = PollPending \<and> abort_slack f \<and> past_local_deadline (em_budget m) t_abort
      then (Inl (Inl (local_deadline_exceeded (em_rpc m))), md1)
      else (Inr (), mark_if_late f (em_budget m) t_signal md1))"

definition hard_deadline_estimate :: "est_features \<Rightarrow> u64 \<Rightarrow> u64 \<Rightarrow> u64" where
  "hard_deadline_estimate f slack_estimate deadline_estimate =
     (if deadline_equals_slack f then slack_estimate else deadline_estimate)"

definition child_deadline_and_prio :: "est_features \<Rightarrow> masa_context \<Rightarrow> u64 \<Rightarrow> u64 \<Rightarrow> u64 \<Rightarrow> u64 \<times> priority_hint" where
  "child_deadline_and_prio f budget priority_est deadline_est now =
     (if sched_pred f then
        (saturating_sub (ctx_deadline budget) (hard_deadline_estimate f priority_est deadline_est),
         PriorityHint (saturating_sub (saturating_sub (ctx_deadline budget) priority_est) now))
      else (saturating_sub (ctx_deadline budget) deadline_est, ctx_prio_hint budget))"

text \<open>What \<open>before_child_rpc\<close> proposes; a refused proposal becomes an internal status.\<close>

definition est_propose :: "u64 \<times> priority_hint \<Rightarrow> policy_value extensions \<Rightarrow> (status + unit) \<times> policy_value extensions" where
  "est_propose proposed child =
     (case propose CHILD_DEADLINE (ChildDeadline (fst proposed)) child of
        (Inl refused, c1) \<Rightarrow> (Inl (Status Internal (decision_closed_display refused)), c1)
      | (Inr _, c1) \<Rightarrow>
          (case propose CHILD_PRIORITY (ChildPriority (snd proposed)) c1 of
             (Inl refused, c2) \<Rightarrow> (Inl (Status Internal (decision_closed_display refused)), c2)
           | (Inr _, c2) \<Rightarrow> (Inr (), c2)))"

text \<open>What the hook changes, with the tracker of the child when it is kept.\<close>

record 'e child_issue =
  is_result :: "status + unit"
  is_module :: estimation_module
  is_estimators :: "'e latency_estimators"
  is_registry :: method_registry
  is_child :: "policy_value extensions"
  is_wire :: wire_out
  is_tracker :: "child_rpc_tracker option"

definition est_before_child_rpc :: "est_features \<Rightarrow> base64_engine \<Rightarrow> estimation_wire bincode \<Rightarrow> 'e estimator_ops \<Rightarrow> f64_ops \<Rightarrow>
    fanout_params \<Rightarrow> grpc_method \<Rightarrow> nat \<Rightarrow> u64 \<Rightarrow> u64 \<Rightarrow> u64 \<Rightarrow> policy_value extensions \<Rightarrow> wire_out \<Rightarrow>
    estimation_module \<Rightarrow> 'e latency_estimators \<Rightarrow> method_registry \<Rightarrow> 'e child_issue exec" where
  "est_before_child_rpc f b64 bin ops fl params child_method t_issue t_left t_decay t_prio child child_wire m est reg =
     bind_exec (wo_put b64 bin ESTIMATION_SECTION
         (ew_of_request (saturating_add (ei_hop_count (em_info m)) 1) (ei_root_method (em_info m))) child_wire) (\<lambda>r. case r of
       Inl err \<Rightarrow> Panic
     | Inr wire' \<Rightarrow>
         (case begin_child params child_method t_issue reg (em_tracker m) of (t, tr, reg') \<Rightarrow>
          bind_exec (est_after_child_wallclock_for_group ops fl params (root_or_self tr) (resolved_method_id tr)
              (ct_path_prefix t) (ct_base_signature t) (ct_service_path_prefix t) (ct_base_service_signature t) (ct_child_id t)
              (saturating_sub (e2e_deadline (em_budget m)) t_left) est) (\<lambda>(remaining, est1).
          bind_exec (log_estimates ops (ct_key t) est1) (\<lambda>est2.
          map_exec (\<lambda>(last_obs, est3).
              let decay = decay_factor fl t_decay last_obs;
                  proposed = child_deadline_and_prio f (em_budget m) (f_times fl (ac_full remaining) decay)
                    (f_times fl (ac_floor remaining) decay) t_prio in
              (case est_propose proposed child of (r, child') \<Rightarrow>
                 \<lparr>is_result = r, is_module = m\<lparr>em_tracker := tr\<rparr>, is_estimators = est3, is_registry = reg', is_child = child',
                  is_wire = wire', is_tracker = (case r of Inl _ \<Rightarrow> None | Inr _ \<Rightarrow> Some t)\<rparr>))
            (after_child_wallclock_last_obs ops (ct_key t) est2)))))"

definition est_after_child_rpc :: "est_features \<Rightarrow> base64_engine \<Rightarrow> estimation_wire bincode \<Rightarrow> 'e estimator_ops \<Rightarrow>
    (status, 'p) child_outcome \<Rightarrow> wire_in \<Rightarrow> child_rpc_tracker option \<Rightarrow> nat \<Rightarrow> nat \<Rightarrow> estimation_module \<Rightarrow> 'e latency_estimators \<Rightarrow>
    request_metadata \<Rightarrow> ((status + unit) \<times> estimation_module \<times> 'e latency_estimators \<times> request_metadata) exec" where
  "est_after_child_rpc f b64 bin ops outcome wire tracker t_elapsed t_end m est md =
     (case sent outcome of
        None \<Rightarrow> Done (Inr (), m, est, md)
      | Some response \<Rightarrow>
          map_exec (\<lambda>(m', est', md').
              (case response of Inl status \<Rightarrow> if sched_pred f then Inl status else Inr () | Inr _ \<Rightarrow> Inr (), m', est', md'))
            (case tracker of
               None \<Rightarrow> Done (m, est, md)
             | Some t \<Rightarrow>
                 bind_exec (wi_get b64 bin ESTIMATION_SECTION wire) (\<lambda>r. case r of
                     Inl err \<Rightarrow> Panic
                   | Inr w \<Rightarrow>
                       let report = child_report response (Option.bind w ew_response) in
                       map_exec (\<lambda>(tr, est'). (m\<lparr>em_tracker := tr\<rparr>, est', absorb_child response report md))
                         (record_child_complete ops t response report t_elapsed t_end (em_tracker m) est))))"

definition est_finalize :: "est_features \<Rightarrow> base64_engine \<Rightarrow> estimation_wire bincode \<Rightarrow> 'e estimator_ops \<Rightarrow> fanout_params \<Rightarrow>
    status + 'p \<Rightarrow> nat \<Rightarrow> nat \<Rightarrow> f32 \<Rightarrow> wire_out \<Rightarrow> estimation_module \<Rightarrow> 'e latency_estimators \<Rightarrow> request_metadata \<Rightarrow>
    (estimation_module \<times> 'e latency_estimators \<times> request_metadata \<times> wire_out) exec" where
  "est_finalize f b64 bin ops params result parent_end t_total current_utilization wire m est md =
     bind_exec
       (if is_early_return_response result then Done (m, est, mark_early_return md)
        else if should_skip_flush f md then Done (m, est, md)
        else map_exec (\<lambda>(tr, est'). (m\<lparr>em_tracker := tr\<rparr>, est', md)) (flush ops params parent_end t_total (em_tracker m) est))
       (\<lambda>(m', est', md').
         bind_exec (wo_put b64 bin ESTIMATION_SECTION (ew_of_response (response_wire current_utilization md')) wire)
           (\<lambda>r. case r of Inl err \<Rightarrow> Panic | Inr wire' \<Rightarrow> Done (m', est', md', wire')))"

section \<open>The root and the depth of a request\<close>

text \<open>
  The modules of a request's call tree: the one at ingress, whose request carries no estimation
  section, and the one of each child, which reads the section its parent wrote; the others may
  have written theirs. What the parent did in between leaves the facts of its request.
\<close>

inductive serves :: "base64_engine \<Rightarrow> estimation_wire bincode \<Rightarrow> 'e estimator_ops \<Rightarrow> grpc_method \<Rightarrow> nat \<Rightarrow> estimation_module \<Rightarrow> bool"
  for b64 bin ops rpc where
  ingress: "est_new b64 bin rpc now wire ext reg = Done (m, md, reg') \<Longrightarrow>
     find_section (wi_sections wire) ESTIMATION_SECTION = None \<Longrightarrow> serves b64 bin ops rpc 0 m"
| child: "serves b64 bin ops rpc n parent \<Longrightarrow> em_info m = em_info parent \<Longrightarrow>
     est_before_child_rpc f b64 bin ops fl params child_rpc t_issue t_left t_decay t_prio child out m est reg = Done issue \<Longrightarrow>
     find_section (wi_sections wire) ESTIMATION_SECTION = find_section (wo_header (is_wire issue)) ESTIMATION_SECTION \<Longrightarrow>
     est_new b64 bin child_rpc now wire ext reg1 = Done (m', md, reg2) \<Longrightarrow> serves b64 bin ops rpc (Suc n) m'"

inductive_cases serves_ingressE: "serves b64 bin ops rpc 0 m"
inductive_cases serves_childE: "serves b64 bin ops rpc (Suc n) m"

lemma ESTIMATION_valid: "valid_name ESTIMATION_SECTION"
  by (simp add: ESTIMATION_SECTION_def valid_name_def is_ascii_alphanumeric_def)

lemma wi_get_cong:
  "find_section (wi_sections w) NAME = find_section (wi_sections v) NAME \<Longrightarrow> wi_get b64 bin NAME w = wi_get b64 bin NAME v"
  by (simp add: wi_get_def decode_present_def)

lemma est_new_info:
  assumes "est_new b64 bin rpc now wire ext reg = Done (m, md, reg')" "wi_get b64 bin ESTIMATION_SECTION wire = Done (Inr w)"
  shows "ei_hop_count (em_info m) = (case Option.bind w ew_request of None \<Rightarrow> 0 | Some request \<Rightarrow> hop_count request)"
    "ei_root_method (em_info m) = (if ei_hop_count (em_info m) = 0 then Some \<lparr>rm_service = gm_service rpc, rm_method = gm_method rpc\<rparr>
       else Option.bind (Option.bind w ew_request) erq_root_method)"
    "budget_of ext = Done (em_budget m)" "md = metadata_new"
  using assms by (auto simp: est_new_def map_exec_Done Let_def split: prod.splits option.splits if_splits)

lemma est_before_child_cases:
  assumes "est_before_child_rpc f b64 bin ops fl params child_rpc t_issue t_left t_decay t_prio child out m est reg = Done issue"
  obtains t tr reg' remaining est1 est2 last_obs est3 where
    "wo_put b64 bin ESTIMATION_SECTION (ew_of_request (saturating_add (ei_hop_count (em_info m)) 1) (ei_root_method (em_info m))) out =
       Done (Inr (is_wire issue))"
    "begin_child params child_rpc t_issue reg (em_tracker m) = (t, tr, reg')"
    "est_after_child_wallclock_for_group ops fl params (root_or_self tr) (resolved_method_id tr) (ct_path_prefix t) (ct_base_signature t)
       (ct_service_path_prefix t) (ct_base_service_signature t) (ct_child_id t) (saturating_sub (e2e_deadline (em_budget m)) t_left) est =
       Done (remaining, est1)"
    "log_estimates ops (ct_key t) est1 = Done est2" "after_child_wallclock_last_obs ops (ct_key t) est2 = Done (last_obs, est3)"
    "est_propose (child_deadline_and_prio f (em_budget m) (f_times fl (ac_full remaining) (decay_factor fl t_decay last_obs))
       (f_times fl (ac_floor remaining) (decay_factor fl t_decay last_obs)) t_prio) child = (is_result issue, is_child issue)"
    "is_module issue = m\<lparr>em_tracker := tr\<rparr>" "is_estimators issue = est3" "is_registry issue = reg'"
proof -
  obtain t tr reg' where t: "begin_child params child_rpc t_issue reg (em_tracker m) = (t, tr, reg')" using prod_cases3 by blast
  let ?put = "wo_put b64 bin ESTIMATION_SECTION (ew_of_request (saturating_add (ei_hop_count (em_info m)) 1) (ei_root_method (em_info m))) out"
  obtain x where x: "?put = Done x" using assms by (cases ?put) (simp_all add: est_before_child_rpc_def)
  then obtain wire' where put: "?put = Done (Inr wire')" using assms by (cases x) (simp_all add: est_before_child_rpc_def)
  from assms show thesis
    by (auto simp: est_before_child_rpc_def put bind_exec_Done map_exec_Done Let_def t case_prod_beta intro!: that [OF _ t])
qed

lemma est_before_child_wire:
  assumes "standard_engine b64" "bincode_total bin"
    and "est_before_child_rpc f b64 bin ops fl params child_rpc t_issue t_left t_decay t_prio child out m est reg = Done issue"
    and "find_section (wi_sections wire) ESTIMATION_SECTION = find_section (wo_header (is_wire issue)) ESTIMATION_SECTION"
  shows "wi_get b64 bin ESTIMATION_SECTION wire =
    Done (Inr (Some (ew_of_request (saturating_add (ei_hop_count (em_info m)) 1) (ei_root_method (em_info m)))))"
proof -
  let ?w = "ew_of_request (saturating_add (ei_hop_count (em_info m)) 1) (ei_root_method (em_info m))"
  from put_then_get [OF assms(1,2) ESTIMATION_valid, of ?w out] obtain out' where
    out': "wo_put b64 bin ESTIMATION_SECTION ?w out = Done (Inr out')"
      "wi_get b64 bin ESTIMATION_SECTION \<lparr>wi_sections = wo_header out'\<rparr> = Done (Inr (Some ?w))" by metis
  from assms(3) have "is_wire issue = out'" by (rule est_before_child_cases) (simp add: out'(1))
  with assms(4) have "wi_get b64 bin ESTIMATION_SECTION wire = wi_get b64 bin ESTIMATION_SECTION \<lparr>wi_sections = wo_header out'\<rparr>"
    by (intro wi_get_cong) simp
  with out'(2) show ?thesis by simp
qed

text \<open>
  Claim C11. Down a request's call tree every hop knows its depth, counted up to 255, and the
  method at ingress: the module of the hop \<open>n\<close> calls below ingress reads the least of \<open>n\<close> and 255
  and the method and service of the ingress, whatever the modules of the hops between proposed or
  estimated, and only the module at ingress takes its own method for the root.
\<close>

theorem root_and_depth_reach_every_hop:
  assumes "standard_engine b64" "bincode_total bin" "serves b64 bin ops rpc n m"
  shows "unat (ei_hop_count (em_info m)) = min n 255 \<and> (is_ingress (em_info m) \<longleftrightarrow> n = 0) \<and>
    ei_root_method (em_info m) = Some \<lparr>rm_service = gm_service rpc, rm_method = gm_method rpc\<rparr>"
proof -
  have "unat (ei_hop_count (em_info m)) = min n 255 \<and>
      ei_root_method (em_info m) = Some \<lparr>rm_service = gm_service rpc, rm_method = gm_method rpc\<rparr>"
    using assms(3)
  proof (induction rule: serves.induct)
    case (ingress now wire ext reg m md reg')
    have "wi_get b64 bin ESTIMATION_SECTION wire = Done (Inr None)" using ingress(2) by (simp add: wi_get_def decode_present_def)
    from est_new_info [OF ingress(1) this] show ?case by simp
  next
    case (child n parent m f fl params child_rpc t_issue t_left t_decay t_prio child out est reg issue wire now ext reg1 m' md reg2)
    let ?hops = "saturating_add (ei_hop_count (em_info m)) 1"
    note info = est_new_info [OF child.hyps(5) est_before_child_wire [OF assms(1,2) child.hyps(3,4)]]
    have "unat ?hops = min (Suc n) 255" using child.IH child.hyps(2) by (simp add: unat_saturating_add)
    then have "?hops \<noteq> 0" by (metis min_0R nat.distinct(1) unat_0 zero_neq_numeral min_def)
    with info child.IH child.hyps(2) \<open>unat ?hops = min (Suc n) 255\<close> show ?case by (simp add: ew_of_request_def)
  qed
  then show ?thesis by (auto simp: is_ingress_def unat_eq_0 min_def split: if_splits)
qed


text \<open>An instance of the parameters: a unary encoding of a countable image of the wire data.\<close>

definition ex_unary :: "('w \<Rightarrow> 'c::countable) \<Rightarrow> ('c \<Rightarrow> 'w) \<Rightarrow> 'w bincode" where
  "ex_unary f g = \<lparr>bin_serialize = (\<lambda>w. Inr (replicate (to_nat (f w)) 0)),
     bin_serialize_into = (\<lambda>w n. if to_nat (f w) \<le> n then Some (replicate (to_nat (f w)) 0) else None),
     bin_deserialize = (\<lambda>bytes. Inr (g (from_nat (length bytes))))\<rparr>"

lemma ex_unary_total: "(\<And>w. g (f w) = w) \<Longrightarrow> bincode_total (ex_unary f g)"
  by (auto simp: bincode_total_def bincode_buffer_def bincode_inverse_def ex_unary_def)

definition ex_estimation :: "estimation_wire bincode" where
  "ex_estimation = ex_unary
     (\<lambda>w. (map_option (\<lambda>q. (unat (hop_count q), map_option (\<lambda>r. (rm_service r, rm_method r)) (erq_root_method q))) (ew_request w),
           map_option (\<lambda>p. (unat (compute_time_us p), unat (accumulated_compute_us p), utilization p, max_downstream_util p,
             unat (early_return_count p), unat (deadline_signal_count p))) (ew_response w)))
     (\<lambda>(q, p). \<lparr>
        ew_request = map_option (\<lambda>(h, r). \<lparr>hop_count = of_nat h, erq_root_method = map_option (\<lambda>(s, t). \<lparr>rm_service = s, rm_method = t\<rparr>) r\<rparr>) q,
        ew_response = map_option (\<lambda>(c, a, u, v, e, d). \<lparr>compute_time_us = of_nat c, accumulated_compute_us = of_nat a, utilization = u,
          max_downstream_util = v, early_return_count = of_nat e, deadline_signal_count = of_nat d\<rparr>) p\<rparr>)"

lemma ex_estimation_total: "bincode_total ex_estimation"
proof -
  have eta: "\<lparr>rm_service = rm_service r, rm_method = rm_method r\<rparr> = r" for r :: root_method by simp
  have eta2: "\<lparr>hop_count = hop_count q, erq_root_method = erq_root_method q\<rparr> = q" for q :: estimation_request_wire by simp
  have eta3: "\<lparr>compute_time_us = compute_time_us p, accumulated_compute_us = accumulated_compute_us p, utilization = utilization p,
      max_downstream_util = max_downstream_util p, early_return_count = early_return_count p,
      deadline_signal_count = deadline_signal_count p\<rparr> = p" for p :: estimation_response_wire by simp
  show ?thesis unfolding ex_estimation_def
    by (rule ex_unary_total) (simp add: option.map_comp comp_def eta eta2 eta3 option.map_ident)
qed

definition ex_ops :: "bool estimator_ops" where
  "ex_ops = \<lparr>e_default = Done False, e_track = (\<lambda>_ _. Done True), e_can_estimate = (\<lambda>b. b), e_estimate = (\<lambda>_. Done 40),
     e_mean_estimate = (\<lambda>_. Done 30), e_mean_floor_estimate = (\<lambda>_. Done 20), e_last_observation_us = (\<lambda>_. 0)\<rparr>"

definition ex_params :: fanout_params where
  "ex_params = \<lparr>fanout_aware = True, fanout_root_only = False, fanout_min_samples = 3, fanout_deadline_legacy_fraction = 1 / 2\<rparr>"

definition ex_features :: est_features where
  "ex_features = \<lparr>abort_slack = False, signal_slack = True, sched_pred = True, deadline_equals_slack = False\<rparr>"

definition ex_ext :: "policy_value extensions" where
  "ex_ext = snd (ext_insert BUDGET_INFO (Value (BudgetInfo ex_context)) ext_new)"

lemma ex_ext_budget: "budget_of ex_ext = Done ex_context"
  by (simp add: ex_ext_def budget_of_def ext_insert_spec ext_inv_new)

lemma exec_Done: "x \<noteq> Panic \<Longrightarrow> \<exists>y. x = Done y"
  by (cases x) simp_all

lemma est_new_runs:
  assumes "budget_of ext = Done b" "wi_get b64 bin ESTIMATION_SECTION wire = Done (Inr w)"
  obtains m md reg' where "est_new b64 bin rpc now wire ext reg = Done (m, md, reg')" "em_budget m = b"
    "fi_children (tr_fanout (em_tracker m)) = []"
proof -
  have "est_new b64 bin rpc now wire ext reg \<noteq> Panic" using assms by (simp add: est_new_def Let_def split: prod.split)
  from exec_Done [OF this] obtain m md reg' where m: "est_new b64 bin rpc now wire ext reg = Done (m, md, reg')" by auto
  then have "fi_children (tr_fanout (em_tracker m)) = []" using assms
    by (auto simp: est_new_def Let_def tracker_new_def fanout_invocation_default_def split: prod.splits)
  then show thesis using that [OF m] est_new_info(3) [OF m assms(2)] assms(1) by simp
qed

lemma begin_first_child:
  assumes "fi_children (tr_fanout tr) = []"
  shows "length (ct_base_signature (fst (begin_child params rpc now reg tr))) = 1"
  using assms by (simp add: begin_child_def issue_child_def Let_def open_children_def split: prod.split)

lemma ex_before_child_runs:
  assumes "standard_engine b64" "bincode_total bin" "fi_children (tr_fanout (em_tracker m)) = []"
  obtains issue where "est_before_child_rpc f b64 bin ex_ops fl params rpc t_issue t_left t_decay t_prio child out m estimators_new reg = Done issue"
proof -
  let ?w = "ew_of_request (saturating_add (ei_hop_count (em_info m)) 1) (ei_root_method (em_info m))"
  from put_then_get [OF assms(1,2) ESTIMATION_valid, of ?w out] obtain out' where
    put: "wo_put b64 bin ESTIMATION_SECTION ?w out = Done (Inr out')" by metis
  obtain t tr reg' where t: "begin_child params rpc t_issue reg (em_tracker m) = (t, tr, reg')" using prod_cases3 by blast
  have one: "length (ct_base_signature t) = 1" using begin_first_child [OF assms(3), of params rpc t_issue reg] t by simp
  have "est_before_child_rpc f b64 bin ex_ops fl params rpc t_issue t_left t_decay t_prio child out m estimators_new reg \<noteq> Panic"
    by (simp add: est_before_child_rpc_def put t est_after_child_wallclock_for_group_def one est_after_child_wallclock_def
        lm_get_estimate_def lm_get_mean_estimate_def lm_get_mean_floor_estimate_def lm_get_estimates_pack_def lm_get_estimate_with_def
        ex_ops_def estimators_new_def lm_new_def log_estimates_def est_child_wallclock_def after_child_wallclock_last_obs_def Let_def)
  from exec_Done [OF this] that show thesis by blast
qed

theorem root_and_depth_reach_every_hop_witness:
  "\<exists>m :: estimation_module. serves ex_engine ex_estimation ex_ops \<lparr>gm_service = ''Shop'', gm_method = ''Buy''\<rparr> 1 m \<and>
     ei_hop_count (em_info m) = 1 \<and> ei_root_method (em_info m) = Some \<lparr>rm_service = ''Shop'', rm_method = ''Buy''\<rparr>"
proof -
  let ?rpc = "\<lparr>gm_service = ''Shop'', gm_method = ''Buy''\<rparr>" and ?child = "\<lparr>gm_service = ''Stock'', gm_method = ''Take''\<rparr>"
  note env = ex_engine_standard ex_estimation_total
  have none: "find_section (wi_sections wi_default) ESTIMATION_SECTION = None" by (simp add: wi_default_def ESTIMATION_SECTION_def) code_simp
  then have "wi_get ex_engine ex_estimation ESTIMATION_SECTION wi_default = Done (Inr None)" by (simp add: wi_get_def decode_present_def)
  from est_new_runs [OF ex_ext_budget this] obtain m md reg' where
    m: "est_new ex_engine ex_estimation ?rpc 0 wi_default ex_ext registry_new = Done (m, md, reg')" "fi_children (tr_fanout (em_tracker m)) = []"
    by metis
  from ex_before_child_runs [OF env m(2)] obtain issue where issue: "est_before_child_rpc ex_features ex_engine ex_estimation ex_ops ex_f64 ex_params
      ?child 5000 10 11 12 ext_new wo_new m estimators_new reg' = Done issue" by metis
  let ?wire = "\<lparr>wi_sections = wo_header (is_wire issue)\<rparr>"
  have "find_section (wi_sections ?wire) ESTIMATION_SECTION = find_section (wo_header (is_wire issue)) ESTIMATION_SECTION" by simp
  from est_new_runs [OF ex_ext_budget est_before_child_wire [OF env issue this]] obtain m' md' reg2 where
    m': "est_new ex_engine ex_estimation ?child 6000 ?wire ex_ext reg' = Done (m', md', reg2)" by metis
  have "serves ex_engine ex_estimation ex_ops ?rpc (Suc 0) m'"
    by (rule serves.child [OF serves.ingress [OF m(1) none] refl issue _ m']) simp
  note facts = root_and_depth_reach_every_hop [OF env this]
  then have "unat (ei_hop_count (em_info m')) = unat (1 :: u8)" by simp
  then have "ei_hop_count (em_info m') = 1" by (simp only: word_unat_eq_iff)
  with facts \<open>serves ex_engine ex_estimation ex_ops ?rpc (Suc 0) m'\<close> show ?thesis
    by (intro exI [of _ m']) simp
qed


section \<open>Reports on the wire\<close>

lemma or_panic_Done: "(case x of Inl err \<Rightarrow> Panic | Inr w \<Rightarrow> Done (h w)) = Done y \<longleftrightarrow> (\<exists>w. x = Inr w \<and> y = h w)"
  by (cases x) auto

lemma est_finalize_cases:
  assumes "standard_engine b64" "bincode_total bin"
    and "est_finalize f b64 bin ops params result parent_end t_total util out m est md = Done (m', est', md', out')"
  shows "wi_get b64 bin ESTIMATION_SECTION \<lparr>wi_sections = wo_header out'\<rparr> = Done (Inr (Some (ew_of_response (response_wire util md'))))"
    "md' = (if is_early_return_response result then mark_early_return md else md)"
    "is_early_return_response result \<or> should_skip_flush f md \<Longrightarrow> m' = m \<and> est' = est"
    "\<And>n. valid_name n \<Longrightarrow> n \<noteq> ESTIMATION_SECTION \<Longrightarrow> find_section (wo_header out') n = find_section (wo_header out) n"
    "\<not> is_early_return_response result \<Longrightarrow> \<not> should_skip_flush f md \<Longrightarrow>
       flush ops params parent_end t_total (em_tracker m) est = Done (em_tracker m', est')"
proof -
  from put_then_get [OF assms(1,2) ESTIMATION_valid, of "ew_of_response (response_wire util md')" out] obtain out1 where
    out1: "wo_put b64 bin ESTIMATION_SECTION (ew_of_response (response_wire util md')) out = Done (Inr out1)"
      "wi_get b64 bin ESTIMATION_SECTION \<lparr>wi_sections = wo_header out1\<rparr> = Done (Inr (Some (ew_of_response (response_wire util md'))))"
      "\<And>n. valid_name n \<Longrightarrow> n \<noteq> ESTIMATION_SECTION \<Longrightarrow> find_section (wo_header out1) n = find_section (wo_header out) n" by metis
  have "out' = out1 \<and> md' = (if is_early_return_response result then mark_early_return md else md) \<and>
      (if is_early_return_response result \<or> should_skip_flush f md then m' = m \<and> est' = est
       else flush ops params parent_end t_total (em_tracker m) est = Done (em_tracker m', est'))"
    using assms(3) out1(1) by (auto simp: est_finalize_def bind_exec_Done map_exec_Done or_panic_Done split: if_splits)
  with out1(2,3) show "wi_get b64 bin ESTIMATION_SECTION \<lparr>wi_sections = wo_header out'\<rparr> = Done (Inr (Some (ew_of_response (response_wire util md'))))"
    "md' = (if is_early_return_response result then mark_early_return md else md)"
    "is_early_return_response result \<or> should_skip_flush f md \<Longrightarrow> m' = m \<and> est' = est"
    "\<And>n. valid_name n \<Longrightarrow> n \<noteq> ESTIMATION_SECTION \<Longrightarrow> find_section (wo_header out') n = find_section (wo_header out) n"
    "\<not> is_early_return_response result \<Longrightarrow> \<not> should_skip_flush f md \<Longrightarrow>
       flush ops params parent_end t_total (em_tracker m) est = Done (em_tracker m', est')" by (simp_all split: if_splits)
qed


definition ex_module :: estimation_module where
  "ex_module = \<lparr>em_tracker = tracker_new 1 (Some 1) 0, em_rpc = \<lparr>gm_service = ''Shop'', gm_method = ''Buy''\<rparr>,
     em_info = \<lparr>ei_hop_count = 0, ei_root_method = Some \<lparr>rm_service = ''Shop'', rm_method = ''Buy''\<rparr>, ei_root_method_id = Some 1\<rparr>,
     em_budget = ex_context\<rparr>"



section \<open>Deadlines of children\<close>

lemma blend_toward_legacy_between:
  assumes "ieee fl" "v \<le> legacy" "legacy < 2 ^ 53"
  shows "v \<le> blend_toward_legacy fl v legacy x" "blend_toward_legacy fl v legacy x \<le> legacy"
proof -
  have "legacy - v \<le> legacy" using assms(2) by (simp add: word_le_nat_alt unat_sub)
  then have "legacy - v < 2 ^ 53" using assms(3) by (rule le_less_trans)
  then have r: "f_round_times fl (legacy - v) (min (max x 0) 1) \<le> legacy - v" by (intro product_rounds_below(2) [OF assms(1)]) simp_all
  have "unat (v + f_round_times fl (legacy - v) (min (max x 0) 1)) = unat v + unat (f_round_times fl (legacy - v) (min (max x 0) 1))"
    using r assms(2) unat_u64_less [of legacy] by (intro unat_add_lem [THEN iffD1]) (simp add: word_le_nat_alt unat_sub)
  then have "v \<le> v + f_round_times fl (legacy - v) (min (max x 0) 1)" "v + f_round_times fl (legacy - v) (min (max x 0) 1) \<le> legacy"
    using r assms(2) by (simp_all add: word_le_nat_alt unat_sub)
  then show "v \<le> blend_toward_legacy fl v legacy x" "blend_toward_legacy fl v legacy x \<le> legacy"
    using assms(2) by (simp_all add: blend_toward_legacy_def Let_def)
qed

lemma blend_toward_legacy_none:
  assumes "x \<le> 0" "v \<le> legacy"
  shows "blend_toward_legacy fl v legacy x = v"
  using assms by (auto simp: blend_toward_legacy_def Let_def EPSILON_def)

text \<open>
  Claim C12. Where the estimate of a child's edge is not empty and its mean and floor are below
  \<open>2 ^ 53\<close>, the estimate for the child in a group of siblings never makes a deadline tighter than
  the edge's: the full estimate, which sets the priority, is the edge's, and the mean and the floor
  are at most the edge's. If the group, or else its group of services, has an estimate, they are
  between its lower one and the edge's, and exactly the lower one when nothing is blended in. A
  child issued alone, or with groups disabled, takes the edge's estimate.
\<close>

theorem group_estimate_never_tighter:
  assumes "ieee fl" "est_after_child_wallclock ops (rt, parent, child) cap est = Done (edge, est1)" "\<not> ace_is_empty edge"
    and "ac_mean edge < 2 ^ 53" "ac_floor edge < 2 ^ 53"
    and "est_after_child_wallclock_for_group ops fl params rt parent prefix base service_prefix service_base child cap est = Done (a, est')"
  shows "est' = est1 \<and> ac_full a = ac_full edge \<and> ac_mean a \<le> ac_mean edge \<and> ac_floor a \<le> ac_floor edge \<and>
    (length base \<le> 1 \<or> \<not> fanout_enabled_for_parent params rt parent \<longrightarrow> a = edge) \<and>
    (\<forall>group. 1 < length base \<and> fanout_enabled_for_parent params rt parent \<and>
       bind_exec (lookup_estimate ops rt parent prefix base (fanout_min_samples params) cap (fanout_patterns est1)) (\<lambda>g.
         if ace_is_empty g then lookup_estimate ops rt parent service_prefix service_base (fanout_min_samples params) cap (service_fanout_patterns est1)
         else Done g) = Done group \<and> \<not> ace_is_empty group \<longrightarrow>
       min (ac_mean group) (ac_mean edge) \<le> ac_mean a \<and> min (ac_floor group) (ac_floor edge) \<le> ac_floor a \<and>
       (fanout_deadline_legacy_fraction params \<le> 0 \<longrightarrow>
          ac_mean a = min (ac_mean group) (ac_mean edge) \<and> ac_floor a = min (ac_floor group) (ac_floor edge)))"
proof (cases "\<not> fanout_enabled_for_parent params rt parent \<or> length base \<le> 1")
  case True
  then show ?thesis using assms(2,6) by (auto simp: est_after_child_wallclock_for_group_def)
next
  case False
  let ?lookup = "bind_exec (lookup_estimate ops rt parent prefix base (fanout_min_samples params) cap (fanout_patterns est1)) (\<lambda>g.
         if ace_is_empty g then lookup_estimate ops rt parent service_prefix service_base (fanout_min_samples params) cap (service_fanout_patterns est1)
         else Done g)"
  let ?x = "fanout_deadline_legacy_fraction params"
  from False assms(2,6) obtain fanout where fanout: "?lookup = Done fanout" and a: "a = merge_with_legacy_priority fl fanout edge ?x" "est' = est1"
    by (auto simp: est_after_child_wallclock_for_group_def bind_exec_Done map_exec_Done)
  note mean = blend_toward_legacy_between [OF assms(1) min.cobounded2 assms(4), of "ac_mean fanout" ?x] blend_toward_legacy_none [of ?x]
  note flr = blend_toward_legacy_between [OF assms(1) min.cobounded2 assms(5), of "ac_floor fanout" ?x]
  have "ac_full a = ac_full edge" "ac_mean a \<le> ac_mean edge" "ac_floor a \<le> ac_floor edge"
    using assms(3) mean(2) flr(2) by (simp_all add: a merge_with_legacy_priority_def)
  moreover have "min (ac_mean fanout) (ac_mean edge) \<le> ac_mean a \<and> min (ac_floor fanout) (ac_floor edge) \<le> ac_floor a \<and>
      (?x \<le> 0 \<longrightarrow> ac_mean a = min (ac_mean fanout) (ac_mean edge) \<and> ac_floor a = min (ac_floor fanout) (ac_floor edge))" if "\<not> ace_is_empty fanout"
    using that assms(3) mean(1,3) flr(1) by (simp add: a merge_with_legacy_priority_def)
  ultimately show ?thesis using False a(2) fanout by auto
qed

text \<open>With no estimate for the edge, the group's is taken, and it can only tighten the deadline.\<close>

lemma empty_edge_takes_group:
  assumes "ace_is_empty edge" "\<not> ace_is_empty found"
  shows "merge_with_legacy_priority fl found edge x = found" "ac_floor edge \<le> ac_floor found"
  using assms by (simp_all add: merge_with_legacy_priority_def ace_is_empty_def)

text \<open>An estimator that remembers the last sample, an edge with one and a group with a smaller one.\<close>

definition ex_last :: "u64 option estimator_ops" where
  "ex_last = \<lparr>e_default = Done None, e_track = (\<lambda>v _. Done (Some v)), e_can_estimate = (\<lambda>s. s \<noteq> None), e_estimate = (\<lambda>s. Done (the s)),
     e_mean_estimate = (\<lambda>s. Done (the s)), e_mean_floor_estimate = (\<lambda>s. Done (the s)), e_last_observation_us = (\<lambda>_. 0)\<rparr>"

definition ex_estimators :: "u64 option latency_estimators" where
  "ex_estimators = estimators_new\<lparr>after_child_wallclock := [(1, 2, 8) \<mapsto> Some 5000],
     fanout_patterns := [(1, 2) \<mapsto> \<lparr>by_key = [\<lparr>gk_scope = Path pp_root, gk_signature = [7, 8]\<rparr> \<mapsto> 0],
       pp_entries = [\<lparr>pe_key = \<lparr>gk_scope = Path pp_root, gk_signature = [7, 8]\<rparr>,
         pe_pattern = \<lparr>gp_estimator = Some 1000, gp_occurrence_count = 3\<rparr>\<rparr>], postings = Map.empty\<rparr>]\<rparr>"

theorem group_estimate_never_tighter_witness:
  "\<exists>a. est_after_child_wallclock_for_group ex_last ex_f64 ex_params 1 2 pp_root [7, 8] pp_root [1, 1] 8 10000 ex_estimators = Done (a, ex_estimators) \<and>
     ac_full a = 5000 \<and> ac_mean a \<le> 5000 \<and> ac_mean a = 3000"
proof -
  let ?edge = "\<lparr>ac_full = 5000, ac_mean = 5000, ac_floor = 5000\<rparr> :: after_child_estimates"
  let ?a = "\<lparr>ac_full = 5000, ac_mean = 3000, ac_floor = 3000\<rparr> :: after_child_estimates"
  have edge: "est_after_child_wallclock ex_last (1, 2, 8) 10000 ex_estimators = Done (?edge, ex_estimators)"
    by (simp add: est_after_child_wallclock_def lm_get_estimate_def lm_get_mean_estimate_def lm_get_mean_floor_estimate_def
        lm_get_estimate_with_def ex_last_def ex_estimators_def or_zero_def estimators_new_def)
  have pattern: "lookup_estimate ex_last 1 2 pp_root [7, 8] 3 10000 (fanout_patterns ex_estimators) =
      Done \<lparr>ac_full = 1000, ac_mean = 1000, ac_floor = 1000\<rparr>"
    by (simp add: lookup_estimate_def closest_compatible_lookup_def ex_estimators_def ex_last_def pattern_estimates_def Let_def index_def)
  have "\<lfloor>4001 / 2 :: rat\<rfloor> = 2000" by (rule floor_unique) simp_all
  then have "blend_toward_legacy ex_f64 1000 5000 (1 / 2) = 3000" by (simp add: blend_toward_legacy_def Let_def EPSILON_def ex_f64_def f_round_times_def f_mul_def of_u64_def f_round_def to_u64_def)
  then have "est_after_child_wallclock_for_group ex_last ex_f64 ex_params 1 2 pp_root [7, 8] pp_root [1, 1] 8 10000 ex_estimators = Done (?a, ex_estimators)"
    by (simp add: est_after_child_wallclock_for_group_def edge pattern ex_params_def fanout_enabled_for_parent_def ace_is_empty_def
        merge_with_legacy_priority_def)
  moreover from group_estimate_never_tighter [OF ex_f64_ieee edge _ _ _ this] have "ac_mean ?a \<le> 5000" by (simp add: ace_is_empty_def)
  ultimately show ?thesis by (intro exI [of _ ?a]) simp
qed


definition undecided :: "policy_value extensions \<Rightarrow> bool" where
  "undecided e \<longleftrightarrow> (\<forall>t\<in>{CHILD_DEADLINE, CHILD_PRIORITY}. case ext_decision t e of None \<Rightarrow> True | Some d \<Rightarrow> resolved_by d = None)"

lemma est_propose_budget:
  assumes "decisions_ok e" "undecided e"
  obtains e' where "est_propose (d, p) e = (Inr (), e')" "child_budget info e' = info\<lparr>ctx_deadline := d, ctx_prio_hint := p\<rparr>"
    "decisions_ok e'"
proof -
  have opened: "case ext_decision CHILD_DEADLINE e of None \<Rightarrow> True | Some d \<Rightarrow> resolved_by d = None"
    "case ext_decision CHILD_PRIORITY e of None \<Rightarrow> True | Some d \<Rightarrow> resolved_by d = None" using assms(2) by (simp_all add: undecided_def)
  let ?e1 = "snd (propose CHILD_DEADLINE (ChildDeadline d) e)"
  note p1 = propose_open [OF assms(1) opened(1), where v = "ChildDeadline d", simplified]
  have open2: "case ext_decision CHILD_PRIORITY ?e1 of None \<Rightarrow> True | Some d \<Rightarrow> resolved_by d = None"
    using opened(2) p1(5) [of CHILD_PRIORITY] by simp
  let ?e2 = "snd (propose CHILD_PRIORITY (ChildPriority p) ?e1)"
  note p2 = propose_open [OF p1(2) open2, where v = "ChildPriority p"]
  have "est_propose (d, p) e = (Inr (), ?e2)" using p1(1) p2(1) by (auto simp: est_propose_def split: prod.splits sum.splits)
  moreover have "proposals CHILD_DEADLINE ?e2 = proposals CHILD_DEADLINE ?e1" using p2(5) [of CHILD_DEADLINE] by (simp add: proposals_def)
  then have "child_budget info ?e2 = info\<lparr>ctx_deadline := d, ctx_prio_hint := p\<rparr>"
    using p1(3) p2(3) by (simp add: child_budget_def last_or_def)
  ultimately show thesis using that p2(2) by blast
qed




end
