(* ===== verification/Mean_Var.thy ===== *)
theory Mean_Var
  imports Estimators Float_Ops
begin

text \<open>
  The default latency estimator, \<open>libs/masa-core/src/latency_estimator/mean_var.rs\<close>: moving
  averages of the mean, the variance and a floor, in floating point. The clock that stamps a
  sample and the default multiplier, read from the parameter file, are arguments.
\<close>

record mean_var =
  mv_mean :: f64
  mv_variance :: f64
  mv_k :: f64
  mv_alpha :: f64
  mv_estimate :: u64
  mv_initialized :: bool
  mv_mean_floor :: f64
  mv_last_observation_us :: u64

definition mv_new :: "f64 \<Rightarrow> f64 \<Rightarrow> mean_var exec" where
  "mv_new k alpha =
     (if 0 \<le> k \<and> 0 < alpha \<and> alpha \<le> 1 then
        Done \<lparr>mv_mean = 0, mv_variance = 0, mv_k = k, mv_alpha = alpha, mv_estimate = 0, mv_initialized = False,
          mv_mean_floor = 0, mv_last_observation_us = 0\<rparr>
      else Panic)"

text \<open>\<open>x.min(u64::MAX as f64) as u64\<close> of a positive \<open>x\<close>, and zero otherwise.\<close>

definition positive_u64 :: "f64_ops \<Rightarrow> f64 \<Rightarrow> u64" where
  "positive_u64 fl x = (if 0 < x then to_u64 (min x (of_u64 fl (- 1))) else 0)"

definition ema :: "f64_ops \<Rightarrow> f64 \<Rightarrow> f64 \<Rightarrow> f64 \<Rightarrow> f64" where
  "ema fl alpha x m = f_add fl m (f_mul fl alpha (f_sub fl x m))"

definition mv_track :: "f64_ops \<Rightarrow> u64 \<Rightarrow> u64 \<Rightarrow> mean_var \<Rightarrow> mean_var" where
  "mv_track fl now v s =
     (let x = of_u64 fl v;
          s1 = (if \<not> mv_initialized s then
              s\<lparr>mv_mean := x, mv_variance := 0, mv_mean_floor := x, mv_initialized := True\<rparr>
            else
              let alpha = (if mv_mean s < x then rnd fl (5 / 100) else rnd fl (2 / 10));
                  delta = f_sub fl x (mv_mean s);
                  alpha_floor = (if x < mv_mean_floor s then rnd fl (3 / 10) else rnd fl (1 / 100)) in
              s\<lparr>mv_mean := ema fl alpha x (mv_mean s),
                mv_variance := f_mul fl (f_sub fl 1 alpha) (f_add fl (mv_variance s) (f_mul fl (f_mul fl alpha delta) delta)),
                mv_mean_floor := ema fl alpha_floor x (mv_mean_floor s)\<rparr>) in
      s1\<lparr>mv_estimate := positive_u64 fl (f_add fl (mv_mean s1) (f_mul fl (mv_k s1) (f_sqrt fl (mv_variance s1)))),
        mv_last_observation_us := now\<rparr>)"

definition mv_mean_estimate :: "f64_ops \<Rightarrow> mean_var \<Rightarrow> u64" where
  "mv_mean_estimate fl s = positive_u64 fl (mv_mean s)"

definition mv_mean_floor_estimate :: "f64_ops \<Rightarrow> mean_var \<Rightarrow> u64" where
  "mv_mean_floor_estimate fl s = positive_u64 fl (mv_mean_floor s)"

definition mv_default :: "f64_ops \<Rightarrow> f64 \<Rightarrow> mean_var exec" where
  "mv_default fl default_k = mv_new default_k (rnd fl (1 / 10))"

definition mv_ops :: "f64_ops \<Rightarrow> f64 \<Rightarrow> u64 \<Rightarrow> mean_var estimator_ops" where
  "mv_ops fl default_k now = \<lparr>e_default = mv_default fl default_k, e_track = (\<lambda>v s. Done (mv_track fl now v s)),
     e_can_estimate = mv_initialized, e_estimate = (\<lambda>s. Done (mv_estimate s)), e_mean_estimate = (\<lambda>s. Done (mv_mean_estimate fl s)),
     e_mean_floor_estimate = (\<lambda>s. Done (mv_mean_floor_estimate fl s)), e_last_observation_us = mv_last_observation_us\<rparr>"

section \<open>Averages stay among the samples\<close>

lemma rnd_small: "ieee fl \<Longrightarrow> 0 \<le> x \<Longrightarrow> x \<le> 3 / 8 \<Longrightarrow> 0 \<le> rnd fl x \<and> rnd fl x \<le> 3 / 8"
  using ieee_rnd(1) [of fl x "3 / 8"] ieee_rnd(5) [of fl 3] rnd_between(1) [of fl x] by simp

lemma step_le_distance:
  assumes fl: "ieee fl" and repr: "rnd fl x = x" "rnd fl m = m" and a: "0 \<le> a" "a \<le> 3 / 8" and "m \<le> x"
  shows "0 \<le> f_mul fl a (f_sub fl x m)" "f_mul fl a (f_sub fl x m) \<le> x - m"
proof -
  let ?d = "x - m"
  have "\<bar>rnd fl ?d - ?d\<bar> \<le> \<bar>?d\<bar> / 8" by (rule ieee_rnd(7) [OF fl repr])
  moreover have "\<bar>?d\<bar> = ?d" using assms(6) by simp
  ultimately have "rnd fl ?d - ?d \<le> ?d / 8" by linarith
  then have D: "rnd fl ?d \<le> 9 / 8 * ?d" "0 \<le> rnd fl ?d" using assms(6) rnd_between(1) [OF fl, of ?d] by simp_all
  have "a * rnd fl ?d \<le> 3 / 8 * (9 / 8 * ?d)" by (rule mult_mono) (use D a assms(6) in simp_all)
  moreover have pos: "0 \<le> a * rnd fl ?d" using a D by simp
  ultimately have "rnd fl (a * rnd fl ?d) \<le> ?d" using ieee_rnd(6) [OF fl pos] assms(6) by simp
  then show "f_mul fl a (f_sub fl x m) \<le> x - m" by (simp add: f_mul_def f_sub_def)
  show "0 \<le> f_mul fl a (f_sub fl x m)" using rnd_between(1) [OF fl pos] by (simp add: f_mul_def f_sub_def)
qed

lemma ema_between:
  assumes fl: "ieee fl" and repr: "rnd fl x = x" "rnd fl m = m" and a: "0 \<le> a" "a \<le> 3 / 8"
  shows "min m x \<le> ema fl a x m" "ema fl a x m \<le> max m x" "rnd fl (ema fl a x m) = ema fl a x m"
proof -
  have mono: "lo \<le> rnd fl y" "rnd fl y \<le> hi" if "lo \<le> y" "y \<le> hi" "rnd fl lo = lo" "rnd fl hi = hi" for lo hi y
    using ieee_rnd(1) [OF fl that(1)] ieee_rnd(1) [OF fl that(2)] that(3,4) by simp_all
  have "min m x \<le> ema fl a x m \<and> ema fl a x m \<le> max m x"
  proof (cases "m \<le> x")
    case True
    note step = step_le_distance [OF fl repr a True]
    then have "m \<le> m + f_mul fl a (f_sub fl x m)" "m + f_mul fl a (f_sub fl x m) \<le> x" by simp_all
    from mono [OF this repr(2,1)] show ?thesis using True by (simp add: ema_def f_add_def)
  next
    case False
    then have le: "x \<le> m" by simp
    have "f_mul fl a (f_sub fl x m) = - f_mul fl a (f_sub fl m x)"
      using ieee_rnd(3) [OF fl, of "m - x"] ieee_rnd(3) [OF fl, of "a * rnd fl (m - x)"] by (simp add: f_mul_def f_sub_def)
    with step_le_distance [OF fl repr(2,1) a le]
    have "x \<le> m + f_mul fl a (f_sub fl x m)" "m + f_mul fl a (f_sub fl x m) \<le> m" by simp_all
    from mono [OF this repr] show ?thesis using le by (simp add: ema_def f_add_def)
  qed
  then show "min m x \<le> ema fl a x m" "ema fl a x m \<le> max m x" by simp_all
  show "rnd fl (ema fl a x m) = ema fl a x m" by (simp add: ema_def f_add_def ieee_rnd(2) [OF fl])
qed

text \<open>The averages after a run of samples: representable numbers between two bounds of the samples.\<close>

fun mv_run :: "f64_ops \<Rightarrow> (u64 \<times> u64) list \<Rightarrow> mean_var \<Rightarrow> mean_var" where
  "mv_run fl [] s = s"
| "mv_run fl ((now, v) # ss) s = mv_run fl ss (mv_track fl now v s)"

definition mv_within :: "f64_ops \<Rightarrow> f64 \<Rightarrow> f64 \<Rightarrow> f64 \<Rightarrow> mean_var \<Rightarrow> bool" where
  "mv_within fl k lo hi s \<longleftrightarrow> mv_k s = k \<and> 0 \<le> mv_variance s \<and> (mv_initialized s \<longrightarrow>
     (\<forall>m\<in>{mv_mean s, mv_mean_floor s}. rnd fl m = m \<and> lo \<le> m \<and> m \<le> hi) \<and>
     mv_estimate s = positive_u64 fl (f_add fl (mv_mean s) (f_mul fl k (f_sqrt fl (mv_variance s)))))"

lemma variance_nonneg:
  assumes "ieee fl" "0 \<le> a" "a \<le> 3 / 8" "0 \<le> v"
  shows "0 \<le> f_mul fl (f_sub fl 1 a) (f_add fl v (f_mul fl (f_mul fl a d) d))"
proof -
  note pos = rnd_between(1) [OF assms(1)]
  have "0 \<le> rnd fl (a * d) * d"
  proof (cases "0 \<le> d")
    case True
    then show ?thesis using pos [of "a * d"] assms(2) by simp
  next
    case False
    then show ?thesis using rnd_between(2) [OF assms(1), of "a * d"] assms(2) by (simp add: mult_nonneg_nonpos mult_nonpos_nonpos)
  qed
  from pos [OF this] have "0 \<le> rnd fl (v + rnd fl (rnd fl (a * d) * d))" using assms(4) by (intro pos) simp
  moreover have "0 \<le> rnd fl (1 - a)" using assms(3) by (intro pos) simp
  ultimately have "0 \<le> rnd fl (1 - a) * rnd fl (v + rnd fl (rnd fl (a * d) * d))" by simp
  then show ?thesis unfolding f_mul_def f_sub_def f_add_def by (rule pos)
qed

lemma mv_track_within:
  assumes "ieee fl" "mv_within fl k lo hi s" "lo \<le> of_u64 fl v" "of_u64 fl v \<le> hi"
  shows "mv_within fl k lo hi (mv_track fl now v s)" "mv_initialized (mv_track fl now v s)"
    "mv_last_observation_us (mv_track fl now v s) = now"
proof -
  let ?x = "of_u64 fl v"
  have x: "rnd fl ?x = ?x" by (simp add: of_u64_def ieee_rnd(2) [OF assms(1)])
  have small: "0 \<le> rnd fl a" "rnd fl a \<le> 3 / 8" if "0 \<le> a" "a \<le> 3 / 8" for a using rnd_small [OF assms(1) that] by simp_all
  have step: "rnd fl (ema fl (rnd fl a) ?x m) = ema fl (rnd fl a) ?x m \<and> lo \<le> ema fl (rnd fl a) ?x m \<and> ema fl (rnd fl a) ?x m \<le> hi"
    if "rnd fl m = m" "lo \<le> m" "m \<le> hi" "0 \<le> a" "a \<le> 3 / 8" for a m
    using ema_between [OF assms(1) x that(1) small [OF that(4,5)]] that(2,3) assms(3,4) by (auto simp: min_def max_def split: if_splits)
  show "mv_initialized (mv_track fl now v s)" "mv_last_observation_us (mv_track fl now v s) = now"
    by (simp_all add: mv_track_def Let_def)
  show "mv_within fl k lo hi (mv_track fl now v s)"
  proof (cases "mv_initialized s")
    case True
    then have m: "rnd fl (mv_mean s) = mv_mean s" "lo \<le> mv_mean s" "mv_mean s \<le> hi"
      and f: "rnd fl (mv_mean_floor s) = mv_mean_floor s" "lo \<le> mv_mean_floor s" "mv_mean_floor s \<le> hi" and "mv_k s = k" "0 \<le> mv_variance s"
      using assms(2) by (auto simp: mv_within_def)
    with step [OF m, of "5 / 100"] step [OF m, of "2 / 10"] step [OF f, of "3 / 10"] step [OF f, of "1 / 100"] True
      small [of "5 / 100"] small [of "2 / 10"] show ?thesis
      by (simp add: mv_within_def mv_track_def Let_def variance_nonneg [OF assms(1)])
  next
    case False
    then show ?thesis using assms(2-4) x by (simp add: mv_within_def mv_track_def Let_def)
  qed
qed

lemma mv_run_within:
  "ieee fl \<Longrightarrow> mv_within fl k lo hi s \<Longrightarrow> \<forall>(now, v)\<in>set ss. lo \<le> of_u64 fl v \<and> of_u64 fl v \<le> hi \<Longrightarrow>
   mv_within fl k lo hi (mv_run fl ss s) \<and> (ss \<noteq> [] \<longrightarrow> mv_initialized (mv_run fl ss s) \<and>
     mv_last_observation_us (mv_run fl ss s) = fst (last ss))"
proof (induction ss arbitrary: s)
  case (Cons a ss)
  obtain now v where a: "a = (now, v)" by fastforce
  note t = mv_track_within [OF Cons.prems(1,2), of v now]
  show ?case using Cons.IH [OF Cons.prems(1) t(1)] t(2,3) Cons.prems(3) by (cases "ss = []") (auto simp: a)
qed simp

lemma positive_u64_exact:
  assumes "ieee fl" "rnd fl x = x" "of_nat (unat lo) \<le> x" "x \<le> of_nat (unat hi)" "hi \<le> 2 ^ 53"
  shows "lo \<le> positive_u64 fl x" "positive_u64 fl x \<le> hi"
proof -
  have hi: "unat hi \<le> 2 ^ 53" using assms(5) by (simp add: word_le_nat_alt)
  have "(2 ^ 53 :: u64) \<le> - 1" by (simp add: word_le_nat_alt unat_minus_one_word)
  then have "of_u64 fl (2 ^ 53) \<le> of_u64 fl (- 1)" by (rule of_u64_mono [OF assms(1)])
  moreover have "of_u64 fl (2 ^ 53) = 2 ^ 53" using of_u64_exact [OF assms(1), of "2 ^ 53"] by simp
  moreover have "x \<le> 2 ^ 53"
  proof -
    have "(of_nat (unat hi) :: rat) \<le> of_nat (2 ^ 53)" using hi by (simp only: of_nat_le_iff)
    then show ?thesis using assms(4) by simp
  qed
  ultimately have m: "min x (of_u64 fl (- 1)) = x" by simp
  show "positive_u64 fl x \<le> hi" using to_u64_le [OF assms(4)] by (simp add: positive_u64_def m word_le_nat_alt)
  show "lo \<le> positive_u64 fl x"
  proof (cases "0 < x")
    case True
    have "int (unat lo) \<le> \<lfloor>x\<rfloor>" using assms(3) by (simp add: le_floor_iff)
    moreover have "\<lfloor>x\<rfloor> < 18446744073709551616" using \<open>x \<le> 2 ^ 53\<close> by (simp add: floor_less_iff)
    ultimately have "unat lo \<le> nat \<lfloor>x\<rfloor>" "nat \<lfloor>x\<rfloor> < 18446744073709551616" by linarith+
    moreover have "unat (of_nat k :: u64) = k" if "k < 18446744073709551616" for k using that by (simp add: unat_of_nat)
    ultimately have "unat lo \<le> unat (of_nat (nat \<lfloor>x\<rfloor>) :: u64)" by metis
    moreover have "\<not> 2 ^ 64 \<le> x" using \<open>x \<le> 2 ^ 53\<close> by simp
    ultimately show ?thesis using True by (simp only: positive_u64_def m to_u64_def if_True if_False not_False_eq_True word_le_nat_alt not_le [symmetric])
  next
    case False
    have "of_nat (unat lo) \<le> (0 :: rat)" using assms(3) False by linarith
    then have "unat lo = 0" by (simp only: of_nat_le_0_iff)
    then show ?thesis by (simp add: word_le_nat_alt)
  qed
qed

lemma positive_u64_mono: "ieee fl \<Longrightarrow> x \<le> y \<Longrightarrow> positive_u64 fl x \<le> positive_u64 fl y"
  unfolding positive_u64_def by (auto intro!: to_u64_mono min.mono)




end
