(* ===== verification/Predictive.thy ===== *)
theory Predictive
  imports Estimation_Module Mean_Var
begin

text \<open>
  Predictive admission control, \<open>libs/masa-policy/src/module/admission/predictive/mod.rs\<close>, and its
  parameters, \<open>policy_params.rs\<close>: the controllers that raise the admission probability additively
  after healthy windows and cut it after overloaded ones, one for the server and one per root
  method; the check at ingress, and the feasibility check before each child. The clock, the
  random number of a decision and the parameter file are arguments; the server's estimates and the
  registry are passed along. Each controller is behind a mutex, held for a whole update.
\<close>

section \<open>Parameters\<close>

record pred_params =
  tau_er :: f64
  estimator_k :: f64
  aimd_alpha :: f64
  aimd_beta :: f64
  aimd_er_threshold :: f64
  par_fanout_deadline_legacy_fraction :: f64
  par_fanout_root_only :: bool
  par_fanout_min_samples :: u64

definition pred_params_default :: "f64_ops \<Rightarrow> pred_params" where
  "pred_params_default fl = \<lparr>tau_er = 2, estimator_k = 0, aimd_alpha = rnd fl (5 / 100), aimd_beta = rnd fl (875 / 1000),
     aimd_er_threshold = rnd fl (10 / 100), par_fanout_deadline_legacy_fraction = 0, par_fanout_root_only = False,
     par_fanout_min_samples = 3\<rparr>"

text \<open>\<open>open_file\<close> and \<open>parse\<close> are the file system and the JSON reader.\<close>

definition policy_params_load :: "f64_ops \<Rightarrow> string option \<Rightarrow> (string \<Rightarrow> 'f option) \<Rightarrow> ('f \<Rightarrow> pred_params option) \<Rightarrow> pred_params" where
  "policy_params_load fl path open_file parse =
     (case path of
        None \<Rightarrow> pred_params_default fl
      | Some path \<Rightarrow>
          (case open_file path of
             None \<Rightarrow> pred_params_default fl
           | Some file \<Rightarrow> (case parse file of Some params \<Rightarrow> params | None \<Rightarrow> pred_params_default fl)))"

section \<open>Controllers\<close>

record admission_state =
  last_update :: nat
  er_last_update :: nat
  er_count :: u64
  window_total :: u64
  log_counter :: u64
  admit_p :: f64

definition admission_state_new :: "nat \<Rightarrow> admission_state" where
  "admission_state_new now = \<lparr>last_update = now, er_last_update = now, er_count = 0, window_total = 0, log_counter = 0, admit_p = 1\<rparr>"

definition record_outcome_for_state :: "f64_ops \<Rightarrow> pred_params \<Rightarrow> nat \<Rightarrow> bool \<Rightarrow> admission_state \<Rightarrow> admission_state" where
  "record_outcome_for_state fl p now is_early_return state =
     (let s1 = state\<lparr>window_total := window_total state + 1,
            er_count := (if is_early_return then er_count state + 1 else er_count state)\<rparr>;
          elapsed = as_secs_f64 fl (now - last_update s1);
          s2 = (if rnd fl (5 / 100) < elapsed then
              let er_sample = f_divide fl (of_u64 fl (er_count s1)) (of_u64 fl (window_total s1)) in
              s1\<lparr>admit_p := (if aimd_er_threshold p < er_sample then max (f_mul fl (admit_p s1) (aimd_beta p)) 0
                   else min (f_add fl (admit_p s1) (aimd_alpha p)) 1),
                er_last_update := now, er_count := 0, window_total := 0, last_update := now\<rparr>
            else s1) in
      s2\<lparr>log_counter := log_counter s2 + 1\<rparr>)"

definition reject_prob_for_state :: "f64_ops \<Rightarrow> pred_params \<Rightarrow> nat \<Rightarrow> admission_state \<Rightarrow> f64" where
  "reject_prob_for_state fl p now state =
     (let er_elapsed = as_secs_f64 fl (now - er_last_update state);
          idle_decay = f_exp fl (f_divide fl (- er_elapsed) (tau_er p)) in
      min (f_mul fl (f_sub fl 1 (admit_p state)) idle_decay) 1)"

record predictive_admission =
  global_state :: admission_state
  states_by_root :: "method_id \<rightharpoonup> admission_state"

definition predictive_admission_new :: "nat \<Rightarrow> predictive_admission" where
  "predictive_admission_new now = \<lparr>global_state = admission_state_new now, states_by_root = Map.empty\<rparr>"

definition ROOT_REJECT_EXTRA_FRACTION :: f64 where
  "ROOT_REJECT_EXTRA_FRACTION = 75 / 100"

definition root_state :: "nat \<Rightarrow> method_id \<Rightarrow> predictive_admission \<Rightarrow> admission_state" where
  "root_state now rt pa = (case states_by_root pa rt of Some s \<Rightarrow> s | None \<Rightarrow> admission_state_new now)"

definition record_outcome :: "f64_ops \<Rightarrow> pred_params \<Rightarrow> nat \<Rightarrow> method_id \<Rightarrow> bool \<Rightarrow> predictive_admission \<Rightarrow> predictive_admission" where
  "record_outcome fl p now rt is_early_return pa =
     pa\<lparr>global_state := record_outcome_for_state fl p now is_early_return (global_state pa),
        states_by_root := (states_by_root pa)(rt \<mapsto> record_outcome_for_state fl p now is_early_return (root_state now rt pa))\<rparr>"

definition combined_reject_prob :: "f64_ops \<Rightarrow> f64 \<Rightarrow> f64 \<Rightarrow> f64" where
  "combined_reject_prob fl global_prob root_prob =
     (let root_extra = max (f_sub fl root_prob global_prob) 0 in
      min (f_add fl global_prob (f_mul fl ROOT_REJECT_EXTRA_FRACTION root_extra)) 1)"

definition should_admit :: "f64_ops \<Rightarrow> pred_params \<Rightarrow> nat \<Rightarrow> f64 \<Rightarrow> method_id \<Rightarrow> predictive_admission \<Rightarrow> bool \<times> predictive_admission" where
  "should_admit fl p now coin rt pa =
     (let state = root_state now rt pa;
          reject_prob = combined_reject_prob fl (reject_prob_for_state fl p now (global_state pa)) (reject_prob_for_state fl p now state) in
      (reject_prob < coin, pa\<lparr>states_by_root := (states_by_root pa)(rt \<mapsto> state)\<rparr>))"

section \<open>The module\<close>

record pred_module =
  pm_info :: estimation_info
  pm_budget :: masa_context
  pm_rpc :: grpc_method
  admission_checked :: bool

text \<open>\<open>info\<close> is what the extensions hold under \<open>EstimationInfo\<close>.\<close>

definition pred_new :: "grpc_method \<Rightarrow> estimation_info option \<Rightarrow> policy_value extensions \<Rightarrow> pred_module exec" where
  "pred_new rpc info ext =
     (case info of
        None \<Rightarrow> Panic
      | Some info \<Rightarrow> map_exec (\<lambda>b. \<lparr>pm_info = info, pm_budget = b, pm_rpc = rpc, admission_checked = False\<rparr>) (budget_of ext))"

definition pred_root_id :: "pred_module \<Rightarrow> method_registry \<Rightarrow> method_id \<times> method_registry" where
  "pred_root_id m reg = (case ei_root_method_id (pm_info m) of Some rt \<Rightarrow> (rt, reg) | None \<Rightarrow> get_or_register (pm_rpc m) reg)"

definition admission_rejection :: "grpc_method \<Rightarrow> status" where
  "admission_rejection rpc = Status DeadlineExceeded (''/EarlyReturn?src='' @ method_path rpc @ ''&reason=PredAdmissionRej'')"

definition pred_before_poll :: "f64_ops \<Rightarrow> pred_params \<Rightarrow> nat \<Rightarrow> f64 \<Rightarrow> pred_module \<Rightarrow> predictive_admission \<Rightarrow> method_registry \<Rightarrow>
    ((status + 'p) + unit) \<times> pred_module \<times> predictive_admission \<times> method_registry" where
  "pred_before_poll fl p now coin m pa reg =
     (if \<not> is_ingress (pm_info m) then (Inr (), m, pa, reg)
      else if admission_checked m then (Inr (), m\<lparr>admission_checked := True\<rparr>, pa, reg)
      else case pred_root_id m reg of (rt, reg') \<Rightarrow>
        (case should_admit fl p now coin rt pa of (admit, pa') \<Rightarrow>
           (if admit then Inr () else Inl (Inl (admission_rejection (pm_rpc m))), m\<lparr>admission_checked := True\<rparr>, pa', reg')))"

definition bcf_error :: "grpc_method \<Rightarrow> grpc_method \<Rightarrow> status" where
  "bcf_error parent_rpc child_rpc = Status DeadlineExceeded
     (''/EarlyReturn?src='' @ method_path parent_rpc @ ''?last_rpc='' @ method_path child_rpc @ ''&reason=BeforeChildFeasibility'')"

definition LAMBDA :: f64 where
  "LAMBDA = 2"

definition child_wallclock_pack :: "'e estimator_ops \<Rightarrow> parent_to_child \<Rightarrow> 'e latency_estimators \<Rightarrow>
    (estimates_pack option \<times> 'e latency_estimators) exec" where
  "child_wallclock_pack ops key est =
     map_exec (\<lambda>(r, m). (r, est\<lparr>child_wallclock := m\<rparr>)) (lm_get_estimates_pack ops key (child_wallclock est))"

definition pack_default :: estimates_pack where
  "pack_default = \<lparr>pack_mean = 0, pack_floor = 0, pack_last_observation_us = 0\<rparr>"

definition shed_prob :: "f64_ops \<Rightarrow> u64 \<Rightarrow> u64 \<Rightarrow> f64" where
  "shed_prob fl overshoot time_left =
     f_sub fl 1 (fast_exp_neg fl (f_mul fl LAMBDA (f_divide fl (of_u64 fl overshoot) (of_u64 fl time_left))))"

text \<open>The gates on the estimates; \<open>False\<close> sheds the child.\<close>

definition feasible :: "f64_ops \<Rightarrow> u64 \<Rightarrow> u64 \<Rightarrow> f64 \<Rightarrow> estimates_pack \<Rightarrow> after_child_estimates \<Rightarrow> u64 \<Rightarrow> bool" where
  "feasible fl now deadline coin child remaining remaining_last_obs =
     (if pack_mean child = 0 \<and> ac_mean remaining = 0 then True
      else
        let decay = min (decay_factor fl now (pack_last_observation_us child)) (decay_factor fl now remaining_last_obs);
            floor_finish_us = f_add fl (of_u64 fl now)
              (f_mul fl (f_add fl (of_u64 fl (pack_floor child)) (of_u64 fl (ac_floor remaining))) decay);
            raw_finish = now + pack_mean child + ac_mean remaining;
            decayed_finish = (if decay < 1
              then now + to_u64 (f_mul fl (f_add fl (of_u64 fl (pack_mean child)) (of_u64 fl (ac_mean remaining))) decay)
              else raw_finish) in
        if of_u64 fl deadline < floor_finish_us then False
        else if raw_finish \<le> deadline then True
        else if decayed_finish \<le> deadline then True
        else \<not> coin < shed_prob fl (decayed_finish - deadline) (saturating_sub deadline now))"

definition pred_before_child_rpc :: "f64_ops \<Rightarrow> 'e estimator_ops \<Rightarrow> grpc_method \<Rightarrow> u64 \<Rightarrow> f64 \<Rightarrow> pred_module \<Rightarrow>
    'e latency_estimators \<Rightarrow> method_registry \<Rightarrow> ((status + unit) \<times> 'e latency_estimators \<times> method_registry) exec" where
  "pred_before_child_rpc fl ops child_rpc now coin m est reg =
     (case get_or_register child_rpc reg of (child_id, reg1) \<Rightarrow>
      case get_or_register (pm_rpc m) reg1 of (parent_id, reg2) \<Rightarrow>
      let rt = (case ei_root_method_id (pm_info m) of Some rt \<Rightarrow> rt | None \<Rightarrow> parent_id);
          key = (rt, parent_id, child_id);
          deadline = e2e_deadline (pm_budget m);
          time_left = saturating_sub deadline now in
      if time_left = 0 then Done (Inl (bcf_error (pm_rpc m) child_rpc), est, reg2)
      else
        bind_exec (child_wallclock_pack ops key est) (\<lambda>(child, est1).
        bind_exec (est_after_child_wallclock ops key time_left est1) (\<lambda>(remaining, est2).
        map_exec (\<lambda>(remaining_last_obs, est3).
            (if feasible fl now deadline coin (case child of Some c \<Rightarrow> c | None \<Rightarrow> pack_default) remaining remaining_last_obs
             then Inr () else Inl (bcf_error (pm_rpc m) child_rpc), est3, reg2))
          (after_child_wallclock_last_obs ops key est2))))"

definition pred_after_child_rpc :: "base64_engine \<Rightarrow> estimation_wire bincode \<Rightarrow> 'e estimator_ops \<Rightarrow> ('s, 'p) child_outcome \<Rightarrow> wire_in \<Rightarrow>
    pred_module \<Rightarrow> 'e latency_estimators \<Rightarrow> 'e latency_estimators exec" where
  "pred_after_child_rpc b64 bin ops outcome wire m est =
     (case sent outcome of
        Some (Inr _) \<Rightarrow>
          if \<not> is_ingress (pm_info m) then Done est
          else (case ei_root_method_id (pm_info m) of
              None \<Rightarrow> Done est
            | Some rt \<Rightarrow>
                bind_exec (wi_get b64 bin ESTIMATION_SECTION wire) (\<lambda>r. case r of
                    Inl err \<Rightarrow> Panic
                  | Inr w \<Rightarrow>
                      (case Option.bind w ew_response of
                         Some report \<Rightarrow> track_subtree_compute ops rt (accumulated_compute_us report) est
                       | None \<Rightarrow> Done est)))
      | _ \<Rightarrow> Done est)"

definition PRED_ADMISSION :: string where
  "PRED_ADMISSION = ''pred_admission''"

definition pred_finalize :: "f64_ops \<Rightarrow> pred_params \<Rightarrow> nat \<Rightarrow> status + 'p \<Rightarrow> status outcome \<Rightarrow> request_metadata \<Rightarrow> pred_module \<Rightarrow>
    predictive_admission \<Rightarrow> method_registry \<Rightarrow> predictive_admission \<times> method_registry" where
  "pred_finalize fl p now result outcome md m pa reg =
     (if \<not> is_ingress (pm_info m) then (pa, reg)
      else if (case outcome of RequestRejected by_module _ \<Rightarrow> by_module = PRED_ADMISSION | _ \<Rightarrow> False) then (pa, reg)
      else
        let is_er = (is_early_return_response result \<or> health_any (subtree_health_of md)) in
        case pred_root_id m reg of (rt, reg') \<Rightarrow> (record_outcome fl p now rt is_er pa, reg'))"

section \<open>Windows\<close>

text \<open>What happens to the controllers: an outcome is recorded, or a request is checked.\<close>

datatype pred_call = RecordOutcome nat method_id bool | CheckAdmit nat f64 method_id

fun pred_step :: "f64_ops \<Rightarrow> pred_params \<Rightarrow> pred_call \<Rightarrow> predictive_admission \<Rightarrow> predictive_admission" where
  "pred_step fl p (RecordOutcome now rt er) pa = record_outcome fl p now rt er pa"
| "pred_step fl p (CheckAdmit now coin rt) pa = snd (should_admit fl p now coin rt pa)"

definition pred_calls :: "f64_ops \<Rightarrow> pred_params \<Rightarrow> pred_call list \<Rightarrow> predictive_admission \<Rightarrow> predictive_admission" where
  "pred_calls fl p calls pa = fold (pred_step fl p) calls pa"

fun outcomes :: "(method_id \<Rightarrow> bool) \<Rightarrow> pred_call list \<Rightarrow> (nat \<times> bool) list" where
  "outcomes P [] = []"
| "outcomes P (RecordOutcome now rt er # cs) = (if P rt then (now, er) # outcomes P cs else outcomes P cs)"
| "outcomes P (CheckAdmit now coin rt # cs) = outcomes P cs"

fun first_call :: "method_id \<Rightarrow> pred_call list \<Rightarrow> nat option" where
  "first_call r [] = None"
| "first_call r (RecordOutcome now rt er # cs) = (if rt = r then Some now else first_call r cs)"
| "first_call r (CheckAdmit now coin rt # cs) = (if rt = r then Some now else first_call r cs)"

definition controller_run :: "f64_ops \<Rightarrow> pred_params \<Rightarrow> (nat \<times> bool) list \<Rightarrow> admission_state \<Rightarrow> admission_state" where
  "controller_run fl p es s = fold (\<lambda>(now, er). record_outcome_for_state fl p now er) es s"

text \<open>
  The windows that outcomes close, each with its early returns and its total: an outcome more than
  50 milliseconds after the start of the window closes it. The rule then applied to the admission
  probability.
\<close>

fun windows :: "f64_ops \<Rightarrow> nat \<Rightarrow> nat \<Rightarrow> nat \<Rightarrow> (nat \<times> bool) list \<Rightarrow> (nat \<times> nat) list" where
  "windows fl start ers tot [] = []"
| "windows fl start ers tot ((now, er) # es) =
     (let ers' = ers + (if er then 1 else 0) in
      if rnd fl (5 / 100) < as_secs_f64 fl (now - start) then (ers', Suc tot) # windows fl now 0 0 es
      else windows fl start ers' (Suc tot) es)"

definition window_overloaded :: "f64_ops \<Rightarrow> pred_params \<Rightarrow> nat \<times> nat \<Rightarrow> bool" where
  "window_overloaded fl p w \<longleftrightarrow> aimd_er_threshold p < rnd fl (rnd fl (of_nat (fst w)) / rnd fl (of_nat (snd w)))"

definition aimd :: "f64_ops \<Rightarrow> pred_params \<Rightarrow> nat \<times> nat \<Rightarrow> f64 \<Rightarrow> f64" where
  "aimd fl p w a = (if window_overloaded fl p w then max (rnd fl (a * aimd_beta p)) 0 else min (rnd fl (a + aimd_alpha p)) 1)"

definition sane_params :: "pred_params \<Rightarrow> bool" where
  "sane_params p \<longleftrightarrow> 0 \<le> aimd_beta p \<and> aimd_beta p \<le> 1 \<and> 0 \<le> aimd_alpha p \<and> 0 < tau_er p"

lemma outcomes_append: "outcomes P (xs @ ys) = outcomes P xs @ outcomes P ys"
  by (induction P xs rule: outcomes.induct) simp_all

lemma first_call_append: "first_call r (xs @ ys) = (case first_call r xs of Some t \<Rightarrow> Some t | None \<Rightarrow> first_call r ys)"
  by (induction r xs rule: first_call.induct) simp_all

lemma outcomes_first_call: "first_call r calls = None \<Longrightarrow> outcomes (\<lambda>rt. rt = r) calls = []"
  by (induction r calls rule: first_call.induct) (auto split: if_splits)

lemma pred_calls_separate:
  "global_state (pred_calls fl p calls (predictive_admission_new t0)) = controller_run fl p (outcomes (\<lambda>_. True) calls) (admission_state_new t0)"
  "states_by_root (pred_calls fl p calls (predictive_admission_new t0)) r =
     map_option (\<lambda>t. controller_run fl p (outcomes (\<lambda>rt. rt = r) calls) (admission_state_new t)) (first_call r calls)"
proof (induction calls rule: rev_induct)
  case (snoc c cs)
  let ?pa = "pred_calls fl p cs (predictive_admission_new t0)"
  have step: "pred_calls fl p (cs @ [c]) (predictive_admission_new t0) = pred_step fl p c ?pa" by (simp add: pred_calls_def)
  have state: "root_state now r ?pa = controller_run fl p (outcomes (\<lambda>rt. rt = r) cs)
      (admission_state_new (case first_call r cs of Some t \<Rightarrow> t | None \<Rightarrow> now))" for now
    using snoc(2) outcomes_first_call [of r cs] by (cases "first_call r cs") (simp_all add: root_state_def controller_run_def)
  { case 1 show ?case unfolding step
      using snoc(1) by (cases c) (simp_all add: record_outcome_def should_admit_def Let_def outcomes_append controller_run_def) }
  { case 2 show ?case unfolding step
      using snoc(2) state
      by (cases c; cases "first_call r cs")
        (auto simp: record_outcome_def should_admit_def Let_def outcomes_append first_call_append controller_run_def) }
qed (simp_all add: pred_calls_def predictive_admission_new_def controller_run_def)

lemma record_outcome_step:
  fixes s :: admission_state and er :: bool and now :: nat and fl :: f64_ops and p :: pred_params
  assumes "Suc (unat (er_count s)) < 2 ^ 64" "Suc (unat (window_total s)) < 2 ^ 64"
  defines "ers \<equiv> unat (er_count s) + (if er then 1 else 0)" and "s' \<equiv> record_outcome_for_state fl p now er s"
  shows "rnd fl (5 / 100) < as_secs_f64 fl (now - last_update s) \<Longrightarrow>
      last_update s' = now \<and> er_count s' = 0 \<and> window_total s' = 0 \<and> admit_p s' = aimd fl p (ers, Suc (unat (window_total s))) (admit_p s)"
    "\<not> rnd fl (5 / 100) < as_secs_f64 fl (now - last_update s) \<Longrightarrow>
      last_update s' = last_update s \<and> unat (er_count s') = ers \<and> unat (window_total s') = Suc (unat (window_total s)) \<and> admit_p s' = admit_p s"
proof -
  have suc: "unat (v + 1 :: u64) = Suc (unat v)" if "Suc (unat v) < 2 ^ 64" for v :: u64
    using that unat_add_lem [of v 1] by simp
  have ers: "unat (if er then er_count s + 1 else er_count s) = ers" using suc assms(1) by (simp add: ers_def)
  have f: "of_u64 fl (if er then er_count s + 1 else er_count s) = rnd fl (of_nat ers)"
    "of_u64 fl (window_total s + 1) = rnd fl (of_nat (Suc (unat (window_total s))))"
    unfolding of_u64_def by (simp_all only: ers suc [OF assms(2)])
  show "rnd fl (5 / 100) < as_secs_f64 fl (now - last_update s) \<Longrightarrow>
      last_update s' = now \<and> er_count s' = 0 \<and> window_total s' = 0 \<and> admit_p s' = aimd fl p (ers, Suc (unat (window_total s))) (admit_p s)"
    unfolding s'_def record_outcome_for_state_def Let_def
    by (simp add: aimd_def window_overloaded_def f_divide_def f_mul_def f_add_def f del: of_nat_Suc)
  show "\<not> rnd fl (5 / 100) < as_secs_f64 fl (now - last_update s) \<Longrightarrow>
      last_update s' = last_update s \<and> unat (er_count s') = ers \<and> unat (window_total s') = Suc (unat (window_total s)) \<and> admit_p s' = admit_p s"
    unfolding s'_def record_outcome_for_state_def Let_def using suc assms(1,2) by (simp add: ers_def)
qed

lemma controller_run_windows:
  "unat (er_count s) + length es < 2 ^ 64 \<Longrightarrow> unat (window_total s) + length es < 2 ^ 64 \<Longrightarrow>
   admit_p (controller_run fl p es s) =
     fold (aimd fl p) (windows fl (last_update s) (unat (er_count s)) (unat (window_total s)) es) (admit_p s)"
proof (induction es arbitrary: s)
  case (Cons e es)
  obtain now er where e: "e = (now, er)" by fastforce
  let ?s' = "record_outcome_for_state fl p now er s"
  have run: "controller_run fl p (e # es) s = controller_run fl p es ?s'" by (simp add: controller_run_def e)
  have small: "Suc (unat (er_count s)) < 2 ^ 64" "Suc (unat (window_total s)) < 2 ^ 64" using Cons.prems by simp_all
  note step = record_outcome_step [OF small, where fl = fl and now = now and er = er and p = p]
  show ?case
  proof (cases "rnd fl (5 / 100) < as_secs_f64 fl (now - last_update s)")
    case True
    with step(1) Cons.IH [of ?s'] Cons.prems show ?thesis unfolding run by (simp add: e)
  next
    case False
    with step(2) Cons.IH [of ?s'] Cons.prems show ?thesis unfolding run by (simp add: e)
  qed
qed (simp add: controller_run_def)

lemma aimd_between:
  assumes "ieee fl" "sane_params p" "0 \<le> a" "a \<le> 1"
  shows "0 \<le> aimd fl p w a \<and> aimd fl p w a \<le> 1"
proof -
  have "a * aimd_beta p \<le> 1" using mult_mono [OF assms(4), of "aimd_beta p" 1] assms(2,3) by (simp add: sane_params_def)
  from rnd_between(3) [OF assms(1) this] rnd_between(1) [OF assms(1), of "a + aimd_alpha p"] assms(2,3)
  show ?thesis by (simp add: aimd_def sane_params_def)
qed

lemma fold_aimd_between:
  "ieee fl \<Longrightarrow> sane_params p \<Longrightarrow> 0 \<le> a \<Longrightarrow> a \<le> 1 \<Longrightarrow> 0 \<le> fold (aimd fl p) ws a \<and> fold (aimd fl p) ws a \<le> 1"
  by (induction ws arbitrary: a) (simp_all add: aimd_between)

lemma fold_aimd_open:
  assumes "ieee fl" "sane_params p" "\<forall>w\<in>set ws. \<not> window_overloaded fl p w"
  shows "fold (aimd fl p) ws 1 = 1"
proof -
  have "1 \<le> rnd fl (1 + aimd_alpha p)" using ieee_rnd(1) [OF assms(1), of 1 "1 + aimd_alpha p"] assms(1,2) by (simp add: sane_params_def)
  then have "aimd fl p w 1 = 1" if "\<not> window_overloaded fl p w" for w using that by (simp add: aimd_def)
  with assms(3) show ?thesis by (induction ws) simp_all
qed


lemma length_outcomes: "length (outcomes P calls) \<le> length calls"
  by (induction P calls rule: outcomes.induct) auto

lemma admission_state_new_simps [simp]:
  "er_count (admission_state_new t) = 0" "window_total (admission_state_new t) = 0" "last_update (admission_state_new t) = t"
  "admit_p (admission_state_new t) = 1"
  by (simp_all add: admission_state_new_def)

text \<open>The windows a controller has closed: the server's, and those of a root method.\<close>

definition global_windows :: "f64_ops \<Rightarrow> nat \<Rightarrow> pred_call list \<Rightarrow> (nat \<times> nat) list" where
  "global_windows fl t0 calls = windows fl t0 0 0 (outcomes (\<lambda>_. True) calls)"

definition root_windows :: "f64_ops \<Rightarrow> method_id \<Rightarrow> pred_call list \<Rightarrow> (nat \<times> nat) list" where
  "root_windows fl r calls =
     (case first_call r calls of None \<Rightarrow> [] | Some t \<Rightarrow> windows fl t 0 0 (outcomes (\<lambda>rt. rt = r) calls))"

lemma controllers_admit_p:
  fixes fl :: f64_ops and p :: pred_params and t0 :: nat
  assumes "length calls < 2 ^ 64"
  defines "pa \<equiv> pred_calls fl p calls (predictive_admission_new t0)"
  shows "admit_p (global_state pa) = fold (aimd fl p) (global_windows fl t0 calls) 1"
    "admit_p (root_state now r pa) = fold (aimd fl p) (root_windows fl r calls) 1"
proof -
  have small: "length (outcomes P calls) < 2 ^ 64" for P using length_outcomes [of P calls] assms(1) by simp
  show "admit_p (global_state pa) = fold (aimd fl p) (global_windows fl t0 calls) 1"
    unfolding pa_def pred_calls_separate global_windows_def using controller_run_windows [of "admission_state_new t0"] small by simp
  show "admit_p (root_state now r pa) = fold (aimd fl p) (root_windows fl r calls) 1"
    unfolding root_state_def pa_def pred_calls_separate root_windows_def
    using controller_run_windows [of "admission_state_new t" for t] small by (simp split: option.split)
qed

text \<open>
  The contract of a controller, as loose as its documentation: a window that is not overloaded raises
  the admission probability by at least \<open>alpha\<close> times what is missing to one, and an overloaded one
  leaves at most \<open>beta\<close> of it.
\<close>

inductive follows_windows :: "f64_ops \<Rightarrow> pred_params \<Rightarrow> (nat \<times> nat) list \<Rightarrow> f64 \<Rightarrow> f64 \<Rightarrow> bool"
  for fl p where
  no_window: "follows_windows fl p [] a a"
| cut: "window_overloaded fl p w \<Longrightarrow> 0 \<le> a' \<Longrightarrow> a' \<le> rnd fl (a * aimd_beta p) \<Longrightarrow> follows_windows fl p ws a' b \<Longrightarrow>
    follows_windows fl p (w # ws) a b"
| recover: "\<not> window_overloaded fl p w \<Longrightarrow> rnd fl (a + aimd_alpha p * (1 - a)) \<le> a' \<Longrightarrow> a' \<le> 1 \<Longrightarrow> follows_windows fl p ws a' b \<Longrightarrow>
    follows_windows fl p (w # ws) a b"

lemma aimd_follows:
  assumes fl: "ieee fl" and p: "sane_params p" "aimd_alpha p \<le> 1"
  shows "0 \<le> a \<Longrightarrow> a \<le> 1 \<Longrightarrow> follows_windows fl p ws a (fold (aimd fl p) ws a)"
proof (induction ws arbitrary: a)
  case (Cons w ws)
  note between = aimd_between [OF fl p(1) Cons.prems, of w]
  have rest: "follows_windows fl p ws (aimd fl p w a) (fold (aimd fl p) (w # ws) a)" using Cons.IH between by simp
  show ?case
  proof (cases "window_overloaded fl p w")
    case True
    have "0 \<le> rnd fl (a * aimd_beta p)" using p(1) Cons.prems(1) by (intro rnd_between(1) [OF fl]) (simp add: sane_params_def)
    then show ?thesis using True between by (intro cut [OF True _ _ rest]) (simp_all add: aimd_def)
  next
    case False
    have gain: "aimd_alpha p * (1 - a) \<le> aimd_alpha p" "aimd_alpha p * (1 - a) \<le> 1 - a"
      using p Cons.prems mult_right_mono [OF p(2), of "1 - a"] by (simp_all add: sane_params_def mult_left_le)
    then have "rnd fl (a + aimd_alpha p * (1 - a)) \<le> rnd fl (a + aimd_alpha p)" "rnd fl (a + aimd_alpha p * (1 - a)) \<le> 1"
      by (auto intro: ieee_rnd(1) [OF fl] rnd_between(3) [OF fl])
    then show ?thesis using False between by (intro recover [OF False _ _ rest]) (simp_all add: aimd_def)
  qed
qed (simp add: no_window)

text \<open>
  Claim C13. Over any calls, fewer than \<open>2 ^ 64\<close>, and with sane parameters, the controllers follow the
  windows their own outcomes close: the server's admission probability is reached from one through
  the windows of all outcomes, and a root method's, which exists once the method was met, through
  the windows of its own outcomes alone, whatever the other methods report and however often
  admission is checked. A window that is not overloaded raises the probability by at least \<open>alpha\<close>
  times what is missing to one, an overloaded one leaves at most \<open>beta\<close> of it; it stays between zero
  and one whatever rounding does, and is one as long as no window was overloaded.
\<close>

theorem controllers_refine_windows:
  fixes t0 :: nat
  assumes "ieee fl" "sane_params p" "aimd_alpha p \<le> 1" "length calls < 2 ^ 64"
  defines "pa \<equiv> pred_calls fl p calls (predictive_admission_new t0)"
  shows "follows_windows fl p (global_windows fl t0 calls) 1 (admit_p (global_state pa)) \<and>
    (\<forall>r. (states_by_root pa r = None) = (first_call r calls = None)) \<and>
    (\<forall>r s. states_by_root pa r = Some s \<longrightarrow> follows_windows fl p (root_windows fl r calls) 1 (admit_p s)) \<and>
    (\<forall>s. s = global_state pa \<or> (\<exists>r. states_by_root pa r = Some s) \<longrightarrow> 0 \<le> admit_p s \<and> admit_p s \<le> 1) \<and>
    ((\<forall>w\<in>set (global_windows fl t0 calls). \<not> window_overloaded fl p w) \<longrightarrow> admit_p (global_state pa) = 1) \<and>
    (\<forall>r s. states_by_root pa r = Some s \<and> (\<forall>w\<in>set (root_windows fl r calls). \<not> window_overloaded fl p w) \<longrightarrow> admit_p s = 1)"
proof -
  note a = controllers_admit_p [OF assms(4), where fl = fl and p = p and ?t0.0 = t0, folded pa_def]
  have known: "(states_by_root pa r = None) = (first_call r calls = None)" for r
    unfolding pa_def by (simp add: pred_calls_separate(2))
  have roots: "admit_p s = fold (aimd fl p) (root_windows fl r calls) 1" if "states_by_root pa r = Some s" for r s
    using a(2) [of 0 r] that by (simp add: root_state_def)
  note between = fold_aimd_between [OF assms(1,2), of 1] and follows = aimd_follows [OF assms(1-3), of 1] and opened = fold_aimd_open [OF assms(1,2)]
  show ?thesis
  proof (intro conjI allI impI; (elim conjE)?)
    fix s assume "s = global_state pa \<or> (\<exists>r. states_by_root pa r = Some s)"
    then show "0 \<le> admit_p s" "admit_p s \<le> 1" using a(1) roots between by auto
  qed (use a(1) roots known follows opened in auto)
qed

lemma default_sane: "ieee fl \<Longrightarrow> sane_params (pred_params_default fl)"
  using rnd_between [of fl "875 / 1000"] rnd_between(1) [of fl "5 / 100"] by (simp add: sane_params_def pred_params_default_def)

theorem controllers_refine_windows_witness:
  "admit_p (global_state (pred_calls ex_f64 (pred_params_default ex_f64) [RecordOutcome (100000000) 1 True] (predictive_admission_new 0))) \<le> 875 / 1000"
proof -
  let ?c = "[RecordOutcome (100000000) 1 True]" and ?p = "pred_params_default ex_f64"
  have w: "global_windows ex_f64 0 ?c = [(1, 1)]" "window_overloaded ex_f64 ?p (1, 1)"
    by (simp_all add: global_windows_def as_secs_f64_def f_add_def f_divide_def ex_f64_def window_overloaded_def pred_params_default_def)
  have "aimd_alpha ?p \<le> 1" by (simp add: pred_params_default_def ex_f64_def)
  from controllers_refine_windows [OF ex_f64_ieee default_sane [OF ex_f64_ieee] this, of ?c 0]
  have "follows_windows ex_f64 ?p [(1, 1)] 1 (admit_p (global_state (pred_calls ex_f64 ?p ?c (predictive_admission_new 0))))" by (simp add: w)
  then show ?thesis using w(2)
    by (cases rule: follows_windows.cases) (auto simp: pred_params_default_def ex_f64_def elim: follows_windows.cases)
qed

section \<open>Admission\<close>

lemma reject_prob_between:
  assumes "ieee fl" "sane_params p" "0 \<le> admit_p s" "admit_p s \<le> 1"
  shows "0 \<le> reject_prob_for_state fl p now s \<and> reject_prob_for_state fl p now s \<le> 1"
proof -
  have "0 \<le> as_secs_f64 fl d" for d
    unfolding as_secs_f64_def f_add_def f_divide_def
    by (intro rnd_between(1) [OF assms(1)] add_nonneg_nonneg) simp_all
  then have "- as_secs_f64 fl (now - er_last_update s) / tau_er p \<le> 0" using assms(2) by (simp add: sane_params_def divide_le_0_iff)
  from rnd_between(2) [OF assms(1) this] have "0 \<le> f_exp fl (f_divide fl (- as_secs_f64 fl (now - er_last_update s)) (tau_er p))"
    unfolding f_divide_def by (rule ieee_rnd(8) [OF assms(1)])
  moreover have "0 \<le> f_sub fl 1 (admit_p s)" unfolding f_sub_def using assms(4) by (intro rnd_between(1) [OF assms(1)]) simp
  ultimately have "0 \<le> f_mul fl (f_sub fl 1 (admit_p s)) (f_exp fl (f_divide fl (- as_secs_f64 fl (now - er_last_update s)) (tau_er p)))"
    unfolding f_mul_def by (intro rnd_between(1) [OF assms(1)] mult_nonneg_nonneg)
  then show ?thesis by (simp add: reject_prob_for_state_def Let_def)
qed

lemma combined_reject_prob_between:
  assumes "ieee fl" "rnd fl g = g" "0 \<le> g" "g \<le> 1"
  shows "g \<le> combined_reject_prob fl g r \<and> combined_reject_prob fl g r \<le> 1"
proof -
  have "0 \<le> ROOT_REJECT_EXTRA_FRACTION * max (f_sub fl r g) 0" by (simp add: ROOT_REJECT_EXTRA_FRACTION_def)
  then have "0 \<le> f_mul fl ROOT_REJECT_EXTRA_FRACTION (max (f_sub fl r g) 0)"
    unfolding f_mul_def by (rule rnd_between(1) [OF assms(1)])
  then have "rnd fl g \<le> f_add fl g (f_mul fl ROOT_REJECT_EXTRA_FRACTION (max (f_sub fl r g) 0))"
    unfolding f_add_def by (intro ieee_rnd(1) [OF assms(1)]) simp
  then show ?thesis using assms(2,4) by (simp add: combined_reject_prob_def Let_def)
qed

text \<open>
  A request is admitted exactly when its random number exceeds a rejection probability that
  is at least the server's and at most one. While no window has been overloaded, neither the
  server's nor the root method's, that probability is zero, so every request with a positive
  number is admitted; the check changes no controller, and only creates the method's.
\<close>

theorem admission_by_probability:
  fixes t0 :: nat
  assumes "ieee fl" "sane_params p" "length calls < 2 ^ 64"
  defines "pa \<equiv> pred_calls fl p calls (predictive_admission_new t0)"
  shows "(\<exists>prob. fst (should_admit fl p now coin r pa) = (prob < coin) \<and>
      reject_prob_for_state fl p now (global_state pa) \<le> prob \<and> 0 \<le> prob \<and> prob \<le> 1 \<and>
      ((\<forall>w\<in>set (global_windows fl t0 calls) \<union> set (root_windows fl r calls). \<not> window_overloaded fl p w) \<longrightarrow> prob = 0)) \<and>
    global_state (snd (should_admit fl p now coin r pa)) = global_state pa \<and>
      (\<forall>k s. states_by_root pa k = Some s \<longrightarrow> states_by_root (snd (should_admit fl p now coin r pa)) k = Some s)"
proof -
  note a = controllers_admit_p [OF assms(3), where fl = fl and p = p and ?t0.0 = t0, folded pa_def]
  let ?g = "reject_prob_for_state fl p now (global_state pa)" and ?r = "reject_prob_for_state fl p now (root_state now r pa)"
  have g: "0 \<le> ?g \<and> ?g \<le> 1" using reject_prob_between [OF assms(1,2)] fold_aimd_between [OF assms(1,2), of 1] a(1) by simp
  have "rnd fl ?g = ?g" by (auto simp: reject_prob_for_state_def Let_def min_def f_mul_def ieee_rnd(2) [OF assms(1)] ieee_0_1 [OF assms(1)])
  note c = combined_reject_prob_between [OF assms(1) this, of ?r]
  have zero: "reject_prob_for_state fl p now s = 0" if "admit_p s = 1" for s
    using that assms(1) by (simp add: reject_prob_for_state_def Let_def f_sub_def f_mul_def)
  have "combined_reject_prob fl ?g ?r = 0"
    if "\<forall>w\<in>set (global_windows fl t0 calls) \<union> set (root_windows fl r calls). \<not> window_overloaded fl p w"
  proof -
    have "admit_p (global_state pa) = 1" "admit_p (root_state now r pa) = 1" using that a fold_aimd_open [OF assms(1,2)] by auto
    then have "?g = 0" "?r = 0" using zero by blast+
    then show ?thesis using assms(1) by (simp add: combined_reject_prob_def Let_def f_add_def f_mul_def f_sub_def)
  qed
  then have "\<exists>prob. fst (should_admit fl p now coin r pa) = (prob < coin) \<and> ?g \<le> prob \<and> 0 \<le> prob \<and> prob \<le> 1 \<and>
      ((\<forall>w\<in>set (global_windows fl t0 calls) \<union> set (root_windows fl r calls). \<not> window_overloaded fl p w) \<longrightarrow> prob = 0)"
    using c g by (intro exI [of _ "combined_reject_prob fl ?g ?r"]) (auto simp: should_admit_def Let_def)
  moreover have "global_state (snd (should_admit fl p now coin r pa)) = global_state pa \<and>
      (\<forall>k s. states_by_root pa k = Some s \<longrightarrow> states_by_root (snd (should_admit fl p now coin r pa)) k = Some s)"
    by (auto simp: should_admit_def Let_def root_state_def)
  ultimately show ?thesis by blast
qed


theorem admission_by_probability_witness:
  "fst (should_admit ex_f64 (pred_params_default ex_f64) 5 (1 / 2) 7 (predictive_admission_new 0))"
proof -
  have none: "global_windows ex_f64 0 [] = []" "root_windows ex_f64 7 [] = []" by (simp_all add: global_windows_def root_windows_def)
  from admission_by_probability [OF ex_f64_ieee default_sane [OF ex_f64_ieee], where calls = "[]" and ?t0.0 = 0 and now = 5 and coin = "1 / 2" and r = 7] obtain prob :: f64 where
    "fst (should_admit ex_f64 (pred_params_default ex_f64) 5 (1 / 2) 7 (predictive_admission_new 0)) = (prob < 1 / 2)" "prob = 0"
    unfolding none by (auto simp: pred_calls_def)
  then show ?thesis by simp
qed

text \<open>A random number of zero is rejected even by controllers that are fully open.\<close>

lemma zero_coin_rejected:
  "\<not> fst (should_admit ex_f64 (pred_params_default ex_f64) 5 0 7 (predictive_admission_new 0))"
  by (simp add: should_admit_def Let_def combined_reject_prob_def reject_prob_for_state_def predictive_admission_new_def root_state_def
      admission_state_new_def f_add_def f_mul_def f_sub_def ex_f64_def)

section \<open>Feasibility of a child\<close>

lemma decay_factor_between:
  assumes "ieee fl"
  shows "0 \<le> decay_factor fl now obs" "decay_factor fl now obs \<le> 1"
proof -
  have "0 \<le> of_u64 fl age / TAU_DECAY_US" for age using of_u64_nonneg [OF assms, of age] by (simp add: TAU_DECAY_US_def)
  from rnd_between(1) [OF assms this] have "- f_div fl age TAU_DECAY_US \<le> 0" for age by (simp add: f_div_def f_divide_def)
  from ieee_rnd(8,9) [OF assms this] show "0 \<le> decay_factor fl now obs" "decay_factor fl now obs \<le> 1"
    by (auto simp: decay_factor_def Let_def fast_exp_neg_def f_exp_neg_def)
qed

lemma of_nat_word_add:
  fixes a b :: u64
  assumes "ieee fl" "unat a + unat b \<le> 2 ^ 53"
  shows "f_add fl (of_u64 fl a) (of_u64 fl b) = of_nat (unat a + unat b)"
proof -
  have "of_u64 fl a = of_nat (unat a)" "of_u64 fl b = of_nat (unat b)" using assms of_u64_exact by (auto simp: word_le_nat_alt)
  then have "f_add fl (of_u64 fl a) (of_u64 fl b) = rnd fl (of_nat (unat a + unat b))" by (simp add: f_add_def del: of_nat_unat)
  with ieee_rnd(4) [OF assms] show ?thesis by simp
qed

text \<open>The work that the floors, or the means, project: what a child takes and what follows it.\<close>

abbreviation floor_work :: "estimates_pack \<Rightarrow> after_child_estimates \<Rightarrow> nat" where
  "floor_work child remaining \<equiv> unat (pack_floor child) + unat (ac_floor remaining)"

abbreviation mean_work :: "estimates_pack \<Rightarrow> after_child_estimates \<Rightarrow> nat" where
  "mean_work child remaining \<equiv> unat (pack_mean child) + unat (ac_mean remaining)"

lemma floor_gate_fits:
  assumes "ieee fl" "deadline \<le> 2 ^ 53" "unat now + floor_work child remaining \<le> unat deadline" "0 \<le> d" "d \<le> 1"
  shows "f_add fl (of_u64 fl now) (f_mul fl (f_add fl (of_u64 fl (pack_floor child)) (of_u64 fl (ac_floor remaining))) d) \<le> of_u64 fl deadline"
proof -
  let ?w = "of_nat (floor_work child remaining) :: rat"
  have small: "unat deadline \<le> 2 ^ 53" using assms(2) by (simp add: word_le_nat_alt)
  have w: "f_add fl (of_u64 fl (pack_floor child)) (of_u64 fl (ac_floor remaining)) = ?w" "rnd fl ?w = ?w"
    using of_nat_word_add [OF assms(1), of "pack_floor child" "ac_floor remaining"]
      ieee_rnd(4) [OF assms(1), of "floor_work child remaining"] assms(3) small by (simp_all del: of_nat_add)
  have "?w * d \<le> ?w" by (intro mult_left_le assms(5) of_nat_0_le_iff)
  from ieee_rnd(1) [OF assms(1) this] have "f_mul fl ?w d \<le> ?w" unfolding f_mul_def w(2) .
  moreover have "of_u64 fl now = of_nat (unat now)"
    using assms(3) small by (intro of_u64_exact [OF assms(1)]) (simp add: word_le_nat_alt)
  moreover have "(of_nat (unat now) :: rat) + ?w \<le> of_nat (unat deadline)"
    using assms(3) by (simp only: of_nat_add [symmetric] of_nat_le_iff)
  ultimately have "of_u64 fl now + f_mul fl ?w d \<le> of_nat (unat deadline)" by linarith
  from ieee_rnd(1) [OF assms(1) this] have "rnd fl (of_u64 fl now + f_mul fl ?w d) \<le> of_u64 fl deadline" by (simp only: of_u64_def [of fl deadline])
  then show ?thesis unfolding w(1) by (simp only: f_add_def)
qed

lemma floor_gate_misses:
  assumes "ieee fl" "unat now + floor_work child remaining \<le> 2 ^ 53" "unat deadline < unat now + floor_work child remaining"
  shows "of_u64 fl deadline < f_add fl (of_u64 fl now) (f_mul fl (f_add fl (of_u64 fl (pack_floor child)) (of_u64 fl (ac_floor remaining))) 1)"
proof -
  let ?w = "of_nat (floor_work child remaining) :: rat"
  have w: "f_add fl (of_u64 fl (pack_floor child)) (of_u64 fl (ac_floor remaining)) = ?w" "rnd fl ?w = ?w"
    using of_nat_word_add [OF assms(1), of "pack_floor child" "ac_floor remaining"]
      ieee_rnd(4) [OF assms(1), of "floor_work child remaining"] assms(2) by (simp_all del: of_nat_add)
  have now: "of_u64 fl now = of_nat (unat now)" "of_u64 fl deadline = of_nat (unat deadline)"
    by (rule of_u64_exact [OF assms(1)], use assms(2,3) in \<open>simp add: word_le_nat_alt\<close>)+
  have "f_add fl (of_u64 fl now) ?w = of_nat (unat now + floor_work child remaining)"
    unfolding f_add_def now using ieee_rnd(4) [OF assms(1,2)] by (simp only: of_nat_add [symmetric])
  then show ?thesis using assms(3) unfolding w(1) f_mul_def now(2) mult_1_right w(2) by (simp only: of_nat_less_iff)
qed

lemma mean_fits:
  fixes now a b deadline :: u64
  assumes "unat now + (unat a + unat b) \<le> unat deadline"
  shows "now + a + b \<le> deadline"
proof -
  have "unat (now + a) = unat now + unat a" using assms unat_u64_less [of deadline] by (intro unat_add_lem [THEN iffD1]) simp
  moreover from this have "unat (now + a + b) = unat now + unat a + unat b"
    using assms unat_u64_less [of deadline] unat_add_lem [of "now + a" b] by simp
  ultimately show ?thesis using assms by (simp add: word_le_nat_alt)
qed


lemma feasible_rules:
  assumes "ieee fl" "deadline \<le> 2 ^ 53"
  shows "pack_mean child = 0 \<Longrightarrow> ac_mean remaining = 0 \<Longrightarrow> feasible fl now deadline coin child remaining obs"
    "unat now + floor_work child remaining \<le> unat deadline \<Longrightarrow> unat now + mean_work child remaining \<le> unat deadline \<Longrightarrow>
       feasible fl now deadline coin child remaining obs"
    "pack_mean child \<noteq> 0 \<or> ac_mean remaining \<noteq> 0 \<Longrightarrow> decay_factor fl now (pack_last_observation_us child) = 1 \<Longrightarrow> decay_factor fl now obs = 1 \<Longrightarrow>
       unat deadline < unat now + floor_work child remaining \<Longrightarrow> unat now + floor_work child remaining \<le> 2 ^ 53 \<Longrightarrow>
       \<not> feasible fl now deadline coin child remaining obs"
proof -
  let ?d = "min (decay_factor fl now (pack_last_observation_us child)) (decay_factor fl now obs)"
  have d: "0 \<le> ?d" "?d \<le> 1" using decay_factor_between [OF assms(1)] by (simp_all add: min_def)
  show "feasible fl now deadline coin child remaining obs"
    if "unat now + floor_work child remaining \<le> unat deadline" "unat now + mean_work child remaining \<le> unat deadline"
    using floor_gate_fits [OF assms that(1) d] mean_fits [OF that(2)] by (simp only: feasible_def Let_def if_False if_True not_less [symmetric]) simp
  show "\<not> feasible fl now deadline coin child remaining obs"
    if "pack_mean child \<noteq> 0 \<or> ac_mean remaining \<noteq> 0" "decay_factor fl now (pack_last_observation_us child) = 1" "decay_factor fl now obs = 1"
      "unat deadline < unat now + floor_work child remaining" "unat now + floor_work child remaining \<le> 2 ^ 53"
    using floor_gate_misses [OF assms(1) that(5,4)] that(1,2,3) by (simp only: feasible_def Let_def min.idem if_True) auto
qed (simp add: feasible_def)

lemma decay_factor_fresh: "saturating_sub now obs \<le> DECAY_THRESHOLD_US \<Longrightarrow> decay_factor fl now obs = 1"
  by (simp add: decay_factor_def)

text \<open>
  Claim C25. What a child's feasibility check decides, for a deadline up to 2^53 microseconds. A
  child is shed for certain when no time is left, or when fresh observations put even the floors
  of the child and of what follows it past the deadline. It is sent for certain when nothing was
  observed yet, or when floors and means fit. The status of a shed child names both methods.
\<close>

theorem child_shed_rule:
  fixes m :: pred_module and est :: "'e latency_estimators"
  assumes "ieee fl" "e2e_deadline (pm_budget m) \<le> 2 ^ 53"
    and "get_or_register child_rpc reg = (child_id, reg1)" "get_or_register (pm_rpc m) reg1 = (parent_id, reg2)"
    and "key = (case ei_root_method_id (pm_info m) of Some rt \<Rightarrow> rt | None \<Rightarrow> parent_id, parent_id, child_id)"
    and "child_wallclock_pack ops key est = Done (pack, est1)"
    and "est_after_child_wallclock ops key (saturating_sub (e2e_deadline (pm_budget m)) now) est1 = Done (remaining, est2)"
    and "after_child_wallclock_last_obs ops key est2 = Done (obs, est3)"
    and "c = (case pack of Some c \<Rightarrow> c | None \<Rightarrow> pack_default)"
  shows "\<exists>r est'. pred_before_child_rpc fl ops child_rpc now coin m est reg = Done (r, est', reg2) \<and>
    (r = Inr () \<or> r = Inl (bcf_error (pm_rpc m) child_rpc)) \<and>
    (e2e_deadline (pm_budget m) \<le> now \<longrightarrow> r \<noteq> Inr ()) \<and>
    (now < e2e_deadline (pm_budget m) \<longrightarrow>
        (pack_mean c = 0 \<and> ac_mean remaining = 0 \<longrightarrow> r = Inr ()) \<and>
        (unat now + floor_work c remaining \<le> unat (e2e_deadline (pm_budget m)) \<and>
         unat now + mean_work c remaining \<le> unat (e2e_deadline (pm_budget m)) \<longrightarrow> r = Inr ()) \<and>
        ((pack_mean c \<noteq> 0 \<or> ac_mean remaining \<noteq> 0) \<and>
         saturating_sub now (pack_last_observation_us c) \<le> DECAY_THRESHOLD_US \<and> saturating_sub now obs \<le> DECAY_THRESHOLD_US \<and>
         unat (e2e_deadline (pm_budget m)) < unat now + floor_work c remaining \<and> unat now + floor_work c remaining \<le> 2 ^ 53 \<longrightarrow> r \<noteq> Inr ()))"
proof (cases "e2e_deadline (pm_budget m) \<le> now")
  case True
  then have "saturating_sub (e2e_deadline (pm_budget m)) now = 0" by (simp add: saturating_sub_def)
  with True show ?thesis by (simp add: pred_before_child_rpc_def assms(3,4) Let_def leD)
next
  case False
  have "saturating_sub (e2e_deadline (pm_budget m)) now \<noteq> 0" using False by (auto simp: saturating_sub_def)
  then have "pred_before_child_rpc fl ops child_rpc now coin m est reg =
      Done (if feasible fl now (e2e_deadline (pm_budget m)) coin c remaining obs then Inr () else Inl (bcf_error (pm_rpc m) child_rpc), est3, reg2)"
    by (simp add: pred_before_child_rpc_def assms(3,4) Let_def assms(5) [symmetric] assms(6-8) assms(9) [symmetric])
  with False show ?thesis using feasible_rules [OF assms(1,2), where child = c and remaining = remaining and now = now and coin = coin and obs = obs] decay_factor_fresh by auto
qed


definition ex_pred :: pred_module where
  "ex_pred = \<lparr>pm_info = em_info ex_module, pm_budget = ex_context, pm_rpc = em_rpc ex_module, admission_checked = False\<rparr>"

definition ex_slow :: "u64 option latency_estimators" where
  "ex_slow = estimators_new\<lparr>child_wallclock := (\<lambda>_. Some (Some 9000)), after_child_wallclock := (\<lambda>_. Some (Some 100))\<rparr>"

theorem child_shed_rule_witness:
  "\<exists>est' reg'. pred_before_child_rpc ex_f64 ex_last \<lparr>gm_service = ''Stock'', gm_method = ''Take''\<rparr> 5000 1
     (ex_pred\<lparr>pm_budget := ex_context\<lparr>ctx_gateway_entry := 4000, ctx_slo := 6000\<rparr>\<rparr>) ex_slow registry_new =
     Done (Inl (bcf_error \<lparr>gm_service = ''Shop'', gm_method = ''Buy''\<rparr> \<lparr>gm_service = ''Stock'', gm_method = ''Take''\<rparr>), est', reg')"
proof -
  let ?m = "ex_pred\<lparr>pm_budget := ex_context\<lparr>ctx_gateway_entry := 4000, ctx_slo := 6000\<rparr>\<rparr>" and ?child = "\<lparr>gm_service = ''Stock'', gm_method = ''Take''\<rparr>"
  let ?c = "\<lparr>pack_mean = 9000, pack_floor = 9000, pack_last_observation_us = 0\<rparr> :: estimates_pack"
  let ?r = "\<lparr>ac_full = 100, ac_mean = 100, ac_floor = 100\<rparr> :: after_child_estimates"
  have d: "e2e_deadline (pm_budget ?m) = 10000" by (simp add: e2e_deadline_def)
  obtain cid reg1 where c: "get_or_register ?child registry_new = (cid, reg1)" by fastforce
  obtain pid reg2 where q: "get_or_register (pm_rpc ?m) reg1 = (pid, reg2)" by fastforce
  let ?key = "(case ei_root_method_id (pm_info ?m) of Some rt \<Rightarrow> rt | None \<Rightarrow> pid, pid, cid)"
  have lookups: "child_wallclock_pack ex_last ?key ex_slow = Done (Some ?c, ex_slow)"
    "est_after_child_wallclock ex_last ?key (saturating_sub (e2e_deadline (pm_budget ?m)) 5000) ex_slow = Done (?r, ex_slow)"
    "after_child_wallclock_last_obs ex_last ?key ex_slow = Done (0, ex_slow)"
    unfolding d by (simp_all add: child_wallclock_pack_def est_after_child_wallclock_def after_child_wallclock_last_obs_def lm_get_estimates_pack_def
        lm_get_estimate_def lm_get_mean_estimate_def lm_get_mean_floor_estimate_def lm_get_estimate_with_def ex_slow_def ex_last_def or_zero_def
        estimators_new_def saturating_sub_def)
  have small: "e2e_deadline (pm_budget ?m) \<le> 2 ^ 53" unfolding d by (simp add: word_le_nat_alt)
  have rpc: "pm_rpc ?m = \<lparr>gm_service = ''Shop'', gm_method = ''Buy''\<rparr>" by (simp add: ex_pred_def ex_module_def)
  from child_shed_rule [OF ex_f64_ieee small c q refl lookups refl, of 1, unfolded d] obtain r est' where
    "pred_before_child_rpc ex_f64 ex_last ?child 5000 1 ?m ex_slow registry_new = Done (r, est', reg2)"
    "r = Inr () \<or> r = Inl (bcf_error (pm_rpc ?m) ?child)" "r \<noteq> Inr ()"
    by (auto simp: DECAY_THRESHOLD_US_def saturating_sub_def)
  then show ?thesis unfolding rpc by auto
qed

text \<open>
  Shedding is not always partial: once the projected overshoot is twenty-five times the time left,
  its probability is one.
\<close>

lemma shed_prob_one:
  assumes "ieee fl" "overshoot \<le> 2 ^ 53" "time_left \<le> 2 ^ 53" "0 < time_left" "25 * unat time_left \<le> unat overshoot"
  shows "shed_prob fl overshoot time_left = 1"
proof -
  have exact: "of_u64 fl overshoot = of_nat (unat overshoot)" "of_u64 fl time_left = of_nat (unat time_left)"
    using of_u64_exact [OF assms(1)] assms(2,3) by simp_all
  have "(of_nat (25 * unat time_left) :: rat) \<le> of_nat (unat overshoot)" by (simp only: of_nat_le_iff assms(5))
  moreover have "(0 :: rat) < of_nat (unat time_left)" using assms(4) by (simp add: word_less_nat_alt del: of_nat_unat)
  ultimately have "25 \<le> of_nat (unat overshoot) / (of_nat (unat time_left) :: rat)"
    by (simp only: pos_le_divide_eq of_nat_mult of_nat_numeral)
  from ieee_rnd(1) [OF assms(1) this] have "25 \<le> f_divide fl (of_u64 fl overshoot) (of_u64 fl time_left)"
    using ieee_rnd(4) [OF assms(1), of 25] by (simp only: f_divide_def exact of_nat_numeral) simp
  then have "50 \<le> LAMBDA * f_divide fl (of_u64 fl overshoot) (of_u64 fl time_left)" by (simp add: LAMBDA_def)
  from ieee_rnd(1) [OF assms(1) this] have "50 \<le> f_mul fl LAMBDA (f_divide fl (of_u64 fl overshoot) (of_u64 fl time_left))"
    using ieee_rnd(4) [OF assms(1), of 50] by (simp only: f_mul_def of_nat_numeral) simp
  then show ?thesis using assms(1) by (simp add: shed_prob_def fast_exp_neg_def f_sub_def)
qed

section \<open>A request\<close>

text \<open>The polls of a request, each with its clock and its random number: the first that rejects ends it.\<close>

fun pred_polls :: "f64_ops \<Rightarrow> pred_params \<Rightarrow> (nat \<times> f64) list \<Rightarrow> pred_module \<Rightarrow> predictive_admission \<Rightarrow> method_registry \<Rightarrow>
    ((status + 'p) + unit) \<times> pred_module \<times> predictive_admission \<times> method_registry" where
  "pred_polls fl p [] m pa reg = (Inr (), m, pa, reg)"
| "pred_polls fl p ((now, coin) # polls) m pa reg =
     (case pred_before_poll fl p now coin m pa reg of
        (Inl r, m', pa', reg') \<Rightarrow> (Inl r, m', pa', reg')
      | (Inr _, m', pa', reg') \<Rightarrow> pred_polls fl p polls m' pa' reg')"

lemma before_poll_checked:
  fixes m :: pred_module
  assumes "\<not> is_ingress (pm_info m) \<or> admission_checked m"
  shows "pred_before_poll fl p now coin m pa reg = (Inr (), m, pa, reg)"
proof -
  have "m\<lparr>admission_checked := True\<rparr> = m" if "admission_checked m" using that by (cases m) simp
  then show ?thesis using assms by (auto simp: pred_before_poll_def)
qed

lemma pred_polls_checked:
  fixes m :: pred_module
  assumes "\<not> is_ingress (pm_info m) \<or> admission_checked m"
  shows "pred_polls fl p polls m pa reg = (Inr (), m, pa, reg)"
proof (induction polls)
  case (Cons c polls)
  obtain now coin where c: "c = (now, coin)" by fastforce
  show ?case unfolding c pred_polls.simps before_poll_checked [OF assms] using Cons.IH by simp
qed simp

lemma pred_root_id_kept:
  "ei_root_method_id (pm_info m) = Some rt \<Longrightarrow> pred_root_id m reg = (rt, reg)"
  by (simp add: pred_root_id_def)

text \<open>
  Claim C24. A request at ingress is checked once and recorded at most once: it is rejected exactly
  when the controllers refuse it at its first poll, and later polls ask nothing. Its outcome is
  then recorded once, under its root method, as an early return when its response is one or its
  subtree reported one; a request that this module rejected is not recorded. Away from ingress no
  poll rejects and nothing is recorded.
\<close>

theorem request_recorded_once:
  fixes m :: pred_module
  assumes "ei_root_method_id (pm_info m) = Some rt" "\<not> admission_checked m"
    and "pred_polls fl p ((now, coin) # polls) m pa reg = (r, m', pa', reg')"
    and "pred_finalize fl p later result outcome md m' pa' reg' = (pa'', reg'')"
    and "(\<exists>e. r = Inl e) = (\<exists>s. outcome = RequestRejected PRED_ADMISSION s)"
  shows "reg'' = reg \<and>
    (if is_ingress (pm_info m) then
       (\<exists>e. r = Inl e) = (\<not> fst (should_admit fl p now coin rt pa)) \<and>
       pa' = snd (should_admit fl p now coin rt pa) \<and>
       pa'' = (if fst (should_admit fl p now coin rt pa)
         then record_outcome fl p later rt (is_early_return_response result \<or> health_any (subtree_health_of md)) pa' else pa')
     else r = Inr () \<and> pa'' = pa)"
proof (cases "is_ingress (pm_info m)")
  case False
  then have "pred_polls fl p ((now, coin) # polls) m pa reg = (Inr (), m, pa, reg)" by (intro pred_polls_checked) simp
  from trans [OF assms(3) [symmetric] this] have "r = Inr ()" "m' = m" "pa' = pa" "reg' = reg" by simp_all
  with assms(4) False show ?thesis by (simp add: pred_finalize_def)
next
  case True
  obtain admit pa1 where sa: "should_admit fl p now coin rt pa = (admit, pa1)" by fastforce
  have polls: "(r, m', pa', reg') = (if admit then Inr () else Inl (Inl (admission_rejection (pm_rpc m))), m\<lparr>admission_checked := True\<rparr>, pa1, reg)"
    using assms(3) True assms(1,2) sa
    by (simp add: pred_before_poll_def pred_root_id_kept pred_polls_checked split: if_splits)
  have rejected: "(case outcome of RequestRejected by_module _ \<Rightarrow> by_module = PRED_ADMISSION | _ \<Rightarrow> False) = (\<not> admit)"
    using assms(5) polls by (cases outcome) (auto split: if_splits)
  have "pred_root_id m' reg' = (rt, reg)" "is_ingress (pm_info m')" using polls assms(1) True by (simp_all add: pred_root_id_def)
  with assms(4) polls rejected True sa show ?thesis by (auto simp: pred_finalize_def Let_def split: if_splits)
qed

theorem request_recorded_once_witness:
  "\<exists>m' pa' reg' pa''.
     pred_polls ex_f64 (pred_params_default ex_f64) [(5, 1 / 2), (6, 0)] ex_pred (predictive_admission_new 0) registry_new =
       (Inr () :: (status + unit) + unit, m', pa', reg') \<and>
     pred_finalize ex_f64 (pred_params_default ex_f64) 7 (Inl (Status DeadlineExceeded []) :: status + unit) Handled metadata_new m' pa' reg' =
       (pa'', registry_new) \<and>
     pa'' = record_outcome ex_f64 (pred_params_default ex_f64) 7 1 True pa'"
proof -
  let ?p = "pred_params_default ex_f64" and ?pa = "predictive_admission_new 0"
  have m: "ei_root_method_id (pm_info ex_pred) = Some 1" "\<not> admission_checked ex_pred" "is_ingress (pm_info ex_pred)"
    by (simp_all add: ex_pred_def ex_module_def is_ingress_def)
  have admit: "fst (should_admit ex_f64 ?p 5 (1 / 2) 1 ?pa)"
    by (simp add: should_admit_def Let_def combined_reject_prob_def reject_prob_for_state_def predictive_admission_new_def root_state_def
        f_add_def f_mul_def f_sub_def ex_f64_def)
  obtain r :: "(status + unit) + unit" and m' pa' reg' where
    polls: "pred_polls ex_f64 ?p [(5, 1 / 2), (6, 0)] ex_pred ?pa registry_new = (r, m', pa', reg')" by (metis prod_cases4)
  define out :: "status outcome" where "out = (if \<exists>e. r = Inl e then RequestRejected PRED_ADMISSION (Status DeadlineExceeded []) else Handled)"
  have out: "(\<exists>e. r = Inl e) = (\<exists>s. out = RequestRejected PRED_ADMISSION s)" by (simp add: out_def)
  let ?result = "Inl (Status DeadlineExceeded []) :: status + unit"
  obtain pa'' reg'' where fin: "pred_finalize ex_f64 ?p 7 ?result out metadata_new m' pa' reg' = (pa'', reg'')" by fastforce
  note once = request_recorded_once [OF m(1,2) polls fin out]
  have "is_early_return_response ?result" by (simp add: is_early_return_response_def)
  with once admit m(3) have "r = Inr ()" "reg'' = registry_new" "pa'' = record_outcome ex_f64 ?p 7 1 True pa'" by (cases r; simp)+
  then show ?thesis using polls fin by (intro exI [of _ m'] exI [of _ pa'] exI [of _ reg'] exI [of _ pa''] conjI) (simp_all add: out_def del: pred_polls.simps)
qed

end
