(* ===== verification/Request_Future.thy ===== *)
theory Request_Future
  imports Tonic_Hooks
begin

text \<open>
  How a request's context reaches the code that runs for it: the poll hooks that the fork of tokio
  keeps per task (\<open>tokio/src/masa/poll_hook.rs\<close>, \<open>child_poll_hook.rs\<close>, \<open>task/spawn.rs\<close>), the
  thread-local pointer and the wrapped future of the fork of tonic (\<open>tonic/src/masa\<close>,
  \<open>server/grpc.rs\<close>), and the calls its code generator writes into a client
  (\<open>tonic-build/src/client.rs\<close>). A pointer is a number, null being zero; the strong count of an
  \<open>Arc\<close> is kept per pointer. Code that panics is unwound by the runtime, which keeps running.
\<close>

section \<open>The thread-local context\<close>

type_synonym ctx_ptr = nat

record thread_state =
  PARENT_CTX :: ctx_ptr
  arc_strong :: "ctx_ptr \<Rightarrow> nat"

definition get_parent_ctx :: "thread_state \<Rightarrow> ctx_ptr option" where
  "get_parent_ctx t = (if PARENT_CTX t = 0 then None else Some (PARENT_CTX t))"

definition set_parent_ctx :: "ctx_ptr \<Rightarrow> thread_state \<Rightarrow> thread_state" where
  "set_parent_ctx c t = t\<lparr>PARENT_CTX := c\<rparr>"

definition reset_parent_ctx :: "thread_state \<Rightarrow> thread_state" where
  "reset_parent_ctx t = t\<lparr>PARENT_CTX := 0\<rparr>"

text \<open>Taking and releasing an \<open>Arc\<close>.\<close>

definition arc_clone :: "ctx_ptr \<Rightarrow> thread_state \<Rightarrow> thread_state" where
  "arc_clone c t = t\<lparr>arc_strong := (arc_strong t)(c := arc_strong t c + 1)\<rparr>"

definition arc_drop :: "ctx_ptr \<Rightarrow> thread_state \<Rightarrow> thread_state" where
  "arc_drop c t = t\<lparr>arc_strong := (arc_strong t)(c := arc_strong t c - 1)\<rparr>"

section \<open>Poll hooks\<close>

type_synonym hook_fn = "ctx_ptr \<Rightarrow> thread_state \<Rightarrow> thread_state"

record poll_hook =
  ph_ctx :: ctx_ptr
  ph_on_destroy :: "hook_fn option"
  ph_on_clone :: "hook_fn option"
  ph_before_poll :: "hook_fn option"
  ph_after_poll :: "hook_fn option"

definition call_hook :: "hook_fn option \<Rightarrow> ctx_ptr \<Rightarrow> thread_state \<Rightarrow> thread_state" where
  "call_hook f c t = (case f of Some hook \<Rightarrow> hook c t | None \<Rightarrow> t)"

definition poll_hook_default :: poll_hook where
  "poll_hook_default = \<lparr>ph_ctx = 0, ph_on_destroy = None, ph_on_clone = None, ph_before_poll = None, ph_after_poll = None\<rparr>"

definition poll_hook_clone :: "poll_hook \<Rightarrow> thread_state \<Rightarrow> (poll_hook \<times> thread_state) exec" where
  "poll_hook_clone h t =
     (if ph_ctx h \<noteq> 0 then (case ph_on_clone h of Some f \<Rightarrow> Done (h, f (ph_ctx h) t) | None \<Rightarrow> Panic) else Done (h, t))"

definition poll_hook_configure :: "ctx_ptr \<Rightarrow> hook_fn option \<Rightarrow> hook_fn option \<Rightarrow> hook_fn option \<Rightarrow> hook_fn option \<Rightarrow>
    poll_hook \<Rightarrow> poll_hook exec" where
  "poll_hook_configure ctx on_clone on_destroy before_poll after_poll h =
     (let h1 = h\<lparr>ph_ctx := ctx\<rparr> in
      map_exec (\<lambda>h2. h2\<lparr>ph_before_poll := before_poll, ph_after_poll := after_poll\<rparr>)
        (if ctx \<noteq> 0 then
           (if on_destroy = None \<or> on_clone = None then Panic else Done (h1\<lparr>ph_on_destroy := on_destroy, ph_on_clone := on_clone\<rparr>))
         else Done h1))"

definition poll_hook_new :: "ctx_ptr \<Rightarrow> hook_fn option \<Rightarrow> hook_fn option \<Rightarrow> hook_fn option \<Rightarrow> hook_fn option \<Rightarrow> poll_hook exec" where
  "poll_hook_new ctx on_clone on_destroy before_poll after_poll =
     poll_hook_configure ctx on_clone on_destroy before_poll after_poll poll_hook_default"

definition poll_hook_reset :: "poll_hook \<Rightarrow> thread_state \<Rightarrow> poll_hook \<times> thread_state" where
  "poll_hook_reset h t =
     (h\<lparr>ph_on_destroy := None, ph_ctx := 0, ph_before_poll := None, ph_after_poll := None\<rparr>, call_hook (ph_on_destroy h) (ph_ctx h) t)"

definition poll_hook_drop :: "poll_hook \<Rightarrow> thread_state \<Rightarrow> thread_state" where
  "poll_hook_drop h t = snd (poll_hook_reset h t)"

definition invoke_before_poll :: "poll_hook \<Rightarrow> thread_state \<Rightarrow> thread_state" where
  "invoke_before_poll h t = call_hook (ph_before_poll h) (ph_ctx h) t"

definition invoke_after_poll :: "poll_hook \<Rightarrow> thread_state \<Rightarrow> thread_state" where
  "invoke_after_poll h t = call_hook (ph_after_poll h) (ph_ctx h) t"

text \<open>A poll returns, or a panic unwinds it.\<close>

datatype 'a unwind = Returned 'a | Unwound

definition poll_hook_future_poll :: "poll_hook \<Rightarrow> (thread_state \<Rightarrow> ('r unwind \<times> 'y) \<times> thread_state) \<Rightarrow> thread_state \<Rightarrow>
    ('r unwind \<times> 'y) \<times> thread_state" where
  "poll_hook_future_poll h inner t =
     (case inner (invoke_before_poll h t) of
        ((Returned r, y), t2) \<Rightarrow> ((Returned r, y), invoke_after_poll h t2)
      | ((Unwound, y), t2) \<Rightarrow> ((Unwound, y), t2))"

text \<open>The hook that makes a request's context visible to the tasks it spawns.\<close>

definition hook_on_clone :: hook_fn where
  "hook_on_clone c t = arc_clone c t"

definition hook_on_destroy :: hook_fn where
  "hook_on_destroy c t = arc_drop c t"

definition hook_before_poll :: hook_fn where
  "hook_before_poll c t = set_parent_ctx c t"

definition hook_after_poll :: hook_fn where
  "hook_after_poll c t = reset_parent_ctx t"

definition make_child_task_poll_hook :: "ctx_ptr \<Rightarrow> poll_hook exec" where
  "make_child_task_poll_hook c =
     poll_hook_new c (Some hook_on_clone) (Some hook_on_destroy) (Some hook_before_poll) (Some hook_after_poll)"

section \<open>Task headers\<close>

text \<open>
  The hook in a task's header; the outer option is whether a task is running. Assigning the field
  drops what it held.
\<close>

definition drop_hook :: "poll_hook option \<Rightarrow> thread_state \<Rightarrow> thread_state" where
  "drop_hook h t = (case h of Some h \<Rightarrow> poll_hook_drop h t | None \<Rightarrow> t)"

definition set_poll_hook :: "poll_hook option \<Rightarrow> poll_hook option \<Rightarrow> thread_state \<Rightarrow> poll_hook option \<times> thread_state" where
  "set_poll_hook new old t = (new, drop_hook old t)"

definition maybe_clone_poll_hook :: "poll_hook option \<Rightarrow> thread_state \<Rightarrow> (poll_hook option \<times> thread_state) exec" where
  "maybe_clone_poll_hook header t =
     (case header of Some h \<Rightarrow> map_exec (\<lambda>(h', t'). (Some h', t')) (poll_hook_clone h t) | None \<Rightarrow> Done (None, t))"

definition configure_child_task_poll_hook :: "poll_hook \<Rightarrow> poll_hook option option \<Rightarrow> thread_state \<Rightarrow>
    bool \<times> poll_hook option option \<times> thread_state" where
  "configure_child_task_poll_hook hook current t =
     (case current of
        Some old \<Rightarrow> (case set_poll_hook (Some hook) old t of (h, t') \<Rightarrow> (True, Some h, t'))
      | None \<Rightarrow> (False, None, poll_hook_drop hook t))"

definition reset_child_task_poll_hook :: "poll_hook option option \<Rightarrow> thread_state \<Rightarrow> bool \<times> poll_hook option option \<times> thread_state" where
  "reset_child_task_poll_hook current t =
     (case current of
        Some old \<Rightarrow> (case set_poll_hook None old t of (h, t') \<Rightarrow> (True, Some h, t'))
      | None \<Rightarrow> (False, None, t))"

text \<open>The hook around the future of a task that is spawned, and of several.\<close>

definition spawn_with_meta_hook :: "poll_hook option option \<Rightarrow> thread_state \<Rightarrow> (poll_hook option \<times> thread_state) exec" where
  "spawn_with_meta_hook current t = (case current of Some header \<Rightarrow> maybe_clone_poll_hook header t | None \<Rightarrow> Done (None, t))"

fun spawn_all :: "poll_hook option option \<Rightarrow> 'j list \<Rightarrow> thread_state \<Rightarrow> ((poll_hook option \<times> 'j) list \<times> thread_state) exec" where
  "spawn_all current [] t = Done ([], t)"
| "spawn_all current (j # js) t =
     bind_exec (spawn_with_meta_hook current t) (\<lambda>(h, t1). map_exec (\<lambda>(ts, t2). ((h, j) # ts, t2)) (spawn_all current js t1))"

section \<open>The future of a request\<close>

text \<open>\<open>AbortableFuture::poll\<close>, over any state the hooks and the future share.\<close>

definition abortable_poll :: "('x \<Rightarrow> 'o option \<times> 'x) option \<Rightarrow> ('x \<Rightarrow> 'o poll unwind \<times> 'x) \<Rightarrow> ('o poll \<Rightarrow> 'x \<Rightarrow> 'o option \<times> 'x) option \<Rightarrow>
    'x \<Rightarrow> 'o poll unwind \<times> 'x" where
  "abortable_poll before_poll inner after_poll x =
     (case (case before_poll of Some pre_hook \<Rightarrow> pre_hook x | None \<Rightarrow> (None, x)) of
        (Some alt_output, x1) \<Rightarrow> (Returned (PollReady alt_output), x1)
      | (None, x1) \<Rightarrow>
          (case inner x1 of
             (Unwound, x2) \<Rightarrow> (Unwound, x2)
           | (Returned poll_result, x2) \<Rightarrow>
               (case (case after_poll of Some post_hook \<Rightarrow> post_hook poll_result x2 | None \<Rightarrow> (None, x2)) of
                  (Some alt_output, x3) \<Rightarrow> (Returned (PollReady alt_output), x3)
                | (None, x3) \<Rightarrow> (Returned poll_result, x3))))"

text \<open>
  What \<open>masa_unary\<close> is given: whether a runtime is active, the decoding of the request, the
  handler, and the futures that handlers spawn. A future sees the context that is visible while it
  is polled and may spawn others.
\<close>

record ('g, 'v, 's, 'p, 'b, 'q, 'h, 'j) service =
  sv_active :: bool
  sv_decode :: "'b \<Rightarrow> ('s + 'q) poll \<times> 'b"
  sv_call :: "'q \<Rightarrow> 'h"
  sv_handler :: "ctx_ptr option \<Rightarrow> 'h \<Rightarrow> ('v, 's) request_state \<Rightarrow> 'g \<Rightarrow>
    ('s + 'p) poll unwind \<times> 'h \<times> ('v, 's) request_state \<times> 'g \<times> 'j list"
  sv_job :: "ctx_ptr option \<Rightarrow> 'j \<Rightarrow> 'g \<Rightarrow> unit poll unwind \<times> 'j \<times> 'g \<times> 'j list"

datatype ('b, 'h) unary_phase = UnaryStart 'b | UnaryDecode 'b | UnaryHandle 'h | UnaryDone

record ('v, 's, 'b, 'h) unary =
  un_ctx :: ctx_ptr
  un_state :: "('v, 's) request_state"
  un_phase :: "('b, 'h) unary_phase"

text \<open>What a poll works on: the task's header, the thread, the world and the futures spawned.\<close>

record ('g, 'j) poll_env =
  pe_header :: "poll_hook option option"
  pe_thread :: thread_state
  pe_world :: 'g
  pe_spawned :: "(poll_hook option \<times> 'j) list"

type_synonym ('g, 'v, 's, 'j, 'h) handle_state = "'h \<times> ('v, 's) request_state \<times> ('g, 'j) poll_env"

definition unary_before_poll :: "('g, 'v, 'r, 's, 'p) module list \<Rightarrow> ctx_ptr \<Rightarrow> ('g, 'v, 's, 'j, 'h) handle_state \<Rightarrow>
    ('s + 'p) option \<times> ('g, 'v, 's, 'j, 'h) handle_state" where
  "unary_before_poll S c x =
     (case x of (h, st, e) \<Rightarrow>
        (case parent_before_poll S st (pe_world e) of
           (Inr _, st', g) \<Rightarrow> (None, h, st', e\<lparr>pe_thread := set_parent_ctx c (pe_thread e), pe_world := g\<rparr>)
         | (Inl reply, st', g) \<Rightarrow>
             (Some reply, h, st', e\<lparr>pe_thread := reset_parent_ctx (set_parent_ctx c (pe_thread e)), pe_world := g\<rparr>)))"

definition unary_inner :: "('g, 'v, 's, 'p, 'b, 'q, 'h, 'j) service \<Rightarrow> ('g, 'v, 's, 'j, 'h) handle_state \<Rightarrow>
    ('s + 'p) poll unwind \<times> ('g, 'v, 's, 'j, 'h) handle_state" where
  "unary_inner sv x =
     (case x of (h, st, e) \<Rightarrow>
        (case sv_handler sv (get_parent_ctx (pe_thread e)) h st (pe_world e) of
           (r, h', st', g, js) \<Rightarrow>
             (case spawn_all (pe_header e) js (pe_thread e) of
                Done (ts, t) \<Rightarrow> (r, h', st', e\<lparr>pe_thread := t, pe_world := g, pe_spawned := pe_spawned e @ ts\<rparr>)
              | Panic \<Rightarrow> (Unwound, h', st', e\<lparr>pe_world := g\<rparr>))))"

definition unary_after_poll :: "('g, 'v, 'r, 's, 'p) module list \<Rightarrow> ('s + 'p) poll \<Rightarrow> ('g, 'v, 's, 'j, 'h) handle_state \<Rightarrow>
    ('s + 'p) option \<times> ('g, 'v, 's, 'j, 'h) handle_state" where
  "unary_after_poll S poll x =
     (case x of (h, st, e) \<Rightarrow>
        (case parent_after_poll S poll st (pe_world e) of
           (r, st', g) \<Rightarrow>
             (case r of Inr _ \<Rightarrow> None | Inl reply \<Rightarrow> Some reply, h, st', e\<lparr>pe_thread := reset_parent_ctx (pe_thread e), pe_world := g\<rparr>)))"

text \<open>The end of the request, once the wrapped future is ready: a panic of a finalizer unwinds it.\<close>

definition unary_finish :: "('m, 'r, 's, 'p) tonic_ops \<Rightarrow> ('g, 'v, 'r, 's, 'p) module list \<Rightarrow> 's + 'p \<Rightarrow> ('v, 's, 'b, 'h) unary \<Rightarrow>
    ('g, 'j) poll_env \<Rightarrow> ('s + 'p) poll unwind \<times> ('v, 's, 'b, 'h) unary \<times> ('g, 'j) poll_env" where
  "unary_finish ops S result u e =
     (case finalize_before_serialization ops S result (un_state u) (pe_world e) of
        Panic \<Rightarrow> (Unwound, u, e)
      | Done (result', g) \<Rightarrow>
          (case reset_child_task_poll_hook (pe_header e) (pe_thread e) of (_, header, t) \<Rightarrow>
             (Returned (PollReady result'), u\<lparr>un_phase := UnaryDone\<rparr>,
              e\<lparr>pe_header := header, pe_thread := arc_drop (un_ctx u) t, pe_world := g\<rparr>)))"

definition unary_handle_poll :: "('m, 'r, 's, 'p) tonic_ops \<Rightarrow> ('g, 'v, 'r, 's, 'p) module list \<Rightarrow>
    ('g, 'v, 's, 'p, 'b, 'q, 'h, 'j) service \<Rightarrow> 'h \<Rightarrow> ('v, 's, 'b, 'h) unary \<Rightarrow> ('g, 'j) poll_env \<Rightarrow>
    ('s + 'p) poll unwind \<times> ('v, 's, 'b, 'h) unary \<times> ('g, 'j) poll_env" where
  "unary_handle_poll ops S sv h u e =
     (case abortable_poll (Some (unary_before_poll S (un_ctx u))) (unary_inner sv) (Some (unary_after_poll S)) (h, un_state u, e) of
        (r, h', st, e') \<Rightarrow>
          let u' = u\<lparr>un_state := st, un_phase := UnaryHandle h'\<rparr> in
          (case r of
             Returned (PollReady result) \<Rightarrow> unary_finish ops S result u' e'
           | _ \<Rightarrow> (r, u', e')))"

text \<open>A request that cannot be decoded is answered at once; the modules are not told.\<close>

definition unary_decode_poll :: "('m, 'r, 's, 'p) tonic_ops \<Rightarrow> ('g, 'v, 'r, 's, 'p) module list \<Rightarrow>
    ('g, 'v, 's, 'p, 'b, 'q, 'h, 'j) service \<Rightarrow> 'b \<Rightarrow> ('v, 's, 'b, 'h) unary \<Rightarrow> ('g, 'j) poll_env \<Rightarrow>
    ('s + 'p) poll unwind \<times> ('v, 's, 'b, 'h) unary \<times> ('g, 'j) poll_env" where
  "unary_decode_poll ops S sv b u e =
     (case sv_decode sv b of
        (PollPending, b') \<Rightarrow> (Returned PollPending, u\<lparr>un_phase := UnaryDecode b'\<rparr>, e)
      | (PollReady (Inl status), b') \<Rightarrow>
          (Returned (PollReady (Inl status)), u\<lparr>un_phase := UnaryDone\<rparr>, e\<lparr>pe_thread := arc_drop (un_ctx u) (pe_thread e)\<rparr>)
      | (PollReady (Inr request), b') \<Rightarrow> unary_handle_poll ops S sv (sv_call sv request) u e)"

text \<open>The first poll: \<open>Arc::new\<close> puts the context at \<open>fresh\<close>, and the task's children inherit it.\<close>

definition unary_start :: "bool \<Rightarrow> ctx_ptr \<Rightarrow> ('v, 's, 'b, 'h) unary \<Rightarrow> ('g, 'j) poll_env \<Rightarrow>
    (('v, 's, 'b, 'h) unary \<times> ('g, 'j) poll_env) exec" where
  "unary_start active fresh u e =
     (let u1 = u\<lparr>un_ctx := fresh\<rparr>;
          t1 = (pe_thread e)\<lparr>arc_strong := (arc_strong (pe_thread e))(fresh := 1)\<rparr> in
      if active then
        map_exec (\<lambda>child_hook. case configure_child_task_poll_hook child_hook (pe_header e) (arc_clone fresh t1) of
            (_, header, t2) \<Rightarrow> (u1, e\<lparr>pe_header := header, pe_thread := t2\<rparr>))
          (make_child_task_poll_hook fresh)
      else Done (u1, e\<lparr>pe_thread := t1\<rparr>))"

definition masa_unary_poll :: "('m, 'r, 's, 'p) tonic_ops \<Rightarrow> ('g, 'v, 'r, 's, 'p) module list \<Rightarrow>
    ('g, 'v, 's, 'p, 'b, 'q, 'h, 'j) service \<Rightarrow> ctx_ptr \<Rightarrow> ('v, 's, 'b, 'h) unary \<Rightarrow> ('g, 'j) poll_env \<Rightarrow>
    ('s + 'p) poll unwind \<times> ('v, 's, 'b, 'h) unary \<times> ('g, 'j) poll_env" where
  "masa_unary_poll ops S sv fresh u e =
     (case un_phase u of
        UnaryStart b \<Rightarrow>
          (case unary_start (sv_active sv) fresh u e of
             Done (u1, e1) \<Rightarrow> unary_decode_poll ops S sv b u1 e1
           | Panic \<Rightarrow> (Unwound, u, e))
      | UnaryDecode b \<Rightarrow> unary_decode_poll ops S sv b u e
      | UnaryHandle h \<Rightarrow> unary_handle_poll ops S sv h u e
      | UnaryDone \<Rightarrow> (Unwound, u, e))"

section \<open>The runtime's tasks\<close>

text \<open>
  A task is the future of a request or one that was spawned, with the hook around it. Its future is
  dropped when it has ended, its header when nothing refers to the task any more.
\<close>

datatype ('v, 's, 'b, 'h, 'j) future_body = RequestBody "('v, 's, 'b, 'h) unary" | JobBody "poll_hook option" 'j

record ('v, 's, 'b, 'h, 'j) task =
  tk_header :: "poll_hook option"
  tk_future :: "('v, 's, 'b, 'h, 'j) future_body option"

record ('g, 'v, 's, 'b, 'h, 'j) machine =
  mc_parent :: "nat \<Rightarrow> ctx_ptr"
  mc_strong :: "ctx_ptr \<Rightarrow> nat"
  mc_tasks :: "('v, 's, 'b, 'h, 'j) task list"
  mc_world :: 'g

definition thread_of :: "nat \<Rightarrow> ('g, 'v, 's, 'b, 'h, 'j) machine \<Rightarrow> thread_state" where
  "thread_of k m = \<lparr>PARENT_CTX = mc_parent m k, arc_strong = mc_strong m\<rparr>"

definition with_thread :: "nat \<Rightarrow> thread_state \<Rightarrow> ('g, 'v, 's, 'b, 'h, 'j) machine \<Rightarrow> ('g, 'v, 's, 'b, 'h, 'j) machine" where
  "with_thread k t m = m\<lparr>mc_parent := (mc_parent m)(k := PARENT_CTX t), mc_strong := arc_strong t\<rparr>"

definition new_task :: "('v, 's, 'b, 'h, 'j) future_body \<Rightarrow> ('v, 's, 'b, 'h, 'j) task" where
  "new_task f = \<lparr>tk_header = None, tk_future = Some f\<rparr>"

definition future_drop :: "('v, 's, 'b, 'h, 'j) future_body \<Rightarrow> thread_state \<Rightarrow> thread_state" where
  "future_drop f t =
     (case f of
        RequestBody u \<Rightarrow> (case un_phase u of UnaryDecode _ \<Rightarrow> arc_drop (un_ctx u) t | UnaryHandle _ \<Rightarrow> arc_drop (un_ctx u) t | _ \<Rightarrow> t)
      | JobBody h j \<Rightarrow> drop_hook h t)"

text \<open>A spawned future, with the hook around it.\<close>

definition job_inner :: "('g, 'v, 's, 'p, 'b, 'q, 'h, 'j) service \<Rightarrow> poll_hook option option \<Rightarrow> 'j \<Rightarrow> 'g \<Rightarrow> thread_state \<Rightarrow>
    (unit poll unwind \<times> 'j \<times> 'g \<times> (poll_hook option \<times> 'j) list) \<times> thread_state" where
  "job_inner sv header j g t =
     (case sv_job sv (get_parent_ctx t) j g of
        (r, j', g', js) \<Rightarrow>
          (case spawn_all header js t of Done (ts, t') \<Rightarrow> ((r, j', g', ts), t') | Panic \<Rightarrow> ((Unwound, j', g', []), t)))"

definition job_poll :: "('g, 'v, 's, 'p, 'b, 'q, 'h, 'j) service \<Rightarrow> poll_hook option \<Rightarrow> poll_hook option option \<Rightarrow> 'j \<Rightarrow> 'g \<Rightarrow> thread_state \<Rightarrow>
    (unit poll unwind \<times> 'j \<times> 'g \<times> (poll_hook option \<times> 'j) list) \<times> thread_state" where
  "job_poll sv hook header j g t =
     (case hook of Some h \<Rightarrow> poll_hook_future_poll h (job_inner sv header j g) t | None \<Rightarrow> job_inner sv header j g t)"

text \<open>Whether a poll ends the future, and whether it returned at all.\<close>

fun poll_ended :: "'o poll unwind \<Rightarrow> bool" where
  "poll_ended (Returned PollPending) = False"
| "poll_ended _ = True"

fun poll_returned :: "'o poll unwind \<Rightarrow> bool" where
  "poll_returned (Returned _) = True"
| "poll_returned Unwound = False"

text \<open>
  What a poll leaves of its task: the future, dropped once it has ended, the header, and the tasks
  spawned meanwhile.
\<close>

definition settle_task :: "nat \<Rightarrow> nat \<Rightarrow> bool \<Rightarrow> poll_hook option \<Rightarrow> ('v, 's, 'b, 'h, 'j) future_body \<Rightarrow> thread_state \<Rightarrow>
    (poll_hook option \<times> 'j) list \<Rightarrow> 'g \<Rightarrow> ('g, 'v, 's, 'b, 'h, 'j) machine \<Rightarrow> ('g, 'v, 's, 'b, 'h, 'j) machine" where
  "settle_task k i ended header f t ts g m =
     (with_thread k (if ended then future_drop f t else t) m)\<lparr>
        mc_tasks := (mc_tasks m)[i := \<lparr>tk_header = header, tk_future = (if ended then None else Some f)\<rparr>] @
          map (\<lambda>(h, j). new_task (JobBody h j)) ts,
        mc_world := g\<rparr>"

text \<open>The poll of the task \<open>i\<close> on the thread \<open>k\<close>; the first component is whether it returned.\<close>

definition machine_poll :: "('m, 'r, 's, 'p) tonic_ops \<Rightarrow> ('g, 'v, 'r, 's, 'p) module list \<Rightarrow> ('g, 'v, 's, 'p, 'b, 'q, 'h, 'j) service \<Rightarrow>
    nat \<Rightarrow> nat \<Rightarrow> ctx_ptr \<Rightarrow> ('g, 'v, 's, 'b, 'h, 'j) machine \<Rightarrow> bool \<times> ('g, 'v, 's, 'b, 'h, 'j) machine" where
  "machine_poll ops S sv k i fresh m =
     (let header = tk_header (mc_tasks m ! i) in
      case tk_future (mc_tasks m ! i) of
        Some (RequestBody u) \<Rightarrow>
          (case masa_unary_poll ops S sv fresh u
                  \<lparr>pe_header = Some header, pe_thread = thread_of k m, pe_world = mc_world m, pe_spawned = []\<rparr> of
             (r, u', e) \<Rightarrow>
               (poll_returned r, settle_task k i (poll_ended r) (case pe_header e of Some h \<Rightarrow> h | None \<Rightarrow> None) (RequestBody u')
                  (pe_thread e) (pe_spawned e) (pe_world e) m))
      | Some (JobBody hook j) \<Rightarrow>
          (case job_poll sv hook (Some header) j (mc_world m) (thread_of k m) of
             ((r, j', g, ts), t) \<Rightarrow> (poll_returned r, settle_task k i (poll_ended r) header (JobBody hook j') t ts g m))
      | None \<Rightarrow> (True, m))"

text \<open>
  The steps of the runtime, labelled with whether a panic was unwound: a request or a background
  task arrives, a task is polled, a future is dropped before its end, a task is released.
\<close>

inductive machine_step :: "('m, 'r, 's, 'p) tonic_ops \<Rightarrow> ('g, 'v, 'r, 's, 'p) module list \<Rightarrow> ('g, 'v, 's, 'p, 'b, 'q, 'h, 'j) service \<Rightarrow>
    bool \<Rightarrow> ('g, 'v, 's, 'b, 'h, 'j) machine \<Rightarrow> ('g, 'v, 's, 'b, 'h, 'j) machine \<Rightarrow> bool"
  for ops S sv where
  accept: "un_phase u = UnaryStart b \<Longrightarrow> machine_step ops S sv True m (m\<lparr>mc_tasks := mc_tasks m @ [new_task (RequestBody u)]\<rparr>)"
| background: "machine_step ops S sv True m (m\<lparr>mc_tasks := mc_tasks m @ [new_task (JobBody None j)]\<rparr>)"
| poll: "i < length (mc_tasks m) \<Longrightarrow> tk_future (mc_tasks m ! i) = Some f \<Longrightarrow> fresh \<noteq> 0 \<Longrightarrow> mc_strong m fresh = 0 \<Longrightarrow>
    machine_poll ops S sv k i fresh m = (ok, m') \<Longrightarrow> machine_step ops S sv ok m m'"
| cancel: "i < length (mc_tasks m) \<Longrightarrow> tk_future (mc_tasks m ! i) = Some f \<Longrightarrow>
    machine_step ops S sv True m ((with_thread k (future_drop f (thread_of k m)) m)\<lparr>mc_tasks := (mc_tasks m)[i := (mc_tasks m ! i)\<lparr>tk_future := None\<rparr>]\<rparr>)"
| release: "i < length (mc_tasks m) \<Longrightarrow> tk_future (mc_tasks m ! i) = None \<Longrightarrow>
    machine_step ops S sv True m ((with_thread k (drop_hook (tk_header (mc_tasks m ! i)) (thread_of k m)) m)\<lparr>
      mc_tasks := (mc_tasks m)[i := \<lparr>tk_header = None, tk_future = None\<rparr>]\<rparr>)"

definition machine_new :: "'g \<Rightarrow> ('g, 'v, 's, 'b, 'h, 'j) machine" where
  "machine_new g = \<lparr>mc_parent = (\<lambda>_. 0), mc_strong = (\<lambda>_. 0), mc_tasks = [], mc_world = g\<rparr>"

text \<open>What any steps reach, and what steps without a panic reach.\<close>

inductive reached :: "('m, 'r, 's, 'p) tonic_ops \<Rightarrow> ('g, 'v, 'r, 's, 'p) module list \<Rightarrow> ('g, 'v, 's, 'p, 'b, 'q, 'h, 'j) service \<Rightarrow>
    bool \<Rightarrow> ('g, 'v, 's, 'b, 'h, 'j) machine \<Rightarrow> bool"
  for ops S sv where
  start: "reached ops S sv True (machine_new g)"
| step: "reached ops S sv calm m \<Longrightarrow> machine_step ops S sv ok m m' \<Longrightarrow> reached ops S sv (calm \<and> ok) m'"

section \<open>Counting references\<close>

definition child_hook :: "ctx_ptr \<Rightarrow> poll_hook" where
  "child_hook c = \<lparr>ph_ctx = c, ph_on_destroy = Some hook_on_destroy, ph_on_clone = Some hook_on_clone,
     ph_before_poll = Some hook_before_poll, ph_after_poll = Some hook_after_poll\<rparr>"

definition hook_ok :: "poll_hook option \<Rightarrow> bool" where
  "hook_ok h \<longleftrightarrow> (\<forall>x. h = Some x \<longrightarrow> ph_ctx x \<noteq> 0 \<and> x = child_hook (ph_ctx x))"

definition hook_refs :: "poll_hook option \<Rightarrow> ctx_ptr \<Rightarrow> nat" where
  "hook_refs h c = (case h of Some x \<Rightarrow> if ph_ctx x = c then 1 else 0 | None \<Rightarrow> 0)"

fun holds_ctx :: "('b, 'h) unary_phase \<Rightarrow> bool" where
  "holds_ctx (UnaryDecode _) = True"
| "holds_ctx (UnaryHandle _) = True"
| "holds_ctx _ = False"

fun future_refs :: "('v, 's, 'b, 'h, 'j) future_body \<Rightarrow> ctx_ptr \<Rightarrow> nat" where
  "future_refs (RequestBody u) c = (if holds_ctx (un_phase u) \<and> un_ctx u = c then 1 else 0)"
| "future_refs (JobBody h j) c = hook_refs h c"

definition task_refs :: "('v, 's, 'b, 'h, 'j) task \<Rightarrow> ctx_ptr \<Rightarrow> nat" where
  "task_refs tk c = hook_refs (tk_header tk) c + (case tk_future tk of Some f \<Rightarrow> future_refs f c | None \<Rightarrow> 0)"

definition spawned_refs :: "(poll_hook option \<times> 'j) list \<Rightarrow> ctx_ptr \<Rightarrow> nat" where
  "spawned_refs ts c = sum_list (map (\<lambda>(h, j). hook_refs h c) ts)"

text \<open>
  A request's header holds its own context, if any; only a request has a hook in its header while
  it runs.
\<close>

fun body_ok :: "poll_hook option \<Rightarrow> ('v, 's, 'b, 'h, 'j) future_body \<Rightarrow> bool" where
  "body_ok header (RequestBody u) \<longleftrightarrow>
     (case un_phase u of UnaryStart _ \<Rightarrow> header = None | UnaryDone \<Rightarrow> False | _ \<Rightarrow> un_ctx u \<noteq> 0 \<and> (header = None \<or> header = Some (child_hook (un_ctx u))))"
| "body_ok header (JobBody h j) \<longleftrightarrow> header = None \<and> hook_ok h"

definition task_ok :: "('v, 's, 'b, 'h, 'j) task \<Rightarrow> bool" where
  "task_ok tk \<longleftrightarrow> hook_ok (tk_header tk) \<and> (\<forall>f. tk_future tk = Some f \<longrightarrow> body_ok (tk_header tk) f)"

lemma child_hook_simps [simp]: "ph_ctx (child_hook c) = c" "ph_on_destroy (child_hook c) = Some hook_on_destroy"
  "ph_on_clone (child_hook c) = Some hook_on_clone" "ph_before_poll (child_hook c) = Some hook_before_poll"
  "ph_after_poll (child_hook c) = Some hook_after_poll"
  by (simp_all add: child_hook_def)

lemma make_child_task_poll_hook_eq: "c \<noteq> 0 \<Longrightarrow> make_child_task_poll_hook c = Done (child_hook c)"
  by (simp add: make_child_task_poll_hook_def poll_hook_new_def poll_hook_configure_def poll_hook_default_def child_hook_def Let_def)

lemma thread_simps [simp]:
  "PARENT_CTX (arc_clone c t) = PARENT_CTX t" "PARENT_CTX (arc_drop c t) = PARENT_CTX t"
  "arc_strong (arc_clone c t) x = arc_strong t x + (if x = c then 1 else 0)"
  "arc_strong (arc_drop c t) x = arc_strong t x - (if x = c then 1 else 0)"
  "PARENT_CTX (set_parent_ctx c t) = c" "arc_strong (set_parent_ctx c t) = arc_strong t"
  "PARENT_CTX (reset_parent_ctx t) = 0" "arc_strong (reset_parent_ctx t) = arc_strong t"
  by (simp_all add: arc_clone_def arc_drop_def set_parent_ctx_def reset_parent_ctx_def)

lemma hook_ok_child [simp]: "hook_ok None" "hook_ok (Some (child_hook c)) \<longleftrightarrow> c \<noteq> 0"
  by (auto simp: hook_ok_def)

lemma hook_ok_cases: "hook_ok h \<Longrightarrow> (h = None \<Longrightarrow> P) \<Longrightarrow> (\<And>c. h = Some (child_hook c) \<Longrightarrow> c \<noteq> 0 \<Longrightarrow> P) \<Longrightarrow> P"
  by (cases h) (auto simp: hook_ok_def)

lemma hook_refs_simps [simp]: "hook_refs None c = 0" "hook_refs (Some (child_hook x)) c = (if x = c then 1 else 0)"
  by (simp_all add: hook_refs_def)

lemma drop_hook_thread:
  assumes "hook_ok h"
  shows "PARENT_CTX (drop_hook h t) = PARENT_CTX t" "arc_strong (drop_hook h t) c = arc_strong t c - hook_refs h c"
  using assms by (auto elim!: hook_ok_cases simp: drop_hook_def poll_hook_drop_def poll_hook_reset_def call_hook_def hook_on_destroy_def)

lemma spawn_hook_thread:
  assumes "hook_ok header"
  shows "\<exists>t'. spawn_with_meta_hook (Some header) t = Done (header, t') \<and> PARENT_CTX t' = PARENT_CTX t \<and>
    (\<forall>c. arc_strong t' c = arc_strong t c + hook_refs header c)"
  using assms by (auto elim!: hook_ok_cases simp: spawn_with_meta_hook_def maybe_clone_poll_hook_def poll_hook_clone_def hook_on_clone_def)

lemma spawn_all_thread:
  assumes "hook_ok header"
  shows "\<exists>t'. spawn_all (Some header) js t = Done (map (\<lambda>j. (header, j)) js, t') \<and> PARENT_CTX t' = PARENT_CTX t \<and>
    (\<forall>c. arc_strong t' c = arc_strong t c + spawned_refs (map (\<lambda>j. (header, j)) js) c)"
proof (induction js arbitrary: t)
  case (Cons j js)
  obtain t1 where t1: "spawn_with_meta_hook (Some header) t = Done (header, t1)" "PARENT_CTX t1 = PARENT_CTX t"
    "\<forall>c. arc_strong t1 c = arc_strong t c + hook_refs header c" using spawn_hook_thread [OF assms] by blast
  with Cons.IH [of t1] show ?case by (auto simp: spawned_refs_def)
qed (simp add: spawned_refs_def)


text \<open>
  What a poll owes: the counts are those of the others, the task's own and the spawned ones'.
  \<open>held\<close> is that between the poll's pieces, \<open>unary_post\<close> at its end.
\<close>

definition held :: "(ctx_ptr \<Rightarrow> nat) \<Rightarrow> poll_hook option \<Rightarrow> ctx_ptr \<Rightarrow> ('g, 'j) poll_env \<Rightarrow> bool" where
  "held others header c0 e \<longleftrightarrow> pe_header e = Some header \<and> (header = None \<or> header = Some (child_hook c0)) \<and> c0 \<noteq> 0 \<and>
     (\<exists>js. pe_spawned e = map (\<lambda>j. (header, j)) js) \<and>
     (\<forall>c. arc_strong (pe_thread e) c = others c + hook_refs header c + (if c = c0 then 1 else 0) + spawned_refs (pe_spawned e) c)"

definition unary_post :: "bool \<Rightarrow> (ctx_ptr \<Rightarrow> nat) \<Rightarrow> poll_hook option \<Rightarrow> ('s + 'p) poll unwind \<Rightarrow> ('v, 's, 'b, 'h) unary \<Rightarrow> ('g, 'j) poll_env \<Rightarrow> bool" where
  "unary_post quiet others header r u e \<longleftrightarrow> (\<exists>header'. pe_header e = Some header' \<and> hook_ok header' \<and>
     (\<not> poll_ended r \<longrightarrow> header' = header \<and> body_ok header' (RequestBody u :: ('v, 's, 'b, 'h, 'j) future_body)) \<and>
     (\<exists>js. pe_spawned e = map (\<lambda>j. (header, j)) js) \<and> (quiet \<and> poll_returned r \<longrightarrow> PARENT_CTX (pe_thread e) = 0) \<and>
     (\<forall>c. arc_strong (pe_thread e) c = others c + hook_refs header' c +
        future_refs (RequestBody u :: ('v, 's, 'b, 'h, 'j) future_body) c + spawned_refs (pe_spawned e) c))"

lemma spawned_refs_append [simp]: "spawned_refs (xs @ ys) c = spawned_refs xs c + spawned_refs ys c"
  by (simp add: spawned_refs_def)

lemma held_hook: "held others header c0 e \<Longrightarrow> hook_ok header"
  by (auto simp: held_def)

lemma held_thread:
  "held others header c0 e \<Longrightarrow> arc_strong t = arc_strong (pe_thread e) \<Longrightarrow> held others header c0 (e\<lparr>pe_thread := t, pe_world := g\<rparr>)"
  by (simp add: held_def)

lemma unary_inner_held:
  assumes "held others header c0 e" "unary_inner sv (h, st, e) = (r, h', st', e')"
  shows "held others header c0 e'" "PARENT_CTX (pe_thread e') = PARENT_CTX (pe_thread e)"
proof -
  obtain r0 h0 st0 g js where out: "sv_handler sv (get_parent_ctx (pe_thread e)) h st (pe_world e) = (r0, h0, st0, g, js)" by (metis prod_cases5)
  obtain t where t: "spawn_all (Some header) js (pe_thread e) = Done (map (\<lambda>j. (header, j)) js, t)" "PARENT_CTX t = PARENT_CTX (pe_thread e)"
    "\<forall>c. arc_strong t c = arc_strong (pe_thread e) c + spawned_refs (map (\<lambda>j. (header, j)) js) c"
    using spawn_all_thread [OF held_hook [OF assms(1)]] by blast
  obtain js0 where js0: "pe_spawned e = map (\<lambda>j. (header, j)) js0" "pe_header e = Some header" using assms(1) by (auto simp: held_def)
  have e': "e' = e\<lparr>pe_thread := t, pe_world := g, pe_spawned := pe_spawned e @ map (\<lambda>j. (header, j)) js\<rparr>"
    using assms(2) t(1) js0(2) by (simp add: unary_inner_def out)
  show "PARENT_CTX (pe_thread e') = PARENT_CTX (pe_thread e)" using t(2) by (simp add: e')
  have "pe_spawned e @ map (\<lambda>j. (header, j)) js = map (\<lambda>j. (header, j)) (js0 @ js)" using js0 by simp
  then show "held others header c0 e'" using assms(1) t(3) unfolding e' held_def by simp (metis map_append)
qed

lemma abortable_held:
  assumes "held others header c0 e"
    and "abortable_poll (Some (unary_before_poll S c0)) (unary_inner sv) (Some (unary_after_poll S)) (h, st, e) = (r, h', st', e')"
  shows "held others header c0 e'" "poll_returned r \<Longrightarrow> PARENT_CTX (pe_thread e') = 0"
proof -
  obtain o1 h1 st1 e1 where pre: "unary_before_poll S c0 (h, st, e) = (o1, h1, st1, e1)" by (metis prod_cases4)
  then have e1: "held others header c0 e1" "o1 \<noteq> None \<longrightarrow> PARENT_CTX (pe_thread e1) = 0"
    using held_thread [OF assms(1)] by (auto simp: unary_before_poll_def split: prod.splits sum.splits)
  show "held others header c0 e'" "poll_returned r \<Longrightarrow> PARENT_CTX (pe_thread e') = 0"
  proof (atomize (full), cases o1)
    case (Some alt)
    then show "held others header c0 e' \<and> (poll_returned r \<longrightarrow> PARENT_CTX (pe_thread e') = 0)"
      using assms(2) e1 by (auto simp: abortable_poll_def pre)
  next
    case None
    obtain r2 h2 st2 e2 where inner: "unary_inner sv (h1, st1, e1) = (r2, h2, st2, e2)" by (metis prod_cases4)
    note e2 = unary_inner_held [OF e1(1) inner]
    show "held others header c0 e' \<and> (poll_returned r \<longrightarrow> PARENT_CTX (pe_thread e') = 0)"
    proof (cases r2)
      case (Returned p)
      obtain o3 h3 st3 e3 where post: "unary_after_poll S p (h2, st2, e2) = (o3, h3, st3, e3)" by (metis prod_cases4)
      then have "held others header c0 e3" "PARENT_CTX (pe_thread e3) = 0"
        using held_thread [OF e2(1)] by (auto simp: unary_after_poll_def split: prod.splits)
      then show ?thesis using assms(2) None Returned by (cases o3) (auto simp: abortable_poll_def pre inner post)
    qed (use assms(2) None e2 in \<open>auto simp: abortable_poll_def pre inner\<close>)
  qed
qed

lemma unary_finish_post:
  assumes "held others header (un_ctx u) e" "PARENT_CTX (pe_thread e) = 0" "un_phase u = UnaryHandle h"
    and "unary_finish ops S result u e = (r, u', e')"
  shows "unary_post quiet others header r u' e'"
proof (cases "finalize_before_serialization ops S result (un_state u) (pe_world e)")
  case Panic
  with assms show ?thesis using held_hook [OF assms(1)] by (auto simp: unary_finish_def unary_post_def held_def)
next
  case (Done x)
  obtain result' g where x: "x = (result', g)" by fastforce
  let ?t = "arc_drop (un_ctx u) (drop_hook header (pe_thread e))"
  have e': "r = Returned (PollReady result')" "u' = u\<lparr>un_phase := UnaryDone\<rparr>" "e' = e\<lparr>pe_header := Some None, pe_thread := ?t, pe_world := g\<rparr>"
    using assms(1,4) by (auto simp: unary_finish_def Done x reset_child_task_poll_hook_def set_poll_hook_def held_def)
  have "arc_strong ?t c = others c + spawned_refs (pe_spawned e) c" for c
    using assms(1) drop_hook_thread(2) [OF held_hook [OF assms(1)]] by (auto simp: held_def)
  then show ?thesis using assms(1,2) drop_hook_thread(1) [OF held_hook [OF assms(1)]] unfolding e' unary_post_def by (auto simp: held_def)
qed

lemma unary_handle_post:
  assumes "held others header (un_ctx u) e" "unary_handle_poll ops S sv h u e = (r, u', e')"
  shows "unary_post quiet others header r u' e'"
proof -
  obtain r1 h1 st1 e1 where ab: "abortable_poll (Some (unary_before_poll S (un_ctx u))) (unary_inner sv) (Some (unary_after_poll S)) (h, un_state u, e)
      = (r1, h1, st1, e1)" by (metis prod_cases4)
  note e1 = abortable_held [OF assms(1) ab]
  let ?u = "u\<lparr>un_state := st1, un_phase := UnaryHandle h1\<rparr>"
  show ?thesis
  proof (cases "\<exists>result. r1 = Returned (PollReady result)")
    case True
    then obtain result where r1: "r1 = Returned (PollReady result)" by blast
    have "unary_finish ops S result ?u e1 = (r, u', e')" using assms(2) by (simp add: unary_handle_poll_def ab r1 Let_def)
    with unary_finish_post [of others header ?u e1 h1] e1 r1 show ?thesis by simp
  next
    case False
    then have "r = r1" "u' = ?u" "e' = e1" using assms(2) by (auto simp: unary_handle_poll_def ab Let_def split: unwind.splits poll.splits)
    then show ?thesis using e1 held_hook [OF e1(1)] by (auto simp: unary_post_def held_def)
  qed
qed

lemma unary_decode_post:
  assumes "held others header (un_ctx u) e" "quiet \<longrightarrow> PARENT_CTX (pe_thread e) = 0" "unary_decode_poll ops S sv b u e = (r, u', e')"
  shows "unary_post quiet others header r u' e'"
proof -
  obtain d b' where d: "sv_decode sv b = (d, b')" by fastforce
  show ?thesis
  proof (cases d)
    case PollPending
    then show ?thesis using assms held_hook [OF assms(1)] by (auto simp: unary_decode_poll_def d unary_post_def held_def)
  next
    case (PollReady res)
    show ?thesis
    proof (cases res)
      case (Inl status)
      then show ?thesis using assms held_hook [OF assms(1)] PollReady by (auto simp: unary_decode_poll_def d unary_post_def held_def)
    next
      case (Inr request)
      then show ?thesis using unary_handle_post [OF assms(1)] assms(3) PollReady by (simp add: unary_decode_poll_def d)
    qed
  qed
qed

lemma unary_start_held:
  assumes "fresh \<noteq> 0" "arc_strong (pe_thread e) fresh = 0" "pe_header e = Some None" "pe_spawned e = []"
    and "\<forall>c. arc_strong (pe_thread e) c = others c"
  shows "\<exists>u1 e1 header. unary_start active fresh u e = Done (u1, e1) \<and> un_ctx u1 = fresh \<and> un_phase u1 = un_phase u \<and>
    header = (if active then Some (child_hook fresh) else None) \<and>
    held others header fresh e1 \<and> PARENT_CTX (pe_thread e1) = PARENT_CTX (pe_thread e)"
  using assms
  by (auto simp: unary_start_def Let_def make_child_task_poll_hook_eq configure_child_task_poll_hook_def set_poll_hook_def drop_hook_def held_def
      spawned_refs_def)

text \<open>The hook that the tasks a request spawns get.\<close>

definition inherited :: "bool \<Rightarrow> ctx_ptr \<Rightarrow> poll_hook option \<Rightarrow> ('v, 's, 'b, 'h, 'j) future_body \<Rightarrow> poll_hook option" where
  "inherited active fresh header f =
     (case f of
        RequestBody u \<Rightarrow> (case un_phase u of UnaryStart _ \<Rightarrow> if active then Some (child_hook fresh) else None | _ \<Rightarrow> header)
      | JobBody h j \<Rightarrow> header)"

lemma masa_unary_post:
  fixes u :: "('v, 's, 'b, 'h) unary" and e :: "('g, 'j) poll_env"
  assumes "body_ok header (RequestBody u :: ('v, 's, 'b, 'h, 'j) future_body)" "pe_header e = Some header" "pe_spawned e = []"
    and "\<forall>c. arc_strong (pe_thread e) c = others c + hook_refs header c + future_refs (RequestBody u :: ('v, 's, 'b, 'h, 'j) future_body) c"
    and "quiet \<longrightarrow> PARENT_CTX (pe_thread e) = 0" "fresh \<noteq> 0" "arc_strong (pe_thread e) fresh = 0"
    and "masa_unary_poll ops S sv fresh u e = (r, u', e')"
  shows "unary_post quiet others (inherited (sv_active sv) fresh header (RequestBody u :: ('v, 's, 'b, 'h, 'j) future_body)) r u' e'"
proof (cases "un_phase u")
  case (UnaryStart b)
  then have h: "header = None" "\<forall>c. arc_strong (pe_thread e) c = others c" using assms(1,4) by simp_all
  obtain u1 e1 where st: "unary_start (sv_active sv) fresh u e = Done (u1, e1)" "un_ctx u1 = fresh"
    "held others (if sv_active sv then Some (child_hook fresh) else None) fresh e1" "PARENT_CTX (pe_thread e1) = PARENT_CTX (pe_thread e)"
    using unary_start_held [OF assms(6,7) _ assms(3) h(2), of "sv_active sv" u] assms(2) h(1) by auto
  then show ?thesis using unary_decode_post [of others _ u1 e1 quiet ops S sv b r u' e'] assms(5,8) UnaryStart by (simp add: masa_unary_poll_def inherited_def)
next
  case (UnaryDecode b)
  then have "held others header (un_ctx u) e" using assms(1,2,3,4) by (auto simp: held_def spawned_refs_def)
  from unary_decode_post [OF this assms(5)] show ?thesis using assms(8) UnaryDecode by (simp add: masa_unary_poll_def inherited_def)
next
  case (UnaryHandle h)
  then have "held others header (un_ctx u) e" using assms(1,2,3,4) by (auto simp: held_def spawned_refs_def)
  from unary_handle_post [OF this] show ?thesis using assms(8) UnaryHandle by (simp add: masa_unary_poll_def inherited_def)
qed (use assms(1) in simp)

lemma job_poll_post:
  assumes "hook_ok hook" "quiet \<longrightarrow> PARENT_CTX t = 0" "job_poll sv hook (Some None) j g t = ((r, j', g', ts), t')"
  shows "\<exists>js. ts = map (\<lambda>j. (None, j)) js" "arc_strong t' = arc_strong t" "quiet \<Longrightarrow> poll_returned r \<Longrightarrow> PARENT_CTX t' = 0"
proof -
  have inner: "\<exists>js. ts0 = map (\<lambda>j. (None, j)) js" "arc_strong t2 = arc_strong t1" "PARENT_CTX t2 = PARENT_CTX t1"
    if out: "job_inner sv (Some None) j g t1 = ((r0, j0, g0, ts0), t2)" for t1 r0 j0 g0 ts0 t2
  proof -
    obtain r1 j1 g1 js where o1: "sv_job sv (get_parent_ctx t1) j g = (r1, j1, g1, js)" by (metis prod_cases4)
    obtain t3 where t3: "spawn_all (Some None) js t1 = Done (map (\<lambda>j. (None, j)) js, t3)" "PARENT_CTX t3 = PARENT_CTX t1"
      "\<forall>c. arc_strong t3 c = arc_strong t1 c + spawned_refs (map (\<lambda>j. (None, j)) js) c" using spawn_all_thread [of None js t1] by auto
    have "spawned_refs (map (\<lambda>j. (None, j)) js) c = 0" for c by (induction js) (simp_all add: spawned_refs_def)
    with t3 have "arc_strong t3 = arc_strong t1" by (simp add: fun_eq_iff)
    then show "\<exists>js. ts0 = map (\<lambda>j. (None, j)) js" "arc_strong t2 = arc_strong t1" "PARENT_CTX t2 = PARENT_CTX t1"
      using out t3 by (auto simp: job_inner_def o1)
  qed
  have "(\<exists>js. ts = map (\<lambda>j. (None, j)) js) \<and> arc_strong t' = arc_strong t \<and> (quiet \<longrightarrow> poll_returned r \<longrightarrow> PARENT_CTX t' = 0)"
  proof (rule hook_ok_cases [OF assms(1)])
    assume "hook = None"
    then have "job_inner sv (Some None) j g t = ((r, j', g', ts), t')" using assms(3) by (simp add: job_poll_def)
    from inner [OF this] show ?thesis using assms(2) by simp
  next
    fix c assume hook: "hook = Some (child_hook c)"
    obtain r0 j0 g0 ts0 t2 where out: "job_inner sv (Some None) j g (set_parent_ctx c t) = ((r0, j0, g0, ts0), t2)"
      by (cases "job_inner sv (Some None) j g (set_parent_ctx c t)", cases "fst (job_inner sv (Some None) j g (set_parent_ctx c t))") auto
    have before: "invoke_before_poll (child_hook c) t = set_parent_ctx c t" "invoke_after_poll (child_hook c) t2 = reset_parent_ctx t2"
      by (simp_all add: invoke_before_poll_def invoke_after_poll_def call_hook_def hook_before_poll_def hook_after_poll_def)
    have "ts = ts0 \<and> r = r0 \<and> t' = (if poll_returned r0 then reset_parent_ctx t2 else t2)"
      using assms(3) unfolding job_poll_def hook option.case poll_hook_future_poll_def before out by (cases r0) (auto simp: before)
    then show ?thesis using inner [OF out] by simp
  qed
  then show "\<exists>js. ts = map (\<lambda>j. (None, j)) js" "arc_strong t' = arc_strong t" "quiet \<Longrightarrow> poll_returned r \<Longrightarrow> PARENT_CTX t' = 0" by blast+
qed

section \<open>Invariant of the machine\<close>

definition all_refs :: "('g, 'v, 's, 'b, 'h, 'j) machine \<Rightarrow> ctx_ptr \<Rightarrow> nat" where
  "all_refs m c = sum_list (map (\<lambda>tk. task_refs tk c) (mc_tasks m))"

definition machine_inv :: "bool \<Rightarrow> ('g, 'v, 's, 'b, 'h, 'j) machine \<Rightarrow> bool" where
  "machine_inv quiet m \<longleftrightarrow> (\<forall>tk\<in>set (mc_tasks m). task_ok tk) \<and> mc_strong m = all_refs m \<and> (quiet \<longrightarrow> (\<forall>k. mc_parent m k = 0))"

lemma sum_list_replace:
  fixes f :: "'a \<Rightarrow> nat"
  shows "i < length xs \<Longrightarrow> sum_list (map f (xs[i := y])) = sum_list (map f xs) - f (xs ! i) + f y"
  using sum_list_update [of i "map f xs" "f y"] elem_le_sum_list [of i "map f xs"] by (simp add: map_update)

lemma future_drop_thread:
  assumes "\<And>h j. f = JobBody h j \<Longrightarrow> hook_ok h"
  shows "PARENT_CTX (future_drop f t) = PARENT_CTX t" "arc_strong (future_drop f t) c = arc_strong t c - future_refs f c"
proof (atomize (full), cases f)
  case (RequestBody u)
  then show "PARENT_CTX (future_drop f t) = PARENT_CTX t \<and> arc_strong (future_drop f t) c = arc_strong t c - future_refs f c"
    by (cases "un_phase u") (auto simp: future_drop_def)
next
  case (JobBody h j)
  then show "PARENT_CTX (future_drop f t) = PARENT_CTX t \<and> arc_strong (future_drop f t) c = arc_strong t c - future_refs f c"
    using drop_hook_thread assms by (simp add: future_drop_def)
qed

lemma spawned_tasks_refs:
  "sum_list (map (\<lambda>tk. task_refs tk c) (map (\<lambda>(h, j). new_task (JobBody h j)) ts)) = spawned_refs ts c"
  by (induction ts) (auto simp: spawned_refs_def task_refs_def new_task_def)

lemma settle_inv:
  assumes inv: "machine_inv q m" and i: "i < length (mc_tasks m)"
    and header: "hook_ok header" "\<not> ended \<longrightarrow> body_ok header f" and job: "\<And>h j. f = JobBody h j \<Longrightarrow> hook_ok h"
    and spawned: "\<forall>x\<in>set ts. hook_ok (fst x)" and quiet: "quiet \<longrightarrow> q \<and> PARENT_CTX t = 0"
    and counts: "\<forall>c. arc_strong t c = (all_refs m c - task_refs (mc_tasks m ! i) c) + hook_refs header c + future_refs f c + spawned_refs ts c"
  shows "machine_inv quiet (settle_task k i ended header f t ts g m)"
proof -
  let ?tk = "\<lparr>tk_header = header, tk_future = (if ended then None else Some f)\<rparr>" and ?m = "settle_task k i ended header f t ts g m"
  have tasks: "mc_tasks ?m = (mc_tasks m)[i := ?tk] @ map (\<lambda>(h, j). new_task (JobBody h j)) ts"
    and strong: "mc_strong ?m = arc_strong (if ended then future_drop f t else t)"
    and parent: "mc_parent ?m = (mc_parent m)(k := PARENT_CTX (if ended then future_drop f t else t))"
    by (simp_all add: settle_task_def with_thread_def)
  have dropped: "PARENT_CTX (future_drop f t) = PARENT_CTX t" "arc_strong (future_drop f t) c = arc_strong t c - future_refs f c" for c
    by (rule future_drop_thread, erule job)+
  have "task_ok ?tk" using header by (auto simp: task_ok_def)
  moreover have "\<forall>tk\<in>set (map (\<lambda>(h, j). new_task (JobBody h j)) ts). task_ok tk" using spawned by (fastforce simp: task_ok_def new_task_def)
  ultimately have "\<forall>tk\<in>set (mc_tasks ?m). task_ok tk"
    using inv set_update_subset_insert [of "mc_tasks m" i ?tk] unfolding tasks set_append machine_inv_def by blast
  moreover have "mc_strong ?m c = all_refs ?m c" for c
  proof -
    have "all_refs ?m c = (all_refs m c - task_refs (mc_tasks m ! i) c) + task_refs ?tk c + spawned_refs ts c"
      unfolding all_refs_def tasks using i by (simp add: sum_list_replace spawned_tasks_refs [simplified])
    then show ?thesis using counts dropped(2) [of c] unfolding strong by (cases ended) (simp_all add: task_refs_def)
  qed
  moreover have "quiet \<longrightarrow> (\<forall>k. mc_parent ?m k = 0)"
    using inv quiet dropped(1) unfolding parent by (simp add: machine_inv_def)
  ultimately show ?thesis by (simp add: machine_inv_def fun_eq_iff)
qed

lemma machine_poll_inv:
  fixes m :: "('g, 'v, 's, 'b, 'h, 'j) machine"
  assumes inv: "machine_inv q m" and i: "i < length (mc_tasks m)" and f: "tk_future (mc_tasks m ! i) = Some f"
    and fresh: "fresh \<noteq> 0" "mc_strong m fresh = 0" and poll: "machine_poll ops S sv k i fresh m = (ok, m')"
  shows "machine_inv (q \<and> ok) m'" "\<exists>js. drop (length (mc_tasks m)) (mc_tasks m') =
      map (\<lambda>j. new_task (JobBody (inherited (sv_active sv) fresh (tk_header (mc_tasks m ! i)) f) j)) js"
    "tk_future (mc_tasks m' ! i) \<noteq> None \<Longrightarrow> tk_header (mc_tasks m' ! i) = inherited (sv_active sv) fresh (tk_header (mc_tasks m ! i)) f"
proof -
  let ?tk = "mc_tasks m ! i" and ?h = "inherited (sv_active sv) fresh (tk_header (mc_tasks m ! i)) f"
  let ?others = "\<lambda>c. all_refs m c - task_refs ?tk c"
  have ok: "hook_ok (tk_header ?tk)" "body_ok (tk_header ?tk) f" using inv i f by (auto simp: machine_inv_def task_ok_def)
  have le: "task_refs ?tk c \<le> all_refs m c" for c using elem_le_sum_list [of i "map (\<lambda>tk. task_refs tk c) (mc_tasks m)"] i by (simp add: all_refs_def)
  have refs: "task_refs ?tk c = hook_refs (tk_header ?tk) c + future_refs f c" for c by (simp add: task_refs_def f)
  have strong: "arc_strong (thread_of k m) c = ?others c + hook_refs (tk_header ?tk) c + future_refs f c" for c
    using inv le [of c] refs [of c] by (simp add: machine_inv_def thread_of_def)
  have quiet: "q \<longrightarrow> PARENT_CTX (thread_of k m) = 0" using inv by (simp add: machine_inv_def thread_of_def)
  have len: "drop (length (mc_tasks m)) (mc_tasks (settle_task k i e h b t (map (\<lambda>j. (?h, j)) js) g m)) = map (\<lambda>j. new_task (JobBody ?h j)) js" for e h b t js g
    by (simp add: settle_task_def)
  have kept: "tk_header (mc_tasks (settle_task k i e h b t ts g m) ! i) = h" "tk_future (mc_tasks (settle_task k i e h b t ts g m) ! i) \<noteq> None \<longleftrightarrow> \<not> e"
    for e h b t ts g using i by (simp_all add: settle_task_def nth_append)
  have "machine_inv (q \<and> ok) m' \<and> (\<exists>js. drop (length (mc_tasks m)) (mc_tasks m') = map (\<lambda>j. new_task (JobBody ?h j)) js) \<and>
      (tk_future (mc_tasks m' ! i) \<noteq> None \<longrightarrow> tk_header (mc_tasks m' ! i) = ?h)"
  proof (cases f)
    case (RequestBody u)
    let ?e = "\<lparr>pe_header = Some (tk_header ?tk), pe_thread = thread_of k m, pe_world = mc_world m, pe_spawned = []\<rparr>"
    obtain r u' e where u: "masa_unary_poll ops S sv fresh u ?e = (r, u', e)" by (metis prod_cases3)
    have "unary_post q ?others ?h r u' e"
      unfolding RequestBody by (rule masa_unary_post [OF ok(2) [unfolded RequestBody] _ _ _ _ fresh(1) _ u])
        (use strong quiet fresh(2) RequestBody in \<open>simp_all add: thread_of_def\<close>)
    then obtain h' js where post: "pe_header e = Some h'" "hook_ok h'" "\<not> poll_ended r \<longrightarrow> h' = ?h \<and> body_ok h' (RequestBody u' :: ('v, 's, 'b, 'h, 'j) future_body)"
      "pe_spawned e = map (\<lambda>j. (?h, j)) js" "q \<and> poll_returned r \<longrightarrow> PARENT_CTX (pe_thread e) = 0"
      "\<forall>c. arc_strong (pe_thread e) c = ?others c + hook_refs h' c + future_refs (RequestBody u' :: ('v, 's, 'b, 'h, 'j) future_body) c + spawned_refs (pe_spawned e) c"
      unfolding unary_post_def by blast
    have m': "ok = poll_returned r" "m' = settle_task k i (poll_ended r) h' (RequestBody u') (pe_thread e) (pe_spawned e) (pe_world e) m"
      using poll by (simp_all add: machine_poll_def f RequestBody u post(1))
    have "hook_ok ?h" using ok fresh(1) by (auto simp: inherited_def RequestBody split: unary_phase.splits)
    then have "machine_inv (q \<and> ok) m'"
      unfolding m' by (intro settle_inv [OF inv i post(2)]) (use post in auto)
    then show ?thesis using len [of "poll_ended r" h'] kept [of "poll_ended r" h'] post(3) unfolding m'(2) post(4) by blast
  next
    case (JobBody hook j)
    obtain r j' g ts t where u: "job_poll sv hook (Some None) j (mc_world m) (thread_of k m) = ((r, j', g, ts), t)"
      by (cases "job_poll sv hook (Some None) j (mc_world m) (thread_of k m)", cases "fst (job_poll sv hook (Some None) j (mc_world m) (thread_of k m))") auto
    have h: "tk_header ?tk = None" "hook_ok hook" "?h = None" using ok(2) by (simp_all add: JobBody inherited_def)
    note post = job_poll_post [OF h(2) quiet u]
    obtain js where js: "ts = map (\<lambda>j. (?h, j)) js" using post(1) h(3) by auto
    have m': "ok = poll_returned r" "m' = settle_task k i (poll_ended r) None (JobBody hook j') t ts g m"
      using poll by (simp_all add: machine_poll_def f JobBody u h(1))
    have "spawned_refs ts c = 0" for c unfolding js h(3) by (induction js) (simp_all add: spawned_refs_def)
    then have "machine_inv (q \<and> ok) m'"
      unfolding m' by (intro settle_inv [OF inv i]) (use post(2,3) strong h js in \<open>auto simp: JobBody\<close>)
    then show ?thesis using len kept h(3) unfolding m'(2) js by metis
  qed
  then show "machine_inv (q \<and> ok) m'" "\<exists>js. drop (length (mc_tasks m)) (mc_tasks m') = map (\<lambda>j. new_task (JobBody ?h j)) js"
    "tk_future (mc_tasks m' ! i) \<noteq> None \<Longrightarrow> tk_header (mc_tasks m' ! i) = ?h" by blast+
qed

lemma replace_task_inv:
  assumes "machine_inv q m" "i < length (mc_tasks m)" "task_ok tk" "PARENT_CTX t = mc_parent m k"
    and "\<And>c. arc_strong t c + task_refs (mc_tasks m ! i) c = mc_strong m c + task_refs tk c"
  shows "machine_inv q ((with_thread k t m)\<lparr>mc_tasks := (mc_tasks m)[i := tk]\<rparr>)"
proof -
  have "arc_strong t c = sum_list (map (\<lambda>tk. task_refs tk c) ((mc_tasks m)[i := tk]))" for c
    using assms(1,2) assms(5) [of c] elem_le_sum_list [of i "map (\<lambda>tk. task_refs tk c) (mc_tasks m)"]
    by (simp add: sum_list_replace machine_inv_def all_refs_def)
  moreover have "\<forall>tk\<in>set ((mc_tasks m)[i := tk]). task_ok tk"
    using assms(1,3) set_update_subset_insert [of "mc_tasks m" i tk] unfolding machine_inv_def by blast
  ultimately show ?thesis using assms(1,4) by (simp add: machine_inv_def with_thread_def all_refs_def fun_eq_iff)
qed

lemma task_refs_le: "machine_inv q m \<Longrightarrow> i < length (mc_tasks m) \<Longrightarrow> task_refs (mc_tasks m ! i) c \<le> mc_strong m c"
  using elem_le_sum_list [of i "map (\<lambda>tk. task_refs tk c) (mc_tasks m)"] by (simp add: machine_inv_def all_refs_def)

lemma machine_step_inv:
  assumes "machine_step ops S sv ok m m'" "machine_inv q m"
  shows "machine_inv (q \<and> ok) m'"
  using assms
proof (induction rule: machine_step.induct)
  case (accept u b m)
  then show ?case by (auto simp: machine_inv_def all_refs_def task_refs_def new_task_def task_ok_def fun_eq_iff)
next
  case (background m j)
  then show ?case by (auto simp: machine_inv_def all_refs_def task_refs_def new_task_def task_ok_def fun_eq_iff)
next
  case (poll i m f fresh k ok m')
  then show ?case by (intro machine_poll_inv(1))
next
  case (cancel i m f k)
  have ok: "task_ok (mc_tasks m ! i)" using cancel by (simp add: machine_inv_def)
  then have job: "f = JobBody h j \<Longrightarrow> hook_ok h" for h j using cancel(2) by (simp add: task_ok_def)
  have "future_refs f c \<le> mc_strong m c" for c using task_refs_le [OF cancel(3,1), of c] cancel(2) by (simp add: task_refs_def)
  then show ?case using cancel ok future_drop_thread [of f, OF job]
    by (simp only: simp_thms) (rule replace_task_inv; simp add: thread_of_def task_refs_def task_ok_def)
next
  case (release i m k)
  have ok: "hook_ok (tk_header (mc_tasks m ! i))" using release by (simp add: machine_inv_def task_ok_def)
  have "hook_refs (tk_header (mc_tasks m ! i)) c \<le> mc_strong m c" for c using task_refs_le [OF release(3,1), of c] by (simp add: task_refs_def)
  then show ?case using release drop_hook_thread [OF ok]
    by (simp only: simp_thms) (rule replace_task_inv; simp add: thread_of_def task_refs_def task_ok_def)
qed

lemma reached_inv: "reached ops S sv calm m \<Longrightarrow> machine_inv calm m"
proof (induction rule: reached.induct)
  case (start g)
  show ?case by (simp add: machine_inv_def machine_new_def all_refs_def fun_eq_iff)
next
  case (step calm m ok m')
  then show ?case by (intro machine_step_inv)
qed

lemma reached_body:
  assumes "reached ops S sv calm m" "i < length (mc_tasks m)" "tk_future (mc_tasks m ! i) = Some f"
  shows "body_ok (tk_header (mc_tasks m ! i)) f"
  using reached_inv [OF assms(1)] nth_mem [OF assms(2)] assms(3) by (simp add: machine_inv_def task_ok_def)

section \<open>The visible context\<close>

text \<open>The same code with a context passed to it, whatever the thread shows.\<close>

definition with_ctx :: "ctx_ptr option \<Rightarrow> ('g, 'v, 's, 'p, 'b, 'q, 'h, 'j) service \<Rightarrow> ('g, 'v, 's, 'p, 'b, 'q, 'h, 'j) service" where
  "with_ctx c sv = sv\<lparr>sv_handler := (\<lambda>_. sv_handler sv c), sv_job := (\<lambda>_. sv_job sv c)\<rparr>"

definition task_ctx :: "ctx_ptr \<Rightarrow> ('v, 's, 'b, 'h, 'j) future_body \<Rightarrow> ctx_ptr option" where
  "task_ctx fresh f =
     (case f of
        RequestBody u \<Rightarrow> Some (case un_phase u of UnaryStart _ \<Rightarrow> fresh | _ \<Rightarrow> un_ctx u)
      | JobBody h j \<Rightarrow> map_option ph_ctx h)"

lemma with_ctx_simps [simp]: "sv_active (with_ctx c sv) = sv_active sv" "sv_decode (with_ctx c sv) = sv_decode sv" "sv_call (with_ctx c sv) = sv_call sv"
  by (simp_all add: with_ctx_def)

lemma unary_handle_ctx:
  assumes "un_ctx u \<noteq> 0"
  shows "unary_handle_poll ops S (with_ctx (Some (un_ctx u)) sv) h u e = unary_handle_poll ops S sv h u e"
proof -
  obtain o1 h1 st1 e1 where pre: "unary_before_poll S (un_ctx u) (h, un_state u, e) = (o1, h1, st1, e1)" by (metis prod_cases4)
  have "unary_inner (with_ctx (Some (un_ctx u)) sv) (h1, st1, e1) = unary_inner sv (h1, st1, e1)" if "o1 = None"
  proof -
    have "PARENT_CTX (pe_thread e1) = un_ctx u" using pre that by (auto simp: unary_before_poll_def split: prod.splits sum.splits)
    with assms show ?thesis by (simp add: unary_inner_def with_ctx_def get_parent_ctx_def)
  qed
  then have "abortable_poll (Some (unary_before_poll S (un_ctx u))) (unary_inner (with_ctx (Some (un_ctx u)) sv)) (Some (unary_after_poll S)) (h, un_state u, e)
      = abortable_poll (Some (unary_before_poll S (un_ctx u))) (unary_inner sv) (Some (unary_after_poll S)) (h, un_state u, e)"
    by (cases o1) (simp_all add: abortable_poll_def pre)
  then show ?thesis by (simp add: unary_handle_poll_def)
qed

lemma unary_decode_ctx:
  "un_ctx u \<noteq> 0 \<Longrightarrow> unary_decode_poll ops S (with_ctx (Some (un_ctx u)) sv) b u e = unary_decode_poll ops S sv b u e"
  by (simp add: unary_decode_poll_def unary_handle_ctx split: prod.split poll.split sum.split)

lemma unary_start_ctx: "unary_start active fresh u e = Done (u1, e1) \<Longrightarrow> un_ctx u1 = fresh"
  by (auto simp: unary_start_def Let_def exec_simps case_prod_beta split: if_splits)

lemma masa_unary_ctx:
  assumes "body_ok header (RequestBody u)" "fresh \<noteq> 0"
  shows "masa_unary_poll ops S (with_ctx (task_ctx fresh (RequestBody u)) sv) fresh u e = masa_unary_poll ops S sv fresh u e"
proof (cases "un_phase u")
  case (UnaryStart b)
  then show ?thesis using unary_start_ctx [of "sv_active sv" fresh u e] unary_decode_ctx assms(2)
    by (cases "unary_start (sv_active sv) fresh u e") (auto simp: masa_unary_poll_def task_ctx_def)
qed (use assms in \<open>auto simp: masa_unary_poll_def task_ctx_def unary_decode_ctx unary_handle_ctx\<close>)

lemma job_poll_ctx:
  assumes "hook_ok hook" "PARENT_CTX t = 0"
  shows "job_poll (with_ctx (map_option ph_ctx hook) sv) hook header j g t = job_poll sv hook header j g t"
proof (rule hook_ok_cases [OF assms(1)])
  assume "hook = None"
  with assms(2) show ?thesis by (simp add: job_poll_def job_inner_def with_ctx_def get_parent_ctx_def)
next
  fix c assume c: "hook = Some (child_hook c)" "c \<noteq> 0"
  have "PARENT_CTX (invoke_before_poll (child_hook c) t) = c" by (simp add: invoke_before_poll_def call_hook_def hook_before_poll_def)
  with c show ?thesis by (simp add: job_poll_def poll_hook_future_poll_def job_inner_def with_ctx_def get_parent_ctx_def)
qed

text \<open>
  A running request keeps the hook in its header from its first poll to its end, and a spawned task
  keeps the hook it was spawned with.
\<close>

definition hooked :: "('v, 's, 'b, 'h, 'j) task \<Rightarrow> bool" where
  "hooked tk \<longleftrightarrow> (\<forall>u. tk_future tk = Some (RequestBody u) \<and> holds_ctx (un_phase u) \<longrightarrow> tk_header tk \<noteq> None)"

definition job_of :: "poll_hook option \<Rightarrow> ('v, 's, 'b, 'h, 'j) task \<Rightarrow> bool" where
  "job_of h tk \<longleftrightarrow> (\<forall>f. tk_future tk = Some f \<longrightarrow> (\<exists>j. f = JobBody h j))"

lemma machine_poll_tasks:
  assumes "tk_future (mc_tasks m ! i) = Some f"
  shows "\<exists>tk ts. mc_tasks (snd (machine_poll ops S sv k i fresh m)) = (mc_tasks m)[i := tk] @ ts \<and>
    (\<forall>h j. f = JobBody h j \<longrightarrow> job_of h tk)"
proof (cases f)
  case (RequestBody u)
  then show ?thesis using assms by (auto simp: machine_poll_def settle_task_def Let_def case_prod_beta)
next
  case (JobBody h j)
  obtain r j' g ts t where "job_poll sv h (Some (tk_header (mc_tasks m ! i))) j (mc_world m) (thread_of k m) = ((r, j', g, ts), t)"
    by (metis prod_cases4 surj_pair)
  then show ?thesis using assms JobBody by (auto simp: machine_poll_def settle_task_def job_of_def intro!: exI)
qed

lemma job_of_step:
  assumes "machine_step ops S sv ok m m'" "n < length (mc_tasks m)" "job_of h (mc_tasks m ! n)"
  shows "n < length (mc_tasks m') \<and> job_of h (mc_tasks m' ! n)"
  using assms
proof (induction rule: machine_step.induct)
  case (poll i m f fresh k ok m')
  obtain tk ts where t: "mc_tasks m' = (mc_tasks m)[i := tk] @ ts" "\<forall>h j. f = JobBody h j \<longrightarrow> job_of h tk"
    using machine_poll_tasks [OF poll(2), of ops S sv k fresh] poll(5) by auto
  show ?case using poll(1,2,6,7) t by (cases "n = i") (auto simp: nth_append job_of_def)
qed (auto simp: nth_append nth_list_update job_of_def)

lemma job_of_steps:
  "(machine_step ops S sv True)\<^sup>*\<^sup>* m m' \<Longrightarrow> n < length (mc_tasks m) \<Longrightarrow> job_of h (mc_tasks m ! n) \<Longrightarrow> job_of h (mc_tasks m' ! n) \<and> n < length (mc_tasks m')"
  by (induction rule: rtranclp_induct) (auto dest: job_of_step)

lemma reached_steps: "(machine_step ops S sv True)\<^sup>*\<^sup>* m m' \<Longrightarrow> reached ops S sv True m \<Longrightarrow> reached ops S sv True m'"
proof (induction rule: rtranclp_induct)
  case (step a b)
  from reached.step [OF step.IH [OF step.prems] step.hyps(2)] show ?case by simp
qed

lemma hooked_step:
  assumes "machine_step ops S sv ok m m'" "machine_inv q m" "sv_active sv" "\<forall>tk\<in>set (mc_tasks m). hooked tk"
  shows "\<forall>tk\<in>set (mc_tasks m'). hooked tk"
  using assms
proof (induction rule: machine_step.induct)
  case (poll i m f fresh k ok m')
  note post = machine_poll_inv [OF poll(6,1,2,3,4,5)]
  obtain tk ts where t: "mc_tasks m' = (mc_tasks m)[i := tk] @ ts" using machine_poll_tasks [OF poll(2), of ops S sv k fresh] poll(5) by auto
  obtain js where "ts = map (\<lambda>j. new_task (JobBody (inherited (sv_active sv) fresh (tk_header (mc_tasks m ! i)) f) j)) js"
    using post(2) t by auto
  then have ts: "\<forall>x\<in>set ts. hooked x" by (auto simp: hooked_def new_task_def)
  have tk: "mc_tasks m' ! i = tk" using poll(1) t by (simp add: nth_append)
  have job: "\<nexists>u. tk_future tk = Some (RequestBody u)" if f: "f = JobBody h j" for h j
  proof -
    obtain tk2 ts2 where "mc_tasks m' = (mc_tasks m)[i := tk2] @ ts2" "job_of h tk2"
      using machine_poll_tasks [OF poll(2), of ops S sv k fresh] poll(5) f by auto
    then show ?thesis using tk poll(1) by (auto simp: nth_append job_of_def)
  qed
  have "hooked (mc_tasks m ! i)" "task_ok (mc_tasks m ! i)" using poll(1,6,8) by (auto simp: machine_inv_def)
  then have "inherited (sv_active sv) fresh (tk_header (mc_tasks m ! i)) f \<noteq> None" if "f = RequestBody u" for u
    using that poll(2,7) by (cases "un_phase u") (auto simp: inherited_def hooked_def task_ok_def)
  then have "hooked tk" using post(3) job unfolding tk by (cases f) (auto simp: hooked_def)
  then show ?case using poll(8) ts set_update_subset_insert [of "mc_tasks m" i tk] unfolding t set_append by blast
next
  case (cancel i m f k)
  then show ?case using set_update_subset_insert by (fastforce simp: hooked_def with_thread_def)
next
  case (release i m k)
  then show ?case using set_update_subset_insert by (fastforce simp: hooked_def with_thread_def)
qed (auto simp: hooked_def new_task_def)

lemma reached_hooked: "reached ops S sv calm m \<Longrightarrow> sv_active sv \<Longrightarrow> \<forall>tk\<in>set (mc_tasks m). hooked tk"
proof (induction rule: reached.induct)
  case (step calm m ok m')
  then show ?case using hooked_step [OF step.hyps(2) reached_inv [OF step.hyps(1)]] by blast
qed (simp add: machine_new_def)

lemma job_seen_ctx:
  assumes "reached ops S sv True m" "n < length (mc_tasks m)" "tk_future (mc_tasks m ! n) = Some (JobBody h j)"
  shows "machine_poll ops S sv k n fresh m = machine_poll ops S (with_ctx (map_option ph_ctx h) sv) k n fresh m"
proof -
  note inv = reached_inv [OF assms(1)]
  have "PARENT_CTX (thread_of k m) = 0" using inv by (simp add: machine_inv_def thread_of_def)
  moreover have "hook_ok h" using reached_body [OF assms] by simp
  ultimately show ?thesis by (simp add: machine_poll_def assms(3) job_poll_ctx)
qed

text \<open>What a task that begins with the hook \<open>h\<close> sees at every later poll.\<close>

lemma later_job_ctx:
  assumes "reached ops S sv True m" "n < length (mc_tasks m)" "job_of h (mc_tasks m ! n)"
    and "(machine_step ops S sv True)\<^sup>*\<^sup>* m m'" "tk_future (mc_tasks m' ! n) = Some f"
  shows "machine_poll ops S sv k n fresh m' = machine_poll ops S (with_ctx (map_option ph_ctx h) sv) k n fresh m'"
proof -
  from job_of_steps [OF assms(4,2,3)] assms(5) obtain j where "n < length (mc_tasks m')" "f = JobBody h j" by (auto simp: job_of_def)
  with job_seen_ctx [OF reached_steps [OF assms(4,1)]] assms(5) show ?thesis by blast
qed

lemma request_hook:
  fixes m :: "('g, 'v, 's, 'b, 'h, 'j) machine"
  assumes "reached ops S sv calm m" "sv_active sv" "i < length (mc_tasks m)" "tk_future (mc_tasks m ! i) = Some (RequestBody u)"
  shows "inherited True fresh (tk_header (mc_tasks m ! i)) (RequestBody u :: ('v, 's, 'b, 'h, 'j) future_body)
    = map_option child_hook (task_ctx fresh (RequestBody u :: ('v, 's, 'b, 'h, 'j) future_body))"
proof -
  have "body_ok (tk_header (mc_tasks m ! i)) (RequestBody u)" "hooked (mc_tasks m ! i)"
    using reached_body [OF assms(1,3,4)] reached_hooked [OF assms(1,2)] assms(3) by simp_all
  then show ?thesis using assms(4) by (cases "un_phase u") (auto simp: inherited_def task_ctx_def hooked_def)
qed

text \<open>
  Claim C8. In an active runtime and while nothing panics, code sees the context it runs for and no
  other, whatever the threads interleave. Let a request be polled, and \<open>c\<close> be its context,
  the one allocated at its first poll. The poll is the one with \<open>c\<close> passed explicitly, and if the request
  goes on it still has \<open>c\<close>. Every task that this poll spawns sees \<open>c\<close> at every poll of it, in every
  state that is reached later, until it ends. A task that is started outside any request sees none,
  then and later. Between polls no thread shows a context.
\<close>

theorem context_is_lexical:
  fixes m :: "('g, 'v, 's, 'b, 'h, 'j) machine"
  assumes "reached ops S sv True m" "sv_active sv" "i < length (mc_tasks m)" "tk_future (mc_tasks m ! i) = Some (RequestBody u)"
    and "fresh \<noteq> 0" "mc_strong m fresh = 0" "machine_poll ops S sv k i fresh m = (True, m')"
    and "c = (case un_phase u of UnaryStart _ \<Rightarrow> fresh | _ \<Rightarrow> un_ctx u)"
  shows "machine_poll ops S (with_ctx (Some c) sv) k i fresh m = (True, m') \<and>
    (\<forall>u'. tk_future (mc_tasks m' ! i) = Some (RequestBody u') \<longrightarrow> holds_ctx (un_phase u') \<and> un_ctx u' = c) \<and>
    (\<forall>n m'' f k' fresh'. length (mc_tasks m) \<le> n \<and> n < length (mc_tasks m') \<and> (machine_step ops S sv True)\<^sup>*\<^sup>* m' m'' \<and>
       tk_future (mc_tasks m'' ! n) = Some f \<longrightarrow>
       machine_poll ops S sv k' n fresh' m'' = machine_poll ops S (with_ctx (Some c) sv) k' n fresh' m'') \<and>
    (\<forall>j m'' f k' fresh'. (machine_step ops S sv True)\<^sup>*\<^sup>* (m\<lparr>mc_tasks := mc_tasks m @ [new_task (JobBody None j)]\<rparr>) m'' \<and>
       tk_future (mc_tasks m'' ! length (mc_tasks m)) = Some f \<longrightarrow>
       machine_poll ops S sv k' (length (mc_tasks m)) fresh' m'' = machine_poll ops S (with_ctx None sv) k' (length (mc_tasks m)) fresh' m'') \<and>
    (\<forall>k. mc_parent m k = 0)"
proof (intro conjI allI impI; (elim conjE)?)
  let ?f = "RequestBody u :: ('v, 's, 'b, 'h, 'j) future_body"
  note inv = reached_inv [OF assms(1)] and post = machine_poll_inv [OF reached_inv [OF assms(1)] assms(3-7)]
  have c: "task_ctx fresh ?f = Some c" by (simp add: task_ctx_def assms(8))
  have body: "body_ok (tk_header (mc_tasks m ! i)) ?f" by (rule reached_body [OF assms(1,3,4)])
  have nxt: "reached ops S sv True m'" using reached.step [OF assms(1) machine_step.poll [OF assms(3-7)]] by simp
  have hook: "inherited (sv_active sv) fresh (tk_header (mc_tasks m ! i)) ?f = Some (child_hook c)"
    using request_hook [OF assms(1-4), of fresh] by (simp add: c assms(2))
  show "machine_poll ops S (with_ctx (Some c) sv) k i fresh m = (True, m')"
    using assms(4,7) by (simp add: machine_poll_def masa_unary_ctx [OF body assms(5), unfolded task_ctx_def future_body.case, folded assms(8)])
  show "mc_parent m k = 0" for k using inv by (simp add: machine_inv_def)
  show "holds_ctx (un_phase u')" "un_ctx u' = c" if u': "tk_future (mc_tasks m' ! i) = Some (RequestBody u')" for u'
  proof -
    have "i < length (mc_tasks m')" using machine_poll_tasks [OF assms(4), of ops S sv k fresh] assms(3,7) by auto
    with nxt u' have "body_ok (tk_header (mc_tasks m' ! i)) (RequestBody u' :: ('v, 's, 'b, 'h, 'j) future_body)" by (intro reached_body)
    then show "holds_ctx (un_phase u')" "un_ctx u' = c" using post(3) u' hook
      by (cases "un_phase u'"; auto simp: child_hook_def)+
  qed
  show "machine_poll ops S sv k' n fresh' m'' = machine_poll ops S (with_ctx (Some c) sv) k' n fresh' m''"
    if n: "length (mc_tasks m) \<le> n" "n < length (mc_tasks m')" and later: "(machine_step ops S sv True)\<^sup>*\<^sup>* m' m''" "tk_future (mc_tasks m'' ! n) = Some f"
    for n m'' f k' fresh'
  proof -
    obtain js where js: "drop (length (mc_tasks m)) (mc_tasks m') = map (\<lambda>j. new_task (JobBody (Some (child_hook c)) j)) js"
      using post(2) hook by auto
    have len: "length (mc_tasks m') - length (mc_tasks m) = length js" using arg_cong [OF js, of length] by simp
    have "mc_tasks m' ! n = drop (length (mc_tasks m)) (mc_tasks m') ! (n - length (mc_tasks m))" using n by simp
    then have "job_of (Some (child_hook c)) (mc_tasks m' ! n)" using n len unfolding js by (simp add: job_of_def new_task_def)
    from later_job_ctx [OF nxt n(2) this later, of k' fresh'] show ?thesis by simp
  qed
  show "machine_poll ops S sv k' (length (mc_tasks m)) fresh' m'' = machine_poll ops S (with_ctx None sv) k' (length (mc_tasks m)) fresh' m''"
    if later: "(machine_step ops S sv True)\<^sup>*\<^sup>* (m\<lparr>mc_tasks := mc_tasks m @ [new_task (JobBody None j)]\<rparr>) m''"
      "tk_future (mc_tasks m'' ! length (mc_tasks m)) = Some f" for j m'' f k' fresh'
    using later_job_ctx [OF reached.step [OF assms(1) machine_step.background, simplified] _ _ later, of None k' fresh']
    by (simp add: job_of_def new_task_def)
qed

text \<open>The tasks spawned by a spawned task have no hook, hence no context.\<close>

lemma nested_spawn_inherits_nothing:
  assumes "reached ops S sv calm m" "i < length (mc_tasks m)" "tk_future (mc_tasks m ! i) = Some (JobBody h j)" "fresh \<noteq> 0" "mc_strong m fresh = 0"
    and "machine_poll ops S sv k i fresh m = (ok, m')" "tk \<in> set (drop (length (mc_tasks m)) (mc_tasks m'))"
  shows "\<exists>j. tk = new_task (JobBody None j)"
proof -
  have "tk_header (mc_tasks m ! i) = None" using reached_body [OF assms(1-3)] by simp
  then show ?thesis using machine_poll_inv(2) [OF reached_inv [OF assms(1)] assms(2-6)] assms(7) by (auto simp: inherited_def)
qed

definition ex_service :: "(unit, unit, string, unit, unit, unit, unit, bool) service" where
  "ex_service = \<lparr>sv_active = True, sv_decode = (\<lambda>b. (PollReady (Inr ()), b)), sv_call = (\<lambda>q. q),
     sv_handler = (\<lambda>c h st g. (Returned PollPending, h, st, g, [True])),
     sv_job = (\<lambda>c j g. (if j \<and> c \<noteq> None then Unwound else Returned PollPending, j, g, [False]))\<rparr>"

definition ex_start :: "(unit, string, unit, unit) unary" where
  "ex_start = \<lparr>un_ctx = 0, un_state = \<lparr>rs_ext = ext_new, rs_ended_by = None\<rparr>, un_phase = UnaryStart ()\<rparr>"

definition ex_machine :: "(unit, unit, string, unit, unit, bool) machine" where
  "ex_machine = (machine_new ())\<lparr>mc_tasks := [new_task (RequestBody ex_start)]\<rparr>"

lemma ex_machine_reached: "reached ex_tonic [] ex_service True ex_machine"
proof -
  have "un_phase ex_start = UnaryStart ()" by (simp add: ex_start_def)
  from reached.step [OF reached.start machine_step.accept [OF this], of ex_tonic "[]" ex_service "()"]
  show ?thesis by (simp add: ex_machine_def machine_new_def)
qed

lemma ex_machine_polled:
  "\<exists>m'. machine_poll ex_tonic [] ex_service 0 0 1 ex_machine = (True, m') \<and> length (mc_tasks m') = 2 \<and>
    tk_future (mc_tasks m' ! 1) = Some (JobBody (Some (child_hook 1)) True)"
  by (simp add: machine_poll_def ex_machine_def new_task_def machine_new_def ex_start_def ex_service_def masa_unary_poll_def unary_start_def
      make_child_task_poll_hook_eq configure_child_task_poll_hook_def set_poll_hook_def unary_decode_poll_def unary_handle_poll_def
      abortable_poll_def unary_before_poll_def unary_inner_def unary_after_poll_def parent_before_poll_def parent_after_poll_def
      spawn_with_meta_hook_def maybe_clone_poll_hook_def poll_hook_clone_def settle_task_def with_thread_def Let_def exec_simps)

theorem context_is_lexical_witness:
  "\<exists>m'. machine_poll ex_tonic [] (with_ctx (Some 1) ex_service) 0 0 1 ex_machine = (True, m') \<and>
    machine_poll ex_tonic [] ex_service 0 1 2 m' = machine_poll ex_tonic [] (with_ctx (Some 1) ex_service) 0 1 2 m'"
proof -
  have ex: "sv_active ex_service" "tk_future (mc_tasks ex_machine ! 0) = Some (RequestBody ex_start)" "0 < length (mc_tasks ex_machine)"
    "mc_strong ex_machine 1 = 0" "1 = (case un_phase ex_start of UnaryStart _ \<Rightarrow> 1 | _ \<Rightarrow> un_ctx ex_start)" "length (mc_tasks ex_machine) = 1"
    by (simp_all add: ex_machine_def new_task_def machine_new_def ex_service_def ex_start_def)
  obtain m' where m': "machine_poll ex_tonic [] ex_service 0 0 1 ex_machine = (True, m')" "length (mc_tasks m') = 2"
    "tk_future (mc_tasks m' ! 1) = Some (JobBody (Some (child_hook 1)) True)" using ex_machine_polled by blast
  note claim = context_is_lexical [OF ex_machine_reached ex(1,3,2) _ ex(4) m'(1) ex(5)]
  have "machine_poll ex_tonic [] ex_service 0 1 2 m' = machine_poll ex_tonic [] (with_ctx (Some 1) ex_service) 0 1 2 m'"
    using claim ex(6) m'(2,3) by auto
  then show ?thesis using claim by auto
qed

text \<open>
  Claim C9. Contexts are released exactly when they are out of reach, even when polls panic or
  futures are dropped early: the strong count of a context is the number of requests, task
  headers and spawned tasks that refer to it. So the context a task would see is alive, and one
  that no task refers to has been freed.
\<close>

theorem context_counts_references:
  assumes "reached ops S sv calm m"
  shows "mc_strong m c = (\<Sum>tk\<leftarrow>mc_tasks m. task_refs tk c) \<and>
    (\<forall>tk\<in>set (mc_tasks m). \<forall>f. tk_future tk = Some f \<and> future_refs f c \<noteq> 0 \<longrightarrow> 0 < mc_strong m c) \<and>
    ((\<forall>tk\<in>set (mc_tasks m). tk_future tk = None \<and> tk_header tk = None) \<longrightarrow> mc_strong m c = 0)"
proof -
  have strong: "mc_strong m c = (\<Sum>tk\<leftarrow>mc_tasks m. task_refs tk c)" using reached_inv [OF assms] by (simp add: machine_inv_def all_refs_def)
  have "0 < mc_strong m c" if tk: "tk \<in> set (mc_tasks m)" and f: "tk_future tk = Some f" "future_refs f c \<noteq> 0" for tk f
  proof -
    have "task_refs tk c \<le> mc_strong m c" unfolding strong using tk by (intro member_le_sum_list) simp_all
    with f show ?thesis by (simp add: task_refs_def)
  qed
  moreover have "mc_strong m c = 0" if "\<forall>tk\<in>set (mc_tasks m). tk_future tk = None \<and> tk_header tk = None"
    unfolding strong using that by (simp add: task_refs_def)
  ultimately show ?thesis using strong by blast
qed

theorem context_counts_references_witness: "mc_strong ex_machine 1 = 0"
  using context_counts_references [OF ex_machine_reached, of 1] by (simp add: ex_machine_def task_refs_def new_task_def ex_start_def)

text \<open>
  A panic leaves the context of the panicking code on the thread: nothing resets it, and what is
  polled there next without a hook of its own sees it.
\<close>

lemma panic_leaves_context_of_job:
  assumes "c \<noteq> 0" "sv_job sv (Some c) j g = (Unwound, j', g', [])"
  shows "get_parent_ctx (snd (job_poll sv (Some (child_hook c)) header j g t)) = Some c"
  using assms by (simp add: job_poll_def poll_hook_future_poll_def job_inner_def invoke_before_poll_def call_hook_def hook_before_poll_def get_parent_ctx_def)

lemma panic_leaves_context_of_request:
  assumes "un_ctx u \<noteq> 0" "parent_before_poll S (un_state u) (pe_world e) = (Inr x, st, g)"
    and "sv_handler sv (Some (un_ctx u)) h st g = (Unwound, h', st', g', [])"
  shows "get_parent_ctx (pe_thread (snd (snd (unary_handle_poll ops S sv h u e)))) = Some (un_ctx u)"
  using assms by (simp add: unary_handle_poll_def abortable_poll_def unary_before_poll_def unary_inner_def get_parent_ctx_def Let_def)

section \<open>The generated client\<close>

text \<open>
  A unary call of a generated client, up to the transport and from its answer on. \<open>ready\<close> is
  whether the channel became ready, and \<open>parent\<close> the state of the request whose context is visible.
\<close>

definition client_send :: "('m, 'r, 's, 'p) tonic_ops \<Rightarrow> ('g, 'v, 'r, 's, 'p) module list \<Rightarrow> 's + unit \<Rightarrow> grpc_method \<Rightarrow>
    ('v, 's) request_state option \<Rightarrow> 'r \<Rightarrow> 'g \<Rightarrow>
    (('s + unit) \<times> ('v, 's) request_state option \<times> 'v child_context \<times> 'r \<times> 'g) exec" where
  "client_send ops S ready method parent req g =
     (let child_ctx = child_context_new ops method req in
      case ready of
        Inl status \<Rightarrow> Done (Inl status, parent, child_ctx, req, g)
      | Inr _ \<Rightarrow>
          bind_exec
            (case parent of
               Some st \<Rightarrow>
                 map_exec (\<lambda>(r, call). (r, Some (call_state call), call_context call, call_request call, call_world call))
                   (parent_before_child_rpc ops S method \<lparr>call_request = req, call_context = child_ctx, call_state = st, call_world = g\<rparr>)
             | None \<Rightarrow> Done (Inr (), None, child_ctx, req, g))
            (\<lambda>(r, parent', cc, req', g'). case r of
                Inl status \<Rightarrow> Done (Inl status, parent', cc, req', g')
              | Inr _ \<Rightarrow> map_exec (\<lambda>(r', cc', req'', g''). (r', parent', cc', req'', g'')) (try_before_send ops S cc req' g')))"

definition client_recv :: "('m, 'r, 's, 'p) tonic_ops \<Rightarrow> ('g, 'v, 'r, 's, 'p) module list \<Rightarrow> ('v, 's) request_state option \<Rightarrow>
    'v child_context \<Rightarrow> 's + 'p \<Rightarrow> 'g \<Rightarrow> (('s + 'p) \<times> 'g) exec" where
  "client_recv ops S parent child_ctx resp g =
     (case after_recv ops S child_ctx resp g of (cc, resp', g1) \<Rightarrow>
        (case parent of
           Some st \<Rightarrow>
             map_exec (\<lambda>(r, g2). (case r of Inl status \<Rightarrow> Inl status | Inr _ \<Rightarrow> resp', g2)) (parent_after_child_rpc ops S resp' cc st g1)
         | None \<Rightarrow> Done (resp', g1)))"

lemma before_child_context:
  assumes "parent_before_child_rpc ops S method call = Done (r, call')"
  shows "cc_root_sent (call_context call') = cc_root_sent (call_context call)" "r = Inr x \<Longrightarrow> cc_method_name (call_context call') \<noteq> None"
  using assms
  by (auto simp: parent_before_child_rpc_def Let_def set_method_name_def call_update_def map_exec_Done split: prod.splits sum.splits)

lemma try_before_send_events:
  assumes "try_before_send ops (map logged ms) cc req g = Done (r, cc', req', g')" "cc_method_name cc = None" "\<not> cc_root_sent cc"
  shows "\<exists>events. snd g' = snd g @ events \<and> (case r of Inl _ \<Rightarrow> closed events = rev (opened events)
    | Inr _ \<Rightarrow> opened events = map m_NAME ms \<and> closed events = [] \<and> cc_root_sent cc')"
proof (cases "wo_from_metadata (t_md ops) (t_req_get ops req)")
  case (Inl err)
  then show ?thesis using assms by (auto simp: try_before_send_def)
next
  case (Inr wire)
  let ?rx = "\<lparr>rx_request = req, rx_wire = wire, rx_state = cc_state cc, rx_world = g\<rparr>"
  obtain r1 rx1 where b: "stack_before_root_rpc (map logged ms) (cc_root_method cc) ?rx = (r1, rx1)" by fastforce
  from lg.before_root_stack [OF b] obtain events where ev: "snd (rx_world rx1) = snd g @ events"
    "case r1 of Inr _ \<Rightarrow> events = lg.befores ms | Inl rej \<Rightarrow> \<exists>pre m post. lg.rejected_at ms pre m post rej events" by auto
  show ?thesis
  proof (cases r1)
    case (Inl rej)
    with ev(2) have "closed events = rev (opened events)" using rejected_names by auto
    then show ?thesis using assms Inr b Inl ev(1) by (auto simp: try_before_send_def)
  next
    case ok: (Inr u)
    then have "r = Inr ()" "g' = rx_world rx1" "cc_root_sent cc'"
      using assms Inr b by (auto simp: try_before_send_def exec_simps)
    then show ?thesis using ev ok by (auto simp: befores_names)
  qed
qed

lemma recv_root_events:
  assumes "wi_from_metadata (t_md ops) (result_metadata ops resp) = Inr wire" "cc_root_sent cc"
    and "client_recv ops (map logged ms) None cc resp g1 = Done (resp', g2)"
  shows "\<exists>events. snd g2 = snd g1 @ events \<and> opened events = [] \<and> closed events = rev (map m_NAME ms)"
proof -
  obtain r g' where a: "stack_after_root_rpc (map logged ms) (cc_root_method cc) (Sent resp) wire (cc_state cc) g1 = (r, g')" by (rule prod.exhaust)
  from lg.after_root_stack [OF a] obtain rs where "length rs = length ms" "snd g' = snd g1 @ lg.afters (Sent resp) (rev ms) rs" by blast
  moreover have "g2 = g'" using assms a by (cases r) (auto simp: client_recv_def after_recv_def Let_def)
  ultimately show ?thesis by (intro exI [of _ "lg.afters (Sent resp) (rev ms) rs"]) (simp add: afters_names rev_map)
qed

lemma recv_root_unreadable:
  assumes "wi_from_metadata (t_md ops) (result_metadata ops resp) = Inl err" "cc_root_sent cc"
  shows "client_recv ops S None cc resp g1 = Done (Inl (t_internal ops (''invalid root response metadata: '' @ wire_error_text ops err)), g1)"
  using assms by (simp add: client_recv_def after_recv_def Let_def)

lemma root_answer_events:
  assumes "cc_root_sent cc" "client_recv ops (map logged ms) None cc resp g1 = Done (resp', g2)"
  shows "case wi_from_metadata (t_md ops) (result_metadata ops resp) of
      Inr wire \<Rightarrow> \<exists>events'. snd g2 = snd g1 @ events' \<and> opened events' = [] \<and> closed events' = rev (map m_NAME ms)
    | Inl err \<Rightarrow> g2 = g1 \<and> resp' = Inl (t_internal ops (''invalid root response metadata: '' @ wire_error_text ops err))"
proof (cases "wi_from_metadata (t_md ops) (result_metadata ops resp)")
  case (Inl err)
  then show ?thesis using assms(2) by (simp add: recv_root_unreadable [OF Inl assms(1)] del: append.simps)
next
  case (Inr wire)
  then show ?thesis using recv_root_events [OF Inr assms] by simp
qed

lemma parent_answer_readable:
  assumes "parent_after_child_rpc ops S resp cc st g1 = Done (r, g2)" "cc_method_name cc \<noteq> None"
  shows "\<exists>wire. wi_from_metadata (t_md ops) (result_metadata ops resp) = Inr wire"
  using assms by (auto simp: parent_after_child_rpc_def split: sum.splits)

lemma client_child_steps:
  assumes "client_send ops S (Inr x) method (Some st) req g = Done (r, parent', cc, req', g')"
  obtains call where "parent_before_child_rpc ops S method
      \<lparr>call_request = req, call_context = child_context_new ops method req, call_state = st, call_world = g\<rparr> = Done (r, call)"
    "cc = call_context call" "g' = call_world call"
    "\<And>st' resp g1 resp' g2. client_recv ops S (Some st') cc resp g1 = Done (resp', g2) \<Longrightarrow>
       \<exists>r2. parent_after_child_rpc ops S resp cc st' g1 = Done (r2, g2)"
    "\<And>y. r = Inr y \<Longrightarrow> cc_method_name cc \<noteq> None"
proof -
  obtain r1 call where b: "parent_before_child_rpc ops S method
      \<lparr>call_request = req, call_context = child_context_new ops method req, call_state = st, call_world = g\<rparr> = Done (r1, call)"
    using assms by (auto simp: client_send_def Let_def exec_simps)
  note kept = before_child_context [OF b]
  have same: "r = r1" "cc = call_context call" "g' = call_world call"
    using assms b kept(2) by (auto simp: client_send_def Let_def exec_simps try_before_send_def split: sum.splits)
  have "\<exists>r2. parent_after_child_rpc ops S resp cc st' g1 = Done (r2, g2)"
    if "client_recv ops S (Some st') cc resp g1 = Done (resp', g2)" for st' resp g1 resp' g2
    using that kept(1) unfolding same by (auto simp: client_recv_def after_recv_def child_context_new_def exec_simps)
  with that b same kept(2) show ?thesis by blast
qed

text \<open>
  Claim C2. Pairing of the hooks around every unary call of a generated client, under a parent
  request or at the root. A call that is refused, by a pre-hook, while it is sealed or on its own
  metadata, does not reach the transport, and every module whose pre-hook ran has had exactly one
  post-hook, in reverse order. A call that is sent has run the pre-hook of every module and no
  post-hook; its answer, when its header can be read, runs the post-hook of every module exactly
  once, in reverse order, before the caller has it. That is so for every answer that a call under
  a parent returns; at the root, an answer whose header cannot be read is turned into an internal
  error and runs no post-hook.
\<close>

theorem client_call_paired:
  fixes parent :: "('v, 's) request_state option"
  assumes "client_send ops (map logged ms) ready method parent req g = Done (r, parent', cc, req', g')"
  shows "\<exists>events. snd g' = snd g @ events \<and>
    (case r of
       Inl _ \<Rightarrow> closed events = rev (opened events)
     | Inr _ \<Rightarrow> opened events = map m_NAME ms \<and> closed events = [] \<and>
         (\<forall>resp (st :: ('v, 's) request_state option) resp' g1 g2. (st = None) = (parent = None) \<and>
            client_recv ops (map logged ms) st cc resp g1 = Done (resp', g2) \<longrightarrow>
            (case wi_from_metadata (t_md ops) (result_metadata ops resp) of
               Inr wire \<Rightarrow> \<exists>events'. snd g2 = snd g1 @ events' \<and> opened events' = [] \<and> closed events' = rev (map m_NAME ms)
             | Inl err \<Rightarrow> parent = None \<and> g2 = g1 \<and>
                 resp' = Inl (t_internal ops (''invalid root response metadata: '' @ wire_error_text ops err)))))"
proof (cases ready)
  case (Inl status)
  then show ?thesis using assms by (auto simp: client_send_def Let_def)
next
  case ready: (Inr x)
  show ?thesis
  proof (cases parent)
    case None
    then have "try_before_send ops (map logged ms) (child_context_new ops method req) req g = Done (r, cc, req', g')"
      using assms ready by (auto simp: client_send_def Let_def exec_simps)
    from try_before_send_events [OF this] obtain events where ev: "snd g' = snd g @ events"
      "case r of Inl _ \<Rightarrow> closed events = rev (opened events) | Inr _ \<Rightarrow> opened events = map m_NAME ms \<and> closed events = [] \<and> cc_root_sent cc"
      by (auto simp: child_context_new_def)
    show ?thesis
    proof (cases r)
      case (Inr y)
      with ev(2) have sent: "cc_root_sent cc" by simp
      with ev Inr None show ?thesis
        by (intro exI [of _ events]) (simp only: sum.case simp_thms, blast dest: root_answer_events [OF sent])
    qed (use ev in auto)
  next
    case (Some st)
    obtain call where b: "parent_before_child_rpc ops (map logged ms) method
        \<lparr>call_request = req, call_context = child_context_new ops method req, call_state = st, call_world = g\<rparr> = Done (r, call)"
      "cc = call_context call" "g' = call_world call"
      and recv: "\<And>st' resp g1 resp' g2. client_recv ops (map logged ms) (Some st') cc resp g1 = Done (resp', g2) \<Longrightarrow>
         \<exists>r2. parent_after_child_rpc ops (map logged ms) resp cc st' g1 = Done (r2, g2)"
      and named: "\<And>y. r = Inr y \<Longrightarrow> cc_method_name cc \<noteq> None"
      using client_child_steps [OF assms [unfolded ready Some]] by metis
    from child_rpc_paired [OF b(1), folded b(2)] obtain events where ev: "snd g' = snd g @ events"
      "case r of Inl _ \<Rightarrow> closed events = rev (opened events)
       | Inr _ \<Rightarrow> opened events = map m_NAME ms \<and> closed events = [] \<and>
         (\<forall>response st g r' g'. parent_after_child_rpc ops (map logged ms) response cc st g = Done (r', g') \<longrightarrow>
            (\<exists>events'. snd g' = snd g @ events' \<and> opened events' = [] \<and> closed events' = rev (map m_NAME ms)))" by (auto simp: b(3))
    show ?thesis
    proof (cases r)
      case (Inr y)
      note ev = ev [unfolded Inr sum.case]
      have "\<exists>wire events'. wi_from_metadata (t_md ops) (result_metadata ops resp) = Inr wire \<and>
          snd g2 = snd g1 @ events' \<and> opened events' = [] \<and> closed events' = rev (map m_NAME ms)"
        if "(st' = None) = (parent = None) \<and> client_recv ops (map logged ms) st' cc resp g1 = Done (resp', g2)"
        for resp resp' g1 g2 and st' :: "('v, 's) request_state option"
      proof -
        from that Some obtain st'' where "client_recv ops (map logged ms) (Some st'') cc resp g1 = Done (resp', g2)" by auto
        from recv [OF this] obtain r2 where "parent_after_child_rpc ops (map logged ms) resp cc st'' g1 = Done (r2, g2)" by blast
        with ev(2) parent_answer_readable [OF this named [OF Inr]] show ?thesis by blast
      qed
      with ev Inr show ?thesis by (intro exI [of _ events]) (fastforce split: sum.split)
    qed (use ev in auto)
  qed
qed

theorem client_call_paired_witness:
  "\<exists>r parent' cc req' g' events. client_send ex_tonic (map logged [ex_module ''a'' False, ex_module ''b'' True]) (Inr ()) ex_method
      (Some \<lparr>rs_ext = ext_new, rs_ended_by = None\<rparr>) () ((), []) = Done (Inl r, parent', cc, req', g') \<and>
    snd g' = [] @ events \<and> closed events = rev (opened events)"
proof -
  obtain r call' where run: "parent_before_child_rpc ex_tonic (map logged [ex_module ''a'' False, ex_module ''b'' True]) ex_method
      (ex_call ((), [])) = Done (Inl r, call')" using child_rpc_paired_witness by blast
  then have "client_send ex_tonic (map logged [ex_module ''a'' False, ex_module ''b'' True]) (Inr ()) ex_method
      (Some \<lparr>rs_ext = ext_new, rs_ended_by = None\<rparr>) () ((), []) =
      Done (Inl r, Some (call_state call'), call_context call', call_request call', call_world call')"
    by (simp add: client_send_def ex_call_def Let_def del: list.map)
  from client_call_paired [OF this] this show ?thesis by fastforce
qed

end
