(* ===== verification/Shared_Prio_Queue.thy ===== *)
theory Shared_Prio_Queue
  imports Sched_Queues
begin

text \<open>
  The run queue that the workers of the multi-thread scheduler share,
  \<open>tokio/src/runtime/scheduler/multi_thread/prio_queue.rs\<close>, with its backend of one locked heap,
  and the timing facts of a task (\<open>runtime/task/core.rs\<close>). Infrastructure tasks have a lane of
  their own behind a mutex, with a flag that a pop reads without the lock. A thread takes one
  step per access: taking the lock together with the access to the lane, storing the flag together
  with releasing the lock.
\<close>

section \<open>Timing facts\<close>

record trace_timer =
  tt_q_lat :: nat
  tt_last_enqueue :: "nat option"
  tt_first_enqueue :: "nat option"
  tt_polls :: u32

definition trace_timer_new :: trace_timer where
  "trace_timer_new = \<lparr>tt_q_lat = 0, tt_last_enqueue = None, tt_first_enqueue = None, tt_polls = 0\<rparr>"

definition set_enqueue_time :: "nat \<Rightarrow> trace_timer \<Rightarrow> trace_timer" where
  "set_enqueue_time now t = t\<lparr>tt_last_enqueue := Some now,
     tt_first_enqueue := (case tt_first_enqueue t of None \<Rightarrow> Some now | Some f \<Rightarrow> Some f), tt_q_lat := 0\<rparr>"

text \<open>\<open>duration_since\<close> saturates at zero.\<close>

definition record_queue_lat :: "nat \<Rightarrow> trace_timer \<Rightarrow> trace_timer exec" where
  "record_queue_lat now t = (case tt_last_enqueue t of Some e \<Rightarrow> Done (t\<lparr>tt_q_lat := now - e\<rparr>) | None \<Rightarrow> Panic)"

definition begin_poll :: "trace_timer \<Rightarrow> trace_timer" where
  "begin_poll t = t\<lparr>tt_polls := tt_polls t + 1\<rparr>"

section \<open>The queue\<close>

text \<open>A task as the queue sees it: its priority when it is queued, and its timer.\<close>

record 'a queued =
  qd_task :: 'a
  qd_prio :: meta
  qd_timer :: trace_timer

record 'a shared_queue =
  sq_main :: "'a queued list"
  sq_infra :: "'a queued list"
  sq_pending :: bool

definition shared_queue_new :: "'a shared_queue" where
  "shared_queue_new = \<lparr>sq_main = [], sq_infra = [], sq_pending = False\<rparr>"

definition shared_is_empty :: "'a shared_queue \<Rightarrow> bool" where
  "shared_is_empty q \<longleftrightarrow> sq_main q = [] \<and> \<not> sq_pending q"

text \<open>Where a thread is: outside, in a push or a pop, or about to return what it popped.\<close>

datatype 'a shared_pc =
    Outside
  | PushStart "'a queued"
  | PushFlag
  | PopStart
  | PopLock
  | PopFlag "'a queued option"
  | PopMain
  | PopReturn "'a queued option"

fun holds_infra :: "'a shared_pc \<Rightarrow> bool" where
  "holds_infra PushFlag = True"
| "holds_infra (PopFlag _) = True"
| "holds_infra _ = False"

definition timed :: "nat \<Rightarrow> 'a queued \<Rightarrow> 'a queued exec" where
  "timed now x = map_exec (\<lambda>t. x\<lparr>qd_timer := t\<rparr>) (record_queue_lat now (qd_timer x))"

text \<open>
  One step of a thread inside a method; \<open>free\<close> is whether the lane's lock is free, and \<open>None\<close>
  that the thread waits for it.
\<close>

fun shared_step :: "bool \<Rightarrow> nat \<Rightarrow> 'a shared_pc \<Rightarrow> 'a shared_queue \<Rightarrow> ('a shared_pc \<times> 'a shared_queue) exec option" where
  "shared_step free now Outside q = None"
| "shared_step free now (PushStart x) q =
     (let item = x\<lparr>qd_timer := set_enqueue_time now (qd_timer x)\<rparr> in
      if is_infra (qd_prio item) then (if free then Some (Done (PushFlag, q\<lparr>sq_infra := sq_infra q @ [item]\<rparr>)) else None)
      else Some (Done (Outside, q\<lparr>sq_main := heap_push qd_prio (sq_main q) item\<rparr>)))"
| "shared_step free now PushFlag q = Some (Done (Outside, q\<lparr>sq_pending := True\<rparr>))"
| "shared_step free now PopStart q = Some (Done (if sq_pending q then PopLock else PopMain, q))"
| "shared_step free now PopLock q =
     (if free then Some (case sq_infra q of
          [] \<Rightarrow> Done (PopFlag None, q)
        | x # xs \<Rightarrow> Done (PopFlag (Some x), q\<lparr>sq_infra := xs\<rparr>))
      else None)"
| "shared_step free now (PopFlag item) q =
     (let q' = (if sq_infra q = [] then q\<lparr>sq_pending := False\<rparr> else q) in
      Some (case item of
          Some x \<Rightarrow> map_exec (\<lambda>x'. (PopReturn (Some x'), q')) (timed now x)
        | None \<Rightarrow> Done (PopMain, q')))"
| "shared_step free now PopMain q =
     Some (case heap_pop qd_prio (sq_main q) of
         (None, h) \<Rightarrow> Done (PopReturn None, q\<lparr>sq_main := h\<rparr>)
       | (Some x, h) \<Rightarrow> map_exec (\<lambda>x'. (PopReturn (Some x'), q\<lparr>sq_main := h\<rparr>)) (timed now x))"
| "shared_step free now (PopReturn item) q = None"

text \<open>
  \<open>shared_run ins outs q pcs\<close>: the threads \<open>pcs\<close> can reach this state after calling \<open>push\<close> on
  the tasks \<open>ins\<close> and returning the tasks \<open>outs\<close> from \<open>pop\<close>.
\<close>

definition infra_free :: "'a shared_pc list \<Rightarrow> bool" where
  "infra_free pcs \<longleftrightarrow> (\<forall>pc\<in>set pcs. \<not> holds_infra pc)"

inductive shared_run :: "'a multiset \<Rightarrow> 'a multiset \<Rightarrow> 'a shared_queue \<Rightarrow> 'a shared_pc list \<Rightarrow> bool" where
  start: "shared_run {#} {#} shared_queue_new (replicate threads Outside)"
| call_push: "shared_run ins outs q pcs \<Longrightarrow> t < length pcs \<Longrightarrow> pcs ! t = Outside \<Longrightarrow>
    shared_run (add_mset (qd_task x) ins) outs q (pcs[t := PushStart x])"
| call_pop: "shared_run ins outs q pcs \<Longrightarrow> t < length pcs \<Longrightarrow> pcs ! t = Outside \<Longrightarrow> shared_run ins outs q (pcs[t := PopStart])"
| step: "shared_run ins outs q pcs \<Longrightarrow> t < length pcs \<Longrightarrow> shared_step (infra_free pcs) now (pcs ! t) q = Some (Done (pc, q')) \<Longrightarrow>
    shared_run ins outs q' (pcs[t := pc])"
| return_pop: "shared_run ins outs q pcs \<Longrightarrow> t < length pcs \<Longrightarrow> pcs ! t = PopReturn r \<Longrightarrow>
    shared_run ins (outs + mset_set (qd_task ` set_option r)) q (pcs[t := Outside])"

section \<open>Invariant\<close>

fun carries :: "'a shared_pc \<Rightarrow> 'a multiset" where
  "carries (PushStart x) = {#qd_task x#}"
| "carries (PopFlag (Some x)) = {#qd_task x#}"
| "carries (PopReturn (Some x)) = {#qd_task x#}"
| "carries _ = {#}"

definition stored :: "'a shared_queue \<Rightarrow> 'a multiset" where
  "stored q = image_mset qd_task (mset (sq_main q) + mset (sq_infra q))"

definition enqueued :: "'a queued \<Rightarrow> bool" where
  "enqueued x \<longleftrightarrow> tt_last_enqueue (qd_timer x) \<noteq> None"

fun carried_enqueued :: "'a shared_pc \<Rightarrow> bool" where
  "carried_enqueued (PopFlag (Some x)) = enqueued x"
| "carried_enqueued _ = True"

text \<open>The thread that holds the lane's lock, if any.\<close>

definition lock_state :: "'a shared_pc list \<Rightarrow> 'a shared_pc option \<Rightarrow> bool" where
  "lock_state pcs h \<longleftrightarrow> (case h of
      None \<Rightarrow> infra_free pcs
    | Some pc \<Rightarrow> holds_infra pc \<and> (\<exists>t<length pcs. pcs ! t = pc \<and> (\<forall>s<length pcs. s \<noteq> t \<longrightarrow> \<not> holds_infra (pcs ! s))))"

text \<open>
  The flag is up exactly when the lane has a task, except while a push is about to raise it or a
  pop about to lower it.
\<close>

fun flag_ok :: "'a shared_pc option \<Rightarrow> 'a shared_queue \<Rightarrow> bool" where
  "flag_ok None q \<longleftrightarrow> sq_pending q = (sq_infra q \<noteq> [])"
| "flag_ok (Some PushFlag) q \<longleftrightarrow> sq_infra q \<noteq> []"
| "flag_ok (Some (PopFlag None)) q \<longleftrightarrow> sq_infra q = []"
| "flag_ok (Some _) q \<longleftrightarrow> (sq_infra q \<noteq> [] \<longrightarrow> sq_pending q)"

definition tasks_ok :: "'a shared_queue \<Rightarrow> bool" where
  "tasks_ok q \<longleftrightarrow> is_heap qd_prio (sq_main q) \<and> (\<forall>x\<in>set (sq_main q) \<union> set (sq_infra q). enqueued x)"

definition queue_inv :: "'a multiset \<Rightarrow> 'a multiset \<Rightarrow> 'a shared_queue \<Rightarrow> 'a shared_pc list \<Rightarrow> bool" where
  "queue_inv ins outs q pcs \<longleftrightarrow> (\<exists>h. lock_state pcs h \<and> flag_ok h q) \<and> tasks_ok q \<and> (\<forall>pc\<in>set pcs. carried_enqueued pc) \<and>
     ins = outs + stored q + sum_list (map carries pcs)"

lemma lock_state_free: "lock_state pcs h \<Longrightarrow> infra_free pcs \<longleftrightarrow> h = None"
  by (auto simp: lock_state_def infra_free_def split: option.splits)

lemma lock_state_keep:
  assumes "lock_state pcs h" "\<not> holds_infra (pcs ! t)" "\<not> holds_infra pc"
  shows "lock_state (pcs[t := pc]) h"
proof (cases h)
  case None
  then show ?thesis using assms set_update_subset_insert [of pcs t pc] by (auto simp: lock_state_def infra_free_def)
next
  case (Some x)
  with assms(1) obtain ta where ta: "holds_infra x" "ta < length pcs" "pcs ! ta = x" "\<forall>s<length pcs. s \<noteq> ta \<longrightarrow> \<not> holds_infra (pcs ! s)"
    by (auto simp: lock_state_def)
  with assms(2,3) have "ta \<noteq> t" "\<forall>s<length pcs. s \<noteq> ta \<longrightarrow> \<not> holds_infra (pcs[t := pc] ! s)"
    by (cases "t < length pcs"; auto simp: nth_list_update list_update_beyond)+
  with ta Some show ?thesis by (auto simp: lock_state_def intro!: exI [of _ ta])
qed

lemma lock_state_take:
  assumes "infra_free pcs" "t < length pcs" "holds_infra pc"
  shows "lock_state (pcs[t := pc]) (Some pc)"
  using assms by (auto simp: lock_state_def infra_free_def nth_list_update intro!: exI [of _ t])

lemma lock_state_release:
  assumes "lock_state pcs h" "t < length pcs" "holds_infra (pcs ! t)" "\<not> holds_infra pc"
  shows "h = Some (pcs ! t)" "lock_state (pcs[t := pc]) None"
proof -
  from assms(1-3) obtain t' where t': "h = Some (pcs ! t')" "t' < length pcs" "\<forall>s<length pcs. s \<noteq> t' \<longrightarrow> \<not> holds_infra (pcs ! s)"
    by (auto simp: lock_state_def infra_free_def split: option.splits)
  with assms(2,3) have "t' = t" by blast
  with t' assms(4) show "h = Some (pcs ! t)" "lock_state (pcs[t := pc]) None"
    by (auto simp: lock_state_def infra_free_def in_set_conv_nth nth_list_update split: if_splits)
qed

lemma timed_enqueued: "enqueued x \<Longrightarrow> \<exists>x'. timed now x = Done x' \<and> qd_task x' = qd_task x"
  by (auto simp: enqueued_def timed_def record_queue_lat_def)

lemma enqueued_set [simp]: "enqueued (x\<lparr>qd_timer := set_enqueue_time now t\<rparr>)"
  by (simp add: enqueued_def set_enqueue_time_def)

lemma queue_inv_update:
  assumes "queue_inv ins outs q pcs" "t < length pcs" "lock_state (pcs[t := pc]) h" "flag_ok h q'" "tasks_ok q'" "carried_enqueued pc"
    and "ins' + outs + stored q + carries (pcs ! t) = ins + outs' + stored q' + carries pc"
  shows "queue_inv ins' outs' q' (pcs[t := pc])"
proof -
  note c = sum_list_map_update [OF assms(2), of carries pc]
  have "ins = outs + stored q + sum_list (map carries pcs)" using assms(1) by (simp add: queue_inv_def)
  with assms(7) have "ins' + outs + stored q + carries (pcs ! t) = outs + stored q + (sum_list (map carries pcs) + carries pc) + outs' + stored q'" by (simp add: ac_simps)
  then have "ins' + (outs + stored q + carries (pcs ! t)) = (outs' + stored q' + sum_list (map carries (pcs[t := pc]))) + (outs + stored q + carries (pcs ! t))"
    unfolding c [symmetric] by (simp add: ac_simps)
  then have "ins' = outs' + stored q' + sum_list (map carries (pcs[t := pc]))" by (rule add_right_imp_eq)
  moreover have "\<forall>pc'\<in>set (pcs[t := pc]). carried_enqueued pc'"
    using assms(1,6) set_update_subset_insert [of pcs t pc] by (auto simp: queue_inv_def)
  ultimately show ?thesis using assms(3-5) by (auto simp: queue_inv_def)
qed

lemma flag_ok_main [simp]: "flag_ok h (q\<lparr>sq_main := xs\<rparr>) = flag_ok h q"
  by (induction h q rule: flag_ok.induct) simp_all

lemma push_tasks_ok:
  "tasks_ok q \<Longrightarrow> enqueued x \<Longrightarrow> tasks_ok (q\<lparr>sq_main := heap_push qd_prio (sq_main q) x\<rparr>)"
  by (auto simp: tasks_ok_def is_heap_push set_heap_push)

lemma pop_tasks_ok:
  assumes "tasks_ok q" "heap_pop qd_prio (sq_main q) = (r, h)"
  shows "tasks_ok (q\<lparr>sq_main := h\<rparr>)" "r = Some x \<Longrightarrow> enqueued x \<and> stored q = add_mset (qd_task x) (stored (q\<lparr>sq_main := h\<rparr>))"
    "r = None \<Longrightarrow> stored (q\<lparr>sq_main := h\<rparr>) = stored q"
proof -
  have heap: "is_heap qd_prio (sq_main q)" using assms(1) by (simp add: tasks_ok_def)
  have some: "mset (sq_main q) = add_mset x (mset h)" if "r = Some x" for x using bh.pop_elems [OF heap] assms(2) that by simp
  have none: "sq_main q = [] \<and> h = []" if "r = None"
  proof -
    have "sq_main q = []" using bh.pop_None_elems [OF heap, of h] assms(2) that by simp
    with assms(2) show ?thesis by (simp add: heap_pop_def)
  qed
  have sets: "set (sq_main q) = insert x (set h)" if "r = Some x" for x using arg_cong [OF some [OF that], of set_mset] by simp
  have "set h \<subseteq> set (sq_main q)"
  proof (cases r)
    case (Some x)
    from sets [OF this] show ?thesis by auto
  qed (use none in simp)
  then show "tasks_ok (q\<lparr>sq_main := h\<rparr>)" using assms bh.pop_invar [OF heap assms(2)] by (auto simp: tasks_ok_def)
  show "r = Some x \<Longrightarrow> enqueued x \<and> stored q = add_mset (qd_task x) (stored (q\<lparr>sq_main := h\<rparr>))"
    using assms(1) some [of x] sets [of x] by (simp add: tasks_ok_def stored_def)
  show "r = None \<Longrightarrow> stored (q\<lparr>sq_main := h\<rparr>) = stored q" using none by (simp add: stored_def)
qed

lemma step_inv:
  assumes inv: "queue_inv ins outs q pcs" and t: "t < length pcs" and step: "shared_step (infra_free pcs) now (pcs ! t) q = Some r"
  shows "\<exists>pc q'. r = Done (pc, q') \<and> queue_inv ins outs q' (pcs[t := pc])"
proof -
  from inv obtain h where h: "lock_state pcs h" "flag_ok h q" and ok: "tasks_ok q" and carried: "carried_enqueued (pcs ! t)"
    using t by (auto simp: queue_inv_def)
  note update = queue_inv_update [OF inv t]
  note keep = update [OF lock_state_keep [OF h(1)]]
  have release: "queue_inv ins outs q' (pcs[t := pc])"
    if "holds_infra (pcs ! t)" "\<not> holds_infra pc" "sq_pending q' = (sq_infra q' \<noteq> [])" "tasks_ok q'" "stored q' + carries pc = stored q + carries (pcs ! t)" "carried_enqueued pc"
    for pc q' using that by (intro update [OF lock_state_release(2) [OF h(1) t]]) (simp_all add: ac_simps)
  have holder: "flag_ok (Some (pcs ! t)) q" if "holds_infra (pcs ! t)" using lock_state_release(1) [OF h(1) t that, of Outside] h(2) by simp
  show ?thesis
  proof (cases "pcs ! t")
    case (PushStart x)
    let ?item = "x\<lparr>qd_timer := set_enqueue_time now (qd_timer x)\<rparr>"
    show ?thesis
    proof (cases "is_infra (qd_prio x)")
      case True
      then have free: "infra_free pcs" and r: "r = Done (PushFlag, q\<lparr>sq_infra := sq_infra q @ [?item]\<rparr>)"
        using step PushStart by (auto simp: Let_def split: if_splits)
      have "queue_inv ins outs (q\<lparr>sq_infra := sq_infra q @ [?item]\<rparr>) (pcs[t := PushFlag])"
        by (rule update [OF lock_state_take [OF free t]]) (use ok in \<open>auto simp: tasks_ok_def stored_def PushStart\<close>)
      with r show ?thesis by blast
    next
      case False
      then have r: "r = Done (Outside, q\<lparr>sq_main := heap_push qd_prio (sq_main q) ?item\<rparr>)" using step PushStart by (simp add: Let_def)
      have "queue_inv ins outs (q\<lparr>sq_main := heap_push qd_prio (sq_main q) ?item\<rparr>) (pcs[t := Outside])"
        by (rule keep) (use ok h(2) push_tasks_ok [OF ok] in \<open>simp_all add: PushStart stored_def mset_heap_push\<close>)
      with r show ?thesis by blast
    qed
  next
    case PushFlag
    then have "r = Done (Outside, q\<lparr>sq_pending := True\<rparr>)" using step by simp
    moreover have "queue_inv ins outs (q\<lparr>sq_pending := True\<rparr>) (pcs[t := Outside])"
      by (rule release) (use ok holder PushFlag in \<open>simp_all add: tasks_ok_def stored_def\<close>)
    ultimately show ?thesis by blast
  next
    case PopStart
    then have "r = Done (if sq_pending q then PopLock else PopMain, q)" using step by simp
    moreover have "queue_inv ins outs q (pcs[t := if sq_pending q then PopLock else PopMain])"
      by (rule keep) (use ok h(2) PopStart in auto)
    ultimately show ?thesis by blast
  next
    case PopLock
    then have free: "infra_free pcs" using step by (auto split: if_splits)
    then have flag: "sq_pending q = (sq_infra q \<noteq> [])" using h lock_state_free by fastforce
    note take = update [OF lock_state_take [OF free t]]
    show ?thesis
    proof (cases "sq_infra q")
      case Nil
      have "queue_inv ins outs q (pcs[t := PopFlag None])" by (rule take) (use ok PopLock Nil in simp_all)
      with step PopLock Nil free show ?thesis by auto
    next
      case (Cons x xs)
      have "queue_inv ins outs (q\<lparr>sq_infra := xs\<rparr>) (pcs[t := PopFlag (Some x)])"
        by (rule take) (use ok PopLock Cons flag in \<open>auto simp: tasks_ok_def stored_def\<close>)
      with step PopLock Cons free show ?thesis by auto
    qed
  next
    case (PopFlag item)
    let ?q = "if sq_infra q = [] then q\<lparr>sq_pending := False\<rparr> else q"
    have q: "sq_pending ?q = (sq_infra ?q \<noteq> [])" "tasks_ok ?q" "stored ?q = stored q" using holder ok PopFlag by (cases item; auto simp: tasks_ok_def stored_def)+
    show ?thesis
    proof (cases item)
      case None
      have "queue_inv ins outs ?q (pcs[t := PopMain])" by (rule release) (use q PopFlag None in simp_all)
      with step PopFlag None show ?thesis by (auto simp: Let_def)
    next
      case (Some x)
      with carried PopFlag obtain x' where x': "timed now x = Done x'" "qd_task x' = qd_task x" using timed_enqueued [of x] by auto
      have "queue_inv ins outs ?q (pcs[t := PopReturn (Some x')])" by (rule release) (use q PopFlag Some x' in simp_all)
      with step PopFlag Some x' show ?thesis by (auto simp: Let_def)
    qed
  next
    case PopMain
    obtain item hp where p: "heap_pop qd_prio (sq_main q) = (item, hp)" by fastforce
    note popped = pop_tasks_ok [OF ok p]
    show ?thesis
    proof (cases item)
      case None
      have "queue_inv ins outs (q\<lparr>sq_main := hp\<rparr>) (pcs[t := PopReturn None])"
        by (rule keep) (use popped h(2) None PopMain in simp_all)
      with step PopMain None p show ?thesis by auto
    next
      case (Some x)
      with popped(2) obtain x' where x': "timed now x = Done x'" "qd_task x' = qd_task x" using timed_enqueued [of x] by auto
      have "queue_inv ins outs (q\<lparr>sq_main := hp\<rparr>) (pcs[t := PopReturn (Some x')])"
        by (rule keep) (use popped h(2) Some PopMain x' in simp_all)
      with step PopMain Some p x' show ?thesis by auto
    qed
  qed (use step in simp_all)
qed

lemma shared_run_inv: "shared_run ins outs q pcs \<Longrightarrow> queue_inv ins outs q pcs"
proof (induction rule: shared_run.induct)
  case (start threads)
  have "sum_list (map carries (replicate threads Outside)) = {#}" by (induction threads) simp_all
  then show ?case by (auto simp: queue_inv_def lock_state_def infra_free_def tasks_ok_def stored_def shared_queue_new_def intro!: exI [of _ None])
next
  case (call_push ins outs q pcs t x)
  then obtain h where "lock_state pcs h" "flag_ok h q" "tasks_ok q" by (auto simp: queue_inv_def)
  then show ?case using call_push by (intro queue_inv_update [OF call_push.IH call_push(2) lock_state_keep]) simp_all
next
  case (call_pop ins outs q pcs t)
  then obtain h where "lock_state pcs h" "flag_ok h q" "tasks_ok q" by (auto simp: queue_inv_def)
  then show ?case using call_pop by (intro queue_inv_update [OF call_pop.IH call_pop(2) lock_state_keep]) simp_all
next
  case (step ins outs q pcs t now pc q')
  from step_inv [OF step.IH step(2,3)] show ?case by simp
next
  case (return_pop ins outs q pcs t r)
  then obtain h where "lock_state pcs h" "flag_ok h q" "tasks_ok q" by (auto simp: queue_inv_def)
  then show ?case using return_pop by (intro queue_inv_update [OF return_pop.IH return_pop(2) lock_state_keep]) (cases r; simp)+
qed

section \<open>Properties\<close>

text \<open>
  Claim C27. However the workers interleave, the shared queue neither loses nor duplicates a task:
  what was pushed is what the pops have returned, what is queued and what a worker carries in or
  out. No step panics, so a queue latency is only taken of a task that was enqueued; and while no
  worker is inside, \<open>is_empty\<close> says whether anything is queued.
\<close>

theorem shared_queue_conserves:
  assumes "shared_run ins outs q pcs"
  shows "ins = outs + stored q + sum_list (map carries pcs) \<and>
    (\<forall>t now. t < length pcs \<longrightarrow> shared_step (infra_free pcs) now (pcs ! t) q \<noteq> Some Panic) \<and>
    ((\<forall>pc\<in>set pcs. pc = Outside) \<longrightarrow> shared_is_empty q = (stored q = {#}))"
proof -
  note inv = shared_run_inv [OF assms]
  then obtain h where h: "lock_state pcs h" "flag_ok h q" by (auto simp: queue_inv_def)
  have "shared_step (infra_free pcs) now (pcs ! t) q \<noteq> Some Panic" if "t < length pcs" for t now using step_inv [OF inv that] by fastforce
  moreover have "shared_is_empty q = (stored q = {#})" if "\<forall>pc\<in>set pcs. pc = Outside"
  proof -
    have "infra_free pcs" using that by (auto simp: infra_free_def)
    then have "h = None" using lock_state_free [OF h(1)] by simp
    then show ?thesis using h(2) by (auto simp: shared_is_empty_def stored_def)
  qed
  ultimately show ?thesis using inv by (auto simp: queue_inv_def)
qed

lemma ex_shared_run:
  "shared_run {#3#} {#} (shared_queue_new\<lparr>sq_infra := [\<lparr>qd_task = (3 :: nat), qd_prio = INFRA, qd_timer = set_enqueue_time 8 trace_timer_new\<rparr>],
     sq_pending := True\<rparr>) [Outside, PopStart]"
proof -
  let ?x = "\<lparr>qd_task = (3 :: nat), qd_prio = INFRA, qd_timer = trace_timer_new\<rparr>" and ?y = "\<lparr>qd_task = (3 :: nat), qd_prio = INFRA, qd_timer = set_enqueue_time 8 trace_timer_new\<rparr>"
  have s0: "shared_run {#} {#} shared_queue_new [Outside, Outside]" using shared_run.start [of 2] by (simp add: numeral_2_eq_2)
  have s1: "shared_run {#3#} {#} shared_queue_new [PushStart ?x, Outside]" using shared_run.call_push [OF s0, of 0 ?x] by simp
  have s2: "shared_run {#3#} {#} (shared_queue_new\<lparr>sq_infra := [?y]\<rparr>) [PushFlag, Outside]"
    using shared_run.step [OF s1, of 0 8] by (simp add: infra_free_def is_infra_def shared_queue_new_def)
  have s3: "shared_run {#3#} {#} (shared_queue_new\<lparr>sq_infra := [?y], sq_pending := True\<rparr>) [Outside, Outside]"
    using shared_run.step [OF s2, of 0 9] by simp
  show "shared_run {#3#} {#} (shared_queue_new\<lparr>sq_infra := [?y], sq_pending := True\<rparr>) [Outside, PopStart]"
    using shared_run.call_pop [OF s3, of 1] by simp
qed

theorem shared_queue_conserves_witness:
  "{#3#} = {#} + stored (shared_queue_new\<lparr>sq_infra := [\<lparr>qd_task = (3 :: nat), qd_prio = INFRA, qd_timer = set_enqueue_time 8 trace_timer_new\<rparr>],
     sq_pending := True\<rparr>) + sum_list (map carries [Outside, PopStart])"
  using shared_queue_conserves [OF ex_shared_run] by blast

lemma flag_down:
  assumes "lock_state pcs h" "flag_ok h q" "\<not> sq_pending q"
  shows "sq_infra q = [] \<or> PushFlag \<in> set pcs"
proof (cases h)
  case (Some pc)
  with assms(1) have pc: "holds_infra pc" "pc \<in> set pcs" by (auto simp: lock_state_def)
  show ?thesis
  proof (cases pc)
    case (PopFlag r)
    with assms Some show ?thesis by (cases r) auto
  qed (use pc in auto)
qed (use assms in simp)

text \<open>
  Claim C28. Infrastructure tasks come first: a pop turns to the user tasks only when no
  infrastructure task is queued, or one whose push has not finished yet. The user task it then
  takes is one of the most urgent. No worker waits for ever: one that has no step waits for the
  lane's lock, and the holder of the lock has one.
\<close>

theorem shared_queue_infra_first:
  assumes "shared_run ins outs q pcs" "t < length pcs"
  shows "(shared_step (infra_free pcs) now (pcs ! t) q = Some (Done (PopMain, q')) \<longrightarrow> sq_infra q = [] \<or> PushFlag \<in> set pcs) \<and>
    (pcs ! t = PopMain \<and> shared_step (infra_free pcs) now (pcs ! t) q = Some (Done (PopReturn (Some x), q')) \<longrightarrow>
       (\<forall>y\<in>set (sq_main q). meta_value (qd_prio x) \<le> meta_value (qd_prio y))) \<and>
    (pcs ! t = Outside \<or> (\<exists>r. pcs ! t = PopReturn r) \<or> shared_step (infra_free pcs) now (pcs ! t) q \<noteq> None \<or>
       (\<exists>s<length pcs. holds_infra (pcs ! s) \<and> shared_step (infra_free pcs) now (pcs ! s) q \<noteq> None))"
proof -
  from shared_run_inv [OF assms(1)] obtain h where h: "lock_state pcs h" "flag_ok h q" and ok: "tasks_ok q" by (auto simp: queue_inv_def)
  have "sq_infra q = [] \<or> PushFlag \<in> set pcs" if "shared_step (infra_free pcs) now (pcs ! t) q = Some (Done (PopMain, q'))"
  proof (cases "pcs ! t")
    case PopStart
    with that have "\<not> sq_pending q" by (auto split: if_splits)
    from flag_down [OF h this] show ?thesis .
  next
    case (PopFlag item)
    with that have "item = None" by (cases item) (auto simp: Let_def timed_def exec_simps)
    with lock_state_release(1) [OF h(1) assms(2), of Outside] h(2) PopFlag show ?thesis by simp
  qed (use that in \<open>auto simp: Let_def timed_def exec_simps split: if_splits list.splits prod.splits option.splits\<close>)
  moreover have "meta_value (qd_prio x) \<le> meta_value (qd_prio y)"
    if "pcs ! t = PopMain" "shared_step (infra_free pcs) now (pcs ! t) q = Some (Done (PopReturn (Some x), q'))" "y \<in> set (sq_main q)" for y
  proof -
    from that(1,2) obtain x0 hp where p: "heap_pop qd_prio (sq_main q) = (Some x0, hp)" "timed now x0 = Done x"
      by (auto simp: exec_simps split: prod.splits option.splits)
    have "heap_peek (sq_main q) = Some x0" using bh.pop_peek [of qd_prio "sq_main q"] p(1) by simp
    moreover have "is_heap qd_prio (sq_main q)" using ok by (simp add: tasks_ok_def)
    ultimately have "qd_prio y \<le> qd_prio x0" using bh.peek_max that(3) by simp
    moreover have "qd_prio x = qd_prio x0" using p(2) by (auto simp: timed_def exec_simps)
    ultimately show ?thesis by (simp add: meta_le_iff)
  qed
  moreover have "pcs ! t = Outside \<or> (\<exists>r. pcs ! t = PopReturn r) \<or> shared_step (infra_free pcs) now (pcs ! t) q \<noteq> None \<or>
       (\<exists>s<length pcs. holds_infra (pcs ! s) \<and> shared_step (infra_free pcs) now (pcs ! s) q \<noteq> None)"
  proof (cases "infra_free pcs")
    case True
    then show ?thesis by (cases "pcs ! t") (auto simp: Let_def)
  next
    case False
    then obtain s where s: "s < length pcs" "holds_infra (pcs ! s)" by (auto simp: infra_free_def in_set_conv_nth)
    then have "shared_step (infra_free pcs) now (pcs ! s) q \<noteq> None" by (cases "pcs ! s") (auto simp: Let_def)
    with s show ?thesis by blast
  qed
  ultimately show ?thesis by blast
qed

theorem shared_queue_infra_first_witness:
  "\<exists>q. shared_run {#3#} {#} q [Outside, PopStart] \<and> sq_infra q \<noteq> [] \<and>
     shared_step True 9 PopStart q \<noteq> Some (Done (PopMain, q :: nat shared_queue))"
proof -
  let ?q = "shared_queue_new\<lparr>sq_infra := [\<lparr>qd_task = (3 :: nat), qd_prio = INFRA, qd_timer = set_enqueue_time 8 trace_timer_new\<rparr>], sq_pending := True\<rparr>"
  have free: "infra_free [Outside, PopStart :: nat shared_pc] = True" by (simp add: infra_free_def)
  have "shared_step True 9 ([Outside, PopStart] ! 1) ?q = Some (Done (PopMain, ?q)) \<longrightarrow> sq_infra ?q = [] \<or> PushFlag \<in> set [Outside, PopStart]"
    using shared_queue_infra_first [OF ex_shared_run, of 1 9 ?q, unfolded free] by (simp del: shared_step.simps)
  then have "shared_step True 9 PopStart ?q \<noteq> Some (Done (PopMain, ?q))" by (simp del: shared_step.simps)
  with ex_shared_run show ?thesis by (intro exI [of _ ?q]) (simp del: shared_step.simps)
qed

end
