(* ===== verification/Synth_Dist.thy ===== *)
theory Synth_Dist
  imports Float_Ops
begin

text \<open>
  The latency distributions of the synthetic benchmark (\<open>apps/synthbench/src/distribution.rs\<close>):
  how one is built from its configuration, cloned and sampled. The distributions of the
  \<open>rand_distr\<close> crate and the functions of \<open>libm\<close> are parameters: a distribution object is the
  draw it makes from the generator's state \<open>'w\<close>. The cell \<open>first_sample_us\<close> that the clones of a
  \<open>ShiftedNormal\<close> share is an address of an explicit store. Serialization writes the
  parameters of a distribution without its object; the JSON text itself is \<open>serde_json\<close>'s.
\<close>

type_synonym ('w, 'a) draw = "'w \<Rightarrow> 'a \<times> 'w"

datatype dist_error = MustBePositive string | MustExceed string | NeedsParameters string | Refused string

record 'w rand_distr =
  normal_new :: "f64 \<Rightarrow> f64 \<Rightarrow> string + ('w, f64) draw"
  exp_new :: "f64 \<Rightarrow> string + ('w, f64) draw"
  lognormal_new :: "f64 \<Rightarrow> f64 \<Rightarrow> string + ('w, f64) draw"
  weighted_index_new :: "f64 list \<Rightarrow> string + ('w, nat) draw"
  f_ln :: "f64 \<Rightarrow> f64"

definition refused :: "string + 'a \<Rightarrow> dist_error + 'a" where
  "refused r = (case r of Inl e \<Rightarrow> Inl (Refused e) | Inr d \<Rightarrow> Inr d)"

section \<open>Log-normal parameters\<close>

definition lognormal_from_mean_std :: "f64_ops \<Rightarrow> 'w rand_distr \<Rightarrow> f64 \<Rightarrow> f64 \<Rightarrow> dist_error + ('w, f64) draw" where
  "lognormal_from_mean_std fl rd m std =
     (if m \<le> 0 then Inl (MustBePositive ''LogNormal mean'')
      else if std \<le> 0 then Inl (MustBePositive ''LogNormal std'')
      else let variance = f_mul fl std std;
               mean_sq = f_mul fl m m;
               sigma_sq = f_ln rd (f_add fl 1 (f_divide fl variance mean_sq));
               sigma = f_sqrt fl sigma_sq;
               mu = f_sub fl (f_ln rd m) (f_mul fl (1 / 2) sigma_sq)
           in refused (lognormal_new rd mu sigma))"

definition z95 :: "f64_ops \<Rightarrow> f64" where
  "z95 fl = rnd fl (16448536269514722 / 10 ^ 16)"

definition lognormal_from_p50_p95 ::
    "f64_ops \<Rightarrow> 'w rand_distr \<Rightarrow> f64 \<Rightarrow> f64 \<Rightarrow> dist_error + f64 \<times> f64 \<times> ('w, f64) draw" where
  "lognormal_from_p50_p95 fl rd p50 p95 =
     (if p50 \<le> 0 then Inl (MustBePositive ''LogNormal p50'')
      else if p95 \<le> 0 then Inl (MustBePositive ''LogNormal p95'')
      else if p95 \<le> p50 then Inl (MustExceed ''LogNormal p95'')
      else let mu = f_ln rd p50;
               sigma = f_divide fl (f_sub fl (f_ln rd p95) (f_ln rd p50)) (z95 fl);
               sigma_sq = f_mul fl sigma sigma;
               m = f_exp fl (f_add fl mu (f_mul fl (1 / 2) sigma_sq));
               variance = f_mul fl (f_sub fl (f_exp fl sigma_sq) 1) (f_exp fl (f_add fl (f_mul fl 2 mu) sigma_sq));
               std = f_sqrt fl variance
           in (case refused (lognormal_new rd mu sigma) of Inl e \<Rightarrow> Inl e | Inr d \<Rightarrow> Inr (m, std, d)))"

section \<open>Distributions\<close>

datatype 'w synth_distribution =
    Normal f64 f64 "('w, f64) draw"
  | Exponential f64 "f64 option" "('w, f64) draw"
  | LogNormal f64 f64 "('w, f64) draw"
  | Discrete "f64 list" "u64 list" "('w, nat) draw"
  | Periodic u64 u64 u16
  | ShiftedNormal u64 f64 f64 f64 f64 "('w, f64) draw" "('w, f64) draw" nat

text \<open>
  The state a sample reads and writes: the generator, the clock (\<open>time_now\<close>, in microseconds)
  and the shared cells.
\<close>

record 'w sampler =
  rng :: 'w
  cells :: "nat \<Rightarrow> u64"

type_synonym 'w clock = "'w \<Rightarrow> u64 \<times> 'w"

definition draw_u64 :: "('w, f64) draw \<Rightarrow> (f64 \<Rightarrow> f64) \<Rightarrow> 'w sampler \<Rightarrow> u64 \<times> 'w sampler" where
  "draw_u64 drw fix_up s = (case drw (rng s) of (x, w) \<Rightarrow> (to_u64 (fix_up (f_round x)), s\<lparr>rng := w\<rparr>))"

fun sample :: "'w clock \<Rightarrow> 'w synth_distribution \<Rightarrow> 'w sampler \<Rightarrow> (u64 \<times> 'w sampler) exec" where
  "sample time_now (Normal _ _ drw) s = Done (draw_u64 drw (\<lambda>l. if l < 0 then 0 else l) s)"
| "sample time_now (Exponential _ _ drw) s = Done (draw_u64 drw (\<lambda>l. l) s)"
| "sample time_now (LogNormal _ _ drw) s = Done (draw_u64 drw (\<lambda>l. l) s)"
| "sample time_now (Discrete _ values drw) s =
     (case drw (rng s) of (i, w) \<Rightarrow> if i < length values then Done (values ! i, s\<lparr>rng := w\<rparr>) else Panic)"
| "sample time_now (Periodic slow_latency fast_latency slow_duration_ms) s =
     (case time_now (rng s) of (now, w) \<Rightarrow>
        let now_ms = (now div 1000) mod 1000 in
        Done (if now_ms < ucast slow_duration_ms then slow_latency else fast_latency, s\<lparr>rng := w\<rparr>))"
| "sample time_now (ShiftedNormal after_secs _ _ _ _ before_dist after_dist cell) s =
     (case time_now (rng s) of (now_us, w) \<Rightarrow>
        let found = cells s cell;
            start_us = (if found = 0 then now_us else found);
            s1 = s\<lparr>rng := w, cells := (cells s)(cell := start_us)\<rparr>;
            shift_after_us = (if 2 ^ 64 \<le> unat after_secs * 1000000 then - 1 else after_secs * 1000000);
            drw = (if shift_after_us \<le> saturating_sub now_us start_us then after_dist else before_dist) in
        Done (draw_u64 drw (max 0) s1))"

section \<open>Cloning\<close>

fun unwrap_dist :: "'e + 'a \<Rightarrow> 'a exec" where
  "unwrap_dist (Inl _) = Panic"
| "unwrap_dist (Inr d) = Done d"

fun clone_dist :: "f64_ops \<Rightarrow> 'w rand_distr \<Rightarrow> 'w synth_distribution \<Rightarrow> 'w synth_distribution exec" where
  "clone_dist fl rd (Normal m std _) = map_exec (Normal m std) (unwrap_dist (normal_new rd m std))"
| "clone_dist fl rd (Exponential lam m _) = map_exec (Exponential lam m) (unwrap_dist (exp_new rd lam))"
| "clone_dist fl rd (LogNormal m std _) = map_exec (LogNormal m std) (unwrap_dist (lognormal_from_mean_std fl rd m std))"
| "clone_dist fl rd (Discrete weights values _) =
     map_exec (Discrete weights values) (unwrap_dist (weighted_index_new rd weights))"
| "clone_dist fl rd (Periodic slow fast d) = Done (Periodic slow fast d)"
| "clone_dist fl rd (ShiftedNormal a bm bs am asd _ _ cell) =
     bind_exec (unwrap_dist (normal_new rd bm bs)) (\<lambda>b.
       map_exec (\<lambda>af. ShiftedNormal a bm bs am asd b af cell) (unwrap_dist (normal_new rd am asd)))"

section \<open>Configuration\<close>

text \<open>The derived (de)serialized forms: \<open>LatencyDistributionDe\<close> and \<open>LatencyDistributionSer\<close>.\<close>

datatype dist_de =
    NormalDe f64 f64
  | ExponentialDe "f64 option" "f64 option"
  | LogNormalDe "f64 option" "f64 option" "f64 option" "f64 option"
  | DiscreteDe "f64 list" "u64 list"
  | PeriodicDe u64 u64 u16
  | ShiftedNormalDe u64 f64 f64 f64 f64

fun serialize_dist :: "'w synth_distribution \<Rightarrow> dist_de" where
  "serialize_dist (Normal m std _) = NormalDe m std"
| "serialize_dist (Exponential lam m _) = ExponentialDe (Some lam) m"
| "serialize_dist (LogNormal m std _) = LogNormalDe (Some m) (Some std) None None"
| "serialize_dist (Discrete weights values _) = DiscreteDe weights values"
| "serialize_dist (Periodic slow fast d) = PeriodicDe slow fast d"
| "serialize_dist (ShiftedNormal a bm bs am asd _ _ _) = ShiftedNormalDe a bm bs am asd"

text \<open>
  \<open>lambda_and_mean\<close> is the match that chooses the rate of an exponential distribution; a mean of
  zero beside a rate divides by zero, which gives an infinite rate in the code: the quotient of
  rationals does not reach that value, and \<open>exponential_args_finite\<close> excludes it.
\<close>

definition exponential_args_finite :: "f64 option \<Rightarrow> f64 option \<Rightarrow> bool" where
  "exponential_args_finite lam m \<longleftrightarrow> \<not> (lam \<noteq> None \<and> m = Some 0)"

fun lambda_and_mean :: "f64_ops \<Rightarrow> f64 option \<Rightarrow> f64 option \<Rightarrow> dist_error + f64 \<times> f64 option" where
  "lambda_and_mean fl (Some _) (Some m) = Inr (f_divide fl 1 m, Some m)"
| "lambda_and_mean fl (Some l) None = Inr (l, None)"
| "lambda_and_mean fl None (Some m) =
     (if m \<le> 0 then Inl (MustBePositive ''Exponential mean'') else Inr (f_divide fl 1 m, Some m))"
| "lambda_and_mean fl None None = Inl (NeedsParameters ''Exponential'')"

fun deserialize_dist :: "f64_ops \<Rightarrow> 'w rand_distr \<Rightarrow> nat \<Rightarrow> dist_de \<Rightarrow> (dist_error + 'w synth_distribution) exec" where
  "deserialize_dist fl rd fresh (NormalDe m std) =
     Done (case refused (normal_new rd m std) of Inl e \<Rightarrow> Inl e | Inr d \<Rightarrow> Inr (Normal m std d))"
| "deserialize_dist fl rd fresh (ExponentialDe lam m) =
     Done (case lambda_and_mean fl lam m of
        Inl e \<Rightarrow> Inl e
      | Inr (lambda_val, mean_val) \<Rightarrow>
          if lambda_val \<le> 0 then Inl (MustBePositive ''Exponential lambda'')
          else (case refused (exp_new rd lambda_val) of Inl e \<Rightarrow> Inl e | Inr d \<Rightarrow> Inr (Exponential lambda_val mean_val d)))"
| "deserialize_dist fl rd fresh (LogNormalDe m std p50 p95) =
     Done (case (p50, p95, m, std) of
        (Some p50_val, Some p95_val, _, _) \<Rightarrow>
          (case lognormal_from_p50_p95 fl rd p50_val p95_val of Inl e \<Rightarrow> Inl e | Inr (mv, sv, d) \<Rightarrow> Inr (LogNormal mv sv d))
      | (None, None, Some mean_val, Some std_val) \<Rightarrow>
          (case lognormal_from_mean_std fl rd mean_val std_val of Inl e \<Rightarrow> Inl e | Inr d \<Rightarrow> Inr (LogNormal mean_val std_val d))
      | _ \<Rightarrow> Inl (NeedsParameters ''LogNormal''))"
| "deserialize_dist fl rd fresh (DiscreteDe weights values) =
     (if length weights \<noteq> length values then Panic
      else Done (case refused (weighted_index_new rd weights) of Inl e \<Rightarrow> Inl e | Inr d \<Rightarrow> Inr (Discrete weights values d)))"
| "deserialize_dist fl rd fresh (PeriodicDe slow fast d) = Done (Inr (Periodic slow fast d))"
| "deserialize_dist fl rd fresh (ShiftedNormalDe a bm bs am asd) =
     Done (case refused (normal_new rd bm bs) of
        Inl e \<Rightarrow> Inl e
      | Inr b \<Rightarrow> (case refused (normal_new rd am asd) of Inl e \<Rightarrow> Inl e | Inr af \<Rightarrow> Inr (ShiftedNormal a bm bs am asd b af fresh)))"

section \<open>Sampling and cloning what was configured\<close>

text \<open>A weighted index draws the position of one of its weights.\<close>

definition weighted_index_laws :: "'w rand_distr \<Rightarrow> bool" where
  "weighted_index_laws rd \<longleftrightarrow> (\<forall>ws d w. weighted_index_new rd ws = Inr d \<longrightarrow> fst (d w) < length ws)"

definition configured :: "f64_ops \<Rightarrow> 'w rand_distr \<Rightarrow> 'w synth_distribution \<Rightarrow> bool" where
  "configured fl rd d \<longleftrightarrow> (\<exists>fresh c. deserialize_dist fl rd fresh c = Done (Inr d))"

fun is_LogNormal :: "'w synth_distribution \<Rightarrow> bool" where
  "is_LogNormal (LogNormal _ _ _) = True"
| "is_LogNormal _ = False"

lemma refused_Inr [simp]: "refused r = Inr d \<longleftrightarrow> r = Inr d"
  by (cases r) (auto simp: refused_def)

lemma configured_cases:
  assumes "configured fl rd d"
  shows "(case d of
      Normal m s x \<Rightarrow> normal_new rd m s = Inr x
    | Exponential l m x \<Rightarrow> exp_new rd l = Inr x
    | LogNormal m s x \<Rightarrow> True
    | Discrete ws vs x \<Rightarrow> length ws = length vs \<and> weighted_index_new rd ws = Inr x
    | Periodic _ _ _ \<Rightarrow> True
    | ShiftedNormal a bm bs am asd b af c \<Rightarrow> normal_new rd bm bs = Inr b \<and> normal_new rd am asd = Inr af)"
proof -
  obtain fresh c where "deserialize_dist fl rd fresh c = Done (Inr d)" using assms by (auto simp: configured_def)
  then show ?thesis
    by (cases c) (auto split: sum.splits if_splits option.splits prod.splits)
qed

lemma sample_total:
  assumes "configured fl rd d" "weighted_index_laws rd"
  shows "\<exists>v s'. sample time_now d s = Done (v, s')"
proof (cases d)
  case (Discrete ws vs x)
  then have "length ws = length vs" "weighted_index_new rd ws = Inr x" using configured_cases [OF assms(1)] by simp_all
  then have "fst (x (rng s)) < length vs" using assms(2) unfolding weighted_index_laws_def by metis
  then show ?thesis using Discrete by (cases "x (rng s)") simp
qed (auto simp: Let_def draw_u64_def split: prod.splits)

text \<open>
  Except for a log-normal one, a configured distribution clones to itself: the planner and the
  services, which clone the methods of the configuration, draw from what was configured, and
  the clones of a \<open>ShiftedNormal\<close> share its cell.
\<close>

lemma clone_configured:
  assumes "configured fl rd d" "\<not> is_LogNormal d"
  shows "clone_dist fl rd d = Done d"
  using configured_cases [OF assms(1)] assms(2) by (cases d) auto

lemma clone_configured_as:
  assumes "configured fl rd d" "clone_dist fl rd d = Done d'" "weighted_index_laws rd"
  shows "\<exists>v s'. sample time_now d' s = Done (v, s')"
proof (cases "is_LogNormal d")
  case True
  then obtain m sd x where "d = LogNormal m sd x" by (cases d) auto
  then show ?thesis using assms(2) by (auto simp: exec_simps draw_u64_def split: prod.splits)
next
  case False
  then show ?thesis using clone_configured [OF assms(1)] assms(2) sample_total [OF assms(1,3)] by simp
qed

text \<open>
  \<open>LogNormal::new\<close> refuses only a deviation that is not finite or negative; \<open>ln\<close> is not negative from
  one on, \<open>sqrt\<close> not on what is not negative. So a log-normal distribution whose mean and standard
  deviation are positive, as every one is that was configured by them, can be cloned.
\<close>

definition lognormal_laws :: "f64_ops \<Rightarrow> 'w rand_distr \<Rightarrow> bool" where
  "lognormal_laws fl rd \<longleftrightarrow> (\<forall>mu sigma. 0 \<le> sigma \<longrightarrow> (\<exists>d. lognormal_new rd mu sigma = Inr d)) \<and>
     (\<forall>x\<ge>1. 0 \<le> f_ln rd x) \<and> (\<forall>x\<ge>0. 0 \<le> f_sqrt fl x)"

fun positive_parameters :: "'w synth_distribution \<Rightarrow> bool" where
  "positive_parameters (LogNormal m std _) \<longleftrightarrow> 0 < m \<and> 0 < std"
| "positive_parameters _ \<longleftrightarrow> True"

lemma clone_positive:
  assumes "ieee fl" "lognormal_laws fl rd" "configured fl rd d" "positive_parameters d"
  shows "\<exists>d'. clone_dist fl rd d = Done d'"
proof (cases "is_LogNormal d")
  case True
  then obtain m s x where d: "d = LogNormal m s x" by (cases d) auto
  note pos = rnd_between(1) [OF assms(1)]
  have "0 \<le> f_divide fl (f_mul fl s s) (f_mul fl m m)"
    unfolding f_divide_def f_mul_def using assms(4) d by (intro pos divide_nonneg_nonneg) (simp_all add: pos)
  then have "1 \<le> f_add fl 1 (f_divide fl (f_mul fl s s) (f_mul fl m m))"
    using ieee_rnd(1) [OF assms(1), of 1 "1 + f_divide fl (f_mul fl s s) (f_mul fl m m)"] assms(1) by (simp add: f_add_def)
  then have "0 \<le> f_sqrt fl (f_ln rd (f_add fl 1 (f_divide fl (f_mul fl s s) (f_mul fl m m))))"
    using assms(2) by (simp add: lognormal_laws_def)
  then have "\<exists>y. lognormal_new rd mu (f_sqrt fl (f_ln rd (f_add fl 1 (f_divide fl (f_mul fl s s) (f_mul fl m m))))) = Inr y" for mu
    using assms(2) unfolding lognormal_laws_def by blast
  then have "\<exists>y. lognormal_from_mean_std fl rd m s = Inr y" using assms(4) d by (simp add: lognormal_from_mean_std_def Let_def)
  then show ?thesis by (auto simp: d)
next
  case False
  then show ?thesis using clone_configured [OF assms(3)] by blast
qed

text \<open>
  A log-normal distribution configured by two percentiles so close that the exponential of its
  squared \<open>sigma\<close> rounds to one is accepted with a standard deviation of zero, and cloning it panics.
\<close>

lemma close_percentiles_panic:
  fixes rd :: "'w rand_distr"
  assumes "0 < p50" "p50 < p95" "rnd fl 0 = 0" "f_sqrt fl 0 = 0"
    and sigma: "sigma = f_divide fl (f_sub fl (f_ln rd p95) (f_ln rd p50)) (z95 fl)"
    and flat: "f_exp fl (f_mul fl sigma sigma) = 1"
    and "lognormal_new rd (f_ln rd p50) sigma = Inr x"
  shows "\<exists>m. deserialize_dist fl rd fresh (LogNormalDe None None (Some p50) (Some p95)) = Done (Inr (LogNormal m 0 x))
    \<and> clone_dist fl rd (LogNormal m 0 x) = Panic"
proof -
  have zero: "f_mul fl (f_sub fl 1 1) y = 0" for y using assms(3) by (simp add: f_mul_def f_sub_def)
  have refused: "refused (Inr y) = Inr y" for y :: "('w, f64) draw" by simp
  show ?thesis using assms(1,2,4,7)
    by (simp add: lognormal_from_p50_p95_def Let_def sigma [symmetric] flat zero refused lognormal_from_mean_std_def)
qed

text \<open>
  A shifted distribution draws from the first distribution until \<open>after_secs\<close> seconds after the
  first sample, whichever clone made it: the cell keeps its first value.
\<close>

lemma shifted_keeps_start:
  assumes "sample time_now (ShiftedNormal a bm bs am asd b af c) s = Done (v, s')" "cells s c \<noteq> 0"
  shows "cells s' c = cells s c"
  using assms by (auto simp: Let_def draw_u64_def split: prod.splits)

text \<open>Written out and read again, such a distribution is the same, with a cell of its own.\<close>

fun with_cell :: "nat \<Rightarrow> 'w synth_distribution \<Rightarrow> 'w synth_distribution" where
  "with_cell c (ShiftedNormal a bm bs am asd b af _) = ShiftedNormal a bm bs am asd b af c"
| "with_cell c d = d"

lemma reserialized:
  assumes "configured fl rd d" "\<not> is_LogNormal d"
  shows "deserialize_dist fl rd fresh (serialize_dist d) = Done (Inr (with_cell fresh d))"
proof -
  obtain f c where "deserialize_dist fl rd f c = Done (Inr d)" using assms(1) by (auto simp: configured_def)
  then show ?thesis using configured_cases [OF assms(1)] assms(2)
  proof (cases c)
    case (ExponentialDe lam m)
    then show ?thesis using \<open>deserialize_dist fl rd f c = Done (Inr d)\<close>
      by (cases lam; cases m) (auto simp: refused_def split: sum.splits if_splits)
  qed (auto simp: refused_def split: sum.splits if_splits option.splits prod.splits)
qed

end
