(* ===== verification/Synth_Config.thy ===== *)
theory Synth_Config
  imports Synth_Dist "HOL-Library.AList"
begin

text \<open>
  The call graph of the synthetic benchmark (\<open>apps/synthbench/src/config.rs\<close>): its data, the
  validation of the targets it names, and the parsing of its call sequences. A \<open>HashMap\<close> that is
  iterated is its list of entries in the order of the iteration, which is arbitrary; errors are
  constructors in place of the formatted messages. The shape checks that the oracle adds under
  its feature (\<open>oracle.rs\<close>) are here too, as \<open>parse_call_sequences\<close> runs them.
\<close>

section \<open>Data\<close>

record call_target =
  target_service :: string
  target_method :: string

record parsed_call =
  call_to :: call_target
  probability :: f64

type_synonym raw_step = "(string \<times> f64) list"
type_synonym parsed_step = "parsed_call list"

record 'w service_method =
  sm_name :: string
  latency_dist :: "'w synth_distribution"
  call_sequence_raw :: "raw_step list"
  parsed_call_sequence :: "parsed_step list"
  busy_spin_ratio :: "f64 option"

record 'w service_definition =
  sd_id :: string
  replicas :: u8
  sd_methods :: "'w service_method list"

record 'w call_graph_config =
  entry_points :: "(string \<times> raw_step list) list"
  parsed_entry_points :: "(string \<times> parsed_step list) list"
  services :: "'w service_definition list"

datatype placement = LastCall | UniformCalls

record online_overhead_config =
  oo_enabled :: bool
  oo_alpha :: f64
  oo_max_overhead_us :: u64
  oo_placement :: placement

definition online_overhead_default :: online_overhead_config where
  "online_overhead_default = \<lparr>oo_enabled = False, oo_alpha = 1 / 4, oo_max_overhead_us = 0, oo_placement = LastCall\<rparr>"

record work_estimate_config =
  default_method_overhead_us :: u64
  service_overheads_us :: "string \<rightharpoonup> u64"
  method_overheads_us :: "string \<rightharpoonup> u64"
  online_overhead :: online_overhead_config

definition method_string :: "string \<Rightarrow> string \<Rightarrow> string" where
  "method_string service_id method_name = service_id @ ''::'' @ method_name"

definition unwrap_or :: "'a option \<Rightarrow> 'a \<Rightarrow> 'a" where
  "unwrap_or x d = (case x of None \<Rightarrow> d | Some v \<Rightarrow> v)"

definition overhead_for :: "work_estimate_config \<Rightarrow> string \<Rightarrow> string \<Rightarrow> u64" where
  "overhead_for c service_id method_name =
     saturating_add
       (saturating_add (default_method_overhead_us c) (unwrap_or (service_overheads_us c service_id) 0))
       (unwrap_or (method_overheads_us c (method_string service_id method_name)) 0)"

section \<open>Results\<close>

text \<open>
  The result of code that may fail, panic, or recurse deeper than the depth its model is run with;
  \<open>and_then\<close> continues on success, passing the state on.
\<close>

datatype ('e, 'a) run = TooDeep | Panicked | Err 'e | Ok 'a

fun and_then :: "('e, 'a) run \<times> 's \<Rightarrow> ('a \<Rightarrow> 's \<Rightarrow> ('e, 'b) run \<times> 's) \<Rightarrow> ('e, 'b) run \<times> 's" where
  "and_then (Ok a, s) f = f a s"
| "and_then (Err e, s) f = (Err e, s)"
| "and_then (Panicked, s) f = (Panicked, s)"
| "and_then (TooDeep, s) f = (TooDeep, s)"

fun map_run :: "('a \<Rightarrow> 'b) \<Rightarrow> ('e, 'a) run \<Rightarrow> ('e, 'b) run" where
  "map_run f (Ok a) = Ok (f a)"
| "map_run f (Err e) = Err e"
| "map_run f Panicked = Panicked"
| "map_run f TooDeep = TooDeep"

lemma and_then_Ok: "and_then m f = (Ok b, s') \<longleftrightarrow> (\<exists>a s. m = (Ok a, s) \<and> f a s = (Ok b, s'))"
  by (cases "(m, f)" rule: and_then.cases) auto

lemma and_then_TooDeep:
  "fst (and_then m f) = TooDeep \<longleftrightarrow> fst m = TooDeep \<or> (\<exists>a s. m = (Ok a, s) \<and> fst (f a s) = TooDeep)"
  by (cases "(m, f)" rule: and_then.cases) auto

lemma map_run_Ok [simp]: "map_run f r = Ok b \<longleftrightarrow> (\<exists>a. r = Ok a \<and> b = f a)"
  by (cases r) auto

lemma map_run_TooDeep [simp]: "map_run f r = TooDeep \<longleftrightarrow> r = TooDeep"
  by (cases r) auto

section \<open>Loops that stop at the first error\<close>

fun try_each :: "('a \<Rightarrow> 'e + unit) \<Rightarrow> 'a list \<Rightarrow> 'e + unit" where
  "try_each f [] = Inr ()"
| "try_each f (x # xs) = (case f x of Inl e \<Rightarrow> Inl e | Inr _ \<Rightarrow> try_each f xs)"

fun try_map :: "('a \<Rightarrow> 'e + 'b) \<Rightarrow> 'a list \<Rightarrow> 'e + 'b list" where
  "try_map f [] = Inr []"
| "try_map f (x # xs) =
     (case f x of Inl e \<Rightarrow> Inl e
      | Inr y \<Rightarrow> (case try_map f xs of Inl e \<Rightarrow> Inl e | Inr ys \<Rightarrow> Inr (y # ys)))"

lemma try_each_Inr: "try_each f xs = Inr u \<longleftrightarrow> (\<forall>x\<in>set xs. f x = Inr ())"
  by (induction xs) (auto split: sum.splits)

lemma try_each_Inl: "try_each f xs = Inl e \<Longrightarrow> \<exists>x\<in>set xs. f x = Inl e"
  by (induction xs) (auto split: sum.splits)

lemma try_each_ok: "(\<And>x. x \<in> set xs \<Longrightarrow> f x = Inr ()) \<Longrightarrow> try_each f xs = Inr ()"
  by (simp add: try_each_Inr)

lemma list_all2_left: "list_all2 P xs ys \<Longrightarrow> y \<in> set ys \<Longrightarrow> \<exists>x\<in>set xs. P x y"
  by (induction rule: list_all2_induct) auto

lemma list_all2_right: "list_all2 P xs ys \<Longrightarrow> x \<in> set xs \<Longrightarrow> \<exists>y\<in>set ys. P x y"
  by (induction rule: list_all2_induct) auto

lemma try_map_Inr: "try_map f xs = Inr ys \<longleftrightarrow> list_all2 (\<lambda>x y. f x = Inr y) xs ys"
proof (induction xs arbitrary: ys)
  case (Cons x xs)
  show ?case by (cases ys) (auto simp: Cons [symmetric] split: sum.splits)
qed auto

section \<open>Targets\<close>

datatype 'x synth_error =
    InvalidFormat string
  | NoEntryPoints
  | InvalidEntryKey string
  | UnknownEntryTarget string string
  | UnknownMethodTarget string string string
  | Unsupported 'x

text \<open>\<open>s.split("::")\<close>: the separator is searched from the left, without overlaps.\<close>

fun split_colons :: "string \<Rightarrow> string list" where
  "split_colons (c # d # s) =
     (if c = CHR '':'' \<and> d = CHR '':'' then [] # split_colons s
      else (case split_colons (d # s) of [] \<Rightarrow> [[c]] | p # ps \<Rightarrow> (c # p) # ps))"
| "split_colons s = [s]"

definition parse_service_method :: "string \<Rightarrow> 'x synth_error + call_target" where
  "parse_service_method s =
     (case split_colons s of
        [service, m] \<Rightarrow> Inr \<lparr>target_service = service, target_method = m\<rparr>
      | _ \<Rightarrow> Inl (InvalidFormat s))"

section \<open>Validation and parsing\<close>

definition valid_targets :: "'w service_definition list \<Rightarrow> string list" where
  "valid_targets svcs = concat (map (\<lambda>s. map (\<lambda>m. method_string (sd_id s) (sm_name m)) (sd_methods s)) svcs)"

definition check_entry :: "string list \<Rightarrow> string \<times> raw_step list \<Rightarrow> 'x synth_error + unit" where
  "check_entry valid e =
     (if fst e \<noteq> ''a'' \<and> fst e \<noteq> ''b'' then Inl (InvalidEntryKey (fst e))
      else try_each (try_each (\<lambda>(t, _). if t \<in> set valid then Inr () else Inl (UnknownEntryTarget (fst e) t))) (snd e))"

definition check_method :: "string list \<Rightarrow> string \<Rightarrow> 'w service_method \<Rightarrow> 'x synth_error + unit" where
  "check_method valid service_id m =
     try_each (try_each (\<lambda>(t, _). if t \<in> set valid then Inr ()
       else Inl (UnknownMethodTarget service_id (sm_name m) t))) (call_sequence_raw m)"

definition validate_call_graph :: "'w call_graph_config \<Rightarrow> 'x synth_error + unit" where
  "validate_call_graph config =
     (let valid = valid_targets (services config) in
      if entry_points config = [] then Inl NoEntryPoints
      else (case try_each (check_entry valid) (entry_points config) of
              Inl e \<Rightarrow> Inl e
            | Inr _ \<Rightarrow> try_each (\<lambda>s. try_each (check_method valid (sd_id s)) (sd_methods s)) (services config)))"

definition parse_call :: "string \<times> f64 \<Rightarrow> 'x synth_error + parsed_call" where
  "parse_call c = (case parse_service_method (fst c) of
     Inl e \<Rightarrow> Inl e | Inr t \<Rightarrow> Inr \<lparr>call_to = t, probability = snd c\<rparr>)"

definition parse_sequence :: "raw_step list \<Rightarrow> 'x synth_error + parsed_step list" where
  "parse_sequence = try_map (try_map parse_call)"

definition parse_entry :: "string \<times> raw_step list \<Rightarrow> 'x synth_error + string \<times> parsed_step list" where
  "parse_entry e = (case parse_sequence (snd e) of Inl x \<Rightarrow> Inl x | Inr p \<Rightarrow> Inr (fst e, p))"

definition parse_method :: "'w service_method \<Rightarrow> 'x synth_error + 'w service_method" where
  "parse_method m = (case parse_sequence (call_sequence_raw m) of
     Inl x \<Rightarrow> Inl x | Inr p \<Rightarrow> Inr (m\<lparr>parsed_call_sequence := p\<rparr>))"

definition parse_service :: "'w service_definition \<Rightarrow> 'x synth_error + 'w service_definition" where
  "parse_service s = (case try_map parse_method (sd_methods s) of
     Inl x \<Rightarrow> Inl x | Inr ms \<Rightarrow> Inr (s\<lparr>sd_methods := ms\<rparr>))"

text \<open>
  \<open>supported\<close> is \<open>validate_supported_call_graph\<close>, called under the feature \<open>sched_oracle\<close>;
  without the feature it is the check that accepts everything.
\<close>

definition parse_call_sequences ::
    "('w call_graph_config \<Rightarrow> ('x, unit) run) \<Rightarrow> 'w call_graph_config \<Rightarrow> ('x synth_error, 'w call_graph_config) run" where
  "parse_call_sequences supported config =
     (case validate_call_graph config of
        Inl e \<Rightarrow> Err e
      | Inr _ \<Rightarrow>
          (case try_map parse_entry (entry_points config) of
             Inl e \<Rightarrow> Err e
           | Inr eps \<Rightarrow>
               (case try_map parse_service (services config) of
                  Inl e \<Rightarrow> Err e
                | Inr svcs \<Rightarrow>
                    let config' = config\<lparr>parsed_entry_points := eps, services := svcs\<rparr> in
                    (case supported config' of
                       Err e \<Rightarrow> Err (Unsupported e) | TooDeep \<Rightarrow> TooDeep | Panicked \<Rightarrow> Panicked | Ok _ \<Rightarrow> Ok config'))))"

section \<open>What a parsed configuration contains\<close>

lemma split_colons_plain: "CHR '':'' \<notin> set s \<Longrightarrow> split_colons s = [s]"
  by (induction s rule: split_colons.induct) auto

lemma split_colons_method:
  assumes "CHR '':'' \<notin> set s" "CHR '':'' \<notin> set m"
  shows "split_colons (s @ ''::'' @ m) = [s, m]"
  using assms(1)
proof (induction s rule: split_colons.induct)
  case (1 c d s)
  then show ?case by auto
qed (simp_all add: split_colons_plain assms(2))

text \<open>\<open>plain_names\<close>: no service and no method has a colon in its name.\<close>

definition plain_names :: "'w service_definition list \<Rightarrow> bool" where
  "plain_names svcs \<longleftrightarrow> list_all (\<lambda>s. CHR '':'' \<notin> set (sd_id s) \<and> list_all (\<lambda>m. CHR '':'' \<notin> set (sm_name m)) (sd_methods s)) svcs"

definition declares_method :: "'w service_definition list \<Rightarrow> call_target \<Rightarrow> bool" where
  "declares_method svcs t \<longleftrightarrow> (\<exists>s\<in>set svcs. \<exists>m\<in>set (sd_methods s). t = \<lparr>target_service = sd_id s, target_method = sm_name m\<rparr>)"

lemma parse_valid_target:
  assumes "plain_names svcs" "t \<in> set (valid_targets svcs)" "parse_service_method t = Inr ct"
  shows "declares_method svcs ct"
proof -
  obtain s m where sm: "s \<in> set svcs" "m \<in> set (sd_methods s)" "t = sd_id s @ ''::'' @ sm_name m"
    using assms(2) by (auto simp: valid_targets_def method_string_def)
  then have "split_colons t = [sd_id s, sm_name m]"
    using assms(1) by (simp add: plain_names_def list_all_iff split_colons_method del: append.simps)
  then show ?thesis using assms(3) sm(1,2) by (auto simp: parse_service_method_def declares_method_def)
qed

lemma parse_sequence_targets:
  assumes "(parse_sequence raw :: 'x synth_error + parsed_step list) = Inr seq" "c \<in> set (concat seq)"
  shows "\<exists>step\<in>set raw. \<exists>t p. (t, p) \<in> set step \<and> (parse_service_method t :: 'x synth_error + call_target) = Inr (call_to c) \<and> probability c = p"
proof -
  obtain st where st: "st \<in> set seq" "c \<in> set st" using assms(2) by auto
  have "list_all2 (\<lambda>r st. list_all2 (\<lambda>x c. (parse_call x :: 'x synth_error + parsed_call) = Inr c) r st) raw seq"
    using assms(1) by (simp add: parse_sequence_def try_map_Inr)
  then obtain r where r: "r \<in> set raw" "list_all2 (\<lambda>x c. (parse_call x :: 'x synth_error + parsed_call) = Inr c) r st"
    using st(1) by (auto dest: list_all2_left)
  then obtain x where x: "x \<in> set r" "(parse_call x :: 'x synth_error + parsed_call) = Inr c" using st(2) by (auto dest: list_all2_left)
  then have "(fst x, snd x) \<in> set r" "(parse_service_method (fst x) :: 'x synth_error + call_target) = Inr (call_to c)" "probability c = snd x"
    by (auto simp: parse_call_def split: sum.splits)
  then show ?thesis using r(1) by blast
qed

end
