(* ===== verification/Oracle_Planner.thy ===== *)
theory Oracle_Planner
  imports Synth_Config Mean_Var
begin

text \<open>
  The oracle planner of the synthetic benchmark (\<open>apps/synthbench/src/oracle.rs\<close>): the frontend
  samples the whole execution of a request in advance, as a tree of planned calls, and annotates
  every call with its own work and the work that remains after it. Modelled are the plans and
  their totals, the hints, the calibration of the overhead from observed latencies and its two
  placements, the planning itself, and the validation of the call graph.

  Planning and validation recurse over the call graph: the model runs them to a given depth, with
  the result \<open>TooDeep\<close> beyond it, and the number of methods is shown to be depth enough. The
  random generator is a parameter (\<open>platform\<close>), as in the sampling of a latency. The order in
  which the keys of a \<open>HashMap\<close> are visited is the parameter \<open>iter\<close>.
\<close>

section \<open>Plans\<close>

record plan_hint =
  hint_child_work_us :: u64
  hint_remaining_after_us :: u64

datatype execution_plan =
    ExecutionPlan (local_work_us: u64) (estimate_overhead_us: u64) (child_steps: "planned_call list list")
and planned_call =
    PlannedCall (pc_target: call_target) (pc_hint: plan_hint) (pc_plan: execution_plan)

lemma plan_size [termination_simp]:
  assumes "step \<in> set steps" "c \<in> set step"
  shows "size (pc_plan c) < Suc (size_list (size_list size) steps)"
proof -
  have "size (pc_plan c) < size c" by (cases c) simp
  also have "size c \<le> size_list size step" by (rule size_list_estimation' [OF assms(2) order_refl])
  also have "size_list size step \<le> size_list (size_list size) steps" by (rule size_list_estimation' [OF assms(1) order_refl])
  finally show ?thesis by simp
qed

text \<open>\<open>iter().max().unwrap_or(0)\<close>; \<open>sum::<u64>()\<close> is the sum of machine words, which wraps.\<close>

definition iter_max :: "u64 list \<Rightarrow> u64" where
  "iter_max xs = (case xs of [] \<Rightarrow> 0 | x # r \<Rightarrow> fold max r x)"

fun actual_total_work_us :: "execution_plan \<Rightarrow> u64" where
  "actual_total_work_us (ExecutionPlan l o' steps) =
     saturating_add (sum_list (map (\<lambda>step. iter_max (map (\<lambda>c. actual_total_work_us (pc_plan c)) step)) steps)) l"

fun estimated_total_work_us :: "execution_plan \<Rightarrow> u64" where
  "estimated_total_work_us (ExecutionPlan l o' steps) =
     saturating_add (saturating_add
       (sum_list (map (\<lambda>step. iter_max (map (\<lambda>c. estimated_total_work_us (pc_plan c)) step)) steps)) l) o'"

section \<open>Hints\<close>

definition step_work_us :: "planned_call list \<Rightarrow> u64" where
  "step_work_us step = iter_max (map (\<lambda>c. estimated_total_work_us (pc_plan c)) step)"

definition set_hint :: "u64 \<Rightarrow> planned_call \<Rightarrow> planned_call" where
  "set_hint remaining_after_us c = PlannedCall (pc_target c)
     \<lparr>hint_child_work_us = estimated_total_work_us (pc_plan c), hint_remaining_after_us = remaining_after_us\<rparr> (pc_plan c)"

text \<open>The loop visits the steps from the last to the first.\<close>

fun attach_loop :: "u64 \<Rightarrow> planned_call list list \<Rightarrow> planned_call list list" where
  "attach_loop remaining [] = []"
| "attach_loop remaining (step # earlier) =
     map (set_hint remaining) step # attach_loop (saturating_add remaining (step_work_us step)) earlier"

definition attach_hints :: "u64 \<Rightarrow> planned_call list list \<Rightarrow> planned_call list list" where
  "attach_hints local_us steps = rev (attach_loop local_us (rev steps))"

definition with_plan :: "execution_plan \<Rightarrow> planned_call \<Rightarrow> planned_call" where
  "with_plan p c = PlannedCall (pc_target c) (pc_hint c) p"

fun refresh_hints :: "execution_plan \<Rightarrow> execution_plan" where
  "refresh_hints (ExecutionPlan l o' steps) =
     ExecutionPlan l o' (attach_hints l (map (map (\<lambda>c. with_plan (refresh_hints (pc_plan c)) c)) steps))"

section \<open>Overhead\<close>

definition add_overhead :: "u64 \<Rightarrow> execution_plan \<Rightarrow> execution_plan" where
  "add_overhead v p = ExecutionPlan (local_work_us p) (saturating_add (estimate_overhead_us p) v) (child_steps p)"

lemma size_add_overhead [termination_simp]: "size (add_overhead v p) = size p"
  by (cases p) (simp add: add_overhead_def)

text \<open>
  The two nested loops of \<open>add_overhead_to_last_call\<close>, both from the end: the first call found
  ends them. \<open>in_last\<close> visits the reversed steps, with the recursive call as its argument.
\<close>

fun in_last :: "(execution_plan \<Rightarrow> execution_plan \<times> bool) \<Rightarrow> u64 \<Rightarrow> planned_call list list \<Rightarrow> planned_call list list \<times> bool" where
  "in_last rec v [] = ([], False)"
| "in_last rec v (step # earlier) =
     (case rev step of
        [] \<Rightarrow> (case in_last rec v earlier of (e, b) \<Rightarrow> (step # e, b))
      | c # before \<Rightarrow>
          (case rec (pc_plan c) of (p, found) \<Rightarrow>
             (rev (with_plan (if found then p else add_overhead v p) c # before) # earlier, True)))"

lemma in_last_cong [fundef_cong]:
  assumes "xs = ys" "v = w" "\<And>step c. step \<in> set ys \<Longrightarrow> c \<in> set step \<Longrightarrow> f (pc_plan c) = g (pc_plan c)"
  shows "in_last f v xs = in_last g w ys"
  using assms(3) unfolding assms(1,2)
proof (induction ys)
  case (Cons step earlier)
  show ?case
  proof (cases "rev step")
    case Nil
    have "in_last f w earlier = in_last g w earlier" by (rule Cons.IH) (rule Cons.prems, simp_all)
    then show ?thesis by (simp add: Nil)
  next
    case c: (Cons c before)
    then have "c \<in> set step" by (metis list.set_intros(1) set_rev)
    then show ?thesis using Cons.prems [of step c] by (simp add: c)
  qed
qed simp

fun add_overhead_to_last_call :: "u64 \<Rightarrow> execution_plan \<Rightarrow> execution_plan \<times> bool" where
  "add_overhead_to_last_call v (ExecutionPlan l o' steps) =
     (case in_last (add_overhead_to_last_call v) v (rev steps) of (steps', found) \<Rightarrow> (ExecutionPlan l o' (rev steps'), found))"

text \<open>\<open>map_state\<close> is a loop that changes its elements and a variable; the sum of \<open>usize\<close> wraps.\<close>

fun map_state :: "('a \<Rightarrow> 's \<Rightarrow> 'b \<times> 's) \<Rightarrow> 'a list \<Rightarrow> 's \<Rightarrow> 'b list \<times> 's" where
  "map_state f [] s = ([], s)"
| "map_state f (x # xs) s = (case f x s of (y, s1) \<Rightarrow> (case map_state f xs s1 of (ys, s2) \<Rightarrow> (y # ys, s2)))"

lemma map_state_cong [fundef_cong]:
  assumes "xs = ys" "s = t" "\<And>x u. x \<in> set ys \<Longrightarrow> f x u = g x u"
  shows "map_state f xs s = map_state g ys t"
  using assms(3) unfolding assms(1,2) by (induction ys arbitrary: t) (auto split: prod.splits)

fun count_planned_calls :: "execution_plan \<Rightarrow> u64" where
  "count_planned_calls (ExecutionPlan l o' steps) =
     sum_list (map (\<lambda>step. sum_list (map (\<lambda>c. 1 + count_planned_calls (pc_plan c)) step)) steps)"

fun add_overhead_uniformly_inner :: "u64 \<Rightarrow> execution_plan \<Rightarrow> u64 \<Rightarrow> execution_plan \<times> u64" where
  "add_overhead_uniformly_inner per_call (ExecutionPlan l o' steps) remainder =
     (case map_state (map_state (\<lambda>c r.
          let extra = (if 0 < r then 1 else 0);
              r1 = (if 0 < r then r - 1 else r) in
          (case add_overhead_uniformly_inner per_call (add_overhead (saturating_add per_call extra) (pc_plan c)) r1 of
             (p, r2) \<Rightarrow> (with_plan p c, r2)))) steps remainder of
        (steps', r) \<Rightarrow> (ExecutionPlan l o' steps', r))"

definition add_overhead_uniformly :: "u64 \<Rightarrow> execution_plan \<Rightarrow> execution_plan" where
  "add_overhead_uniformly v plan =
     (let call_count = count_planned_calls plan in
      if call_count = 0 then plan
      else fst (add_overhead_uniformly_inner (v div call_count) plan (v mod call_count)))"

section \<open>Calibration\<close>

type_synonym overheads = "string \<rightharpoonup> f64"

definition clamp :: "f64 \<Rightarrow> f64 \<Rightarrow> f64 \<Rightarrow> f64" where
  "clamp lo hi x = (if x < lo then lo else if hi < x then hi else x)"

definition cal_record :: "f64_ops \<Rightarrow> online_overhead_config \<Rightarrow> string \<Rightarrow> u64 \<Rightarrow> overheads \<Rightarrow> overheads" where
  "cal_record fl config entry_point observed_overhead_us ov =
     (if \<not> oo_enabled config then ov
      else let smp = (if 0 < oo_max_overhead_us config then min observed_overhead_us (oo_max_overhead_us config)
                         else observed_overhead_us);
               alpha = clamp 0 1 (oo_alpha config) in
           if alpha = 0 then ov
           else (case ov entry_point of
                   Some current \<Rightarrow> ov(entry_point \<mapsto> f_add fl current (f_mul fl alpha (f_sub fl (of_u64 fl smp) current)))
                 | None \<Rightarrow> ov(entry_point \<mapsto> of_u64 fl smp)))"

definition current_overhead_us :: "overheads \<Rightarrow> string \<Rightarrow> u64" where
  "current_overhead_us ov entry_point = to_u64 (f_round (unwrap_or (ov entry_point) 0))"

definition cal_apply :: "online_overhead_config \<Rightarrow> overheads \<Rightarrow> string \<Rightarrow> execution_plan \<Rightarrow> execution_plan" where
  "cal_apply config ov entry_point plan =
     (if \<not> oo_enabled config then plan
      else let overhead_us = current_overhead_us ov entry_point in
           if overhead_us = 0 then plan
           else refresh_hints
             (case oo_placement config of
                LastCall \<Rightarrow> fst (add_overhead_to_last_call overhead_us plan)
              | UniformCalls \<Rightarrow> add_overhead_uniformly overhead_us plan))"

section \<open>Planning\<close>

record method_key =
  key_service :: string
  key_method :: string

definition from_target :: "call_target \<Rightarrow> method_key" where
  "from_target t = \<lparr>key_service = target_service t, key_method = target_method t\<rparr>"

datatype oracle_error =
    MissingEntryPoint string
  | Cycle method_key
  | MethodNotFound method_key
  | FanoutWidth string nat
  | BadProbability string call_target f64

type_synonym 'w methods = "(method_key \<times> 'w service_method) list"

record 'w platform =
  gen_f64 :: "'w \<Rightarrow> f64 \<times> 'w"
  time_now :: "'w clock"

record 'w planner =
  pl_entry_points :: "(string \<times> parsed_step list) list"
  pl_methods :: "'w methods"
  pl_estimate :: work_estimate_config

text \<open>The calibrator's configuration is the field \<open>online_overhead\<close> of the estimate; its table is an argument.\<close>

record 'w planning =
  sampling :: "'w sampler"
  visiting :: "method_key list"

type_synonym ('w, 'a) plans = "'w planning \<Rightarrow> (oracle_error, 'a) run \<times> 'w planning"

definition should_make_call :: "'w platform \<Rightarrow> f64 \<Rightarrow> 'w planning \<Rightarrow> bool \<times> 'w planning" where
  "should_make_call pf p s = (case gen_f64 pf (rng (sampling s)) of (x, w) \<Rightarrow>
     (x < p, s\<lparr>sampling := (sampling s)\<lparr>rng := w\<rparr>\<rparr>))"

definition plan_step :: "'w platform \<Rightarrow> (method_key \<Rightarrow> ('w, execution_plan) plans) \<Rightarrow> parsed_step \<Rightarrow> ('w, planned_call list) plans" where
  "plan_step pf plan_method step s =
     (case step of
        [] \<Rightarrow> (Ok [], s)
      | call # _ \<Rightarrow>
          (case should_make_call pf (probability call) s of (made, s1) \<Rightarrow>
             if made then
               and_then (plan_method (from_target (call_to call)) s1) (\<lambda>plan s2.
                 (Ok [PlannedCall (call_to call) \<lparr>hint_child_work_us = 0, hint_remaining_after_us = 0\<rparr> plan], s2))
             else (Ok [], s1)))"

fun plan_steps :: "'w platform \<Rightarrow> (method_key \<Rightarrow> ('w, execution_plan) plans) \<Rightarrow> parsed_step list \<Rightarrow> ('w, planned_call list list) plans" where
  "plan_steps pf plan_method [] s = (Ok [], s)"
| "plan_steps pf plan_method (step # rest) s =
     and_then (plan_step pf plan_method step s) (\<lambda>planned_step s1.
       and_then (plan_steps pf plan_method rest s1) (\<lambda>planned s2. (Ok (planned_step # planned), s2)))"

definition plan_sequence :: "'w platform \<Rightarrow> (method_key \<Rightarrow> ('w, execution_plan) plans) \<Rightarrow> parsed_step list \<Rightarrow> u64 \<Rightarrow> ('w, execution_plan) plans" where
  "plan_sequence pf plan_method sequence local_us s =
     and_then (plan_steps pf plan_method sequence s) (\<lambda>steps s1.
       (Ok (ExecutionPlan local_us 0 (attach_hints local_us steps)), s1))"

definition set_overhead :: "u64 \<Rightarrow> execution_plan \<Rightarrow> execution_plan" where
  "set_overhead v p = ExecutionPlan (local_work_us p) v (child_steps p)"

fun plan_method :: "'w platform \<Rightarrow> 'w planner \<Rightarrow> nat \<Rightarrow> method_key \<Rightarrow> ('w, execution_plan) plans" where
  "plan_method pf pl 0 key s = (TooDeep, s)"
| "plan_method pf pl (Suc depth) key s =
     (if key \<in> set (visiting s) then (Err (Cycle key), s)
      else let s1 = s\<lparr>visiting := key # visiting s\<rparr> in
        (case map_of (pl_methods pl) key of
           None \<Rightarrow> (Err (MethodNotFound key), s1)
         | Some m \<Rightarrow>
             (case sample (time_now pf) (latency_dist m) (sampling s1) of
                Panic \<Rightarrow> (Panicked, s1)
              | Done (work, smp) \<Rightarrow>
                  let overhead = overhead_for (pl_estimate pl) (key_service key) (key_method key);
                      (r, s2) = plan_sequence pf (plan_method pf pl depth) (parsed_call_sequence m) work (s1\<lparr>sampling := smp\<rparr>)
                  in (map_run (set_overhead overhead) r, s2\<lparr>visiting := removeAll key (visiting s2)\<rparr>))))"

definition plan_entry_point ::
    "'w platform \<Rightarrow> 'w planner \<Rightarrow> nat \<Rightarrow> overheads \<Rightarrow> string \<Rightarrow> 'w sampler \<Rightarrow> (oracle_error, execution_plan) run \<times> 'w sampler" where
  "plan_entry_point pf pl depth ov entry_point s =
     (case map_of (pl_entry_points pl) entry_point of
        None \<Rightarrow> (Err (MissingEntryPoint entry_point), s)
      | Some sequence \<Rightarrow>
          (case plan_sequence pf (plan_method pf pl depth) sequence 0 \<lparr>sampling = s, visiting = []\<rparr> of
             (r, s1) \<Rightarrow> (map_run (cal_apply (online_overhead (pl_estimate pl)) ov entry_point) r, sampling s1)))"

definition record_entry_point_latency ::
    "f64_ops \<Rightarrow> 'w planner \<Rightarrow> string \<Rightarrow> u64 \<Rightarrow> execution_plan \<Rightarrow> overheads \<Rightarrow> overheads" where
  "record_entry_point_latency fl pl entry_point observed_latency_us plan ov =
     cal_record fl (online_overhead (pl_estimate pl)) entry_point
       (saturating_sub observed_latency_us (actual_total_work_us plan)) ov"

section \<open>Validation\<close>

definition check_call :: "string \<Rightarrow> parsed_call \<Rightarrow> oracle_error + unit" where
  "check_call owner c = (if 0 \<le> probability c \<and> probability c \<le> 1 then Inr ()
     else Inl (BadProbability owner (call_to c) (probability c)))"

definition validate_sequence_shape :: "parsed_step list \<Rightarrow> string \<Rightarrow> oracle_error + unit" where
  "validate_sequence_shape sequence owner =
     try_each (\<lambda>step. if 1 < length step then Inl (FanoutWidth owner (length step))
       else try_each (check_call owner) step) sequence"

definition first_key :: "parsed_step \<Rightarrow> method_key list" where
  "first_key step = (case step of [] \<Rightarrow> [] | call # _ \<Rightarrow> [from_target (call_to call)])"

record walk =
  visited :: "method_key list"
  on_path :: "method_key list"

fun walk_steps :: "(method_key \<Rightarrow> walk \<Rightarrow> (oracle_error, unit) run \<times> walk) \<Rightarrow> parsed_step list \<Rightarrow> walk \<Rightarrow> (oracle_error, unit) run \<times> walk" where
  "walk_steps rec [] s = (Ok (), s)"
| "walk_steps rec (step # rest) s =
     (case first_key step of
        [] \<Rightarrow> walk_steps rec rest s
      | child_key # _ \<Rightarrow> and_then (rec child_key s) (\<lambda>_ s1. walk_steps rec rest s1))"

fun validate_acyclic :: "'w methods \<Rightarrow> nat \<Rightarrow> method_key \<Rightarrow> walk \<Rightarrow> (oracle_error, unit) run \<times> walk" where
  "validate_acyclic methods 0 key s = (TooDeep, s)"
| "validate_acyclic methods (Suc depth) key s =
     (if key \<in> set (visited s) then (Ok (), s)
      else if key \<in> set (on_path s) then (Err (Cycle key), s)
      else let s1 = s\<lparr>on_path := key # on_path s\<rparr> in
        (case map_of methods key of
           None \<Rightarrow> (Err (MethodNotFound key), s1)
         | Some m \<Rightarrow> and_then (walk_steps (validate_acyclic methods depth) (parsed_call_sequence m) s1) (\<lambda>_ s2.
             (Ok (), s2\<lparr>on_path := removeAll key (on_path s2), visited := key # visited s2\<rparr>))))"

fun walk_keys :: "'w methods \<Rightarrow> nat \<Rightarrow> method_key list \<Rightarrow> walk \<Rightarrow> (oracle_error, unit) run" where
  "walk_keys methods depth [] s = Ok ()"
| "walk_keys methods depth (key # keys) s =
     fst (and_then (validate_acyclic methods depth key s) (\<lambda>_ s1. (walk_keys methods depth keys s1, s1)))"

text \<open>Inserting a method into the table of methods replaces an earlier one of the same key.\<close>

definition collect_methods :: "'w service_definition list \<Rightarrow> 'w methods" where
  "collect_methods svcs = fold (\<lambda>s. fold (\<lambda>m. AList.update \<lparr>key_service = sd_id s, key_method = sm_name m\<rparr> m) (sd_methods s)) svcs []"

definition quoted_entry :: "string \<Rightarrow> string" where
  "quoted_entry e = ''entry point '' @ [CHR 0x27] @ e @ [CHR 0x27]"

definition validate_supported_call_graph ::
    "(method_key list \<Rightarrow> method_key list) \<Rightarrow> nat \<Rightarrow> 'w call_graph_config \<Rightarrow> (oracle_error, unit) run" where
  "validate_supported_call_graph iter depth config =
     (case try_each (\<lambda>(e, sequence). validate_sequence_shape sequence (quoted_entry e)) (parsed_entry_points config) of
        Inl e \<Rightarrow> Err e
      | Inr _ \<Rightarrow>
          (case try_each (\<lambda>s. try_each (\<lambda>m. validate_sequence_shape (parsed_call_sequence m) (method_string (sd_id s) (sm_name m)))
              (sd_methods s)) (services config) of
             Inl e \<Rightarrow> Err e
           | Inr _ \<Rightarrow>
               let methods = collect_methods (services config) in
               walk_keys methods depth (iter (map fst methods)) \<lparr>visited = [], on_path = []\<rparr>))"

section \<open>Building a planner\<close>

definition clone_method :: "f64_ops \<Rightarrow> 'w rand_distr \<Rightarrow> 'w service_method \<Rightarrow> 'w service_method exec" where
  "clone_method fl rd m = map_exec (\<lambda>d. m\<lparr>latency_dist := d\<rparr>) (clone_dist fl rd (latency_dist m))"

fun clone_all :: "f64_ops \<Rightarrow> 'w rand_distr \<Rightarrow> 'w service_method list \<Rightarrow> 'w service_method list exec" where
  "clone_all fl rd [] = Done []"
| "clone_all fl rd (m # ms) = bind_exec (clone_method fl rd m) (\<lambda>m'. map_exec ((#) m') (clone_all fl rd ms))"

fun clone_services :: "f64_ops \<Rightarrow> 'w rand_distr \<Rightarrow> 'w service_definition list \<Rightarrow> 'w service_definition list exec" where
  "clone_services fl rd [] = Done []"
| "clone_services fl rd (s # ss) = bind_exec (clone_all fl rd (sd_methods s))
     (\<lambda>ms. map_exec ((#) (s\<lparr>sd_methods := ms\<rparr>)) (clone_services fl rd ss))"

definition planner_new ::
    "f64_ops \<Rightarrow> 'w rand_distr \<Rightarrow> (method_key list \<Rightarrow> method_key list) \<Rightarrow> nat \<Rightarrow> 'w call_graph_config \<Rightarrow> work_estimate_config \<Rightarrow>
      (oracle_error, 'w planner) run" where
  "planner_new fl rd iter depth config estimate =
     (case validate_supported_call_graph iter depth config of
        Err e \<Rightarrow> Err e | TooDeep \<Rightarrow> TooDeep | Panicked \<Rightarrow> Panicked
      | Ok _ \<Rightarrow>
          (case clone_services fl rd (services config) of
             Panic \<Rightarrow> Panicked
           | Done svcs \<Rightarrow> Ok \<lparr>pl_entry_points = parsed_entry_points config, pl_methods = collect_methods svcs, pl_estimate = estimate\<rparr>))"

end
