(* ===== verification/Oracle_Acyclic.thy ===== *)
theory Oracle_Acyclic
  imports Oracle_Planner
begin

text \<open>
  Validation and planning over the call graph. Validation visits the methods depth first and
  leaves them in the order in which they were finished: a topological order of the call graph.
  Along such an order planning meets neither a cycle nor a missing method, and its recursion is
  no deeper than the order is long.
\<close>

section \<open>Topological orders\<close>

text \<open>\<open>callees\<close>: the methods that the first calls of a sequence name. In \<open>topo\<close>, every method is followed by its callees.\<close>

definition callees :: "parsed_step list \<Rightarrow> method_key list" where
  "callees sequence = concat (map first_key sequence)"

fun topo :: "'w methods \<Rightarrow> method_key list \<Rightarrow> bool" where
  "topo methods [] \<longleftrightarrow> True"
| "topo methods (k # ks) \<longleftrightarrow>
     (case map_of methods k of None \<Rightarrow> False | Some m \<Rightarrow> set (callees (parsed_call_sequence m)) \<subseteq> set ks) \<and> k \<notin> set ks \<and> topo methods ks"

lemma callees_simps [simp]: "callees [] = []" "callees (step # rest) = first_key step @ callees rest"
  by (simp_all add: callees_def)

lemma topo_dom: "topo methods ks \<Longrightarrow> set ks \<subseteq> dom (map_of methods)"
  by (induction ks) (auto split: option.splits)

section \<open>Validation\<close>

definition walk_inv :: "'w methods \<Rightarrow> walk \<Rightarrow> bool" where
  "walk_inv methods s \<longleftrightarrow> topo methods (visited s) \<and> set (visited s) \<inter> set (on_path s) = {} \<and>
     distinct (on_path s) \<and> set (on_path s) \<subseteq> dom (map_of methods)"

text \<open>A walk that succeeds: it restores the path, keeps what was visited and visits the keys \<open>ks\<close>.\<close>

definition walked :: "'w methods \<Rightarrow> method_key list \<Rightarrow> walk \<Rightarrow> walk \<Rightarrow> bool" where
  "walked methods ks s s' \<longleftrightarrow> walk_inv methods s' \<and> on_path s' = on_path s \<and> set (visited s) \<union> set ks \<subseteq> set (visited s')"

lemma walk_steps_walked:
  assumes "walk_steps rec steps s = (Ok u, s')" "walk_inv methods s"
    and rec: "\<And>k s s' u. k \<in> set (callees steps) \<Longrightarrow> rec k s = (Ok u, s') \<Longrightarrow> walk_inv methods s \<Longrightarrow> walked methods [k] s s'"
  shows "walked methods (callees steps) s s'"
  using assms
proof (induction steps arbitrary: s)
  case Nil
  then show ?case by (simp add: walked_def)
next
  case (Cons step rest)
  show ?case
  proof (cases "first_key step")
    case Nil
    then show ?thesis using Cons by simp
  next
    case (Cons k ks)
    then have ks: "ks = []" by (auto simp: first_key_def split: list.splits)
    obtain s1 where s1: "rec k s = (Ok (), s1)" "walk_steps rec rest s1 = (Ok u, s')"
      using Cons.prems(1) Cons by (auto simp: and_then_Ok)
    have w: "walked methods [k] s s1" using Cons.prems(2,3) s1(1) Cons by simp
    then have "walked methods (callees rest) s1 s'"
      using Cons.IH [OF s1(2)] Cons.prems(3) by (auto simp: walked_def)
    then show ?thesis using w Cons ks by (auto simp: walked_def)
  qed
qed

lemma validate_acyclic_walked:
  "validate_acyclic methods depth key s = (Ok u, s') \<Longrightarrow> walk_inv methods s \<Longrightarrow> walked methods [key] s s'"
proof (induction depth arbitrary: key s s' u)
  case (Suc depth)
  show ?case
  proof (cases "key \<in> set (visited s)")
    case True
    then show ?thesis using Suc.prems by (auto simp: walked_def)
  next
    case False
    let ?s1 = "s\<lparr>on_path := key # on_path s\<rparr>"
    obtain m s2 where m: "key \<notin> set (on_path s)" "map_of methods key = Some m"
      and s2: "walk_steps (validate_acyclic methods depth) (parsed_call_sequence m) ?s1 = (Ok (), s2)"
        "s' = s2\<lparr>on_path := removeAll key (on_path s2), visited := key # visited s2\<rparr>"
      using Suc.prems(1) False by (auto simp: Let_def and_then_Ok split: if_splits option.splits)
    have "walk_inv methods ?s1" using Suc.prems(2) False m by (auto simp: walk_inv_def)
    then have "walked methods (callees (parsed_call_sequence m)) ?s1 s2"
      by (rule walk_steps_walked [OF s2(1)]) (rule Suc.IH)
    then show ?thesis using m s2(2) by (auto simp: walked_def walk_inv_def)
  qed
qed simp

text \<open>The recursion is no deeper than the number of methods that are not on the path.\<close>

lemma walk_steps_depth:
  assumes "walk_inv methods s" "\<And>k s. on_path s = P \<Longrightarrow> walk_inv methods s \<Longrightarrow> fst (rec k s) \<noteq> TooDeep"
    and "on_path s = P" "\<And>k s s' u. rec k s = (Ok u, s') \<Longrightarrow> walk_inv methods s \<Longrightarrow> walked methods [k] s s'"
  shows "fst (walk_steps rec steps s) \<noteq> TooDeep"
  using assms
proof (induction steps arbitrary: s)
  case (Cons step rest)
  show ?case
  proof (cases "first_key step")
    case Nil
    then show ?thesis using Cons by simp
  next
    case (Cons k ks)
    have "fst (walk_steps rec rest s1) \<noteq> TooDeep" if "rec k s = (Ok u, s1)" for u s1
      using Cons.IH [of s1] Cons.prems(4) [OF that Cons.prems(1)] Cons.prems(2-4) by (auto simp: walked_def)
    then show ?thesis using Cons Cons.prems(1-3) by (auto simp: and_then_TooDeep)
  qed
qed simp

lemma validate_acyclic_depth:
  "walk_inv methods s \<Longrightarrow> card (dom (map_of methods) - set (on_path s)) < depth \<Longrightarrow>
    fst (validate_acyclic methods depth key s) \<noteq> TooDeep"
proof (induction depth arbitrary: key s)
  case (Suc depth)
  let ?s1 = "s\<lparr>on_path := key # on_path s\<rparr>"
  have "fst (walk_steps (validate_acyclic methods depth) (parsed_call_sequence m) ?s1) \<noteq> TooDeep"
    if key: "key \<notin> set (visited s)" "key \<notin> set (on_path s)" "map_of methods key = Some m" for m
  proof (rule walk_steps_depth [where P = "key # on_path s"])
    show "walk_inv methods ?s1" using Suc.prems(1) key by (auto simp: walk_inv_def)
    have "dom (map_of methods) - set (key # on_path s) \<subset> dom (map_of methods) - set (on_path s)" using key by auto
    then have "card (dom (map_of methods) - set (key # on_path s)) < card (dom (map_of methods) - set (on_path s))"
      by (intro psubset_card_mono finite_Diff finite_dom_map_of)
    then have "card (dom (map_of methods) - set (key # on_path s)) < depth" using Suc.prems(2) by linarith
    then show "fst (validate_acyclic methods depth k s') \<noteq> TooDeep" if "on_path s' = key # on_path s" "walk_inv methods s'" for k s'
      using Suc.IH [OF that(2)] that(1) by simp
  qed (simp_all add: validate_acyclic_walked)
  then show ?case by (auto simp: Let_def and_then_TooDeep split: option.splits)
qed simp

lemma walk_keys_topo:
  assumes "walk_keys methods depth keys s = Ok u" "walk_inv methods s" "on_path s = []"
  shows "\<exists>s'. walk_inv methods s' \<and> set (visited s) \<union> set keys \<subseteq> set (visited s')"
  using assms
proof (induction keys arbitrary: s)
  case (Cons key keys)
  obtain v s1 where s1: "validate_acyclic methods depth key s = (Ok v, s1)" "walk_keys methods depth keys s1 = Ok u"
    using Cons.prems(1) by (cases "(validate_acyclic methods depth key s, \<lambda>(_::unit) s1. (walk_keys methods depth keys s1, s1))" rule: and_then.cases) auto
  have "walked methods [key] s s1" by (rule validate_acyclic_walked [OF s1(1) Cons.prems(2)])
  then show ?case using Cons.IH [OF s1(2)] Cons.prems(3) by (fastforce simp: walked_def)
qed auto

lemma walk_keys_depth:
  assumes "walk_inv methods s" "on_path s = []" "card (dom (map_of methods)) < depth"
  shows "walk_keys methods depth keys s \<noteq> TooDeep"
  using assms
proof (induction keys arbitrary: s)
  case (Cons key keys)
  have "fst (validate_acyclic methods depth key s) \<noteq> TooDeep"
    using validate_acyclic_depth [OF Cons.prems(1)] Cons.prems(2,3) by simp
  moreover have "walk_keys methods depth keys s1 \<noteq> TooDeep" if "validate_acyclic methods depth key s = (Ok v, s1)" for v s1
    using Cons.IH validate_acyclic_walked [OF that Cons.prems(1)] Cons.prems(2,3) by (auto simp: walked_def)
  ultimately show ?case by (auto simp: and_then_TooDeep)
qed simp

section \<open>What validation accepts\<close>

text \<open>
  \<open>call_edges\<close> relates a method to the methods it calls first in its steps; a graph is \<open>closed_graph\<close>
  when every such method exists.
\<close>

definition call_edges :: "'w methods \<Rightarrow> (method_key \<times> method_key) set" where
  "call_edges methods = {(k, k'). \<exists>m. map_of methods k = Some m \<and> k' \<in> set (callees (parsed_call_sequence m))}"

definition closed_graph :: "'w methods \<Rightarrow> bool" where
  "closed_graph methods \<longleftrightarrow> snd ` call_edges methods \<subseteq> dom (map_of methods)"

fun rank :: "method_key list \<Rightarrow> method_key \<Rightarrow> nat" where
  "rank [] k = 0"
| "rank (j # js) k = (if k = j then Suc (length js) else rank js k)"

lemma rank_le: "rank ks k \<le> length ks"
  by (induction ks) (auto intro: le_SucI)

lemma topo_edge:
  "topo methods ks \<Longrightarrow> k \<in> set ks \<Longrightarrow> (k, k') \<in> call_edges methods \<Longrightarrow> k' \<in> set ks \<and> rank ks k' < rank ks k"
proof (induction ks)
  case (Cons j js)
  show ?case
  proof (cases "k = j")
    case True
    then have "k' \<in> set js" "j \<notin> set js" using Cons.prems by (auto simp: call_edges_def)
    moreover have "rank js k' < Suc (length js)" using rank_le [of js k'] by simp
    ultimately show ?thesis using True by auto
  next
    case False
    then show ?thesis using Cons by auto
  qed
qed simp

lemma topo_acyclic:
  assumes "topo methods ks" "dom (map_of methods) \<subseteq> set ks"
  shows "closed_graph methods" "acyclic (call_edges methods)"
proof -
  have edge: "k' \<in> set ks \<and> rank ks k' < rank ks k" if "(k, k') \<in> call_edges methods" for k k'
    using topo_edge [OF assms(1) _ that] that assms(2) by (auto simp: call_edges_def)
  then show "closed_graph methods" using topo_dom [OF assms(1)] by (fastforce simp: closed_graph_def)
  have "(call_edges methods)\<inverse> \<subseteq> measure (rank ks)" using edge by auto
  then have "wf ((call_edges methods)\<inverse>)" using wf_measure wf_subset by blast
  then show "acyclic (call_edges methods)" using wf_acyclic acyclic_converse by blast
qed

text \<open>A path of the walk is a path of the call graph: the next method is a callee of the first on it.\<close>

fun call_path :: "'w methods \<Rightarrow> method_key list \<Rightarrow> bool" where
  "call_path methods (k # k' # ks) \<longleftrightarrow> (k', k) \<in> call_edges methods \<and> call_path methods (k' # ks)"
| "call_path methods _ \<longleftrightarrow> True"

lemma call_path_reaches:
  "call_path methods (k # ks) \<Longrightarrow> j \<in> set ks \<Longrightarrow> (j, k) \<in> (call_edges methods)\<^sup>+"
proof (induction ks arbitrary: k)
  case (Cons k' ks)
  then have "(k', k) \<in> call_edges methods" "call_path methods (k' # ks)" by simp_all
  then show ?case using Cons by (cases "j = k'") (auto intro: trancl_into_trancl)
qed simp

definition err_free :: "(oracle_error, 'a) run \<Rightarrow> bool" where
  "err_free r \<longleftrightarrow> r = TooDeep \<or> (\<exists>a. r = Ok a)"

lemma err_free_simps [simp]: "err_free (Ok a)" "err_free TooDeep" "\<not> err_free (Err e)" "\<not> err_free Panicked"
  by (simp_all add: err_free_def)

lemma err_free_and_then:
  assumes "err_free (fst m)" "\<And>a s. m = (Ok a, s) \<Longrightarrow> err_free (fst (f a s))"
  shows "err_free (fst (and_then m f))"
  using assms by (cases "(m, f)" rule: and_then.cases) auto

lemma walk_steps_err_free:
  assumes "walk_inv methods s" "on_path s = P"
    and "\<And>k s. k \<in> set (callees steps) \<Longrightarrow> on_path s = P \<Longrightarrow> walk_inv methods s \<Longrightarrow> err_free (fst (rec k s))"
    and "\<And>k s s' u. rec k s = (Ok u, s') \<Longrightarrow> walk_inv methods s \<Longrightarrow> walked methods [k] s s'"
  shows "err_free (fst (walk_steps rec steps s))"
  using assms
proof (induction steps arbitrary: s)
  case (Cons step rest)
  show ?case
  proof (cases "first_key step")
    case Nil
    then show ?thesis using Cons by simp
  next
    case k: (Cons k ks)
    have "err_free (fst (walk_steps rec rest s1))" if "rec k s = (Ok u, s1)" for u s1
      using Cons.prems(4) [OF that Cons.prems(1)] Cons.prems(2-4) by (intro Cons.IH) (auto simp: walked_def)
    then show ?thesis using k Cons.prems(1-3) by (auto intro!: err_free_and_then)
  qed
qed simp

lemma validate_acyclic_err_free:
  assumes "closed_graph methods" "acyclic (call_edges methods)"
  shows "walk_inv methods s \<Longrightarrow> call_path methods (key # on_path s) \<Longrightarrow> key \<in> dom (map_of methods) \<Longrightarrow>
    err_free (fst (validate_acyclic methods depth key s))"
proof (induction depth arbitrary: key s)
  case (Suc depth)
  have "key \<notin> set (on_path s)"
    using call_path_reaches [OF Suc.prems(2)] assms(2) by (auto simp: acyclic_def)
  moreover obtain m where m: "map_of methods key = Some m" using Suc.prems(3) by auto
  let ?s1 = "s\<lparr>on_path := key # on_path s\<rparr>"
  have "err_free (fst (walk_steps (validate_acyclic methods depth) (parsed_call_sequence m) ?s1))"
    if new: "key \<notin> set (visited s)" "key \<notin> set (on_path s)"
  proof (rule walk_steps_err_free [where P = "key # on_path s"])
    show "walk_inv methods ?s1" using Suc.prems(1) m new by (auto simp: walk_inv_def)
    show "err_free (fst (validate_acyclic methods depth k s'))"
      if k: "k \<in> set (callees (parsed_call_sequence m))" "on_path s' = key # on_path s" "walk_inv methods s'" for k s'
    proof (rule Suc.IH [OF k(3)])
      have "(key, k) \<in> call_edges methods" using k(1) m by (auto simp: call_edges_def)
      then show "call_path methods (k # on_path s')" "k \<in> dom (map_of methods)"
        using k(2) Suc.prems(2) assms(1) by (force simp: closed_graph_def)+
    qed
  qed (simp_all add: validate_acyclic_walked)
  ultimately show ?case using m by (auto simp: Let_def intro!: err_free_and_then)
qed simp

lemma walk_keys_err_free:
  assumes "closed_graph methods" "acyclic (call_edges methods)"
  shows "walk_inv methods s \<Longrightarrow> on_path s = [] \<Longrightarrow> set keys \<subseteq> dom (map_of methods) \<Longrightarrow> err_free (walk_keys methods depth keys s)"
proof (induction keys arbitrary: s)
  case (Cons key keys)
  have "err_free (walk_keys methods depth keys s1)" if "validate_acyclic methods depth key s = (Ok v, s1)" for v s1
    using Cons.IH [of s1] validate_acyclic_walked [OF that Cons.prems(1)] Cons.prems(2,3) by (auto simp: walked_def)
  moreover have "err_free (fst (validate_acyclic methods depth key s))"
    using Cons.prems by (intro validate_acyclic_err_free [OF assms]) auto
  ultimately show ?case by (auto intro!: err_free_and_then)
qed simp

lemma walk_keys_iff:
  assumes "card (dom (map_of methods)) < depth" "set keys = dom (map_of methods)"
  shows "walk_keys methods depth keys \<lparr>visited = [], on_path = []\<rparr> = Ok () \<longleftrightarrow>
    closed_graph methods \<and> acyclic (call_edges methods)" (is "walk_keys _ _ _ ?s = _ \<longleftrightarrow> ?spec")
proof -
  have inv: "walk_inv methods ?s" by (simp add: walk_inv_def)
  show ?thesis
  proof
    assume ok: "walk_keys methods depth keys ?s = Ok ()"
    obtain s' where "walk_inv methods s'" "set (visited ?s) \<union> set keys \<subseteq> set (visited s')"
      using walk_keys_topo [OF ok inv] by auto
    then have "topo methods (visited s')" "dom (map_of methods) \<subseteq> set (visited s')" using assms(2) by (simp_all add: walk_inv_def)
    then show ?spec using topo_acyclic [of methods "visited s'"] by simp
  next
    assume ?spec
    then have "err_free (walk_keys methods depth keys ?s)" using walk_keys_err_free [OF _ _ inv] assms(2) by simp
    moreover have "walk_keys methods depth keys ?s \<noteq> TooDeep" using walk_keys_depth [OF inv] assms(1) by simp
    ultimately show "walk_keys methods depth keys ?s = Ok ()" by (auto simp: err_free_def)
  qed
qed

section \<open>The table of methods\<close>

definition flat_methods :: "'w service_definition list \<Rightarrow> 'w methods" where
  "flat_methods svcs = concat (map (\<lambda>s. map (\<lambda>m. (\<lparr>key_service = sd_id s, key_method = sm_name m\<rparr>, m)) (sd_methods s)) svcs)"

definition method_count :: "'w service_definition list \<Rightarrow> nat" where
  "method_count svcs = length (flat_methods svcs)"

lemma fold_concat: "fold f (concat xss) a = fold (\<lambda>xs. fold f xs) xss a"
  by (induction xss arbitrary: a) simp_all

lemma collect_methods_flat: "collect_methods svcs = fold (\<lambda>(k, m). AList.update k m) (flat_methods svcs) []"
  by (simp add: collect_methods_def flat_methods_def fold_concat fold_map o_def)

lemma map_of_fold_update: "map_of (fold (\<lambda>(k, m). AList.update k m) xs al) = map_of al ++ map_of (rev xs)"
  by (induction xs arbitrary: al) (auto simp: update_conv' map_add_def fun_eq_iff split: option.splits)

lemma map_of_collect: "map_of (collect_methods svcs) = map_of (rev (flat_methods svcs))"
  by (simp add: collect_methods_flat map_of_fold_update)

lemma dom_collect: "dom (map_of (collect_methods svcs)) = fst ` set (flat_methods svcs)"
  by (simp add: map_of_collect dom_map_of_conv_image_fst)

lemma keys_collect: "set (map fst (collect_methods svcs)) = dom (map_of (collect_methods svcs))"
  by (simp add: dom_map_of_conv_image_fst)

lemma card_collect: "card (dom (map_of (collect_methods svcs))) \<le> method_count svcs"
  unfolding dom_collect method_count_def by (metis card_image_le card_length finite_set le_trans)

lemma map_of_collect_in: "map_of (collect_methods svcs) k = Some m \<Longrightarrow> (k, m) \<in> set (flat_methods svcs)"
  unfolding map_of_collect by (drule map_of_SomeD) simp

lemma flat_in_methods: "(k, m) \<in> set (flat_methods svcs) \<Longrightarrow> \<exists>s\<in>set svcs. m \<in> set (sd_methods s)"
  by (auto simp: flat_methods_def)

lemma map_of_list_all2:
  "list_all2 (\<lambda>x y. fst x = fst y \<and> R (snd x) (snd y)) xs ys \<Longrightarrow> rel_option R (map_of xs k) (map_of ys k)"
  by (induction rule: list_all2_induct) auto

text \<open>Two tables whose methods correspond.\<close>

lemma collect_related:
  assumes "list_all2 (\<lambda>x y. fst x = fst y \<and> R (snd x) (snd y)) (flat_methods svcs) (flat_methods svcs')"
  shows "rel_option R (map_of (collect_methods svcs) k) (map_of (collect_methods svcs') k)"
  unfolding map_of_collect using assms by (intro map_of_list_all2) simp

lemma flat_related:
  assumes "list_all2 (\<lambda>s s'. sd_id s = sd_id s' \<and> list_all2 (\<lambda>m m'. sm_name m = sm_name m' \<and> R m m') (sd_methods s) (sd_methods s')) svcs svcs'"
  shows "list_all2 (\<lambda>x y. fst x = fst y \<and> R (snd x) (snd y)) (flat_methods svcs) (flat_methods svcs')"
  using assms
proof (induction rule: list_all2_induct)
  case (Cons s svcs s' svcs')
  have "list_all2 (\<lambda>x y. fst x = fst y \<and> R (snd x) (snd y))
      (map (\<lambda>m. (\<lparr>key_service = sd_id s, key_method = sm_name m\<rparr>, m)) (sd_methods s))
      (map (\<lambda>m. (\<lparr>key_service = sd_id s', key_method = sm_name m\<rparr>, m)) (sd_methods s'))"
    using Cons(1) by (auto simp: list_all2_map1 list_all2_map2 elim!: list_all2_mono)
  then show ?case using Cons by (simp add: flat_methods_def list_all2_appendI)
qed (simp add: flat_methods_def)

lemma clone_all_related:
  "clone_all fl rd ms = Done ms' \<Longrightarrow> list_all2 (\<lambda>m m'. sm_name m = sm_name m' \<and> clone_method fl rd m = Done m') ms ms'"
  by (induction ms arbitrary: ms') (auto simp: exec_simps clone_method_def)

lemma clone_services_related:
  "clone_services fl rd svcs = Done svcs' \<Longrightarrow> list_all2 (\<lambda>s s'. sd_id s = sd_id s' \<and>
     list_all2 (\<lambda>m m'. sm_name m = sm_name m' \<and> clone_method fl rd m = Done m') (sd_methods s) (sd_methods s')) svcs svcs'"
  by (induction svcs arbitrary: svcs') (auto simp: exec_simps dest: clone_all_related)

lemma clone_all_Done: "(\<And>m. m \<in> set ms \<Longrightarrow> clone_dist fl rd (latency_dist m) \<noteq> Panic) \<Longrightarrow> \<exists>ms'. clone_all fl rd ms = Done ms'"
proof (induction ms)
  case (Cons m ms)
  obtain d where "clone_dist fl rd (latency_dist m) = Done d" using Cons.prems [of m] by (cases "clone_dist fl rd (latency_dist m)") auto
  then show ?case using Cons by (auto simp: clone_method_def)
qed simp

lemma clone_services_Done:
  "(\<And>s m. s \<in> set svcs \<Longrightarrow> m \<in> set (sd_methods s) \<Longrightarrow> clone_dist fl rd (latency_dist m) \<noteq> Panic) \<Longrightarrow>
    \<exists>svcs'. clone_services fl rd svcs = Done svcs'"
proof (induction svcs)
  case (Cons s svcs)
  obtain ms where "clone_all fl rd (sd_methods s) = Done ms" using clone_all_Done [of "sd_methods s" fl rd] Cons.prems [of s] by auto
  moreover obtain svcs' where "clone_services fl rd svcs = Done svcs'" using Cons.IH Cons.prems by (meson list.set_intros(2))
  ultimately show ?case by simp
qed simp

section \<open>Planning along a topological order\<close>

lemma plan_steps_ok:
  assumes "\<And>k s. k \<in> set (callees steps) \<Longrightarrow> visiting s = W \<Longrightarrow> \<exists>p s'. rec k s = (Ok p, s') \<and> visiting s' = W"
  shows "visiting s = W \<Longrightarrow> \<exists>ps s'. plan_steps pf rec steps s = (Ok ps, s') \<and> visiting s' = W"
  using assms
proof (induction steps arbitrary: s)
  case (Cons step rest)
  have "\<exists>p s1. plan_step pf rec step s = (Ok p, s1) \<and> visiting s1 = W"
  proof (cases step)
    case Nil
    then show ?thesis using Cons.prems(1) by (simp add: plan_step_def)
  next
    case c: (Cons c cs)
    obtain b s0 where b: "should_make_call pf (probability c) s = (b, s0)" "visiting s0 = W"
      using Cons.prems(1) by (cases "should_make_call pf (probability c) s") (auto simp: should_make_call_def split: prod.splits)
    have "from_target (call_to c) \<in> set (callees (step # rest))" by (simp add: c first_key_def)
    from Cons.prems(2) [OF this b(2)] obtain p s1 where "rec (from_target (call_to c)) s0 = (Ok p, s1)" "visiting s1 = W" by blast
    then show ?thesis using b by (cases b) (auto simp: plan_step_def c)
  qed
  then obtain p s1 where p: "plan_step pf rec step s = (Ok p, s1)" "visiting s1 = W" by blast
  have "\<exists>ps s'. plan_steps pf rec rest s1 = (Ok ps, s') \<and> visiting s' = W"
    by (rule Cons.IH [OF p(2)]) (rule Cons.prems(2), simp_all)
  then show ?case using p by auto
qed simp

definition samples_total :: "'w platform \<Rightarrow> 'w methods \<Rightarrow> bool" where
  "samples_total pf methods \<longleftrightarrow>
     (\<forall>k m s. map_of methods k = Some m \<longrightarrow> (\<exists>v s'. sample (time_now pf) (latency_dist m) s = Done (v, s')))"

lemma plan_method_ok:
  assumes "samples_total pf (pl_methods pl)"
  shows "topo (pl_methods pl) ks \<Longrightarrow> key \<in> set ks \<Longrightarrow> set ks \<inter> set (visiting s) = {} \<Longrightarrow> length ks \<le> depth \<Longrightarrow>
    \<exists>p s'. plan_method pf pl depth key s = (Ok p, s') \<and> visiting s' = visiting s"
proof (induction ks arbitrary: key s depth)
  case (Cons k ks)
  show ?case
  proof (cases "key = k")
    case False
    then show ?thesis using Cons by simp
  next
    case True
    obtain d where d: "depth = Suc d" "length ks \<le> d" using Cons.prems(4) by (cases depth) auto
    obtain m where m: "map_of (pl_methods pl) k = Some m" "set (callees (parsed_call_sequence m)) \<subseteq> set ks" "k \<notin> set ks"
      using Cons.prems(1) by (auto split: option.splits)
    let ?s1 = "s\<lparr>visiting := k # visiting s\<rparr>"
    obtain v smp where v: "sample (time_now pf) (latency_dist m) (sampling ?s1) = Done (v, smp)"
      using assms m(1) unfolding samples_total_def by blast
    have "\<exists>ps s'. plan_steps pf (plan_method pf pl d) (parsed_call_sequence m) (?s1\<lparr>sampling := smp\<rparr>) = (Ok ps, s')
        \<and> visiting s' = k # visiting s"
    proof (rule plan_steps_ok)
      fix k' and s' :: "'a planning"
      assume k': "k' \<in> set (callees (parsed_call_sequence m))" "visiting s' = k # visiting s"
      then have "k' \<in> set ks" "set ks \<inter> set (visiting s') = {}" using m(2,3) Cons.prems(3) by auto
      then show "\<exists>p s''. plan_method pf pl d k' s' = (Ok p, s'') \<and> visiting s'' = k # visiting s"
        using Cons.IH [of k' s' d] Cons.prems(1) d(2) k'(2) by simp
    qed simp
    then obtain ps s2 where "plan_steps pf (plan_method pf pl d) (parsed_call_sequence m) (?s1\<lparr>sampling := smp\<rparr>) = (Ok ps, s2)"
      "visiting s2 = k # visiting s" by blast
    then show ?thesis using True d(1) m(1) v Cons.prems(3) by (simp add: plan_sequence_def)
  qed
qed simp

lemma topo_length:
  assumes "topo methods ks" shows "length ks \<le> card (dom (map_of methods))"
proof -
  have "distinct ks" using assms by (induction ks) auto
  then have "length ks = card (set ks)" by (simp add: distinct_card)
  then show ?thesis using card_mono [OF finite_dom_map_of topo_dom [OF assms]] by simp
qed

lemma topo_cong:
  assumes "\<And>k. rel_option (\<lambda>m m'. parsed_call_sequence m = parsed_call_sequence m') (map_of methods k) (map_of methods' k)"
  shows "topo methods ks \<longleftrightarrow> topo methods' ks"
proof (induction ks)
  case (Cons k ks)
  show ?case using assms [of k] by (cases "map_of methods k"; cases "map_of methods' k") (auto simp: Cons)
qed simp

section \<open>Validation is exact\<close>

definition shape_ok :: "parsed_step list \<Rightarrow> bool" where
  "shape_ok sequence \<longleftrightarrow> list_all (\<lambda>step. length step \<le> 1 \<and> list_all (\<lambda>c. 0 \<le> probability c \<and> probability c \<le> 1) step) sequence"

lemma validate_sequence_shape_iff: "validate_sequence_shape sequence owner = Inr u \<longleftrightarrow> shape_ok sequence"
  by (auto simp: validate_sequence_shape_def shape_ok_def check_call_def list_all_iff try_each_Inr split: if_splits)

lemma validate_supported_shapes:
  assumes "list_all (\<lambda>e. shape_ok (snd e)) (parsed_entry_points config)"
    "list_all (\<lambda>s. list_all (\<lambda>m. shape_ok (parsed_call_sequence m)) (sd_methods s)) (services config)"
  shows "validate_supported_call_graph iter depth config =
    walk_keys (collect_methods (services config)) depth (iter (map fst (collect_methods (services config)))) \<lparr>visited = [], on_path = []\<rparr>"
proof -
  have "try_each (\<lambda>(e, sequence). validate_sequence_shape sequence (quoted_entry e)) (parsed_entry_points config) = Inr ()"
    using assms(1) by (auto simp: list_all_iff try_each_Inr validate_sequence_shape_iff)
  moreover have "try_each (\<lambda>s. try_each (\<lambda>m. validate_sequence_shape (parsed_call_sequence m) (method_string (sd_id s) (sm_name m)))
      (sd_methods s)) (services config) = Inr ()"
    using assms(2) by (auto simp: list_all_iff try_each_Inr validate_sequence_shape_iff)
  ultimately show ?thesis by (simp add: validate_supported_call_graph_def Let_def)
qed

lemma validate_supported_Ok:
  "validate_supported_call_graph iter depth config = Ok u \<Longrightarrow>
     list_all (\<lambda>e. shape_ok (snd e)) (parsed_entry_points config) \<and>
     list_all (\<lambda>s. list_all (\<lambda>m. shape_ok (parsed_call_sequence m)) (sd_methods s)) (services config)"
  by (auto simp: validate_supported_call_graph_def Let_def list_all_iff try_each_Inr validate_sequence_shape_iff split: sum.splits)

lemma validate_supported_TooDeep:
  "validate_supported_call_graph iter depth config = TooDeep \<Longrightarrow>
     walk_keys (collect_methods (services config)) depth (iter (map fst (collect_methods (services config)))) \<lparr>visited = [], on_path = []\<rparr> = TooDeep"
  by (auto simp: validate_supported_call_graph_def Let_def split: sum.splits)

text \<open>
  Claim C17. The validation of the call graph ends, within a recursion no deeper than the number of
  methods plus one, and accepts exactly the graphs in which every step has at most one call, with
  a probability between zero and one, every method that is called exists, and no method calls
  itself, directly or through others.
\<close>

theorem validation_accepts_acyclic_graphs:
  assumes "\<And>ks. set (iter ks) = set ks" "method_count (services config) < depth"
  shows "validate_supported_call_graph iter depth config \<noteq> TooDeep \<and>
    (validate_supported_call_graph iter depth config = Ok () \<longleftrightarrow>
       list_all (\<lambda>e. shape_ok (snd e)) (parsed_entry_points config) \<and>
       list_all (\<lambda>s. list_all (\<lambda>m. shape_ok (parsed_call_sequence m)) (sd_methods s)) (services config) \<and>
       closed_graph (collect_methods (services config)) \<and> acyclic (call_edges (collect_methods (services config))))"
proof -
  let ?ms = "collect_methods (services config)"
  let ?w = "walk_keys ?ms depth (iter (map fst ?ms)) \<lparr>visited = [], on_path = []\<rparr>"
  have card: "card (dom (map_of ?ms)) < depth" using card_collect [of "services config"] assms(2) by linarith
  have keys: "set (iter (map fst ?ms)) = dom (map_of ?ms)" by (simp only: assms(1) keys_collect)
  have "?w \<noteq> TooDeep" by (rule walk_keys_depth [OF _ _ card]) (simp_all add: walk_inv_def)
  then have "validate_supported_call_graph iter depth config \<noteq> TooDeep" using validate_supported_TooDeep by blast
  moreover note walk_keys_iff [OF card keys] validate_supported_Ok [of iter depth config "()"]
    validate_supported_shapes [of config iter depth]
  ultimately show ?thesis by auto
qed

text \<open>An example: one method calls another, and one entry point calls the first.\<close>

definition ex_call :: "string \<Rightarrow> parsed_step" where
  "ex_call m = [\<lparr>call_to = \<lparr>target_service = ''S'', target_method = m\<rparr>, probability = 1\<rparr>]"

definition ex_method :: "string \<Rightarrow> raw_step list \<Rightarrow> parsed_step list \<Rightarrow> 'w service_method" where
  "ex_method n raw parsed = \<lparr>sm_name = n, latency_dist = Periodic 20 10 500, call_sequence_raw = raw,
     parsed_call_sequence = parsed, busy_spin_ratio = None\<rparr>"

definition ex_graph :: "unit call_graph_config" where
  "ex_graph = \<lparr>entry_points = [(''a'', [[(''S::f'', 1)]])], parsed_entry_points = [(''a'', [ex_call ''f''])],
     services = [\<lparr>sd_id = ''S'', replicas = 1,
       sd_methods = [ex_method ''f'' [[(''S::g'', 1)]] [ex_call ''g''], ex_method ''g'' [] []]\<rparr>]\<rparr>"

lemma ex_graph_validates: "validate_supported_call_graph (\<lambda>ks. ks) 3 ex_graph = Ok ()"
  by code_simp

theorem validation_accepts_acyclic_graphs_witness:
  "acyclic (call_edges (collect_methods (services ex_graph)))"
proof -
  have "method_count (services ex_graph) < 3" by code_simp
  from validation_accepts_acyclic_graphs [where iter = "\<lambda>ks. ks", OF _ this] ex_graph_validates
  show ?thesis by simp
qed

section \<open>A validated graph is always planned\<close>

lemma parse_call_sequences_Ok:
  fixes supported :: "'w call_graph_config \<Rightarrow> ('x, unit) run"
  assumes "parse_call_sequences supported config = Ok config'"
  shows "(validate_call_graph config :: 'x synth_error + unit) = Inr ()" "supported config' = Ok ()"
    "list_all2 (\<lambda>e e'. (parse_entry e :: 'x synth_error + _) = Inr e') (entry_points config) (parsed_entry_points config')"
    "list_all2 (\<lambda>s s'. (parse_service s :: 'x synth_error + _) = Inr s') (services config) (services config')"
  using assms by (auto simp: parse_call_sequences_def Let_def try_map_Inr split: sum.splits run.splits)

lemma parse_service_related:
  assumes "(parse_service s :: 'x synth_error + _) = Inr s'"
  shows "sd_id s = sd_id s' \<and> list_all2 (\<lambda>m m'. sm_name m = sm_name m' \<and> latency_dist m = latency_dist m') (sd_methods s) (sd_methods s')"
proof -
  have "list_all2 (\<lambda>m m'. (parse_method m :: 'x synth_error + _) = Inr m') (sd_methods s) (sd_methods s')" "sd_id s = sd_id s'"
    using assms by (auto simp: parse_service_def try_map_Inr split: sum.splits)
  moreover have "sm_name m = sm_name m' \<and> latency_dist m = latency_dist m'" if "(parse_method m :: 'x synth_error + _) = Inr m'" for m m'
    using that by (auto simp: parse_method_def split: sum.splits)
  ultimately show ?thesis by (auto elim!: list_all2_mono)
qed

lemma declares_method_flat: "declares_method svcs t \<Longrightarrow> from_target t \<in> fst ` set (flat_methods svcs)"
  by (force simp: declares_method_def flat_methods_def from_target_def)

lemma callees_calls: "k \<in> set (callees seq) \<Longrightarrow> \<exists>c\<in>set (concat seq). k = from_target (call_to c)"
proof (induction seq)
  case (Cons step rest)
  then show ?case by (cases step) (auto simp: first_key_def)
qed simp

lemma parsed_entry_known:
  assumes parsed: "parse_call_sequences (supported :: 'w call_graph_config \<Rightarrow> ('x, unit) run) config = Ok config'"
    and "plain_names (services config)" "entry \<in> fst ` set (entry_points config)"
  shows "\<exists>seq. map_of (parsed_entry_points config') entry = Some seq \<and> set (callees seq) \<subseteq> fst ` set (flat_methods (services config))"
proof -
  note ok = parse_call_sequences_Ok [OF parsed]
  have entry: "\<exists>seq. e' = (fst e, seq) \<and> (parse_sequence (snd e) :: 'x synth_error + _) = Inr seq"
    if "(parse_entry e :: 'x synth_error + _) = Inr e'" for e e'
    using that by (auto simp: parse_entry_def split: sum.splits)
  obtain e where "e \<in> set (entry_points config)" "fst e = entry" using assms(3) by auto
  then obtain e' where "e' \<in> set (parsed_entry_points config')" "fst e' = entry"
    using list_all2_right [OF ok(3)] entry by (metis fst_conv)
  then obtain seq where seq: "map_of (parsed_entry_points config') entry = Some seq"
    by (metis weak_map_of_SomeI surjective_pairing)
  then obtain e0 where e0: "e0 \<in> set (entry_points config)" "(parse_entry e0 :: 'x synth_error + _) = Inr (entry, seq)"
    using list_all2_left [OF ok(3) map_of_SomeD] by blast
  then have raw: "(parse_sequence (snd e0) :: 'x synth_error + _) = Inr seq" using entry by blast
  have valid: "t \<in> set (valid_targets (services config))" if "step \<in> set (snd e0)" "(t, p) \<in> set step" for step t p
    using ok(1) e0(1) that
    by (fastforce simp: validate_call_graph_def Let_def check_entry_def try_each_Inr split: sum.splits if_splits)
  have "from_target (call_to c) \<in> fst ` set (flat_methods (services config))" if c: "c \<in> set (concat seq)" for c
  proof -
    obtain step t p where "step \<in> set (snd e0)" "(t, p) \<in> set step" "(parse_service_method t :: 'x synth_error + _) = Inr (call_to c)"
      using parse_sequence_targets [OF raw c] by blast
    then show ?thesis using valid parse_valid_target [OF assms(2)] declares_method_flat by blast
  qed
  then show ?thesis using seq callees_calls by blast
qed

text \<open>
  \<open>usable_dists\<close>: the distributions of the methods were configured, and the mean and the standard
  deviation of a log-normal one are positive, which fails only for one configured by two
  percentiles (lemma \<open>close_percentiles_panic\<close>).
\<close>

definition usable_dists :: "f64_ops \<Rightarrow> 'w rand_distr \<Rightarrow> 'w service_definition list \<Rightarrow> bool" where
  "usable_dists fl rd svcs \<longleftrightarrow> (\<forall>s\<in>set svcs. \<forall>m\<in>set (sd_methods s).
     configured fl rd (latency_dist m) \<and> positive_parameters (latency_dist m))"

lemma planner_new_Ok:
  assumes valid: "validate_supported_call_graph iter depth config = Ok ()" and "usable_dists fl rd (services config)" "weighted_index_laws rd"
    and "\<And>ks. set (iter ks) = set ks" and laws: "ieee fl" "lognormal_laws fl rd"
  shows "\<exists>pl ks. planner_new fl rd iter depth config est = Ok pl \<and> pl_entry_points pl = parsed_entry_points config \<and>
    topo (pl_methods pl) ks \<and> set ks = fst ` set (flat_methods (services config)) \<and> length ks \<le> method_count (services config) \<and>
    samples_total pf (pl_methods pl)"
proof -
  let ?ms = "collect_methods (services config)"
  obtain svcs where svcs: "clone_services fl rd (services config) = Done svcs"
    using clone_services_Done [of "services config" fl rd] clone_positive [OF laws] assms(2) unfolding usable_dists_def by fastforce
  have rel: "rel_option (\<lambda>m m'. clone_method fl rd m = Done m') (map_of ?ms k) (map_of (collect_methods svcs) k)" for k
    by (rule collect_related [OF flat_related [OF clone_services_related [OF svcs]]])
  have seq: "rel_option (\<lambda>m m'. parsed_call_sequence m = parsed_call_sequence m') (map_of ?ms k) (map_of (collect_methods svcs) k)" for k
    by (rule option.rel_mono_strong [OF rel]) (auto simp: clone_method_def exec_simps)
  have "walk_keys ?ms depth (iter (map fst ?ms)) \<lparr>visited = [], on_path = []\<rparr> = Ok ()"
    using valid validate_supported_shapes validate_supported_Ok [OF valid] by metis
  then obtain s' where s': "walk_inv ?ms s'" "set (iter (map fst ?ms)) \<subseteq> set (visited s')"
    using walk_keys_topo [of ?ms depth "iter (map fst ?ms)" "\<lparr>visited = [], on_path = []\<rparr>" "()"] by (auto simp: walk_inv_def)
  have t: "topo ?ms (visited s')" using s'(1) by (simp add: walk_inv_def)
  have "dom (map_of ?ms) \<subseteq> set (visited s')" using s'(2) by (simp only: assms(4) keys_collect)
  then have "set (visited s') = fst ` set (flat_methods (services config))" using topo_dom [OF t] by (simp add: dom_collect)
  moreover have "topo (collect_methods svcs) (visited s')" using t topo_cong [OF seq] by simp
  moreover have "samples_total pf (collect_methods svcs)" unfolding samples_total_def
  proof (intro allI impI)
    fix k m' s assume "map_of (collect_methods svcs) k = Some m'"
    then obtain m where m: "map_of ?ms k = Some m" "clone_method fl rd m = Done m'" using rel [of k] by (cases "map_of ?ms k") auto
    then have "configured fl rd (latency_dist m)" "clone_dist fl rd (latency_dist m) = Done (latency_dist m')"
      using flat_in_methods [OF map_of_collect_in [OF m(1)]] assms(2) by (auto simp: usable_dists_def clone_method_def exec_simps)
    then show "\<exists>v s'. sample (time_now pf) (latency_dist m') s = Done (v, s')" by (rule clone_configured_as [OF _ _ assms(3)])
  qed
  moreover have "length (visited s') \<le> method_count (services config)"
    using topo_length [OF t] card_collect [of "services config"] by linarith
  ultimately show ?thesis using svcs valid
    by (intro exI [of _ "\<lparr>pl_entry_points = parsed_entry_points config, pl_methods = collect_methods svcs, pl_estimate = est\<rparr>"]
        exI [of _ "visited s'"]) (simp add: planner_new_def)
qed


definition ex_rand :: "unit rand_distr" where
  "ex_rand = \<lparr>normal_new = (\<lambda>_ _. Inl ''unused''), exp_new = (\<lambda>_. Inl ''unused''), lognormal_new = (\<lambda>mu sigma. Inr (\<lambda>w. (mu + sigma, w))),
     weighted_index_new = (\<lambda>_. Inl ''unused''), f_ln = (\<lambda>x. x)\<rparr>"

definition ex_platform :: "unit platform" where
  "ex_platform = \<lparr>gen_f64 = (\<lambda>w. (1 / 2, w)), time_now = (\<lambda>w. (600000, w))\<rparr>"

definition ex_estimate :: work_estimate_config where
  "ex_estimate = \<lparr>default_method_overhead_us = 1, service_overheads_us = Map.empty, method_overheads_us = Map.empty,
     online_overhead = online_overhead_default\<rparr>"


text \<open>
  Without the condition on the names the entry points are not covered: the target \<open>a:::b\<close>, valid as
  the method \<open>b\<close> of the service \<open>a:\<close>, is parsed as the method \<open>:b\<close> of \<open>a\<close>, the configuration is
  accepted, and planning the entry point fails.
\<close>

definition ex_colons :: "unit call_graph_config" where
  "ex_colons = \<lparr>entry_points = [(''a'', [[(''a:::b'', 1)]])], parsed_entry_points = [],
     services = [\<lparr>sd_id = ''a:'', replicas = 1, sd_methods = [ex_method ''b'' [] []]\<rparr>]\<rparr>"

lemma colons_are_misread:
  "\<exists>config' pl e. parse_call_sequences (validate_supported_call_graph (\<lambda>ks. ks) 3) ex_colons = Ok config' \<and>
    planner_new ex_f64 ex_rand (\<lambda>ks. ks) 3 config' ex_estimate = Ok pl \<and>
    fst (plan_entry_point ex_platform pl 3 (\<lambda>_. None) ''a'' \<lparr>rng = (), cells = (\<lambda>_. 0)\<rparr>) = Err e"
proof -
  let ?c = "ex_colons\<lparr>parsed_entry_points := [(''a'', [[\<lparr>call_to = \<lparr>target_service = ''a'', target_method = '':b''\<rparr>, probability = 1\<rparr>]])]\<rparr>"
  let ?pl = "\<lparr>pl_entry_points = parsed_entry_points ?c, pl_methods = collect_methods (services ?c), pl_estimate = ex_estimate\<rparr>"
  let ?e = "MethodNotFound \<lparr>key_service = ''a'', key_method = '':b''\<rparr>"
  have "parse_call_sequences (validate_supported_call_graph (\<lambda>ks. ks) 3) ex_colons = Ok ?c" by code_simp
  moreover have "planner_new ex_f64 ex_rand (\<lambda>ks. ks) 3 ?c ex_estimate = Ok ?pl"
    using ex_graph_validates by (simp add: planner_new_def ex_colons_def ex_method_def clone_method_def
      validate_supported_call_graph_def validate_sequence_shape_def check_call_def collect_methods_def walk_keys.simps numeral_3_eq_3 Let_def)
  moreover have "fst (plan_entry_point ex_platform ?pl 3 (\<lambda>_. None) ''a'' \<lparr>rng = (), cells = (\<lambda>_. 0)\<rparr>) = Err ?e"
    by (simp add: plan_entry_point_def plan_sequence_def plan_step_def should_make_call_def ex_platform_def from_target_def
      collect_methods_def ex_colons_def ex_method_def numeral_3_eq_3)
  ultimately show ?thesis by blast
qed

end
