(* ===== verification/Oracle_Work.thy ===== *)
theory Oracle_Work
  imports Oracle_Planner
begin

text \<open>
  What the hints and the calibration of a plan say: the hint of a call is its estimated work and
  the work left after it, whatever was planned or recalibrated; the calibration adds the learned
  overhead, exactly and without touching the work that is executed, and what it learned stays
  within what was observed.
\<close>

section \<open>Hints\<close>

text \<open>
  The reference: the hint of a call is the estimated total of its subtree, and what remains after
  it is the local work of its parent and the work of the later steps, capped at the largest \<open>u64\<close>.
\<close>

definition work_after :: "u64 \<Rightarrow> planned_call list list \<Rightarrow> nat" where
  "work_after l later = min (2 ^ 64 - 1) (unat l + sum_list (map (\<lambda>step. unat (step_work_us step)) later))"

fun step_hints_ok :: "u64 \<Rightarrow> planned_call list list \<Rightarrow> bool" where
  "step_hints_ok l [] \<longleftrightarrow> True"
| "step_hints_ok l (step # later) \<longleftrightarrow>
     list_all (\<lambda>c. hint_child_work_us (pc_hint c) = estimated_total_work_us (pc_plan c) \<and>
       unat (hint_remaining_after_us (pc_hint c)) = work_after l later) step \<and> step_hints_ok l later"

fun hints_ok :: "execution_plan \<Rightarrow> bool" where
  "hints_ok (ExecutionPlan l o' steps) \<longleftrightarrow> step_hints_ok l steps \<and> list_all (list_all (\<lambda>c. hints_ok (pc_plan c))) steps"

lemma set_hint_simps [simp]: "pc_plan (set_hint r c) = pc_plan c" "pc_target (set_hint r c) = pc_target c"
  by (simp_all add: set_hint_def)

lemma step_work_set_hint [simp]: "step_work_us (map (set_hint r) step) = step_work_us step"
  by (simp add: step_work_us_def o_def)

definition remaining :: "u64 \<Rightarrow> planned_call list list \<Rightarrow> u64" where
  "remaining r steps = fold (\<lambda>step r. saturating_add r (step_work_us step)) steps r"

lemma attach_loop_append: "attach_loop r (xs @ ys) = attach_loop r xs @ attach_loop (remaining r xs) ys"
  by (induction xs arbitrary: r) (simp_all add: remaining_def)

lemma attach_hints_simps:
  "attach_hints l [] = []"
  "attach_hints l (step # steps) = map (set_hint (remaining l (rev steps))) step # attach_hints l steps"
  by (simp_all add: attach_hints_def attach_loop_append)

lemma unat_remaining:
  "unat (remaining r xs) = min (2 ^ 64 - 1) (unat r + sum_list (map (\<lambda>step. unat (step_work_us step)) xs))"
proof (induction xs arbitrary: r)
  case Nil
  then show ?case using unat_u64_less [of r] by (simp add: remaining_def)
next
  case (Cons x xs)
  have "remaining r (x # xs) = remaining (saturating_add r (step_work_us x)) xs" by (simp add: remaining_def)
  then show ?case using Cons by (simp add: sat_simps)
qed

lemma attach_hints_works:
  "map step_work_us (attach_hints l steps) = map step_work_us steps"
  "list_all (list_all (\<lambda>c. P (pc_plan c))) (attach_hints l steps) = list_all (list_all (\<lambda>c. P (pc_plan c))) steps"
  by (induction steps) (simp_all add: attach_hints_simps list.pred_map o_def)

lemma attach_hints_ok: "step_hints_ok l (attach_hints l steps)"
proof (induction steps)
  case (Cons step steps)
  have "map (\<lambda>step. unat (step_work_us step)) (attach_hints l steps) = map unat (map step_work_us (attach_hints l steps))" by simp
  also have "\<dots> = map (\<lambda>step. unat (step_work_us step)) steps" unfolding attach_hints_works(1) by simp
  finally have "unat (remaining l (rev steps)) = work_after l (attach_hints l steps)"
    by (simp add: unat_remaining work_after_def rev_map [symmetric] sum_list_rev)
  then show ?case using Cons by (simp add: attach_hints_simps set_hint_def list.pred_map o_def list.pred_True)
qed (simp add: attach_hints_simps)

lemma hints_ok_attached: "list_all (list_all (\<lambda>c. hints_ok (pc_plan c))) steps \<Longrightarrow> hints_ok (ExecutionPlan l v (attach_hints l steps))"
  by (simp add: attach_hints_ok attach_hints_works)

lemma hints_ok_refresh: "hints_ok (refresh_hints p)"
proof (induction p rule: refresh_hints.induct)
  case (1 l v steps)
  then show ?case by (auto simp: with_plan_def list.pred_map list_all_iff intro!: hints_ok_attached simp del: hints_ok.simps)
qed

lemma plan_steps_hints:
  assumes "\<And>k s p s'. rec k s = (Ok p, s') \<Longrightarrow> hints_ok p"
  shows "plan_steps pf rec steps s = (Ok ps, s') \<Longrightarrow> list_all (list_all (\<lambda>c. hints_ok (pc_plan c))) ps"
proof (induction steps arbitrary: s ps)
  case (Cons step rest)
  then obtain ps1 s1 ps2 where ps: "plan_step pf rec step s = (Ok ps1, s1)" "plan_steps pf rec rest s1 = (Ok ps2, s')" "ps = ps1 # ps2"
    by (auto simp: and_then_Ok)
  have "list_all (\<lambda>c. hints_ok (pc_plan c)) ps1"
    using ps(1) assms by (auto simp: plan_step_def and_then_Ok split: list.splits prod.splits if_splits)
  then show ?case using Cons.IH [OF ps(2)] ps(3) by simp
qed simp

lemma plan_sequence_hints:
  assumes "\<And>k s p s'. rec k s = (Ok p, s') \<Longrightarrow> hints_ok p" "plan_sequence pf rec steps l s = (Ok p, s')"
  shows "hints_ok p"
proof -
  obtain ps where ps: "plan_steps pf rec steps s = (Ok ps, s')" "p = ExecutionPlan l 0 (attach_hints l ps)"
    using assms(2) by (auto simp: plan_sequence_def and_then_Ok)
  have "list_all (list_all (\<lambda>c. hints_ok (pc_plan c))) ps" by (rule plan_steps_hints [OF _ ps(1)]) (rule assms(1))
  then show ?thesis unfolding ps(2) by (rule hints_ok_attached)
qed

lemma plan_method_Ok:
  assumes "plan_method pf pl (Suc depth) key s = (Ok p, s')"
  shows "\<exists>seq work s1 q s2. plan_sequence pf (plan_method pf pl depth) seq work s1 = (Ok q, s2) \<and>
    p = set_overhead (overhead_for (pl_estimate pl) (key_service key) (key_method key)) q"
  using assms by (simp add: Let_def split: if_splits option.splits exec.splits prod.splits) blast

lemma plan_method_hints: "plan_method pf pl depth key s = (Ok p, s') \<Longrightarrow> hints_ok p"
proof (induction depth arbitrary: key s p s')
  case (Suc depth)
  obtain seq work s1 q s2 where q: "plan_sequence pf (plan_method pf pl depth) seq work s1 = (Ok q, s2)"
    "p = set_overhead (overhead_for (pl_estimate pl) (key_service key) (key_method key)) q"
    using plan_method_Ok [OF Suc.prems] by blast
  have "hints_ok q" by (rule plan_sequence_hints [OF _ q(1)]) (rule Suc.IH)
  with q(2) show ?case by (cases q) (simp add: set_overhead_def)
qed simp

text \<open>
  Claim C18. In every plan the planner returns, calibrated or not, the hints agree with the plan at
  every depth: the loop from the last step to the first, which accumulates as it goes, gives each
  call its own estimated total and the local work of its parent plus the work of all later steps,
  up to the largest \<open>u64\<close>.
\<close>

theorem planned_hints_are_exact:
  assumes "plan_entry_point pf pl depth ov entry s = (Ok plan, s')"
  shows "hints_ok plan"
proof -
  obtain seq q s1 where q: "plan_sequence pf (plan_method pf pl depth) seq 0 \<lparr>sampling = s, visiting = []\<rparr> = (Ok q, s1)"
    "plan = cal_apply (online_overhead (pl_estimate pl)) ov entry q"
    using assms by (auto simp: plan_entry_point_def split: option.splits prod.splits)
  have "hints_ok q" by (rule plan_sequence_hints [OF _ q(1)]) (rule plan_method_hints)
  with q(2) show ?thesis by (simp add: cal_apply_def Let_def hints_ok_refresh)
qed

text \<open>A planner with two methods, the first of which calls the second; each draws a work of ten microseconds.\<close>

definition ex_plan_call :: "string \<Rightarrow> parsed_step" where
  "ex_plan_call m = [\<lparr>call_to = \<lparr>target_service = ''S'', target_method = m\<rparr>, probability = 1\<rparr>]"

definition ex_plan_method :: "string \<Rightarrow> parsed_step list \<Rightarrow> 'w service_method" where
  "ex_plan_method n parsed = \<lparr>sm_name = n, latency_dist = Periodic 20 10 500, call_sequence_raw = [],
     parsed_call_sequence = parsed, busy_spin_ratio = None\<rparr>"

definition ex_planner :: "'w planner" where
  "ex_planner = \<lparr>pl_entry_points = [(''a'', [ex_plan_call ''f'', ex_plan_call ''g''])],
     pl_methods = [(\<lparr>key_service = ''S'', key_method = ''f''\<rparr>, ex_plan_method ''f'' [ex_plan_call ''g'']),
       (\<lparr>key_service = ''S'', key_method = ''g''\<rparr>, ex_plan_method ''g'' [])],
     pl_estimate = \<lparr>default_method_overhead_us = 1, service_overheads_us = Map.empty, method_overheads_us = Map.empty,
       online_overhead = online_overhead_default\<rparr>\<rparr>"

definition ex_coin :: "'w platform" where
  "ex_coin = \<lparr>gen_f64 = (\<lambda>w. (1 / 2, w)), time_now = (\<lambda>w. (600000, w))\<rparr>"

definition ex_planned :: "(oracle_error, execution_plan) run" where
  "ex_planned = fst (plan_entry_point ex_coin ex_planner 3 (\<lambda>_. None) ''a'' \<lparr>rng = (), cells = (\<lambda>_. 0)\<rparr>)"

lemma ex_planned_hints:
  "map_run (map (map (\<lambda>c. (hint_child_work_us (pc_hint c), hint_remaining_after_us (pc_hint c)))) \<circ> child_steps) ex_planned
    = Ok [[(22, 11)], [(11, 0)]]"
  by code_simp

theorem planned_hints_are_exact_witness:
  "\<exists>plan. ex_planned = Ok plan \<and> hints_ok plan"
proof -
  obtain plan where plan: "ex_planned = Ok plan" using ex_planned_hints by (cases ex_planned) auto
  then show ?thesis using planned_hints_are_exact [of ex_coin ex_planner 3 "\<lambda>_. None" "''a''" "\<lparr>rng = (), cells = (\<lambda>_. 0)\<rparr>" plan]
    by (auto simp: ex_planned_def prod_eq_iff)
qed

section \<open>Overhead\<close>

text \<open>
  The overheads of the calls of a plan, in the order in which the plan is visited, and a plan
  without hints and overheads: the work that is executed.
\<close>

fun call_overheads :: "execution_plan \<Rightarrow> u64 list" where
  "call_overheads (ExecutionPlan l o' steps) =
     concat (concat (map (map (\<lambda>c. estimate_overhead_us (pc_plan c) # call_overheads (pc_plan c))) steps))"

fun bare :: "execution_plan \<Rightarrow> execution_plan" where
  "bare (ExecutionPlan l o' steps) = ExecutionPlan l 0
     (map (map (\<lambda>c. PlannedCall (pc_target c) \<lparr>hint_child_work_us = 0, hint_remaining_after_us = 0\<rparr> (bare (pc_plan c)))) steps)"

abbreviation bare_call :: "planned_call \<Rightarrow> planned_call" where
  "bare_call c \<equiv> PlannedCall (pc_target c) \<lparr>hint_child_work_us = 0, hint_remaining_after_us = 0\<rparr> (bare (pc_plan c))"

abbreviation overheads_from :: "planned_call \<Rightarrow> u64 list" where
  "overheads_from c \<equiv> estimate_overhead_us (pc_plan c) # call_overheads (pc_plan c)"

lemma actual_total_bare: "actual_total_work_us (bare p) = actual_total_work_us p"
proof (induction p rule: bare.induct)
  case (1 l v steps)
  then have "map (\<lambda>step. iter_max (map (\<lambda>c. actual_total_work_us (bare (pc_plan c))) step)) steps =
      map (\<lambda>step. iter_max (map (\<lambda>c. actual_total_work_us (pc_plan c)) step)) steps"
    by (intro map_cong arg_cong [where f = iter_max] refl) auto
  from arg_cong [OF this, of sum_list] show ?case by (simp add: o_def)
qed

lemma with_plan_simps [simp]: "pc_plan (with_plan p c) = p" "pc_target (with_plan p c) = pc_target c"
  by (simp_all add: with_plan_def)

lemma bare_add_overhead [simp]: "bare (add_overhead v p) = bare p" "call_overheads (add_overhead v p) = call_overheads p"
    "estimate_overhead_us (add_overhead v p) = saturating_add (estimate_overhead_us p) v"
  by (cases p; simp add: add_overhead_def)+

lemma attach_hints_bare:
  "map (map bare_call) (attach_hints l steps) = map (map bare_call) steps"
  "map (map overheads_from) (attach_hints l steps) = map (map overheads_from) steps"
  by (induction steps) (simp_all add: attach_hints_simps o_def)

lemma refresh_hints_bare:
  "bare (refresh_hints p) = bare p \<and> call_overheads (refresh_hints p) = call_overheads p \<and> estimate_overhead_us (refresh_hints p) = estimate_overhead_us p"
proof (induction p rule: refresh_hints.induct)
  case (1 l v steps)
  let ?s = "map (map (\<lambda>c. with_plan (refresh_hints (pc_plan c)) c)) steps"
  have a: "map (map bare_call) ?s = map (map bare_call) steps" and b: "map (map overheads_from) ?s = map (map overheads_from) steps"
    using 1 by auto
  show ?case unfolding refresh_hints.simps bare.simps call_overheads.simps attach_hints_bare a b by simp
qed

text \<open>The shares of the uniform placement: \<open>per_call\<close> each, and one more for the first \<open>r\<close> calls.\<close>

fun shares :: "u64 \<Rightarrow> u64 \<Rightarrow> u64 list \<Rightarrow> u64 list" where
  "shares per_call r [] = []"
| "shares per_call r (v # vs) =
     saturating_add v (saturating_add per_call (if 0 < r then 1 else 0)) # shares per_call (if 0 < r then r - 1 else r) vs"

fun left_over :: "u64 \<Rightarrow> 'a list \<Rightarrow> u64" where
  "left_over r [] = r"
| "left_over r (v # vs) = left_over (if 0 < r then r - 1 else r) vs"

lemma shares_append: "shares per_call r (xs @ ys) = shares per_call r xs @ shares per_call (left_over r xs) ys"
  by (induction xs arbitrary: r) simp_all

lemma left_over_append: "left_over r (xs @ ys) = left_over (left_over r xs) ys"
  by (induction xs arbitrary: r) simp_all

lemma map_state_shares:
  assumes "\<And>x r y r'. x \<in> set xs \<Longrightarrow> f x r = (y, r') \<Longrightarrow> B y = B x \<and> V y = shares per_call r (V x) \<and> r' = left_over r (V x)"
    and "map_state f xs r = (ys, r')"
  shows "map B ys = map B xs \<and> concat (map V ys) = shares per_call r (concat (map V xs)) \<and> r' = left_over r (concat (map V xs))"
  using assms
proof (induction xs arbitrary: r ys)
  case (Cons x xs)
  obtain y r1 zs where y: "f x r = (y, r1)" "map_state f xs r1 = (zs, r')" "ys = y # zs"
    using Cons.prems(2) by (auto split: prod.splits)
  show ?case using Cons.IH [OF _ y(2)] Cons.prems(1) [OF _ y(1)] Cons.prems(1) y(3) by (auto simp: shares_append left_over_append)
qed simp

lemma uniformly_inner_shares:
  "add_overhead_uniformly_inner per_call p r = (p', r') \<Longrightarrow>
     bare p' = bare p \<and> call_overheads p' = shares per_call r (call_overheads p) \<and> r' = left_over r (call_overheads p) \<and>
     estimate_overhead_us p' = estimate_overhead_us p"
proof (induction per_call p r arbitrary: p' r' rule: add_overhead_uniformly_inner.induct)
  case (1 per_call l v steps r)
  let ?f = "\<lambda>c r. let extra = (if 0 < r then 1 else 0); r1 = (if 0 < r then r - 1 else r) in
    (case add_overhead_uniformly_inner per_call (add_overhead (saturating_add per_call extra) (pc_plan c)) r1 of (p, r2) \<Rightarrow> (with_plan p c, r2))"
  obtain steps' where s: "map_state (map_state ?f) steps r = (steps', r')" "p' = ExecutionPlan l v steps'"
    using 1(2) by (auto split: prod.splits)
  have call: "bare_call d = bare_call c \<and> overheads_from d = shares per_call q (overheads_from c) \<and> q' = left_over q (overheads_from c)"
    if c: "step \<in> set steps" "c \<in> set step" "?f c q = (d, q')" for step c q d q'
  proof -
    let ?r1 = "if 0 < q then q - 1 else q" and ?e = "if 0 < q then 1 else 0 :: u64"
    obtain p where p: "add_overhead_uniformly_inner per_call (add_overhead (saturating_add per_call ?e) (pc_plan c)) ?r1 = (p, q')" "d = with_plan p c"
      using c(3) by (auto simp: Let_def split: prod.splits)
    from 1(1) [OF c(1,2) refl refl p(1)] show ?thesis by (simp add: p(2))
  qed
  have step: "map bare_call ds = map bare_call cs \<and> concat (map overheads_from ds) = shares per_call q (concat (map overheads_from cs)) \<and>
      q' = left_over q (concat (map overheads_from cs))"
    if "cs \<in> set steps" "map_state ?f cs q = (ds, q')" for cs q ds q'
    by (rule map_state_shares [OF _ that(2)]) (rule call [OF that(1)])
  have "map (map bare_call) steps' = map (map bare_call) steps \<and>
      concat (map (\<lambda>cs. concat (map overheads_from cs)) steps') = shares per_call r (concat (map (\<lambda>cs. concat (map overheads_from cs)) steps)) \<and>
      r' = left_over r (concat (map (\<lambda>cs. concat (map overheads_from cs)) steps))"
    by (rule map_state_shares [OF _ s(1)]) (rule step)
  moreover have "concat (concat (map (map overheads_from) xs)) = concat (map (\<lambda>cs. concat (map overheads_from cs)) xs)" for xs
    by (induction xs) simp_all
  ultimately show ?case by (simp add: s(2))
qed

definition add_last :: "u64 \<Rightarrow> u64 list \<Rightarrow> u64 list" where
  "add_last v xs = (if xs = [] then [] else butlast xs @ [saturating_add (last xs) v])"

lemma add_last_append: "ys \<noteq> [] \<Longrightarrow> add_last v (xs @ ys) = xs @ add_last v ys"
  by (simp add: add_last_def butlast_append)

abbreviation step_overheads :: "planned_call list list \<Rightarrow> u64 list" where
  "step_overheads steps \<equiv> concat (map (\<lambda>cs. concat (map overheads_from cs)) steps)"

lemma step_overheads_concat: "concat (concat (map (map overheads_from) steps)) = step_overheads steps"
  by (induction steps) simp_all

definition last_added :: "u64 \<Rightarrow> execution_plan \<Rightarrow> execution_plan \<times> bool \<Rightarrow> bool" where
  "last_added v p r \<longleftrightarrow> bare (fst r) = bare p \<and> estimate_overhead_us (fst r) = estimate_overhead_us p \<and>
     (snd r \<longleftrightarrow> call_overheads p \<noteq> []) \<and> call_overheads (fst r) = add_last v (call_overheads p)"

lemma in_last_added:
  assumes "\<And>step c. step \<in> set steps \<Longrightarrow> c \<in> set step \<Longrightarrow> last_added v (pc_plan c) (rec (pc_plan c))"
  shows "case in_last rec v steps of (steps', b) \<Rightarrow>
    map (map bare_call) steps' = map (map bare_call) steps \<and> (b \<longleftrightarrow> step_overheads (rev steps) \<noteq> []) \<and>
    step_overheads (rev steps') = add_last v (step_overheads (rev steps))"
  using assms
proof (induction steps)
  case Nil
  then show ?case by (simp add: add_last_def)
next
  case (Cons step earlier)
  show ?case
  proof (cases "rev step")
    case Nil
    have "case in_last rec v earlier of (steps', b) \<Rightarrow>
      map (map bare_call) steps' = map (map bare_call) earlier \<and> (b \<longleftrightarrow> step_overheads (rev earlier) \<noteq> []) \<and>
      step_overheads (rev steps') = add_last v (step_overheads (rev earlier))"
      by (rule Cons.IH) (rule Cons.prems, simp_all)
    then show ?thesis using Nil by (simp split: prod.splits)
  next
    case c: (Cons c before)
    then have step: "step = rev before @ [c]" by (simp add: rev_eq_Cons_iff)
    obtain p b where p: "rec (pc_plan c) = (p, b)" by fastforce
    let ?d = "with_plan (if b then p else add_overhead v p) c"
    have "last_added v (pc_plan c) (p, b)" using Cons.prems [of step c] p step by simp
    then have d: "bare_call ?d = bare_call c" "overheads_from ?d = add_last v (overheads_from c)"
      by (cases "call_overheads (pc_plan c)"; simp add: last_added_def add_last_def)+
    have "in_last rec v (step # earlier) = ((rev before @ [?d]) # earlier, True)" by (simp add: c p)
    moreover have "step_overheads (rev (step # earlier)) = (step_overheads (rev earlier) @ concat (map overheads_from (rev before))) @ overheads_from c"
      "step_overheads (rev ((rev before @ [?d]) # earlier)) = (step_overheads (rev earlier) @ concat (map overheads_from (rev before))) @ overheads_from ?d"
      by (simp_all add: step)
    ultimately show ?thesis using d add_last_append [of "overheads_from c" v "step_overheads (rev earlier) @ concat (map overheads_from (rev before))"]
      by (simp add: step)
  qed
qed

lemma add_overhead_to_last_call_added: "last_added v p (add_overhead_to_last_call v p)"
proof (induction v p rule: add_overhead_to_last_call.induct)
  case (1 v l o' steps)
  obtain steps' b where s: "in_last (add_overhead_to_last_call v) v (rev steps) = (steps', b)" by fastforce
  have "case in_last (add_overhead_to_last_call v) v (rev steps) of (steps', b) \<Rightarrow>
    map (map bare_call) steps' = map (map bare_call) (rev steps) \<and> (b \<longleftrightarrow> step_overheads (rev (rev steps)) \<noteq> []) \<and>
    step_overheads (rev steps') = add_last v (step_overheads (rev (rev steps)))"
    by (rule in_last_added) (rule 1)
  then have "map (map bare_call) (rev steps') = map (map bare_call) steps" "b \<longleftrightarrow> step_overheads steps \<noteq> []"
    "step_overheads (rev steps') = add_last v (step_overheads steps)"
    by (simp_all only: s prod.case rev_rev_ident rev_map [symmetric])
  then show ?case unfolding last_added_def add_overhead_to_last_call.simps s prod.case fst_conv snd_conv bare.simps call_overheads.simps
      step_overheads_concat by simp
qed

section \<open>Exact amounts\<close>

abbreviation total_us :: "u64 list \<Rightarrow> nat" where
  "total_us xs \<equiv> sum_list (map unat xs)"

lemma total_us_add_last:
  assumes "xs \<noteq> []" "total_us xs + unat v < 2 ^ 64"
  shows "total_us (add_last v xs) = total_us xs + unat v"
proof -
  have xs: "xs = butlast xs @ [last xs]" using assms(1) by simp
  have "total_us xs = total_us (butlast xs) + unat (last xs)" by (subst xs) simp
  moreover from this assms(2) have "unat (saturating_add (last xs) v) = unat (last xs) + unat v" by (simp add: sat_simps)
  ultimately show ?thesis using assms(1) by (simp add: add_last_def)
qed

lemma total_us_shares:
  "unat r \<le> length vs \<Longrightarrow> total_us vs + length vs * unat q + unat r < 2 ^ 64 \<Longrightarrow>
    total_us (shares q r vs) = total_us vs + length vs * unat q + unat r"
proof (induction vs arbitrary: r)
  case (Cons v vs)
  let ?e = "if 0 < r then 1 else 0 :: u64"
  have r: "unat (if 0 < r then r - 1 else r) + unat ?e = unat r" by (auto simp: unat_minus_one word_gt_0 unat_gt_0 Suc_leI)
  have "unat (saturating_add v (saturating_add q ?e)) = unat v + (unat q + unat ?e)"
    using Cons.prems(2) r by (simp add: sat_simps)
  moreover have "unat (if 0 < r then r - 1 else r) \<le> length vs" using Cons.prems(1) r by (auto simp: word_gt_0)
  ultimately show ?case using Cons.IH [of "if 0 < r then r - 1 else r"] Cons.prems(2) r by simp
qed simp

lemma map_unat_shares:
  "unat r \<le> length vs \<Longrightarrow> total_us vs + length vs * unat q + unat r < 2 ^ 64 \<Longrightarrow>
    map unat (shares q r vs) = map2 (\<lambda>i v. unat v + unat q + (if i < unat r then 1 else 0)) [0..<length vs] vs"
proof (induction vs arbitrary: r)
  case (Cons v vs)
  let ?e = "if 0 < r then 1 else 0 :: u64" and ?r = "if 0 < r then r - 1 else r"
  have r: "unat ?r + unat ?e = unat r" by (auto simp: unat_minus_one word_gt_0 unat_gt_0 Suc_leI)
  have v: "unat (saturating_add v (saturating_add q ?e)) = unat v + (unat q + unat ?e)"
    using Cons.prems(2) r by (simp add: sat_simps)
  have le: "unat ?r \<le> length vs" using Cons.prems(1) r by (auto simp: word_gt_0)
  have "[0..<length (v # vs)] = 0 # map Suc [0..<length vs]" by (simp add: map_Suc_upt upt_conv_Cons del: upt_Suc)
  moreover have "(Suc i < unat r) = (i < unat ?r)" for i using r by (auto simp: word_gt_0)
  moreover have "unat ?e = (if 0 < unat r then 1 else 0)" by (simp add: word_gt_0 unat_gt_0)
  ultimately show ?case using Cons.IH [OF le] Cons.prems(2) r v by (simp add: zip_map1 o_def case_prod_beta)
qed simp

lemma count_planned_calls_eq: "count_planned_calls p = of_nat (length (call_overheads p))"
proof (induction p rule: count_planned_calls.induct)
  case (1 l v steps)
  have step: "sum_list (map (\<lambda>c. 1 + count_planned_calls (pc_plan c)) cs) = of_nat (length (concat (map overheads_from cs)))"
    if "\<forall>c\<in>set cs. count_planned_calls (pc_plan c) = of_nat (length (call_overheads (pc_plan c)))" for cs
    using that by (induction cs) simp_all
  have "sum_list (map (\<lambda>cs. sum_list (map (\<lambda>c. 1 + count_planned_calls (pc_plan c)) cs)) ss) = of_nat (length (step_overheads ss))"
    if "set ss \<subseteq> set steps" for ss
    using that 1 step by (induction ss) auto
  from this [OF order_refl] show ?case by (simp only: count_planned_calls.simps call_overheads.simps step_overheads_concat)
qed

lemma cal_apply_overheads:
  fixes n :: u64
  assumes "oo_enabled config" "v = current_overhead_us ov e" "count_planned_calls plan = n" "n \<noteq> 0" "call_overheads plan \<noteq> []"
    and "plan' = cal_apply config ov e plan"
  shows "call_overheads plan' = (case oo_placement config of LastCall \<Rightarrow> add_last v (call_overheads plan)
      | UniformCalls \<Rightarrow> shares (v div n) (v mod n) (call_overheads plan)) \<and> bare plan' = bare plan"
proof (cases "v = 0")
  case True
  have "shares 0 0 xs = xs" for xs by (induction xs) (simp_all add: saturating_add_def)
  then show ?thesis using True assms(1,2,5,6) by (simp add: cal_apply_def Let_def add_last_def saturating_add_def split: placement.splits)
next
  case False
  show ?thesis
  proof (cases "oo_placement config")
    case LastCall
    then show ?thesis using False assms(1,2,6) add_overhead_to_last_call_added [of v plan]
      by (simp add: cal_apply_def Let_def refresh_hints_bare last_added_def)
  next
    case UniformCalls
    obtain p r where p: "add_overhead_uniformly_inner (v div n) plan (v mod n) = (p, r)" by fastforce
    from uniformly_inner_shares [OF p] show ?thesis using UniformCalls False assms(1-4,6) p
      by (simp add: cal_apply_def Let_def refresh_hints_bare add_overhead_uniformly_def)
  qed
qed

text \<open>
  Claim C19. The calibration does not touch the work that is executed: targets, sampled work and the
  actual total are those of the plan. It adds the learned overhead \<open>v\<close> to the estimates exactly
  once: all of it to the last call in the order of execution, or an equal share to each of the \<open>n\<close>
  calls with the remainder spread over the first ones.
\<close>

theorem calibration_adds_overhead_once:
  assumes "oo_enabled config" "v = current_overhead_us ov e" "n = length (call_overheads plan)"
    and "0 < n" "n < 2 ^ 64" "total_us (call_overheads plan) + unat v < 2 ^ 64"
    and "plan' = cal_apply config ov e plan"
  shows "bare plan' = bare plan \<and> actual_total_work_us plan' = actual_total_work_us plan \<and>
    total_us (call_overheads plan') = total_us (call_overheads plan) + unat v \<and>
    map unat (call_overheads plan') = (case oo_placement config of
       LastCall \<Rightarrow> map unat (butlast (call_overheads plan)) @ [unat (last (call_overheads plan)) + unat v]
     | UniformCalls \<Rightarrow> map2 (\<lambda>i w. unat w + unat v div n + (if i < unat v mod n then 1 else 0)) [0..<n] (call_overheads plan))"
proof -
  let ?os = "call_overheads plan" and ?n = "of_nat n :: u64"
  have ne: "?os \<noteq> []" using assms(3,4) by auto
  have n: "unat ?n = n" "?n \<noteq> 0" "count_planned_calls plan = ?n"
    using assms(3-5) by (simp_all add: unat_of_nat_less count_planned_calls_eq word_unat_eq_iff)
  have dm: "unat (v div ?n) = unat v div n" "unat (v mod ?n) = unat v mod n" by (simp_all add: unat_div unat_mod n(1))
  have split: "n * (unat v div n) + unat v mod n = unat v" by simp
  have last: "unat (saturating_add (last ?os) v) = unat (last ?os) + unat v"
    using member_le_sum_list [of "unat (last ?os)" "map unat ?os"] assms(6) ne by (simp add: sat_simps)
  note q = cal_apply_overheads [OF assms(1,2) n(3,2) ne assms(7)]
  have len: "unat (v mod ?n) \<le> length ?os" "total_us ?os + length ?os * unat (v div ?n) + unat (v mod ?n) < 2 ^ 64"
    unfolding dm assms(3) [symmetric] using assms(4,6) split by (simp_all add: add.assoc)
  have "actual_total_work_us plan' = actual_total_work_us plan" using q actual_total_bare by metis
  moreover have "map unat (call_overheads plan') = (case oo_placement config of
       LastCall \<Rightarrow> map unat (butlast ?os) @ [unat (last ?os) + unat v]
     | UniformCalls \<Rightarrow> map2 (\<lambda>i w. unat w + unat v div n + (if i < unat v mod n then 1 else 0)) [0..<n] ?os)"
    using q ne last map_unat_shares [OF len] by (auto simp: add_last_def dm assms(3) [symmetric] split: placement.splits)
  moreover have "total_us (call_overheads plan') = total_us ?os + unat v"
    using q total_us_add_last [OF ne assms(6)] total_us_shares [OF len] split by (simp add: dm assms(3) [symmetric] split: placement.splits)
  ultimately show ?thesis using q by blast
qed

definition ex_leaf :: "u64 \<Rightarrow> planned_call" where
  "ex_leaf w = PlannedCall \<lparr>target_service = ''S'', target_method = ''g''\<rparr> \<lparr>hint_child_work_us = 0, hint_remaining_after_us = 0\<rparr>
     (ExecutionPlan w 0 [])"

theorem calibration_adds_overhead_once_witness:
  "map unat (call_overheads (cal_apply (online_overhead_default\<lparr>oo_enabled := True, oo_placement := UniformCalls\<rparr>)
     [''a'' \<mapsto> 5] ''a'' (ExecutionPlan 0 0 [[ex_leaf 10], [ex_leaf 20]]))) = [3, 2]"
proof -
  let ?c = "online_overhead_default\<lparr>oo_enabled := True, oo_placement := UniformCalls\<rparr>"
  define p where "p = ExecutionPlan 0 0 [[ex_leaf 10], [ex_leaf 20]]"
  have os: "call_overheads p = [0, 0]" by (simp add: p_def ex_leaf_def)
  have "\<lfloor>(11 / 2 :: rat)\<rfloor> = 5" by (simp add: floor_eq_iff)
  then have v: "5 = current_overhead_us [''a'' \<mapsto> 5] ''a''"
    by (simp add: current_overhead_us_def unwrap_or_def f_round_def to_u64_def)
  from calibration_adds_overhead_once [of ?c 5 "[''a'' \<mapsto> 5]" "''a''" 2 p "cal_apply ?c [''a'' \<mapsto> 5] ''a'' p", OF _ v]
  show ?thesis unfolding p_def [symmetric] by (simp add: os online_overhead_default_def upt_rec)
qed

text \<open>
  The work of the steps is added with \<open>sum\<close>, which wraps in a release build, where every other
  addition of the file saturates: two steps of \<open>2 ^ 63\<close> microseconds count as no work.
\<close>

lemma step_sum_wraps:
  "actual_total_work_us (ExecutionPlan 0 0 [[ex_leaf (2 ^ 63)], [ex_leaf (2 ^ 63)]]) = 0"
  by (simp add: ex_leaf_def iter_max_def saturating_add_def)

section \<open>What the calibration learns\<close>

definition capped :: "online_overhead_config \<Rightarrow> u64 \<Rightarrow> u64" where
  "capped config x = (if 0 < oo_max_overhead_us config then min x (oo_max_overhead_us config) else x)"

lemma cal_record_eq:
  assumes "oo_enabled config" "0 < oo_alpha config" "oo_alpha config \<le> 1"
  shows "cal_record fl config e x ov = ov(e \<mapsto> (case ov e of None \<Rightarrow> of_u64 fl (capped config x)
    | Some m \<Rightarrow> ema fl (oo_alpha config) (of_u64 fl (capped config x)) m))"
  using assms by (simp add: cal_record_def Let_def clamp_def capped_def ema_def split: option.splits)

lemma cal_records_within:
  assumes fl: "ieee fl" and "oo_enabled config" "0 < oo_alpha config" "oo_alpha config \<le> 3 / 8"
  shows "\<forall>x\<in>set obs. lo \<le> of_u64 fl (capped config x) \<and> of_u64 fl (capped config x) \<le> hi \<Longrightarrow>
    (case ov e of None \<Rightarrow> obs \<noteq> [] | Some m \<Rightarrow> rnd fl m = m \<and> lo \<le> m \<and> m \<le> hi) \<Longrightarrow>
    \<exists>m. fold (cal_record fl config e) obs ov e = Some m \<and> rnd fl m = m \<and> lo \<le> m \<and> m \<le> hi"
proof (induction obs arbitrary: ov)
  case Nil
  then show ?case by (auto split: option.splits)
next
  case (Cons x obs)
  have alpha: "oo_alpha config \<le> 1" using assms(4) by simp
  let ?x = "of_u64 fl (capped config x)"
  have x: "rnd fl ?x = ?x" "lo \<le> ?x" "?x \<le> hi" using Cons.prems(1) by (simp_all add: of_u64_def ieee_rnd(2) [OF fl])
  have between: "rnd fl m' = m' \<and> lo \<le> m' \<and> m' \<le> hi"
    if "m' = (case ov e of None \<Rightarrow> ?x | Some m \<Rightarrow> ema fl (oo_alpha config) ?x m)" for m'
  proof (cases "ov e")
    case None
    then show ?thesis using that x by simp
  next
    case (Some m)
    then have m: "rnd fl m = m" "lo \<le> m" "m \<le> hi" using Cons.prems(2) by simp_all
    show ?thesis using ema_between [OF fl x(1) m(1), of "oo_alpha config"] assms(3,4) x(2,3) m(2,3) Some that
      by (auto simp: min_def max_def split: if_splits)
  qed
  have "cal_record fl config e x ov e = Some (case ov e of None \<Rightarrow> ?x | Some m \<Rightarrow> ema fl (oo_alpha config) ?x m)"
    by (simp add: cal_record_eq [OF assms(2,3) alpha])
  then show ?case using Cons.IH [of "cal_record fl config e x ov"] Cons.prems(1) between [OF refl] by simp
qed

lemma round_between:
  assumes "of_nat (unat lo) \<le> x" "x \<le> of_nat (unat hi)"
  shows "lo \<le> to_u64 (f_round x)" "to_u64 (f_round x) \<le> hi"
proof -
  have x: "0 \<le> x" using assms(1) of_nat_0_le_iff order_trans by blast
  obtain k where k: "f_round x = of_nat k" "unat lo \<le> k" "k \<le> unat hi"
  proof
    let ?i = "\<lfloor>x + 1 / 2\<rfloor>"
    have "int (unat lo) \<le> ?i" "?i \<le> int (unat hi)" using assms by (simp_all add: le_floor_iff floor_le_iff)
    moreover have "f_round x = of_int ?i" using x by (simp add: f_round_def)
    moreover have "(of_nat (nat ?i) :: rat) = of_int ?i" using x by simp
    ultimately show "f_round x = of_nat (nat ?i)" "unat lo \<le> nat ?i" "nat ?i \<le> unat hi" by linarith+
  qed
  have "k < 2 ^ 64" using k(3) unat_u64_less [of hi] by linarith
  then have "unat (to_u64 (of_nat k)) = k"
    by (cases "k = 0") (simp_all add: to_u64_def unat_of_nat_less not_le del: of_nat_power_less_of_nat_cancel_iff)
  then show "lo \<le> to_u64 (f_round x)" "to_u64 (f_round x) \<le> hi" using k by (simp_all add: word_le_nat_alt)
qed

lemma within_f64:
  assumes "ieee fl" "lo \<le> x" "x \<le> hi" "hi \<le> 2 ^ 53"
  shows "of_nat (unat lo) \<le> of_u64 fl x" "of_u64 fl x \<le> of_nat (unat hi)"
  using of_u64_mono [OF assms(1,2)] of_u64_mono [OF assms(1,3)] assms(2-4)
    of_u64_exact [OF assms(1), of lo] of_u64_exact [OF assms(1), of hi] by (simp_all del: of_nat_unat)

text \<open>
  The overhead the calibration learned for an entry point lies between the least and the
  greatest observation, each capped at the configured maximum: rounding never takes the moving
  average, or the number read from it, outside.
\<close>

theorem learned_overhead_within_observations:
  assumes "ieee fl" "oo_enabled config" "0 < oo_alpha config" "oo_alpha config \<le> 3 / 8"
    and "obs \<noteq> []" "\<forall>x\<in>set obs. lo \<le> capped config x \<and> capped config x \<le> hi" "hi \<le> 2 ^ 53" "ov e = None"
  shows "lo \<le> current_overhead_us (fold (cal_record fl config e) obs ov) e \<and>
    current_overhead_us (fold (cal_record fl config e) obs ov) e \<le> hi"
proof -
  have "\<forall>x\<in>set obs. of_nat (unat lo) \<le> of_u64 fl (capped config x) \<and> of_u64 fl (capped config x) \<le> of_nat (unat hi)"
    using within_f64 [OF assms(1) _ _ assms(7)] assms(6) by blast
  from cal_records_within [OF assms(1-4) this, of ov e] obtain m where m: "fold (cal_record fl config e) obs ov e = Some m"
    "of_nat (unat lo) \<le> m" "m \<le> of_nat (unat hi)" using assms(5,8) by auto
  then show ?thesis using round_between [OF m(2,3)] by (simp add: current_overhead_us_def unwrap_or_def)
qed

theorem learned_overhead_within_observations_witness:
  "let c = online_overhead_default\<lparr>oo_enabled := True, oo_max_overhead_us := 100\<rparr>;
       v = current_overhead_us (fold (cal_record ex_f64 c ''a'') [40, 300, 7] (\<lambda>_. None)) ''a'' in 7 \<le> v \<and> v \<le> 100"
proof -
  let ?c = "online_overhead_default\<lparr>oo_enabled := True, oo_max_overhead_us := 100\<rparr>"
  have "7 \<le> current_overhead_us (fold (cal_record ex_f64 ?c ''a'') [40, 300, 7] (\<lambda>_. None)) ''a'' \<and>
    current_overhead_us (fold (cal_record ex_f64 ?c ''a'') [40, 300, 7] (\<lambda>_. None)) ''a'' \<le> 100"
    by (rule learned_overhead_within_observations [OF ex_f64_ieee]) (simp_all add: online_overhead_default_def capped_def)
  then show ?thesis by (simp add: Let_def)
qed

end
