(* ===== verification/Oracle_Exec.thy ===== *)
theory Oracle_Exec
  imports Oracle_Work Tail_Clipper "HOL-Library.Countable"
begin

text \<open>
  The execution of a plan by the services of the synthetic benchmark: the headers of a planned call
  (\<open>oracle.rs\<close>), the traces (\<open>hop_trace.rs\<close>), the calls of a plan and the simulated work
  (\<open>util.rs\<close>), the handler of a service (\<open>child/server.rs\<close>) and that of an entry point
  (\<open>frontend/server.rs\<close>), as built with the feature \<open>sched_oracle\<close>.

  JSON is a parameter (\<open>json\<close>), and so is the header map. The state \<open>'w sampler\<close> holds the
  generator and the clock; what a sleep or a spin does to it is the parameter \<open>perform\<close>. The tasks
  of a step finish in the order \<open>join\<close> puts them in. A call reaches the handler \<open>rpc\<close> of the
  service it names; \<open>cluster\<close> closes the loop, with services whose calls reach services, to a
  given depth.
\<close>

section \<open>Headers and traces\<close>

datatype exec_error =
    OverrideFailed string
  | HeaderFailed string
  | PlanEncode string
  | PlanHeaderText string
  | PlanDecode string
  | MethodUnknown string string
  | MissingPlan string string
  | TraceEncode string
  | TraceDecode string
  | NoPlan oracle_error

definition ORACLE_PLAN_HEADER :: string where
  "ORACLE_PLAN_HEADER = ''x-masa-oracle-plan''"

datatype hop_trace = HopTrace
  (ht_service: string) (ht_method: string) (ht_sent_at: u64) (ht_started_at: u64) (ht_finished_at: u64)
  (ht_work: u64) (ht_queueing: u64) (ht_handler: u64) (ht_children: "hop_trace list")

record json =
  plan_to_json :: "execution_plan \<Rightarrow> string + string"
  plan_from_json :: "string \<Rightarrow> string + execution_plan"
  traces_to_json :: "hop_trace list \<Rightarrow> string + string"
  traces_from_json :: "string \<Rightarrow> string + hop_trace list"

definition put_header :: "'m metadata_ops \<Rightarrow> 'e \<Rightarrow> 'm \<Rightarrow> string \<Rightarrow> string \<Rightarrow> 'e + 'm" where
  "put_header ops err metadata key v = (if md_value_ok ops v then Inr (md_insert ops metadata key v) else Inl err)"

definition insert_u64_header :: "'m metadata_ops \<Rightarrow> 'm \<Rightarrow> string \<Rightarrow> u64 \<Rightarrow> exec_error + 'm" where
  "insert_u64_header ops metadata key v = put_header ops (HeaderFailed key) metadata key (show_nat (unat v))"

definition bind_sum :: "'e + 'a \<Rightarrow> ('a \<Rightarrow> 'e + 'b) \<Rightarrow> 'e + 'b" where
  "bind_sum r f = (case r of Inl e \<Rightarrow> Inl e | Inr a \<Rightarrow> f a)"

definition hint_inject_headers :: "'m metadata_ops \<Rightarrow> plan_hint \<Rightarrow> 'm \<Rightarrow> exec_error + 'm" where
  "hint_inject_headers ops hint metadata =
     bind_sum (insert_u64_header ops metadata ORACLE_CHILD_WORK_US_HEADER (hint_child_work_us hint)) (\<lambda>m.
       insert_u64_header ops m ORACLE_REMAINING_AFTER_US_HEADER (hint_remaining_after_us hint))"

definition plan_inject_header :: "json \<Rightarrow> 'm metadata_ops \<Rightarrow> execution_plan \<Rightarrow> 'm \<Rightarrow> exec_error + 'm" where
  "plan_inject_header js ops plan metadata =
     (case plan_to_json js plan of
        Inl e \<Rightarrow> Inl (PlanEncode e)
      | Inr j \<Rightarrow> put_header ops (HeaderFailed ORACLE_PLAN_HEADER) metadata ORACLE_PLAN_HEADER j)"

definition call_inject_headers :: "json \<Rightarrow> 'm metadata_ops \<Rightarrow> planned_call \<Rightarrow> 'm \<Rightarrow> exec_error + 'm" where
  "call_inject_headers js ops c metadata =
     bind_sum (hint_inject_headers ops (pc_hint c) metadata) (plan_inject_header js ops (pc_plan c))"

definition plan_from_metadata ::
    "json \<Rightarrow> 'm metadata_ops \<Rightarrow> (string \<Rightarrow> string + string) \<Rightarrow> 'm \<Rightarrow> exec_error + execution_plan option" where
  "plan_from_metadata js ops to_str metadata =
     (case md_get ops metadata ORACLE_PLAN_HEADER of
        None \<Rightarrow> Inr None
      | Some v \<Rightarrow>
          (case to_str v of
             Inl e \<Rightarrow> Inl (PlanHeaderText e)
           | Inr j \<Rightarrow> (case plan_from_json js j of Inl e \<Rightarrow> Inl (PlanDecode e) | Inr p \<Rightarrow> Inr (Some p))))"

definition encode_hop_traces :: "json \<Rightarrow> hop_trace list \<Rightarrow> exec_error + string" where
  "encode_hop_traces js traces = (case traces_to_json js traces of Inl e \<Rightarrow> Inl (TraceEncode e) | Inr j \<Rightarrow> Inr j)"

definition decode_hop_traces :: "json \<Rightarrow> string \<Rightarrow> exec_error + hop_trace list" where
  "decode_hop_traces js j = (if j = [] then Inr []
     else (case traces_from_json js j of Inl e \<Rightarrow> Inl (TraceDecode e) | Inr ts \<Rightarrow> Inr ts))"

section \<open>Simulated work\<close>

datatype work_action = Sleep u64 | Spin u64 | Yield

function spin_chunks :: "u64 \<Rightarrow> work_action list" where
  "spin_chunks left = (if 200 < left then Spin 200 # Yield # spin_chunks (left - 200) else if 0 < left then [Spin left] else [])"
  by auto
termination
  by (relation "measure unat") (auto simp: word_less_nat_alt unat_sub_if_size word_size)

declare spin_chunks.simps [simp del]

definition simulate_work :: "f64_ops \<Rightarrow> bool \<Rightarrow> u64 \<Rightarrow> f64 \<Rightarrow> work_action list" where
  "simulate_work fl disable_cpu_yield duration_us ratio =
     (if duration_us = 0 then []
      else let busy_spin_dur_us = f_round_times fl duration_us ratio;
               sleep_dur_us = saturating_sub duration_us busy_spin_dur_us in
           (if 0 < sleep_dur_us then [Sleep sleep_dur_us] else []) @
           (if 0 < busy_spin_dur_us then
              if disable_cpu_yield then [Spin busy_spin_dur_us] else spin_chunks busy_spin_dur_us
            else []))"

section \<open>Calls and handlers\<close>

record method_request =
  mr_service_id :: string
  mr_method_name :: string
  mr_sent_at :: u64

record method_response =
  resp_queueing_latency :: u64
  resp_handler_latency :: u64
  resp_finished_at :: u64
  resp_hop_trace_json :: string

type_synonym ('w, 'a) serving = "'w sampler \<Rightarrow> (exec_error, 'a) run \<times> 'w sampler"
type_synonym ('w, 'm) rpc = "method_request \<Rightarrow> 'm \<Rightarrow> ('w, method_response) serving"

record ('w, 'm) site =
  st_md :: "'m metadata_ops"
  st_md_new :: 'm
  st_to_str :: "string \<Rightarrow> string + string"
  st_json :: json
  st_fl :: f64_ops
  st_pf :: "'w platform"
  st_elapsed :: "'w clock"
  st_perform :: "work_action \<Rightarrow> 'w \<Rightarrow> 'w"
  st_join :: "planned_call list \<Rightarrow> planned_call list"
  st_connected :: "string \<Rightarrow> bool"
  st_methods :: "string \<times> string \<rightharpoonup> 'w service_method"
  st_disable_cpu_yield :: bool

definition read_clock :: "'w clock \<Rightarrow> 'w sampler \<Rightarrow> u64 \<times> 'w sampler" where
  "read_clock clk s = (case clk (rng s) of (t, w) \<Rightarrow> (t, s\<lparr>rng := w\<rparr>))"

definition lift_sum :: "exec_error + 'a \<Rightarrow> ('w, 'a) serving" where
  "lift_sum r s = (case r of Inl e \<Rightarrow> (Err e, s) | Inr a \<Rightarrow> (Ok a, s))"

definition planned_headers :: "('w, 'm) site \<Rightarrow> planned_call \<Rightarrow> exec_error + 'm" where
  "planned_headers st c =
     bind_sum (put_header (st_md st) (OverrideFailed METHOD_NAME_OVERRIDE_HEADER) (st_md_new st)
         METHOD_NAME_OVERRIDE_HEADER (target_method (pc_target c))) (\<lambda>m1.
     bind_sum (put_header (st_md st) (OverrideFailed SERVICE_NAME_OVERRIDE_HEADER) m1
         SERVICE_NAME_OVERRIDE_HEADER (target_service (pc_target c)))
       (call_inject_headers (st_json st) (st_md st) c))"

definition exec_call :: "('w, 'm) site \<Rightarrow> ('w, 'm) rpc \<Rightarrow> planned_call \<Rightarrow> ('w, hop_trace list) serving" where
  "exec_call st rpc c s =
     (case read_clock (time_now (st_pf st)) s of (sent_at, s1) \<Rightarrow>
        and_then (lift_sum (planned_headers st c) s1) (\<lambda>metadata s2.
        and_then (rpc \<lparr>mr_service_id = target_service (pc_target c), mr_method_name = target_method (pc_target c), mr_sent_at = sent_at\<rparr>
            metadata s2) (\<lambda>response. lift_sum (decode_hop_traces (st_json st) (resp_hop_trace_json response)))))"

fun exec_calls :: "('w, 'm) site \<Rightarrow> ('w, 'm) rpc \<Rightarrow> planned_call list \<Rightarrow> ('w, hop_trace list) serving" where
  "exec_calls st rpc [] s = (Ok [], s)"
| "exec_calls st rpc (c # cs) s =
     and_then (exec_call st rpc c s) (\<lambda>ts s1. and_then (exec_calls st rpc cs s1) (\<lambda>us s2. (Ok (ts @ us), s2)))"

fun execute_oracle_call_sequence :: "('w, 'm) site \<Rightarrow> ('w, 'm) rpc \<Rightarrow> planned_call list list \<Rightarrow> ('w, hop_trace list) serving" where
  "execute_oracle_call_sequence st rpc [] s = (Ok [], s)"
| "execute_oracle_call_sequence st rpc (step # rest) s =
     and_then (exec_calls st rpc (st_join st (filter (\<lambda>c. st_connected st (target_service (pc_target c))) step)) s) (\<lambda>ts s1.
     and_then (execute_oracle_call_sequence st rpc rest s1) (\<lambda>us s2. (Ok (ts @ us), s2)))"

definition get_method :: "('w, 'm) site \<Rightarrow> string \<Rightarrow> string \<Rightarrow> exec_error + 'w service_method" where
  "get_method st service_id method_name =
     (case st_methods st (service_id, method_name) of None \<Rightarrow> Inl (MethodUnknown service_id method_name) | Some m \<Rightarrow> Inr m)"

definition handler_work :: "('w, 'm) site \<Rightarrow> execution_plan option \<Rightarrow> 'w service_method \<Rightarrow> ('w, u64) serving" where
  "handler_work st plan m s =
     (case plan of
        Some p \<Rightarrow> (Ok (local_work_us p), s)
      | None \<Rightarrow> (case sample (time_now (st_pf st)) (latency_dist m) s of Panic \<Rightarrow> (Panicked, s) | Done (v, s1) \<Rightarrow> (Ok v, s1)))"

definition handler_children :: "('w, 'm) site \<Rightarrow> ('w, 'm) rpc \<Rightarrow> method_request \<Rightarrow> execution_plan option \<Rightarrow> 'w service_method \<Rightarrow> ('w, hop_trace list) serving" where
  "handler_children st rpc request plan m s =
     (case plan of
        Some p \<Rightarrow> execute_oracle_call_sequence st rpc (child_steps p) s
      | None \<Rightarrow> if parsed_call_sequence m \<noteq> [] then (Err (MissingPlan (mr_service_id request) (mr_method_name request)), s)
                 else (Ok [], s))"

definition handle_method :: "('w, 'm) site \<Rightarrow> ('w, 'm) rpc \<Rightarrow> ('w, 'm) rpc" where
  "handle_method st rpc request metadata s =
     and_then (lift_sum (plan_from_metadata (st_json st) (st_md st) (st_to_str st) metadata) s) (\<lambda>oracle_plan s.
       case read_clock (time_now (st_pf st)) s of (started_at, s1) \<Rightarrow>
       and_then (lift_sum (get_method st (mr_service_id request) (mr_method_name request)) s1) (\<lambda>m s2.
       and_then (handler_work st oracle_plan m s2) (\<lambda>duration_us s3.
       and_then (handler_children st rpc request oracle_plan m s3) (\<lambda>child_traces s4.
       let acts = simulate_work (st_fl st) (st_disable_cpu_yield st) duration_us (unwrap_or (busy_spin_ratio m) (rnd (st_fl st) (1 / 10)));
           s5 = s4\<lparr>rng := fold (st_perform st) acts (rng s4)\<rparr> in
       case read_clock (time_now (st_pf st)) s5 of (finished_at, s6) \<Rightarrow>
       case read_clock (st_elapsed st) s6 of (handler_latency, s7) \<Rightarrow>
       let queueing_latency = started_at - mr_sent_at request;
           trace = HopTrace (mr_service_id request) (mr_method_name request) (mr_sent_at request) started_at finished_at
             duration_us queueing_latency handler_latency child_traces in
       and_then (lift_sum (encode_hop_traces (st_json st) [trace]) s7) (\<lambda>j s8.
         (Ok \<lparr>resp_queueing_latency = queueing_latency, resp_handler_latency = handler_latency, resp_finished_at = finished_at,
            resp_hop_trace_json = j\<rparr>, s8))))))"

fun cluster :: "('w, 'm) site \<Rightarrow> nat \<Rightarrow> ('w, 'm) rpc" where
  "cluster st 0 request metadata s = (TooDeep, s)"
| "cluster st (Suc depth) request metadata s = handle_method st (cluster st depth) request metadata s"

text \<open>\<open>handle_a\<close> and \<open>handle_b\<close>, which differ in the name of the entry point and in the reply.\<close>

definition handle_entry ::
    "('w, 'm) site \<Rightarrow> ('w, 'm) rpc \<Rightarrow> 'w planner \<Rightarrow> nat \<Rightarrow> string \<Rightarrow> overheads \<Rightarrow> 'w sampler \<Rightarrow>
      (exec_error, u64 \<times> string) run \<times> overheads \<times> 'w sampler" where
  "handle_entry st rpc pl depth entry ov s =
     (case plan_entry_point (st_pf st) pl depth ov entry s of
        (Ok plan, s1) \<Rightarrow>
          (case execute_oracle_call_sequence st rpc (child_steps plan) s1 of
             (Ok hop_traces, s2) \<Rightarrow>
               (case read_clock (st_elapsed st) s2 of (handler_latency, s3) \<Rightarrow>
                  let ov' = record_entry_point_latency (st_fl st) pl entry handler_latency plan ov in
                  (case encode_hop_traces (st_json st) hop_traces of
                     Inl e \<Rightarrow> (Err e, ov', s3) | Inr j \<Rightarrow> (Ok (handler_latency, j), ov', s3)))
           | (Err e, s2) \<Rightarrow> (Err e, ov, s2)
           | (Panicked, s2) \<Rightarrow> (Panicked, ov, s2)
           | (TooDeep, s2) \<Rightarrow> (TooDeep, ov, s2))
      | (Err e, s1) \<Rightarrow> (Err (NoPlan e), ov, s1)
      | (Panicked, s1) \<Rightarrow> (Panicked, ov, s1)
      | (TooDeep, s1) \<Rightarrow> (TooDeep, ov, s1))"

section \<open>The simulated work adds up\<close>

fun action_us :: "work_action \<Rightarrow> nat" where
  "action_us (Sleep v) = unat v"
| "action_us (Spin v) = unat v"
| "action_us Yield = 0"

lemma spin_chunks_total: "sum_list (map action_us (spin_chunks v)) = unat v"
proof (induction v rule: spin_chunks.induct)
  case (1 v)
  have "unat (v - 200) = unat v - 200" "200 \<le> unat v" if "200 < v"
    using that by (simp_all add: word_less_nat_alt unat_sub_if_size)
  moreover have "\<not> 0 < v \<Longrightarrow> v = 0" by (simp add: word_gt_0)
  ultimately show ?case using 1 by (subst spin_chunks.simps) auto
qed

lemma spin_chunks_short: "list_all (\<lambda>a. case a of Spin v \<Rightarrow> v \<le> 200 | Sleep _ \<Rightarrow> False | Yield \<Rightarrow> True) (spin_chunks v)"
proof (induction v rule: spin_chunks.induct)
  case (1 v)
  then show ?case by (subst spin_chunks.simps) auto
qed

lemma simulated_work_total:
  assumes "ieee fl" "duration_us < 2 ^ 53" "0 \<le> ratio" "ratio \<le> 1"
  shows "sum_list (map action_us (simulate_work fl b duration_us ratio)) = unat duration_us"
proof -
  let ?b = "f_round_times fl duration_us ratio"
  have "unat ?b \<le> unat duration_us" using product_rounds_below(2) [OF assms] by (simp add: word_le_nat_alt)
  moreover have "sum_list (map action_us (if 0 < v then [Sleep v] else [])) = unat v"
    "sum_list (map action_us (if 0 < v then if b then [Spin v] else spin_chunks v else [])) = unat v" for v :: u64
    by (auto simp: word_gt_0 spin_chunks_total)
  ultimately show ?thesis by (simp add: simulate_work_def Let_def sat_simps)
qed

section \<open>Headers read back\<close>

fun ascii_plan :: "execution_plan \<Rightarrow> bool" where
  "ascii_plan (ExecutionPlan l o' steps) \<longleftrightarrow> list_all (list_all (\<lambda>c. list_all visible_ascii (target_service (pc_target c)) \<and>
     list_all visible_ascii (target_method (pc_target c)) \<and> ascii_plan (pc_plan c))) steps"

text \<open>
  What the code relies on: the JSON of a plan whose names are visible ASCII is visible ASCII, and a
  plan and a list of traces read back as written; the text of a header value is its bytes.
\<close>

definition json_laws :: "json \<Rightarrow> bool" where
  "json_laws js \<longleftrightarrow>
     (\<forall>p. ascii_plan p \<longrightarrow> (\<exists>j. plan_to_json js p = Inr j \<and> list_all visible_ascii j \<and> plan_from_json js j = Inr p)) \<and>
     (\<forall>ts. \<exists>j. traces_to_json js ts = Inr j \<and> j \<noteq> [] \<and> traces_from_json js j = Inr ts)"

definition site_laws :: "('w, 'm) site \<Rightarrow> bool" where
  "site_laws st \<longleftrightarrow> metadata_laws (st_md st) \<and> metadata_frame (st_md st) \<and> json_laws (st_json st) \<and>
     (\<forall>v. list_all visible_ascii v \<longrightarrow> st_to_str st v = Inr v) \<and> (\<forall>cs. mset (st_join st cs) = mset cs)"

lemma put_header_ascii:
  assumes "metadata_laws ops" "metadata_frame ops" "list_all visible_ascii v"
  obtains m' where "put_header ops e m k v = Inr m'" "md_get ops m' k = Some v" "\<And>j. j \<noteq> k \<Longrightarrow> md_get ops m' j = md_get ops m j"
proof -
  have "md_value_ok ops v" using assms(1,3) unfolding metadata_laws_def list_all_iff by metis
  then show ?thesis using assms(1,2) by (intro that [of "md_insert ops m k v"]) (auto simp: put_header_def metadata_laws_def metadata_frame_def)
qed

lemma planned_headers_read:
  assumes st: "site_laws st" and "ascii_plan (pc_plan c)" "list_all visible_ascii (target_service (pc_target c))"
    "list_all visible_ascii (target_method (pc_target c))"
  shows "\<exists>md. planned_headers st c = Inr md \<and> plan_from_metadata (st_json st) (st_md st) (st_to_str st) md = Inr (Some (pc_plan c)) \<and>
    oracle_hint_from_request (st_md st) (st_to_str st) md child =
      Inr \<lparr>child_work_us = hint_child_work_us (pc_hint c), remaining_after_us = hint_remaining_after_us (pc_hint c)\<rparr>"
proof -
  let ?ops = "st_md st"
  note laws = st [unfolded site_laws_def]
  have ml: "metadata_laws ?ops" "metadata_frame ?ops" using laws by simp_all
  obtain j where j: "plan_to_json (st_json st) (pc_plan c) = Inr j" "list_all visible_ascii j" "plan_from_json (st_json st) j = Inr (pc_plan c)"
    using laws assms(2) unfolding json_laws_def by metis
  obtain m1 where m1: "put_header ?ops (OverrideFailed METHOD_NAME_OVERRIDE_HEADER) (st_md_new st) METHOD_NAME_OVERRIDE_HEADER (target_method (pc_target c)) = Inr m1"
    "md_get ?ops m1 METHOD_NAME_OVERRIDE_HEADER = Some (target_method (pc_target c))" "\<And>j. j \<noteq> METHOD_NAME_OVERRIDE_HEADER \<Longrightarrow> md_get ?ops m1 j = md_get ?ops ((st_md_new st)) j"
    by (rule put_header_ascii [OF ml assms(4), where e = "OverrideFailed METHOD_NAME_OVERRIDE_HEADER" and m = "st_md_new st" and k = METHOD_NAME_OVERRIDE_HEADER])
      (rule that)
  obtain m2 where m2: "put_header ?ops (OverrideFailed SERVICE_NAME_OVERRIDE_HEADER) m1 SERVICE_NAME_OVERRIDE_HEADER (target_service (pc_target c)) = Inr m2"
    "md_get ?ops m2 SERVICE_NAME_OVERRIDE_HEADER = Some (target_service (pc_target c))" "\<And>j. j \<noteq> SERVICE_NAME_OVERRIDE_HEADER \<Longrightarrow> md_get ?ops m2 j = md_get ?ops (m1) j"
    by (rule put_header_ascii [OF ml assms(3), where e = "OverrideFailed SERVICE_NAME_OVERRIDE_HEADER" and m = "m1" and k = SERVICE_NAME_OVERRIDE_HEADER])
      (rule that)
  let ?w = "hint_child_work_us (pc_hint c)" and ?r = "hint_remaining_after_us (pc_hint c)"
  obtain m3 where m3: "put_header ?ops (HeaderFailed ORACLE_CHILD_WORK_US_HEADER) m2 ORACLE_CHILD_WORK_US_HEADER (show_nat (unat ?w)) = Inr m3"
    "md_get ?ops m3 ORACLE_CHILD_WORK_US_HEADER = Some (show_nat (unat ?w))" "\<And>j. j \<noteq> ORACLE_CHILD_WORK_US_HEADER \<Longrightarrow> md_get ?ops m3 j = md_get ?ops (m2) j"
    by (rule put_header_ascii [OF ml show_nat_ascii, where e = "HeaderFailed ORACLE_CHILD_WORK_US_HEADER" and m = "m2" and k = ORACLE_CHILD_WORK_US_HEADER])
      (rule that)
  obtain m4 where m4: "put_header ?ops (HeaderFailed ORACLE_REMAINING_AFTER_US_HEADER) m3 ORACLE_REMAINING_AFTER_US_HEADER (show_nat (unat ?r)) = Inr m4"
    "md_get ?ops m4 ORACLE_REMAINING_AFTER_US_HEADER = Some (show_nat (unat ?r))" "\<And>j. j \<noteq> ORACLE_REMAINING_AFTER_US_HEADER \<Longrightarrow> md_get ?ops m4 j = md_get ?ops (m3) j"
    by (rule put_header_ascii [OF ml show_nat_ascii, where e = "HeaderFailed ORACLE_REMAINING_AFTER_US_HEADER" and m = "m3" and k = ORACLE_REMAINING_AFTER_US_HEADER])
      (rule that)
  obtain m5 where m5: "put_header ?ops (HeaderFailed ORACLE_PLAN_HEADER) m4 ORACLE_PLAN_HEADER (j) = Inr m5"
    "md_get ?ops m5 ORACLE_PLAN_HEADER = Some (j)" "\<And>j. j \<noteq> ORACLE_PLAN_HEADER \<Longrightarrow> md_get ?ops m5 j = md_get ?ops (m4) j"
    by (rule put_header_ascii [OF ml j(2), where e = "HeaderFailed ORACLE_PLAN_HEADER" and m = "m4" and k = ORACLE_PLAN_HEADER])
      (rule that)
  have ne: "ORACLE_CHILD_WORK_US_HEADER \<noteq> ORACLE_REMAINING_AFTER_US_HEADER" "ORACLE_CHILD_WORK_US_HEADER \<noteq> ORACLE_PLAN_HEADER"
    "ORACLE_REMAINING_AFTER_US_HEADER \<noteq> ORACLE_PLAN_HEADER"
    by (simp_all add: ORACLE_CHILD_WORK_US_HEADER_def ORACLE_REMAINING_AFTER_US_HEADER_def ORACLE_PLAN_HEADER_def)
  have str: "st_to_str st v = Inr v" if "list_all visible_ascii v" for v using laws that by blast
  have u64: "parse_u64 (show_nat (unat v)) = Inr v" for v :: u64 using parse_u64_show [OF unat_u64_less [of v]] by simp
  have "planned_headers st c = Inr m5"
    by (simp add: planned_headers_def bind_sum_def m1 m2 m3 m4 m5 call_inject_headers_def hint_inject_headers_def insert_u64_header_def plan_inject_header_def j)
  moreover have "plan_from_metadata (st_json st) ?ops (st_to_str st) m5 = Inr (Some (pc_plan c))"
    by (simp add: plan_from_metadata_def m5 str j)
  moreover have "oracle_hint_from_request ?ops (st_to_str st) m5 child = Inr \<lparr>child_work_us = ?w, remaining_after_us = ?r\<rparr>"
    using m3(2) m4(2,3) m5(3) ne by (simp add: oracle_hint_from_request_def read_u64_header_def str [OF show_nat_ascii] u64)
  ultimately show ?thesis by blast
qed

section \<open>From the plan to the deadline of a call\<close>

lemma step_hints_at:
  "step_hints_ok l (before @ step # later) \<Longrightarrow> c \<in> set step \<Longrightarrow>
    hint_child_work_us (pc_hint c) = estimated_total_work_us (pc_plan c) \<and> unat (hint_remaining_after_us (pc_hint c)) = work_after l later"
  by (induction before) (auto simp: list_all_iff)

text \<open>
  Claim C16. What a planned call carries is what the scheduler of the called service acts on: the
  headers of a call of step \<open>step\<close> of a plan are accepted by the oracle module of the caller, the
  call's deadline is the end-to-end deadline less the work left after the step (the caller's own
  work and the steps \<open>later\<close>), and its priority is its latest start, the deadline less its own
  estimated work.
\<close>

theorem planned_call_deadline:
  assumes "site_laws st" "hints_ok (ExecutionPlan l v (before @ step # later))" "c \<in> set step"
    and "ascii_plan (ExecutionPlan l v (before @ step # later))" "decisions_ok e"
    and "\<And>t. t \<in> {CHILD_DEADLINE, CHILD_PRIORITY} \<Longrightarrow> case ext_decision t e of None \<Rightarrow> True | Some d \<Rightarrow> resolved_by d = None"
  shows "\<exists>md e' D. planned_headers st c = Inr md \<and>
    oracle_before_child_rpc (st_md st) (st_to_str st) budget child md e = (Inr (), e') \<and>
    unat D = unat (e2e_deadline budget) - work_after l later \<and>
    child_budget info e' = info\<lparr>ctx_deadline := D, ctx_prio_hint := PriorityHint (saturating_sub D (estimated_total_work_us (pc_plan c)))\<rparr>"
proof -
  have hint: "hint_child_work_us (pc_hint c) = estimated_total_work_us (pc_plan c)" "unat (hint_remaining_after_us (pc_hint c)) = work_after l later"
    using step_hints_at [OF _ assms(3)] assms(2) by auto
  have "list_all visible_ascii (target_service (pc_target c))" "list_all visible_ascii (target_method (pc_target c))" "ascii_plan (pc_plan c)"
    using assms(3,4) by (auto simp: list_all_iff)
  then obtain md where md: "planned_headers st c = Inr md"
    "oracle_hint_from_request (st_md st) (st_to_str st) md child =
      Inr \<lparr>child_work_us = hint_child_work_us (pc_hint c), remaining_after_us = hint_remaining_after_us (pc_hint c)\<rparr>"
    using planned_headers_read [OF assms(1)] by blast
  obtain r e' where r: "oracle_before_child_rpc (st_md st) (st_to_str st) budget child md e = (r, e')" by fastforce
  note proposed = oracle_proposes [OF md(2) assms(5,6) r]
  have "unat (saturating_sub (e2e_deadline budget) (hint_remaining_after_us (pc_hint c))) = unat (e2e_deadline budget) - work_after l later"
    by (simp add: sat_simps hint(2))
  with md(1) r proposed hint(1) show ?thesis
    by (intro exI [of _ md] exI [of _ e'] exI [of _ "saturating_sub (e2e_deadline budget) (hint_remaining_after_us (pc_hint c))"]) simp
qed

section \<open>Execution follows the plan\<close>

text \<open>Traces without their times, and the traces a plan asks for.\<close>

fun untimed :: "hop_trace \<Rightarrow> hop_trace" where
  "untimed (HopTrace service m _ _ _ work _ _ children) = HopTrace service m 0 0 0 work 0 0 (map untimed children)"

fun plan_traces :: "execution_plan \<Rightarrow> hop_trace list" where
  "plan_traces (ExecutionPlan l o' steps) = concat (map (map (\<lambda>c. HopTrace (target_service (pc_target c)) (target_method (pc_target c))
     0 0 0 (local_work_us (pc_plan c)) 0 0 (plan_traces (pc_plan c)))) steps)"

text \<open>
  \<open>runnable\<close>: the steps have at most one call, as validation requires, the names are visible ASCII,
  and the services called are connected and have the methods. \<open>call_depth\<close> is the depth of the tree.
\<close>

fun runnable :: "('w, 'm) site \<Rightarrow> execution_plan \<Rightarrow> bool" where
  "runnable st (ExecutionPlan l o' steps) \<longleftrightarrow> list_all (\<lambda>step. length step \<le> 1) steps \<and> list_all (list_all (\<lambda>c.
     list_all visible_ascii (target_service (pc_target c)) \<and> list_all visible_ascii (target_method (pc_target c)) \<and>
     st_connected st (target_service (pc_target c)) \<and> st_methods st (target_service (pc_target c), target_method (pc_target c)) \<noteq> None \<and>
     runnable st (pc_plan c))) steps"

fun call_depth :: "execution_plan \<Rightarrow> nat" where
  "call_depth (ExecutionPlan l o' steps) = foldr max (concat (map (map (\<lambda>c. Suc (call_depth (pc_plan c)))) steps)) 0"

text \<open>
  The work of a plan in the order in which the services perform it: a call is worked for after the
  calls it makes. \<open>keeps_log\<close>: \<open>wlog\<close> tells which sleeps and spins were performed so far, and reading a
  clock is none. \<open>worked\<close>: between two states, one run of sleeps and spins was performed for each
  amount of work, as long as it.
\<close>

fun planned_work :: "execution_plan \<Rightarrow> u64 list" where
  "planned_work (ExecutionPlan l o' steps) = concat (map (\<lambda>step. concat (map (\<lambda>c. planned_work (pc_plan c) @ [local_work_us (pc_plan c)]) step)) steps)"

definition keeps_log :: "('w, 'm) site \<Rightarrow> ('w \<Rightarrow> work_action list) \<Rightarrow> bool" where
  "keeps_log st wlog \<longleftrightarrow> (\<forall>a w. wlog (st_perform st a w) = wlog w @ [a]) \<and> (\<forall>w. wlog (snd (time_now (st_pf st) w)) = wlog w) \<and>
     (\<forall>w. wlog (snd (st_elapsed st w)) = wlog w)"

definition worked :: "('w \<Rightarrow> work_action list) \<Rightarrow> 'w sampler \<Rightarrow> 'w sampler \<Rightarrow> u64 list \<Rightarrow> bool" where
  "worked wlog s s' works \<longleftrightarrow> (\<exists>runs. wlog (rng s') = wlog (rng s) @ concat runs \<and> map (\<lambda>run. sum_list (map action_us run)) runs = map unat works)"

definition ratios_ok :: "('w, 'm) site \<Rightarrow> bool" where
  "ratios_ok st \<longleftrightarrow> ieee (st_fl st) \<and> (\<forall>k m r. st_methods st k = Some m \<and> busy_spin_ratio m = Some r \<longrightarrow> 0 \<le> r \<and> r \<le> 1)"

lemma worked_none: "wlog (rng s') = wlog (rng s) \<Longrightarrow> worked wlog s s' []"
  by (simp add: worked_def)

lemma worked_trans:
  assumes "worked wlog s s1 xs" "worked wlog s1 s2 ys"
  shows "worked wlog s s2 (xs @ ys)"
proof -
  obtain as bs where "wlog (rng s1) = wlog (rng s) @ concat as" "map (\<lambda>run. sum_list (map action_us run)) as = map unat xs"
    "wlog (rng s2) = wlog (rng s1) @ concat bs" "map (\<lambda>run. sum_list (map action_us run)) bs = map unat ys" using assms by (auto simp: worked_def)
  then show ?thesis unfolding worked_def by (intro exI [of _ "as @ bs"]) simp
qed

lemma worked_clock:
  assumes "keeps_log st wlog" "clk \<in> {time_now (st_pf st), st_elapsed st}" "read_clock clk s = (t, s')"
  shows "worked wlog s s' []"
proof (rule worked_none)
  have "wlog (snd (clk (rng s))) = wlog (rng s)" using assms(1,2) by (auto simp: keeps_log_def)
  then show "wlog (rng s') = wlog (rng s)" using assms(3) by (auto simp: read_clock_def split: prod.splits)
qed

lemma worked_work:
  assumes wlog: "keeps_log st wlog" and ratios: "ratios_ok st" "st_methods st k = Some m" and "d < 2 ^ 53"
  shows "worked wlog s (s\<lparr>rng := fold (st_perform st) (simulate_work (st_fl st) b d (unwrap_or (busy_spin_ratio m) (rnd (st_fl st) (1 / 10)))) (rng s)\<rparr>) [d]"
proof -
  let ?r = "unwrap_or (busy_spin_ratio m) (rnd (st_fl st) (1 / 10))"
  have "ieee (st_fl st)" using ratios(1) by (simp add: ratios_ok_def)
  moreover have "0 \<le> ?r \<and> ?r \<le> 1"
  proof (cases "busy_spin_ratio m")
    case None
    have "0 \<le> rnd (st_fl st) (1 / 10)" "rnd (st_fl st) (1 / 10) \<le> 1" by (rule rnd_between [OF \<open>ieee (st_fl st)\<close>], simp)+
    then show ?thesis using None by (simp add: unwrap_or_def)
  next
    case (Some r)
    then have "0 \<le> r \<and> r \<le> 1" using ratios unfolding ratios_ok_def by blast
    then show ?thesis using Some by (simp add: unwrap_or_def)
  qed
  ultimately have "sum_list (map action_us (simulate_work (st_fl st) b d ?r)) = unat d" using assms(4) by (simp add: simulated_work_total)
  moreover have "wlog (fold (st_perform st) as w) = wlog w @ as" for as w
    by (induction as arbitrary: w) (use wlog in \<open>simp_all add: keeps_log_def\<close>)
  ultimately show ?thesis unfolding worked_def by (intro exI [of _ "[simulate_work (st_fl st) b d ?r]"]) simp
qed

lemma foldr_max_ge: "(x :: nat) \<in> set xs \<Longrightarrow> x \<le> foldr max xs a"
  by (induction xs) (auto simp: le_max_iff_disj)

lemma call_depth_child: "step \<in> set steps \<Longrightarrow> c \<in> set step \<Longrightarrow> Suc (call_depth (pc_plan c)) \<le> call_depth (ExecutionPlan l v steps)"
  by (simp, rule foldr_max_ge) auto

lemma runnable_ascii: "runnable st p \<Longrightarrow> ascii_plan p"
  by (induction p rule: ascii_plan.induct) (auto simp: list_all_iff)

lemma handle_planned:
  assumes st: "site_laws st" and "plan_from_metadata (st_json st) (st_md st) (st_to_str st) md = Inr (Some p)"
    and "st_methods st (mr_service_id req, mr_method_name req) \<noteq> None"
    and "\<And>s. \<exists>ts s'. execute_oracle_call_sequence st rpc (child_steps p) s = (Ok ts, s') \<and> map untimed ts = us \<and> worked wlog s s' ws"
    and wlog: "keeps_log st wlog" "ratios_ok st" "local_work_us p < 2 ^ 53"
  shows "\<exists>resp s' t. handle_method st rpc req md s = (Ok resp, s') \<and> decode_hop_traces (st_json st) (resp_hop_trace_json resp) = Inr [t] \<and>
    untimed t = HopTrace (mr_service_id req) (mr_method_name req) 0 0 0 (local_work_us p) 0 0 us \<and> worked wlog s s' (ws @ [local_work_us p])"
proof -
  obtain m where m: "st_methods st (mr_service_id req, mr_method_name req) = Some m" using assms(3) by auto
  obtain t1 s1 where s1: "read_clock (time_now (st_pf st)) s = (t1, s1)" by fastforce
  obtain ts s2 where ts: "execute_oracle_call_sequence st rpc (child_steps p) s1 = (Ok ts, s2)" "map untimed ts = us" "worked wlog s1 s2 ws"
    using assms(4) by blast
  let ?s3 = "s2\<lparr>rng := fold (st_perform st) (simulate_work (st_fl st) (st_disable_cpu_yield st) (local_work_us p)
    (unwrap_or (busy_spin_ratio m) (rnd (st_fl st) (1 / 10)))) (rng s2)\<rparr>"
  obtain t2 s4 where s4: "read_clock (time_now (st_pf st)) ?s3 = (t2, s4)" by fastforce
  obtain t3 s5 where s5: "read_clock (st_elapsed st) s4 = (t3, s5)" by fastforce
  let ?t = "HopTrace (mr_service_id req) (mr_method_name req) (mr_sent_at req) t1 t2 (local_work_us p) (t1 - mr_sent_at req) t3 ts"
  obtain j where j: "traces_to_json (st_json st) [?t] = Inr j" "j \<noteq> []" "traces_from_json (st_json st) j = Inr [?t]"
    using st unfolding site_laws_def json_laws_def by metis
  let ?r = "\<lparr>resp_queueing_latency = t1 - mr_sent_at req, resp_handler_latency = t3, resp_finished_at = t2, resp_hop_trace_json = j\<rparr>"
  have "handle_method st rpc req md s = (Ok ?r, s5)"
    by (simp add: handle_method_def lift_sum_def assms(2) s1 get_method_def m handler_work_def handler_children_def ts s4 s5 Let_def
        encode_hop_traces_def j)
  moreover have "decode_hop_traces (st_json st) j = Inr [?t]" by (simp add: decode_hop_traces_def j)
  moreover have "worked wlog s s5 (ws @ [local_work_us p])"
  proof -
    have "worked wlog s2 ?s3 [local_work_us p]" by (rule worked_work [OF wlog(1,2) m wlog(3)])
    from worked_trans [OF worked_trans [OF worked_trans [OF worked_trans [OF worked_clock [OF wlog(1) _ s1] ts(3)] this] worked_clock [OF wlog(1) _ s4]]
      worked_clock [OF wlog(1) _ s5]] show ?thesis by simp
  qed
  ultimately show ?thesis using ts(2) by (intro exI [of _ ?r] exI [of _ s5] exI [of _ ?t]) simp
qed

lemma exec_call_planned:
  assumes st: "site_laws st" and "runnable st (pc_plan c)" "list_all visible_ascii (target_service (pc_target c))"
    "list_all visible_ascii (target_method (pc_target c))" "st_methods st (target_service (pc_target c), target_method (pc_target c)) \<noteq> None"
    and "\<And>s. \<exists>ts s'. execute_oracle_call_sequence st (cluster st depth) (child_steps (pc_plan c)) s = (Ok ts, s') \<and> map untimed ts = us \<and> worked wlog s s' ws"
    and wlog: "keeps_log st wlog" "ratios_ok st" "local_work_us (pc_plan c) < 2 ^ 53"
  shows "\<exists>t s'. exec_call st (cluster st (Suc depth)) c s = (Ok [t], s') \<and>
    untimed t = HopTrace (target_service (pc_target c)) (target_method (pc_target c)) 0 0 0 (local_work_us (pc_plan c)) 0 0 us \<and>
    worked wlog s s' (ws @ [local_work_us (pc_plan c)])"
proof -
  obtain t1 s1 where s1: "read_clock (time_now (st_pf st)) s = (t1, s1)" by fastforce
  let ?req = "\<lparr>mr_service_id = target_service (pc_target c), mr_method_name = target_method (pc_target c), mr_sent_at = t1\<rparr>"
  obtain md where md: "planned_headers st c = Inr md"
    "plan_from_metadata (st_json st) (st_md st) (st_to_str st) md = Inr (Some (pc_plan c))"
    using planned_headers_read [OF st runnable_ascii [OF assms(2)] assms(3,4)] by blast
  have "st_methods st (mr_service_id ?req, mr_method_name ?req) \<noteq> None" using assms(5) by simp
  from handle_planned [OF st md(2) this assms(6) wlog] obtain resp s' t where
    "handle_method st (cluster st depth) ?req md s1 = (Ok resp, s')" "decode_hop_traces (st_json st) (resp_hop_trace_json resp) = Inr [t]"
    "untimed t = HopTrace (mr_service_id ?req) (mr_method_name ?req) 0 0 0 (local_work_us (pc_plan c)) 0 0 us"
    "worked wlog s1 s' (ws @ [local_work_us (pc_plan c)])" by blast
  moreover from worked_trans [OF worked_clock [OF wlog(1) _ s1] this(4)] have "worked wlog s s' (ws @ [local_work_us (pc_plan c)])" by simp
  ultimately show ?thesis by (simp add: exec_call_def s1 lift_sum_def md(1))
qed

lemma join_short:
  assumes "site_laws st" "length cs \<le> 1" shows "st_join st cs = cs"
proof (cases cs)
  case Nil
  have "mset (st_join st cs) = {#}" using assms(1) Nil by (simp add: site_laws_def)
  then show ?thesis using Nil by simp
next
  case (Cons c ds)
  then have "mset (st_join st cs) = {#c#}" "cs = [c]" using assms by (simp_all add: site_laws_def)
  then show ?thesis by (metis mset_single_iff_right)
qed

lemma executed_plan:
  assumes st: "site_laws st" and wlog: "keeps_log st wlog" "ratios_ok st"
  shows "runnable st p \<Longrightarrow> call_depth p \<le> depth \<Longrightarrow> \<forall>w\<in>set (planned_work p). w < 2 ^ 53 \<Longrightarrow>
    \<exists>ts s'. execute_oracle_call_sequence st (cluster st depth) (child_steps p) s = (Ok ts, s') \<and> map untimed ts = plan_traces p \<and>
      worked wlog s s' (planned_work p)"
proof (induction p arbitrary: depth s rule: plan_traces.induct)
  case (1 l v steps)
  let ?tree = "\<lambda>c. HopTrace (target_service (pc_target c)) (target_method (pc_target c)) 0 0 0 (local_work_us (pc_plan c)) 0 0 (plan_traces (pc_plan c))"
  let ?works = "\<lambda>c. planned_work (pc_plan c) @ [local_work_us (pc_plan c)]"
  have call: "\<exists>t s'. exec_call st (cluster st depth) c s = (Ok [t], s') \<and> untimed t = ?tree c \<and> worked wlog s s' (?works c)" if c: "step \<in> set steps" "c \<in> set step" for step c s
  proof -
    have run: "runnable st (pc_plan c)" "list_all visible_ascii (target_service (pc_target c))" "list_all visible_ascii (target_method (pc_target c))"
      "st_methods st (target_service (pc_target c), target_method (pc_target c)) \<noteq> None"
      using "1.prems"(1) c unfolding runnable.simps list_all_iff by blast+
    obtain d where d: "depth = Suc d" "call_depth (pc_plan c) \<le> d"
      using call_depth_child [OF c, of l v] "1.prems"(2) by (cases depth) auto
    have small: "\<forall>w\<in>set (planned_work (pc_plan c)). w < 2 ^ 53" "local_work_us (pc_plan c) < 2 ^ 53" using "1.prems"(3) c by auto
    show ?thesis unfolding d(1) by (rule exec_call_planned [OF st run _ wlog small(2)]) (rule "1.IH" [OF c run(1) d(2) small(1)])
  qed
  have "\<exists>ts s'. execute_oracle_call_sequence st (cluster st depth) ss s = (Ok ts, s') \<and> map untimed ts = concat (map (map ?tree) ss) \<and>
      worked wlog s s' (concat (map (\<lambda>step. concat (map ?works step)) ss))"
    if "set ss \<subseteq> set steps" for ss s
    using that
  proof (induction ss arbitrary: s)
    case (Cons step ss)
    have step: "step \<in> set steps" "length step \<le> 1" "\<forall>c\<in>set step. st_connected st (target_service (pc_target c))"
      using Cons.prems "1.prems"(1) unfolding runnable.simps list_all_iff by auto
    then have sel: "st_join st (filter (\<lambda>c. st_connected st (target_service (pc_target c))) step) = step"
      using join_short [OF st step(2)] by (simp add: filter_True)
    have "\<exists>ts s'. exec_calls st (cluster st depth) step s = (Ok ts, s') \<and> map untimed ts = map ?tree step \<and> worked wlog s s' (concat (map ?works step))"
    proof (cases step)
      case (Cons c cs)
      then have "cs = []" using step(2) by simp
      then show ?thesis using Cons call [OF step(1), of c s] by auto
    qed (simp add: worked_none)
    then obtain ts s1 where ts: "exec_calls st (cluster st depth) step s = (Ok ts, s1)" "map untimed ts = map ?tree step"
      "worked wlog s s1 (concat (map ?works step))" by blast
    obtain us s2 where "execute_oracle_call_sequence st (cluster st depth) ss s1 = (Ok us, s2)" "map untimed us = concat (map (map ?tree) ss)"
      "worked wlog s1 s2 (concat (map (\<lambda>step. concat (map ?works step)) ss))" using Cons.IH [of s1] Cons.prems by auto
    then show ?case using ts sel worked_trans [OF ts(3)] by simp
  qed (simp add: worked_none)
  from this [OF order_refl] show ?case by simp
qed

text \<open>
  Claim C15. The services execute what the frontend planned. Let the planned calls be one per step, as
  validation requires, go to connected services that have the methods, under names of visible
  ASCII, with work below \<open>2 ^ 53\<close> and ratios of busy spinning between zero and one. Then the handler
  of an entry point returns the traces of exactly the calls of its plan, in the order and with the
  nesting of the plan; the sleeps and spins that were performed since planning are one run for each
  planned call, a call after the calls it makes, and each run lasts exactly for the work the plan
  sampled for the call. The latency that is reported is the one that calibrates the next plan.
\<close>

theorem entry_point_executes_its_plan:
  assumes "site_laws st" "plan_entry_point (st_pf st) pl depth ov entry s = (Ok plan, s1)"
    and "runnable st plan" "call_depth plan \<le> services_depth"
    and "keeps_log st wlog" "ratios_ok st" "\<forall>w\<in>set (planned_work plan). w < 2 ^ 53"
  shows "\<exists>latency j ts s' runs. handle_entry st (cluster st services_depth) pl depth entry ov s =
      (Ok (latency, j), record_entry_point_latency (st_fl st) pl entry latency plan ov, s') \<and>
    decode_hop_traces (st_json st) j = Inr ts \<and> map untimed ts = plan_traces plan \<and>
    wlog (rng s') = wlog (rng s1) @ concat runs \<and> map (\<lambda>run. sum_list (map action_us run)) runs = map unat (planned_work plan)"
proof -
  obtain ts s2 where ts: "execute_oracle_call_sequence st (cluster st services_depth) (child_steps plan) s1 = (Ok ts, s2)"
    "map untimed ts = plan_traces plan" "worked wlog s1 s2 (planned_work plan)" using executed_plan [OF assms(1,5,6,3,4,7)] by blast
  obtain t s3 where t: "read_clock (st_elapsed st) s2 = (t, s3)" by fastforce
  obtain j where j: "traces_to_json (st_json st) ts = Inr j" "j \<noteq> []" "traces_from_json (st_json st) j = Inr ts"
    using assms(1) unfolding site_laws_def json_laws_def by metis
  have "handle_entry st (cluster st services_depth) pl depth entry ov s =
      (Ok (t, j), record_entry_point_latency (st_fl st) pl entry t plan ov, s3)"
    by (simp add: handle_entry_def assms(2) ts t encode_hop_traces_def j Let_def)
  moreover have "decode_hop_traces (st_json st) j = Inr ts" by (simp add: decode_hop_traces_def j)
  moreover from worked_trans [OF ts(3) worked_clock [OF assms(5) _ t]] obtain runs where
    "wlog (rng s3) = wlog (rng s1) @ concat runs" "map (\<lambda>run. sum_list (map action_us run)) runs = map unat (planned_work plan)"
    by (auto simp: worked_def)
  ultimately show ?thesis using ts(2) by blast
qed

text \<open>A site on which the laws hold: texts are numberings of the plans and of the traces.\<close>

instance call_target_ext :: (countable) countable
proof (rule countable_classI [of "\<lambda>t. to_nat (target_service t, target_method t, call_target.more t)"])
  show "x = y" if "to_nat (target_service x, target_method x, call_target.more x) = to_nat (target_service y, target_method y, call_target.more y)"
    for x y :: "'a call_target_scheme" using that by (simp add: call_target.equality)
qed

instance plan_hint_ext :: (countable) countable
proof (rule countable_classI [of "\<lambda>h. to_nat (hint_child_work_us h, hint_remaining_after_us h, plan_hint.more h)"])
  show "x = y" if "to_nat (hint_child_work_us x, hint_remaining_after_us x, plan_hint.more x) = to_nat (hint_child_work_us y, hint_remaining_after_us y, plan_hint.more y)"
    for x y :: "'a plan_hint_scheme" using that by (simp add: plan_hint.equality)
qed

instance execution_plan :: countable
  by countable_datatype

instance hop_trace :: countable
  by countable_datatype

definition numbered :: "'a::countable \<Rightarrow> string + string" where
  "numbered x = Inr (show_nat (to_nat x))"

definition unnumbered :: "string \<Rightarrow> string + 'a::countable" where
  "unnumbered s = Inr (from_nat (digits_value 0 s))"

definition ex_json :: json where
  "ex_json = \<lparr>plan_to_json = numbered, plan_from_json = unnumbered, traces_to_json = numbered, traces_from_json = unnumbered\<rparr>"

definition ex_site :: "(work_action list, (string \<times> string) list) site" where
  "ex_site = \<lparr>st_md = ex_metadata, st_md_new = [], st_to_str = Inr, st_json = ex_json, st_fl = ex_f64, st_pf = ex_coin,
     st_elapsed = (\<lambda>w. (50, w)), st_perform = (\<lambda>a w. w @ [a]), st_join = (\<lambda>cs. cs), st_connected = (\<lambda>s. s = ''S''),
     st_methods = (\<lambda>(s, m). map_of (pl_methods ex_planner) \<lparr>key_service = s, key_method = m\<rparr>), st_disable_cpu_yield = False\<rparr>"

lemma ex_site_laws: "site_laws ex_site"
proof -
  have "json_laws ex_json" by (simp add: json_laws_def ex_json_def numbered_def unnumbered_def show_nat_ascii show_nat_ne digits_value_show)
  then show ?thesis by (simp add: site_laws_def ex_site_def ex_metadata_laws ex_metadata_frame)
qed

definition ex_plan :: execution_plan where
  "ex_plan = ExecutionPlan 0 0
     [[PlannedCall \<lparr>target_service = ''S'', target_method = ''f''\<rparr> \<lparr>hint_child_work_us = 22, hint_remaining_after_us = 11\<rparr>
         (ExecutionPlan 10 1 [[PlannedCall \<lparr>target_service = ''S'', target_method = ''g''\<rparr>
            \<lparr>hint_child_work_us = 11, hint_remaining_after_us = 10\<rparr> (ExecutionPlan 10 1 [])]])],
      [PlannedCall \<lparr>target_service = ''S'', target_method = ''g''\<rparr> \<lparr>hint_child_work_us = 11, hint_remaining_after_us = 0\<rparr>
         (ExecutionPlan 10 1 [])]]"

lemma ex_planned_plan: "fst (plan_entry_point ex_coin ex_planner 3 (\<lambda>_. None) ''a'' \<lparr>rng = [] :: work_action list, cells = (\<lambda>_. 0)\<rparr>) = Ok ex_plan"
  by code_simp

lemma ex_site_logs: "keeps_log ex_site (\<lambda>w. w)" "ratios_ok ex_site"
  by (auto simp: keeps_log_def ratios_ok_def ex_site_def ex_coin_def ex_f64_ieee ex_planner_def ex_plan_method_def split: if_splits)

lemma ex_plan_runnable: "runnable ex_site ex_plan" "call_depth ex_plan \<le> 2"
  by (simp_all add: ex_plan_def ex_site_def ex_planner_def visible_ascii_def)

theorem entry_point_executes_its_plan_witness:
  "\<exists>latency j ts ov s1 s' runs. plan_entry_point ex_coin ex_planner 3 (\<lambda>_. None) ''a'' \<lparr>rng = [], cells = (\<lambda>_. 0)\<rparr> = (Ok ex_plan, s1) \<and>
    handle_entry ex_site (cluster ex_site 2) ex_planner 3 ''a'' (\<lambda>_. None) \<lparr>rng = [], cells = (\<lambda>_. 0)\<rparr> = (Ok (latency, j), ov, s') \<and>
    decode_hop_traces ex_json j = Inr ts \<and> map ht_work (map untimed ts) = [10, 10] \<and>
    rng s' = rng s1 @ concat runs \<and> map (\<lambda>run. sum_list (map action_us run)) runs = [10, 10, 10]"
proof -
  let ?s = "\<lparr>rng = [] :: work_action list, cells = (\<lambda>_. 0)\<rparr>"
  obtain s1 where s1: "plan_entry_point ex_coin ex_planner 3 (\<lambda>_. None) ''a'' ?s = (Ok ex_plan, s1)"
    using ex_planned_plan by (metis prod.collapse)
  then have "plan_entry_point (st_pf ex_site) ex_planner 3 (\<lambda>_. None) ''a'' ?s = (Ok ex_plan, s1)" by (simp add: ex_site_def)
  moreover have work: "planned_work ex_plan = [10, 10, 10]" by (simp add: ex_plan_def)
  then have "\<forall>w\<in>set (planned_work ex_plan). w < 2 ^ 53" by (simp add: word_less_nat_alt)
  ultimately obtain latency j ts s' ov runs where
    "handle_entry ex_site (cluster ex_site 2) ex_planner 3 ''a'' (\<lambda>_. None) ?s = (Ok (latency, j), ov, s')"
    "decode_hop_traces (st_json ex_site) j = Inr ts" "map untimed ts = plan_traces ex_plan"
    "rng s' = rng s1 @ concat runs" "map (\<lambda>run. sum_list (map action_us run)) runs = map unat (planned_work ex_plan)"
    using entry_point_executes_its_plan [OF ex_site_laws _ ex_plan_runnable ex_site_logs] by blast
  moreover have "map ht_work (plan_traces ex_plan) = [10, 10]" by (simp add: ex_plan_def)
  moreover have "st_json ex_site = ex_json" by (simp add: ex_site_def)
  moreover have "map unat (planned_work ex_plan) = [10, 10, 10]" by (simp add: work)
  ultimately show ?thesis using s1 by (metis (no_types, lifting))
qed

definition ex_budget :: masa_context where
  "ex_budget = \<lparr>ctx_api = ''a'', ctx_request_id = 1, ctx_slo = 500, ctx_gateway_entry = 1000, ctx_deadline = 1500, ctx_prio_hint = PriorityHint 1500\<rparr>"

lemma ex_plan_hints: "hints_ok ex_plan"
  by (simp add: ex_plan_def work_after_def step_work_us_def iter_max_def saturating_add_def)

theorem planned_call_deadline_witness:
  "\<exists>md e' D. planned_headers ex_site (hd (hd (child_steps ex_plan))) = Inr md \<and>
    oracle_before_child_rpc ex_metadata Inr ex_budget \<lparr>gm_service = ''S'', gm_method = ''f''\<rparr> md ext_new = (Inr (), e') \<and> unat D = 1489 \<and>
    child_budget ex_budget e' = ex_budget\<lparr>ctx_deadline := D, ctx_prio_hint := PriorityHint (saturating_sub D 22)\<rparr>"
proof -
  have "unat (e2e_deadline ex_budget) = 1500" by (simp add: e2e_deadline_def ex_budget_def)
  moreover have p: "ex_plan = ExecutionPlan 0 0 ([] @ hd (child_steps ex_plan) # tl (child_steps ex_plan))" by (simp add: ex_plan_def)
  moreover have "hd (hd (child_steps ex_plan)) \<in> set (hd (child_steps ex_plan))" by (simp add: ex_plan_def)
  moreover have "hints_ok (ExecutionPlan 0 0 ([] @ hd (child_steps ex_plan) # tl (child_steps ex_plan)))"
    "ascii_plan (ExecutionPlan 0 0 ([] @ hd (child_steps ex_plan) # tl (child_steps ex_plan)))"
    unfolding p [symmetric] by (rule ex_plan_hints, rule runnable_ascii [OF ex_plan_runnable(1)])
  moreover have "ext_decision t (ext_new :: policy_value extensions) = None" for t
    by (simp add: ext_decision_def ext_get_eq ext_inv_new) (simp add: ext_new_def)
  moreover have "work_after 0 (tl (child_steps ex_plan)) = 11" "estimated_total_work_us (pc_plan (hd (hd (child_steps ex_plan)))) = 22"
    by (simp_all add: ex_plan_def work_after_def step_work_us_def iter_max_def saturating_add_def)
  moreover have "st_md ex_site = ex_metadata" "st_to_str ex_site = Inr" by (simp_all add: ex_site_def)
  ultimately show ?thesis
    using planned_call_deadline [OF ex_site_laws, of 0 0 "[]" "hd (child_steps ex_plan)" "tl (child_steps ex_plan)" "hd (hd (child_steps ex_plan))" ext_new
        ex_budget "\<lparr>gm_service = ''S'', gm_method = ''f''\<rparr>" ex_budget, OF _ _ _ decisions_ok_new] by (simp del: hints_ok.simps ascii_plan.simps)
qed

end
