(* ===== verification/Conn_Pool.thy ===== *)
theory Conn_Pool
  imports Prelude
begin

text \<open>
  The connection pool of the applications (\<open>apps/app-utils/src/pool.rs\<close>) under concurrent use. An
  agent is one use of the pool: a call of \<open>get_or_create_async\<close> and the reference it returns, until
  the reference is dropped, discarded or replaced. A step is one atomic access of one agent: a
  critical section of the mutex, an operation on the counter \<open>size\<close>, the creation of the
  notification future, \<open>notify_waiters\<close>, the end of the factory's future, or its cancellation.
  The counter \<open>puts\<close>, which only paces a log line, is left out.

  The future of \<open>Notify::notified\<close> receives the notifications sent after its creation, and
  \<open>notify_waiters\<close> wakes the waiting futures and stores nothing for later ones.
\<close>

datatype 'a agent =
    Entering
  | SawEmpty
  | Reserving
  | BackingOut
  | Creating
  | Cancelled
  | Looking
  | AboutToWait
  | Waiting
  | Holding 'a
  | Notifying
  | Finished

record 'a pool =
  pool_inner :: "'a list"
  pool_max_size :: nat
  pool_size :: nat
  agents :: "'a agent list"
  created :: "'a list"
  discarded :: "'a list"

definition pool_new :: "nat \<Rightarrow> nat \<Rightarrow> 'a pool" where
  "pool_new max_size n = \<lparr>pool_inner = [], pool_max_size = max_size, pool_size = 0, agents = replicate n Entering,
     created = [], discarded = []\<rparr>"

definition goto :: "nat \<Rightarrow> 'a agent \<Rightarrow> 'a pool \<Rightarrow> 'a pool" where
  "goto i a s = s\<lparr>agents := (agents s)[i := a]\<rparr>"

definition at_agent :: "nat \<Rightarrow> 'a agent \<Rightarrow> 'a pool \<Rightarrow> bool" where
  "at_agent i a s \<longleftrightarrow> i < length (agents s) \<and> agents s ! i = a"

text \<open>Taking an idle item under the lock; \<open>otherwise\<close> is where the agent goes when there is none.\<close>

definition pop_front :: "nat \<Rightarrow> 'a agent \<Rightarrow> 'a pool \<Rightarrow> 'a pool" where
  "pop_front i otherwise s =
     (case pool_inner s of [] \<Rightarrow> goto i otherwise s | x # xs \<Rightarrow> goto i (Holding x) (s\<lparr>pool_inner := xs\<rparr>))"

definition load_size :: "nat \<Rightarrow> 'a pool \<Rightarrow> 'a pool" where
  "load_size i s = goto i (if pool_size s < pool_max_size s then Reserving else Looking) s"

definition reserve :: "nat \<Rightarrow> 'a pool \<Rightarrow> 'a pool" where
  "reserve i s = (let prev = pool_size s in
     goto i (if pool_max_size s < prev then BackingOut else Creating) (s\<lparr>pool_size := prev + 1\<rparr>))"

definition release_one :: "'a pool \<Rightarrow> 'a pool" where
  "release_one s = s\<lparr>pool_size := pool_size s - 1\<rparr>"

definition factory_done :: "nat \<Rightarrow> 'a \<Rightarrow> 'a pool \<Rightarrow> 'a pool" where
  "factory_done i x s = goto i (Holding x) (s\<lparr>created := x # created s\<rparr>)"

definition put :: "nat \<Rightarrow> 'a \<Rightarrow> 'a pool \<Rightarrow> 'a pool" where
  "put i x s = goto i Notifying (s\<lparr>pool_inner := pool_inner s @ [x]\<rparr>)"

definition wake :: "'a agent \<Rightarrow> 'a agent" where
  "wake a = (case a of Waiting \<Rightarrow> Looking | _ \<Rightarrow> a)"

definition notify_waiters :: "'a pool \<Rightarrow> 'a pool" where
  "notify_waiters s = s\<lparr>agents := map wake (agents s)\<rparr>"

definition discard :: "nat \<Rightarrow> 'a \<Rightarrow> 'a agent \<Rightarrow> 'a pool \<Rightarrow> 'a pool" where
  "discard i x after s = goto i after (release_one (s\<lparr>discarded := x # discarded s\<rparr>))"

inductive pool_step :: "'a pool \<Rightarrow> 'a pool \<Rightarrow> bool" where
  fast_path: "at_agent i Entering s \<Longrightarrow> pool_step s (pop_front i SawEmpty s)"
| check_capacity: "at_agent i SawEmpty s \<Longrightarrow> pool_step s (load_size i s)"
| try_reserve: "at_agent i Reserving s \<Longrightarrow> pool_step s (reserve i s)"
| back_out: "at_agent i BackingOut s \<Longrightarrow> pool_step s (goto i Looking (release_one s))"
| create: "at_agent i Creating s \<Longrightarrow> pool_step s (factory_done i x s)"
| cancel: "at_agent i Creating s \<Longrightarrow> pool_step s (goto i Cancelled s)"
| look: "at_agent i Looking s \<Longrightarrow> pool_step s (pop_front i AboutToWait s)"
| wait_for_item: "at_agent i AboutToWait s \<Longrightarrow> pool_step s (goto i Waiting s)"
| give_back: "at_agent i (Holding x) s \<Longrightarrow> pool_step s (put i x s)"
| notify: "at_agent i Notifying s \<Longrightarrow> pool_step s (goto i Finished (notify_waiters s))"
| throw_away: "at_agent i (Holding x) s \<Longrightarrow> pool_step s (discard i x Finished s)"
| swap: "at_agent i (Holding x) s \<Longrightarrow> pool_step s (discard i x Entering s)"

inductive pool_run :: "'a pool \<Rightarrow> 'a pool \<Rightarrow> bool" where
  run_start: "pool_run s s"
| run_step: "pool_run s s' \<Longrightarrow> pool_step s' s'' \<Longrightarrow> pool_run s s''"

section \<open>Counting\<close>

text \<open>What an agent contributes to \<open>size\<close>, the connections it stands for, and the item it holds.\<close>

fun reserves :: "'a agent \<Rightarrow> nat" where
  "reserves BackingOut = 1"
| "reserves Creating = 1"
| "reserves Cancelled = 1"
| "reserves (Holding _) = 1"
| "reserves _ = 0"

fun connections :: "'a agent \<Rightarrow> nat" where
  "connections Creating = 1"
| "connections (Holding _) = 1"
| "connections _ = 0"

fun held :: "'a agent \<Rightarrow> 'a multiset" where
  "held (Holding x) = {#x#}"
| "held _ = {#}"

definition live :: "'a pool \<Rightarrow> nat" where
  "live s = length (pool_inner s) + sum_list (map connections (agents s))"

definition pool_inv :: "'a pool \<Rightarrow> bool" where
  "pool_inv s \<longleftrightarrow> pool_size s = length (pool_inner s) + sum_list (map reserves (agents s)) \<and>
     live s \<le> pool_max_size s + 1 \<and>
     mset (created s) = mset (pool_inner s) + sum_list (map held (agents s)) + mset (discarded s)"

lemma sum_list_agent:
  fixes f :: "'a agent \<Rightarrow> 'b::comm_monoid_add"
  shows "at_agent i a s \<Longrightarrow> sum_list (map f (agents (goto i b s))) + f a = sum_list (map f (agents s)) + f b"
  using sum_list_map_update [of i "agents s" f b] by (auto simp: at_agent_def goto_def)

lemma goto_simps [simp]:
  "pool_inner (goto i a s) = pool_inner s" "pool_max_size (goto i a s) = pool_max_size s" "pool_size (goto i a s) = pool_size s"
  "created (goto i a s) = created s" "discarded (goto i a s) = discarded s"
  by (simp_all add: goto_def)

text \<open>An agent moves from \<open>a\<close> to \<open>b\<close> while the rest of the state becomes that of \<open>t\<close>.\<close>

lemma pool_inv_goto:
  assumes inv: "pool_inv s" and a: "at_agent i a s" and t: "agents t = agents s" "pool_max_size t = pool_max_size s"
    and "pool_size t + length (pool_inner s) + reserves a = pool_size s + length (pool_inner t) + reserves b"
    and "length (pool_inner t) + connections b \<le> length (pool_inner s) + connections a \<or>
      length (pool_inner t) + connections b \<le> length (pool_inner s) + connections a + 1 \<and> pool_size s \<le> pool_max_size s"
    and "mset (created t) + mset (pool_inner s) + held a + mset (discarded s) = mset (created s) + mset (pool_inner t) + held b + mset (discarded t)"
  shows "pool_inv (goto i b t)"
proof -
  have at: "at_agent i a t" using a t(1) by (simp add: at_agent_def)
  note R = sum_list_agent [OF at, of reserves b] and C = sum_list_agent [OF at, of connections b] and H = sum_list_agent [OF at, of held b]
  have "connections x \<le> reserves x" for x :: "'a agent" by (cases x) simp_all
  then have "sum_list (map connections (agents s)) \<le> sum_list (map reserves (agents s))" by (intro sum_list_mono)
  then have "live s \<le> pool_size s" using inv by (simp add: live_def pool_inv_def)
  then have "live (goto i b t) \<le> pool_max_size s + 1" using inv C assms(6) t(1) by (auto simp: pool_inv_def live_def)
  moreover have "pool_size t = length (pool_inner t) + sum_list (map reserves (agents (goto i b t)))"
    using inv R assms(5) t(1) by (simp add: pool_inv_def)
  moreover have "mset (created t) = mset (pool_inner t) + sum_list (map held (agents (goto i b t))) + mset (discarded t)"
  proof -
    let ?H = "sum_list (map held (agents s))" and ?H' = "sum_list (map held (agents (goto i b t)))"
    let ?X = "mset (pool_inner s) + held a + mset (discarded s)"
    have H: "?H' + held a = ?H + held b" using H t(1) by simp
    have "mset (created t) + ?X = mset (pool_inner s) + ?H + mset (discarded s) + mset (pool_inner t) + held b + mset (discarded t)"
      using assms(7) inv by (simp add: pool_inv_def add.assoc)
    also have "\<dots> = mset (pool_inner t) + (?H + held b) + mset (discarded t) + mset (pool_inner s) + mset (discarded s)" by (simp add: ac_simps)
    also have "\<dots> = mset (pool_inner t) + ?H' + mset (discarded t) + ?X" unfolding H [symmetric] by (simp add: ac_simps)
    finally show ?thesis unfolding add_right_cancel by (simp add: ac_simps)
  qed
  ultimately show ?thesis using t(2) by (simp add: pool_inv_def)
qed

lemma wake_counts [simp]: "reserves (wake a) = reserves a" "connections (wake a) = connections a" "held (wake a) = held a"
  by (cases a; simp add: wake_def)+

lemma pool_inv_notify: "pool_inv s \<Longrightarrow> pool_inv (notify_waiters s)"
  by (simp add: pool_inv_def live_def notify_waiters_def o_def)

lemma pool_size_pos:
  assumes "pool_inv s" "at_agent i a s" "reserves a = 1"
  shows "0 < pool_size s"
proof -
  have "reserves a \<in> set (map reserves (agents s))" using assms(2) by (auto simp: at_agent_def)
  then have "reserves a \<le> sum_list (map reserves (agents s))" by (intro member_le_sum_list) simp_all
  then show ?thesis using assms(1,3) by (simp add: pool_inv_def)
qed

lemma pool_step_inv:
  assumes "pool_step s s'" "pool_inv s"
  shows "pool_inv s'"
  using assms
proof (induction rule: pool_step.induct)
  case (fast_path i s)
  then show ?case by (cases "pool_inner s") (auto simp: pop_front_def intro!: pool_inv_goto [OF fast_path(2,1)])
next
  case (check_capacity i s)
  then show ?case by (auto simp: load_size_def intro!: pool_inv_goto [OF check_capacity(2,1)])
next
  case (try_reserve i s)
  then show ?case by (auto simp: reserve_def Let_def intro!: pool_inv_goto [OF try_reserve(2,1)])
next
  case (back_out i s)
  then show ?case using pool_size_pos [OF back_out(2,1)] by (auto simp: release_one_def intro!: pool_inv_goto [OF back_out(2,1)])
next
  case (create i s x)
  then show ?case by (auto simp: factory_done_def intro!: pool_inv_goto [OF create(2,1)])
next
  case (cancel i s)
  then show ?case by (auto intro!: pool_inv_goto [OF cancel(2,1)])
next
  case (look i s)
  then show ?case by (cases "pool_inner s") (auto simp: pop_front_def intro!: pool_inv_goto [OF look(2,1)])
next
  case (wait_for_item i s)
  then show ?case by (auto intro!: pool_inv_goto [OF wait_for_item(2,1)])
next
  case (give_back i x s)
  then show ?case by (auto simp: put_def intro!: pool_inv_goto [OF give_back(2,1)])
next
  case (notify i s)
  have "at_agent i Notifying (notify_waiters s)" using notify(1) by (simp add: at_agent_def notify_waiters_def wake_def)
  then show ?case by (auto intro!: pool_inv_goto [OF pool_inv_notify [OF notify(2)]])
next
  case (throw_away i x s)
  then show ?case using pool_size_pos [OF throw_away(2,1)]
    by (auto simp: discard_def release_one_def intro!: pool_inv_goto [OF throw_away(2,1)])
next
  case (swap i x s)
  then show ?case using pool_size_pos [OF swap(2,1)] by (auto simp: discard_def release_one_def intro!: pool_inv_goto [OF swap(2,1)])
qed

lemma pool_inv_new: "pool_inv (pool_new m n)"
  by (induction n) (auto simp: pool_inv_def live_def pool_new_def)

lemma pool_run_inv: "pool_run s s' \<Longrightarrow> pool_inv s \<Longrightarrow> pool_inv s' \<and> pool_max_size s' = pool_max_size s"
proof (induction rule: pool_run.induct)
  case (run_step s s' s'')
  have "pool_max_size s'' = pool_max_size s'" using run_step(2)
    by (cases rule: pool_step.cases) (auto simp: pop_front_def load_size_def reserve_def Let_def release_one_def factory_done_def
        put_def notify_waiters_def discard_def split: list.splits)
  then show ?case using run_step pool_step_inv by auto
qed simp

text \<open>
  Claim C20. However the uses of a pool interleave, no connection is lost or handed out twice: every
  connection made is idle in the pool, held by exactly one user, or was discarded, in the same
  multiplicity. The counter is the number of the connections idle, held or being made and of the
  reservations given up midway, so it never underflows; and there are never more than
  \<open>max_size + 1\<close> connections.
\<close>

theorem pool_conserves_connections:
  assumes "pool_run (pool_new max_size n) s"
  shows "mset (created s) = mset (pool_inner s) + sum_list (map held (agents s)) + mset (discarded s) \<and>
    pool_size s = length (pool_inner s) + sum_list (map reserves (agents s)) \<and>
    length (pool_inner s) + sum_list (map connections (agents s)) \<le> max_size + 1"
  using pool_run_inv [OF assms pool_inv_new] by (simp add: pool_inv_def live_def pool_new_def)

text \<open>Runs, given by the agents that move; a move of a holder returns its item or, for \<open>Discard\<close>, discards it; \<open>Cancel\<close> drops the factory's future.\<close>

datatype move = Move nat | Discard nat | Cancel nat

fun moved :: "move \<Rightarrow> nat pool \<Rightarrow> nat pool" where
  "moved (Move i) s = (case agents s ! i of
     Entering \<Rightarrow> pop_front i SawEmpty s | SawEmpty \<Rightarrow> load_size i s | Reserving \<Rightarrow> reserve i s
   | BackingOut \<Rightarrow> goto i Looking (release_one s) | Creating \<Rightarrow> factory_done i i s | Looking \<Rightarrow> pop_front i AboutToWait s
   | AboutToWait \<Rightarrow> goto i Waiting s | Holding x \<Rightarrow> put i x s | Notifying \<Rightarrow> goto i Finished (notify_waiters s) | _ \<Rightarrow> s)"
| "moved (Discard i) s = (case agents s ! i of Holding x \<Rightarrow> discard i x Finished s | _ \<Rightarrow> s)"
| "moved (Cancel i) s = (case agents s ! i of Creating \<Rightarrow> goto i Cancelled s | _ \<Rightarrow> s)"

fun in_range :: "move \<Rightarrow> nat pool \<Rightarrow> bool" where
  "in_range (Move i) s \<longleftrightarrow> i < length (agents s)"
| "in_range (Discard i) s \<longleftrightarrow> i < length (agents s)"
| "in_range (Cancel i) s \<longleftrightarrow> i < length (agents s)"

lemma pool_run_move:
  assumes "pool_run s0 s" "in_range m s"
  shows "pool_run s0 (moved m s)"
proof (cases m)
  case (Move i)
  then have at: "at_agent i (agents s ! i) s" using assms(2) by (simp add: at_agent_def)
  show ?thesis using at assms(1)
    by (cases "agents s ! i") (auto simp: Move intro: run_step [OF assms(1)] pool_step.intros)
next
  case (Discard i)
  then have at: "at_agent i (agents s ! i) s" using assms(2) by (simp add: at_agent_def)
  show ?thesis using at assms(1) by (cases "agents s ! i") (auto simp: Discard intro: run_step [OF assms(1)] throw_away)
next
  case (Cancel i)
  then have at: "at_agent i (agents s ! i) s" using assms(2) by (simp add: at_agent_def)
  show ?thesis using at assms(1) by (cases "agents s ! i") (auto simp: Cancel intro: run_step [OF assms(1)] cancel)
qed

fun moves :: "move list \<Rightarrow> nat pool \<Rightarrow> nat pool" where
  "moves [] s = s"
| "moves (m # ms) s = moves ms (if in_range m s then moved m s else s)"

lemma pool_run_moves: "pool_run s0 s \<Longrightarrow> pool_run s0 (moves ms s)"
  by (induction ms arbitrary: s) (auto dest: pool_run_move)

lemma ex_pool_run: "pool_run (pool_new m n) (moves ms (pool_new m n))"
  by (rule pool_run_moves) (rule run_start)

theorem pool_conserves_connections_witness:
  "let s = moves (map Move [0, 0, 0, 0, 0, 0, 1]) (pool_new 1 2) in
     mset (created s) = mset (pool_inner s) + sum_list (map held (agents s)) + mset (discarded s) \<and> agents s = [Finished, Holding 0]"
proof -
  have "agents (moves (map Move [0, 0, 0, 0, 0, 0, 1]) (pool_new 1 2)) = [Finished, Holding 0]" by code_simp
  then show ?thesis using pool_conserves_connections [OF ex_pool_run, of "map Move [0, 0, 0, 0, 0, 0, 1]" 1 2] by (simp add: Let_def)
qed

section \<open>Where the pool falls short\<close>

text \<open>
  The bound \<open>max_size + 1\<close> is reached: when two uses both see capacity for one more, the second
  finds the counter at \<open>max_size\<close>, which \<open>prev > max_size\<close> does not refuse.
\<close>

lemma pool_exceeds_max_size:
  "\<exists>s. pool_run (pool_new 1 2) s \<and> pool_max_size s = 1 \<and> agents s = [Holding 0, Holding (1 :: nat)]"
proof -
  let ?s = "moves (map Move [0, 1, 0, 1, 0, 1, 0, 1]) (pool_new 1 2)"
  have "agents ?s = [Holding 0, Holding 1]" "pool_max_size ?s = 1" by code_simp+
  then show ?thesis using ex_pool_run by blast
qed

text \<open>
  \<open>stuck_waiter\<close>: a use waits and all others are over, so nothing wakes it (before some later use
  returns a connection). This happens with an item idle in the pool, when it was returned between
  the last look and the creation of the future; with capacity free, when the connection it waited
  for was discarded; and with no connection at all, when the use that was to make it was cancelled.
\<close>

definition stuck_waiter :: "'a pool \<Rightarrow> bool" where
  "stuck_waiter s \<longleftrightarrow> Waiting \<in> set (agents s) \<and> (\<forall>a\<in>set (agents s). a = Waiting \<or> a = Finished \<or> a = Cancelled)"

lemma stuck_waiter_stays: "stuck_waiter s \<Longrightarrow> \<not> pool_step s s'"
  by (auto simp: stuck_waiter_def at_agent_def elim!: pool_step.cases) (metis agent.distinct nth_mem)+

lemma lost_wakeup:
  "\<exists>s. pool_run (pool_new 1 2) s \<and> stuck_waiter s \<and> pool_inner s = [0 :: nat]"
proof -
  let ?s = "moves (map Move [0, 0, 0, 0, 1, 1, 1, 0, 0, 1]) (pool_new 1 2)"
  have "agents ?s = [Finished, Waiting]" "pool_inner ?s = [0]" by code_simp+
  then have "stuck_waiter ?s" "pool_inner ?s = [0]" by (simp_all add: stuck_waiter_def)
  then show ?thesis using ex_pool_run by blast
qed

lemma discard_strands_waiter:
  "\<exists>s :: nat pool. pool_run (pool_new 1 2) s \<and> stuck_waiter s \<and> pool_size s < pool_max_size s"
proof -
  let ?s = "moves (map Move [0, 0, 0, 0, 1, 1, 1, 1] @ [Discard 0]) (pool_new 1 2)"
  have "agents ?s = [Finished, Waiting]" "pool_size ?s = 0" "pool_max_size ?s = 1" by code_simp+
  then have "stuck_waiter ?s" "pool_size ?s < pool_max_size ?s" by (simp_all add: stuck_waiter_def)
  then show ?thesis using ex_pool_run by blast
qed

lemma cancelled_reservation_is_lost:
  "\<exists>s :: nat pool. pool_run (pool_new 1 2) s \<and> stuck_waiter s \<and> live s = 0 \<and> pool_size s = pool_max_size s"
proof -
  let ?s = "moves (map Move [0, 0, 0] @ [Cancel 0] @ map Move [1, 1, 1, 1]) (pool_new 1 2)"
  have "agents ?s = [Cancelled, Waiting]" "pool_size ?s = pool_max_size ?s" "live ?s = 0" by code_simp+
  then have "stuck_waiter ?s" "pool_size ?s = pool_max_size ?s" "live ?s = 0" by (simp_all add: stuck_waiter_def)
  then show ?thesis using ex_pool_run by blast
qed

end
