(* ===== verification/Trace_Config.thy ===== *)
theory Trace_Config
  imports Synth_Config Estimators
begin

text \<open>
  The data that the trace benchmark is configured with (\<open>apps/tracebench/trace-config/src\<close>): names
  of services and graphs (\<open>svc/mod.rs\<close>), the weighted call graph (\<open>svc/call_graph.rs\<close>), latency
  distributions given by percentiles (\<open>dist.rs\<close>), and the samplers of methods
  (\<open>svc/method_freq.rs\<close>).

  A \<open>HashMap\<close> is its list of entries, in the order in which it is iterated; a theorem about a map
  that the code iterates holds for every order. Names are ASCII text. The CSV reader and the
  generator of random numbers are parameters.
\<close>

section \<open>Names\<close>

datatype service_name = ServiceName (as_str: string)

definition to_lowercase :: "string \<Rightarrow> string" where
  "to_lowercase = map (\<lambda>c. if 65 \<le> (of_char c :: nat) \<and> (of_char c :: nat) \<le> 90 then char_of (of_char c + 32 :: nat) else c)"

definition format_svc_name :: "string \<Rightarrow> string" where
  "format_svc_name s = to_lowercase (map (\<lambda>c. if c = CHR ''_'' then CHR ''-'' else c) s)"

definition service_from_string :: "string \<Rightarrow> service_name" where
  "service_from_string s = ServiceName (format_svc_name s)"

definition is_root_service :: "service_name \<Rightarrow> bool" where
  "is_root_service svc \<longleftrightarrow> strip_prefix ''user'' (as_str svc) \<noteq> None"

definition is_whitespace :: "char \<Rightarrow> bool" where
  "is_whitespace c \<longleftrightarrow> (9 \<le> (of_char c :: nat) \<and> (of_char c :: nat) \<le> 13) \<or> c = CHR '' ''"

definition trim_with :: "('a \<Rightarrow> bool) \<Rightarrow> 'a list \<Rightarrow> 'a list" where
  "trim_with p s = rev (dropWhile p (rev (dropWhile p s)))"

definition trim :: "string \<Rightarrow> string" where
  "trim = trim_with is_whitespace"

datatype graph_id = GraphId (graph_str: string)

fun canonical_prefix :: "string \<Rightarrow> string" where
  "canonical_prefix (c # d # r) =
     (if c = CHR ''s'' \<and> d = CHR ''-'' \<or> c = CHR ''s'' \<and> d = CHR ''_'' \<or> c = CHR ''S'' \<and> d = CHR ''-'' then ''S_'' @ r else c # d # r)"
| "canonical_prefix n = n"

definition normalize_graph_id :: "string \<Rightarrow> string" where
  "normalize_graph_id s =
     map (\<lambda>c. if c = CHR ''-'' then CHR ''_'' else c)
       (canonical_prefix (trim_with (\<lambda>c. c = CHR ''\"'') (trim (hd (split_on CHR '','' s)))))"

definition graph_from_string :: "string \<Rightarrow> graph_id" where
  "graph_from_string s = GraphId (normalize_graph_id s)"

text \<open>The invariant of \<open>ServiceName\<close>: its text is formatted. Formatting twice changes nothing.\<close>

definition service_ok :: "service_name \<Rightarrow> bool" where
  "service_ok svc \<longleftrightarrow> format_svc_name (as_str svc) = as_str svc"

lemma format_svc_name_char:
  "format_svc_name s = map (\<lambda>c. let d = (if c = CHR ''_'' then CHR ''-'' else c) in
     if 65 \<le> (of_char d :: nat) \<and> (of_char d :: nat) \<le> 90 then char_of (of_char d + 32 :: nat) else d) s"
  by (simp add: format_svc_name_def to_lowercase_def Let_def)

lemma lowered_char:
  assumes "65 \<le> (of_char c :: nat)" "(of_char c :: nat) \<le> 90"
  shows "of_char (char_of (of_char c + 32 :: nat)) = (of_char c + 32 :: nat)" "char_of (of_char c + 32 :: nat) \<noteq> CHR ''_''"
proof -
  show *: "of_char (char_of (of_char c + 32 :: nat)) = (of_char c + 32 :: nat)"
    using assms by (subst of_char_of) (simp add: take_bit_nat_eq_self)
  show "char_of (of_char c + 32 :: nat) \<noteq> CHR ''_''"
  proof
    assume "char_of (of_char c + 32 :: nat) = CHR ''_''"
    then have "(of_char c + 32 :: nat) = of_char (CHR ''_'')" using * by simp
    then show False using assms by (simp add: of_char_def)
  qed
qed

lemma format_svc_name_idem [simp]: "format_svc_name (format_svc_name s) = format_svc_name s"
  unfolding format_svc_name_char by (auto simp: Let_def lowered_char)

lemma service_from_string_ok [simp]: "service_ok (service_from_string s)"
  by (simp add: service_ok_def service_from_string_def)

lemma service_from_as_str [simp]: "service_ok svc \<Longrightarrow> service_from_string (as_str svc) = svc"
  by (cases svc) (simp add: service_ok_def service_from_string_def)

text \<open>
  Normalizing a graph's name twice changes nothing when it has no blanks and no quotes; otherwise
  it can, as the blanks inside quotes are only trimmed the second time.
\<close>

lemma trim_with_none: "\<forall>c\<in>set s. \<not> p c \<Longrightarrow> trim_with p s = s"
proof -
  have *: "dropWhile p t = t" if "\<forall>c\<in>set t. \<not> p c" for t using that by (cases t) auto
  assume "\<forall>c\<in>set s. \<not> p c"
  then show ?thesis by (simp add: trim_with_def *)
qed

lemma hd_split_on: "hd (split_on c s) = takeWhile (\<lambda>x. x \<noteq> c) s"
proof (induction s)
  case (Cons x s)
  then show ?case by (cases "split_on c s") auto
qed simp

definition plain_graph_char :: "char \<Rightarrow> bool" where
  "plain_graph_char c \<longleftrightarrow> \<not> is_whitespace c \<and> c \<noteq> CHR ''\"''"

lemma normalize_plain:
  assumes "\<forall>c\<in>set s. plain_graph_char c"
  shows "normalize_graph_id s = map (\<lambda>c. if c = CHR ''-'' then CHR ''_'' else c) (canonical_prefix (takeWhile (\<lambda>x. x \<noteq> CHR '','') s))"
proof -
  let ?n = "takeWhile (\<lambda>x. x \<noteq> CHR '','') s"
  have n: "\<forall>c\<in>set ?n. plain_graph_char c" using assms by (auto dest: set_takeWhileD)
  then have "trim ?n = ?n" unfolding trim_def by (intro trim_with_none) (auto simp: plain_graph_char_def)
  moreover have "trim_with (\<lambda>c. c = CHR ''\"'') ?n = ?n" using n by (intro trim_with_none) (auto simp: plain_graph_char_def)
  ultimately show ?thesis by (simp add: normalize_graph_id_def hd_split_on)
qed

lemma canonical_prefix_set: "set (canonical_prefix n) \<subseteq> set n \<union> {CHR ''S'', CHR ''_''}"
  by (cases n rule: canonical_prefix.cases) auto

lemma canonical_prefix_idem:
  "canonical_prefix (map (\<lambda>c. if c = CHR ''-'' then CHR ''_'' else c) (canonical_prefix n)) =
    map (\<lambda>c. if c = CHR ''-'' then CHR ''_'' else c) (canonical_prefix n)"
  by (cases n rule: canonical_prefix.cases) auto

lemma normalize_graph_id_idem:
  assumes "\<forall>c\<in>set s. plain_graph_char c"
  shows "normalize_graph_id (normalize_graph_id s) = normalize_graph_id s"
proof -
  let ?n = "takeWhile (\<lambda>x. x \<noteq> CHR '','') s" and ?f = "\<lambda>c. if c = CHR ''-'' then CHR ''_'' else c"
  have s: "normalize_graph_id s = map ?f (canonical_prefix ?n)" using assms by (rule normalize_plain)
  have plain: "plain_graph_char (CHR ''_'')" "plain_graph_char (CHR ''S'')" by code_simp+
  have n: "plain_graph_char c \<and> c \<noteq> CHR '',''" if "c \<in> set ?n" for c
    using that assms by (auto dest: set_takeWhileD)
  have m: "plain_graph_char c \<and> c \<noteq> CHR '',''" if c: "c \<in> set (map ?f (canonical_prefix ?n))" for c
  proof -
    obtain d where d: "d \<in> set (canonical_prefix ?n)" "c = ?f d" using c by auto
    then have "d \<in> set ?n \<or> d = CHR ''S'' \<or> d = CHR ''_''" using canonical_prefix_set [of ?n] by auto
    then have "plain_graph_char d \<and> d \<noteq> CHR '',''" using n plain by auto
    then show ?thesis using d(2) plain by simp
  qed
  then have "takeWhile (\<lambda>x. x \<noteq> CHR '','') (map ?f (canonical_prefix ?n)) = map ?f (canonical_prefix ?n)"
    by (subst takeWhile_eq_all_conv) blast
  moreover have "\<forall>c\<in>set (normalize_graph_id s). plain_graph_char c" unfolding s using m by blast
  from normalize_plain [OF this] have "normalize_graph_id (normalize_graph_id s) =
    map ?f (canonical_prefix (takeWhile (\<lambda>x. x \<noteq> CHR '','') (map ?f (canonical_prefix ?n))))" unfolding s .
  ultimately have "normalize_graph_id (normalize_graph_id s) = map ?f (map ?f (canonical_prefix ?n))"
    by (simp only: canonical_prefix_idem)
  also have "\<dots> = map ?f (canonical_prefix ?n)" by (induction "canonical_prefix ?n") auto
  finally show ?thesis unfolding s .
qed

lemma normalize_graph_id_twice:
  "normalize_graph_id (normalize_graph_id ''\" S_1\"'') \<noteq> normalize_graph_id ''\" S_1\"''"
  by code_simp

section \<open>The call graph\<close>

type_synonym targets = "(service_name \<times> u64) list"
type_synonym call_graph = "(service_name \<times> targets) list"

datatype csv_f64 = Finite f64 | NotFinite

record row =
  row_caller :: string
  row_callee :: string
  row_weight :: "csv_f64 option"

datatype graph_error = CsvFailed string | WeightNotFinite | WeightNegative | WeightNotInteger

definition row_edge_weight :: "f64_ops \<Rightarrow> csv_f64 option \<Rightarrow> graph_error + u64" where
  "row_edge_weight fl weight =
     (case weight of
        None \<Rightarrow> Inr 1
      | Some NotFinite \<Rightarrow> Inl WeightNotFinite
      | Some (Finite w) \<Rightarrow>
          if w < 0 then Inl WeightNegative
          else if \<bar>f_sub fl w (f_round w)\<bar> > rnd fl (1 / 10 ^ 6) then Inl WeightNotInteger
          else Inr (to_u64 (f_round w)))"

definition callees_of :: "call_graph \<Rightarrow> service_name \<Rightarrow> targets" where
  "callees_of g svc = unwrap_or (map_of g svc) []"

definition edge_weight :: "call_graph \<Rightarrow> service_name \<Rightarrow> service_name \<Rightarrow> u64 option" where
  "edge_weight g caller callee = Option.bind (map_of g caller) (\<lambda>targets. map_of targets callee)"

definition insert_edge :: "service_name \<Rightarrow> service_name \<Rightarrow> u64 \<Rightarrow> call_graph \<Rightarrow> call_graph" where
  "insert_edge caller callee weight g = AList.update caller (AList.update callee weight (callees_of g caller)) g"

text \<open>A row whose caller or callee is blank is skipped; the others are inserted one by one.\<close>

fun read_rows :: "f64_ops \<Rightarrow> (string + row) list \<Rightarrow> call_graph \<Rightarrow> graph_error + call_graph" where
  "read_rows fl [] g = Inr g"
| "read_rows fl (Inl e # rows) g = Inl (CsvFailed e)"
| "read_rows fl (Inr r # rows) g =
     (if trim (row_caller r) = [] \<or> trim (row_callee r) = [] then read_rows fl rows g
      else (case row_edge_weight fl (row_weight r) of
              Inl e \<Rightarrow> Inl e
            | Inr w \<Rightarrow> read_rows fl rows
                (insert_edge (service_from_string (trim (row_caller r))) (service_from_string (trim (row_callee r))) w g)))"

definition graph_from_reader :: "f64_ops \<Rightarrow> (string + row) list \<Rightarrow> graph_error + call_graph" where
  "graph_from_reader fl rows = read_rows fl rows []"

definition graph_services :: "call_graph \<Rightarrow> service_name set" where
  "graph_services g = fst ` set g \<union> (\<Union>(_, targets)\<in>set g. fst ` set targets)"

definition add_edge :: "service_name \<Rightarrow> service_name \<times> u64 \<Rightarrow> call_graph \<Rightarrow> call_graph" where
  "add_edge caller t g = insert_edge caller (fst t) (unwrap_or (edge_weight g caller (fst t)) 0 + snd t) g"

definition union_with :: "call_graph \<Rightarrow> call_graph \<Rightarrow> call_graph" where
  "union_with g other = fold (\<lambda>(caller, targets). fold (add_edge caller) targets) other g"

fun graph_union :: "call_graph list \<Rightarrow> call_graph" where
  "graph_union [] = []"
| "graph_union (g # graphs) = fold (\<lambda>other r. union_with r other) graphs g"

text \<open>The maps of a graph have each key once.\<close>

definition graph_ok :: "call_graph \<Rightarrow> bool" where
  "graph_ok g \<longleftrightarrow> distinct (map fst g) \<and> (\<forall>(_, targets)\<in>set g. distinct (map fst targets))"

lemma edge_weight_insert_edge [simp]:
  "edge_weight (insert_edge a b w g) c d = (if c = a \<and> d = b then Some w else edge_weight g c d)"
  by (auto simp: edge_weight_def insert_edge_def callees_of_def unwrap_or_def update_conv' split: option.splits)

lemma set_update: "(k, v) \<in> set (AList.update k' v' xs) \<Longrightarrow> (k = k' \<and> v = v') \<or> (k, v) \<in> set xs"
  by (induction xs) (auto split: if_splits)

lemma insert_edge_ok: "graph_ok g \<Longrightarrow> graph_ok (insert_edge a b w g)"
proof -
  assume g: "graph_ok g"
  have "distinct (map fst (callees_of g a))"
    using g by (auto simp: callees_of_def unwrap_or_def graph_ok_def split: option.splits dest: map_of_SomeD)
  then show ?thesis using g unfolding graph_ok_def insert_edge_def by (auto simp: distinct_update dest!: set_update)
qed

lemma read_rows_ok: "read_rows fl rows g = Inr g' \<Longrightarrow> graph_ok g \<Longrightarrow> graph_ok g'"
  by (induction fl rows g rule: read_rows.induct) (auto simp: insert_edge_ok split: if_splits sum.splits)

lemma graph_from_reader_ok: "graph_from_reader fl rows = Inr g \<Longrightarrow> graph_ok g"
  unfolding graph_from_reader_def by (erule read_rows_ok) (simp add: graph_ok_def)

text \<open>
  What a row says about an edge, and what a file says: the last row that names the edge, after the
  names are formatted, decides.
\<close>

definition row_names :: "service_name \<Rightarrow> service_name \<Rightarrow> row \<Rightarrow> bool" where
  "row_names a b r \<longleftrightarrow> trim (row_caller r) \<noteq> [] \<and> trim (row_callee r) \<noteq> [] \<and>
     service_from_string (trim (row_caller r)) = a \<and> service_from_string (trim (row_callee r)) = b"

lemma read_rows_edge:
  assumes "read_rows fl rows g = Inr g'"
  shows "edge_weight g' a b =
    (case filter (row_names a b) (concat (map (case_sum (\<lambda>_. []) (\<lambda>r. [r])) rows)) of
       [] \<Rightarrow> edge_weight g a b
     | rs \<Rightarrow> (case row_edge_weight fl (row_weight (last rs)) of Inl _ \<Rightarrow> None | Inr w \<Rightarrow> Some w))"
  using assms
proof (induction fl rows g rule: read_rows.induct)
  case (3 fl r rows g)
  show ?case
  proof (cases "trim (row_caller r) = [] \<or> trim (row_callee r) = []")
    case True
    then have "\<not> row_names a b r" by (auto simp: row_names_def)
    then show ?thesis using 3(1) [OF True] 3(3) True by simp
  next
    case False
    with 3(3) obtain w where w: "row_edge_weight fl (row_weight r) = Inr w"
      "read_rows fl rows (insert_edge (service_from_string (trim (row_caller r))) (service_from_string (trim (row_callee r))) w g) = Inr g'"
      by (auto split: sum.splits if_splits)
    show ?thesis using 3(2) [OF False w] False w(1) by (auto simp: row_names_def split: list.splits)
  qed
qed simp_all

lemma graph_from_reader_last_row:
  assumes "graph_from_reader fl (map Inr rows) = Inr g"
  shows "edge_weight g a b =
    (case filter (row_names a b) rows of [] \<Rightarrow> None
     | rs \<Rightarrow> (case row_edge_weight fl (row_weight (last rs)) of Inl _ \<Rightarrow> None | Inr w \<Rightarrow> Some w))"
  using read_rows_edge [OF assms [unfolded graph_from_reader_def], of a b] by (cases "filter (row_names a b) rows") (simp_all add: comp_def edge_weight_def [of "[]"])

text \<open>Uniting graphs adds the weights of an edge.\<close>

fun plus_weight :: "u64 option \<Rightarrow> u64 option \<Rightarrow> u64 option" where
  "plus_weight None w = w"
| "plus_weight (Some v) w = Some (v + unwrap_or w 0)"

lemma plus_weight_None [simp]: "plus_weight w None = w"
  by (cases w) (simp_all add: unwrap_or_def)

lemma edge_weight_add_edge [simp]:
  "edge_weight (add_edge a t g) c d = (if c = a \<and> d = fst t then plus_weight (edge_weight g c d) (Some (snd t)) else edge_weight g c d)"
  by (cases "edge_weight g a (fst t)") (auto simp: add_edge_def unwrap_or_def)

lemma edge_weight_add_edges:
  "distinct (map fst ts) \<Longrightarrow>
    edge_weight (fold (add_edge a) ts g) c d = (if c = a then plus_weight (edge_weight g c d) (map_of ts d) else edge_weight g c d)"
proof (induction ts arbitrary: g)
  case (Cons t ts)
  then have "map_of ts (fst t) = None" by (auto simp: map_of_eq_None_iff)
  with Cons show ?case by (cases t) auto
qed simp

lemma edge_weight_union_with:
  "graph_ok h \<Longrightarrow> edge_weight (union_with g h) c d = plus_weight (edge_weight g c d) (edge_weight h c d)"
proof (induction h arbitrary: g)
  case (Cons x h)
  obtain a ts where at: "x = (a, ts)" by force
  have "map_of h a = None" using Cons.prems by (auto simp: graph_ok_def at map_of_eq_None_iff)
  moreover have "graph_ok h" "distinct (map fst ts)" using Cons.prems by (auto simp: graph_ok_def at)
  ultimately show ?case using Cons.IH [of "fold (add_edge a) ts g"]
    by (simp add: union_with_def at edge_weight_add_edges) (auto simp: edge_weight_def)
qed (simp add: union_with_def edge_weight_def)

lemma edge_weight_unions:
  assumes "\<forall>h\<in>set hs. graph_ok h"
  shows "edge_weight (fold (\<lambda>h r. union_with r h) hs g) c d = fold (\<lambda>h w. plus_weight w (edge_weight h c d)) hs (edge_weight g c d)"
  using assms by (induction hs arbitrary: g) (simp_all add: edge_weight_union_with)

lemma fold_plus_weight:
  "fold (\<lambda>h w. plus_weight w (e h)) hs v =
    (if v = None \<and> (\<forall>h\<in>set hs. e h = None) then None else Some (unwrap_or v 0 + (\<Sum>h\<leftarrow>hs. unwrap_or (e h) 0)))"
proof (induction hs arbitrary: v)
  case (Cons h hs)
  show ?case unfolding fold_simps o_apply Cons by (cases v; cases "e h") (auto simp: unwrap_or_def algebra_simps)
qed (auto simp: unwrap_or_def)

theorem union_adds_weights:
  assumes "\<forall>g\<in>set graphs. graph_ok g"
  shows "edge_weight (graph_union graphs) a b =
    (if \<forall>g\<in>set graphs. edge_weight g a b = None then None else Some (\<Sum>g\<leftarrow>graphs. unwrap_or (edge_weight g a b) 0))"
proof (cases graphs)
  case (Cons g gs)
  then show ?thesis using assms by (simp add: edge_weight_unions fold_plus_weight unwrap_or_def split: option.splits)
qed (simp add: edge_weight_def)

section \<open>Binary search\<close>

text \<open>\<open>slice::binary_search_by\<close>: \<open>Inr\<close> is an index with an equal element, \<open>Inl\<close> where one could be inserted.\<close>

function bsearch_base :: "('a \<Rightarrow> rust_ordering) \<Rightarrow> 'a list \<Rightarrow> nat \<Rightarrow> nat \<Rightarrow> nat" where
  "bsearch_base f xs len base =
     (if len \<le> 1 then base
      else bsearch_base f xs (len - len div 2) (if f (xs ! (base + len div 2)) = Greater then base else base + len div 2))"
  by pat_completeness auto
termination
  by (relation "measure (\<lambda>(_, _, len, _). len)") auto

declare bsearch_base.simps [simp del]

definition binary_search_by :: "('a \<Rightarrow> rust_ordering) \<Rightarrow> 'a list \<Rightarrow> nat + nat" where
  "binary_search_by f xs =
     (if xs = [] then Inl 0
      else let base = bsearch_base f xs (length xs) 0 in
        (case f (xs ! base) of Equal \<Rightarrow> Inr base | Less \<Rightarrow> Inl (Suc base) | Greater \<Rightarrow> Inl base))"

text \<open>A list is sorted for a search when the elements that are too great come last.\<close>

definition search_sorted :: "('a \<Rightarrow> rust_ordering) \<Rightarrow> 'a list \<Rightarrow> bool" where
  "search_sorted f xs \<longleftrightarrow> (\<forall>i j. i < j \<longrightarrow> j < length xs \<longrightarrow> f (xs ! i) = Greater \<longrightarrow> f (xs ! j) = Greater)"

lemma search_sortedD: "search_sorted f xs \<Longrightarrow> f (xs ! i) = Greater \<Longrightarrow> i \<le> j \<Longrightarrow> j < length xs \<Longrightarrow> f (xs ! j) = Greater"
  unfolding search_sorted_def by (metis order_le_less)

lemma bsearch_base_inv:
  assumes "search_sorted f xs" "0 < len" "base + len \<le> length xs"
    "0 < base \<longrightarrow> f (xs ! base) \<noteq> Greater" "\<forall>i. base + len \<le> i \<longrightarrow> i < length xs \<longrightarrow> f (xs ! i) = Greater"
  defines "b \<equiv> bsearch_base f xs len base"
  shows "b < length xs \<and> (0 < b \<longrightarrow> f (xs ! b) \<noteq> Greater) \<and> (\<forall>i. b < i \<longrightarrow> i < length xs \<longrightarrow> f (xs ! i) = Greater)"
  using assms unfolding b_def
proof (induction f xs len base rule: bsearch_base.induct)
  case (1 f xs len base)
  let ?mid = "base + len div 2"
  show ?case
  proof (cases "len \<le> 1")
    case True
    then have "bsearch_base f xs len base = base" by (simp add: bsearch_base.simps)
    moreover have "len = 1" using True 1(3) by simp
    ultimately show ?thesis using 1(4,5,6) by auto
  next
    case False
    have half: "0 < len div 2" "len div 2 < len" "?mid < length xs" using False 1(3,4) by auto
    have "\<forall>i. base' + (len - len div 2) \<le> i \<longrightarrow> i < length xs \<longrightarrow> f (xs ! i) = Greater"
      "0 < base' \<longrightarrow> f (xs ! base') \<noteq> Greater" "base' + (len - len div 2) \<le> length xs"
      if "base' = (if f (xs ! ?mid) = Greater then base else ?mid)" for base'
    proof -
      have *: "f (xs ! i) = Greater" if "f (xs ! ?mid) = Greater" "?mid \<le> i" "i < length xs" for i
        using search_sortedD [OF 1(2)] that by blast
      then show "\<forall>i. base' + (len - len div 2) \<le> i \<longrightarrow> i < length xs \<longrightarrow> f (xs ! i) = Greater"
        using that half 1(6) by auto
      show "0 < base' \<longrightarrow> f (xs ! base') \<noteq> Greater" "base' + (len - len div 2) \<le> length xs"
        using that half 1(4,5) by (auto split: if_splits)
    qed
    note step = this [OF refl]
    have pos: "0 < len - len div 2" using half by simp
    have eq: "bsearch_base f xs len base = bsearch_base f xs (len - len div 2) (if f (xs ! ?mid) = Greater then base else ?mid)"
      using False by (subst bsearch_base.simps) (rule if_not_P)
    show ?thesis unfolding eq by (rule 1(1) [OF False 1(2) pos step(3,2,1)])
  qed
qed

lemma binary_search_by_Inl:
  assumes "search_sorted f xs" "binary_search_by f xs = Inl i"
  shows "i \<le> length xs" "0 < i \<Longrightarrow> f (xs ! (i - 1)) = Less" "i \<le> j \<Longrightarrow> j < length xs \<Longrightarrow> f (xs ! j) = Greater"
    "j < i \<Longrightarrow> f (xs ! j) \<noteq> Greater"
proof -
  have "i \<le> length xs \<and> (0 < i \<longrightarrow> f (xs ! (i - 1)) = Less) \<and> (\<forall>j. i \<le> j \<longrightarrow> j < length xs \<longrightarrow> f (xs ! j) = Greater)"
  proof (cases "xs = []")
    case True
    then show ?thesis using assms(2) by (simp add: binary_search_by_def)
  next
    case False
    let ?b = "bsearch_base f xs (length xs) 0"
    have b: "?b < length xs" "0 < ?b \<longrightarrow> f (xs ! ?b) \<noteq> Greater" "\<forall>i. ?b < i \<longrightarrow> i < length xs \<longrightarrow> f (xs ! i) = Greater"
      using bsearch_base_inv [of f xs "length xs" 0] assms(1) False by auto
    consider "f (xs ! ?b) = Less" "i = Suc ?b" | "f (xs ! ?b) = Greater" "i = ?b" "?b = 0"
      using assms(2) False b(2) by (auto simp: binary_search_by_def Let_def split: rust_ordering.splits)
    then show ?thesis
    proof cases
      case 2
      have "f (xs ! j) = Greater" if "j < length xs" for j using 2 b(3) that by (cases "j = 0") auto
      then show ?thesis using 2 by simp
    qed (use b in auto)
  qed
  then show "i \<le> length xs" "0 < i \<Longrightarrow> f (xs ! (i - 1)) = Less" "i \<le> j \<Longrightarrow> j < length xs \<Longrightarrow> f (xs ! j) = Greater" by auto
  then have "f (xs ! j) \<noteq> Greater" if "j < i" for j
  proof (cases "j = i - 1")
    case False
    then have "f (xs ! j) = Greater \<longrightarrow> f (xs ! (i - 1)) = Greater"
      using search_sortedD [OF assms(1), of j "i - 1"] that \<open>i \<le> length xs\<close> by auto
    then show ?thesis using that \<open>0 < i \<Longrightarrow> f (xs ! (i - 1)) = Less\<close> by auto
  qed (use that \<open>0 < i \<Longrightarrow> f (xs ! (i - 1)) = Less\<close> in auto)
  then show "j < i \<Longrightarrow> f (xs ! j) \<noteq> Greater" .
qed

lemma binary_search_by_Inr:
  assumes "search_sorted f xs" "binary_search_by f xs = Inr i"
  shows "i < length xs" "f (xs ! i) = Equal"
proof -
  let ?b = "bsearch_base f xs (length xs) 0"
  have ne: "xs \<noteq> []" using assms(2) by (auto simp: binary_search_by_def)
  then have "?b < length xs" using bsearch_base_inv [of f xs "length xs" 0] assms(1) by simp
  moreover have "i = ?b \<and> f (xs ! ?b) = Equal"
    using assms(2) ne by (auto simp: binary_search_by_def Let_def split: rust_ordering.splits)
  ultimately show "i < length xs" "f (xs ! i) = Equal" by auto
qed

section \<open>Sampling methods by frequency\<close>

datatype sampler_error = EmptyMap | ZeroTotal

record weighted_sampler =
  ws_keys :: "string list"
  ws_cum :: "u64 list"
  ws_total :: u64

fun push_weights :: "(string \<times> u64) list \<Rightarrow> string list \<Rightarrow> u64 list \<Rightarrow> u64 \<Rightarrow> string list \<times> u64 list \<times> u64" where
  "push_weights [] keys cum running = (keys, cum, running)"
| "push_weights ((k, f) # m) keys cum running =
     (let running' = saturating_add running f in push_weights m (keys @ [k]) (cum @ [running']) running')"

definition weighted_from_map :: "(string \<times> u64) list \<Rightarrow> sampler_error + weighted_sampler" where
  "weighted_from_map m =
     (if m = [] then Inl EmptyMap
      else case push_weights m [] [] 0 of (keys, cum, running) \<Rightarrow>
        if running = 0 then Inl ZeroTotal else Inr \<lparr>ws_keys = keys, ws_cum = cum, ws_total = running\<rparr>)"

definition pick_weighted :: "weighted_sampler \<Rightarrow> u64 \<Rightarrow> string exec" where
  "pick_weighted s x =
     (case binary_search_by (\<lambda>c. if c \<le> x then Less else Greater) (ws_cum s) of
        Inr _ \<Rightarrow> Panic
      | Inl idx \<Rightarrow> index (ws_keys s) idx)"

text \<open>\<open>random_range n\<close> draws from \<open>0..n\<close>.\<close>

definition sample_weighted :: "(u64 \<Rightarrow> 'w \<Rightarrow> u64 \<times> 'w) \<Rightarrow> weighted_sampler \<Rightarrow> 'w \<Rightarrow> (string \<times> 'w) exec" where
  "sample_weighted random_range s w =
     (case random_range (ws_total s) w of (x, w1) \<Rightarrow> map_exec (\<lambda>k. (k, w1)) (pick_weighted s x))"

fun sample_many :: "(u64 \<Rightarrow> 'w \<Rightarrow> u64 \<times> 'w) \<Rightarrow> weighted_sampler \<Rightarrow> nat \<Rightarrow> 'w \<Rightarrow> (string list \<times> 'w) exec" where
  "sample_many random_range s 0 w = Done ([], w)"
| "sample_many random_range s (Suc n) w =
     bind_exec (sample_weighted random_range s w) (\<lambda>(k, w1). map_exec (\<lambda>(ks, w2). (k # ks, w2)) (sample_many random_range s n w1))"

definition sampler_contains :: "weighted_sampler \<Rightarrow> string \<Rightarrow> bool" where
  "sampler_contains s key \<longleftrightarrow> key \<in> set (ws_keys s)"

definition from_invoke_freq_map :: "(string \<times> u64) list \<Rightarrow> sampler_error + weighted_sampler" where
  "from_invoke_freq_map freq_map = weighted_from_map (filter (\<lambda>(_, weight). 0 < weight) freq_map)"

text \<open>
  The prefix_sums, as numbers: while they stay below \<open>2 ^ 64\<close> the entry of a key is the sum of the weights
  up to and including its own, and \<open>x\<close> picks the key in whose weights it falls.
\<close>

fun weight_at :: "(string \<times> u64) list \<Rightarrow> nat \<Rightarrow> string option" where
  "weight_at [] x = None"
| "weight_at ((k, f) # m) x = (if x < unat f then Some k else weight_at m (x - unat f))"

fun prefix_sums :: "nat \<Rightarrow> (string \<times> u64) list \<Rightarrow> nat list" where
  "prefix_sums r [] = []"
| "prefix_sums r ((_, f) # m) = (r + unat f) # prefix_sums (r + unat f) m"

lemma length_prefix_sums [simp]: "length (prefix_sums r m) = length m"
  by (induction m arbitrary: r) auto

lemma push_weights_exact:
  assumes "unat running + (\<Sum>(_, f)\<leftarrow>m. unat f) < 2 ^ 64" "push_weights m keys cum running = (ks, cs, t)"
  shows "ks = keys @ map fst m \<and> map unat cs = map unat cum @ prefix_sums (unat running) m \<and> unat t = unat running + (\<Sum>(_, f)\<leftarrow>m. unat f)"
  using assms
proof (induction m keys cum running rule: push_weights.induct)
  case (2 k f m keys cum running)
  have "unat (saturating_add running f) = unat running + unat f" using 2(2) by (simp add: sat_simps)
  then show ?case using 2(1) [OF refl] 2(2,3) by (simp add: Let_def)
qed auto

lemma prefix_sums_mono: "i < length m \<Longrightarrow> r \<le> prefix_sums r m ! i" "i \<le> j \<Longrightarrow> j < length m \<Longrightarrow> prefix_sums r m ! i \<le> prefix_sums r m ! j"
proof -
  have *: "r \<le> prefix_sums r m ! i" if "i < length m" for i r and m :: "(string \<times> u64) list"
    using that
  proof (induction m arbitrary: i r)
    case (Cons kf m)
    have "r \<le> prefix_sums (r + unat (snd kf)) m ! j" if "j < length m" for j
      using Cons.IH [OF that, of "r + unat (snd kf)"] by simp
    then show ?case using Cons.prems by (cases kf) (auto simp: nth_Cons split: nat.splits)
  qed simp
  then show "i < length m \<Longrightarrow> r \<le> prefix_sums r m ! i" .
  show "i \<le> j \<Longrightarrow> j < length m \<Longrightarrow> prefix_sums r m ! i \<le> prefix_sums r m ! j"
  proof (induction m arbitrary: i j r)
    case (Cons kf m)
    have "r + unat (snd kf) \<le> prefix_sums (r + unat (snd kf)) m ! n" if "n < length m" for n by (rule * [OF that])
    then show ?case using Cons by (cases kf) (auto simp: nth_Cons split: nat.splits)
  qed simp
qed

lemma weight_at_index:
  assumes "r \<le> x" "\<forall>j<i. prefix_sums r m ! j \<le> x" "i < length m" "x < prefix_sums r m ! i"
  shows "weight_at m (x - r) = Some (fst (m ! i))"
  using assms
proof (induction m arbitrary: r i)
  case (Cons kf m)
  obtain k f where kf: "kf = (k, f)" by force
  show ?case
  proof (cases i)
    case 0
    then have "x - r < unat f" using Cons.prems by (auto simp: kf)
    then show ?thesis using 0 by (simp add: kf)
  next
    case (Suc i')
    have "r + unat f \<le> x" using Cons.prems(2) Suc by (auto simp: kf)
    moreover have "\<forall>j<i'. prefix_sums (r + unat f) m ! j \<le> x" using Cons.prems(2) Suc by (auto simp: kf)
    ultimately show ?thesis using Cons.IH [of "r + unat f" i'] Cons.prems(3,4) Suc by (auto simp: kf)
  qed
qed simp

lemma last_prefix_sums: "m \<noteq> [] \<Longrightarrow> last (prefix_sums r m) = r + (\<Sum>(_, f)\<leftarrow>m. unat f)"
proof (induction m arbitrary: r)
  case (Cons kf m)
  then show ?case by (cases kf; cases m) auto
qed simp

lemma pick_weighted_exact:
  assumes "(\<Sum>(_, f)\<leftarrow>m. unat f) < 2 ^ 64" "weighted_from_map m = Inr s" "x < ws_total s"
  shows "\<exists>k. pick_weighted s x = Done k \<and> weight_at m (unat x) = Some k"
proof -
  have m: "m \<noteq> []" using assms(2) by (auto simp: weighted_from_map_def)
  then obtain ks cs t where p: "push_weights m [] [] 0 = (ks, cs, t)" "s = \<lparr>ws_keys = ks, ws_cum = cs, ws_total = t\<rparr>"
    using assms(2) by (auto simp: weighted_from_map_def split: if_splits prod.splits)
  note ex = push_weights_exact [of 0, OF _ p(1)]
  have ks: "ks = map fst m" and cs: "map unat cs = prefix_sums 0 m" and t: "unat t = (\<Sum>(_, f)\<leftarrow>m. unat f)"
    using ex assms(1) by simp_all
  have len: "length cs = length m" using arg_cong [OF cs, of length] by simp
  have nth: "unat (cs ! i) = prefix_sums 0 m ! i" if "i < length m" for i
    using arg_cong [OF cs, of "\<lambda>xs. xs ! i"] that len by simp
  let ?f = "\<lambda>c. if c \<le> x then Less else Greater"
  have sorted: "search_sorted ?f cs" unfolding search_sorted_def
  proof (intro allI impI)
    fix i j
    assume ij: "i < j" "j < length cs" "?f (cs ! i) = Greater"
    then have "unat x < prefix_sums 0 m ! i" using nth [of i] len by (auto simp: word_le_nat_alt split: if_splits)
    then have "unat x < unat (cs ! j)" using prefix_sums_mono(2) [of i j m 0] nth [of j] len ij by simp
    then show "?f (cs ! j) = Greater" by (simp add: word_le_nat_alt)
  qed
  obtain i where i: "binary_search_by ?f cs = Inl i"
    using binary_search_by_Inr(2) [OF sorted] by (cases "binary_search_by ?f cs") (auto split: if_splits)
  note b = binary_search_by_Inl [OF sorted i]
  have "i \<noteq> length m"
  proof
    assume "i = length m"
    then have "cs ! (length m - 1) \<le> x" using b(2) m by (auto split: if_splits)
    moreover have "unat (cs ! (length m - 1)) = unat t"
      using nth [of "length m - 1"] m last_prefix_sums [OF m, of 0] t last_conv_nth [of "prefix_sums 0 m"]
      by (metis One_nat_def add_0 diff_Suc_less length_0_conv length_greater_0_conv length_prefix_sums)
    ultimately show False using assms(3) p(2) by (simp add: word_le_nat_alt word_less_nat_alt)
  qed
  then have im: "i < length m" using b(1) len by simp
  have "\<forall>j<i. prefix_sums 0 m ! j \<le> unat x" using b(4) nth im by (fastforce simp: word_le_nat_alt split: if_splits)
  moreover have "unat x < prefix_sums 0 m ! i" using b(3) [of i] nth [OF im] im len by (auto simp: word_le_nat_alt split: if_splits)
  ultimately have "weight_at m (unat x - 0) = Some (fst (m ! i))" using im by (intro weight_at_index) auto
  then show ?thesis using i im p(2) ks by (simp add: pick_weighted_def index_def)
qed

text \<open>Each key is picked by as many numbers as its weight says.\<close>

lemma weight_at_Cons:
  "{x. weight_at ((k', f) # m) x = Some k} = (if k' = k then {..<unat f} else {}) \<union> (+) (unat f) ` {x. weight_at m x = Some k}"
proof -
  have "x \<in> (+) (unat f) ` {x. weight_at m x = Some k} \<longleftrightarrow> unat f \<le> x \<and> weight_at m (x - unat f) = Some k" for x
    by (auto simp: image_iff intro: exI [of _ "x - unat f"])
  then show ?thesis by (auto simp: not_less)
qed

lemma weight_at_count:
  "finite {x. weight_at m x = Some k} \<and> card {x. weight_at m x = Some k} = (\<Sum>(k', f)\<leftarrow>m. if k' = k then unat f else 0)"
proof (induction m)
  case (Cons kf m)
  obtain k' f where kf: "kf = (k', f)" by force
  let ?A = "if k' = k then {..<unat f} else {}" and ?B = "(+) (unat f) ` {x. weight_at m x = Some k}"
  have "?A \<inter> ?B = {}" by auto
  moreover have "finite ?B" "card ?B = card {x. weight_at m x = Some k}" using Cons by (simp_all add: card_image)
  ultimately show ?case unfolding kf weight_at_Cons using Cons by (simp add: card_Un_disjoint)
qed simp

lemma weight_at_bound: "weight_at m x = Some k \<Longrightarrow> x < (\<Sum>(_, f)\<leftarrow>m. unat f)"
proof (induction m x rule: weight_at.induct)
  case (2 k' f m x)
  then show ?case by (cases "x < unat f") auto
qed simp

text \<open>
  Claim C23. Methods are sampled by their frequencies: of the numbers below the total weight, each as likely
  to be drawn as any other, exactly as many pick a method as its weights in the map add up to, when
  the sum of all weights fits; the binary search over the running sums finds it.
\<close>

theorem sampler_follows_frequencies:
  assumes "(\<Sum>(_, f)\<leftarrow>m. unat f) < 2 ^ 64" "weighted_from_map m = Inr s"
  shows "card {x. x < ws_total s \<and> pick_weighted s x = Done k} = (\<Sum>(k', f)\<leftarrow>m. if k' = k then unat f else 0)"
proof -
  obtain ks cs t where "push_weights m [] [] 0 = (ks, cs, t)" "s = \<lparr>ws_keys = ks, ws_cum = cs, ws_total = t\<rparr>"
    using assms(2) by (auto simp: weighted_from_map_def split: if_splits prod.splits)
  then have total: "unat (ws_total s) = (\<Sum>(_, f)\<leftarrow>m. unat f)" using push_weights_exact [of 0 m "[]" "[]"] assms(1) by simp
  have pick: "pick_weighted s x = Done k \<longleftrightarrow> weight_at m (unat x) = Some k" if "x < ws_total s" for x
    using pick_weighted_exact [OF assms that] by auto
  have "unat ` {x. x < ws_total s \<and> pick_weighted s x = Done k} = {n. weight_at m n = Some k}"
  proof (intro set_eqI iffI)
    fix n
    assume "n \<in> {n. weight_at m n = Some k}"
    then have n: "weight_at m n = Some k" by simp
    then have "n < unat (ws_total s)" using weight_at_bound [OF n] total by simp
    moreover from this have "unat (of_nat n :: u64) = n" using unat_u64_less [of "ws_total s"] by (intro unat_of_nat_less) simp
    ultimately have "of_nat n < ws_total s" "pick_weighted s (of_nat n) = Done k" "unat (of_nat n :: u64) = n"
      using pick [of "of_nat n"] n by (simp_all add: word_less_nat_alt)
    then show "n \<in> unat ` {x. x < ws_total s \<and> pick_weighted s x = Done k}" by force
  qed (use pick in auto)
  moreover have "inj_on unat {x. x < ws_total s \<and> pick_weighted s x = Done k}"
    by (intro inj_onI) (simp only: word_unat_eq_iff)
  ultimately have "card {x. x < ws_total s \<and> pick_weighted s x = Done k} = card {n. weight_at m n = Some k}"
    using card_image by fastforce
  then show ?thesis using weight_at_count by simp
qed

theorem sampler_follows_frequencies_witness:
  "\<exists>s. weighted_from_map [(''a'', 1), (''b'', 3)] = Inr s \<and> card {x. x < ws_total s \<and> pick_weighted s x = Done ''b''} = 3"
proof -
  have s: "weighted_from_map [(''a'', 1), (''b'', 3)] = Inr \<lparr>ws_keys = [''a'', ''b''], ws_cum = [1, 4], ws_total = 4\<rparr>" by code_simp
  show ?thesis using sampler_follows_frequencies [OF _ s, of "''b''"] s by simp
qed

section \<open>Latency distributions\<close>

datatype interp_mode = Linear | Lower | Upper | Midpoint

record distribution =
  dist_ps :: "f64 list"
  dist_xs :: "f64 list"
  dist_mode :: interp_mode

datatype dist_map_error = EmptyPercentiles | BadPercentile string

definition clamp01 :: "f64 \<Rightarrow> f64" where
  "clamp01 x = (if x < 0 then 0 else if 1 < x then 1 else x)"

definition f64_cmp :: "f64 \<Rightarrow> f64 \<Rightarrow> rust_ordering" where
  "f64_cmp x y = (if x < y then Less else if x = y then Equal else Greater)"

text \<open>\<open>BTreeMap::insert\<close>, on the entries in the order of their keys.\<close>

fun btree_insert :: "f64 \<Rightarrow> 'v \<Rightarrow> (f64 \<times> 'v) list \<Rightarrow> (f64 \<times> 'v) list" where
  "btree_insert k v [] = [(k, v)]"
| "btree_insert k v ((k', v') # t) =
     (if k < k' then (k, v) # (k', v') # t else if k = k' then (k, v) # t else (k', v') # btree_insert k v t)"

fun read_percentiles :: "(string \<Rightarrow> f64 option) \<Rightarrow> (string \<times> f64) list \<Rightarrow> (f64 \<times> f64) list \<Rightarrow> dist_map_error + (f64 \<times> f64) list" where
  "read_percentiles parse_f64 [] t = Inr t"
| "read_percentiles parse_f64 ((k, v) # m) t =
     (case parse_f64 k of None \<Rightarrow> Inl (BadPercentile k) | Some p \<Rightarrow> read_percentiles parse_f64 m (btree_insert p v t))"

definition from_percentile_map :: "f64_ops \<Rightarrow> (string \<Rightarrow> f64 option) \<Rightarrow> (string \<times> f64) list \<Rightarrow> dist_map_error + distribution" where
  "from_percentile_map fl parse_f64 m =
     (if m = [] then Inl EmptyPercentiles
      else case read_percentiles parse_f64 m [] of
        Inl e \<Rightarrow> Inl e
      | Inr t \<Rightarrow> Inr \<lparr>dist_ps = map (\<lambda>(p, _). clamp01 (f_divide fl p 100)) t, dist_xs = map snd t, dist_mode = Linear\<rparr>)"

definition interpolate :: "f64_ops \<Rightarrow> interp_mode \<Rightarrow> f64 \<Rightarrow> f64 \<Rightarrow> f64 \<Rightarrow> f64 \<Rightarrow> f64 \<Rightarrow> f64" where
  "interpolate fl md p0 x0 p1 x1 p =
     (case md of
        Lower \<Rightarrow> x0
      | Upper \<Rightarrow> x1
      | Midpoint \<Rightarrow> f_mul fl (1 / 2) (f_add fl x0 x1)
      | Linear \<Rightarrow> f_add fl x0 (f_mul fl (f_divide fl (f_sub fl p p0) (f_sub fl p1 p0)) (f_sub fl x1 x0)))"

text \<open>\<open>idx - 1\<close> wraps at zero, and the index is then out of range.\<close>

definition quantile01 :: "f64_ops \<Rightarrow> distribution \<Rightarrow> f64 \<Rightarrow> f64 exec" where
  "quantile01 fl d p =
     (if length (dist_ps d) = 1 then index (dist_xs d) 0
      else bind_exec (index (dist_ps d) 0) (\<lambda>first.
        if p \<le> first then index (dist_xs d) 0
        else if last (dist_ps d) \<le> p then index (dist_xs d) (length (dist_xs d) - 1)
        else let idx = case_sum (\<lambda>i. i) (\<lambda>i. i) (binary_search_by (\<lambda>probe. f64_cmp probe p) (dist_ps d)) in
          bind_exec (index (dist_ps d) idx) (\<lambda>p1.
          if \<bar>f_sub fl p1 p\<bar> < EPSILON then index (dist_xs d) idx
          else if idx = 0 then Panic
          else bind_exec (index (dist_ps d) (idx - 1)) (\<lambda>p0.
            bind_exec (index (dist_xs d) (idx - 1)) (\<lambda>x0.
            bind_exec (index (dist_xs d) idx) (\<lambda>x1.
              Done (interpolate fl (dist_mode d) p0 x0 p1 x1 p)))))))"

definition quantile :: "f64_ops \<Rightarrow> distribution \<Rightarrow> f64 \<Rightarrow> f64 exec" where
  "quantile fl d pc = quantile01 fl d (clamp01 (f_divide fl pc 100))"

definition sample_dist :: "f64_ops \<Rightarrow> ('w \<Rightarrow> f64 \<times> 'w) \<Rightarrow> distribution \<Rightarrow> 'w \<Rightarrow> (f64 \<times> 'w) exec" where
  "sample_dist fl random d w = (case random w of (u, w1) \<Rightarrow> map_exec (\<lambda>x. (x, w1)) (quantile01 fl d u))"

fun sample_n :: "f64_ops \<Rightarrow> ('w \<Rightarrow> f64 \<times> 'w) \<Rightarrow> distribution \<Rightarrow> nat \<Rightarrow> 'w \<Rightarrow> (f64 list \<times> 'w) exec" where
  "sample_n fl random d 0 w = Done ([], w)"
| "sample_n fl random d (Suc n) w =
     bind_exec (sample_dist fl random d w) (\<lambda>(x, w1). map_exec (\<lambda>(xs, w2). (x # xs, w2)) (sample_n fl random d n w1))"

text \<open>The invariant of a distribution: as many latencies as percentiles, which are sorted, between 0 and 1.\<close>

definition dist_ok :: "f64_ops \<Rightarrow> distribution \<Rightarrow> bool" where
  "dist_ok fl d \<longleftrightarrow> dist_ps d \<noteq> [] \<and> length (dist_xs d) = length (dist_ps d) \<and> sorted (dist_ps d) \<and>
     (\<forall>p\<in>set (dist_ps d). 0 \<le> p \<and> p \<le> 1 \<and> rnd fl p = p)"

lemma btree_insert_sorted: "sorted_wrt (<) (map fst t) \<Longrightarrow> sorted_wrt (<) (map fst (btree_insert k v t))"
proof -
  have "fst ` set (btree_insert k v t) = insert k (fst ` set t)" for t :: "(f64 \<times> 'a) list"
    by (induction k v t rule: btree_insert.induct) auto
  then show "sorted_wrt (<) (map fst t) \<Longrightarrow> sorted_wrt (<) (map fst (btree_insert k v t))"
    by (induction k v t rule: btree_insert.induct) auto
qed

lemma read_percentiles_sorted:
  "read_percentiles parse m t = Inr t' \<Longrightarrow> sorted_wrt (<) (map fst t) \<Longrightarrow> sorted_wrt (<) (map fst t') \<and> (m \<noteq> [] \<or> t \<noteq> [] \<longrightarrow> t' \<noteq> [])"
proof (induction m arbitrary: t)
  case (Cons kv m)
  obtain k v where kv: "kv = (k, v)" by force
  obtain p where p: "parse k = Some p" "read_percentiles parse m (btree_insert p v t) = Inr t'"
    using Cons.prems(1) by (auto simp: kv split: option.splits)
  have "btree_insert p v t \<noteq> []" by (cases t) (auto split: if_splits)
  then show ?case using Cons.IH [OF p(2) btree_insert_sorted [OF Cons.prems(2)]] by simp
qed auto

lemma clamp01_mono: "x \<le> y \<Longrightarrow> clamp01 x \<le> clamp01 y"
  by (auto simp: clamp01_def)

lemma from_percentile_map_ok:
  assumes "ieee fl" "from_percentile_map fl parse m = Inr d"
  shows "dist_ok fl d"
proof -
  obtain t where t: "m \<noteq> []" "read_percentiles parse m [] = Inr t"
    "d = \<lparr>dist_ps = map (\<lambda>(p, _). clamp01 (f_divide fl p 100)) t, dist_xs = map snd t, dist_mode = Linear\<rparr>"
    using assms(2) by (auto simp: from_percentile_map_def split: if_splits sum.splits)
  have s: "sorted_wrt (<) (map fst t)" "t \<noteq> []" using read_percentiles_sorted [OF t(2)] t(1) by simp_all
  have "clamp01 (f_divide fl x 100) \<le> clamp01 (f_divide fl y 100)" if "x < y" for x y
    using that unfolding f_divide_def by (intro clamp01_mono ieee_rnd(1) [OF assms(1)]) (simp add: divide_right_mono)
  then have "sorted (map (\<lambda>(p, _). clamp01 (f_divide fl p 100)) t)"
    using s(1) by (auto simp: sorted_wrt_map case_prod_beta elim!: sorted_wrt_mono_rel [rotated])
  moreover have "rnd fl (clamp01 (f_divide fl x 100)) = clamp01 (f_divide fl x 100)" for x
    using assms(1) by (auto simp: clamp01_def f_divide_def ieee_rnd(2))
  ultimately show ?thesis using s(2) t(3) by (auto simp: dist_ok_def clamp01_def)
qed

text \<open>Percentiles above 100 are clamped, so that two knots can coincide.\<close>

lemma clamped_percentiles_coincide:
  "\<exists>d. from_percentile_map ex_f64 (\<lambda>s. if s = ''100'' then Some 100 else Some 150) [(''100'', 1), (''150'', 2)] = Inr d \<and> dist_ps d = [1, 1]"
  by (simp add: from_percentile_map_def clamp01_def f_divide_def ex_f64_def)

lemma search_sorted_f64: "sorted qs \<Longrightarrow> search_sorted (\<lambda>q. f64_cmp q p) qs"
  unfolding search_sorted_def f64_cmp_def
  by (intro allI impI) (metis (no_types, lifting) nth_mem order_le_less order_less_le_trans order_less_irrefl rust_ordering.distinct(3,5) linorder_neqE sorted_nth_mono)

lemma quantile_interior:
  assumes "ieee fl" "dist_ok fl d" "hd (dist_ps d) < p" "p < last (dist_ps d)"
  obtains i where "0 < i" "i < length (dist_ps d)"
    "dist_ps d ! i = p \<and> quantile01 fl d p = Done (dist_xs d ! i) \<or>
     dist_ps d ! (i - 1) < p \<and> p < dist_ps d ! i \<and> quantile01 fl d p =
       Done (if \<bar>f_sub fl (dist_ps d ! i) p\<bar> < EPSILON then dist_xs d ! i
             else interpolate fl (dist_mode d) (dist_ps d ! (i - 1)) (dist_xs d ! (i - 1)) (dist_ps d ! i) (dist_xs d ! i) p)"
proof -
  let ?ps = "dist_ps d" and ?f = "\<lambda>q. f64_cmp q p"
  have ne: "?ps \<noteq> []" "length (dist_xs d) = length ?ps" "sorted ?ps" using assms(2) by (simp_all add: dist_ok_def)
  have sorted: "search_sorted ?f ?ps" by (rule search_sorted_f64) (rule ne(3))
  have 0: "?ps ! 0 < p" "length ?ps \<noteq> 1" using assms(3,4) ne(1) by (auto simp: hd_conv_nth last_conv_nth)
  define i where "i = case_sum (\<lambda>i. i) (\<lambda>i. i) (binary_search_by ?f ?ps)"
  have i: "0 < i \<and> i < length ?ps \<and> (?ps ! i = p \<or> ?ps ! (i - 1) < p \<and> p < ?ps ! i)"
  proof (cases "binary_search_by ?f ?ps")
    case (Inr j)
    then show ?thesis using binary_search_by_Inr [OF sorted Inr] 0(1) by (auto simp: i_def f64_cmp_def split: if_splits intro: gr0I)
  next
    case (Inl j)
    note b = binary_search_by_Inl [OF sorted Inl]
    have "j \<noteq> 0" using b(3) [of 0] 0(1) ne(1) by (auto simp: f64_cmp_def)
    moreover have "j \<noteq> length ?ps"
      using b(2) assms(4) ne(1) by (auto simp: f64_cmp_def last_conv_nth split: if_splits)
    ultimately show ?thesis using b(1,2) b(3) [of j] Inl by (auto simp: i_def f64_cmp_def split: if_splits)
  qed
  have q: "quantile01 fl d p = Done (if \<bar>f_sub fl (?ps ! i) p\<bar> < EPSILON then dist_xs d ! i
    else interpolate fl (dist_mode d) (?ps ! (i - 1)) (dist_xs d ! (i - 1)) (?ps ! i) (dist_xs d ! i) p)"
    using 0 i ne(1,2) assms(4) less_imp_diff_less [of i "length ?ps" 1] unfolding quantile01_def i_def [symmetric]
    by (simp add: index_def Let_def not_le)
  have "f_sub fl p p = 0" "0 < EPSILON" using assms(1) by (simp_all add: f_sub_def EPSILON_def)
  then show ?thesis using i q by (intro that [of i]) auto
qed

text \<open>
  The latencies of a distribution are in order and close enough to each other to be subtracted
  without rounding; then an interpolated latency lies between those of the knots around it.
\<close>

definition latencies_ok :: "f64_ops \<Rightarrow> distribution \<Rightarrow> bool" where
  "latencies_ok fl d \<longleftrightarrow> sorted (dist_xs d) \<and> dist_mode d \<noteq> Midpoint \<and> (\<forall>x\<in>set (dist_xs d). rnd fl x = x) \<and>
     (\<forall>i. Suc i < length (dist_xs d) \<longrightarrow> rnd fl (dist_xs d ! Suc i - dist_xs d ! i) = dist_xs d ! Suc i - dist_xs d ! i)"

lemma interpolation_weight:
  assumes "ieee fl" "rnd fl p0 = p0" "rnd fl p1 = p1" "p0 < p" "p \<le> p'" "p' \<le> p1"
  defines "t \<equiv> \<lambda>p. f_divide fl (f_sub fl p p0) (f_sub fl p1 p0)"
  shows "0 \<le> t p" "t p \<le> t p'" "t p' \<le> 1"
proof -
  note rnd = ieee_rnd [OF assms(1)]
  let ?D = "rnd fl (p1 - p0)"
  have "\<bar>?D - (p1 - p0)\<bar> \<le> \<bar>p1 - p0\<bar> / 8" using rnd(7) assms(2,3) by blast
  then have D: "0 < ?D" using assms(4-6) by (auto simp: abs_if split: if_splits)
  have "0 \<le> rnd fl (p - p0)" "rnd fl (p - p0) \<le> rnd fl (p' - p0)" "rnd fl (p' - p0) \<le> ?D"
    using assms(4-6) by (auto intro!: rnd(1) rnd_between [OF assms(1)])
  then have "0 \<le> rnd fl (p - p0) / ?D" "rnd fl (p - p0) / ?D \<le> rnd fl (p' - p0) / ?D" "rnd fl (p' - p0) / ?D \<le> 1"
    using D by (auto intro: divide_right_mono simp: divide_le_eq_1)
  then show "0 \<le> t p" "t p \<le> t p'" "t p' \<le> 1"
    unfolding t_def f_divide_def f_sub_def by (auto intro!: rnd(1) rnd_between [OF assms(1)])
qed

lemma interpolate_between:
  assumes "ieee fl" "rnd fl p0 = p0" "rnd fl p1 = p1" "p0 < p" "p \<le> p'" "p' \<le> p1"
    "rnd fl x0 = x0" "rnd fl x1 = x1" "rnd fl (x1 - x0) = x1 - x0" "x0 \<le> x1" "md \<noteq> Midpoint"
  shows "x0 \<le> interpolate fl md p0 x0 p1 x1 p" "interpolate fl md p0 x0 p1 x1 p \<le> interpolate fl md p0 x0 p1 x1 p'"
    "interpolate fl md p0 x0 p1 x1 p' \<le> x1"
proof -
  note rnd = ieee_rnd [OF assms(1)]
  define t where "t = (\<lambda>p. f_divide fl (f_sub fl p p0) (f_sub fl p1 p0))"
  have t: "0 \<le> t p" "t p \<le> t p'" "t p' \<le> 1" unfolding t_def by (rule interpolation_weight [OF assms(1-6)])+
  define m where "m = (\<lambda>p. rnd fl (t p * (x1 - x0)))"
  have m: "0 \<le> m p" "m p \<le> m p'" unfolding m_def
    using t assms(10) by (auto intro!: rnd(1) rnd_between [OF assms(1)] mult_right_mono)
  have "rnd fl (t p' * (x1 - x0)) \<le> rnd fl (x1 - x0)" 
    using mult_right_mono [OF t(3), of "x1 - x0"] assms(10) by (intro rnd(1)) simp
  then have m1: "x0 + m p' \<le> x1" unfolding m_def using assms(9) by simp
  have "rnd fl x0 \<le> rnd fl (x0 + m p)" "rnd fl (x0 + m p) \<le> rnd fl (x0 + m p')" "rnd fl (x0 + m p') \<le> rnd fl x1"
    using m m1 by (auto intro: rnd(1))
  then have l: "x0 \<le> rnd fl (x0 + m p)" "rnd fl (x0 + m p) \<le> rnd fl (x0 + m p')" "rnd fl (x0 + m p') \<le> x1" by (simp_all add: assms(7,8))
  have i: "interpolate fl Linear p0 x0 p1 x1 p = rnd fl (x0 + m p)" for p
    by (simp add: interpolate_def f_add_def f_mul_def f_sub_def [of fl x1] assms(9) m_def t_def)
  show "x0 \<le> interpolate fl md p0 x0 p1 x1 p" "interpolate fl md p0 x0 p1 x1 p \<le> interpolate fl md p0 x0 p1 x1 p'"
    "interpolate fl md p0 x0 p1 x1 p' \<le> x1"
    using l assms(10,11) by (cases md; simp add: i; simp add: interpolate_def)+
qed

lemma dist_ok_ends:
  assumes "dist_ok fl d"
  shows "dist_xs d \<noteq> []" "hd (dist_xs d) = dist_xs d ! 0" "last (dist_xs d) = dist_xs d ! (length (dist_ps d) - 1)"
    "hd (dist_ps d) = dist_ps d ! 0"
proof -
  have ne: "dist_ps d \<noteq> []" "length (dist_xs d) = length (dist_ps d)" using assms by (simp_all add: dist_ok_def)
  then show x: "dist_xs d \<noteq> []" by auto
  show "hd (dist_xs d) = dist_xs d ! 0" "last (dist_xs d) = dist_xs d ! (length (dist_ps d) - 1)" "hd (dist_ps d) = dist_ps d ! 0"
    using x ne by (simp_all add: hd_conv_nth last_conv_nth)
qed

lemma quantile_ends:
  assumes "dist_ok fl d"
  shows "p \<le> hd (dist_ps d) \<Longrightarrow> quantile01 fl d p = Done (hd (dist_xs d))"
    "last (dist_ps d) \<le> p \<Longrightarrow> hd (dist_ps d) < p \<Longrightarrow> quantile01 fl d p = Done (last (dist_xs d))"
proof -
  have ne: "dist_ps d \<noteq> []" "length (dist_xs d) = length (dist_ps d)" using assms by (simp_all add: dist_ok_def)
  note x = dist_ok_ends [OF assms]
  show "p \<le> hd (dist_ps d) \<Longrightarrow> quantile01 fl d p = Done (hd (dist_xs d))"
    using ne x by (simp add: quantile01_def index_def)
  show "last (dist_ps d) \<le> p \<Longrightarrow> hd (dist_ps d) < p \<Longrightarrow> quantile01 fl d p = Done (last (dist_xs d))"
    using ne x by (cases "length (dist_ps d) = 1") (auto simp: quantile01_def index_def)
qed

lemma quantile_step:
  assumes "ieee fl" "dist_ok fl d" "latencies_ok fl d" "0 < i" "i < length (dist_ps d)" "dist_ps d ! (i - 1) < p" "p \<le> p'" "p' < dist_ps d ! i"
  defines "v \<equiv> \<lambda>p. if \<bar>f_sub fl (dist_ps d ! i) p\<bar> < EPSILON then dist_xs d ! i
    else interpolate fl (dist_mode d) (dist_ps d ! (i - 1)) (dist_xs d ! (i - 1)) (dist_ps d ! i) (dist_xs d ! i) p"
  shows "dist_xs d ! (i - 1) \<le> v p" "v p \<le> v p'" "v p' \<le> dist_xs d ! i"
proof -
  have len: "length (dist_xs d) = length (dist_ps d)" using assms(2) by (simp add: dist_ok_def)
  have i: "i - 1 < length (dist_ps d)" "Suc (i - 1) = i" using assms(4,5) by auto
  have ps: "rnd fl (dist_ps d ! (i - 1)) = dist_ps d ! (i - 1)" "rnd fl (dist_ps d ! i) = dist_ps d ! i"
    using assms(2,5) i(1) by (simp_all add: dist_ok_def)
  have x01: "dist_xs d ! (i - 1) \<le> dist_xs d ! i" using assms(3,5) len by (simp add: latencies_ok_def sorted_nth_mono)
  have xs: "rnd fl (dist_xs d ! (i - 1)) = dist_xs d ! (i - 1)" "rnd fl (dist_xs d ! i) = dist_xs d ! i"
    "rnd fl (dist_xs d ! i - dist_xs d ! (i - 1)) = dist_xs d ! i - dist_xs d ! (i - 1)" "dist_mode d \<noteq> Midpoint"
    using assms(3,5) i len unfolding latencies_ok_def by (metis nth_mem)+
  note b = interpolate_between [OF assms(1) ps _ _ _ xs(1-3) x01 xs(4)]
  have "0 \<le> f_sub fl (dist_ps d ! i) p'" "f_sub fl (dist_ps d ! i) p' \<le> f_sub fl (dist_ps d ! i) p"
    using assms(7,8) unfolding f_sub_def by (auto intro!: ieee_rnd(1) [OF assms(1)] rnd_between(1) [OF assms(1)])
  then show "dist_xs d ! (i - 1) \<le> v p" "v p \<le> v p'" "v p' \<le> dist_xs d ! i"
    using b [of p p] b [of p p'] assms(6-8) x01 unfolding v_def by auto
qed

lemma quantile_interior_bounds:
  assumes "ieee fl" "dist_ok fl d" "latencies_ok fl d" "hd (dist_ps d) < p" "p \<le> p'" "p' < last (dist_ps d)"
  shows "\<exists>q q'. quantile01 fl d p = Done q \<and> quantile01 fl d p' = Done q' \<and> hd (dist_xs d) \<le> q \<and> q \<le> q' \<and> q' \<le> last (dist_xs d)"
proof -
  let ?ps = "dist_ps d" and ?xs = "dist_xs d"
  have ok: "?ps \<noteq> []" "length ?xs = length ?ps" "sorted ?ps" "sorted ?xs" using assms(2,3) by (simp_all add: dist_ok_def latencies_ok_def)
  have xs: "?xs ! j \<le> ?xs ! k" if "j \<le> k" "k < length ?ps" for j k using that ok(2,4) by (simp add: sorted_nth_mono)
  have ps: "?ps ! j \<le> ?ps ! k" if "j \<le> k" "k < length ?ps" for j k using that ok(3) by (simp add: sorted_nth_mono)
  have ends: "hd ?xs \<le> ?xs ! j" "?xs ! j \<le> last ?xs" if "j < length ?ps" for j
    using that xs [of 0 j] xs [of j "length ?ps - 1"] dist_ok_ends [OF assms(2)] by auto
  obtain i q where i: "0 < i" "i < length ?ps" and q: "quantile01 fl d p = Done q"
    and ip: "?ps ! i = p \<and> q = ?xs ! i \<or> ?ps ! (i - 1) < p \<and> p < ?ps ! i \<and> q = (if \<bar>f_sub fl (?ps ! i) p\<bar> < EPSILON then ?xs ! i
      else interpolate fl (dist_mode d) (?ps ! (i - 1)) (?xs ! (i - 1)) (?ps ! i) (?xs ! i) p)"
    by (rule quantile_interior [OF assms(1,2,4)]) (use assms(5,6) in auto)
  obtain i' q' where i': "0 < i'" "i' < length ?ps" and q': "quantile01 fl d p' = Done q'"
    and ip': "?ps ! i' = p' \<and> q' = ?xs ! i' \<or> ?ps ! (i' - 1) < p' \<and> p' < ?ps ! i' \<and> q' = (if \<bar>f_sub fl (?ps ! i') p'\<bar> < EPSILON then ?xs ! i'
      else interpolate fl (dist_mode d) (?ps ! (i' - 1)) (?xs ! (i' - 1)) (?ps ! i') (?xs ! i') p')"
    by (rule quantile_interior [OF assms(1,2) _ assms(6)]) (use assms(4,5) in auto)
  have qb: "?xs ! (i - 1) \<le> q" "q \<le> ?xs ! i"
    using ip quantile_step [OF assms(1-3) i, of p p] xs [of "i - 1" i] i by auto
  have qb': "?xs ! (i' - 1) \<le> q'" "q' \<le> ?xs ! i'"
    using ip' quantile_step [OF assms(1-3) i', of p' p'] xs [of "i' - 1" i'] i' by auto
  have "q \<le> q'"
  proof (cases "p = p'")
    case True
    then show ?thesis using q q' by simp
  next
    case False
    then have lt: "p < p'" using assms(5) by simp
    consider "i < i'" | "i = i'" | "i' < i" by linarith
    then show ?thesis
    proof cases
      case 1
      then have "?xs ! i \<le> ?xs ! (i' - 1)" using xs i' by simp
      then show ?thesis using qb(2) qb'(1) by linarith
    next
      case 2
      show ?thesis
      proof (cases "?ps ! i = p'")
        case True
        then have "q' = ?xs ! i" using ip' 2 by auto
        then show ?thesis using qb(2) by simp
      next
        case neq: False
        then have "p' < ?ps ! i" using ip' 2 by auto
        then have "p < ?ps ! i" using lt by simp
        then show ?thesis using quantile_step(2) [OF assms(1-3) i, of p p'] ip ip' 2 lt neq by auto
      qed
    next
      case 3
      then have "?ps ! i' \<le> ?ps ! (i - 1)" "?ps ! i' \<le> ?ps ! i" using ps i by simp_all
      then show ?thesis using ip ip' lt by auto
    qed
  qed
  then show ?thesis using q q' qb qb' ends(1) [of "i - 1"] ends(2) [of i'] i i' by (meson less_imp_diff_less order_trans)
qed

theorem quantile_monotone:
  assumes "ieee fl" "dist_ok fl d" "latencies_ok fl d" "p \<le> p'"
  shows "\<exists>q q'. quantile01 fl d p = Done q \<and> quantile01 fl d p' = Done q' \<and> hd (dist_xs d) \<le> q \<and> q \<le> q' \<and> q' \<le> last (dist_xs d)"
proof -
  let ?ps = "dist_ps d" and ?xs = "dist_xs d"
  have "?ps \<noteq> []" "length ?xs = length ?ps" "sorted ?xs" using assms(2,3) by (simp_all add: dist_ok_def latencies_ok_def)
  then have hl: "hd ?xs \<le> last ?xs" by (cases ?xs) auto
  have within: "\<exists>q. quantile01 fl d p = Done q \<and> hd ?xs \<le> q \<and> q \<le> last ?xs" for p
  proof (cases "hd ?ps < p \<and> p < last ?ps")
    case True
    then show ?thesis using quantile_interior_bounds [OF assms(1-3), of p p] by auto
  next
    case False
    then consider "p \<le> hd ?ps" | "last ?ps \<le> p" "hd ?ps < p" by fastforce
    then show ?thesis by cases (use quantile_ends [OF assms(2)] hl in auto)
  qed
  consider "p \<le> hd ?ps" | "last ?ps \<le> p'" "hd ?ps < p'" | "hd ?ps < p" "p' < last ?ps" using assms(4) by fastforce
  then show ?thesis
  proof cases
    case 1
    then show ?thesis using within [of p'] quantile_ends(1) [OF assms(2) 1] hl by auto
  next
    case 2
    then show ?thesis using within [of p] quantile_ends(2) [OF assms(2) 2] hl by auto
  next
    case 3
    then show ?thesis using quantile_interior_bounds [OF assms(1-3)] assms(4) by blast
  qed
qed

end
