(* ===== verification/Trace_Sequence.thy ===== *)
theory Trace_Sequence
  imports Trace_Config "HOL-Library.List_Lexorder" "HOL-Library.Char_ord"
begin

text \<open>
  The maps that the trace benchmark builds from the files of its call graphs
  (\<open>apps/tracebench/trace-config/src/svc\<close>): frequencies of methods (\<open>method_freq.rs\<close>), latencies of
  methods (\<open>method_latency.rs\<close>), call sequences (\<open>call_sequence.rs\<close>), and the configuration that
  holds them all (\<open>mod.rs\<close>). What the JSON reader makes of a file is an argument.
\<close>

fun try_fold :: "('a \<Rightarrow> 's \<Rightarrow> 'e + 's) \<Rightarrow> 'a list \<Rightarrow> 's \<Rightarrow> 'e + 's" where
  "try_fold f [] s = Inr s"
| "try_fold f (x # xs) s = (case f x s of Inl e \<Rightarrow> Inl e | Inr s1 \<Rightarrow> try_fold f xs s1)"

lemma try_fold_inv:
  assumes "try_fold f xs s = Inr s'" "P s" "\<And>x s s'. x \<in> set xs \<Longrightarrow> P s \<Longrightarrow> f x s = Inr s' \<Longrightarrow> P s'"
  shows "P s'"
  using assms
proof (induction xs arbitrary: s)
  case (Cons x xs)
  then obtain s1 where s1: "f x s = Inr s1" "try_fold f xs s1 = Inr s'" by (auto split: sum.splits)
  have "P s1" using Cons.prems(2,3) s1(1) by (meson list.set_intros(1))
  then show ?case using Cons.IH [OF s1(2)] Cons.prems(3) by (meson list.set_intros(2))
qed simp

lemma try_fold_total:
  assumes "P s" "\<And>x s. x \<in> set xs \<Longrightarrow> P s \<Longrightarrow> \<exists>s'. f x s = Inr s' \<and> P s'"
  shows "\<exists>s'. try_fold f xs s = Inr s' \<and> P s'"
  using assms
proof (induction xs arbitrary: s)
  case (Cons x xs)
  obtain s1 where s1: "f x s = Inr s1" "P s1" using Cons.prems by (meson list.set_intros(1))
  have "\<exists>s'. try_fold f xs s1 = Inr s' \<and> P s'" by (rule Cons.IH) (use Cons.prems s1 in auto)
  then show ?case using s1 by simp
qed simp

section \<open>Frequencies\<close>

type_synonym raw_frequencies = "(string \<times> (string \<times> u64) list) list"
type_synonym method_weights = "(service_name \<times> (string \<times> u64) list) list"
type_synonym samplers = "(service_name \<times> weighted_sampler) list"

record method_freq_map =
  freq_by_graph :: "(graph_id \<times> samplers) list"
  aggregated :: samplers

record sampled_method =
  sampled_name :: string
  sampled_graph :: "graph_id option"

datatype freq_error = InGraph service_name graph_id sampler_error | InAggregate service_name sampler_error | BadFrequencies string

definition aggregate :: "service_name \<Rightarrow> string \<Rightarrow> u64 \<Rightarrow> method_weights \<Rightarrow> method_weights" where
  "aggregate svc m w agg =
     (let ms = unwrap_or (map_of agg svc) [] in
      AList.update svc (AList.update m (case map_of ms m of Some existing \<Rightarrow> saturating_add existing w | None \<Rightarrow> w) ms) agg)"

fun count_methods ::
    "service_name \<Rightarrow> (string \<times> u64) list \<Rightarrow> (string \<times> u64) list \<times> method_weights \<Rightarrow> (string \<times> u64) list \<times> method_weights" where
  "count_methods svc [] s = s"
| "count_methods svc ((m, w) # ms) (freq_map, agg) =
     (if w = 0 then count_methods svc ms (freq_map, agg)
      else count_methods svc ms (AList.update m w freq_map, aggregate svc m w agg))"

definition add_service ::
    "graph_id \<Rightarrow> string \<times> (string \<times> u64) list \<Rightarrow> samplers \<times> method_weights \<Rightarrow> freq_error + samplers \<times> method_weights" where
  "add_service g sm s =
     (let svc = service_from_string (fst sm) in
      case count_methods svc (snd sm) ([], snd s) of (freq_map, agg) \<Rightarrow>
        if freq_map = [] then Inr (fst s, agg)
        else (case from_invoke_freq_map freq_map of
                Inl e \<Rightarrow> Inl (InGraph svc g e)
              | Inr sampler \<Rightarrow> Inr (AList.update svc sampler (fst s), agg)))"

definition add_graph ::
    "string \<times> raw_frequencies \<Rightarrow> (graph_id \<times> samplers) list \<times> method_weights \<Rightarrow> freq_error + (graph_id \<times> samplers) list \<times> method_weights" where
  "add_graph gs s =
     (let g = graph_from_string (fst gs) in
      case try_fold (add_service g) (snd gs) ([], snd s) of
        Inl e \<Rightarrow> Inl e
      | Inr (service_map, agg) \<Rightarrow> Inr (if service_map = [] then fst s else AList.update g service_map (fst s), agg))"

definition add_aggregate :: "service_name \<times> (string \<times> u64) list \<Rightarrow> samplers \<Rightarrow> freq_error + samplers" where
  "add_aggregate sm acc =
     (case from_invoke_freq_map (snd sm) of
        Inl e \<Rightarrow> Inl (InAggregate (fst sm) e)
      | Inr sampler \<Rightarrow> Inr (AList.update (fst sm) sampler acc))"

definition from_graph_map :: "(string \<times> raw_frequencies) list \<Rightarrow> freq_error + method_freq_map" where
  "from_graph_map raw =
     (case try_fold add_graph raw ([], []) of
        Inl e \<Rightarrow> Inl e
      | Inr (by_graph, agg) \<Rightarrow>
          (case try_fold add_aggregate agg [] of
             Inl e \<Rightarrow> Inl e
           | Inr acc \<Rightarrow> Inr \<lparr>freq_by_graph = by_graph, aggregated = acc\<rparr>))"

text \<open>\<open>from_file_path\<close>: the graph is named after the directory of the file.\<close>

definition freq_from_file :: "string option \<Rightarrow> string + raw_frequencies \<Rightarrow> freq_error + method_freq_map" where
  "freq_from_file dir content =
     (case content of
        Inl e \<Rightarrow> Inl (BadFrequencies e)
      | Inr raw \<Rightarrow> from_graph_map [(graph_str (graph_from_string (unwrap_or dir ''default_graph'')), raw)])"

definition get_service :: "method_freq_map \<Rightarrow> service_name \<Rightarrow> weighted_sampler option" where
  "get_service fm svc = map_of (aggregated fm) svc"

definition contains_service_in_graph :: "method_freq_map \<Rightarrow> graph_id \<Rightarrow> service_name \<Rightarrow> bool" where
  "contains_service_in_graph fm g svc \<longleftrightarrow> (case map_of (freq_by_graph fm) g of None \<Rightarrow> False | Some svcs \<Rightarrow> map_of svcs svc \<noteq> None)"

definition sampler_for :: "method_freq_map \<Rightarrow> service_name \<Rightarrow> graph_id \<Rightarrow> (weighted_sampler \<times> graph_id option) option" where
  "sampler_for fm svc hint =
     (case Option.bind (map_of (freq_by_graph fm) hint) (\<lambda>svcs. map_of svcs svc) of
        Some s \<Rightarrow> Some (s, Some hint)
      | None \<Rightarrow>
          (case map_of (aggregated fm) svc of
             Some s \<Rightarrow> Some (s, None)
           | None \<Rightarrow> (case List.find (\<lambda>(_, svcs). map_of svcs svc \<noteq> None) (freq_by_graph fm) of
                        None \<Rightarrow> None
                      | Some (_, svcs) \<Rightarrow> map_option (\<lambda>s. (s, None)) (map_of svcs svc))))"

definition sample_method ::
    "(u64 \<Rightarrow> 'w \<Rightarrow> u64 \<times> 'w) \<Rightarrow> method_freq_map \<Rightarrow> service_name \<Rightarrow> graph_id \<Rightarrow> 'w \<Rightarrow> (sampled_method option \<times> 'w) exec" where
  "sample_method random_range fm svc hint w =
     (case sampler_for fm svc hint of
        None \<Rightarrow> Done (None, w)
      | Some (s, g) \<Rightarrow> map_exec (\<lambda>(m, w1). (Some \<lparr>sampled_name = m, sampled_graph = g\<rparr>, w1)) (sample_weighted random_range s w))"

definition freq_merge :: "method_freq_map \<Rightarrow> method_freq_map \<Rightarrow> method_freq_map" where
  "freq_merge fm other =
     \<lparr>freq_by_graph = fold (\<lambda>(g, svcs). AList.update g svcs) (freq_by_graph other) (freq_by_graph fm),
      aggregated = fold (\<lambda>(svc, s) acc. if map_of acc svc = None then AList.update svc s acc else acc) (aggregated other) (aggregated fm)\<rparr>"

fun freq_merge_maps :: "method_freq_map list \<Rightarrow> method_freq_map" where
  "freq_merge_maps [] = \<lparr>freq_by_graph = [], aggregated = []\<rparr>"
| "freq_merge_maps (m # maps) = m"

text \<open>
  Building the map never fails, as zero weights are dropped before a sampler is built; and a
  service that has a sampler in some graph has an aggregated one, so that the last resort of
  sampling, a search through all graphs, is never taken.
\<close>

lemma push_weights_total: "0 < running \<Longrightarrow> push_weights m keys cum running = (ks, cs, t) \<Longrightarrow> 0 < t"
proof (induction m keys cum running rule: push_weights.induct)
  case (2 k f m keys cum running)
  have "0 < saturating_add running f" using saturating_add_ge [of running f] 2(2) by (metis order_less_le_trans)
  then show ?case using 2 by (simp add: Let_def)
qed simp

lemma weighted_from_map_total:
  assumes "m \<noteq> []" "\<forall>(_, w)\<in>set m. 0 < w"
  shows "\<exists>s. weighted_from_map m = Inr s"
proof -
  obtain k f m' where m: "m = (k, f) # m'" using assms(1) by (cases m) auto
  obtain ks cs t where p: "push_weights m [] [] 0 = (ks, cs, t)" by (cases "push_weights m [] [] 0") auto
  have "0 < saturating_add 0 f" using assms(2) by (simp add: m saturating_add_def)
  then have "0 < t" using p push_weights_total [of "saturating_add 0 f"] unfolding m by (simp add: Let_def)
  then show ?thesis using assms(1) p by (simp add: weighted_from_map_def)
qed

lemma from_invoke_freq_map_total:
  assumes "m \<noteq> []" "\<forall>(_, w)\<in>set m. 0 < w"
  shows "\<exists>s. from_invoke_freq_map m = Inr s"
proof -
  have "filter (\<lambda>(_, w). 0 < w) m = m" using assms(2) by (auto intro: filter_True)
  then show ?thesis using weighted_from_map_total [OF assms] by (simp add: from_invoke_freq_map_def)
qed

definition weights_ok :: "(string \<times> u64) list \<Rightarrow> bool" where
  "weights_ok m \<longleftrightarrow> m \<noteq> [] \<and> (\<forall>(_, w)\<in>set m. 0 < w)"

definition aggregates_ok :: "method_weights \<Rightarrow> bool" where
  "aggregates_ok agg \<longleftrightarrow> (\<forall>(_, ms)\<in>set agg. weights_ok ms)"

lemma update_weights_ok: "(\<forall>(_, w)\<in>set m. 0 < w) \<Longrightarrow> 0 < v \<Longrightarrow> weights_ok (AList.update k v m)"
  by (auto simp: weights_ok_def dest!: set_update)

lemma aggregate_ok: "aggregates_ok agg \<Longrightarrow> 0 < w \<Longrightarrow> aggregates_ok (aggregate svc m w agg)"
proof -
  assume agg: "aggregates_ok agg" and w: "0 < w"
  let ?ms = "unwrap_or (map_of agg svc) []"
  have ms: "\<forall>(_, w)\<in>set ?ms. 0 < w"
  proof (cases "map_of agg svc")
    case (Some ms)
    from map_of_SomeD [OF this] have "weights_ok ms" using agg by (auto simp: aggregates_ok_def)
    then show ?thesis using Some by (simp add: weights_ok_def unwrap_or_def)
  qed (simp add: unwrap_or_def)
  have "0 < saturating_add e w" for e using w saturating_add_ge [of e w]
    by (metis saturating_add_def add_0 order_less_le_trans word_gt_0 word_less_1 word_not_simps(1))
  then have "0 < (case map_of ?ms m of Some e \<Rightarrow> saturating_add e w | None \<Rightarrow> w)" using w by (auto split: option.splits)
  from update_weights_ok [OF ms this] show ?thesis using agg by (auto simp: aggregate_def Let_def aggregates_ok_def dest!: set_update)
qed

lemma aggregate_keys: "fst ` set (aggregate svc m w agg) = insert svc (fst ` set agg)"
  by (simp add: aggregate_def Let_def dom_update)

lemma count_methods_inv:
  assumes "count_methods svc ms (fm, agg) = (fm', agg')" "aggregates_ok agg" "\<forall>(_, w)\<in>set fm. 0 < w" "fm \<noteq> [] \<longrightarrow> svc \<in> fst ` set agg"
  shows "aggregates_ok agg' \<and> (\<forall>(_, w)\<in>set fm'. 0 < w) \<and> (fm' \<noteq> [] \<longrightarrow> svc \<in> fst ` set agg') \<and> fst ` set agg \<subseteq> fst ` set agg'"
  using assms
proof (induction svc ms "(fm, agg)" arbitrary: fm agg rule: count_methods.induct)
  case (2 svc m w ms fm agg)
  show ?case
  proof (cases "w = 0")
    case False
    then have "0 < w" by (simp add: word_gt_0)
    then have "aggregates_ok (aggregate svc m w agg)" "\<forall>(_, v)\<in>set (AList.update m w fm). 0 < v"
      using aggregate_ok [OF 2(4)] 2(5) update_weights_ok [of fm w m] by (simp_all add: weights_ok_def)
    then show ?thesis using 2(2) [OF False] 2(3) False by (auto simp: aggregate_keys)
  qed (use 2 in auto)
qed simp

definition graphs_aggregated :: "(graph_id \<times> samplers) list \<Rightarrow> method_weights \<Rightarrow> bool" where
  "graphs_aggregated by_graph agg \<longleftrightarrow> aggregates_ok agg \<and> (\<forall>(_, svcs)\<in>set by_graph. fst ` set svcs \<subseteq> fst ` set agg)"

lemma add_service_total:
  assumes "aggregates_ok (snd s)" "fst ` set (fst s) \<subseteq> fst ` set (snd s)"
  shows "\<exists>s'. add_service g sm s = Inr s' \<and> aggregates_ok (snd s') \<and> fst ` set (fst s') \<subseteq> fst ` set (snd s') \<and> fst ` set (snd s) \<subseteq> fst ` set (snd s')"
proof -
  let ?svc = "service_from_string (fst sm)"
  obtain fm agg where c: "count_methods ?svc (snd sm) ([], snd s) = (fm, agg)" by force
  have inv: "aggregates_ok agg" "\<forall>(_, w)\<in>set fm. 0 < w" "fm \<noteq> [] \<longrightarrow> ?svc \<in> fst ` set agg" "fst ` set (snd s) \<subseteq> fst ` set agg"
    using count_methods_inv [OF c assms(1)] by simp_all
  show ?thesis
  proof (cases "fm = []")
    case True
    then show ?thesis using c inv assms(2) by (auto simp: add_service_def Let_def)
  next
    case False
    then obtain smp where "from_invoke_freq_map fm = Inr smp" using from_invoke_freq_map_total inv(2) by blast
    then show ?thesis using c inv assms(2) False by (auto simp: add_service_def Let_def dom_update)
  qed
qed

lemma add_graph_total:
  assumes "graphs_aggregated (fst s) (snd s)"
  shows "\<exists>s'. add_graph gs s = Inr s' \<and> graphs_aggregated (fst s') (snd s')"
proof -
  let ?g = "graph_from_string (fst gs)"
  let ?P = "\<lambda>t :: samplers \<times> method_weights. aggregates_ok (snd t) \<and> fst ` set (fst t) \<subseteq> fst ` set (snd t) \<and> fst ` set (snd s) \<subseteq> fst ` set (snd t)"
  have start: "?P ([], snd s)" using assms by (simp add: graphs_aggregated_def)
  have "\<exists>t. try_fold (add_service ?g) (snd gs) ([], snd s) = Inr t \<and> ?P t"
  proof (rule try_fold_total [where P = ?P, OF start])
    fix x t
    assume t: "?P t"
    obtain t' where "add_service ?g x t = Inr t'" "aggregates_ok (snd t')" "fst ` set (fst t') \<subseteq> fst ` set (snd t')" "fst ` set (snd t) \<subseteq> fst ` set (snd t')"
      using add_service_total [of t ?g x] t by (elim conjE) blast
    then show "\<exists>t'. add_service ?g x t = Inr t' \<and> ?P t'" using t by (intro exI [of _ t']) (simp, meson subset_trans)
  qed
  then obtain sm agg where t: "try_fold (add_service ?g) (snd gs) ([], snd s) = Inr (sm, agg)" "?P (sm, agg)" by force
  have "graphs_aggregated (if sm = [] then fst s else AList.update ?g sm (fst s)) agg"
  proof -
    have "fst ` set svcs \<subseteq> fst ` set agg" if "(g, svcs) \<in> set (fst s)" for g svcs
    proof -
      have all: "\<forall>(_, svcs)\<in>set (fst s). fst ` set svcs \<subseteq> fst ` set (snd s)" using assms by (simp add: graphs_aggregated_def)
      have "fst ` set svcs \<subseteq> fst ` set (snd s)" using bspec [OF all that] by simp
      moreover have "fst ` set (snd s) \<subseteq> fst ` set agg" using t(2) by simp
      ultimately show ?thesis by (rule subset_trans)
    qed
    note old = this
    have new: "fst ` set svcs \<subseteq> fst ` set agg" if "(g, svcs) \<in> set (if sm = [] then fst s else AList.update ?g sm (fst s))" for g svcs
    proof -
      have "(g, svcs) \<in> set (fst s) \<or> svcs = sm" using that set_update [of g svcs ?g sm "fst s"] by (auto split: if_splits)
      then show ?thesis
      proof
        assume "svcs = sm"
        then show ?thesis using t(2) by simp
      qed (rule old)
    qed
    show ?thesis unfolding graphs_aggregated_def
    proof (intro conjI ballI)
      fix x
      assume "x \<in> set (if sm = [] then fst s else AList.update ?g sm (fst s))"
      then show "case x of (_, svcs) \<Rightarrow> fst ` set svcs \<subseteq> fst ` set agg" using new [of "fst x" "snd x"] by (simp add: case_prod_beta)
    qed (use t(2) in simp)
  qed
  then show ?thesis using t(1) by (simp add: add_graph_def Let_def)
qed

lemma from_graph_map_total:
  "\<exists>fm. from_graph_map raw = Inr fm \<and> (\<forall>(_, svcs)\<in>set (freq_by_graph fm). fst ` set svcs \<subseteq> fst ` set (aggregated fm))"
proof -
  let ?P = "\<lambda>s :: (graph_id \<times> samplers) list \<times> method_weights. graphs_aggregated (fst s) (snd s)"
  have start: "?P ([], [])" by (simp add: graphs_aggregated_def aggregates_ok_def)
  have "\<exists>s'. try_fold add_graph raw ([], []) = Inr s' \<and> ?P s'"
    by (rule try_fold_total [where P = ?P, OF start]) (rule add_graph_total)
  then obtain by_graph agg where a: "try_fold add_graph raw ([], []) = Inr (by_graph, agg)" "graphs_aggregated by_graph agg" by force
  have "\<exists>acc. try_fold add_aggregate ms acc0 = Inr acc \<and> fst ` set acc = fst ` set acc0 \<union> fst ` set ms"
    if "aggregates_ok ms" for ms acc0
    using that
  proof (induction ms arbitrary: acc0)
    case (Cons sm ms)
    then have "weights_ok (snd sm)" by (cases sm) (simp add: aggregates_ok_def)
    then obtain smp where smp: "from_invoke_freq_map (snd sm) = Inr smp"
      using from_invoke_freq_map_total unfolding weights_ok_def by blast
    have "aggregates_ok ms" using Cons.prems by (simp add: aggregates_ok_def)
    from Cons.IH [OF this, of "AList.update (fst sm) smp acc0"] show ?case using smp by (auto simp: add_aggregate_def dom_update)
  qed simp
  from this [of agg "[]"] obtain acc where "try_fold add_aggregate agg [] = Inr acc" "fst ` set acc = fst ` set agg"
    using a(2) unfolding graphs_aggregated_def by auto
  then show ?thesis using a by (auto simp: from_graph_map_def graphs_aggregated_def)
qed

lemma sampler_for_no_scan:
  assumes "from_graph_map raw = Inr fm"
  shows "sampler_for fm svc hint =
    (case Option.bind (map_of (freq_by_graph fm) hint) (\<lambda>svcs. map_of svcs svc) of
       Some s \<Rightarrow> Some (s, Some hint)
     | None \<Rightarrow> map_option (\<lambda>s. (s, None)) (map_of (aggregated fm) svc))"
proof -
  have sub: "\<forall>(_, svcs)\<in>set (freq_by_graph fm). fst ` set svcs \<subseteq> fst ` set (aggregated fm)" using from_graph_map_total [of raw] assms by auto
  have "List.find (\<lambda>(_, svcs). map_of svcs svc \<noteq> None) (freq_by_graph fm) = None" if "map_of (aggregated fm) svc = None"
    unfolding find_None_iff using sub that by (auto simp: map_of_eq_None_iff) (force dest: map_of_SomeD)
  then show ?thesis by (simp add: sampler_for_def split: option.splits)
qed

section \<open>Latencies\<close>

type_synonym raw_latencies = "(string \<times> (string \<times> (string \<times> f64) list) list) list"
type_synonym latency_dist_map = "(graph_id \<times> (string \<times> distribution) list) list"

datatype latency_error = InMethod string dist_map_error | NoSuchService service_name | BadLatencies string

definition add_method_dist ::
    "f64_ops \<Rightarrow> (string \<Rightarrow> f64 option) \<Rightarrow> string \<times> (string \<times> f64) list \<Rightarrow> (string \<times> distribution) list \<Rightarrow> latency_error + (string \<times> distribution) list" where
  "add_method_dist fl parse_f64 mp acc =
     (case from_percentile_map fl parse_f64 (snd mp) of
        Inl e \<Rightarrow> Inl (InMethod (fst mp) e)
      | Inr d \<Rightarrow> Inr (AList.update (fst mp) d acc))"

definition add_latencies ::
    "f64_ops \<Rightarrow> (string \<Rightarrow> f64 option) \<Rightarrow> service_name \<Rightarrow> graph_id \<Rightarrow> string \<times> (string \<times> (string \<times> f64) list) list \<Rightarrow>
      latency_dist_map \<Rightarrow> latency_error + latency_dist_map" where
  "add_latencies fl parse_f64 svc g sm acc =
     (if service_from_string (fst sm) \<noteq> svc then Inr acc
      else (case try_fold (add_method_dist fl parse_f64) (snd sm) [] of
              Inl e \<Rightarrow> Inl e
            | Inr method_map \<Rightarrow> Inr (if method_map = [] then acc else AList.update g method_map acc)))"

definition from_graph_shape ::
    "f64_ops \<Rightarrow> (string \<Rightarrow> f64 option) \<Rightarrow> (string \<times> raw_latencies) list \<Rightarrow> service_name \<Rightarrow> latency_error + latency_dist_map" where
  "from_graph_shape fl parse_f64 raw svc =
     (case try_fold (\<lambda>(g, svcs). try_fold (add_latencies fl parse_f64 svc (graph_from_string g)) svcs) (sort_key fst raw) [] of
        Inl e \<Rightarrow> Inl e
      | Inr by_graph \<Rightarrow> if by_graph = [] then Inl (NoSuchService svc) else Inr by_graph)"

definition latency_from_file ::
    "f64_ops \<Rightarrow> (string \<Rightarrow> f64 option) \<Rightarrow> string option \<Rightarrow> string + raw_latencies \<Rightarrow> service_name \<Rightarrow> latency_error + latency_dist_map" where
  "latency_from_file fl parse_f64 dir content svc =
     (case content of
        Inl e \<Rightarrow> Inl (BadLatencies e)
      | Inr raw \<Rightarrow> from_graph_shape fl parse_f64 [(graph_str (graph_from_string (unwrap_or dir ''default_graph'')), raw)] svc)"

definition get_method_dist :: "latency_dist_map \<Rightarrow> string \<Rightarrow> graph_id \<Rightarrow> distribution option" where
  "get_method_dist lm m g = Option.bind (map_of lm g) (\<lambda>methods. map_of methods m)"

definition latency_merge :: "latency_dist_map \<Rightarrow> latency_dist_map \<Rightarrow> latency_dist_map" where
  "latency_merge lm other = fold (\<lambda>(g, methods). AList.update g methods) other lm"

definition latency_merge_maps :: "latency_dist_map list \<Rightarrow> latency_dist_map" where
  "latency_merge_maps maps = fold (\<lambda>other lm. latency_merge lm other) maps []"

text \<open>Every distribution that is looked up satisfies its invariant; of several maps, the last that has the graph decides.\<close>

definition latencies_built :: "f64_ops \<Rightarrow> latency_dist_map \<Rightarrow> bool" where
  "latencies_built fl lm \<longleftrightarrow> (\<forall>(_, methods)\<in>set lm. \<forall>(_, d)\<in>set methods. dist_ok fl d)"

lemma add_latencies_built:
  assumes "ieee fl" "add_latencies fl parse svc g sm acc = Inr acc'" "latencies_built fl acc"
  shows "latencies_built fl acc'"
proof (cases "service_from_string (fst sm) \<noteq> svc")
  case False
  then obtain mm where mm: "try_fold (add_method_dist fl parse) (snd sm) [] = Inr mm" "acc' = (if mm = [] then acc else AList.update g mm acc)"
    using assms(2) by (auto simp: add_latencies_def split: sum.splits)
  let ?P = "\<lambda>ms :: (string \<times> distribution) list. \<forall>(_, d)\<in>set ms. dist_ok fl d"
  have step: "?P ms'" if "?P ms" "add_method_dist fl parse mp ms = Inr ms'" for mp ms ms'
    using that from_percentile_map_ok [OF assms(1)] by (auto simp: add_method_dist_def split: sum.splits dest!: set_update)
  have "?P mm" by (rule try_fold_inv [where P = ?P, OF mm(1)]) (simp, rule step)
  then show ?thesis using mm(2) assms(3) by (auto simp: latencies_built_def dest!: set_update)
qed (use assms in \<open>auto simp: add_latencies_def\<close>)

lemma latency_from_file_built:
  assumes "ieee fl" "latency_from_file fl parse dir content svc = Inr lm"
  shows "latencies_built fl lm"
proof -
  obtain raw where "from_graph_shape fl parse [(graph_str (graph_from_string (unwrap_or dir ''default_graph'')), raw)] svc = Inr lm"
    using assms(2) by (auto simp: latency_from_file_def split: sum.splits)
  then obtain g where "try_fold (add_latencies fl parse svc g) raw [] = Inr lm"
    by (auto simp: from_graph_shape_def split: sum.splits if_splits)
  then show ?thesis
    by (rule try_fold_inv) (simp add: latencies_built_def, rule add_latencies_built [OF assms(1)])
qed

lemma map_of_merge: "distinct (map fst other) \<Longrightarrow> map_of (latency_merge lm other) g = (case map_of other g of None \<Rightarrow> map_of lm g | Some ms \<Rightarrow> Some ms)"
proof (induction other arbitrary: lm)
  case (Cons gm other)
  obtain g' ms where gm: "gm = (g', ms)" by force
  have "map_of other g' = None" using Cons.prems by (auto simp: gm map_of_eq_None_iff)
  with Cons show ?case by (auto simp: gm latency_merge_def update_conv' split: option.splits)
qed (simp add: latency_merge_def)

lemma last_map_decides:
  assumes "\<forall>lm\<in>set maps. distinct (map fst lm)"
  shows "get_method_dist (latency_merge_maps maps) m g =
    (case List.find (\<lambda>lm. map_of lm g \<noteq> None) (rev maps) of None \<Rightarrow> None | Some lm \<Rightarrow> get_method_dist lm m g)"
proof -
  have "map_of (latency_merge_maps maps) g = (case List.find (\<lambda>lm. map_of lm g \<noteq> None) (rev maps) of None \<Rightarrow> None | Some lm \<Rightarrow> map_of lm g)"
    using assms
  proof (induction maps rule: rev_induct)
    case (snoc lm maps)
    then show ?case by (auto simp: latency_merge_maps_def map_of_merge split: option.splits)
  qed (simp add: latency_merge_maps_def)
  then show ?thesis by (simp add: get_method_dist_def split: option.splits)
qed

section \<open>Call sequences\<close>

record variant_choice =
  vc_variant :: string
  vc_probability :: f64

record call_entry =
  ce_service :: service_name
  ce_method :: string
  ce_variants :: "variant_choice list"
  ce_probability :: f64

record call_variant =
  cv_id :: string
  cv_probability :: f64
  cv_sequence :: "call_entry list list"

type_synonym method_calls = "(string \<times> call_variant) list"
type_synonym call_sequence = "(string \<times> method_calls) list"

record raw_call =
  rc_target :: string
  rc_variants :: "(string \<times> f64) list"

record raw_variant =
  rv_probability :: f64
  rv_sequence :: "raw_call list list"

type_synonym raw_method = "(string \<times> raw_variant) list"
type_synonym legacy_graph = "(string \<times> (string \<times> f64) list list) list"

record raw_graph =
  rg_format :: "string option"
  rg_methods :: "(string \<times> raw_method) list"

record 'v sequence_json =
  sj_get :: "'v \<Rightarrow> string \<Rightarrow> 'v option"
  sj_as_str :: "'v \<Rightarrow> string option"
  sj_raw_graph :: "'v \<Rightarrow> string + raw_graph"
  sj_legacy :: "'v \<Rightarrow> string + legacy_graph"
  sj_keys :: "'v \<Rightarrow> string list option"

datatype sequence_error = InvalidEntry string | ReadFailed string | SequenceJson string | GraphMissing graph_id | NotConditional graph_id | NotAnObject

definition get_variant :: "method_calls \<Rightarrow> string \<Rightarrow> call_variant option" where
  "get_variant = map_of"

definition entry_try_from :: "string \<Rightarrow> sequence_error + call_entry" where
  "entry_try_from key =
     (case split_colons key of
        [svc, m] \<Rightarrow> Inr \<lparr>ce_service = service_from_string svc, ce_method = m, ce_variants = [], ce_probability = 1\<rparr>
      | _ \<Rightarrow> Inl (InvalidEntry key))"

definition parse_variant_choices :: "(string \<times> f64) list \<Rightarrow> variant_choice list" where
  "parse_variant_choices raw = sort_key vc_variant (map (\<lambda>(v, p). \<lparr>vc_variant = v, vc_probability = clamp01 p\<rparr>) raw)"

definition parse_call_sequence_entry :: "raw_call \<Rightarrow> sequence_error + call_entry" where
  "parse_call_sequence_entry c =
     (case entry_try_from (rc_target c) of
        Inl e \<Rightarrow> Inl e
      | Inr entry \<Rightarrow> Inr (entry\<lparr>ce_variants := parse_variant_choices (rc_variants c)\<rparr>))"

definition parse_trace_sequence :: "raw_call list list \<Rightarrow> sequence_error + call_entry list list" where
  "parse_trace_sequence = try_map (try_map parse_call_sequence_entry)"

definition parse_method_call_sequence :: "raw_method \<Rightarrow> sequence_error + method_calls" where
  "parse_method_call_sequence raw =
     try_fold (\<lambda>(v, rv) acc.
       case parse_trace_sequence (rv_sequence rv) of
         Inl e \<Rightarrow> Inl e
       | Inr sq \<Rightarrow> Inr (AList.update v \<lparr>cv_id = v, cv_probability = clamp01 (rv_probability rv), cv_sequence = sq\<rparr> acc)) raw []"

definition normalize_method_key :: "string \<Rightarrow> string" where
  "normalize_method_key key =
     (case split_colons key of
        [svc, m] \<Rightarrow> method_string (as_str (service_from_string svc)) m
      | _ \<Rightarrow> key)"

text \<open>The legacy format: each service has one sequence, for every method that some step calls on it.\<close>

definition note_method :: "call_entry \<Rightarrow> (service_name \<times> string list) list \<Rightarrow> (service_name \<times> string list) list" where
  "note_method entry acc =
     (let ms = unwrap_or (map_of acc (ce_service entry)) [] in
      AList.update (ce_service entry) (if ce_method entry \<in> set ms then ms else ms @ [ce_method entry]) acc)"

definition methods_by_service :: "legacy_graph \<Rightarrow> sequence_error + (service_name \<times> string list) list" where
  "methods_by_service raw =
     try_fold (\<lambda>(target, _) acc. case entry_try_from target of Inl e \<Rightarrow> Inl e | Inr entry \<Rightarrow> Inr (note_method entry acc))
       (concat (concat (map snd raw))) []"

definition legacy_entry :: "string \<times> f64 \<Rightarrow> sequence_error + call_entry" where
  "legacy_entry tp =
     (case entry_try_from (fst tp) of Inl e \<Rightarrow> Inl e | Inr entry \<Rightarrow> Inr (entry\<lparr>ce_probability := clamp01 (snd tp)\<rparr>))"

definition legacy_service ::
    "(service_name \<times> string list) list \<Rightarrow> string \<times> (string \<times> f64) list list \<Rightarrow> call_sequence \<Rightarrow> sequence_error + call_sequence" where
  "legacy_service by_service ss acc =
     (case try_map (try_map legacy_entry) (snd ss) of
        Inl e \<Rightarrow> Inl e
      | Inr sq \<Rightarrow>
          let calls = [(''legacy'', \<lparr>cv_id = ''legacy'', cv_probability = 1, cv_sequence = sq\<rparr>)];
              svc = service_from_string (fst ss) in
          if fst ss = ''USER'' then Inr (AList.update ''USER'' calls acc)
          else Inr (fold (\<lambda>m. AList.update (method_string (as_str svc) m) calls) (unwrap_or (map_of by_service svc) []) acc))"

definition parse_legacy_call_sequence :: "'v sequence_json \<Rightarrow> 'v \<Rightarrow> sequence_error + call_sequence" where
  "parse_legacy_call_sequence sj v =
     (case sj_legacy sj v of
        Inl e \<Rightarrow> Inl (SequenceJson e)
      | Inr raw \<Rightarrow>
          (case methods_by_service raw of
             Inl e \<Rightarrow> Inl e
           | Inr by_service \<Rightarrow> try_fold (legacy_service by_service) raw []))"

definition load_call_sequence :: "'v sequence_json \<Rightarrow> string + 'v \<Rightarrow> graph_id \<Rightarrow> sequence_error + call_sequence" where
  "load_call_sequence sj content g =
     (case content of
        Inl e \<Rightarrow> Inl (ReadFailed e)
      | Inr graphs \<Rightarrow>
          (case sj_get sj graphs (graph_str g) of
             None \<Rightarrow> Inl (GraphMissing g)
           | Some v \<Rightarrow>
               if Option.bind (sj_get sj v ''format'') (sj_as_str sj) \<noteq> Some ''conditional_variants'' then parse_legacy_call_sequence sj v
               else (case sj_raw_graph sj v of
                       Inl e \<Rightarrow> Inl (SequenceJson e)
                     | Inr raw \<Rightarrow>
                         if rg_format raw \<noteq> Some ''conditional_variants'' then Inl (NotConditional g)
                         else try_fold (\<lambda>(m, rm) acc.
                           case parse_method_call_sequence rm of
                             Inl e \<Rightarrow> Inl e
                           | Inr calls \<Rightarrow> Inr (AList.update (normalize_method_key m) calls acc)) (rg_methods raw) [])))"

definition get_all_graph_ids :: "'v sequence_json \<Rightarrow> (string + 'v) option \<Rightarrow> sequence_error + graph_id list" where
  "get_all_graph_ids sj content =
     (case content of
        None \<Rightarrow> Inr []
      | Some (Inl e) \<Rightarrow> Inl (ReadFailed e)
      | Some (Inr graphs) \<Rightarrow>
          (case sj_keys sj graphs of None \<Rightarrow> Inl NotAnObject | Some ks \<Rightarrow> Inr (map graph_from_string ks)))"

text \<open>
  In the legacy format, a call that some step makes finds the sequence of the service it calls: the
  parsed names are kept apart, so that no other service overwrites it.
\<close>

lemma split_colons_ne [simp]: "split_colons s \<noteq> []"
  by (cases s rule: split_colons.cases) (auto split: list.splits)

lemma split_colons_one: "split_colons s = [b] \<Longrightarrow> s = b"
  by (induction s arbitrary: b rule: split_colons.induct) (auto split: if_splits list.splits)

lemma split_colons_two: "split_colons s = [a, b] \<Longrightarrow> s = a @ ''::'' @ b"
proof (induction s arbitrary: a rule: split_colons.induct)
  case (1 c d s)
  show ?case
  proof (cases "c = CHR '':'' \<and> d = CHR '':''")
    case True
    then show ?thesis using 1(3) split_colons_one [of s b] by auto
  next
    case False
    then obtain p where "split_colons (d # s) = [p, b]" "a = c # p" using 1(3) by (auto split: list.splits if_splits)
    then show ?thesis using 1(2) [OF False] by simp
  qed
qed auto

lemma split_colons_map:
  assumes "\<And>c. f c = CHR '':'' \<longleftrightarrow> c = CHR '':''"
  shows "split_colons s = [a, b] \<Longrightarrow> split_colons (map f a @ ''::'' @ b) = [map f a, b]"
proof (induction s arbitrary: a rule: split_colons.induct)
  case (1 c d s)
  show ?case
  proof (cases "c = CHR '':'' \<and> d = CHR '':''")
    case True
    then show ?thesis using 1(3) split_colons_two [OF 1(3)] by auto
  next
    case False
    then obtain p where p: "split_colons (d # s) = [p, b]" "a = c # p" using 1(3) by (auto split: list.splits if_splits)
    note IH = 1(2) [OF False p(1)]
    have ds: "d # s = p @ ''::'' @ b" using split_colons_two [OF p(1)] .
    show ?thesis
    proof (cases p)
      case Nil
      then have "c \<noteq> CHR '':''" using False ds by auto
      then show ?thesis using p(2) Nil IH assms by simp
    next
      case (Cons q p')
      then have "q = d" using ds by simp
      then have "\<not> (f c = CHR '':'' \<and> f q = CHR '':'')" using False assms by auto
      then show ?thesis using p(2) Cons IH by simp
    qed
  qed
qed auto

lemma format_svc_name_colon: "\<exists>f. (\<forall>c. f c = CHR '':'' \<longleftrightarrow> c = CHR '':'') \<and> format_svc_name = map f"
proof -
  let ?upper = "\<lambda>d. 65 \<le> (of_char d :: nat) \<and> (of_char d :: nat) \<le> 90"
  define g where "g = (\<lambda>d. if ?upper d then char_of (of_char d + 32 :: nat) else d)"
  have "char_of (of_char d + 32 :: nat) \<noteq> CHR '':''" if "?upper d" for d
  proof
    assume "char_of (of_char d + 32 :: nat) = CHR '':''"
    then have "(of_char d + 32 :: nat) = of_char (CHR '':'')" using lowered_char(1) [of d] that by simp
    then show False using that by (simp add: of_char_def)
  qed
  moreover have "\<not> ?upper (CHR '':'')" by (simp add: of_char_def)
  ultimately have g: "g d = CHR '':'' \<longleftrightarrow> d = CHR '':''" for d unfolding g_def by metis
  have "format_svc_name = map (\<lambda>c. g (if c = CHR ''_'' then CHR ''-'' else c))"
    by (rule ext) (simp add: format_svc_name_def to_lowercase_def g_def)
  then show ?thesis by (intro exI [of _ "\<lambda>c. g (if c = CHR ''_'' then CHR ''-'' else c)"]) (simp add: g)
qed

definition separable :: "call_entry \<Rightarrow> bool" where
  "separable e \<longleftrightarrow> split_colons (method_string (as_str (ce_service e)) (ce_method e)) = [as_str (ce_service e), ce_method e]"

lemma entry_separable: "entry_try_from key = Inr e \<Longrightarrow> separable e"
proof -
  assume "entry_try_from key = Inr e"
  then obtain svc m where k: "split_colons key = [svc, m]" "e = \<lparr>ce_service = service_from_string svc, ce_method = m, ce_variants = [], ce_probability = 1\<rparr>"
    by (auto simp: entry_try_from_def split: list.splits)
  obtain f where "\<forall>c. f c = CHR '':'' \<longleftrightarrow> c = CHR '':''" "format_svc_name = map f" using format_svc_name_colon by blast
  then show ?thesis using split_colons_map [of f key svc m] k by (simp add: separable_def service_from_string_def method_string_def)
qed

lemma try_fold_append: "try_fold f (xs @ ys) s = (case try_fold f xs s of Inl e \<Rightarrow> Inl e | Inr s1 \<Rightarrow> try_fold f ys s1)"
  by (induction xs arbitrary: s) (auto split: sum.splits)

definition noted :: "(service_name \<times> string list) list \<Rightarrow> call_entry \<Rightarrow> bool" where
  "noted acc e \<longleftrightarrow> (case map_of acc (ce_service e) of None \<Rightarrow> False | Some ms \<Rightarrow> ce_method e \<in> set ms)"

lemma noted_note_method: "noted (note_method e acc) e' \<longleftrightarrow> noted acc e' \<or> (ce_service e' = ce_service e \<and> ce_method e' = ce_method e)"
  by (auto simp: noted_def note_method_def Let_def unwrap_or_def update_conv' split: option.splits)

lemma methods_by_service_noted:
  assumes "methods_by_service raw = Inr bs" "(t, p) \<in> set (concat (concat (map snd raw)))"
  shows "\<exists>e. entry_try_from t = Inr e \<and> noted bs e"
proof -
  let ?step = "\<lambda>(target, _) acc. case entry_try_from target of Inl e \<Rightarrow> Inl e | Inr entry \<Rightarrow> Inr (note_method entry acc)"
  obtain xs ys where xy: "concat (concat (map snd raw)) = xs @ (t, p) # ys" using assms(2) by (meson split_list)
  obtain acc e where e: "entry_try_from t = Inr e" "try_fold ?step ys (note_method e acc) = Inr bs"
    using assms(1) unfolding methods_by_service_def xy by (auto simp: try_fold_append split: sum.splits)
  have "noted bs e"
    by (rule try_fold_inv [where P = "\<lambda>acc. noted acc e", OF e(2)]) (auto simp: noted_note_method split: sum.splits)
  then show ?thesis using e(1) by blast
qed

lemma methods_by_service_separable:
  assumes "methods_by_service raw = Inr bs" "noted bs e"
  shows "separable e"
proof -
  have "\<forall>e. noted bs e \<longrightarrow> separable e"
    using assms(1) unfolding methods_by_service_def
  proof (rule try_fold_inv)
    fix x and acc acc' :: "(service_name \<times> string list) list"
    assume inv: "\<forall>e. noted acc e \<longrightarrow> separable e"
      and step: "(\<lambda>(target, _) acc. case entry_try_from target of Inl e \<Rightarrow> Inl e | Inr entry \<Rightarrow> Inr (note_method entry acc)) x acc = Inr acc'"
    then obtain e where e: "entry_try_from (fst x) = Inr e" "acc' = note_method e acc" by (auto simp: case_prod_beta split: sum.splits)
    show "\<forall>e. noted acc' e \<longrightarrow> separable e"
      using inv entry_separable [OF e(1)] unfolding e(2) noted_note_method separable_def by metis
  qed (simp add: noted_def)
  then show ?thesis using assms(2) by blast
qed

lemma fold_update_calls: "map_of (fold (\<lambda>m. AList.update (k m) v) ms acc) x = (if x \<in> k ` set ms then Some v else map_of acc x)"
  by (induction ms arbitrary: acc) (auto simp: update_conv')

lemma legacy_service_other:
  assumes "legacy_service bs (key, steps) acc = Inr acc'" "\<And>e'. noted bs e' \<Longrightarrow> separable e'" "separable e"
    "service_from_string key \<noteq> ce_service e \<or> key = ''USER''"
  shows "map_of acc' (method_string (as_str (ce_service e)) (ce_method e)) = map_of acc (method_string (as_str (ce_service e)) (ce_method e))"
proof (cases "key = ''USER''")
  case True
  have "method_string (as_str (ce_service e)) (ce_method e) \<noteq> ''USER''" using assms(3) by (auto simp: separable_def)
  then show ?thesis using assms(1) True by (auto simp: legacy_service_def update_conv' Let_def split: sum.splits)
next
  case False
  let ?svc = "service_from_string key"
  have "method_string (as_str (ce_service e)) (ce_method e) \<notin> method_string (as_str ?svc) ` set (unwrap_or (map_of bs ?svc) [])"
  proof
    assume "method_string (as_str (ce_service e)) (ce_method e) \<in> method_string (as_str ?svc) ` set (unwrap_or (map_of bs ?svc) [])"
    then obtain m where m: "m \<in> set (unwrap_or (map_of bs ?svc) [])" "method_string (as_str (ce_service e)) (ce_method e) = method_string (as_str ?svc) m" by auto
    have "noted bs (e\<lparr>ce_service := ?svc, ce_method := m\<rparr>)" using m(1) by (cases "map_of bs ?svc") (auto simp: noted_def unwrap_or_def)
    then have "split_colons (method_string (as_str ?svc) m) = [as_str ?svc, m]" using assms(2) [unfolded separable_def] by fastforce
    then have "[as_str (ce_service e), ce_method e] = [as_str ?svc, m]" using m(2) assms(3) [unfolded separable_def] by (simp only:)
    then have "as_str (ce_service e) = as_str ?svc" by simp
    then show False using assms(4) False by (metis service_name.expand)
  qed
  then show ?thesis using assms(1) False by (auto simp: legacy_service_def fold_update_calls Let_def split: sum.splits)
qed

theorem legacy_calls_resolve:
  assumes "parse_legacy_call_sequence sj v = Inr sq" "sj_legacy sj v = Inr raw" "distinct (map fst raw)"
    "(key, steps) \<in> set raw" "key \<noteq> ''USER''" "\<forall>(k, _)\<in>set raw. service_from_string k = service_from_string key \<longrightarrow> k = key \<or> k = ''USER''"
    "(t, p) \<in> set (concat (concat (map snd raw)))" "entry_try_from t = Inr e" "ce_service e = service_from_string key"
  shows "\<exists>calls. try_map (try_map legacy_entry) steps = Inr calls \<and>
    map_of sq (method_string (as_str (ce_service e)) (ce_method e)) = Some [(''legacy'', \<lparr>cv_id = ''legacy'', cv_probability = 1, cv_sequence = calls\<rparr>)]"
proof -
  let ?k = "method_string (as_str (ce_service e)) (ce_method e)"
  obtain bs where bs: "methods_by_service raw = Inr bs" "try_fold (legacy_service bs) raw [] = Inr sq"
    using assms(1,2) by (auto simp: parse_legacy_call_sequence_def split: sum.splits)
  have e: "noted bs e" using methods_by_service_noted [OF bs(1) assms(7)] assms(8) by auto
  note sep = methods_by_service_separable [OF bs(1)]
  obtain xs ys where xy: "raw = xs @ (key, steps) # ys" using assms(4) by (meson split_list)
  obtain acc acc' where acc: "legacy_service bs (key, steps) acc = Inr acc'" "try_fold (legacy_service bs) ys acc' = Inr sq"
    using bs(2) unfolding xy by (auto simp: try_fold_append split: sum.splits)
  then obtain calls where calls: "try_map (try_map legacy_entry) steps = Inr calls" by (auto simp: legacy_service_def split: sum.splits)
  let ?v = "[(''legacy'', \<lparr>cv_id = ''legacy'', cv_probability = 1, cv_sequence = calls\<rparr>)]"
  have "ce_method e \<in> set (unwrap_or (map_of bs (service_from_string key)) [])" using e assms(9) by (auto simp: noted_def unwrap_or_def split: option.splits)
  then have "map_of acc' ?k = Some ?v" using acc(1) calls assms(5,9) by (auto simp: legacy_service_def Let_def fold_update_calls)
  moreover have "map_of s' ?k = Some ?v" if "x \<in> set ys" "map_of s ?k = Some ?v" "legacy_service bs x s = Inr s'" for x s s'
  proof -
    obtain k st where x: "x = (k, st)" by force
    have "k \<noteq> key" using that(1) assms(3) unfolding xy x by (force simp: image_iff)
    then have "service_from_string k \<noteq> ce_service e \<or> k = ''USER''" using assms(6,9) that(1) unfolding xy x by auto
    then show ?thesis using legacy_service_other [of bs k st s s' e] that(2,3) sep e unfolding x by simp
  qed
  ultimately have "map_of sq ?k = Some ?v" using try_fold_inv [where P = "\<lambda>acc. map_of acc ?k = Some ?v", OF acc(2)] by blast
  then show ?thesis using calls by blast
qed

section \<open>The configuration of a service\<close>

record 'v graph_dir =
  gd_name :: "string option"
  gd_edges :: "(string + row) list"
  gd_latency :: "(string + raw_latencies) option"
  gd_freq :: "(string + raw_frequencies) option"
  gd_sequence :: "string + 'v"

record trace_config =
  tc_call_graph :: call_graph
  tc_method_latency :: "latency_dist_map option"
  tc_method_freq :: "method_freq_map option"
  tc_call_sequences :: "(graph_id \<times> call_sequence) list"

fun oks :: "('e + 'a) list \<Rightarrow> 'a list" where
  "oks [] = []"
| "oks (Inl _ # rs) = oks rs"
| "oks (Inr a # rs) = a # oks rs"

text \<open>
  \<open>from_callgraph_dirs\<close>: a directory whose edges cannot be read fails; the other files are skipped
  where they are missing or wrong. A file that cannot be opened is one whose first row is an error.
\<close>

definition from_callgraph_dirs ::
    "f64_ops \<Rightarrow> (string \<Rightarrow> f64 option) \<Rightarrow> 'v sequence_json \<Rightarrow> 'v graph_dir list \<Rightarrow> service_name \<Rightarrow> graph_error + trace_config" where
  "from_callgraph_dirs fl parse_f64 sj dirs svc =
     (case try_map (\<lambda>d. graph_from_reader fl (gd_edges d)) dirs of
        Inl e \<Rightarrow> Inl e
      | Inr graphs \<Rightarrow>
          let latencies = oks (concat (map (\<lambda>d. case gd_latency d of None \<Rightarrow> []
                | Some content \<Rightarrow> [latency_from_file fl parse_f64 (gd_name d) content svc]) dirs));
              freqs = oks (concat (map (\<lambda>d. case gd_freq d of None \<Rightarrow> [] | Some content \<Rightarrow> [freq_from_file (gd_name d) content]) dirs));
              sequences = fold (\<lambda>d acc. let g = graph_from_string (unwrap_or (gd_name d) ''default'') in
                case load_call_sequence sj (gd_sequence d) g of Inl _ \<Rightarrow> acc | Inr sq \<Rightarrow> AList.update g sq acc) dirs [] in
          Inr \<lparr>tc_call_graph = graph_union graphs,
            tc_method_latency = (if latencies = [] then None else Some (latency_merge_maps latencies)),
            tc_method_freq = (if freqs = [] then None else Some (freq_merge_maps freqs)),
            tc_call_sequences = sequences\<rparr>)"

text \<open>What is loaded: the weights of the directories' graphs, added up, and distributions that satisfy their invariant.\<close>

lemma oks_set: "a \<in> set (oks rs) \<longleftrightarrow> Inr a \<in> set rs"
  by (induction rs rule: oks.induct) auto

lemma latency_merge_built: "latencies_built fl lm \<Longrightarrow> latencies_built fl other \<Longrightarrow> latencies_built fl (latency_merge lm other)"
proof (induction other arbitrary: lm)
  case (Cons gm other)
  obtain g ms where gm: "gm = (g, ms)" by force
  have "latencies_built fl (AList.update g ms lm)" using Cons.prems by (auto simp: latencies_built_def gm dest!: set_update)
  moreover have "latencies_built fl other" using Cons.prems(2) by (simp add: latencies_built_def)
  ultimately show ?case using Cons.IH [of "AList.update g ms lm"] by (simp add: latency_merge_def gm)
qed (simp add: latency_merge_def)

lemma latency_merge_maps_built:
  assumes "\<And>lm. lm \<in> set maps \<Longrightarrow> latencies_built fl lm"
  shows "latencies_built fl (latency_merge_maps maps)"
  using assms
proof (induction maps rule: rev_induct)
  case (snoc lm maps)
  then show ?case by (simp add: latency_merge_maps_def latency_merge_built)
qed (simp add: latency_merge_maps_def latencies_built_def)

theorem config_loaded:
  assumes "ieee fl" "from_callgraph_dirs fl parse_f64 sj dirs svc = Inr c"
  shows "\<exists>graphs. map (\<lambda>d. graph_from_reader fl (gd_edges d)) dirs = map Inr graphs \<and>
    (\<forall>a b. edge_weight (tc_call_graph c) a b =
       (if \<forall>g\<in>set graphs. edge_weight g a b = None then None else Some (\<Sum>g\<leftarrow>graphs. unwrap_or (edge_weight g a b) 0))) \<and>
    (\<forall>lm. tc_method_latency c = Some lm \<longrightarrow> latencies_built fl lm)"
proof -
  obtain graphs where g: "try_map (\<lambda>d. graph_from_reader fl (gd_edges d)) dirs = Inr graphs"
    using assms(2) by (auto simp: from_callgraph_dirs_def split: sum.splits)
  then have l2: "list_all2 (\<lambda>d g. graph_from_reader fl (gd_edges d) = Inr g) dirs graphs" by (simp add: try_map_Inr)
  then have eq: "map (\<lambda>d. graph_from_reader fl (gd_edges d)) dirs = map Inr graphs" by (induction rule: list_all2_induct) auto
  have "\<forall>g\<in>set graphs. graph_ok g" using list_all2_left [OF l2] graph_from_reader_ok by blast
  note sum = union_adds_weights [OF this]
  define files where "files = concat (map (\<lambda>d. case gd_latency d of None \<Rightarrow> []
    | Some content \<Rightarrow> [latency_from_file fl parse_f64 (gd_name d) content svc]) dirs)"
  have "latencies_built fl (latency_merge_maps (oks files))"
    by (rule latency_merge_maps_built) (auto simp: oks_set files_def split: option.splits intro: latency_from_file_built [OF assms(1)] dest: sym)
  moreover have "tc_call_graph c = graph_union graphs" "tc_method_latency c = (if oks files = [] then None else Some (latency_merge_maps (oks files)))"
    using assms(2) g unfolding files_def by (auto simp: from_callgraph_dirs_def Let_def)
  ultimately have c: "tc_call_graph c = graph_union graphs" "\<forall>lm. tc_method_latency c = Some lm \<longrightarrow> latencies_built fl lm" by auto
  show ?thesis unfolding c(1) by (intro exI conjI allI) (rule eq, rule sum, use c(2) in blast)
qed

end
