(* ===== verification/Trace_Service.thy ===== *)
theory Trace_Service
  imports Trace_Sequence Oracle_Exec
begin

text \<open>
  The service of the trace benchmark (\<open>apps/tracebench/generic-service/src\<close>): the chain of parents
  that a request carries (\<open>parent_chain.rs\<close>), the registry of clients and its bootstrap
  (\<open>client_registry.rs\<close>, \<open>bootstrap.rs\<close>), the fan-out of a request along its call sequence
  (\<open>core.rs\<close>) and the handlers (\<open>main.rs\<close>).

  A client is the service that answers at its address. The state \<open>'w\<close> is the world outside: random
  numbers and time. The tasks of a step finish in the order \<open>te_join\<close> puts them in; after an error
  the others are dropped. A panic of a callee reaches its caller as an error. \<open>trace_cluster\<close> closes
  the loop, with services whose calls reach services, to a given depth.
\<close>

section \<open>The chain of parents\<close>

datatype trace_error =
    LatencyNotConfigured
  | MethodNotFound
  | SequenceMissing graph_id
  | SequenceMethodMissing string graph_id
  | VariantMissing string
  | NoPositiveVariant
  | ChainNotEncoded
  | ChainNotText
  | OverrideRefused string
  | RootCannotInvoke
  | OnlyRoot
  | ChildPanicked
  | Unreachable service_name

definition PARENT_CHAIN_METADATA_KEY :: string where
  "PARENT_CHAIN_METADATA_KEY = ''parent-chain''"

fun join_with :: "char \<Rightarrow> string list \<Rightarrow> string" where
  "join_with c [] = []"
| "join_with c [x] = x"
| "join_with c (x # y # xs) = x @ c # join_with c (y # xs)"

definition encode_parent_chain :: "'m metadata_ops \<Rightarrow> service_name list \<Rightarrow> trace_error + string option" where
  "encode_parent_chain ops chain =
     (if chain = [] then Inr None
      else let encoded = join_with CHR ''>'' (map as_str chain) in
        if md_value_ok ops encoded then Inr (Some encoded) else Inl ChainNotEncoded)"

definition decode_parent_chain :: "'m metadata_ops \<Rightarrow> (string \<Rightarrow> string + string) \<Rightarrow> 'm \<Rightarrow> trace_error + service_name list" where
  "decode_parent_chain ops to_str metadata =
     (case md_get ops metadata PARENT_CHAIN_METADATA_KEY of
        None \<Rightarrow> Inr []
      | Some v \<Rightarrow>
          (case to_str v of
             Inl _ \<Rightarrow> Inl ChainNotText
           | Inr s \<Rightarrow>
               if s = [] then Inr []
               else Inr (map service_from_string (filter (\<lambda>n. n \<noteq> []) (split_on CHR ''>'' s)))))"

text \<open>A chain of names that do not contain the delimiter is read back as written.\<close>

definition chain_name :: "service_name \<Rightarrow> bool" where
  "chain_name n \<longleftrightarrow> service_ok n \<and> as_str n \<noteq> [] \<and> CHR ''>'' \<notin> set (as_str n) \<and> list_all visible_ascii (as_str n)"

lemma split_join: "xs \<noteq> [] \<Longrightarrow> \<forall>x\<in>set xs. c \<notin> set x \<Longrightarrow> split_on c (join_with c xs) = xs"
  by (induction c xs rule: join_with.induct) (simp_all add: split_on_append_sep)

lemma join_with_ascii: "visible_ascii c \<Longrightarrow> \<forall>x\<in>set xs. list_all visible_ascii x \<Longrightarrow> list_all visible_ascii (join_with c xs)"
  by (induction c xs rule: join_with.induct) auto

lemma parent_chain_read_back:
  assumes "metadata_laws ops" "\<And>v. list_all visible_ascii v \<Longrightarrow> to_str v = Inr v" "chain \<noteq> []" "\<forall>n\<in>set chain. chain_name n"
  shows "\<exists>v. encode_parent_chain ops chain = Inr (Some v) \<and>
    decode_parent_chain ops to_str (md_insert ops metadata PARENT_CHAIN_METADATA_KEY v) = Inr chain"
proof -
  let ?v = "join_with CHR ''>'' (map as_str chain)"
  have "visible_ascii (CHR ''>'')" by code_simp
  then have ascii: "list_all visible_ascii ?v" using assms(4) by (intro join_with_ascii) (auto simp: chain_name_def)
  then have ok: "md_value_ok ops ?v" using assms(1) unfolding metadata_laws_def list_all_iff by metis
  have split: "split_on CHR ''>'' ?v = map as_str chain" using assms(3,4) by (intro split_join) (auto simp: chain_name_def)
  have ne: "?v \<noteq> []" using split assms(3,4) by (cases chain) (auto simp: chain_name_def)
  have "filter (\<lambda>n. n \<noteq> []) (map as_str chain) = map as_str chain" using assms(4) by (auto simp: chain_name_def filter_id_conv)
  moreover have "map (service_from_string \<circ> as_str) chain = chain" using assms(4) by (auto simp: chain_name_def intro: map_idI)
  moreover have "md_get ops (md_insert ops metadata PARENT_CHAIN_METADATA_KEY ?v) PARENT_CHAIN_METADATA_KEY = Some ?v"
    using assms(1) ok by (simp add: metadata_laws_def)
  ultimately have "decode_parent_chain ops to_str (md_insert ops metadata PARENT_CHAIN_METADATA_KEY ?v) = Inr chain"
    using assms(2) [OF ascii] ne split by (simp add: decode_parent_chain_def)
  then show ?thesis using ok assms(3) by (simp add: encode_parent_chain_def)
qed

section \<open>The registry of clients\<close>

datatype client_lookup = Found service_name | StartupRace

record registry =
  rg_clients :: "service_name \<rightharpoonup> service_name"
  rg_ready :: bool

definition client_registry_new :: registry where
  "client_registry_new = \<lparr>rg_clients = Map.empty, rg_ready = False\<rparr>"

text \<open>\<open>install\<close> is two steps: the map is replaced under its lock, and then the flag is set.\<close>

definition install_clients :: "(service_name \<rightharpoonup> service_name) \<Rightarrow> registry \<Rightarrow> registry" where
  "install_clients new_clients r = r\<lparr>rg_clients := new_clients\<rparr>"

definition force_ready :: "registry \<Rightarrow> registry" where
  "force_ready r = r\<lparr>rg_ready := True\<rparr>"

definition get_expect_ready :: "registry \<Rightarrow> service_name \<Rightarrow> client_lookup exec" where
  "get_expect_ready r n =
     (case rg_clients r n of
        Some c \<Rightarrow> Done (Found c)
      | None \<Rightarrow> if rg_ready r then Panic else Done StartupRace)"

record service_info =
  si_ip :: string
  si_port :: u16
  si_replicas :: nat

text \<open>The channel takes the number of replicas as a \<open>u8\<close>; a child that is not deployed panics the bootstrap.\<close>

fun connect_to_children ::
    "(service_info \<Rightarrow> service_name) \<Rightarrow> (service_name \<rightharpoonup> service_info) \<Rightarrow> service_name list \<Rightarrow> (service_name \<rightharpoonup> service_name) exec" where
  "connect_to_children answers deployment [] = Done Map.empty"
| "connect_to_children answers deployment (child # children) =
     (case deployment child of
        None \<Rightarrow> Panic
      | Some info \<Rightarrow>
          if 256 \<le> si_replicas info then Panic
          else map_exec (\<lambda>clients. clients(child := (case clients child of None \<Rightarrow> Some (answers info) | c \<Rightarrow> c)))
            (connect_to_children answers deployment children))"

datatype bootstrap_step = InstallClients | SetReady | TimeOut

inductive bootstrapping :: "(service_name \<rightharpoonup> service_name) \<Rightarrow> registry \<Rightarrow> bootstrap_step list \<Rightarrow> bool" for clients where
  start: "bootstrapping clients client_registry_new []"
| installed: "bootstrapping clients (install_clients clients r) (steps @ [InstallClients])" if "bootstrapping clients r steps" "InstallClients \<notin> set steps"
| ready: "bootstrapping clients (force_ready r) (steps @ [SetReady])" if "bootstrapping clients r steps" "InstallClients \<in> set steps"
| forced: "bootstrapping clients (force_ready r) (steps @ [TimeOut])" if "bootstrapping clients r steps"

lemma bootstrapping_inv:
  assumes "bootstrapping clients r steps"
  shows "(rg_clients r = (if InstallClients \<in> set steps then clients else Map.empty)) \<and> (rg_ready r \<longrightarrow> InstallClients \<in> set steps \<or> TimeOut \<in> set steps)"
  using assms by induction (auto simp: client_registry_new_def install_clients_def force_ready_def)

text \<open>
  A child that was connected is never reported missing, unless the bootstrap was given up: then a
  lookup before the clients are installed panics.
\<close>

theorem connected_child_found:
  assumes "bootstrapping clients r steps" "TimeOut \<notin> set steps" "clients n = Some c"
  shows "get_expect_ready r n = Done (Found c) \<or> get_expect_ready r n = Done StartupRace"
  using bootstrapping_inv [OF assms(1)] assms(2,3) by (auto simp: get_expect_ready_def)

lemma forced_lookup_panics: "\<exists>r. bootstrapping [n \<mapsto> n] r [TimeOut] \<and> get_expect_ready r n = Panic"
proof -
  have "bootstrapping [n \<mapsto> n] (force_ready client_registry_new) ([] @ [TimeOut])" by (intro forced start)
  then show ?thesis by (auto simp: force_ready_def client_registry_new_def get_expect_ready_def)
qed

section \<open>Choosing variants\<close>

fun walk_choices :: "f64_ops \<Rightarrow> f64 \<Rightarrow> (f64 \<times> 'a) list \<Rightarrow> 'a option" where
  "walk_choices fl threshold [] = None"
| "walk_choices fl threshold ((p, a) # choices) =
     (let threshold' = f_sub fl threshold (max p 0) in
      if threshold' \<le> 0 then Some a else walk_choices fl threshold' choices)"

definition sample_choice :: "f64_ops \<Rightarrow> ('w \<Rightarrow> f64 \<times> 'w) \<Rightarrow> (f64 \<times> 'a) list \<Rightarrow> 'w \<Rightarrow> 'a option \<times> 'w" where
  "sample_choice fl random choices w =
     (let total = fold (\<lambda>(p, _) acc. f_add fl acc (max p 0)) choices 0 in
      if total \<le> 0 then (None, w)
      else case random w of (r, w1) \<Rightarrow> (walk_choices fl (f_mul fl r total) choices, w1))"

definition sample_weighted_variant :: "f64_ops \<Rightarrow> ('w \<Rightarrow> f64 \<times> 'w) \<Rightarrow> method_calls \<Rightarrow> 'w \<Rightarrow> call_variant option \<times> 'w" where
  "sample_weighted_variant fl random variants = sample_choice fl random (map (\<lambda>(_, v). (cv_probability v, v)) variants)"

definition sample_variant_choice :: "f64_ops \<Rightarrow> ('w \<Rightarrow> f64 \<times> 'w) \<Rightarrow> variant_choice list \<Rightarrow> 'w \<Rightarrow> string option \<times> 'w" where
  "sample_variant_choice fl random choices = sample_choice fl random (map (\<lambda>c. (vc_probability c, vc_variant c)) choices)"

definition select_call_sequence_variant ::
    "f64_ops \<Rightarrow> ('w \<Rightarrow> f64 \<times> 'w) \<Rightarrow> method_calls \<Rightarrow> string option \<Rightarrow> 'w \<Rightarrow> (trace_error + call_variant) \<times> 'w" where
  "select_call_sequence_variant fl random calls requested w =
     (case requested of
        Some v \<Rightarrow>
          if v \<noteq> [] then (case get_variant calls v of None \<Rightarrow> Inl (VariantMissing v) | Some cv \<Rightarrow> Inr cv, w)
          else (case sample_weighted_variant fl random calls w of (None, w1) \<Rightarrow> (Inl NoPositiveVariant, w1) | (Some cv, w1) \<Rightarrow> (Inr cv, w1))
      | None \<Rightarrow> (case sample_weighted_variant fl random calls w of (None, w1) \<Rightarrow> (Inl NoPositiveVariant, w1) | (Some cv, w1) \<Rightarrow> (Inr cv, w1)))"

definition compute_child_probabilities :: "f64_ops \<Rightarrow> targets \<Rightarrow> (service_name \<times> f64) list" where
  "compute_child_probabilities fl weights =
     (if weights = [] then []
      else let total_weight = of_u64 fl (fold max (map snd weights) 0) in
        map (\<lambda>(svc, w). (svc, if 0 < total_weight then f_divide fl (of_u64 fl w) total_weight else 0)) weights)"

text \<open>
  In exact arithmetic a choice is made whenever some probability is positive: the one in whose
  share of the total the random number falls.
\<close>

lemma walk_choices_exact:
  assumes "\<And>x. rnd fl x = x" "t \<le> (\<Sum>(p, _)\<leftarrow>cs. max p 0)" "cs \<noteq> []"
  shows "\<exists>i<length cs. walk_choices fl t cs = Some (snd (cs ! i)) \<and> t \<le> (\<Sum>(p, _)\<leftarrow>take (Suc i) cs. max p 0) \<and>
    (i = 0 \<or> (\<Sum>(p, _)\<leftarrow>take i cs. max p 0) < t)"
  using assms(2,3)
proof (induction cs arbitrary: t)
  case (Cons pa cs)
  obtain p a where pa: "pa = (p, a)" by force
  show ?case
  proof (cases "t - max p 0 \<le> 0")
    case True
    then show ?thesis using assms(1) by (intro exI [of _ 0]) (simp add: pa f_sub_def)
  next
    case False
    then have "cs \<noteq> []" using Cons.prems(1) by (auto simp: pa)
    moreover have "t - max p 0 \<le> (\<Sum>(p, _)\<leftarrow>cs. max p 0)" using Cons.prems(1) by (simp add: pa)
    ultimately obtain i where "i < length cs" "walk_choices fl (t - max p 0) cs = Some (snd (cs ! i))"
      "t - max p 0 \<le> (\<Sum>(p, _)\<leftarrow>take (Suc i) cs. max p 0)" "i = 0 \<or> (\<Sum>(p, _)\<leftarrow>take i cs. max p 0) < t - max p 0"
      using Cons.IH by blast
    then show ?thesis using assms(1) False by (intro exI [of _ "Suc i"]) (auto simp: pa f_sub_def algebra_simps)
  qed
qed simp

lemma sample_choice_exact:
  assumes "\<And>x. rnd fl x = x" "random w = (r, w1)" "0 \<le> r" "r \<le> 1" "0 < (\<Sum>(p, _)\<leftarrow>cs. max p 0)"
  shows "\<exists>a. sample_choice fl random cs w = (Some a, w1) \<and> a \<in> snd ` set cs"
proof -
  have "fold (\<lambda>(p, _) acc. f_add fl acc (max p 0)) cs acc = acc + (\<Sum>(p, _)\<leftarrow>cs. max p 0)" for acc
    by (induction cs arbitrary: acc) (auto simp: f_add_def assms(1))
  then have total: "fold (\<lambda>(p, _) acc. f_add fl acc (max p 0)) cs 0 = (\<Sum>(p, _)\<leftarrow>cs. max p 0)" by simp
  have "r * (\<Sum>(p, _)\<leftarrow>cs. max p 0) \<le> (\<Sum>(p, _)\<leftarrow>cs. max p 0)" "cs \<noteq> []"
    using assms(3-5) mult_right_mono [OF assms(4), of "\<Sum>(p, _)\<leftarrow>cs. max p 0"] by auto
  from walk_choices_exact [OF assms(1) this] obtain i where "i < length cs"
    "walk_choices fl (r * (\<Sum>(p, _)\<leftarrow>cs. max p 0)) cs = Some (snd (cs ! i))" by blast
  then show ?thesis using total assms(1,2,5) by (simp add: sample_choice_def Let_def f_mul_def)
qed

lemma child_probabilities_bounded:
  assumes "ieee fl" "(svc, p) \<in> set (compute_child_probabilities fl weights)"
  shows "0 \<le> p" "p \<le> 1"
proof -
  let ?m = "fold max (map snd weights) 0" and ?t = "of_u64 fl (fold max (map snd weights) 0)"
  obtain w where w: "(svc, w) \<in> set weights" "p = (if 0 < ?t then f_divide fl (of_u64 fl w) ?t else 0)"
    using assms(2) by (auto simp: compute_child_probabilities_def Let_def split: if_splits)
  have ge: "b \<le> fold max vs b" for vs and b :: u64
  proof (induction vs arbitrary: b)
    case (Cons v vs)
    have "b \<le> max v b" "max v b \<le> fold max vs (max v b)" using Cons [of "max v b"] by simp_all
    then show ?case by simp
  qed simp
  have "\<forall>v\<in>set vs. v \<le> fold max vs a" for vs and a :: u64
  proof (induction vs arbitrary: a)
    case (Cons v vs)
    have "max v a \<le> fold max vs (max v a)" by (rule ge)
    then have "v \<le> fold max vs (max v a)" by (meson max.cobounded1 order_trans)
    then show ?case using Cons by simp
  qed simp
  then have "w \<le> ?m" using w(1) by force
  then have "of_u64 fl w \<le> ?t" by (rule of_u64_mono [OF assms(1)])
  moreover have "0 \<le> of_u64 fl w" by (rule of_u64_nonneg [OF assms(1)])
  ultimately show "0 \<le> p" "p \<le> 1"
    unfolding w(2) f_divide_def by (auto intro!: rnd_between [OF assms(1)] simp: divide_le_eq_1)
qed

section \<open>Fan-out\<close>

record invoke_request =
  iq_req_id :: u64
  iq_start_at :: u64
  iq_method :: string
  iq_graph :: string
  iq_variant :: string

record trace_core =
  co_config :: trace_config
  co_registry :: registry
  co_name :: service_name
  co_is_root :: bool
  co_child_probs :: "(service_name \<times> f64) list"

type_synonym 'm trace_call = "service_name \<times> invoke_request \<times> 'm"
type_synonym ('w, 'a) trace_run = "'w \<Rightarrow> (trace_error, 'a) run \<times> 'w"
type_synonym ('w, 'm) trace_rpc = "service_name \<Rightarrow> invoke_request \<Rightarrow> 'm \<Rightarrow> ('w, string) trace_run"

record ('w, 'm) trace_env =
  te_md :: "'m metadata_ops"
  te_md_new :: 'm
  te_to_str :: "string \<Rightarrow> string + string"
  te_fl :: f64_ops
  te_random :: "'w \<Rightarrow> f64 \<times> 'w"
  te_spin_ms :: "u64 \<Rightarrow> 'w \<Rightarrow> 'w"
  te_sleep_ms :: "u64 \<Rightarrow> 'w \<Rightarrow> 'w"
  te_elapsed_ms :: "'w \<Rightarrow> 'w \<Rightarrow> nat"
  te_join :: "'m trace_call list \<Rightarrow> 'm trace_call list"

definition initialize :: "f64_ops \<Rightarrow> service_name \<Rightarrow> trace_config \<Rightarrow> trace_core \<times> service_name list" where
  "initialize fl self_name config =
     (let child_weights = callees_of (tc_call_graph config) self_name in
      (\<lparr>co_config = config, co_registry = client_registry_new, co_name = self_name, co_is_root = is_root_service self_name,
        co_child_probs = compute_child_probabilities fl child_weights\<rparr>, map fst child_weights))"

definition call_sequence_method_id :: "trace_core \<Rightarrow> string \<Rightarrow> string" where
  "call_sequence_method_id core m = (if m = ''USER'' then ''USER'' else method_string (as_str (co_name core)) m)"

definition child_metadata :: "('w, 'm) trace_env \<Rightarrow> call_entry \<Rightarrow> string option \<Rightarrow> trace_error + 'm" where
  "child_metadata env entry chain_metadata =
     bind_sum (put_header (te_md env) (OverrideRefused METHOD_NAME_OVERRIDE_HEADER) (te_md_new env)
         METHOD_NAME_OVERRIDE_HEADER (ce_method entry)) (\<lambda>m1.
     bind_sum (put_header (te_md env) (OverrideRefused SERVICE_NAME_OVERRIDE_HEADER) m1
         SERVICE_NAME_OVERRIDE_HEADER (as_str (ce_service entry))) (\<lambda>m2.
     Inr (case chain_metadata of None \<Rightarrow> m2 | Some v \<Rightarrow> md_insert (te_md env) m2 PARENT_CHAIN_METADATA_KEY v)))"

text \<open>The calls of one step: those drawn, but not to the service itself nor to one of its parents.\<close>

fun build_calls ::
    "('w, 'm) trace_env \<Rightarrow> trace_core \<Rightarrow> u64 \<Rightarrow> u64 \<Rightarrow> service_name list \<Rightarrow> graph_id \<Rightarrow> string option \<Rightarrow> call_entry list \<Rightarrow>
      ('w, 'm trace_call list) trace_run" where
  "build_calls env core req_id start_at chain g chain_metadata [] w = (Ok [], w)"
| "build_calls env core req_id start_at chain g chain_metadata (entry # entries) w =
     (case te_random env w of (r, w1) \<Rightarrow>
        if ce_probability entry \<le> r \<or> ce_service entry = co_name core \<or> ce_service entry \<in> set chain
        then build_calls env core req_id start_at chain g chain_metadata entries w1
        else (case get_expect_ready (co_registry core) (ce_service entry) of
                Panic \<Rightarrow> (Panicked, w1)
              | Done StartupRace \<Rightarrow> build_calls env core req_id start_at chain g chain_metadata entries w1
              | Done (Found client) \<Rightarrow>
                  (case sample_variant_choice (te_fl env) (te_random env) (ce_variants entry) w1 of (v, w2) \<Rightarrow>
                    (case child_metadata env entry chain_metadata of
                       Inl e \<Rightarrow> (Err e, w2)
                     | Inr metadata \<Rightarrow>
                         and_then (build_calls env core req_id start_at chain g chain_metadata entries w2) (\<lambda>calls w3.
                           (Ok ((client, \<lparr>iq_req_id = req_id, iq_start_at = start_at, iq_method = ce_method entry,
                              iq_graph = graph_str g, iq_variant = unwrap_or v []\<rparr>, metadata) # calls), w3))))))"

fun run_calls :: "('w, 'm) trace_rpc \<Rightarrow> 'm trace_call list \<Rightarrow> ('w, unit) trace_run" where
  "run_calls rpc [] w = (Ok (), w)"
| "run_calls rpc ((client, request, metadata) # calls) w =
     (case rpc client request metadata w of
        (Ok _, w1) \<Rightarrow> run_calls rpc calls w1
      | (Err e, w1) \<Rightarrow> (Err e, w1)
      | (Panicked, w1) \<Rightarrow> (Err ChildPanicked, w1)
      | (TooDeep, w1) \<Rightarrow> (TooDeep, w1))"

fun run_steps ::
    "('w, 'm) trace_env \<Rightarrow> trace_core \<Rightarrow> ('w, 'm) trace_rpc \<Rightarrow> u64 \<Rightarrow> u64 \<Rightarrow> service_name list \<Rightarrow> graph_id \<Rightarrow> string option \<Rightarrow>
      call_entry list list \<Rightarrow> ('w, unit) trace_run" where
  "run_steps env core rpc req_id start_at chain g chain_metadata [] w = (Ok (), w)"
| "run_steps env core rpc req_id start_at chain g chain_metadata (step # steps) w =
     and_then (build_calls env core req_id start_at chain g chain_metadata step w) (\<lambda>calls w1.
     and_then (run_calls rpc (te_join env calls) w1) (\<lambda>_ w2.
     run_steps env core rpc req_id start_at chain g chain_metadata steps w2))"

definition fanout_with_call_sequence ::
    "('w, 'm) trace_env \<Rightarrow> trace_core \<Rightarrow> ('w, 'm) trace_rpc \<Rightarrow> u64 \<Rightarrow> u64 \<Rightarrow> service_name list \<Rightarrow> graph_id \<Rightarrow> string \<Rightarrow> string option \<Rightarrow>
      call_sequence \<Rightarrow> ('w, unit) trace_run" where
  "fanout_with_call_sequence env core rpc req_id start_at chain g m variant sq w =
     (case map_of sq (call_sequence_method_id core m) of
        None \<Rightarrow> (Err (SequenceMethodMissing (call_sequence_method_id core m) g), w)
      | Some calls \<Rightarrow>
          (case select_call_sequence_variant (te_fl env) (te_random env) calls variant w of
             (Inl e, w1) \<Rightarrow> (Err e, w1)
           | (Inr cv, w1) \<Rightarrow>
               (case encode_parent_chain (te_md env) (chain @ [co_name core]) of
                  Inl e \<Rightarrow> (Err e, w1)
                | Inr chain_metadata \<Rightarrow> run_steps env core rpc req_id start_at chain g chain_metadata (cv_sequence cv) w1)))"

definition fanout ::
    "('w, 'm) trace_env \<Rightarrow> trace_core \<Rightarrow> ('w, 'm) trace_rpc \<Rightarrow> u64 \<Rightarrow> u64 \<Rightarrow> service_name list \<Rightarrow> graph_id \<Rightarrow> string \<Rightarrow> string option \<Rightarrow>
      ('w, unit) trace_run" where
  "fanout env core rpc req_id start_at chain g m variant w =
     (case map_of (tc_call_sequences (co_config core)) g of
        None \<Rightarrow> (Err (SequenceMissing g), w)
      | Some sq \<Rightarrow> fanout_with_call_sequence env core rpc req_id start_at chain g m variant sq w)"

definition handle_leaf_service :: "('w, 'm) trace_env \<Rightarrow> f64 \<Rightarrow> 'w \<Rightarrow> 'w" where
  "handle_leaf_service env total_latency_ms w =
     (let fl = te_fl env;
          spin_duration = min (f_mul fl total_latency_ms (rnd fl (1 / 5))) 50;
          block_duration = f_sub fl total_latency_ms spin_duration in
      te_sleep_ms env (to_u64 block_duration) (te_spin_ms env (to_u64 spin_duration) w))"

definition trace_handle_method ::
    "('w, 'm) trace_env \<Rightarrow> trace_core \<Rightarrow> ('w, 'm) trace_rpc \<Rightarrow> string \<Rightarrow> string option \<Rightarrow> u64 \<Rightarrow> u64 \<Rightarrow> service_name list \<Rightarrow> graph_id \<Rightarrow>
      ('w, unit) trace_run" where
  "trace_handle_method env core rpc m variant req_id start_at chain g w =
     (case tc_method_latency (co_config core) of
        None \<Rightarrow> (Err LatencyNotConfigured, w)
      | Some latencies \<Rightarrow>
          (case get_method_dist latencies m g of
             None \<Rightarrow> (Err MethodNotFound, w)
           | Some d \<Rightarrow>
               (case sample_dist (te_fl env) (te_random env) d w of
                  Panic \<Rightarrow> (Panicked, w)
                | Done (total_latency_ms, w1) \<Rightarrow>
                    if co_child_probs core = [] then (Ok (), handle_leaf_service env total_latency_ms w1)
                    else and_then (fanout env core rpc req_id start_at chain g m variant w1) (\<lambda>_ w2.
                      let remaining = f_sub (te_fl env) total_latency_ms (rnd (te_fl env) (of_nat (te_elapsed_ms env w1 w2))) in
                      (Ok (), te_spin_ms env (to_u64 (max remaining 1)) w2)))))"

section \<open>Handlers\<close>

definition invoke :: "('w, 'm) trace_env \<Rightarrow> trace_core \<Rightarrow> ('w, 'm) trace_rpc \<Rightarrow> invoke_request \<Rightarrow> 'm \<Rightarrow> ('w, string) trace_run" where
  "invoke env core rpc request metadata w =
     (if co_is_root core then (Err RootCannotInvoke, w)
      else case decode_parent_chain (te_md env) (te_to_str env) metadata of
        Inl e \<Rightarrow> (Err e, w)
      | Inr chain \<Rightarrow>
          and_then (trace_handle_method env core rpc (iq_method request)
              (if iq_variant request \<noteq> [] then Some (iq_variant request) else None)
              (iq_req_id request) (iq_start_at request) chain (graph_from_string (iq_graph request)) w)
            (\<lambda>_ w1. (Ok (iq_method request), w1)))"

definition root_handler :: "('w, 'm) trace_env \<Rightarrow> trace_core \<Rightarrow> ('w, 'm) trace_rpc \<Rightarrow> u64 \<Rightarrow> u64 \<Rightarrow> string \<Rightarrow> ('w, u64) trace_run" where
  "root_handler env core rpc req_id start_at graph_name w =
     (if \<not> co_is_root core then (Err OnlyRoot, w)
      else let g = graph_from_string graph_name in
        case map_of (tc_call_sequences (co_config core)) g of
          None \<Rightarrow> (Err (SequenceMissing g), w)
        | Some sq \<Rightarrow>
            and_then (fanout_with_call_sequence env core rpc req_id start_at [] g ''USER'' None sq w) (\<lambda>_ w1. (Ok req_id, w1)))"

fun trace_cluster :: "('w, 'm) trace_env \<Rightarrow> (service_name \<rightharpoonup> trace_core) \<Rightarrow> nat \<Rightarrow> ('w, 'm) trace_rpc" where
  "trace_cluster env cores 0 client request metadata w = (TooDeep, w)"
| "trace_cluster env cores (Suc depth) client request metadata w =
     (case cores client of
        None \<Rightarrow> (Err (Unreachable client), w)
      | Some core \<Rightarrow> invoke env core (trace_cluster env cores depth) request metadata w)"

section \<open>Every request returns\<close>

text \<open>
  What the services rely on: headers keep what is inserted, the tasks of a step are all waited for,
  every service is known by a name that the chain can carry, and a client reaches the service it
  is registered for.
\<close>

definition trace_laws :: "('w, 'm) trace_env \<Rightarrow> bool" where
  "trace_laws env \<longleftrightarrow> metadata_laws (te_md env) \<and> (\<forall>v. list_all visible_ascii v \<longrightarrow> te_to_str env v = Inr v) \<and>
     (\<forall>cs. mset (te_join env cs) = mset cs)"

definition deployed :: "(service_name \<rightharpoonup> trace_core) \<Rightarrow> bool" where
  "deployed cores \<longleftrightarrow> (\<forall>n core. cores n = Some core \<longrightarrow> co_name core = n \<and> chain_name n \<and>
     (\<forall>k c. rg_clients (co_registry core) k = Some c \<longrightarrow> c = k))"

lemma build_calls_not_deep: "fst (build_calls env core req_id start_at chain g cm entries w) \<noteq> TooDeep"
proof (induction entries arbitrary: w)
  case (Cons e es)
  show ?case
    by (auto simp: Cons and_then_TooDeep split: prod.splits exec.splits client_lookup.splits sum.splits)
qed simp

lemma build_calls_targets:
  assumes "build_calls env core req_id start_at chain g cm entries w = (Ok calls, w')" "(c, request, md) \<in> set calls"
  shows "\<exists>e. rg_clients (co_registry core) (ce_service e) = Some c \<and> ce_service e \<noteq> co_name core \<and> ce_service e \<notin> set chain \<and>
    child_metadata env e cm = Inr md"
  using assms
proof (induction entries arbitrary: w calls)
  case (Cons e es)
  obtain r w1 where r: "te_random env w = (r, w1)" by force
  show ?case
  proof (cases "ce_probability e \<le> r \<or> ce_service e = co_name core \<or> ce_service e \<in> set chain")
    case True
    then show ?thesis using Cons.IH [of w1 calls] Cons.prems r by simp
  next
    case False
    then have ne: "ce_service e \<noteq> co_name core" "ce_service e \<notin> set chain" by auto
    show ?thesis
    proof (cases "rg_clients (co_registry core) (ce_service e)")
      case None
      then have "build_calls env core req_id start_at chain g cm es w1 = (Ok calls, w')"
        using Cons.prems(1) False r by (auto simp: get_expect_ready_def split: if_splits)
      then show ?thesis using Cons.IH Cons.prems(2) by blast
    next
      case (Some client)
      obtain v w2 where v: "sample_variant_choice (te_fl env) (te_random env) (ce_variants e) w1 = (v, w2)" by force
      obtain m cs w3 rq where m: "child_metadata env e cm = Inr m" "build_calls env core req_id start_at chain g cm es w2 = (Ok cs, w3)"
        "calls = (client, rq, m) # cs"  "w3 = w'"
        using Cons.prems(1) False r Some v by (auto simp: get_expect_ready_def and_then_Ok split: sum.splits)
      show ?thesis
      proof (cases "(c, request, md) \<in> set cs")
        case True
        then show ?thesis using Cons.IH m(2,4) by blast
      next
        case False
        then have "c = client" "md = m" using Cons.prems(2) m(3) by auto
        then show ?thesis using Some m(1) ne by blast
      qed
    qed
  qed
qed simp

lemma run_calls_not_deep:
  "(\<And>c request md w. (c, request, md) \<in> set calls \<Longrightarrow> fst (rpc c request md w) \<noteq> TooDeep) \<Longrightarrow> fst (run_calls rpc calls w) \<noteq> TooDeep"
proof (induction calls arbitrary: w)
  case (Cons call calls)
  obtain c request md where call: "call = (c, request, md)" by (cases call) auto
  have "fst (rpc c request md w) \<noteq> TooDeep" using Cons.prems call by simp
  moreover have "fst (run_calls rpc calls w1) \<noteq> TooDeep" for w1 using Cons by simp
  ultimately show ?case unfolding call by (cases "rpc c request md w"; cases "fst (rpc c request md w)") auto
qed simp

lemma run_steps_not_deep:
  assumes "trace_laws env"
    "\<And>e c request md w. \<lbrakk>rg_clients (co_registry core) (ce_service e) = Some c; ce_service e \<noteq> co_name core; ce_service e \<notin> set chain;
       child_metadata env e cm = Inr md\<rbrakk> \<Longrightarrow> fst (rpc c request md w) \<noteq> TooDeep"
  shows "fst (run_steps env core rpc req_id start_at chain g cm steps w) \<noteq> TooDeep"
proof (induction steps arbitrary: w)
  case (Cons step steps)
  have "fst (run_calls rpc (te_join env calls) w1) \<noteq> TooDeep"
    if "build_calls env core req_id start_at chain g cm step w = (Ok calls, w1)" for calls w1
  proof (rule run_calls_not_deep)
    fix c request md w
    assume "(c, request, md) \<in> set (te_join env calls)"
    then have "(c, request, md) \<in> set calls" using assms(1) unfolding trace_laws_def by (metis set_mset_mset)
    then show "fst (rpc c request md w) \<noteq> TooDeep" using build_calls_targets [OF that] assms(2) by blast
  qed
  then show ?case using Cons by (auto simp: and_then_TooDeep build_calls_not_deep)
qed simp

lemma fanout_with_call_sequence_not_deep:
  assumes "trace_laws env"
    "\<And>v e c request md w. \<lbrakk>encode_parent_chain (te_md env) (chain @ [co_name core]) = Inr (Some v);
       rg_clients (co_registry core) (ce_service e) = Some c; ce_service e \<noteq> co_name core; ce_service e \<notin> set chain;
       child_metadata env e (Some v) = Inr md\<rbrakk> \<Longrightarrow> fst (rpc c request md w) \<noteq> TooDeep"
  shows "fst (fanout_with_call_sequence env core rpc req_id start_at chain g m variant sq w) \<noteq> TooDeep"
proof -
  have "fst (run_steps env core rpc req_id start_at chain g cm steps w1) \<noteq> TooDeep"
    if "encode_parent_chain (te_md env) (chain @ [co_name core]) = Inr cm" for cm steps w1
  proof -
    have "cm \<noteq> None" using that unfolding encode_parent_chain_def Let_def by (metis Inr_inject append_is_Nil_conv not_Cons_self2 option.distinct(1) sum.distinct(1))
    then obtain v where "cm = Some v" by blast
    then show ?thesis using assms that by (intro run_steps_not_deep) blast+
  qed
  then show ?thesis by (auto simp: fanout_with_call_sequence_def split: option.splits prod.splits sum.splits)
qed

lemma child_metadata_chain:
  assumes "trace_laws env" "chain \<noteq> []" "\<forall>n\<in>set chain. chain_name n" "encode_parent_chain (te_md env) chain = Inr (Some v)"
    "child_metadata env e (Some v) = Inr md"
  shows "decode_parent_chain (te_md env) (te_to_str env) md = Inr chain"
proof -
  obtain m2 where "md = md_insert (te_md env) m2 PARENT_CHAIN_METADATA_KEY v"
    using assms(5) by (auto simp: child_metadata_def bind_sum_def split: sum.splits)
  then show ?thesis using parent_chain_read_back [of "te_md env" "te_to_str env" chain m2] assms by (auto simp: trace_laws_def)
qed

text \<open>
  A service is called with a chain that it is not in; so the chain grows with every hop, by a name
  that is new to it, and there are only so many services.
\<close>

lemma trace_cluster_returns:
  assumes laws: "trace_laws env" and dep: "deployed cores" "finite (dom cores)"
  shows "distinct chain \<Longrightarrow> set chain \<subseteq> dom cores \<Longrightarrow> client \<notin> set chain \<Longrightarrow>
    decode_parent_chain (te_md env) (te_to_str env) md = Inr chain \<Longrightarrow> card (dom cores) < depth + length chain \<Longrightarrow>
    fst (trace_cluster env cores depth client request md w) \<noteq> TooDeep"
proof (induction depth arbitrary: chain client request md w)
  case 0
  then have "length chain \<le> card (dom cores)" using dep(2) by (metis card_mono distinct_card)
  then show ?case using 0 by simp
next
  case (Suc depth)
  show ?case
  proof (cases "cores client")
    case (Some core)
    have core: "co_name core = client" "\<And>k c. rg_clients (co_registry core) k = Some c \<Longrightarrow> c = k"
      using dep(1) Some by (auto simp: deployed_def)
    have names: "\<forall>n\<in>set (chain @ [client]). chain_name n" using dep(1) Suc.prems(2) Some by (auto simp: deployed_def)
    have child: "fst (trace_cluster env cores depth c rq md' w') \<noteq> TooDeep"
      if "encode_parent_chain (te_md env) (chain @ [co_name core]) = Inr (Some v)" "rg_clients (co_registry core) (ce_service e) = Some c"
        "ce_service e \<noteq> co_name core" "ce_service e \<notin> set chain" "child_metadata env e (Some v) = Inr md'" for v e c rq md' w'
    proof (rule Suc.IH)
      show "distinct (chain @ [client])" "set (chain @ [client]) \<subseteq> dom cores" "card (dom cores) < depth + length (chain @ [client])"
        using Suc.prems Some by auto
      have "c = ce_service e" using core(2) that(2) by blast
      then show "c \<notin> set (chain @ [client])" using core(1) that(3,4) by auto
      show "decode_parent_chain (te_md env) (te_to_str env) md' = Inr (chain @ [client])"
        using child_metadata_chain [OF laws _ names _ that(5)] that(1) core(1) by simp
    qed
    have "fst (fanout_with_call_sequence env core (trace_cluster env cores depth) i t chain g m v sq w') \<noteq> TooDeep" for i t g m v sq w'
      by (rule fanout_with_call_sequence_not_deep [OF laws child])
    then have "fst (fanout env core (trace_cluster env cores depth) i t chain g m v w') \<noteq> TooDeep" for i t g m v w'
      by (simp add: fanout_def split: option.splits)
    then have "fst (trace_handle_method env core (trace_cluster env cores depth) m v i t chain g w') \<noteq> TooDeep" for m v i t g w'
      by (auto simp: trace_handle_method_def and_then_TooDeep Let_def split: option.splits exec.splits prod.splits)
    then show ?thesis using Some Suc.prems(4) by (auto simp: invoke_def and_then_TooDeep)
  qed simp
qed

text \<open>
  Claim C21. Call graphs of traces have cycles, and following one must not go on for ever. Let the
  names of finitely many services be non-empty visible ASCII without the delimiter \<open>>\<close> of the parent
  chain, and let every client reach the service it is registered for: then a request at the root
  returns, whatever the call sequences say, when the calls are followed to a depth of the number of
  services. A service skips the calls to itself and to those its request came through, which the
  metadata of each call carries. (With the delimiter in names a request need not return: theorem
  \<open>delimiter_in_names_never_returns\<close>.)
\<close>

theorem cyclic_graph_requests_return:
  assumes "trace_laws env" "deployed cores" "finite (dom cores)" "cores n = Some core"
  shows "fst (root_handler env core (trace_cluster env cores (card (dom cores))) req_id start_at graph_name w) \<noteq> TooDeep"
proof -
  let ?rpc = "trace_cluster env cores (card (dom cores))"
  have core: "co_name core = n" "chain_name n" "\<And>k c. rg_clients (co_registry core) k = Some c \<Longrightarrow> c = k"
    using assms(2,4) by (auto simp: deployed_def)
  have "fst (fanout_with_call_sequence env core ?rpc req_id start_at [] g m v sq w') \<noteq> TooDeep" for g m v sq w'
  proof (rule fanout_with_call_sequence_not_deep [OF assms(1)])
    fix v e c rq md w
    assume v: "encode_parent_chain (te_md env) ([] @ [co_name core]) = Inr (Some v)" "rg_clients (co_registry core) (ce_service e) = Some c"
      "ce_service e \<noteq> co_name core" "child_metadata env e (Some v) = Inr md"
    have "c = ce_service e" using core(3) v(2) by blast
    then have c: "c \<noteq> n" using v(3) core(1) by simp
    show "fst (?rpc c rq md w) \<noteq> TooDeep"
    proof (rule trace_cluster_returns [OF assms(1-3)])
      show "decode_parent_chain (te_md env) (te_to_str env) md = Inr [n]"
        using child_metadata_chain [OF assms(1) _ _ _ v(4), of "[n]"] v(1) core by simp
    qed (use c assms(4) in auto)
  qed
  then show ?thesis by (auto simp: root_handler_def and_then_TooDeep Let_def split: option.splits)
qed

section \<open>Examples\<close>

text \<open>A service that calls another, always, in one step.\<close>

definition ex_trace_env :: "(unit, (string \<times> string) list) trace_env" where
  "ex_trace_env = \<lparr>te_md = ex_metadata, te_md_new = [], te_to_str = Inr, te_fl = ex_f64, te_random = (\<lambda>_. (0, ())),
     te_spin_ms = (\<lambda>_ w. w), te_sleep_ms = (\<lambda>_ w. w), te_elapsed_ms = (\<lambda>_ _. 0), te_join = (\<lambda>cs. cs)\<rparr>"

definition ex_calls :: "service_name \<Rightarrow> method_calls" where
  "ex_calls child = [(''v'', \<lparr>cv_id = ''v'', cv_probability = 1,
     cv_sequence = [[\<lparr>ce_service = child, ce_method = ''m'', ce_variants = [], ce_probability = 1\<rparr>]]\<rparr>)]"

definition ex_trace_core :: "service_name \<Rightarrow> service_name \<Rightarrow> trace_core" where
  "ex_trace_core self child =
     \<lparr>co_config = \<lparr>tc_call_graph = [(self, [(child, 1)])],
        tc_method_latency = Some [(GraphId ''S_1'', [(''m'', \<lparr>dist_ps = [1], dist_xs = [10], dist_mode = Linear\<rparr>)])],
        tc_method_freq = None,
        tc_call_sequences = [(GraphId ''S_1'', [(''USER'', ex_calls child), (method_string (as_str self) ''m'', ex_calls child)])]\<rparr>,
      co_registry = \<lparr>rg_clients = [child \<mapsto> child], rg_ready = True\<rparr>, co_name = self, co_is_root = is_root_service self,
      co_child_probs = [(child, 1)]\<rparr>"

definition ex_cycle :: "service_name \<rightharpoonup> trace_core" where
  "ex_cycle = [ServiceName ''user'' \<mapsto> ex_trace_core (ServiceName ''user'') (ServiceName ''a''),
     ServiceName ''a'' \<mapsto> ex_trace_core (ServiceName ''a'') (ServiceName ''b''),
     ServiceName ''b'' \<mapsto> ex_trace_core (ServiceName ''b'') (ServiceName ''a'')]"

lemma ex_trace_laws: "trace_laws ex_trace_env"
  by (simp add: trace_laws_def ex_trace_env_def ex_metadata_laws)

lemma ex_chain_names: "chain_name (ServiceName ''user'')" "chain_name (ServiceName ''a'')" "chain_name (ServiceName ''b'')"
  by code_simp+

lemma ex_cycle_deployed: "deployed ex_cycle"
  unfolding deployed_def ex_cycle_def using ex_chain_names by (auto simp: ex_trace_core_def split: if_splits)

theorem cyclic_graph_requests_return_witness:
  "trace_laws ex_trace_env \<and> deployed ex_cycle \<and> finite (dom ex_cycle) \<and>
   (\<exists>core. ex_cycle (ServiceName ''user'') = Some core \<and>
     fst (root_handler ex_trace_env core (trace_cluster ex_trace_env ex_cycle (card (dom ex_cycle))) 7 0 ''s-1'' ()) \<noteq> TooDeep)"
proof -
  have fin: "finite (dom ex_cycle)" by (simp add: ex_cycle_def)
  have core: "ex_cycle (ServiceName ''user'') = Some (ex_trace_core (ServiceName ''user'') (ServiceName ''a''))"
    by (simp add: ex_cycle_def)
  show ?thesis
    using cyclic_graph_requests_return [OF ex_trace_laws ex_cycle_deployed fin core] ex_trace_laws ex_cycle_deployed fin core by blast
qed

text \<open>
  The chain tells services apart only while their names do not contain its delimiter: two services
  whose names do, and which call each other, call each other for ever.
\<close>

definition ex_endless :: "service_name \<rightharpoonup> trace_core" where
  "ex_endless = [ServiceName ''a>b'' \<mapsto> ex_trace_core (ServiceName ''a>b'') (ServiceName ''c>d''),
     ServiceName ''c>d'' \<mapsto> ex_trace_core (ServiceName ''c>d'') (ServiceName ''a>b'')]"

lemma split_join_snoc:
  "\<forall>x\<in>set xs. c \<notin> set x \<Longrightarrow> split_on c (join_with c (xs @ [y])) = xs @ split_on c y"
  by (induction c xs rule: join_with.induct) (simp_all add: split_on_append_sep)

definition pieces :: "service_name list" where
  "pieces = map ServiceName [''a'', ''b'', ''c'', ''d'']"

lemma pieces_names: "\<forall>n\<in>set pieces. chain_name n"
  by code_simp

lemma delimited_pieces:
  "list_all (\<lambda>n. list_all visible_ascii (as_str n) \<and>
     set (map service_from_string (filter (\<lambda>n. n \<noteq> []) (split_on CHR ''>'' (as_str n)))) \<subseteq> set pieces) [ServiceName ''a>b'', ServiceName ''c>d'']"
  by code_simp

lemma delimited_name_lost:
  assumes "set chain \<subseteq> set pieces" "self \<in> set [ServiceName ''a>b'', ServiceName ''c>d'']"
  shows "\<exists>v chain'. encode_parent_chain ex_metadata (chain @ [self]) = Inr (Some v) \<and>
    decode_parent_chain ex_metadata Inr (md_insert ex_metadata md PARENT_CHAIN_METADATA_KEY v) = Inr chain' \<and> set chain' \<subseteq> set pieces"
proof -
  let ?v = "join_with CHR ''>'' (map as_str chain @ [as_str self])"
  have names: "\<forall>n\<in>set chain. chain_name n" using assms(1) pieces_names by blast
  have self: "list_all visible_ascii (as_str self)" "set (map service_from_string (filter (\<lambda>n. n \<noteq> []) (split_on CHR ''>'' (as_str self)))) \<subseteq> set pieces"
    using assms(2) delimited_pieces unfolding list_all_iff by blast+
  have "visible_ascii (CHR ''>'')" by code_simp
  then have ascii: "list_all visible_ascii ?v" using names self(1) by (intro join_with_ascii) (auto simp: chain_name_def)
  then have ok: "md_value_ok ex_metadata ?v" using ex_metadata_laws unfolding metadata_laws_def list_all_iff by metis
  have split: "split_on CHR ''>'' ?v = map as_str chain @ split_on CHR ''>'' (as_str self)"
    using names by (intro split_join_snoc) (auto simp: chain_name_def)
  have "set (map service_from_string (filter (\<lambda>n. n \<noteq> []) (map as_str chain))) \<subseteq> set pieces" using names assms(1) by (auto simp: chain_name_def)
  then have "set (map service_from_string (filter (\<lambda>n. n \<noteq> []) (split_on CHR ''>'' ?v))) \<subseteq> set pieces"
    using self(2) unfolding split filter_append map_append set_append by (rule Un_least)
  moreover have "md_get ex_metadata (md_insert ex_metadata md PARENT_CHAIN_METADATA_KEY ?v) PARENT_CHAIN_METADATA_KEY = Some ?v"
    using ex_metadata_laws ok by (simp add: metadata_laws_def)
  ultimately have "\<exists>chain'. decode_parent_chain ex_metadata Inr (md_insert ex_metadata md PARENT_CHAIN_METADATA_KEY ?v) = Inr chain' \<and> set chain' \<subseteq> set pieces"
    by (auto simp: decode_parent_chain_def)
  then show ?thesis using ok by (simp add: encode_parent_chain_def)
qed

lemma ex_trace_env_simps:
  "te_md ex_trace_env = ex_metadata" "te_md_new ex_trace_env = []" "te_to_str ex_trace_env = Inr" "te_fl ex_trace_env = ex_f64"
  "te_random ex_trace_env = (\<lambda>_. (0, ()))" "te_join ex_trace_env = (\<lambda>cs. cs)"
  by (simp_all add: ex_trace_env_def)

lemma ex_trace_core_simps:
  "co_name (ex_trace_core self child) = self" "co_is_root (ex_trace_core self child) = is_root_service self"
  "co_child_probs (ex_trace_core self child) = [(child, 1)]"
  "co_registry (ex_trace_core self child) = \<lparr>rg_clients = [child \<mapsto> child], rg_ready = True\<rparr>"
  "tc_method_latency (co_config (ex_trace_core self child)) =
     Some [(GraphId ''S_1'', [(''m'', \<lparr>dist_ps = [1], dist_xs = [10], dist_mode = Linear\<rparr>)])]"
  "tc_call_sequences (co_config (ex_trace_core self child)) =
     [(GraphId ''S_1'', [(''USER'', ex_calls child), (method_string (as_str self) ''m'', ex_calls child)])]"
  by (simp_all add: ex_trace_core_def)

lemma ex_core_calls_child:
  assumes "self \<noteq> child" "child \<notin> set chain" "\<not> is_root_service self" "as_str child \<noteq> []" "list_all visible_ascii (as_str child)"
    "encode_parent_chain ex_metadata (chain @ [self]) = Inr (Some v)" "decode_parent_chain ex_metadata Inr md = Inr chain"
    "\<And>(rq :: invoke_request) md0. iq_method rq = ''m'' \<Longrightarrow> iq_graph rq = ''S_1'' \<Longrightarrow> iq_variant rq = [] \<Longrightarrow>
       rpc child rq (md_insert ex_metadata md0 PARENT_CHAIN_METADATA_KEY v) () = (TooDeep, ())"
    "iq_method request = ''m''" "iq_graph request = ''S_1''" "iq_variant request = []"
  shows "invoke ex_trace_env (ex_trace_core self child) rpc request md () = (TooDeep, ())"
proof -
  let ?core = "ex_trace_core self child"
  have g: "graph_from_string ''S_1'' = GraphId ''S_1''" by code_simp
  have m: "call_sequence_method_id ?core ''m'' = method_string (as_str self) ''m''" "method_string (as_str self) ''m'' \<noteq> ''USER''"
    by (auto simp: call_sequence_method_id_def ex_trace_core_simps method_string_def dest: arg_cong [where f = last])
  have sel: "select_call_sequence_variant ex_f64 (\<lambda>_. (0, ())) (ex_calls child) None () = (Inr (snd (hd (ex_calls child))), ())"
    by (simp add: select_call_sequence_variant_def sample_weighted_variant_def sample_choice_def ex_calls_def ex_f64_def f_add_def f_mul_def f_sub_def Let_def)
  obtain md0 where md0: "child_metadata ex_trace_env \<lparr>ce_service = child, ce_method = ''m'', ce_variants = [], ce_probability = 1\<rparr> (Some v) =
    Inr (md_insert ex_metadata md0 PARENT_CHAIN_METADATA_KEY v)"
    using assms(5) by (simp add: child_metadata_def put_header_def bind_sum_def ex_trace_env_simps ex_metadata_def) (simp add: visible_ascii_def)
  have "sample_variant_choice ex_f64 (\<lambda>_. (0, ())) [] () = (None, ())"
    by (simp add: sample_variant_choice_def sample_choice_def)
  then have "run_steps ex_trace_env ?core rpc i t chain (GraphId ''S_1'') (Some v) (cv_sequence (snd (hd (ex_calls child)))) () = (TooDeep, ())" for i t
    using assms(1,2) md0 assms(8) by (simp add: ex_calls_def ex_trace_env_simps ex_trace_core_simps get_expect_ready_def unwrap_or_def)
  then have "fanout ex_trace_env ?core rpc i t chain (GraphId ''S_1'') ''m'' None () = (TooDeep, ())" for i t
    using assms(6) m sel by (simp add: fanout_def fanout_with_call_sequence_def ex_trace_core_simps ex_trace_env_simps)
  then have "trace_handle_method ex_trace_env ?core rpc ''m'' None i t chain (GraphId ''S_1'') () = (TooDeep, ())" for i t
    by (simp add: trace_handle_method_def get_method_dist_def sample_dist_def quantile01_def index_def ex_trace_core_simps ex_trace_env_simps)
  then show ?thesis using assms(3,7,9-11) g by (simp add: invoke_def ex_trace_core_simps ex_trace_env_simps)
qed

theorem delimiter_in_names_never_returns:
  assumes "client \<in> set [ServiceName ''a>b'', ServiceName ''c>d'']" "decode_parent_chain ex_metadata Inr md = Inr chain" "set chain \<subseteq> set pieces"
    "iq_method request = ''m''" "iq_graph request = ''S_1''" "iq_variant request = []"
  shows "trace_cluster ex_trace_env ex_endless depth client request md () = (TooDeep, ())"
  using assms
proof (induction depth arbitrary: client request md chain)
  case (Suc depth)
  define child where "child = (if client = ServiceName ''a>b'' then ServiceName ''c>d'' else ServiceName ''a>b'')"
  have child: "child \<in> set [ServiceName ''a>b'', ServiceName ''c>d'']" "client \<noteq> child" "ex_endless client = Some (ex_trace_core client child)"
    using Suc.prems(1) by (auto simp: child_def ex_endless_def)
  have "list_all (\<lambda>n. n \<notin> set pieces \<and> \<not> is_root_service n \<and> as_str n \<noteq> [] \<and> list_all visible_ascii (as_str n)) [ServiceName ''a>b'', ServiceName ''c>d'']"
    by code_simp
  then have n: "n \<notin> set pieces" "\<not> is_root_service n" "as_str n \<noteq> []" "list_all visible_ascii (as_str n)"
    if "n \<in> set [ServiceName ''a>b'', ServiceName ''c>d'']" for n using that unfolding list_all_iff by blast+
  obtain v where v: "encode_parent_chain ex_metadata (chain @ [client]) = Inr (Some v)"
    "\<exists>chain'. decode_parent_chain ex_metadata Inr (md_insert ex_metadata md0 PARENT_CHAIN_METADATA_KEY v) = Inr chain' \<and> set chain' \<subseteq> set pieces" for md0
    using delimited_name_lost [OF Suc.prems(3,1)] by (metis Inr_inject option.inject)
  have "invoke ex_trace_env (ex_trace_core client child) (trace_cluster ex_trace_env ex_endless depth) request md () = (TooDeep, ())"
  proof (rule ex_core_calls_child [OF child(2) _ n(2) [OF Suc.prems(1)] n(3,4) [OF child(1)] v(1) Suc.prems(2)])
    show "child \<notin> set chain" using n(1) [OF child(1)] Suc.prems(3) by blast
    fix rq :: invoke_request and md0
    assume rq: "iq_method rq = ''m''" "iq_graph rq = ''S_1''" "iq_variant rq = []"
    show "trace_cluster ex_trace_env ex_endless depth child rq (md_insert ex_metadata md0 PARENT_CHAIN_METADATA_KEY v) () = (TooDeep, ())"
      using v(2) [of md0] Suc.IH [OF child(1) _ _ rq] by blast
  qed (use Suc.prems in auto)
  then show ?case using child(3) by simp
qed simp

end
