(* ===== verification/Trace_Replay.thy ===== *)
theory Trace_Replay
  imports Trace_Config
begin

text \<open>
  Replaying recorded traces: the load generator of the trace benchmark
  (\<open>apps/tracebench/generic-service/src/replay.rs\<close> and \<open>loadgen.rs\<close>) turns the spans of a recorded
  request into the message of a replay request, and the services execute its spans
  (\<open>service_replay.rs\<close>, \<open>core.rs\<close> and \<open>main.rs\<close> there).

  The world \<open>'w\<close> is what spinning and sleeping change; how much time lies between two of its states,
  in nanoseconds, is a parameter. The context that a child call carries, with the deadline of the
  request, does not influence the replay and is left out.
\<close>

section \<open>From recorded spans to messages\<close>

datatype frontend_span = FrontendSpan
  (fs_kind: string) (fs_latency_us: "u64 option") (fs_service_name: "string option") (fs_start_timestamp: "u64 option")
  (fs_spans: "frontend_span list")

record frontend_request =
  fr_service_name :: string
  fr_request_id :: "u64 option"
  fr_start_at :: "u64 option"
  fr_span_latency_us :: "u64 option"
  fr_spans :: "frontend_span list"

datatype proto_span = LocalSpan int u64 | ChildSpans string "proto_span list" | NoKind

record replay_request =
  rr_req_id :: u64
  rr_exclude_queue_latency :: u64
  rr_slo :: u64
  rr_start_at :: u64
  rr_deadline :: u64
  rr_spans :: "proto_span list"

record replay_work_item =
  wi_offset_us :: u64
  wi_payload :: replay_request

datatype convert_error = MissingServiceName | UnsupportedSpan string | NoEntries | NoStartTimes | NoUsableSpans

fun convert_span_to_proto :: "frontend_span \<Rightarrow> convert_error + proto_span \<times> u64"
  and convert_spans_to_proto :: "frontend_span list \<Rightarrow> proto_span list \<Rightarrow> u64 \<Rightarrow> convert_error + proto_span list \<times> u64" where
  "convert_span_to_proto (FrontendSpan kind latency_us service_name start spans) =
     (if kind = ''Compute'' then Inr (LocalSpan 1 (unwrap_or latency_us 0), unwrap_or latency_us 0)
      else if kind = ''Block'' then Inr (LocalSpan 2 (unwrap_or latency_us 0), unwrap_or latency_us 0)
      else if kind = ''ChildCall'' then
        (case service_name of
           None \<Rightarrow> Inl MissingServiceName
         | Some name \<Rightarrow>
             (case convert_spans_to_proto spans [] 0 of
                Inl e \<Rightarrow> Inl e
              | Inr (child_spans, child_latency) \<Rightarrow> Inr (ChildSpans name child_spans, unwrap_or latency_us child_latency)))
      else Inl (UnsupportedSpan kind))"
| "convert_spans_to_proto [] proto_spans total_latency = Inr (proto_spans, total_latency)"
| "convert_spans_to_proto (sp # spans) proto_spans total_latency =
     (case convert_span_to_proto sp of
        Inl e \<Rightarrow> Inl e
      | Inr (proto_span, span_latency) \<Rightarrow>
          convert_spans_to_proto spans (proto_spans @ [proto_span]) (saturating_add total_latency span_latency))"

fun work_items :: "u64 \<Rightarrow> frontend_request list \<Rightarrow> replay_work_item list \<Rightarrow> convert_error + replay_work_item list" where
  "work_items base_start [] items = Inr items"
| "work_items base_start (request # requests) items =
     (case fr_start_at request of
        None \<Rightarrow> work_items base_start requests items
      | Some start_at \<Rightarrow>
          if fr_spans request = [] then work_items base_start requests items
          else (case convert_spans_to_proto (fr_spans request) [] 0 of
                  Inl e \<Rightarrow> Inl e
                | Inr (proto_spans, total_span_latency) \<Rightarrow>
                    if proto_spans = [] then work_items base_start requests items
                    else let exclude_queue_latency = unwrap_or (fr_span_latency_us request) total_span_latency in
                      work_items base_start requests (items @ [\<lparr>wi_offset_us = saturating_sub start_at base_start,
                        wi_payload = \<lparr>rr_req_id = unwrap_or (fr_request_id request) 0, rr_exclude_queue_latency = exclude_queue_latency,
                          rr_slo = 50000, rr_start_at = start_at, rr_deadline = saturating_add start_at exclude_queue_latency,
                          rr_spans = proto_spans\<rparr>\<rparr>])))"

definition load_frontend_replay_items :: "frontend_request list \<Rightarrow> convert_error + replay_work_item list" where
  "load_frontend_replay_items requests =
     (if requests = [] then Inl NoEntries
      else let sorted_requests = sort_key (\<lambda>r. unwrap_or (fr_start_at r) (- 1)) requests in
        (case List.map_filter fr_start_at sorted_requests of
           [] \<Rightarrow> Inl NoStartTimes
         | t # ts \<Rightarrow>
             (case work_items (fold min ts t) sorted_requests [] of
                Inl e \<Rightarrow> Inl e
              | Inr [] \<Rightarrow> Inl NoUsableSpans
              | Inr items \<Rightarrow> Inr (sort_key wi_offset_us items))))"

section \<open>Executing a replay request\<close>

datatype replay_action = Computing u64 | Blocking u64

datatype replay_error = ChildServiceNotFound string | ChildCallFailed string | SloExceeded

record 'w replay_env =
  re_perform :: "service_name \<Rightarrow> replay_action \<Rightarrow> 'w \<Rightarrow> 'w"
  re_elapsed_ns :: "'w \<Rightarrow> 'w \<Rightarrow> nat"
  re_clients :: "service_name \<Rightarrow> service_name \<rightharpoonup> service_name"

record 'w replay_state =
  rs_world :: 'w
  rs_overshot :: "service_name \<Rightarrow> u64"

definition execute_local_span :: "'w replay_env \<Rightarrow> service_name \<Rightarrow> int \<Rightarrow> u64 \<Rightarrow> 'w \<Rightarrow> 'w" where
  "execute_local_span env svc ty val w =
     (if ty = 1 then re_perform env svc (Computing val) w else if ty = 2 then re_perform env svc (Blocking val) w else w)"

definition evaluate_replay_timing ::
    "service_name \<Rightarrow> nat \<Rightarrow> replay_request \<Rightarrow> (service_name \<Rightarrow> u64) \<Rightarrow> (replay_error + unit) \<times> (service_name \<Rightarrow> u64)" where
  "evaluate_replay_timing svc elapsed_ns request overshot =
     (if unat (rr_exclude_queue_latency request) < elapsed_ns div 10 ^ 6 then (Inr (), overshot(svc := overshot svc + 1))
      else if unat (rr_slo request) < elapsed_ns div 10 ^ 3 then (Inl SloExceeded, overshot)
      else (Inr (), overshot))"

text \<open>The end of the handler \<open>replay\<close>, after its spans have been executed.\<close>

definition finish_replay ::
    "'w replay_env \<Rightarrow> replay_request \<Rightarrow> service_name \<Rightarrow> 'w \<Rightarrow> (replay_error + unit) \<times> 'w replay_state \<Rightarrow> (replay_error + unit) \<times> 'w replay_state" where
  "finish_replay env request svc start r =
     (case r of
        (Inl e, st) \<Rightarrow> (Inl e, st)
      | (Inr _, st) \<Rightarrow>
          (case evaluate_replay_timing svc (re_elapsed_ns env start (rs_world st)) request (rs_overshot st) of
             (res, overshot) \<Rightarrow> (res, st\<lparr>rs_overshot := overshot\<rparr>)))"

fun run_span :: "'w replay_env \<Rightarrow> replay_request \<Rightarrow> service_name \<Rightarrow> proto_span \<Rightarrow> 'w replay_state \<Rightarrow> (replay_error + unit) \<times> 'w replay_state"
  and run_spans :: "'w replay_env \<Rightarrow> replay_request \<Rightarrow> service_name \<Rightarrow> proto_span list \<Rightarrow> 'w replay_state \<Rightarrow> (replay_error + unit) \<times> 'w replay_state" where
  "run_span env request svc NoKind st = (Inr (), st)"
| "run_span env request svc (LocalSpan ty val) st = (Inr (), st\<lparr>rs_world := execute_local_span env svc ty val (rs_world st)\<rparr>)"
| "run_span env request svc (ChildSpans name spans) st =
     (case re_clients env svc (service_from_string name) of
        None \<Rightarrow> (Inl (ChildServiceNotFound name), st)
      | Some client \<Rightarrow>
          (case finish_replay env (request\<lparr>rr_spans := spans\<rparr>) client (rs_world st) (run_spans env (request\<lparr>rr_spans := spans\<rparr>) client spans st) of
             (Inl _, st1) \<Rightarrow> (Inl (ChildCallFailed name), st1)
           | (Inr _, st1) \<Rightarrow> (Inr (), st1)))"
| "run_spans env request svc [] st = (Inr (), st)"
| "run_spans env request svc (sp # spans) st =
     (case run_span env request svc sp st of
        (Inl e, st1) \<Rightarrow> (Inl e, st1)
      | (Inr _, st1) \<Rightarrow> run_spans env request svc spans st1)"

definition replay :: "'w replay_env \<Rightarrow> service_name \<Rightarrow> replay_request \<Rightarrow> 'w replay_state \<Rightarrow> (replay_error + u64) \<times> 'w replay_state" where
  "replay env svc request st =
     (case finish_replay env request svc (rs_world st) (run_spans env request svc (rr_spans request) st) of
        (Inl e, st1) \<Rightarrow> (Inl e, st1)
      | (Inr _, st1) \<Rightarrow> (Inr (rr_req_id request), st1))"

section \<open>A replay performs the recorded work\<close>

text \<open>What a recorded request did, at which service, in the order of its spans.\<close>

fun span_work :: "service_name \<Rightarrow> frontend_span \<Rightarrow> (service_name \<times> replay_action) list" where
  "span_work svc (FrontendSpan kind latency_us service_name start spans) =
     (if kind = ''Compute'' then [(svc, Computing (unwrap_or latency_us 0))]
      else if kind = ''Block'' then [(svc, Blocking (unwrap_or latency_us 0))]
      else concat (map (span_work (service_from_string (unwrap_or service_name []))) spans))"

text \<open>The clients that a recorded request needs exist, and each reaches the service it is registered for.\<close>

fun reachable_span :: "'w replay_env \<Rightarrow> service_name \<Rightarrow> frontend_span \<Rightarrow> bool" where
  "reachable_span env svc (FrontendSpan kind latency_us service_name start spans) \<longleftrightarrow>
     kind = ''ChildCall'' \<longrightarrow>
       (let child = service_from_string (unwrap_or service_name []) in
        re_clients env svc child = Some child \<and> list_all (reachable_span env child) spans)"

abbreviation perform_all :: "'w replay_env \<Rightarrow> (service_name \<times> replay_action) list \<Rightarrow> 'w \<Rightarrow> 'w" where
  "perform_all env \<equiv> fold (\<lambda>(svc, a). re_perform env svc a)"

text \<open>
  A monotonic clock: the time between two worlds is the difference of their times, and work does not
  set it back. \<open>in_time\<close>: from a world on, some work takes no longer than the objective.
\<close>

definition monotonic_clock :: "'w replay_env \<Rightarrow> ('w \<Rightarrow> nat) \<Rightarrow> bool" where
  "monotonic_clock env now_ns \<longleftrightarrow> (\<forall>w w'. re_elapsed_ns env w w' = now_ns w' - now_ns w) \<and> (\<forall>svc a w. now_ns w \<le> now_ns (re_perform env svc a w))"

abbreviation in_time :: "'w replay_env \<Rightarrow> ('w \<Rightarrow> nat) \<Rightarrow> replay_request \<Rightarrow> (service_name \<times> replay_action) list \<Rightarrow> 'w \<Rightarrow> bool" where
  "in_time env now_ns request work w \<equiv> (now_ns (perform_all env work w) - now_ns w) div 10 ^ 3 \<le> unat (rr_slo request)"

text \<open>
  What some execution did of its work: a beginning of it, all of it if it succeeded, which it does if
  there is time enough.
\<close>

definition replayed :: "'w replay_env \<Rightarrow> ('w \<Rightarrow> nat) \<Rightarrow> replay_request \<Rightarrow> (service_name \<times> replay_action) list \<Rightarrow> 'w \<Rightarrow> (replay_error + 'a) \<times> 'w replay_state \<Rightarrow> bool" where
  "replayed env now_ns request work w r \<longleftrightarrow> (\<exists>performed rest. work = performed @ rest \<and> rs_world (snd r) = perform_all env performed w \<and>
     ((\<exists>v. fst r = Inr v) \<longrightarrow> rest = [])) \<and> (in_time env now_ns request work w \<longrightarrow> (\<exists>v. fst r = Inr v))"

lemma perform_all_later: "monotonic_clock env now_ns \<Longrightarrow> now_ns w \<le> now_ns (perform_all env work w)"
proof (induction work arbitrary: w)
  case (Cons x work)
  obtain svc a where x: "x = (svc, a)" by fastforce
  have "now_ns w \<le> now_ns (re_perform env svc a w)" using Cons.prems by (simp add: monotonic_clock_def)
  also have "\<dots> \<le> now_ns (perform_all env work (re_perform env svc a w))" by (rule Cons.IH [OF Cons.prems])
  finally show ?case by (simp add: x)
qed simp

lemma replayedI:
  assumes "work = performed @ rest" "rs_world (snd r) = perform_all env performed w" "\<And>v. fst r = Inr v \<Longrightarrow> rest = []"
    and "in_time env now_ns request work w \<Longrightarrow> \<exists>v. fst r = Inr v"
  shows "replayed env now_ns request work w r"
  unfolding replayed_def using assms by blast

lemma replayed_all: "rs_world st = perform_all env work w \<Longrightarrow> replayed env now_ns request work w (Inr v, st)"
  unfolding replayed_def by (intro conjI exI [of _ work] exI [of _ "[]"]) simp_all

lemma replayed_same:
  assumes "replayed env now_ns request work w r" "snd r' = snd r" "(\<exists>v. fst r' = Inr v) = (\<exists>v. fst r = Inr v)" "rr_slo request' = rr_slo request"
  shows "replayed env now_ns request' work w r'"
  using assms unfolding replayed_def by simp

lemma in_time_parts:
  assumes "monotonic_clock env now_ns" "in_time env now_ns request (xs @ ys) w"
  shows "in_time env now_ns request xs w" "in_time env now_ns request ys (perform_all env xs w)"
proof -
  let ?w = "perform_all env xs w"
  have "now_ns w \<le> now_ns ?w" "now_ns ?w \<le> now_ns (perform_all env ys ?w)" by (rule perform_all_later [OF assms(1)])+
  then have "now_ns ?w - now_ns w \<le> now_ns (perform_all env (xs @ ys) w) - now_ns w"
    "now_ns (perform_all env ys ?w) - now_ns ?w \<le> now_ns (perform_all env (xs @ ys) w) - now_ns w" by simp_all
  then show "in_time env now_ns request xs w" "in_time env now_ns request ys ?w"
    using assms(2) div_le_mono order_trans by blast+
qed

lemma finish_replayed:
  assumes "monotonic_clock env now_ns" "replayed env now_ns request work w r"
  shows "replayed env now_ns request work w (finish_replay env request svc w r)"
proof -
  obtain res st where r: "r = (res, st)" by fastforce
  show ?thesis
  proof (cases res)
    case (Inl e)
    then show ?thesis using assms(2) by (simp add: r finish_replay_def)
  next
    case (Inr v)
    then have all: "rs_world st = perform_all env work w" using assms(2) by (auto simp: r replayed_def)
    have timing: "rs_world (snd (finish_replay env request svc w r)) = rs_world st"
      "in_time env now_ns request work w \<Longrightarrow> \<exists>v. fst (finish_replay env request svc w r) = Inr v"
      using assms(1) all Inr by (auto simp: r finish_replay_def evaluate_replay_timing_def monotonic_clock_def)
    show ?thesis unfolding replayed_def using all timing by (intro conjI exI [of _ work] exI [of _ "[]"]) auto
  qed
qed

lemma replayed_append:
  assumes "monotonic_clock env now_ns" "replayed env now_ns request xs w r"
    and "\<And>v st. r = (Inr v, st) \<Longrightarrow> replayed env now_ns request ys (rs_world st) r'" "\<And>e st. r = (Inl e, st) \<Longrightarrow> r' = (Inl e, st)"
  shows "replayed env now_ns request (xs @ ys) w r'"
proof -
  obtain performed rest where p: "xs = performed @ rest" "rs_world (snd r) = perform_all env performed w" "(\<exists>v. fst r = Inr v) \<longrightarrow> rest = []"
    "in_time env now_ns request xs w \<longrightarrow> (\<exists>v. fst r = Inr v)" using assms(2) unfolding replayed_def by blast
  note parts = in_time_parts [OF assms(1), where request = request and xs = xs and ys = ys and w = w]
  show ?thesis
  proof (cases "fst r")
    case (Inl e)
    then have "r' = (Inl e, snd r)" using assms(4) [of e "snd r"] by (metis prod.collapse)
    moreover have "\<not> in_time env now_ns request (xs @ ys) w" using p(4) Inl parts(1) by (metis sum.distinct(1))
    moreover have "xs @ ys = performed @ (rest @ ys)" using p(1) by simp
    ultimately show ?thesis using p(2) by (intro replayedI [of _ performed "rest @ ys"]) simp_all
  next
    case (Inr v)
    then have r': "replayed env now_ns request ys (perform_all env xs w) r'" using assms(3) [of v "snd r"] p by (metis append_Nil2 prod.collapse)
    then obtain q rest' where q: "ys = q @ rest'" "rs_world (snd r') = perform_all env q (perform_all env xs w)" "(\<exists>v. fst r' = Inr v) \<longrightarrow> rest' = []"
      unfolding replayed_def by blast
    show ?thesis
    proof (rule replayedI)
      show "xs @ ys = (xs @ q) @ rest'" using q(1) by simp
      show "rs_world (snd r') = perform_all env (xs @ q) w" using q(2) by simp
      show "rest' = []" if "fst r' = Inr v" for v using q(3) that by blast
      show "\<exists>v. fst r' = Inr v" if "in_time env now_ns request (xs @ ys) w" using r' parts(2) [OF that] unfolding replayed_def by blast
    qed
  qed
qed

lemma run_converted:
  assumes clock: "monotonic_clock env now_ns"
  shows "convert_span_to_proto sp = Inr (p, l) \<Longrightarrow> reachable_span env svc sp \<Longrightarrow>
      replayed env now_ns request (span_work svc sp) (rs_world st) (run_span env request svc p st)"
    "convert_spans_to_proto spans ps0 t0 = Inr (ps, t) \<Longrightarrow> list_all (reachable_span env svc) spans \<Longrightarrow>
      \<exists>qs. ps = ps0 @ qs \<and> replayed env now_ns request (concat (map (span_work svc) spans)) (rs_world st) (run_spans env request svc qs st)"
proof (induction sp and spans ps0 t0 arbitrary: p l svc request st and ps t svc request st rule: convert_span_to_proto_convert_spans_to_proto.induct)
  case (1 kind latency_us service_name start spans)
  show ?case
  proof (cases "kind = ''Compute'' \<or> kind = ''Block''")
    case True
    then show ?thesis using 1(2) by (auto simp: execute_local_span_def intro!: replayed_all)
  next
    case False
    then obtain name cs cl where c: "kind = ''ChildCall''" "service_name = Some name" "convert_spans_to_proto spans [] 0 = Inr (cs, cl)"
      "p = ChildSpans name cs"
      using 1(2) by (auto split: if_splits option.splits sum.splits)
    let ?child = "service_from_string name" and ?rq = "request\<lparr>rr_spans := cs\<rparr>"
    let ?r = "finish_replay env ?rq ?child (rs_world st) (run_spans env ?rq ?child cs st)"
    have child: "re_clients env svc ?child = Some ?child" "list_all (reachable_span env ?child) spans"
      using 1(3) c by (simp_all add: unwrap_or_def Let_def)
    have "replayed env now_ns ?rq (concat (map (span_work ?child) spans)) (rs_world st) (run_spans env ?rq ?child cs st)"
      using 1(1) [OF _ _ c(1,2) c(3) child(2), of ?rq st] False by auto
    from finish_replayed [OF clock this] have r: "replayed env now_ns ?rq (concat (map (span_work ?child) spans)) (rs_world st) ?r" .
    have run: "run_span env request svc p st = (case ?r of (Inl _, st1) \<Rightarrow> (Inl (ChildCallFailed name), st1) | (Inr _, st1) \<Rightarrow> (Inr (), st1))"
      using c(4) child(1) by simp
    have work: "span_work svc (FrontendSpan kind latency_us service_name start spans) = concat (map (span_work ?child) spans)"
      using c by (simp add: unwrap_or_def)
    show ?thesis unfolding work run by (rule replayed_same [OF r]) (auto split: prod.split sum.split)
  qed
next
  case (2 ps0 t0)
  then show ?case by (auto intro!: replayed_all)
next
  case (3 sp spans ps0 t0)
  obtain p l where pl: "convert_span_to_proto sp = Inr (p, l)" "convert_spans_to_proto spans (ps0 @ [p]) (saturating_add t0 l) = Inr (ps, t)"
    using 3(3) by (auto split: sum.splits)
  let ?r = "run_span env request svc p st"
  have first: "replayed env now_ns request (span_work svc sp) (rs_world st) ?r" using 3(1) [OF pl(1), of svc request st] 3(4) by simp
  have "\<exists>qs. ps = (ps0 @ [p]) @ qs \<and> replayed env now_ns request (concat (map (span_work svc) spans)) (rs_world st1) (run_spans env request svc qs st1)" for st1
    using 3(2) [OF pl(1) refl pl(2), of svc request st1] 3(4) by auto
  then obtain qs where qs: "ps = (ps0 @ [p]) @ qs"
    "\<And>st1. replayed env now_ns request (concat (map (span_work svc) spans)) (rs_world st1) (run_spans env request svc qs st1)"
    by (metis same_append_eq)
  have "replayed env now_ns request (span_work svc sp @ concat (map (span_work svc) spans)) (rs_world st) (run_spans env request svc (p # qs) st)"
    by (rule replayed_append [OF clock first]) (simp_all add: qs(2))
  then show ?case using qs(1) by (intro exI [of _ "p # qs"]) simp
qed


definition ex_recorded :: "frontend_span list" where
  "ex_recorded = [FrontendSpan ''Compute'' (Some 5) None None [],
     FrontendSpan ''ChildCall'' None (Some ''MS_1'') None [FrontendSpan ''Block'' (Some 7) None None []]]"

text \<open>A world with a clock, which the work advances by its microseconds and some, and a log.\<close>

definition ex_replay_env :: "(nat \<times> (service_name \<times> replay_action) list) replay_env" where
  "ex_replay_env = \<lparr>re_perform = (\<lambda>svc a (t, w). (t + 1000 * (case a of Computing v \<Rightarrow> unat v | Blocking v \<Rightarrow> unat v) + 250, w @ [(svc, a)])),
     re_elapsed_ns = (\<lambda>(t, _) (t', _). t' - t), re_clients = (\<lambda>_ n. Some n)\<rparr>"


section \<open>Timing\<close>

text \<open>
  The latency of the recorded spans is in microseconds, but it is compared with the elapsed
  milliseconds: a replay that takes a third longer than recorded is not counted, and one that is counted
  took a thousand times as long. An objective of 50 ms is then checked instead.
\<close>

lemma overshoot_not_counted:
  "evaluate_replay_timing svc 40000000 \<lparr>rr_req_id = 0, rr_exclude_queue_latency = 30000, rr_slo = 50000, rr_start_at = 0, rr_deadline = 0, rr_spans = []\<rparr> ov =
     (Inr (), ov)"
  by (simp add: evaluate_replay_timing_def)

lemma overshoot_counted:
  assumes "snd (evaluate_replay_timing svc elapsed_ns request ov) \<noteq> ov"
  shows "unat (rr_exclude_queue_latency request) * 10 ^ 6 < elapsed_ns"
proof -
  have "unat (rr_exclude_queue_latency request) < elapsed_ns div 10 ^ 6" using assms by (auto simp: evaluate_replay_timing_def split: if_splits)
  then have "unat (rr_exclude_queue_latency request) + 1 \<le> elapsed_ns div 10 ^ 6" by simp
  then have "(unat (rr_exclude_queue_latency request) + 1) * 10 ^ 6 \<le> elapsed_ns div 10 ^ 6 * 10 ^ 6" by (rule mult_le_mono1)
  then show ?thesis using div_times_less_eq_dividend [of elapsed_ns "10 ^ 6"] by simp
qed

section \<open>Scheduling the replay\<close>

lemma work_items_offsets:
  assumes "work_items b rs items = Inr items'" "\<forall>r\<in>set rs. \<forall>t. fr_start_at r = Some t \<longrightarrow> b \<le> t"
    "\<forall>i\<in>set items. wi_offset_us i = rr_start_at (wi_payload i) - b"
  shows "\<forall>i\<in>set items'. wi_offset_us i = rr_start_at (wi_payload i) - b"
  using assms
proof (induction b rs items rule: work_items.induct)
  case (2 b r rs items)
  show ?case
  proof (cases "fr_start_at r")
    case None
    then show ?thesis using 2(1) [OF None] 2(5-7) by simp
  next
    case (Some t)
    have bt: "b \<le> t" using 2(6) Some by simp
    then have off: "saturating_sub t b = t - b" by (auto simp: saturating_sub_def)
    show ?thesis
    proof (cases "fr_spans r = []")
      case True
      then show ?thesis using 2(2) [OF Some True] 2(5-7) Some by simp
    next
      case False
      then obtain ps l where c: "convert_spans_to_proto (fr_spans r) [] 0 = Inr (ps, l)" using 2(5) Some by (auto split: sum.splits)
      show ?thesis
      proof (cases "ps = []")
        case True
        then show ?thesis using 2(3) [OF Some False c refl True] 2(5-7) Some False c by simp
      next
        case ps: False
        show ?thesis using 2(4) [OF Some False c refl ps refl] 2(5-7) Some False c ps off by (simp add: Let_def)
      qed
    qed
  qed
qed simp

lemma fold_min_le: "fold min ts t \<le> (t :: u64)" "x \<in> set ts \<Longrightarrow> fold min ts t \<le> x"
proof -
  have *: "fold min ts t \<le> t" for ts and t :: u64
  proof (induction ts arbitrary: t)
    case (Cons a ts)
    then show ?case using min.cobounded2 [of a t] by (metis fold_simps(2) order_trans)
  qed simp
  then show "fold min ts t \<le> t" .
  show "x \<in> set ts \<Longrightarrow> fold min ts t \<le> x"
  proof (induction ts arbitrary: t)
    case (Cons a ts)
    have "fold min ts (min a t) \<le> min a t" by (rule *)
    then show ?case using Cons by auto
  qed simp
qed

text \<open>The requests are issued in the order of their offsets, which are their distances from the first.\<close>

theorem replay_items_in_order:
  assumes "load_frontend_replay_items requests = Inr items"
  shows "sorted (map wi_offset_us items) \<and> (\<exists>b. \<forall>i\<in>set items. wi_offset_us i = rr_start_at (wi_payload i) - b)"
proof -
  let ?rs = "sort_key (\<lambda>r. unwrap_or (fr_start_at r) (- 1)) requests"
  obtain t ts ws where l: "List.map_filter fr_start_at ?rs = t # ts" "work_items (fold min ts t) ?rs [] = Inr ws" "items = sort_key wi_offset_us ws"
    using assms by (auto simp: load_frontend_replay_items_def Let_def split: if_splits list.splits sum.splits)
  have "fold min ts t \<le> x" if "r \<in> set ?rs" "fr_start_at r = Some x" for r x
  proof -
    have "x \<in> set (t # ts)" using that unfolding l(1) [symmetric] by (force simp: map_filter_def)
    then show ?thesis using fold_min_le by auto
  qed
  then show ?thesis using work_items_offsets [OF l(2)] l(3) by auto
qed

section \<open>Load\<close>

text \<open>\<open>ClientPool::acquire\<close> takes the clients in turn.\<close>

definition acquire :: "'c list \<Rightarrow> u64 \<Rightarrow> 'c exec \<times> u64" where
  "acquire clients counter = (if clients = [] then Panic else index clients (unat counter mod length clients), counter + 1)"

fun acquire_many :: "'c list \<Rightarrow> nat \<Rightarrow> u64 \<Rightarrow> 'c exec list" where
  "acquire_many clients 0 counter = []"
| "acquire_many clients (Suc n) counter = (case acquire clients counter of (c, counter') \<Rightarrow> c # acquire_many clients n counter')"

lemma acquire_in_turn:
  assumes "clients \<noteq> []" "unat counter + n < 2 ^ 64" "i < n"
  shows "acquire_many clients n counter ! i = Done (clients ! ((unat counter + i) mod length clients))"
  using assms(2,3)
proof (induction n arbitrary: counter i)
  case (Suc n)
  have c: "unat (counter + 1) = unat counter + 1" using Suc.prems(1) by (simp add: unat_word_ariths)
  show ?case
  proof (cases i)
    case 0
    then show ?thesis using assms(1) by (simp add: acquire_def index_def)
  next
    case (Suc j)
    then show ?thesis using Suc.IH [of "counter + 1" j] Suc.prems c by (simp add: acquire_def)
  qed
qed simp

text \<open>The percentiles that the load generator reports, by nearest rank.\<close>

definition percentile_from_sorted :: "f64_ops \<Rightarrow> u64 list \<Rightarrow> f64 \<Rightarrow> u64 exec" where
  "percentile_from_sorted fl samples pc =
     (let n = length samples in
      if n = 0 then Done 0
      else let rank = nat \<lceil>f_mul fl (f_divide fl pc 100) (rnd fl (of_nat n))\<rceil>;
               rank = (if rank = 0 then 1 else rank);
               rank = (if rank > n then n else rank)
           in index samples (rank - 1))"

definition compute_latency_percentiles_us :: "f64_ops \<Rightarrow> u64 list \<Rightarrow> (u64 \<times> u64 \<times> u64 \<times> u64) option exec" where
  "compute_latency_percentiles_us fl samples =
     (if samples = [] then Done None
      else let s = sort samples in
        bind_exec (percentile_from_sorted fl s 50) (\<lambda>p50.
        bind_exec (percentile_from_sorted fl s 90) (\<lambda>p90.
        bind_exec (percentile_from_sorted fl s 95) (\<lambda>p95.
        bind_exec (percentile_from_sorted fl s 99) (\<lambda>p99. Done (Some (p50, p90, p95, p99)))))))"

lemma nearest_rank:
  assumes "sorted xs" "0 < r" "r \<le> length xs" "v = xs ! (r - 1)"
  shows "r \<le> length (filter (\<lambda>x. x \<le> v) xs)" "length (filter (\<lambda>x. x < v) xs) < r"
proof -
  have "{..<r} \<subseteq> {i. i < length xs \<and> xs ! i \<le> v}" using assms by (auto intro: sorted_nth_mono)
  then have "card {..<r} \<le> card {i. i < length xs \<and> xs ! i \<le> v}" by (intro card_mono) auto
  then show "r \<le> length (filter (\<lambda>x. x \<le> v) xs)" by (simp add: length_filter_conv_card)
  have "i < r - 1" if "i < length xs" "xs ! i < v" for i
  proof (rule ccontr)
    assume "\<not> i < r - 1"
    then have "v \<le> xs ! i" using assms that(1) by (auto intro: sorted_nth_mono)
    then show False using that(2) by simp
  qed
  then have "{i. i < length xs \<and> xs ! i < v} \<subseteq> {..<r - 1}" by auto
  then have "card {i. i < length xs \<and> xs ! i < v} \<le> r - 1" using card_mono [of "{..<r - 1}"] by fastforce
  then show "length (filter (\<lambda>x. x < v) xs) < r" using assms(2) by (simp add: length_filter_conv_card)
qed

lemma percentile_by_rank:
  assumes "\<And>x. rnd fl x = x" "sorted xs" "xs \<noteq> []" "0 < pc" "pc \<le> 100"
  shows "\<exists>v. percentile_from_sorted fl xs pc = Done v \<and> pc * of_nat (length xs) \<le> 100 * of_nat (length (filter (\<lambda>x. x \<le> v) xs)) \<and>
    100 * of_nat (length (filter (\<lambda>x. x < v) xs)) < pc * of_nat (length xs)"
proof -
  let ?n = "length xs" and ?q = "pc / 100 * of_nat (length xs) :: rat"
  define r where "r = nat \<lceil>?q\<rceil>"
  have q: "0 < ?q" "?q \<le> of_nat ?n" using assms(3-5) by (auto simp: mult_le_cancel_right1 divide_le_eq)
  have "\<lceil>?q\<rceil> \<le> int ?n" using q(2) by (simp add: ceiling_le_iff)
  then have r: "0 < r" "r \<le> ?n" "int r = \<lceil>?q\<rceil>" using q(1) by (auto simp: r_def)
  define v where "v = xs ! (r - 1)"
  have "percentile_from_sorted fl xs pc = Done v"
    unfolding percentile_from_sorted_def f_mul_def f_divide_def assms(1) Let_def r_def [symmetric]
    using r(1,2) assms(3) by (simp add: index_def v_def)
  moreover have "?q \<le> of_nat (length (filter (\<lambda>x. x \<le> v) xs))"
  proof -
    have "?q \<le> of_int \<lceil>?q\<rceil>" by (rule le_of_int_ceiling)
    also have "\<dots> = of_nat r" using r(3) by (metis of_int_of_nat_eq)
    also have "\<dots> \<le> of_nat (length (filter (\<lambda>x. x \<le> v) xs))" using nearest_rank(1) [OF assms(2) r(1,2) v_def] by (simp only: of_nat_le_iff)
    finally show ?thesis .
  qed
  moreover have "of_nat (length (filter (\<lambda>x. x < v) xs)) < ?q"
  proof -
    have "int (length (filter (\<lambda>x. x < v) xs)) < \<lceil>?q\<rceil>" using nearest_rank(2) [OF assms(2) r(1,2) v_def] r(3) by simp
    then show ?thesis by (simp add: less_ceiling_iff)
  qed
  ultimately show ?thesis by (intro exI [of _ v]) (simp add: field_simps)
qed

end
