(* ===== verification/Spec2Isabelle.thy ===== *)
theory Spec2Isabelle
  imports Sched_Queues Multi_Queue Tonic_Hooks Rajomon Tail_Clipper Predictive Request_Future Shared_Prio_Queue Oracle_Acyclic Oracle_Exec Conn_Pool Trace_Service Trace_Replay
begin

text \<open>
  A verification development of \<open>masa\<close>, a stack for RPC services that schedules requests,
  estimates what they still need and refuses the ones that cannot meet their deadline.

  \<^bold>\<open>The program.\<close> A service built on it answers a request in these steps. The adapter of
  \<open>rpcstack-tonic\<close> turns tonic's hooks into calls of a stack of modules (\<open>rpcstack\<close>): each
  module is constructed from its section of one request header, sees every poll of the handler,
  every child RPC before and after it, and the result, and writes its sections into the children's
  requests and into the response. The sections are text: a name, and the base64 of a binary
  encoding (\<open>rpcstack-wire\<close>). Modules of one request share data through typed extensions, and
  settle contested values through decisions. Masa's own modules (\<open>masa-policy\<close>) carry a budget
  from hop to hop, end requests past their deadline, learn latencies per edge of the call tree and
  per group of children issued together, derive the children's deadlines and priorities from
  them, and admit or shed by prediction; \<open>rajomon\<close> and \<open>tailclipper\<close> are two other policies. The
  runtime takes its tasks from the run queues of \<open>rpcstack-sched\<close> or from the concurrent queue
  \<open>multiqueue-prio-queue\<close>, ordered by the priorities these modules give. Three parts of the
  applications under \<open>apps/\<close> belong to it as well: the synthetic benchmark plans, at its entry
  point, the work and the deadline of every call of a request and sends the plan along as the
  oracle's hints; the trace benchmark runs services whose calls, methods and latencies follow
  recorded call graphs, or replays recorded requests; and services reach their stores through a
  pool of connections.

  \<^bold>\<open>Theories and sources\<close> (paths under \<open>libs/\<close>, or under \<open>apps/\<close> where they say so).
  \<^item> \<open>Prelude\<close>: machine integers, panics, saturating arithmetic, string searches, shared lemmas.
  \<^item> \<open>Binary_Heap\<close>: the standard library's heap, on its array, with the interface \<open>keyed_heap\<close>.
  \<^item> \<open>Sched_Queues\<close>: \<open>rpcstack-sched/src\<close>; the queues satisfy the interface \<open>run_queue\<close>.
  \<^item> \<open>Multi_Queue\<close>: \<open>multiqueue-prio-queue/src/lib.rs\<close>, as steps of threads over locks and counters.
  \<^item> \<open>Shared_Prio_Queue\<close>: the queue that the workers of the fork of tokio share
    (\<open>tokio/tokio/src/runtime/scheduler/multi_thread/prio_queue.rs\<close>), and a task's timing facts.
  \<^item> \<open>Wire_Codec\<close>: \<open>rpcstack-wire/src/lib.rs\<close>. \<open>Wire_Sections\<close>: \<open>rpcstack/src/wire.rs\<close>, with the
    interface \<open>section_store\<close>.
  \<^item> \<open>Extensions\<close>: \<open>rpcstack/src/extensions.rs\<close>, with the interface \<open>typed_map\<close>.
  \<^item> \<open>Module_Stack\<close>: \<open>rpcstack/src/module.rs\<close>, with the interface \<open>hook_log\<close> for what a stack has called.
  \<^item> \<open>Tonic_Hooks\<close>: \<open>rpcstack-tonic/src/hooks.rs\<close> and \<open>metadata.rs\<close>.
  \<^item> \<open>Request_Future\<close>: how a request's context reaches the code that runs for it: the poll hooks of
    \<open>tokio/tokio/src/masa\<close>, \<open>tonic/tonic/src/masa\<close>, \<open>masa_unary\<close> of \<open>tonic/tonic/src/server/grpc.rs\<close>, and
    the calls that \<open>tonic/tonic-build/src/client.rs\<close> writes into a client.
  \<^item> \<open>Masa_Context\<close>: \<open>masa-core/src\<close>, the context of a request and reading it from headers.
  \<^item> \<open>Policy_Modules\<close>: \<open>masa-policy/src/module\<close>: \<open>budget.rs\<close>, \<open>e2e_deadline_guard.rs\<close>, \<open>oracle.rs\<close>,
    \<open>queue_latency.rs\<close>; \<open>context_ext.rs\<close> and \<open>masa_stack.rs\<close>.
  \<^item> \<open>Estimators\<close>: \<open>masa-core/src/latency_estimator\<close> and \<open>masa-policy/src/module/est/latency_map.rs\<close>, with
    the interface \<open>latency_estimator\<close>, which the groups of \<open>Fanout\<close> use. \<open>Mean_Var\<close>: the floating-point estimator \<open>mean_var.rs\<close>, over
    the arithmetic of \<open>Float_Ops\<close>.
  \<^item> \<open>Registry\<close>: \<open>masa-policy/src/registry.rs\<close>. \<open>Fanout\<close>: \<open>masa-policy/src/module/est/fanout.rs\<close>.
  \<^item> \<open>Estimation\<close>: the state of \<open>masa-policy/src/module/est\<close> (\<open>state/\<close> and \<open>wire.rs\<close>).
    \<open>Estimation_Module\<close>: its hooks, \<open>module.rs\<close> and \<open>signal_slack.rs\<close>.
  \<^item> \<open>Predictive\<close>: \<open>masa-policy/src/module/admission/predictive/mod.rs\<close> and \<open>policy_params.rs\<close>.
  \<^item> \<open>Rajomon\<close>: \<open>rajomon/src\<close>. \<open>Tail_Clipper\<close>: \<open>tailclipper/src/lib.rs\<close>, and the priority that the
    executor of \<open>hyper/src/common/exec.rs\<close> gives a stream.
  \<^item> \<open>Synth_Dist\<close>: \<open>apps/synthbench/src/distribution.rs\<close>, the distributions of a method's work.
    \<open>Synth_Config\<close>: \<open>config.rs\<close> there, the call sequences and the validation of the call graph.
  \<^item> \<open>Oracle_Planner\<close>: \<open>apps/synthbench/src/oracle.rs\<close>, planning and calibration. \<open>Oracle_Acyclic\<close>: what
    validation gives planning. \<open>Oracle_Work\<close>: the hints and the overheads of a plan.
    \<open>Oracle_Exec\<close>: the headers, and the handlers of \<open>main.rs\<close> that execute a plan, over a cluster.
  \<^item> \<open>Trace_Config\<close>: names, call graphs, samplers and distributions of \<open>apps/tracebench/trace-config/src\<close>.
    \<open>Trace_Sequence\<close>: the frequency and latency maps, call sequences and configuration there (\<open>svc/\<close>).
  \<^item> \<open>Trace_Service\<close>: the service of \<open>apps/tracebench/generic-service/src\<close>: \<open>parent_chain.rs\<close>,
    \<open>client_registry.rs\<close>, \<open>bootstrap.rs\<close>, \<open>core.rs\<close> and the handlers of \<open>main.rs\<close>, over a cluster.
    \<open>Trace_Replay\<close>: \<open>replay.rs\<close> and \<open>service_replay.rs\<close> there, and parts of \<open>loadgen.rs\<close>.
  \<^item> \<open>Conn_Pool\<close>: \<open>apps/app-utils/src/pool.rs\<close>, as steps of tasks over the pool's lock and semaphore.

  \<^bold>\<open>How code becomes definitions.\<close> A structure is a record and an enumeration a datatype, with
  the names of the source; a method is a function from its arguments and the state it changes to
  its result and the new state. \<open>exec\<close> is the result of code that may panic. Integers keep their
  width: \<open>+\<close> wraps as in a release build, and a theorem that needs no wrap-around says so or
  proves it. Text is a list of characters and binary data a list of bytes. Maps behind a mutex
  are passed along: an operation that holds the mutex throughout is one step. Code whose outcome
  depends on the interleaving of threads (\<open>Multi_Queue\<close>, \<open>Shared_Prio_Queue\<close>, \<open>Conn_Pool\<close>, the token
  bucket of \<open>Rajomon\<close>) is a step relation, one step per atomic access; the polls of tasks on the threads of a
  runtime are one in \<open>Request_Future\<close>, where a panic unwinds a poll and the runtime goes on. Clocks, random numbers, the environment and files are
  arguments, one for each read. Issuing a child and settling it read the clock just before the lock
  they then hold; each is one step of \<open>Estimation\<close>, so these steps come in the order of their times. A floating-point number is the rational it stands for; rounding,
  the exponential and the square root are parameters, with the law \<open>ieee\<close>.

  Crates outside the repository are parameters with their documented laws: the base64 engine
  (\<open>standard_engine\<close>), bincode (\<open>bincode_total\<close> and its parts), tonic's metadata map and types
  (\<open>metadata_ops\<close>, \<open>tonic_ops\<close>), the readers of JSON and CSV and the writer of JSON, and the samplers of
  \<open>rand_distr\<close>. Each law is shown to hold of a concrete
  function, on which the witnesses run.

  \<^bold>\<open>What is shown.\<close>
  \<^item> Queues: no task is lost or duplicated, the heaps serve in order, TailClipper's queue serves
    among its oldest; the two concurrent queues conserve their items and cannot deadlock, and the
    shared one serves infrastructure tasks first.
  \<^item> Wire: the decoder without allocation accepts exactly the canonical base64 of its size;
    sections behave as a map; contexts and metadata are read back as written.
  \<^item> Stack: extensions refine a map; validation succeeds exactly on stacks whose requirements are
    met; around every call of a client each pre-hook that ran is paired with one post-hook, except
    at the root when the header of the answer cannot be read; unless something panics, a handler and
    the tasks it spawns see the context of their request only, and contexts are released exactly
    when no task refers to them.
  \<^item> Budget and guards: a child reads the sealed budget; a request past its deadline is ended.
  \<^item> Estimation: estimators stay within their samples and never panic; identifiers are stable;
    groups of children are the components of their overlap; the indexed search equals a scan;
    a child looks up part of a group that is later recorded; depth, root and reports reach the
    hops they are for; a child's deadline is its parent's less the decayed estimate, and where an
    edge has an estimate, groups do not tighten it.
  \<^item> Admission: the controllers of predictive admission recover and are cut over the windows of
    their own outcomes, as the contract \<open>follows_windows\<close> bounds it, each request is checked and
    recorded once; Rajomon admits exactly the requests that pay, its bucket conserves tokens, and its
    prices follow the paper's rule; TailClipper's arrival times are kept, and bad ones refused.
  \<^item> Oracle: validation accepts exactly the call graphs without a cycle, and a validated graph
    plans, if no name has a colon and no log-normal latency a deviation of zero; a planned hint is the time that the rest of the plan takes; calibration adds
    each learned overhead once; on connected services the entry point executes the
    plan it made, each hop working as long as planned, and a call carries the deadline that its plan gives it.
  \<^item> Trace benchmark: uniting call graphs adds the weights of their edges; methods are sampled by
    their frequencies and latencies between those of the knots; a call of the legacy format finds
    its sequence; a request returns on every call graph, cyclic ones included, if no name has the
    delimiter of the parent chain; a replay performs the recorded work, all of it if it meets the
    objective. Examples show what a delimiter in a name and a wrong unit do.
  \<^item> Connection pool: no connection is lost or given to two tasks, and the count of connections is
    exact. Sequences of steps show where the pool exceeds its size, loses a wake-up, strands a
    waiter or loses the reservation of a cancelled task.

  \<^bold>\<open>Bounds.\<close> Every loop of the model terminates by structure or by a measure, with one exception:
  planning and validating a call graph follow calls from method to method and would not end on a
  cycle, so they run to a depth, with the result \<open>TooDeep\<close> beyond it. The number of methods is
  shown to be deep enough for validation on every graph and for planning on every validated one;
  a cluster runs to the depth of the plan's calls, shown to be enough to execute it, and the
  cluster of the trace benchmark to the number of services, shown to be enough for any request.
  Hypotheses bound what the code does not check: fewer than \<open>2 ^ 64\<close> calls where a counter could
  wrap, times up to \<open>2 ^ 53\<close> microseconds (285 years) where they become floating-point numbers.

  \<^bold>\<open>Not modelled.\<close> The forks of tokio, hyper and tonic under \<open>libs/\<close>, apart from the parts named
  above: third-party runtimes, of which the model takes the calls into these components. The
  re-exports and channel wrappers of \<open>masa\<close>; benchmarks and tests; the applications apart from the
  parts named above, whose handlers are calls of databases, caches and generated stubs, and the
  experiment tooling, which starts processes; of the synthetic benchmark, its bootstrap, its queue
  monitor and the handlers without a plan, which only sleep and call; of the trace benchmark, the
  open-loop load generator and the readers of single files; log lines,
  printers and dumps of estimates; allocation and capacity; the memory order of relaxed atomics,
  taken as sequentially consistent. NaN and infinities, which the modelled code does not produce
  from finite parameters.
\<close>

end
